(* ===== verification/Prelude.thy ===== *)
theory Prelude
  imports Main "HOL-Library.Word" "HOL-Library.Sublist"
begin

text \<open>
  Shared vocabulary of the development: bytes and fixed-width integers of the C and C++ code,
  string literals as byte lists, bounds-checked reads of a buffer, byte-at-a-time reference
  machines, and the interface through which a parser that is fed one network segment at a time
  is compared with such a machine.

  Reads outside a buffer are undefined behaviour in the source. In the model they are the value
  \<open>None\<close>, so that "no such read happens" is a theorem and not a convention.
\<close>

unbundle bit_operations_syntax

type_synonym byte = "8 word"
type_synonym bytes = "byte list"
type_synonym u16 = "16 word"
type_synonym u32 = "32 word"
type_synonym u64 = "64 word"

named_theorems byte_consts "the character constants of the source"
named_theorems state_bits "reading the fields of a packed state word"

text \<open>Character and string literals of the source.\<close>

definition ascii :: "string \<Rightarrow> bytes" where
  "ascii s = map of_char s"

abbreviation CR :: byte where "CR \<equiv> 13"
abbreviation LF :: byte where "LF \<equiv> 10"
abbreviation SP :: byte where "SP \<equiv> 32"
abbreviation HTAB :: byte where "HTAB \<equiv> 9"

lemma ascii_Nil [simp]: "ascii [] = []"
  by (simp add: ascii_def)

lemma ascii_Cons [simp]: "ascii (c # s) = of_char c # ascii s"
  by (simp add: ascii_def)

lemma length_ascii [simp]: "length (ascii s) = length s"
  by (simp add: ascii_def)

subsection \<open>Bounds-checked access to a buffer\<close>

definition rd :: "bytes \<Rightarrow> nat \<Rightarrow> byte option" where
  "rd mem p = (if p < length mem then Some (mem ! p) else None)"

definition wr :: "bytes \<Rightarrow> nat \<Rightarrow> byte \<Rightarrow> bytes option" where
  "wr mem p b = (if p < length mem then Some (mem[p := b]) else None)"

definition rdN :: "bytes \<Rightarrow> nat \<Rightarrow> nat \<Rightarrow> bytes option" where
  "rdN mem p k = (if p + k \<le> length mem then Some (take k (drop p mem)) else None)"

definition wrN :: "bytes \<Rightarrow> nat \<Rightarrow> bytes \<Rightarrow> bytes option" where
  "wrN mem p bs =
     (if p + length bs \<le> length mem
      then Some (take p mem @ bs @ drop (p + length bs) mem) else None)"

lemma rd_in [simp]: "p < length mem \<Longrightarrow> rd mem p = Some (mem ! p)"
  by (simp add: rd_def)

lemma rd_Some_iff: "rd mem p = Some b \<longleftrightarrow> p < length mem \<and> mem ! p = b"
  by (simp add: rd_def)

lemma rd_None_iff: "rd mem p = None \<longleftrightarrow> length mem \<le> p"
  by (simp add: rd_def not_less)

lemma wr_in [simp]: "p < length mem \<Longrightarrow> wr mem p b = Some (mem[p := b])"
  by (simp add: wr_def)

lemma wr_Some_iff: "wr mem p b = Some mem' \<longleftrightarrow> p < length mem \<and> mem' = mem[p := b]"
  by (auto simp: wr_def)

subsection \<open>Word arithmetic used in several components\<close>

lemma unat_of_nat_u64 [simp]: "n < 2 ^ 64 \<Longrightarrow> unat (of_nat n :: u64) = n"
  by (simp add: unat_of_nat take_bit_nat_eq_self)

lemma unat_of_nat_u32 [simp]: "n < 2 ^ 32 \<Longrightarrow> unat (of_nat n :: u32) = n"
  by (simp add: unat_of_nat take_bit_nat_eq_self)

lemma unat_of_nat_u16 [simp]: "n < 2 ^ 16 \<Longrightarrow> unat (of_nat n :: u16) = n"
  by (simp add: unat_of_nat take_bit_nat_eq_self)

lemma unat_of_nat_u8 [simp]: "n < 256 \<Longrightarrow> unat (of_nat n :: byte) = n"
  by (simp add: unat_of_nat take_bit_nat_eq_self)

lemma unat_byte_less [simp]: "unat (b :: byte) < 256"
  using unsigned_less [of b] by simp

lemma unat_ucast_u64 [simp]: "unat (ucast (b :: byte) :: u64) = unat b"
proof -
  have "unat b < 2 ^ 64" by (rule less_trans [OF unat_byte_less]) simp
  then show ?thesis by (simp add: unsigned_ucast_eq take_bit_nat_eq_self)
qed

lemma unat_ucast_u32 [simp]: "unat (ucast (b :: byte) :: u32) = unat b"
proof -
  have "unat b < 2 ^ 32" by (rule less_trans [OF unat_byte_less]) simp
  then show ?thesis by (simp add: unsigned_ucast_eq take_bit_nat_eq_self)
qed

lemma of_nat_unat_id: "(of_nat (unat w) :: 'a::len word) = w"
  by simp

subsection \<open>Loading and storing little-endian integers\<close>

text \<open>
  \<open>memcpy\<close> between a byte buffer and an integer object, on the little-endian machines the program
  is built for. \<open>load_le\<close> reads the bytes it is given, \<open>store_le k\<close> gives the first \<open>k\<close> bytes.
\<close>

fun load_le :: "bytes \<Rightarrow> 'a::len word" where
  "load_le [] = 0"
| "load_le (b # bs) = ucast b OR push_bit 8 (load_le bs)"

definition store_le :: "nat \<Rightarrow> 'a::len word \<Rightarrow> bytes" where
  "store_le k w = map (\<lambda>i. ucast (drop_bit (8 * i) w)) [0..<k]"

lemma length_store_le [simp]: "length (store_le k w) = k"
  by (simp add: store_le_def)

lemma bit_load_le:
  "bit (load_le bs :: 'a::len word) n \<longleftrightarrow>
     n < LENGTH('a) \<and> n < 8 * length bs \<and> bit (bs ! (n div 8)) (n mod 8)"
proof (induction bs arbitrary: n)
  case Nil
  then show ?case by simp
next
  case (Cons b bs)
  show ?case
  proof (cases "n < 8")
    case True
    then show ?thesis by (auto simp: bit_or_iff bit_push_bit_iff bit_unsigned_iff)
  next
    case False
    then have "n div 8 = Suc ((n - 8) div 8)" and "n mod 8 = (n - 8) mod 8"
      using div_add_self2 [of 8 "n - 8"] mod_add_self2 [of "n - 8" 8] by simp_all
    moreover have "\<not> bit b n"
      using False bit_imp_le_length [of b n] by auto
    ultimately show ?thesis
      using False Cons.IH [of "n - 8"]
      by (auto simp: bit_or_iff bit_push_bit_iff bit_unsigned_iff)
  qed
qed

lemma store_le_nth: "i < k \<Longrightarrow> store_le k w ! i = ucast (drop_bit (8 * i) w)"
  by (simp add: store_le_def)

lemma byte_of_load:
  fixes bs :: bytes
  assumes "i < length bs" and "8 * length bs \<le> LENGTH('a::len)"
  shows "(ucast (drop_bit (8 * i) (load_le bs :: 'a word)) :: byte) = bs ! i"
proof (rule bit_word_eqI)
  fix n assume "n < LENGTH(8)"
  then have n: "n < 8" by simp
  then have "8 * i + n < 8 * length bs" using assms(1) by simp
  then show "bit (ucast (drop_bit (8 * i) (load_le bs :: 'a word)) :: byte) n = bit (bs ! i) n"
    using n assms(2) by (simp add: bit_unsigned_iff bit_drop_bit_eq bit_load_le)
qed

lemma store_load_le:
  assumes "8 * length bs \<le> LENGTH('a::len)"
  shows "store_le (length bs) (load_le bs :: 'a word) = bs"
  using assms by (intro nth_equalityI) (simp_all add: store_le_nth byte_of_load)

lemma load_le_inject:
  assumes "length xs = length ys" and "8 * length xs \<le> LENGTH('a::len)"
  shows "(load_le xs :: 'a word) = load_le ys \<longleftrightarrow> xs = ys"
  by (metis assms store_load_le)

lemma load_le_map2:
  assumes "length xs = length ys" and "8 * length xs \<le> LENGTH('a::len)"
  shows "store_le (length xs) ((load_le xs :: 'a word) XOR load_le ys) = map2 (XOR) xs ys"
  using assms
  by (intro nth_equalityI) (simp_all add: store_le_nth drop_bit_xor unsigned_xor_eq byte_of_load)

lemma load_store_le:
  assumes "LENGTH('a::len) = 8 * k"
  shows "load_le (store_le k w) = (w :: 'a word)"
proof (rule bit_word_eqI)
  fix n assume n: "n < LENGTH('a)"
  then have "n div 8 < k" using assms by (simp add: less_mult_imp_div_less)
  moreover have "8 * (n div 8) + n mod 8 = n" by simp
  ultimately show "bit (load_le (store_le k w) :: 'a word) n = bit w n"
    using n assms by (simp add: bit_load_le store_le_nth bit_unsigned_iff bit_drop_bit_eq)
qed

subsection \<open>Byte-at-a-time machines\<close>

text \<open>
  A machine takes one byte at a time and may emit output; it stops when it reaches a final
  state, leaving the rest of the input. \<open>run_machine\<close> gives the state reached, the output and
  the bytes that were not consumed.
\<close>

fun run_machine ::
  "('s \<Rightarrow> byte \<Rightarrow> 's \<times> 'o list) \<Rightarrow> ('s \<Rightarrow> bool) \<Rightarrow> 's \<Rightarrow> bytes \<Rightarrow> 's \<times> 'o list \<times> bytes" where
  "run_machine step final s [] = (s, [], [])"
| "run_machine step final s (b # bs) =
     (if final s then (s, [], b # bs)
      else let (s1, o1) = step s b; (s2, o2, rest) = run_machine step final s1 bs
           in (s2, o1 @ o2, rest))"

lemma run_machine_final [simp]: "final s \<Longrightarrow> run_machine step final s bs = (s, [], bs)"
  by (cases bs) simp_all

lemma run_machine_append:
  "run_machine step final s (xs @ ys) =
     (let (s1, o1, r1) = run_machine step final s xs
      in if r1 = [] then (let (s2, o2, r2) = run_machine step final s1 ys in (s2, o1 @ o2, r2))
         else (s1, o1, r1 @ ys))"
proof (induction xs arbitrary: s)
  case Nil
  then show ?case by (simp add: Let_def split: prod.splits)
next
  case (Cons x xs)
  then show ?case by (auto simp: Let_def split: prod.splits)
qed

lemma run_machine_rest_final:
  "run_machine step final s xs = (s', out, rest) \<Longrightarrow> rest \<noteq> [] \<Longrightarrow> final s'"
  by (induction xs arbitrary: s out)
     (auto simp: Let_def split: prod.splits if_splits)

lemma run_machine_suffix:
  "run_machine step final s xs = (s', out, rest) \<Longrightarrow> suffix rest xs"
  by (induction xs arbitrary: s out)
     (auto simp: Let_def intro: suffix_ConsI split: prod.splits if_splits)

subsection \<open>Parsers that are fed one segment at a time\<close>

text \<open>
  \<open>feed_all\<close> hands the segments of a stream to a parser in turn, the way the event loop hands
  it each receive buffer. It stops at the first segment the parser does not consume wholly and
  keeps the unread rest of that segment with the segments not yet offered.
\<close>

fun feed_all ::
  "('c \<Rightarrow> bytes \<Rightarrow> ('c \<times> 'o list \<times> bytes) option) \<Rightarrow> 'c \<Rightarrow> bytes list \<Rightarrow>
     ('c \<times> 'o list \<times> bytes) option" where
  "feed_all feed c [] = Some (c, [], [])"
| "feed_all feed c (seg # segs) =
     (case feed c seg of
        None \<Rightarrow> None
      | Some (c1, o1, rest) \<Rightarrow>
          if rest = [] then
            (case feed_all feed c1 segs of
               None \<Rightarrow> None
             | Some (c2, o2, rest2) \<Rightarrow> Some (c2, o1 @ o2, rest2))
          else Some (c1, o1, rest @ concat segs))"

text \<open>
  The interface between a segment parser and its reference machine: on every segment on which
  the machine stays inside the region \<open>good\<close> (where the two are supposed to agree), the parser
  started in a state that represents the machine's state ends in one that represents the
  machine's next state, with the same output and the same unread bytes. The client of the
  interface gets the same statement for any segmentation of the stream.
\<close>

locale segment_simulation =
  fixes feed :: "'c \<Rightarrow> bytes \<Rightarrow> ('c \<times> 'o list \<times> bytes) option"
    and step :: "'s \<Rightarrow> byte \<Rightarrow> 's \<times> 'o list"
    and final :: "'s \<Rightarrow> bool"
    and good :: "'s \<Rightarrow> bool"
    and rel :: "'s \<Rightarrow> 'c \<Rightarrow> bool"
    and seg_ok :: "bytes \<Rightarrow> bool"
  assumes feed_step: "seg_ok xs \<Longrightarrow> rel s c \<Longrightarrow> run_machine step final s xs = (s', out, rest) \<Longrightarrow>
      good s' \<Longrightarrow> \<exists>c'. feed c xs = Some (c', out, rest) \<and> rel s' c'"
    and good_closed: "\<not> good s \<Longrightarrow> \<not> good (fst (step s b))"
begin

lemma run_not_good: "\<not> good s \<Longrightarrow> \<not> good (fst (run_machine step final s xs))"
proof (induction xs arbitrary: s)
  case Nil
  then show ?case by simp
next
  case (Cons x xs)
  have "\<not> good (fst (step s x))"
    using Cons.prems by (rule good_closed)
  then have "\<not> good (fst (run_machine step final (fst (step s x)) xs))"
    by (rule Cons.IH)
  with Cons.prems show ?case by (auto simp: Let_def split: prod.splits)
qed

theorem segmentation_simulated:
  assumes "\<And>seg. seg \<in> set segs \<Longrightarrow> seg_ok seg" and "rel s c"
    and "run_machine step final s (concat segs) = (s', out, rest)" and "good s'"
  shows "\<exists>c'. feed_all feed c segs = Some (c', out, rest) \<and> rel s' c'"
  using assms
proof (induction segs arbitrary: s c out)
  case Nil
  then show ?case by simp
next
  case (Cons seg segs)
  obtain s1 o1 r1 where r1: "run_machine step final s seg = (s1, o1, r1)"
    by (metis prod_cases3)
  show ?case
  proof (cases "r1 = []")
    case True
    obtain s2 o2 r2 where r2: "run_machine step final s1 (concat segs) = (s2, o2, r2)"
      by (metis prod_cases3)
    from Cons.prems(3) r1 r2 True have eqs: "s' = s2" "out = o1 @ o2" "rest = r2"
      by (auto simp: run_machine_append Let_def)
    with Cons.prems(4) r2 have "good s1"
      using run_not_good [of s1 "concat segs"] by auto
    then obtain c1 where c1: "feed c seg = Some (c1, o1, [])" "rel s1 c1"
      using feed_step [OF _ Cons.prems(2) r1] Cons.prems(1) True by auto
    then obtain c2 where "feed_all feed c1 segs = Some (c2, o2, r2)" "rel s2 c2"
      using Cons.IH [of s1 c1 o2] Cons.prems(1,4) r2 eqs by auto
    with c1 eqs show ?thesis by simp
  next
    case False
    with Cons.prems(3) r1 have eqs: "s' = s1" "out = o1" "rest = r1 @ concat segs"
      by (auto simp: run_machine_append Let_def)
    then obtain c1 where "feed c seg = Some (c1, o1, r1)" "rel s1 c1"
      using feed_step [OF _ Cons.prems(2) r1] Cons.prems(1,4) by auto
    with False eqs show ?thesis by simp
  qed
qed

end

text \<open>
  The special case in which the machine's state determines the parser's state.
\<close>

locale segment_parser =
  fixes feed :: "'c \<Rightarrow> bytes \<Rightarrow> ('c \<times> 'o list \<times> bytes) option"
    and step :: "'s \<Rightarrow> byte \<Rightarrow> 's \<times> 'o list"
    and final :: "'s \<Rightarrow> bool"
    and good :: "'s \<Rightarrow> bool"
    and rep :: "'s \<Rightarrow> 'c"
    and wf :: "'s \<Rightarrow> bool"
    and seg_ok :: "bytes \<Rightarrow> bool"
  assumes feed_exact: "seg_ok xs \<Longrightarrow> wf s \<Longrightarrow> run_machine step final s xs = (s', out, rest) \<Longrightarrow> good s' \<Longrightarrow>
      feed (rep s) xs = Some (rep s', out, rest)"
    and bad_closed: "\<not> good s \<Longrightarrow> \<not> good (fst (step s b))"
    and wf_step: "wf s \<Longrightarrow> wf (fst (step s b))"
begin

lemma run_wf: "wf s \<Longrightarrow> wf (fst (run_machine step final s xs))"
proof (induction xs arbitrary: s)
  case Nil
  then show ?case by simp
next
  case (Cons x xs)
  from Cons.prems have "wf (fst (step s x))" by (rule wf_step)
  then have "wf (fst (run_machine step final (fst (step s x)) xs))" by (rule Cons.IH)
  with Cons.prems show ?case by (auto simp: Let_def split: prod.splits)
qed

end

sublocale segment_parser \<subseteq>
  simulation: segment_simulation feed step final good "\<lambda>s c. wf s \<and> c = rep s" seg_ok
proof
  show "\<exists>c'. feed c xs = Some (c', out, rest) \<and> wf s' \<and> c' = rep s'"
    if "seg_ok xs" "wf s \<and> c = rep s" "run_machine step final s xs = (s', out, rest)" "good s'"
    for xs s c s' out rest
    using feed_exact [of xs s s' out rest] run_wf [of s xs] that by simp
qed (rule bad_closed)

context segment_parser begin

theorem segmentation_independent:
  assumes "\<And>seg. seg \<in> set segs \<Longrightarrow> seg_ok seg" and "wf s"
    and "run_machine step final s (concat segs) = (s', out, rest)" and "good s'"
  shows "feed_all feed (rep s) segs = Some (rep s', out, rest)"
  using simulation.segmentation_simulated [of segs s "rep s" s' out rest] assms by auto

end

end
