(* ===== verification/ChunkedEncoding.thy ===== *)
theory ChunkedEncoding
  imports Prelude
begin

text \<open>
  The chunked transfer coding decoder of native/uwebsockets/ChunkedEncoding.h. Its whole state is
  one 64-bit word: four flag bits on top of a 60-bit size. The reference machine of this theory
  reads one byte at a time; the decoder, which works on whole receive segments and emits slices of
  them, is shown to agree with it however the stream is cut.
\<close>

section \<open>The decoder\<close>

definition STATE_HAS_SIZE :: u64 where "STATE_HAS_SIZE = push_bit 63 1"
definition STATE_IS_CHUNKED :: u64 where "STATE_IS_CHUNKED = push_bit 62 1"
definition STATE_IS_EXTENSION :: u64 where "STATE_IS_EXTENSION = push_bit 61 1"
definition STATE_IS_TRAILER :: u64 where "STATE_IS_TRAILER = push_bit 60 1"
definition STATE_SIZE_MASK :: u64 where "STATE_SIZE_MASK = NOT (push_bit 60 0x0f)"
definition STATE_IS_ERROR :: u64 where "STATE_IS_ERROR = NOT 0"
definition STATE_SIZE_OVERFLOW :: u64 where "STATE_SIZE_OVERFLOW = push_bit 56 0x0F"

definition chunkSize :: "u64 \<Rightarrow> u64" where
  "chunkSize state = state AND STATE_SIZE_MASK"

definition hexDigit :: "byte \<Rightarrow> u64 option" where
  "hexDigit digit =
     (if 48 \<le> digit \<and> digit \<le> 57 then Some (ucast digit - 48)
      else if 65 \<le> digit \<and> digit \<le> 70 then Some (ucast digit - 65 + 10)
      else if 97 \<le> digit \<and> digit \<le> 102 then Some (ucast digit - 97 + 10)
      else None)"

text \<open>
  The digit loop of \<open>consumeHexNumber\<close>. The boolean tells whether the loop left the whole
  function through one of its two error returns.
\<close>

fun consumeHexDigits :: "bytes \<Rightarrow> u64 \<Rightarrow> bool \<times> bytes \<times> u64" where
  "consumeHexDigits [] state = (False, [], state)"
| "consumeHexDigits (digit # data) state =
     (case hexDigit digit of
        Some number \<Rightarrow>
          if chunkSize state AND STATE_SIZE_OVERFLOW \<noteq> 0 then (True, digit # data, STATE_IS_ERROR)
          else consumeHexDigits data (((state AND STATE_SIZE_MASK) * 16 + number) OR STATE_IS_CHUNKED)
      | None \<Rightarrow>
          if digit = 59 then (False, data, state OR STATE_IS_EXTENSION)
          else if digit = CR \<or> digit = LF then (False, digit # data, state)
          else (True, digit # data, STATE_IS_ERROR))"

text \<open>
  The rest of the function: everything up to the line feed is skipped, and the line feed turns the
  number into the size of a chunk with its two terminating bytes.
\<close>

definition endSizeLine :: "u64 \<Rightarrow> u64" where
  "endSizeLine state =
     ((state + 2) AND NOT STATE_IS_EXTENSION) OR (STATE_HAS_SIZE OR STATE_IS_CHUNKED)"

fun skipSizeLine :: "bytes \<Rightarrow> u64 \<Rightarrow> bytes \<times> u64" where
  "skipSizeLine [] state = ([], state)"
| "skipSizeLine (b # data) state =
     (if b \<noteq> LF then skipSizeLine data state else (data, endSizeLine state))"

definition consumeHexNumber :: "bytes \<Rightarrow> u64 \<Rightarrow> bytes \<times> u64" where
  "consumeHexNumber data state =
     (if state AND STATE_IS_EXTENSION = 0 then
        (case consumeHexDigits data state of
           (returned, data', state') \<Rightarrow>
             if returned then (data', state') else skipSizeLine data' state')
      else skipSizeLine data state)"

definition decChunkSize :: "u64 \<Rightarrow> u32 \<Rightarrow> u64" where
  "decChunkSize state by = (state AND NOT STATE_SIZE_MASK) OR (chunkSize state - ucast by)"

definition hasChunkSize :: "u64 \<Rightarrow> bool" where
  "hasChunkSize state \<longleftrightarrow> state AND STATE_HAS_SIZE \<noteq> 0"

definition isParsingChunkedEncoding :: "u64 \<Rightarrow> bool" where
  "isParsingChunkedEncoding state \<longleftrightarrow> state AND NOT STATE_SIZE_MASK \<noteq> 0"

definition isParsingInvalidChunkedEncoding :: "u64 \<Rightarrow> bool" where
  "isParsingInvalidChunkedEncoding state \<longleftrightarrow> state = STATE_IS_ERROR"

text \<open>Every call of \<open>consumeHexNumber\<close> that reports no error makes progress.\<close>

lemma consumeHexDigits_length:
  "length (fst (snd (consumeHexDigits data state))) \<le> length data"
  by (induction data state rule: consumeHexDigits.induct) (auto split: option.splits)

lemma consumeHexDigits_returned:
  "fst (consumeHexDigits data state) \<Longrightarrow> snd (snd (consumeHexDigits data state)) = STATE_IS_ERROR"
  by (induction data state rule: consumeHexDigits.induct) (auto split: option.splits if_splits)

lemma skipSizeLine_length: "length (fst (skipSizeLine data state)) \<le> length data - 1"
  by (induction data state rule: skipSizeLine.induct) auto

lemma consumeHexNumber_progress:
  assumes "data \<noteq> []" and "snd (consumeHexNumber data state) \<noteq> STATE_IS_ERROR"
  shows "length (fst (consumeHexNumber data state)) < length data"
proof -
  obtain r d s where chd: "consumeHexDigits data state = (r, d, s)"
    by (metis prod_cases3)
  obtain n where n: "length data = Suc n"
    using assms(1) by (cases data) auto
  have "length (fst (skipSizeLine d s)) \<le> n"
    using skipSizeLine_length [of d s] consumeHexDigits_length [of data state] chd n by simp
  then show ?thesis
    using assms(2) chd n consumeHexDigits_returned [of data state] skipSizeLine_length [of data state]
    by (auto simp: consumeHexNumber_def split: if_splits)
qed

text \<open>
  \<open>getNextChunk\<close> returns the next slice (or none), the rest of the segment and the new state. The
  outer \<open>None\<close> is a read outside the segment: \<open>data[chunkSize(state) - 1]\<close> with a size of zero.
\<close>

function getNextChunk :: "bytes \<Rightarrow> u64 \<Rightarrow> (bytes option \<times> bytes \<times> u64) option" where
  "getNextChunk data state =
     (if data = [] then Some (None, data, state)
      else if state AND STATE_IS_TRAILER \<noteq> 0 then Some (None, data, state)
      else if \<not> hasChunkSize state then
        (case consumeHexNumber data state of
           (data', state') \<Rightarrow>
             if isParsingInvalidChunkedEncoding state' then Some (None, data', state')
             else if hasChunkSize state' \<and> chunkSize state' = 2
               then Some (Some [], data', STATE_IS_TRAILER)
             else getNextChunk data' state')
      else
        (let size = unat (chunkSize state) in
         if size \<le> length data then
           (if size = 0 then None
            else if 2 \<le> size \<and> data ! (size - 2) \<noteq> CR \<or> data ! (size - 1) \<noteq> LF
              then Some (None, data, STATE_IS_ERROR)
            else if 2 < size
              then Some (Some (take (size - 2) data), drop size data, STATE_IS_CHUNKED)
            else getNextChunk (drop size data) STATE_IS_CHUNKED)
         else if length data = size - 1 \<and> last data \<noteq> CR then Some (None, data, STATE_IS_ERROR)
         else
           (let emitSoon =
                  (if 2 < size
                   then if size - 2 < length data then take (size - 2) data else data
                   else []);
                state' = decChunkSize state (of_nat (length data)) OR STATE_IS_CHUNKED
            in Some (if emitSoon \<noteq> [] then Some emitSoon else None, [], state'))))"
  by pat_completeness auto
termination
proof (relation "measure (\<lambda>(data, state). length data)", goal_cases)
  case 1
  show ?case by simp
next
  case (2 data state data' state')
  then show ?case
    using consumeHexNumber_progress [of data state]
    by (metis fst_conv in_measure isParsingInvalidChunkedEncoding_def case_prod_conv snd_conv)
next
  case (3 data state size)
  then show ?case by simp
qed

declare getNextChunk.simps [simp del]

text \<open>One equation per branch.\<close>

lemma getNextChunk_Nil: "getNextChunk [] state = Some (None, [], state)"
  by (simp add: getNextChunk.simps [of "[]" state])

lemma getNextChunk_trailer:
  "state AND STATE_IS_TRAILER \<noteq> 0 \<Longrightarrow> getNextChunk data state = Some (None, data, state)"
  by (simp add: getNextChunk.simps [of data state])

lemma getNextChunk_line:
  "data \<noteq> [] \<Longrightarrow> state AND STATE_IS_TRAILER = 0 \<Longrightarrow> \<not> hasChunkSize state \<Longrightarrow>
   getNextChunk data state =
     (case consumeHexNumber data state of
        (data', state') \<Rightarrow>
          if isParsingInvalidChunkedEncoding state' then Some (None, data', state')
          else if hasChunkSize state' \<and> chunkSize state' = 2
            then Some (Some [], data', STATE_IS_TRAILER)
          else getNextChunk data' state')"
  by (simp add: getNextChunk.simps [of data state])

lemma getNextChunk_whole:
  "data \<noteq> [] \<Longrightarrow> state AND STATE_IS_TRAILER = 0 \<Longrightarrow> hasChunkSize state \<Longrightarrow>
   n = unat (chunkSize state) \<Longrightarrow> n \<le> length data \<Longrightarrow>
   getNextChunk data state =
     (if n = 0 then None
      else if 2 \<le> n \<and> data ! (n - 2) \<noteq> CR \<or> data ! (n - 1) \<noteq> LF
        then Some (None, data, STATE_IS_ERROR)
      else if 2 < n
        then Some (Some (take (n - 2) data), drop n data, STATE_IS_CHUNKED)
      else getNextChunk (drop n data) STATE_IS_CHUNKED)"
  by (simp add: getNextChunk.simps [of data state] Let_def)

lemma getNextChunk_part:
  "data \<noteq> [] \<Longrightarrow> state AND STATE_IS_TRAILER = 0 \<Longrightarrow> hasChunkSize state \<Longrightarrow>
   n = unat (chunkSize state) \<Longrightarrow> length data < n \<Longrightarrow>
   getNextChunk data state =
     (if length data = n - 1 \<and> last data \<noteq> CR then Some (None, data, STATE_IS_ERROR)
      else Some (if 2 < n then Some (take (n - 2) data) else None, [],
                 decChunkSize state (of_nat (length data)) OR STATE_IS_CHUNKED))"
  by (simp add: getNextChunk.simps [of data state] Let_def)

text \<open>Every chunk that is returned has consumed input, so the loop over the chunks terminates.\<close>

lemma getNextChunk_progress:
  "getNextChunk data state = Some (Some c, data', state') \<Longrightarrow> length data' < length data"
proof (induction data state rule: getNextChunk.induct)
  case (1 data state)
  consider (nil) "data = []" | (trailer) "state AND STATE_IS_TRAILER \<noteq> 0"
    | (line) "data \<noteq> []" "state AND STATE_IS_TRAILER = 0" "\<not> hasChunkSize state"
    | (whole) "data \<noteq> []" "state AND STATE_IS_TRAILER = 0" "hasChunkSize state"
        "unat (chunkSize state) \<le> length data"
    | (part) "data \<noteq> []" "state AND STATE_IS_TRAILER = 0" "hasChunkSize state"
        "length data < unat (chunkSize state)"
    by linarith
  then show ?case
  proof cases
    case nil
    with "1.prems" show ?thesis by (simp add: getNextChunk_Nil)
  next
    case trailer
    with "1.prems" show ?thesis by (simp add: getNextChunk_trailer)
  next
    case line
    obtain d s where chn: "consumeHexNumber data state = (d, s)"
      by fastforce
    with line "1.prems" have ne: "s \<noteq> STATE_IS_ERROR"
      by (auto simp: getNextChunk_line isParsingInvalidChunkedEncoding_def)
    with line chn consumeHexNumber_progress [of data state] have "length d < length data"
      by simp
    with line chn ne "1.prems" "1.IH"(1) [of d s] show ?thesis
      by (fastforce simp: getNextChunk_line isParsingInvalidChunkedEncoding_def split: if_splits)
  next
    case whole
    with "1.prems" "1.IH"(2) [OF _ _ _ refl] show ?thesis
      by (fastforce simp: getNextChunk_whole [OF _ _ _ refl] split: if_splits)
  next
    case part
    with "1.prems" show ?thesis
      by (auto simp: getNextChunk_part [OF _ _ _ refl] split: if_splits)
  qed
qed

text \<open>
  The range-based \<open>for\<close> over a \<open>ChunkIterator\<close>: chunks are taken until there is none. The
  empty chunk that ends a body is delivered like any other.
\<close>

function chunkLoop :: "bytes \<Rightarrow> u64 \<Rightarrow> (bytes list \<times> bytes \<times> u64) option" where
  "chunkLoop data state =
     (case getNextChunk data state of
        None \<Rightarrow> None
      | Some (None, data', state') \<Rightarrow> Some ([], data', state')
      | Some (Some chunk, data', state') \<Rightarrow>
          (case chunkLoop data' state' of
             None \<Rightarrow> None
           | Some (chunks, data'', state'') \<Rightarrow> Some (chunk # chunks, data'', state'')))"
  by pat_completeness auto
termination
  by (relation "measure (\<lambda>(data, state). length data)") (auto dest: getNextChunk_progress)

declare chunkLoop.simps [simp del]

section \<open>Reading the packed state\<close>

lemmas chunk_flag_defs =
  STATE_HAS_SIZE_def STATE_IS_CHUNKED_def STATE_IS_EXTENSION_def STATE_IS_TRAILER_def
  STATE_IS_ERROR_def STATE_SIZE_OVERFLOW_def

lemma STATE_SIZE_MASK_mask: "STATE_SIZE_MASK = mask 60"
  by (simp add: STATE_SIZE_MASK_def mask_eq_exp_minus_1)

lemma high_bits: "take_bit 60 G = (0 :: u64) \<Longrightarrow> n < 60 \<Longrightarrow> \<not> bit G n"
  by (metis bit_0_eq bit_take_bit_iff bot_apply bot_bool_def)

lemma low_bits: "v < 2 ^ 60 \<Longrightarrow> 60 \<le> k \<Longrightarrow> \<not> bit (of_nat v :: u64) k"
proof -
  assume "v < 2 ^ 60" and "60 \<le> k"
  then have "take_bit 60 v = v" by (simp add: take_bit_nat_eq_self)
  then have "\<not> bit v k" using \<open>60 \<le> k\<close> by (metis bit_take_bit_iff linorder_not_le)
  then show ?thesis by (simp add: bit_simps)
qed

lemma flag_and_packed:
  assumes "v < 2 ^ 60" and "take_bit 60 G = (0 :: u64)"
  shows "(F OR of_nat v) AND G = F AND G"
proof (rule bit_word_eqI)
  fix n :: nat
  show "bit ((F OR of_nat v) AND G) n = bit (F AND G) n"
    using low_bits [OF assms(1), of n] high_bits [OF assms(2), of n]
    by (cases "n < 60") (auto simp only: bit_and_iff bit_or_iff not_less)
qed

lemma size_of_packed:
  assumes "v < 2 ^ 60" and "take_bit 60 F = (0 :: u64)"
  shows "(F OR of_nat v) AND mask 60 = of_nat v"
proof (rule bit_word_eqI)
  fix n :: nat
  show "bit ((F OR of_nat v) AND mask 60) n = bit (of_nat v :: u64) n"
    using low_bits [OF assms(1), of n] high_bits [OF assms(2), of n]
    by (cases "n < 60") (auto simp: bit_and_iff bit_or_iff bit_mask_iff not_less)
qed

lemma packed_as_sum:
  assumes "v < 2 ^ 60" and "take_bit 60 F = (0 :: u64)"
  shows "F OR of_nat v = F + of_nat v"
proof -
  have "F AND of_nat v = 0"
  proof (rule bit_word_eqI)
    fix n :: nat
    show "bit (F AND of_nat v) n = bit (0 :: u64) n"
      using low_bits [OF assms(1), of n] high_bits [OF assms(2), of n]
      by (cases "n < 60") (auto simp: bit_and_iff not_less)
  qed
  then show ?thesis by (simp add: disjunctive_add_eq_or)
qed

section \<open>The reference machine\<close>

text \<open>
  The position in a chunked body. \<open>Size v\<close> has read the digits of \<open>v\<close>, \<open>SizeCR v\<close> has also read
  a carriage return, \<open>Ext v\<close> is inside a chunk extension, \<open>Body n\<close> has \<open>n\<close> payload bytes to come.
  \<open>Bad\<close> is a rejected body. \<open>Outside\<close> marks the two inputs on which the decoder is not compared
  with the machine: a carriage return inside a size line that no line feed follows, and a size
  whose sum with the two terminator bytes does not fit the 60 bits of the size field.
\<close>

datatype chunk_pos =
  Size nat | SizeCR nat | Ext nat | Body nat | BodyCR | BodyLF | Done | Bad | Outside

datatype body_event = Byte byte | Fin

definition chunk_line_end :: "nat \<Rightarrow> chunk_pos \<times> body_event list" where
  "chunk_line_end v =
     (if v = 0 then (Done, [Fin]) else if v + 2 < 2 ^ 60 then (Body v, []) else (Outside, []))"

fun chunk_step :: "chunk_pos \<Rightarrow> byte \<Rightarrow> chunk_pos \<times> body_event list" where
  "chunk_step (Size v) b =
     (case hexDigit b of
        Some d \<Rightarrow> (if v < 2 ^ 56 then (Size (v * 16 + unat d), []) else (Bad, []))
      | None \<Rightarrow>
          if b = 59 then (Ext v, [])
          else if b = CR then (SizeCR v, [])
          else if b = LF then chunk_line_end v
          else (Bad, []))"
| "chunk_step (SizeCR v) b = (if b = LF then chunk_line_end v else (Outside, []))"
| "chunk_step (Ext v) b = (if b = LF then chunk_line_end v else (Ext v, []))"
| "chunk_step (Body n) b = (if n = 1 then BodyCR else Body (n - 1), [Byte b])"
| "chunk_step BodyCR b = (if b = CR then BodyLF else Bad, [])"
| "chunk_step BodyLF b = (if b = LF then Size 0 else Bad, [])"
| "chunk_step Done b = (Done, [])"
| "chunk_step Bad b = (Bad, [])"
| "chunk_step Outside b = (Outside, [])"

fun chunk_pos_ok :: "chunk_pos \<Rightarrow> bool" where
  "chunk_pos_ok (Size v) = (v < 2 ^ 60)"
| "chunk_pos_ok (SizeCR v) = (v < 2 ^ 60)"
| "chunk_pos_ok (Ext v) = (v < 2 ^ 60)"
| "chunk_pos_ok (Body n) = (0 < n \<and> n + 2 < 2 ^ 60)"
| "chunk_pos_ok _ = True"

text \<open>The state word of the decoder at each position.\<close>

fun chunk_state :: "chunk_pos \<Rightarrow> u64" where
  "chunk_state (Size v) = STATE_IS_CHUNKED OR of_nat v"
| "chunk_state (SizeCR v) = STATE_IS_CHUNKED OR of_nat v"
| "chunk_state (Ext v) = (STATE_IS_CHUNKED OR STATE_IS_EXTENSION) OR of_nat v"
| "chunk_state (Body n) = (STATE_HAS_SIZE OR STATE_IS_CHUNKED) OR of_nat (n + 2)"
| "chunk_state BodyCR = (STATE_HAS_SIZE OR STATE_IS_CHUNKED) OR of_nat 2"
| "chunk_state BodyLF = (STATE_HAS_SIZE OR STATE_IS_CHUNKED) OR of_nat 1"
| "chunk_state Done = STATE_IS_TRAILER"
| "chunk_state Bad = STATE_IS_ERROR"
| "chunk_state Outside = STATE_IS_ERROR"

lemma hexDigit_less: "hexDigit b = Some d \<Longrightarrow> unat d < 16"
  unfolding hexDigit_def
  by (auto split: if_splits simp: word_le_nat_alt unat_sub_if' unat_word_ariths)

lemma chunk_step_ok: "chunk_pos_ok s \<Longrightarrow> chunk_pos_ok (fst (chunk_step s b))"
  by (cases s) (auto simp: chunk_line_end_def split: option.splits dest: hexDigit_less)

subsection \<open>The flags of each position\<close>

lemma flags_high [state_bits]:
  "take_bit 60 STATE_HAS_SIZE = 0" "take_bit 60 STATE_IS_CHUNKED = 0"
  "take_bit 60 STATE_IS_EXTENSION = 0" "take_bit 60 STATE_IS_TRAILER = 0"
  "take_bit 60 (STATE_IS_CHUNKED OR STATE_IS_EXTENSION) = 0"
  "take_bit 60 (STATE_HAS_SIZE OR STATE_IS_CHUNKED) = 0"
  by (simp_all add: chunk_flag_defs)

lemma flags_disjoint [state_bits]:
  "STATE_IS_CHUNKED AND STATE_IS_EXTENSION = 0"
  "STATE_IS_CHUNKED AND STATE_HAS_SIZE = 0"
  "STATE_IS_CHUNKED AND STATE_IS_TRAILER = 0"
  "(STATE_IS_CHUNKED OR STATE_IS_EXTENSION) AND STATE_IS_EXTENSION \<noteq> 0"
  "(STATE_IS_CHUNKED OR STATE_IS_EXTENSION) AND STATE_HAS_SIZE = 0"
  "(STATE_IS_CHUNKED OR STATE_IS_EXTENSION) AND STATE_IS_TRAILER = 0"
  "(STATE_HAS_SIZE OR STATE_IS_CHUNKED) AND STATE_HAS_SIZE \<noteq> 0"
  "(STATE_HAS_SIZE OR STATE_IS_CHUNKED) AND STATE_IS_TRAILER = 0"
  by (simp_all add: chunk_flag_defs)

lemma size_packed [state_bits]:
  "v < 2 ^ 60 \<Longrightarrow> take_bit 60 F = 0 \<Longrightarrow> chunkSize (F OR of_nat v) = of_nat v"
  by (simp add: chunkSize_def STATE_SIZE_MASK_mask size_of_packed)

lemma overflow_check:
  assumes "v < 2 ^ 60"
  shows "(of_nat v :: u64) AND STATE_SIZE_OVERFLOW = 0 \<longleftrightarrow> v < 2 ^ 56"
proof -
  have O: "STATE_SIZE_OVERFLOW = push_bit 56 (mask 4)"
    by (simp add: STATE_SIZE_OVERFLOW_def mask_eq_exp_minus_1)
  have B: "bit ((of_nat v :: u64) AND STATE_SIZE_OVERFLOW) n \<longleftrightarrow> bit v n \<and> 56 \<le> n \<and> n < 60" for n
    by (auto simp: O bit_simps)
  have "v < 2 ^ 56 \<longleftrightarrow> take_bit 56 v = v"
    by (simp add: take_bit_nat_eq_self_iff)
  also have "\<dots> \<longleftrightarrow> (\<forall>n. bit v n \<longrightarrow> n < 56)"
    by (auto simp: bit_eq_iff bit_take_bit_iff)
  also have "\<dots> \<longleftrightarrow> (\<forall>n. \<not> (bit v n \<and> 56 \<le> n \<and> n < 60))"
  proof -
    have "take_bit 60 v = v" using assms by (simp add: take_bit_nat_eq_self)
    then have "bit v n \<Longrightarrow> n < 60" for n by (metis bit_take_bit_iff)
    then show ?thesis by (meson not_less)
  qed
  also have "\<dots> \<longleftrightarrow> (of_nat v :: u64) AND STATE_SIZE_OVERFLOW = 0"
  proof
    assume "\<forall>n. \<not> (bit v n \<and> 56 \<le> n \<and> n < 60)"
    then show "(of_nat v :: u64) AND STATE_SIZE_OVERFLOW = 0"
      by (intro bit_word_eqI) (simp only: B bit_0_eq bot_apply, simp)
  next
    assume "(of_nat v :: u64) AND STATE_SIZE_OVERFLOW = 0"
    then show "\<forall>n. \<not> (bit v n \<and> 56 \<le> n \<and> n < 60)"
      by (metis B bit_0_eq bot_apply bot_bool_def)
  qed
  finally show ?thesis by simp
qed

lemma flag_test [state_bits]:
  "v < 2 ^ 60 \<Longrightarrow> (F OR of_nat v) AND STATE_IS_TRAILER = F AND STATE_IS_TRAILER"
  "v < 2 ^ 60 \<Longrightarrow> (F OR of_nat v) AND STATE_IS_EXTENSION = F AND STATE_IS_EXTENSION"
  "v < 2 ^ 60 \<Longrightarrow> hasChunkSize (F OR of_nat v) \<longleftrightarrow> F AND STATE_HAS_SIZE \<noteq> 0"
  by (simp_all add: hasChunkSize_def flag_and_packed flags_high)

lemma not_error_packed [state_bits]:
  "v < 2 ^ 60 \<Longrightarrow> F AND STATE_IS_TRAILER = 0 \<Longrightarrow> F OR of_nat v \<noteq> STATE_IS_ERROR"
proof
  assume "v < 2 ^ 60" "F AND STATE_IS_TRAILER = 0" "F OR of_nat v = STATE_IS_ERROR"
  then have "STATE_IS_ERROR AND STATE_IS_TRAILER = 0"
    by (metis flag_test(1))
  then show False by (simp add: chunk_flag_defs)
qed

lemma next_digit_state [state_bits]:
  assumes "v < 2 ^ 56" and "unat d < 16"
  shows "((STATE_IS_CHUNKED OR of_nat v) AND STATE_SIZE_MASK) * 16 + d = of_nat (v * 16 + unat d)"
  using assms by (simp add: STATE_SIZE_MASK_mask size_of_packed flags_high)

lemma endSizeLine_state [state_bits]:
  assumes "v + 2 < 2 ^ 60" and "F = STATE_IS_CHUNKED \<or> F = STATE_IS_CHUNKED OR STATE_IS_EXTENSION"
  shows "endSizeLine (F OR of_nat v) = (STATE_HAS_SIZE OR STATE_IS_CHUNKED) OR of_nat (v + 2)"
proof -
  have F: "take_bit 60 F = 0" using assms(2) flags_high by auto
  have "(F OR of_nat v) + 2 = F + of_nat (v + 2)"
    using assms(1) F by (simp add: packed_as_sum add.assoc)
  also have "\<dots> = F OR of_nat (v + 2)"
    using packed_as_sum [OF assms(1) F] by simp
  finally have sum: "(F OR of_nat v) + 2 = F OR of_nat (v + 2)" .
  have "((F OR of_nat (v + 2)) AND NOT STATE_IS_EXTENSION) OR (STATE_HAS_SIZE OR STATE_IS_CHUNKED)
      = (STATE_HAS_SIZE OR STATE_IS_CHUNKED) OR of_nat (v + 2)"
  proof (rule bit_word_eqI)
    fix n :: nat
    assume "n < LENGTH(64)"
    have low: "n = 61 \<Longrightarrow> \<not> bit (of_nat (v + 2) :: u64) n"
      using low_bits [OF assms(1), of n] by simp
    have ext: "bit STATE_IS_EXTENSION n \<longleftrightarrow> n = 61" "bit STATE_IS_CHUNKED n \<longleftrightarrow> n = 62"
      using \<open>n < LENGTH(64)\<close> unfolding STATE_IS_EXTENSION_def STATE_IS_CHUNKED_def
      by (auto simp only: bit_push_bit_iff bit_1_iff) auto
    show "bit (((F OR of_nat (v + 2)) AND NOT STATE_IS_EXTENSION) OR (STATE_HAS_SIZE OR STATE_IS_CHUNKED)) n
      = bit ((STATE_HAS_SIZE OR STATE_IS_CHUNKED) OR of_nat (v + 2)) n"
      using assms(2) low ext \<open>n < LENGTH(64)\<close>
      by (auto simp only: bit_or_iff bit_and_iff bit_not_iff possible_bit_word simp_thms)
  qed
  then show ?thesis by (simp only: endSizeLine_def sum)
qed

section \<open>The decoder follows the reference machine\<close>

abbreviation chunk_final :: "chunk_pos \<Rightarrow> bool" where
  "chunk_final s \<equiv> s = Done"

abbreviation chunk_run :: "chunk_pos \<Rightarrow> bytes \<Rightarrow> chunk_pos \<times> body_event list \<times> bytes" where
  "chunk_run \<equiv> run_machine chunk_step chunk_final"

definition chunk_after ::
  "chunk_pos \<times> body_event list \<Rightarrow> bytes \<Rightarrow> chunk_pos \<times> body_event list \<times> bytes" where
  "chunk_after po data =
     (case po of (p, out) \<Rightarrow> case chunk_run p data of (p', out', rest) \<Rightarrow> (p', out @ out', rest))"

lemma chunk_after_empty [simp]: "chunk_after (p, []) data = chunk_run p data"
  by (simp add: chunk_after_def split: prod.splits)

lemma chunk_run_Cons:
  "p \<noteq> Done \<Longrightarrow> chunk_run p (b # data) = chunk_after (chunk_step p b) data"
  by (simp add: chunk_after_def Let_def split: prod.splits)

lemma chunk_after_after:
  "chunk_after (p, out @ out') data =
     (case chunk_after (p, out') data of (p', o', r) \<Rightarrow> (p', out @ o', r))"
  by (simp add: chunk_after_def split: prod.splits)

lemma chunk_run_Bad: "fst (chunk_run Bad data) = Bad"
  by (induction data) (auto simp: Let_def split: prod.splits)

lemma chunk_run_Outside: "fst (chunk_run Outside data) = Outside"
  by (induction data) (auto simp: Let_def split: prod.splits)

declare run_machine.simps(2) [simp del]

subsection \<open>Size lines\<close>

lemma flags_nonzero [state_bits]: "STATE_IS_EXTENSION \<noteq> 0" "STATE_HAS_SIZE \<noteq> 0"
  by (simp_all add: chunk_flag_defs)

lemma consumeHexDigits_run:
  assumes "v < 2 ^ 60"
  shows "case consumeHexDigits data (chunk_state (Size v)) of
      (True, _, s) \<Rightarrow> s = STATE_IS_ERROR \<and> fst (chunk_run (Size v) data) = Bad
    | (False, d, s) \<Rightarrow> \<exists>w. w < 2 ^ 60 \<and>
        ((s = chunk_state (Size w) \<and> chunk_run (Size v) data = chunk_run (Size w) d
            \<and> (d = [] \<or> hd d = CR \<or> hd d = LF))
         \<or> (s = chunk_state (Ext w) \<and> chunk_run (Size v) data = chunk_run (Ext w) d))"
  using assms
proof (induction data arbitrary: v)
  case Nil
  then show ?case by auto
next
  case (Cons b data)
  let ?s = "chunk_state (Size v)"
  have size: "chunkSize ?s = of_nat v"
    using Cons.prems by (simp add: state_bits)
  show ?case
  proof (cases "hexDigit b")
    case None
    have "(STATE_IS_CHUNKED OR of_nat v) OR STATE_IS_EXTENSION = chunk_state (Ext v)"
      by (simp add: or.assoc or.commute or.left_commute)
    with None Cons.prems show ?thesis
      by (auto simp: chunk_run_Cons chunk_run_Bad)
  next
    case (Some d)
    show ?thesis
    proof (cases "v < 2 ^ 56")
      case True
      have d16: "unat d < 16" using Some by (rule hexDigit_less)
      have "((?s AND STATE_SIZE_MASK) * 16 + d) OR STATE_IS_CHUNKED = chunk_state (Size (v * 16 + unat d))"
        using next_digit_state [OF True d16] by (simp add: or.commute)
      moreover have "chunkSize ?s AND STATE_SIZE_OVERFLOW = 0"
        using True Cons.prems by (simp only: size overflow_check)
      ultimately have "consumeHexDigits (b # data) ?s = consumeHexDigits data (chunk_state (Size (v * 16 + unat d)))"
        using Some by simp
      moreover have "chunk_run (Size v) (b # data) = chunk_run (Size (v * 16 + unat d)) data"
        using Some True by (simp add: chunk_run_Cons)
      moreover have "v * 16 + unat d < 2 ^ 60"
        using True d16 by simp
      ultimately show ?thesis
        using Cons.IH [of "v * 16 + unat d"] by (simp only:)
    next
      case False
      then have "chunkSize ?s AND STATE_SIZE_OVERFLOW \<noteq> 0"
        using Cons.prems by (simp only: size overflow_check simp_thms)
      with Some False show ?thesis
        by (simp add: chunk_run_Cons chunk_run_Bad)
    qed
  qed
qed

lemma skip_Ext:
  "skipSizeLine data s =
     (case dropWhile (\<lambda>b. b \<noteq> LF) data of [] \<Rightarrow> ([], s) | _ # d \<Rightarrow> (d, endSizeLine s))"
  by (induction data s rule: skipSizeLine.induct) auto

lemma run_Ext:
  "chunk_run (Ext v) data =
     (case dropWhile (\<lambda>b. b \<noteq> LF) data of [] \<Rightarrow> (Ext v, [], [])
      | _ # d \<Rightarrow> chunk_after (chunk_line_end v) d)"
  by (induction data) (auto simp: chunk_run_Cons)

definition line_pos :: "chunk_pos \<Rightarrow> nat \<Rightarrow> bool" where
  "line_pos p v \<longleftrightarrow> p = Size v \<or> p = SizeCR v \<or> p = Ext v"

text \<open>
  The outcome of a size line: the machine leaves the compared region, or the line is rejected, or
  the segment ends inside the line, or the line is complete and both continue after it.
\<close>

lemma consumeHexNumber_run:
  assumes "line_pos p v" and "v < 2 ^ 60"
    and "consumeHexNumber data (chunk_state p) = (d, s)"
  shows "fst (chunk_run p data) = Outside
    \<or> (s = STATE_IS_ERROR \<and> fst (chunk_run p data) = Bad)
    \<or> (\<exists>w q. w < 2 ^ 60 \<and> line_pos q w \<and> d = [] \<and> s = chunk_state q \<and> chunk_run p data = (q, [], []))
    \<or> (\<exists>w F. w < 2 ^ 60 \<and> (F = STATE_IS_CHUNKED \<or> F = STATE_IS_CHUNKED OR STATE_IS_EXTENSION)
          \<and> s = endSizeLine (F OR of_nat w) \<and> chunk_run p data = chunk_after (chunk_line_end w) d)"
proof -
  have ext: "chunk_state (Ext w) AND STATE_IS_EXTENSION \<noteq> 0" if "w < 2 ^ 60" for w
    using that by (simp add: flag_test flags_nonzero)
  have nonext: "chunk_state (Size w) AND STATE_IS_EXTENSION = 0" if "w < 2 ^ 60" for w
    using that by (simp add: flag_test flags_disjoint)
  have E: ?thesis if "w < 2 ^ 60" "skipSizeLine data' (chunk_state (Ext w)) = (d, s)"
      "chunk_run p data = chunk_run (Ext w) data'" for w data'
  proof (cases "dropWhile (\<lambda>b. b \<noteq> LF) data'")
    case Nil
    with that have "d = [] \<and> s = chunk_state (Ext w) \<and> chunk_run p data = (Ext w, [], [])"
      by (simp add: skip_Ext run_Ext)
    with that(1) show ?thesis unfolding line_pos_def by blast
  next
    case (Cons x l)
    with that have "s = endSizeLine ((STATE_IS_CHUNKED OR STATE_IS_EXTENSION) OR of_nat w) \<and>
        chunk_run p data = chunk_after (chunk_line_end w) d"
      by (simp add: skip_Ext run_Ext)
    with that(1) show ?thesis by blast
  qed
  have S: ?thesis if w: "w < 2 ^ 60" and sk: "skipSizeLine data' (chunk_state (Size w)) = (d, s)"
      and r: "chunk_run p data = chunk_run (Size w) data'"
      and hd: "data' = [] \<or> hd data' = CR \<or> hd data' = LF" for w data'
  proof (cases data')
    case Nil
    with w sk r show ?thesis by (auto simp: line_pos_def)
  next
    case (Cons b rest)
    have hexCR: "hexDigit CR = None" "hexDigit LF = None" by (simp_all add: hexDigit_def)
    show ?thesis
    proof (cases "b = LF")
      case True
      with w sk r Cons hexCR show ?thesis by (auto simp: chunk_run_Cons)
    next
      case False
      with hd Cons have b: "b = CR" by simp
      show ?thesis
      proof (cases rest)
        case Nil
        with w sk r Cons hexCR b show ?thesis by (auto simp: chunk_run_Cons line_pos_def)
      next
        case (Cons b2 rest2)
        with w sk r \<open>data' = b # rest\<close> hexCR b show ?thesis
          by (cases "b2 = LF") (auto simp: chunk_run_Cons chunk_run_Outside)
      qed
    qed
  qed
  have Z: ?thesis if "chunk_run p data = chunk_run (Size v) data" "chunk_state p = chunk_state (Size v)"
  proof -
    obtain ret d' s' where chd: "consumeHexDigits data (chunk_state (Size v)) = (ret, d', s')"
      by (metis prod_cases3)
    with that assms(2,3) nonext [OF assms(2)]
    have res: "(if ret then (d', s') else skipSizeLine d' s') = (d, s)"
      by (simp add: consumeHexNumber_def)
    show ?thesis
    proof (cases ret)
      case True
      with res chd that consumeHexDigits_run [OF assms(2), of data] show ?thesis by simp
    next
      case False
      with res have sk: "skipSizeLine d' s' = (d, s)" by simp
      from False chd consumeHexDigits_run [OF assms(2), of data] consider
          (sz) w where "w < 2 ^ 60" "s' = chunk_state (Size w)"
            "chunk_run (Size v) data = chunk_run (Size w) d'" "d' = [] \<or> hd d' = CR \<or> hd d' = LF"
        | (ex) w where "w < 2 ^ 60" "s' = chunk_state (Ext w)"
            "chunk_run (Size v) data = chunk_run (Ext w) d'"
        by auto
      then show ?thesis
      proof cases
        case sz
        with sk that(1) show ?thesis by (intro S [of w d']) simp_all
      next
        case ex
        with sk that(1) show ?thesis by (intro E [of w d']) simp_all
      qed
    qed
  qed
  from assms(1) consider "p = Size v" | "p = SizeCR v" | "p = Ext v"
    by (auto simp: line_pos_def)
  then show ?thesis
  proof cases
    case 1
    then show ?thesis by (intro Z) simp_all
  next
    case 2
    show ?thesis
    proof (cases data)
      case Nil
      with 2 assms show ?thesis
        by (auto simp: line_pos_def consumeHexNumber_def flag_test flags_disjoint)
    next
      case (Cons b rest)
      have "hexDigit LF = None" by (simp add: hexDigit_def)
      show ?thesis
      proof (cases "b = LF")
        case True
        with 2 Cons \<open>hexDigit LF = None\<close> have "chunk_run p data = chunk_run (Size v) data"
          by (simp add: chunk_run_Cons)
        with 2 show ?thesis by (intro Z) simp_all
      next
        case False
        with 2 Cons show ?thesis by (simp add: chunk_run_Cons chunk_run_Outside)
      qed
    qed
  next
    case 3
    with assms E [of v data] ext [of v] show ?thesis by (simp add: consumeHexNumber_def)
  qed
qed

subsection \<open>Chunk data\<close>

text \<open>The position with \<open>k\<close> bytes to come, the two terminator bytes included.\<close>

definition body_pos :: "nat \<Rightarrow> chunk_pos" where
  "body_pos k = (if 2 < k then Body (k - 2) else if k = 2 then BodyCR else BodyLF)"

lemma chunk_state_body_pos:
  "0 < k \<Longrightarrow> chunk_state (body_pos k) = (STATE_HAS_SIZE OR STATE_IS_CHUNKED) OR of_nat k"
  by (cases "k = 1"; cases "k = 2") (auto simp: body_pos_def)

lemma body_pos_ok: "0 < k \<Longrightarrow> k < 2 ^ 60 \<Longrightarrow> chunk_pos_ok (body_pos k)"
  by (auto simp: body_pos_def)

lemma body_pos_cases:
  assumes "chunk_pos_ok p" "p \<noteq> Bad" "p \<noteq> Outside" "p \<noteq> Done"
  obtains (line) v where "line_pos p v" "v < 2 ^ 60"
  | (body) k where "p = body_pos k" "0 < k" "k < 2 ^ 60"
proof (cases p)
  case (Body n)
  with assms(1) that(2) [of "n + 2"] show thesis by (simp add: body_pos_def)
next
  case BodyCR
  with that(2) [of 2] show thesis by (simp add: body_pos_def)
next
  case BodyLF
  with that(2) [of 1] show thesis by (simp add: body_pos_def)
qed (use assms that(1) in \<open>auto simp: line_pos_def\<close>)

lemma body_pos_not_Done [simp]: "body_pos k \<noteq> Done"
  by (simp add: body_pos_def)

lemma chunk_step_body_pos:
  "0 < k \<Longrightarrow> chunk_step (body_pos k) b =
     (if k = 2 \<and> b \<noteq> CR \<or> k = 1 \<and> b \<noteq> LF then Bad
      else if k = 1 then Size 0 else body_pos (k - 1),
      if 2 < k then [Byte b] else [])"
  by (auto simp: body_pos_def)

lemma run_body_part:
  "length data < k \<Longrightarrow>
   (if length data = k - 1 \<and> data \<noteq> [] \<and> last data \<noteq> CR
    then fst (chunk_run (body_pos k) data) = Bad
    else chunk_run (body_pos k) data =
           (body_pos (k - length data), map Byte (take (k - 2) data), []))"
proof (induction data arbitrary: k)
  case Nil
  then show ?case by simp
next
  case (Cons b data)
  then obtain j where j: "k = Suc j" "length data < j"
    by (cases k) auto
  note IH = Cons.IH [OF j(2)]
  show ?case
  proof (cases "j = 1")
    case True
    with j show ?thesis
      by (simp add: chunk_run_Cons chunk_step_body_pos chunk_run_Bad)
  next
    case False
    with j(2) have "1 < j" by simp
    then obtain i where i: "j = Suc (Suc i)"
      using that [of "j - 2"] by simp
    show ?thesis
      using IH j(1) unfolding i
      by (auto simp: chunk_run_Cons chunk_step_body_pos chunk_after_def split: prod.splits if_splits)
  qed
qed

lemma run_body_whole:
  "0 < k \<Longrightarrow> k \<le> length data \<Longrightarrow>
   (if 2 \<le> k \<and> data ! (k - 2) \<noteq> CR \<or> data ! (k - 1) \<noteq> LF
    then fst (chunk_run (body_pos k) data) = Bad
    else chunk_run (body_pos k) data = chunk_after (Size 0, map Byte (take (k - 2) data)) (drop k data))"
proof (induction data arbitrary: k)
  case Nil
  then show ?case by simp
next
  case (Cons b data)
  show ?case
  proof (cases "k = 1")
    case True
    then show ?thesis
      by (auto simp: chunk_run_Cons chunk_step_body_pos chunk_run_Bad)
  next
    case False
    with Cons.prems have k: "1 < k" by simp
    then obtain j where j: "k = Suc j" "0 < j" "j \<le> length data"
      using Cons.prems by (cases k) auto
    note IH = Cons.IH [OF j(2,3)]
    show ?thesis
    proof (cases "k = 2")
      case True
      with IH j show ?thesis
        by (auto simp: chunk_run_Cons chunk_step_body_pos chunk_run_Bad)
    next
      case False
      with k j obtain i where i: "j = Suc (Suc i)"
        using that [of "j - 2"] by simp
      show ?thesis
        using IH unfolding i j(1)
        by (auto simp: chunk_run_Cons chunk_step_body_pos chunk_after_def split: prod.splits if_splits)
    qed
  qed
qed

subsection \<open>The decoder on one segment\<close>

lemma ucast_of_nat_u32: "l < 2 ^ 32 \<Longrightarrow> (ucast (of_nat l :: u32) :: u64) = of_nat l"
  by (simp add: word_unat_eq_iff unsigned_ucast_eq take_bit_nat_eq_self)

lemma decChunkSize_state:
  assumes "l < k" "k < 2 ^ 60" "l < 2 ^ 32"
  shows "decChunkSize ((STATE_HAS_SIZE OR STATE_IS_CHUNKED) OR of_nat k) (of_nat l) OR STATE_IS_CHUNKED
    = (STATE_HAS_SIZE OR STATE_IS_CHUNKED) OR of_nat (k - l)"
proof -
  let ?F = "STATE_HAS_SIZE OR STATE_IS_CHUNKED"
  have "(?F OR of_nat k) AND NOT (mask 60) = ?F AND NOT (mask 60)"
    using assms(2) by (intro flag_and_packed) (simp_all add: take_bit_eq_mask)
  also have "\<dots> = ?F"
    by (simp add: chunk_flag_defs mask_eq_exp_minus_1)
  finally have hi: "(?F OR of_nat k) AND NOT STATE_SIZE_MASK = ?F"
    by (simp only: STATE_SIZE_MASK_mask)
  have "chunkSize (?F OR of_nat k) - ucast (of_nat l :: u32) = of_nat (k - l)"
    using assms by (simp add: size_packed flags_high ucast_of_nat_u32 of_nat_diff)
  with hi show ?thesis
    by (simp add: decChunkSize_def or.assoc or.commute or.left_commute)
qed

lemma body_state_facts:
  assumes "0 < k" "k < 2 ^ 60"
  shows "chunk_state (body_pos k) AND STATE_IS_TRAILER = 0" "hasChunkSize (chunk_state (body_pos k))"
    "unat (chunkSize (chunk_state (body_pos k))) = k"
proof -
  have "k < 2 ^ 64" using assms(2) by simp
  with assms show "chunk_state (body_pos k) AND STATE_IS_TRAILER = 0"
    "hasChunkSize (chunk_state (body_pos k))" "unat (chunkSize (chunk_state (body_pos k))) = k"
    by (simp_all add: chunk_state_body_pos flag_test size_packed flags_high flags_disjoint flags_nonzero)
qed

lemma line_state_facts:
  assumes "line_pos p v" "v < 2 ^ 60"
  shows "chunk_state p AND STATE_IS_TRAILER = 0" "\<not> hasChunkSize (chunk_state p)"
    "chunk_state p \<noteq> STATE_IS_ERROR"
proof -
  from assms show tr: "chunk_state p AND STATE_IS_TRAILER = 0" and "\<not> hasChunkSize (chunk_state p)"
    by (auto simp: line_pos_def flag_test flags_disjoint)
  show "chunk_state p \<noteq> STATE_IS_ERROR"
    using tr by (auto simp: chunk_flag_defs)
qed

text \<open>
  One call of \<open>getNextChunk\<close>. If it returns a slice, the machine emits it first and both go on from
  corresponding states; if it returns none, the segment is used up or the decoder has stopped.
\<close>

definition chunk_call_ok ::
  "bytes \<Rightarrow> chunk_pos \<times> body_event list \<times> bytes \<Rightarrow> bytes option \<times> bytes \<times> u64 \<Rightarrow> bool" where
  "chunk_call_ok data m r =
     (case (m, r) of ((p', out, rest), (c, d, s)) \<Rightarrow>
        (case c of
           None \<Rightarrow> s = chunk_state p' \<and> (p' \<noteq> Bad \<longrightarrow> out = [] \<and> d = rest)
         | Some chunk \<Rightarrow> \<exists>p1 out1. chunk_pos_ok p1 \<and> s = chunk_state p1 \<and> length d < length data \<and>
             p1 \<noteq> Bad \<and> p1 \<noteq> Outside \<and>
             out = (if chunk = [] then [Fin] else map Byte chunk) @ out1 \<and> chunk_run p1 d = (p', out1, rest)))"

lemma chunk_call_ok_mono:
  "chunk_call_ok data m r \<Longrightarrow> length data \<le> length data' \<Longrightarrow> chunk_call_ok data' m r"
  by (auto simp: chunk_call_ok_def split: prod.splits option.splits)

lemma getNextChunk_run:
  assumes "chunk_pos_ok p" "p \<noteq> Bad" "p \<noteq> Outside" and "length data < 2 ^ 32"
    and "fst (chunk_run p data) \<noteq> Outside"
  shows "\<exists>r. getNextChunk data (chunk_state p) = Some r \<and> chunk_call_ok data (chunk_run p data) r"
  using assms
proof (induction "length data" arbitrary: data p rule: less_induct)
  case less
  show ?case
  proof (cases "data = [] \<or> p = Done")
    case True
    then show ?thesis
    proof
      assume "data = []"
      then show ?thesis by (simp add: getNextChunk_Nil chunk_call_ok_def)
    next
      assume "p = Done"
      then have "chunk_state p AND STATE_IS_TRAILER \<noteq> 0" by (simp add: chunk_flag_defs)
      with \<open>p = Done\<close> show ?thesis by (simp add: getNextChunk_trailer chunk_call_ok_def)
    qed
  next
    case False
    then have ne: "data \<noteq> []" "p \<noteq> Done" by auto
    from less.prems(1-3) ne(2) show ?thesis
    proof (cases rule: body_pos_cases)
      case (line v)
      obtain d s where chn: "consumeHexNumber data (chunk_state p) = (d, s)"
        by fastforce
      note g = getNextChunk_line [OF ne(1) line_state_facts(1,2) [OF line], unfolded chn]
      from consumeHexNumber_run [OF line chn] less.prems(5) consider
          (bad) "s = STATE_IS_ERROR" "fst (chunk_run p data) = Bad"
        | (more) w q where "w < 2 ^ 60" "line_pos q w" "d = []" "s = chunk_state q"
            "chunk_run p data = (q, [], [])"
        | (stop) w F where "w < 2 ^ 60" "F = STATE_IS_CHUNKED \<or> F = STATE_IS_CHUNKED OR STATE_IS_EXTENSION"
            "s = endSizeLine (F OR of_nat w)" "chunk_run p data = chunk_after (chunk_line_end w) d"
        by blast
      then show ?thesis
      proof cases
        case bad
        then show ?thesis
          by (auto simp: g isParsingInvalidChunkedEncoding_def chunk_call_ok_def split: prod.splits)
      next
        case more
        then show ?thesis
          using line_state_facts [OF more(2,1)]
          by (simp add: g isParsingInvalidChunkedEncoding_def getNextChunk_Nil chunk_call_ok_def)
      next
        case stop
        have w2: "w + 2 < 2 ^ 60"
          using stop(1,4) less.prems(5) chunk_run_Outside [of d]
          by (auto simp: chunk_line_end_def split: if_splits)
        have k: "0 < w + 2" by simp
        have s: "s = chunk_state (body_pos (w + 2))"
          using endSizeLine_state [OF w2 stop(2)] stop(3) chunk_state_body_pos [OF k] by simp
        note f = body_state_facts [OF k w2, folded s]
        have nerr: "s \<noteq> STATE_IS_ERROR"
          using f(1) by (auto simp: chunk_flag_defs)
        have two: "chunkSize s = 2 \<longleftrightarrow> w = 0"
          using f(3) by (simp add: word_unat_eq_iff)
        have prog: "length d < length data"
          using consumeHexNumber_progress [OF ne(1), of "chunk_state p"] chn nerr by simp
        show ?thesis
        proof (cases "w = 0")
          case True
          with stop(4) g nerr f(2) two prog show ?thesis
            by (auto simp: isParsingInvalidChunkedEncoding_def chunk_call_ok_def chunk_line_end_def
                chunk_after_def intro!: exI [of _ Done])
        next
          case False
          then have run: "chunk_run p data = chunk_run (body_pos (w + 2)) d"
            using stop(4) w2 by (simp add: chunk_line_end_def body_pos_def)
          obtain r where r: "getNextChunk d s = Some r" "chunk_call_ok d (chunk_run p data) r"
            unfolding s run using less.hyps [OF prog, of "body_pos (w + 2)"] less.prems(4,5) prog run body_pos_ok [OF k w2]
            by (auto simp: body_pos_def split: if_splits)
          have "getNextChunk data (chunk_state p) = Some r"
            using g r(1) nerr two False by (simp add: isParsingInvalidChunkedEncoding_def)
          with r(2) prog show ?thesis
            using chunk_call_ok_mono [of d] by (metis less_imp_le_nat)
        qed
      qed
    next
      case (body k)
      note f = body_state_facts [OF body(2,3), folded body(1)]
      show ?thesis
      proof (cases "k \<le> length data")
        case True
        note g = getNextChunk_whole [OF ne(1) f(1,2) f(3) [symmetric] True]
        note w = run_body_whole [OF body(2) True, folded body(1)]
        have size0: "chunk_state (Size 0) = STATE_IS_CHUNKED" by simp
        show ?thesis
        proof (cases "2 \<le> k \<and> data ! (k - 2) \<noteq> CR \<or> data ! (k - 1) \<noteq> LF")
          case True
          with w g body(2) show ?thesis
            by (auto simp: chunk_call_ok_def split: prod.splits)
        next
          case False
          with w have run: "chunk_run p data = chunk_after (Size 0, map Byte (take (k - 2) data)) (drop k data)"
            by simp
          have short: "length (drop k data) < length data"
            using body(2) ne(1) by simp
          show ?thesis
          proof (cases "2 < k")
            case True
            with False g size0 short run show ?thesis
              by (auto simp: chunk_call_ok_def chunk_after_def split: prod.splits
                  intro!: exI [of _ "Size 0"])
          next
            case False
            with run have run': "chunk_run p data = chunk_run (Size 0) (drop k data)"
              by simp
            have l32: "length (drop k data) < 2 ^ 32"
              using less.prems(4) by simp
            obtain r where r: "getNextChunk (drop k data) STATE_IS_CHUNKED = Some r"
                "chunk_call_ok (drop k data) (chunk_run p data) r"
              unfolding run' using less.hyps [OF short _ _ _ l32, of "Size 0"] less.prems(5) run'
              by auto
            have "getNextChunk data (chunk_state p) = Some r"
              using g r(1) body(2) False
                \<open>\<not> (2 \<le> k \<and> data ! (k - 2) \<noteq> CR \<or> data ! (k - 1) \<noteq> LF)\<close> by auto
            with r(2) short show ?thesis
              using chunk_call_ok_mono [of "drop k data"] by (metis less_imp_le_nat)
          qed
        qed
      next
        case False
        then have part: "length data < k" by simp
        note g = getNextChunk_part [OF ne(1) f(1,2) f(3) [symmetric] part]
        note w = run_body_part [OF part, folded body(1)]
        show ?thesis
        proof (cases "length data = k - 1 \<and> last data \<noteq> CR")
          case True
          with w g ne(1) show ?thesis
            by (auto simp: chunk_call_ok_def split: prod.splits)
        next
          case False
          with w ne(1) have run: "chunk_run p data = (body_pos (k - length data), map Byte (take (k - 2) data), [])"
            by auto
          have st: "decChunkSize (chunk_state p) (of_nat (length data)) OR STATE_IS_CHUNKED
              = chunk_state (body_pos (k - length data))"
            using decChunkSize_state [OF part body(3) less.prems(4)] part body
            by (simp add: chunk_state_body_pos)
          have ok: "chunk_pos_ok (body_pos (k - length data))"
            using part body(3) by (intro body_pos_ok) auto
          show ?thesis
          proof (cases "2 < k")
            case True
            with g False st ok run ne(1) show ?thesis
              by (auto simp: chunk_call_ok_def body_pos_def intro!: exI [of _ "body_pos (k - length data)"])
          next
            case False
            with g \<open>\<not> (length data = k - 1 \<and> last data \<noteq> CR)\<close> st run show ?thesis
              by (auto simp: chunk_call_ok_def)
          qed
        qed
      qed
    qed
  qed
qed

text \<open>The whole loop over the chunks of a segment.\<close>

definition chunk_events :: "bytes \<Rightarrow> body_event list" where
  "chunk_events chunk = (if chunk = [] then [Fin] else map Byte chunk)"

definition feed_chunks :: "u64 \<Rightarrow> bytes \<Rightarrow> (u64 \<times> body_event list \<times> bytes) option" where
  "feed_chunks state data =
     (case chunkLoop data state of
        None \<Rightarrow> None
      | Some (chunks, rest, state') \<Rightarrow> Some (state', concat (map chunk_events chunks), rest))"

lemma feed_chunks_run:
  assumes "chunk_pos_ok p" "p \<noteq> Bad" "p \<noteq> Outside" and "length data < 2 ^ 32"
    and "chunk_run p data = (p', out, rest)" and "p' \<noteq> Outside"
  shows "\<exists>ev d. feed_chunks (chunk_state p) data = Some (chunk_state p', ev, d) \<and> prefix ev out \<and>
    (p' \<noteq> Bad \<longrightarrow> ev = out \<and> d = rest)"
  using assms
proof (induction "length data" arbitrary: data p out rule: less_induct)
  case less
  obtain c d s where g: "getNextChunk data (chunk_state p) = Some (c, d, s)"
    and ok: "chunk_call_ok data (p', out, rest) (c, d, s)"
    using getNextChunk_run [of p data] less.prems by (metis fst_conv prod_cases3)
  show ?case
  proof (cases c)
    case None
    with ok g show ?thesis
      by (simp add: feed_chunks_def chunkLoop.simps [of data] chunk_call_ok_def)
  next
    case (Some chunk)
    with ok obtain p1 out1 where p1: "chunk_pos_ok p1" "p1 \<noteq> Bad" "p1 \<noteq> Outside" "s = chunk_state p1"
      "length d < length data" "out = chunk_events chunk @ out1" "chunk_run p1 d = (p', out1, rest)"
      by (auto simp: chunk_call_ok_def chunk_events_def)
    then obtain ev d' where "feed_chunks s d = Some (chunk_state p', ev, d')" "prefix ev out1"
      "p' \<noteq> Bad \<longrightarrow> ev = out1 \<and> d' = rest"
      using less.hyps [of d p1 out1] less.prems(4,6) by auto
    with g Some p1(6) show ?thesis
      by (auto simp: feed_chunks_def chunkLoop.simps [of data] split: option.splits)
  qed
qed

interpretation chunked: segment_parser feed_chunks chunk_step chunk_final
  "\<lambda>p. p \<noteq> Bad \<and> p \<noteq> Outside" chunk_state "\<lambda>p. chunk_pos_ok p" "\<lambda>seg. length seg < 2 ^ 32"
proof (unfold_locales, goal_cases)
  case (1 xs s s' out rest)
  have "s \<noteq> Bad" "s \<noteq> Outside"
    using 1(3,4) chunk_run_Bad [of xs] chunk_run_Outside [of xs] by auto
  with 1 feed_chunks_run [of s xs s' out rest] show ?case by auto
next
  case (2 s b)
  then show ?case by auto
next
  case (3 s b)
  then show ?case by (rule chunk_step_ok)
qed

section \<open>Encoding a body\<close>

text \<open>A body as a sender writes it: sizes in hexadecimal, each chunk with its two line ends.\<close>

definition hex_char :: "nat \<Rightarrow> byte" where
  "hex_char d = (if d < 10 then of_nat (48 + d) else of_nat (87 + d))"

fun hex_of :: "nat \<Rightarrow> bytes" where
  "hex_of n = (if n < 16 then [hex_char n] else hex_of (n div 16) @ [hex_char (n mod 16)])"

declare hex_of.simps [simp del]

definition encode_chunk :: "bytes \<Rightarrow> bytes" where
  "encode_chunk chunk = hex_of (length chunk) @ [CR, LF] @ chunk @ [CR, LF]"

definition encode_body :: "bytes list \<Rightarrow> bytes" where
  "encode_body chunks = concat (map encode_chunk chunks) @ hex_of 0 @ [CR, LF]"

lemma hexDigit_hex_char: "d < 16 \<Longrightarrow> hexDigit (hex_char d) = Some (of_nat d)"
proof -
  have "\<forall>d \<in> set [0..<16]. hexDigit (hex_char d) = Some (of_nat d)" by code_simp
  then show "d < 16 \<Longrightarrow> hexDigit (hex_char d) = Some (of_nat d)" by simp
qed

lemma run_hex_of: "n < 2 ^ 60 \<Longrightarrow> chunk_run (Size 0) (hex_of n @ data) = chunk_run (Size n) data"
proof (induction n arbitrary: data rule: hex_of.induct)
  case (1 n)
  show ?case
  proof (cases "n < 16")
    case True
    then show ?thesis
      by (simp add: hex_of.simps [of n] chunk_run_Cons hexDigit_hex_char)
  next
    case False
    have "n div 16 < 2 ^ 56" using "1.prems" by (simp add: div_less_iff_less_mult)
    then show ?thesis
      using False "1.IH" [OF False, of "hex_char (n mod 16) # data"] "1.prems"
      by (simp add: hex_of.simps [of n] chunk_run_Cons hexDigit_hex_char)
  qed
qed

lemma run_encode_chunk:
  assumes "chunk \<noteq> []" and "length chunk + 2 < 2 ^ 60"
  shows "chunk_run (Size 0) (encode_chunk chunk @ data) = chunk_after (Size 0, map Byte chunk) data"
proof -
  let ?k = "length chunk + 2"
  have hex: "hexDigit CR = None" "hexDigit LF = None" by (simp_all add: hexDigit_def)
  have "chunk_run (Size 0) (encode_chunk chunk @ data)
      = chunk_run (body_pos ?k) (chunk @ CR # LF # data)"
    using assms by (simp add: encode_chunk_def run_hex_of chunk_run_Cons hex chunk_line_end_def body_pos_def)
  also have "\<dots> = chunk_after (Size 0, map Byte chunk) data"
    using run_body_whole [of ?k "chunk @ CR # LF # data"] assms(1)
    by (simp add: nth_append)
  finally show ?thesis .
qed

lemma run_encode_body:
  assumes "\<And>c. c \<in> set chunks \<Longrightarrow> c \<noteq> [] \<and> length c + 2 < 2 ^ 60"
  shows "chunk_run (Size 0) (encode_body chunks @ rest) = (Done, map Byte (concat chunks) @ [Fin], rest)"
  using assms
proof (induction chunks)
  case Nil
  have hex: "hexDigit CR = None" "hexDigit LF = None" by (simp_all add: hexDigit_def)
  have "chunk_run (Size 0) (hex_of 0 @ CR # LF # rest) = chunk_run (Size 0) (CR # LF # rest)"
    by (rule run_hex_of) simp
  then show ?case
    by (simp add: encode_body_def chunk_run_Cons hex chunk_line_end_def chunk_after_def)
next
  case (Cons c chunks)
  have "chunk_run (Size 0) (encode_body (c # chunks) @ rest)
      = chunk_after (Size 0, map Byte c) (encode_body chunks @ rest)"
    using Cons.prems by (simp add: encode_body_def run_encode_chunk)
  with Cons show ?case by (simp add: chunk_after_def)
qed

section \<open>No read outside the segment\<close>

text \<open>
  What the decoder keeps true of its state word, on every input: a size is never zero, except in
  the states it does not decode any further.
\<close>

definition chunk_inv :: "u64 \<Rightarrow> bool" where
  "chunk_inv state \<longleftrightarrow> hasChunkSize state \<longrightarrow> chunkSize state \<noteq> 0 \<or> state AND STATE_IS_TRAILER \<noteq> 0"

lemma bit_of_flag:
  "bit STATE_HAS_SIZE n \<longleftrightarrow> n = 63" "bit STATE_IS_CHUNKED n \<longleftrightarrow> n = 62"
  "bit STATE_IS_EXTENSION n \<longleftrightarrow> n = 61" "bit STATE_IS_TRAILER n \<longleftrightarrow> n = 60"
  unfolding STATE_HAS_SIZE_def STATE_IS_CHUNKED_def STATE_IS_EXTENSION_def STATE_IS_TRAILER_def
  by (auto simp only: bit_push_bit_iff bit_1_iff) auto

lemma trailer_bit: "state AND STATE_IS_TRAILER \<noteq> 0 \<longleftrightarrow> bit state 60"
  unfolding STATE_IS_TRAILER_def by (simp only: bit_iff_and_push_bit_not_eq_0)

lemma has_size_bit: "hasChunkSize state \<longleftrightarrow> bit state 63"
  unfolding hasChunkSize_def STATE_HAS_SIZE_def by (simp only: bit_iff_and_push_bit_not_eq_0)

text \<open>
  Adding the two terminator bytes can carry out of the size field, but only into a trailer bit
  that was clear.
\<close>

lemma endSizeLine_inv:
  assumes "state AND STATE_IS_TRAILER = 0"
  shows "chunk_inv (endSizeLine state)"
proof -
  define H where "H = state AND NOT (mask 60)"
  define lo where "lo = unat (take_bit 60 state)"
  have H60: "take_bit 60 H = 0"
    by (simp add: H_def take_bit_eq_mask and.assoc)
  have lo: "lo < 2 ^ 60"
    using take_bit_nat_less_exp [of 60 "unat state"] by (simp add: lo_def unsigned_take_bit_eq)
  have "state = H OR of_nat lo"
    by (rule bit_word_eqI) (auto simp: H_def lo_def bit_simps)
  then have sum: "state + 2 = H + of_nat (lo + 2)"
    using packed_as_sum [OF lo H60] by (simp add: add.assoc)
  have HT: "H AND STATE_IS_TRAILER = 0"
    using assms by (simp add: H_def and.assoc and.left_commute [of state])
  show ?thesis
  proof (cases "lo + 2 < 2 ^ 60")
    case True
    have "chunkSize (endSizeLine state) = take_bit 60 (state + 2)"
    proof (rule bit_word_eqI)
      fix n :: nat
      show "bit (chunkSize (endSizeLine state)) n = bit (take_bit 60 (state + 2)) n"
        unfolding chunkSize_def endSizeLine_def STATE_SIZE_MASK_mask
        by (cases "n < 60") (auto simp: bit_simps bit_of_flag)
    qed
    also have "\<dots> = of_nat (lo + 2)"
      using size_of_packed [OF True H60] packed_as_sum [OF True H60] by (simp only: sum take_bit_eq_mask)
    finally have eq: "chunkSize (endSizeLine state) = of_nat (lo + 2)" .
    have "lo + 2 < 2 ^ 64" using True by simp
    then have "unat (chunkSize (endSizeLine state)) = lo + 2"
      by (simp only: eq unat_of_nat_u64)
    then show ?thesis by (auto simp: chunk_inv_def)
  next
    case False
    define e where "e = lo + 2 - 2 ^ 60"
    have e: "lo + 2 = 2 ^ 60 + e" "e < 2 ^ 60" using False lo by (simp_all add: e_def)
    have "take_bit 60 (H OR STATE_IS_TRAILER) = 0"
      using H60 by (simp add: flags_high)
    then have or: "(H OR STATE_IS_TRAILER) OR of_nat e = (H OR STATE_IS_TRAILER) + of_nat e"
      using e(2) by (intro packed_as_sum)
    have "state + 2 = H + STATE_IS_TRAILER + of_nat e"
      by (simp only: sum e(1) of_nat_add) (simp add: STATE_IS_TRAILER_def)
    then have "state + 2 = (H OR STATE_IS_TRAILER) OR of_nat e"
      by (simp only: disjunctive_add_eq_or [OF HT] or)
    then have "bit (state + 2) 60"
      by (simp add: bit_or_iff bit_of_flag)
    then have "bit (endSizeLine state) 60"
      by (simp add: endSizeLine_def bit_simps bit_of_flag)
    then show ?thesis by (simp add: chunk_inv_def trailer_bit)
  qed
qed

lemma skipSizeLine_inv:
  "chunk_inv state \<Longrightarrow> state AND STATE_IS_TRAILER = 0 \<Longrightarrow> chunk_inv (snd (skipSizeLine data state))"
  by (induction data state rule: skipSizeLine.induct) (auto intro: endSizeLine_inv)

lemma chunk_inv_error: "chunk_inv STATE_IS_ERROR"
  by (simp add: chunk_inv_def chunk_flag_defs)

lemma consumeHexDigits_clear:
  assumes "\<not> hasChunkSize state" and "state AND STATE_IS_TRAILER = 0"
    and "consumeHexDigits data state = (False, d, s)"
  shows "\<not> hasChunkSize s \<and> s AND STATE_IS_TRAILER = 0"
  using assms
proof (induction data state rule: consumeHexDigits.induct)
  case (2 digit data state)
  show ?case
  proof (cases "hexDigit digit")
    case None
    have "STATE_IS_EXTENSION AND STATE_IS_TRAILER = 0"
      by (simp add: chunk_flag_defs)
    with None 2 show ?thesis
      by (auto simp: has_size_bit bit_simps bit_of_flag bit.conj_disj_distrib2 split: if_splits)
  next
    case (Some number)
    define v where "v = unat (chunkSize state)"
    have v: "v < 2 ^ 60"
      using take_bit_nat_less_exp [of 60 "unat state"]
      by (simp add: v_def chunkSize_def STATE_SIZE_MASK_mask unsigned_take_bit_eq flip: take_bit_eq_mask)
    have no: "chunkSize state AND STATE_SIZE_OVERFLOW = 0"
      using 2(4) Some by (auto split: if_splits)
    then have v56: "v < 2 ^ 56"
      using overflow_check [OF v] by (simp add: v_def)
    let ?w = "v * 16 + unat number"
    have w: "?w < 2 ^ 60" using v56 hexDigit_less [OF Some] by simp
    have next_state: "((state AND STATE_SIZE_MASK) * 16 + number) OR STATE_IS_CHUNKED = STATE_IS_CHUNKED OR of_nat ?w"
      by (simp add: v_def chunkSize_def or.commute)
    have "\<not> hasChunkSize (STATE_IS_CHUNKED OR of_nat ?w)"
      "(STATE_IS_CHUNKED OR of_nat ?w) AND STATE_IS_TRAILER = 0"
      using w by (simp_all only: flag_test flags_disjoint simp_thms)
    with 2 Some no show ?thesis by (simp only: consumeHexDigits.simps option.case if_False next_state simp_thms)
  qed
qed simp


lemma consumeHexNumber_inv:
  assumes "\<not> hasChunkSize state" and "state AND STATE_IS_TRAILER = 0"
  shows "chunk_inv (snd (consumeHexNumber data state))"
proof -
  have inv: "\<not> hasChunkSize s \<Longrightarrow> chunk_inv s" for s by (simp add: chunk_inv_def)
  obtain ret d s where chd: "consumeHexDigits data state = (ret, d, s)"
    by (metis prod_cases3)
  show ?thesis
  proof (cases "state AND STATE_IS_EXTENSION = 0")
    case True
    then show ?thesis
      using chd consumeHexDigits_returned [of data state] chunk_inv_error
        consumeHexDigits_clear [OF assms, of data d s] skipSizeLine_inv [OF inv, of s d]
      by (cases ret) (auto simp: consumeHexNumber_def)
  next
    case False
    then show ?thesis
      using skipSizeLine_inv [OF inv, of state data] assms by (simp add: consumeHexNumber_def)
  qed
qed

lemma decChunkSize_inv:
  assumes "l < unat (chunkSize state)" and "l < 2 ^ 32"
  shows "chunk_inv (decChunkSize state (of_nat l) OR STATE_IS_CHUNKED)"
proof -
  define k where "k = unat (chunkSize state)"
  have k: "k < 2 ^ 60"
    using take_bit_nat_less_exp [of 60 "unat state"]
    by (simp add: k_def chunkSize_def STATE_SIZE_MASK_mask unsigned_take_bit_eq flip: take_bit_eq_mask)
  let ?F = "(state AND NOT STATE_SIZE_MASK) OR STATE_IS_CHUNKED"
  have F: "take_bit 60 ?F = 0"
    by (simp add: STATE_SIZE_MASK_mask take_bit_eq_mask and.assoc bit.conj_disj_distrib2 flags_high [unfolded take_bit_eq_mask])
  have "chunkSize state - ucast (of_nat l :: u32) = of_nat (k - l)"
    using assms by (simp add: ucast_of_nat_u32 k_def of_nat_diff)
  then have "decChunkSize state (of_nat l) OR STATE_IS_CHUNKED = ?F OR of_nat (k - l)"
    by (simp add: decChunkSize_def or.assoc or.commute or.left_commute)
  moreover have "unat (chunkSize (?F OR of_nat (k - l))) = k - l"
    using size_packed [OF _ F, of "k - l"] k by simp
  ultimately show ?thesis
    using assms(1) by (auto simp: chunk_inv_def k_def)
qed

lemma getNextChunk_safe:
  assumes "chunk_inv state" and "length data < 2 ^ 32"
  shows "\<exists>c d s. getNextChunk data state = Some (c, d, s) \<and> chunk_inv s \<and> length d \<le> length data"
  using assms
proof (induction "length data" arbitrary: data state rule: less_induct)
  case less
  have init: "chunk_inv STATE_IS_CHUNKED" "chunk_inv STATE_IS_TRAILER"
    by (simp_all add: chunk_inv_def has_size_bit bit_of_flag)
  consider (nil) "data = []" | (trailer) "state AND STATE_IS_TRAILER \<noteq> 0"
    | (line) "data \<noteq> []" "state AND STATE_IS_TRAILER = 0" "\<not> hasChunkSize state"
    | (whole) "data \<noteq> []" "state AND STATE_IS_TRAILER = 0" "hasChunkSize state"
        "unat (chunkSize state) \<le> length data"
    | (part) "data \<noteq> []" "state AND STATE_IS_TRAILER = 0" "hasChunkSize state"
        "length data < unat (chunkSize state)"
    by linarith
  then show ?case
  proof cases
    case nil
    with less.prems show ?thesis by (simp add: getNextChunk_Nil)
  next
    case trailer
    with less.prems show ?thesis by (simp add: getNextChunk_trailer)
  next
    case line
    obtain d s where chn: "consumeHexNumber data state = (d, s)"
      by fastforce
    with consumeHexNumber_inv [OF line(3,2), of data] have inv: "chunk_inv s" by simp
    show ?thesis
    proof (cases "s = STATE_IS_ERROR")
      case True
      have "length d \<le> length data"
        using chn consumeHexDigits_length [of data state] skipSizeLine_length [of data state]
          skipSizeLine_length [of "fst (snd (consumeHexDigits data state))" "snd (snd (consumeHexDigits data state))"]
        by (auto simp: consumeHexNumber_def split: prod.splits if_splits)
      with True line chn inv show ?thesis
        by (simp add: getNextChunk_line isParsingInvalidChunkedEncoding_def)
    next
      case False
      with chn line consumeHexNumber_progress [of data state] have short: "length d < length data"
        by simp
      with less.prems(2) have "length d < 2 ^ 32" by simp
      from less.hyps [OF short inv this] short False line chn init show ?thesis
        by (fastforce simp: getNextChunk_line isParsingInvalidChunkedEncoding_def)
    qed
  next
    case whole
    then have "0 < unat (chunkSize state)"
      using less.prems(1) by (simp add: chunk_inv_def unat_gt_0)
    then have short: "length (drop (unat (chunkSize state)) data) < length data"
      using whole(1) by simp
    with less.prems(2) have "length (drop (unat (chunkSize state)) data) < 2 ^ 32" by simp
    from less.hyps [OF short init(1) this] short whole init chunk_inv_error
      \<open>0 < unat (chunkSize state)\<close> show ?thesis
      by (fastforce simp: getNextChunk_whole [OF _ _ _ refl])
  next
    case part
    have "chunk_inv (decChunkSize state (of_nat (length data)) OR STATE_IS_CHUNKED)"
      using part(4) less.prems(2) by (rule decChunkSize_inv)
    with part chunk_inv_error show ?thesis
      by (auto simp: getNextChunk_part [OF _ _ _ refl])
  qed
qed

lemma feed_chunks_None:
  "getNextChunk data state = Some (None, rest, state') \<Longrightarrow>
   feed_chunks state data = Some (state', [], rest)"
  by (simp add: feed_chunks_def chunkLoop.simps [of data])

lemma feed_chunks_safe:
  assumes "chunk_inv state" and "length data < 2 ^ 32"
  shows "\<exists>s ev rest. feed_chunks state data = Some (s, ev, rest) \<and> chunk_inv s"
  using assms
proof (induction "length data" arbitrary: data state rule: less_induct)
  case less
  then obtain c d s where g: "getNextChunk data state = Some (c, d, s)" and inv: "chunk_inv s"
    using getNextChunk_safe by blast
  show ?case
  proof (cases c)
    case None
    with g inv show ?thesis by (simp add: feed_chunks_def chunkLoop.simps [of data])
  next
    case (Some chunk)
    with g have short: "length d < length data" by (simp add: getNextChunk_progress)
    with less.prems(2) have "length d < 2 ^ 32" by simp
    from less.hyps [OF short inv this] g Some show ?thesis
      by (auto simp: feed_chunks_def chunkLoop.simps [of data] split: option.splits)
  qed
qed

lemma feed_all_safe:
  assumes "chunk_inv state" and "\<And>seg. seg \<in> set segs \<Longrightarrow> length seg < 2 ^ 32"
  shows "feed_all feed_chunks state segs \<noteq> None"
  using assms
proof (induction segs arbitrary: state)
  case (Cons seg segs)
  then obtain s ev rest where f: "feed_chunks state seg = Some (s, ev, rest)" and inv: "chunk_inv s"
    using feed_chunks_safe [of state seg] by auto
  have "feed_all feed_chunks s segs \<noteq> None"
    using Cons.IH [OF inv] Cons.prems(2) by simp
  with f show ?case by (auto split: option.splits)
qed simp

section \<open>Properties\<close>

text \<open>
  C1. On input that the byte-at-a-time machine takes, the decoder refines it: from any position of a
  body, and for any way of cutting the following bytes into receive segments of less than 4 GB, it
  ends in the state word of the position the machine reaches, has emitted exactly the payload bytes
  (and end marker) the machine emits, and has left unread exactly what the machine leaves unread.
  Two kinds of input are not covered: what the machine rejects (\<open>chunked_rejects_malformed\<close> is about
  it), and what is outside the machine, a carriage return in a size line that no line feed follows or
  a size of 2^60 - 2 or more. There the state can depend on the cut
  (\<open>chunk_size_depends_on_segmentation\<close>) or carry into the flags
  (\<open>chunk_size_carry_is_not_rejected\<close>).
\<close>

theorem chunked_refines_machine:
  assumes "chunk_pos_ok p"
    and "\<And>seg. seg \<in> set segs \<Longrightarrow> length seg < 2 ^ 32"
    and "run_machine chunk_step (\<lambda>s. s = Done) p (concat segs) = (p', out, rest)"
    and "p' \<noteq> Bad" and "p' \<noteq> Outside"
  shows "feed_all feed_chunks (chunk_state p) segs = Some (chunk_state p', out, rest)"
  using chunked.segmentation_independent [of segs p p' out rest] assms by blast

lemma chunked_refines_machine_witness:
  "feed_all feed_chunks (chunk_state (Size 0)) [ascii ''3'', [CR, LF, 97], [98, 99, CR]] =
     Some (chunk_state BodyLF, [Byte 97, Byte 98, Byte 99], [])"
proof (rule chunked_refines_machine)
  show "run_machine chunk_step (\<lambda>s. s = Done) (Size 0) (concat [ascii ''3'', [CR, LF, 97], [98, 99, CR]])
      = (BodyLF, [Byte 97, Byte 98, Byte 99], [])"
    by (simp add: run_machine.simps hexDigit_def chunk_line_end_def)
qed (auto)

text \<open>
  C14. Decoding inverts encoding: a body sent as any sequence of non-empty chunks is delivered as
  the concatenation of the chunks followed by one end marker, whatever the segmentation, and the
  bytes after the last size line (the trailer section) are left for the trailer parser.
\<close>

theorem chunked_body_roundtrip:
  assumes "\<And>c. c \<in> set chunks \<Longrightarrow> c \<noteq> [] \<and> length c + 2 < 2 ^ 60"
    and "concat segs = encode_body chunks @ rest"
    and "\<And>seg. seg \<in> set segs \<Longrightarrow> length seg < 2 ^ 32"
  shows "feed_all feed_chunks STATE_IS_CHUNKED segs =
      Some (STATE_IS_TRAILER, map Byte (concat chunks) @ [Fin], rest)"
proof -
  have run: "chunk_run (Size 0) (concat segs) = (Done, map Byte (concat chunks) @ [Fin], rest)"
    unfolding assms(2) by (rule run_encode_body) (rule assms(1))
  have "feed_all feed_chunks (chunk_state (Size 0)) segs =
      Some (chunk_state Done, map Byte (concat chunks) @ [Fin], rest)"
    by (rule chunked.segmentation_independent [OF _ _ run]) (use assms(3) in auto)
  then show ?thesis by simp
qed

lemma chunked_body_roundtrip_witness:
  "feed_all feed_chunks STATE_IS_CHUNKED [[50, CR], [LF, 104, 105, CR, LF, 48], [CR, LF, CR, LF]] =
     Some (STATE_IS_TRAILER, map Byte (concat [[104, 105]]) @ [Fin], [CR, LF])"
  by (rule chunked_body_roundtrip)
     (auto simp: encode_body_def encode_chunk_def hex_of.simps hex_char_def)

text \<open>
  C15. Malformed bodies are rejected: if the machine rejects the bytes of a segment (a size line
  with a character that is neither a digit, a semicolon nor a line end, a size that overflows the
  size field, or chunk data not followed by a line end), the decoder is in its error state after
  that segment, and it has not emitted anything the machine did not.
\<close>

theorem chunked_rejects_malformed:
  assumes "chunk_pos_ok p" and "p \<noteq> Bad" and "length data < 2 ^ 32"
    and "run_machine chunk_step (\<lambda>s. s = Done) p data = (Bad, out, rest)"
  shows "\<exists>ev d. feed_chunks (chunk_state p) data = Some (STATE_IS_ERROR, ev, d) \<and> prefix ev out"
proof -
  have "p \<noteq> Outside"
    using assms(4) chunk_run_Outside [of data] by auto
  with feed_chunks_run [OF assms(1,2) _ assms(3,4)] show ?thesis by auto
qed

lemma chunked_rejects_malformed_witness:
  "\<exists>ev d. feed_chunks (chunk_state (Body 1)) [97, 98, LF] = Some (STATE_IS_ERROR, ev, d) \<and> prefix ev [Byte 97]"
  by (rule chunked_rejects_malformed) (simp_all add: run_machine.simps)

text \<open>
  Memory safety: whatever bytes arrive, in whatever segments, the decoder never reads outside
  the segment it was given, not even on malformed sizes that overflow the size field.
\<close>

theorem chunked_never_reads_outside:
  assumes "\<And>seg. seg \<in> set segs \<Longrightarrow> length seg < 2 ^ 32"
  shows "feed_all feed_chunks STATE_IS_CHUNKED segs \<noteq> None"
  by (rule feed_all_safe)
     (simp add: chunk_inv_def has_size_bit bit_of_flag, rule assms)

lemma chunked_never_reads_outside_witness:
  "feed_all feed_chunks STATE_IS_CHUNKED [ascii ''fffffffffffffff'', [CR, LF, 0, 0]] \<noteq> None"
  by (rule chunked_never_reads_outside) auto

text \<open>
  A size line of fifteen hexadecimal digits f is neither decoded nor rejected: the carry of
  the terminator bytes sets the trailer bit, the decoder stops without an error and without having
  consumed the chunk data, and it stays in that state for ever.
\<close>

theorem chunk_size_carry_is_not_rejected:
  "\<exists>state. state \<noteq> STATE_IS_ERROR \<and> state \<noteq> STATE_IS_TRAILER \<and>
     feed_chunks STATE_IS_CHUNKED (ascii ''fffffffffffffff'' @ [CR, LF] @ rest) = Some (state, [], rest) \<and>
     feed_chunks state rest = Some (state, [], rest)"
proof -
  let ?size = "4611686018427387904 + 1152921504606846975 :: u64"
  let ?state = "endSizeLine ?size"
  have hex: "hexDigit 102 = Some 15" "hexDigit CR = None"
    by (simp_all add: hexDigit_def)
  have line: "consumeHexNumber (ascii ''fffffffffffffff'' @ [CR, LF] @ rest) STATE_IS_CHUNKED = (rest, ?state)"
    by (simp add: consumeHexNumber_def chunk_flag_defs hex chunkSize_def STATE_SIZE_MASK_def)
  have st: "?state \<noteq> STATE_IS_ERROR" "?state \<noteq> STATE_IS_TRAILER" "?state AND STATE_IS_TRAILER \<noteq> 0"
    "hasChunkSize ?state" "chunkSize ?state \<noteq> 2"
    by (simp_all add: endSizeLine_def chunk_flag_defs hasChunkSize_def chunkSize_def STATE_SIZE_MASK_def)
  have "getNextChunk (ascii ''fffffffffffffff'' @ [CR, LF] @ rest) STATE_IS_CHUNKED = Some (None, rest, ?state)"
    using st by (subst getNextChunk_line)
      (simp_all only: line, simp_all add: isParsingInvalidChunkedEncoding_def getNextChunk_trailer
        hasChunkSize_def flags_disjoint)
  then have "feed_chunks STATE_IS_CHUNKED (ascii ''fffffffffffffff'' @ [CR, LF] @ rest) = Some (?state, [], rest)"
    by (rule feed_chunks_None)
  moreover have "feed_chunks ?state rest = Some (?state, [], rest)"
    using st(3) by (intro feed_chunks_None getNextChunk_trailer)
  ultimately show ?thesis using st(1,2) by blast
qed

text \<open>
  The size of a chunk depends on how the network cuts its size line: with a stray byte between
  the carriage return and the line feed, the stray byte is skipped when it comes in the same
  segment and read as one more digit when it starts the next segment.
\<close>

theorem chunk_size_depends_on_segmentation:
  "feed_all feed_chunks STATE_IS_CHUNKED [[49, CR, 48, LF]] = Some (chunk_state (Body 1), [], []) \<and>
   feed_all feed_chunks STATE_IS_CHUNKED [[49, CR], [48, LF]] = Some (chunk_state (Body 16), [], [])"
proof -
  have hex: "hexDigit 49 = Some 1" "hexDigit 48 = Some 0" "hexDigit CR = None" "hexDigit LF = None"
    by (simp_all add: hexDigit_def)
  show ?thesis
    by (simp add: feed_chunks_def chunkLoop.simps getNextChunk.simps consumeHexNumber_def hex
        chunk_flag_defs chunkSize_def STATE_SIZE_MASK_def hasChunkSize_def endSizeLine_def
        isParsingInvalidChunkedEncoding_def)
qed

end
