(* ===== verification/WordBytes.thy ===== *)
theory WordBytes
  imports Prelude
begin

text \<open>
  Arithmetic on a 64-bit word as arithmetic on its bytes, for the scanners that look at eight
  characters with one operation.
\<close>

lemma load_le_Cons: "load_le (b # bs) = (ucast b + 256 * load_le bs :: u64)"
proof -
  have "ucast b AND push_bit 8 (load_le bs :: u64) = 0"
  proof (rule bit_word_eqI)
    fix n assume "n < LENGTH(64)"
    show "bit (ucast b AND push_bit 8 (load_le bs :: u64)) n = bit (0 :: u64) n"
      using bit_imp_le_length [of b n] by (auto simp: bit_and_iff bit_push_bit_iff bit_unsigned_iff)
  qed
  then have "ucast b OR push_bit 8 (load_le bs :: u64) = ucast b + push_bit 8 (load_le bs)"
    by (rule disjunctive_add_eq_or [symmetric])
  then show ?thesis by (simp add: push_bit_eq_mult)
qed

text \<open>Subtracting \<open>n\<close> from every byte, with the borrows a subtraction of words makes.\<close>

fun subBytes :: "bool \<Rightarrow> byte \<Rightarrow> bytes \<Rightarrow> bytes" where
  "subBytes borrow n [] = []"
| "subBytes borrow n (x # xs) =
     (x - n - of_bool borrow) # subBytes (uint x < uint n + of_bool borrow) n xs"

fun borrowOut :: "bool \<Rightarrow> byte \<Rightarrow> bytes \<Rightarrow> bool" where
  "borrowOut borrow n [] = borrow"
| "borrowOut borrow n (x # xs) = borrowOut (uint x < uint n + of_bool borrow) n xs"

lemma length_subBytes [simp]: "length (subBytes borrow n xs) = length xs"
  by (induction xs arbitrary: borrow) simp_all

lemma mod_borrow:
  fixes d :: int
  assumes "- 256 \<le> d" and "d < 256"
  shows "d mod 256 = d + 256 * of_bool (d < 0)"
proof (cases "d < 0")
  case True
  then have "(d + 256) mod 256 = d + 256" using assms by (intro mod_pos_pos_trivial) simp_all
  then show ?thesis using True by simp
next
  case False
  then show ?thesis using assms by simp
qed

lemma byte_borrow:
  "(ucast (x - n - of_bool c) :: u64) =
     ucast x - ucast n - of_bool c + 256 * of_bool (uint x < uint n + of_bool c)" for x n :: byte
proof -
  let ?d = "uint x - uint n - of_bool c :: int"
  have bounds: "0 \<le> uint x" "uint x < 256" "0 \<le> uint n" "uint n < 256"
    using uint_bounded [of x] uint_bounded [of n] by simp_all
  have "uint (x - n - of_bool c) = ?d mod 256"
    by (cases c) (simp_all add: uint_word_ariths mod_diff_left_eq)
  also have "\<dots> = ?d + 256 * of_bool (?d < 0)"
  proof (rule mod_borrow)
    have "0 \<le> (of_bool c :: int)" "of_bool c \<le> (1 :: int)" by simp_all
    with bounds show "- 256 \<le> ?d" "?d < 256" by linarith+
  qed
  also have "?d < 0 \<longleftrightarrow> uint x < uint n + of_bool c" by linarith
  finally have u: "uint (x - n - of_bool c) = ?d + 256 * of_bool (uint x < uint n + of_bool c)" .
  have "(ucast (x - n - of_bool c) :: u64) = word_of_int (uint (x - n - of_bool c))" by simp
  also have "\<dots> = word_of_int (uint x) - word_of_int (uint n) - of_bool c + 256 * of_bool (uint x < uint n + of_bool c)"
    unfolding u by (cases c; cases "uint x < uint n + of_bool c") simp_all
  finally show ?thesis by simp
qed

lemma load_le_sub:
  "load_le (subBytes c n xs) =
     (load_le xs - load_le (replicate (length xs) n) - of_bool c + 256 ^ length xs * of_bool (borrowOut c n xs) :: u64)"
proof (induction xs arbitrary: c)
  case Nil
  then show ?case by simp
next
  case (Cons x xs)
  show ?case
    unfolding subBytes.simps load_le_Cons Cons.IH byte_borrow length_Cons replicate_Suc borrowOut.simps power_Suc
    by (simp add: algebra_simps)
qed

lemma bit_7_iff: "bit b 7 \<longleftrightarrow> 128 \<le> uint b" for b :: byte
proof -
  have "bit b 7 \<longleftrightarrow> bit (uint b) 7" by (simp add: bit_uint_iff)
  also have "\<dots> \<longleftrightarrow> odd (uint b div 128)" by (simp add: bit_iff_odd)
  also have "\<dots> \<longleftrightarrow> 128 \<le> uint b"
  proof (cases "128 \<le> uint b")
    case True
    then have "uint b div 128 = 1" using uint_bounded [of b] by (intro int_div_pos_eq [of _ _ _ "uint b - 128"]) simp_all
    then show ?thesis using True by simp
  qed simp
  finally show ?thesis .
qed

text \<open>
  The word trick: subtract, and keep the top bits that were not set before. The first byte less than
  \<open>n\<close> is below 128 and its difference is not; before it nothing borrows, so no other byte is flagged.
\<close>

lemma subBytes_flag:
  assumes "n \<le> 128"
  shows "(\<exists>i<length xs. bit (subBytes False n xs ! i) 7 \<and> \<not> bit (xs ! i) 7) \<longleftrightarrow> (\<exists>x\<in>set xs. x < n)"
proof (induction xs)
  case Nil
  then show ?case by simp
next
  case (Cons x xs)
  have n: "uint n \<le> 128" using assms by (simp add: word_le_def)
  have d: "uint (x - n) = uint x - uint n + 256 * of_bool (uint x < uint n)"
  proof -
    have "0 \<le> uint x" "uint x < 256" "0 \<le> uint n" "uint n < 256"
      using uint_bounded [of x] uint_bounded [of n] by simp_all
    then have "(uint x - uint n) mod 256 = uint x - uint n + 256 * of_bool (uint x - uint n < 0)"
      by (intro mod_borrow) linarith+
    then show ?thesis by (simp add: uint_word_ariths)
  qed
  show ?case
  proof (cases "uint x < uint n")
    case True
    moreover have "0 \<le> uint x" by simp
    moreover have "uint (x - n) = uint x - uint n + 256" using True d by simp
    ultimately have "128 \<le> uint (x - n)" "\<not> 128 \<le> uint x" using n by linarith+
    then have "bit (x - n) 7" "\<not> bit x 7" "x < n"
      using True unfolding bit_7_iff word_less_def by simp_all
    then show ?thesis by (auto intro!: exI [of _ 0])
  next
    case False
    have nn: "0 \<le> uint n" by simp
    have "uint (x - n) = uint x - uint n" using False d by simp
    then have "128 \<le> uint (x - n) \<Longrightarrow> 128 \<le> uint x" using nn by linarith
    then have no: "\<not> (bit (x - n) 7 \<and> \<not> bit x 7)" "\<not> x < n"
      using False by (auto simp: bit_7_iff word_less_def)
    have "(\<exists>i<length (x # xs). bit (subBytes False n (x # xs) ! i) 7 \<and> \<not> bit ((x # xs) ! i) 7) \<longleftrightarrow>
        (\<exists>i<length xs. bit (subBytes False n xs ! i) 7 \<and> \<not> bit (xs ! i) 7)"
      using no False by (simp add: Ex_less_Suc2) blast
    then show ?thesis using Cons.IH no by auto
  qed
qed


lemma bit_high: "bit (0x8080808080808080 :: u64) n \<longleftrightarrow> n < 64 \<and> n mod 8 = 7"
proof -
  have "\<forall>n < 64. bit (0x8080808080808080 :: u64) n \<longleftrightarrow> n mod 8 = 7" by code_simp
  then show ?thesis using bit_imp_le_length [of "0x8080808080808080 :: u64" n] by auto
qed

lemma subtract_trick:
  assumes "length xs = 8" and "n \<le> 128"
  shows "(load_le xs - 0x0101010101010101 * ucast n) AND NOT (load_le xs) AND (0x8080808080808080 :: u64) \<noteq> 0 \<longleftrightarrow>
    (\<exists>x\<in>set xs. x < n)"
proof -
  let ?d = "load_le xs - 0x0101010101010101 * ucast n :: u64"
  have ones: "load_le (replicate 8 n) = (0x0101010101010101 * ucast n :: u64)"
    by (simp only: numeral_eq_Suc pred_numeral_simps BitM.simps replicate_Suc replicate_0 load_le_Cons)
       (simp add: algebra_simps)
  have "load_le (subBytes False n xs) = (?d + 256 ^ 8 * of_bool (borrowOut False n xs) :: u64)"
    unfolding load_le_sub assms(1) ones by simp
  then have d: "?d = load_le (subBytes False n xs)" by simp
  have "?d AND NOT (load_le xs) AND 0x8080808080808080 \<noteq> 0 \<longleftrightarrow>
      (\<exists>k<64. k mod 8 = 7 \<and> bit ?d k \<and> \<not> bit (load_le xs :: u64) k)"
    unfolding bit_eq_iff [of _ "0 :: u64"] by (auto simp: bit_and_iff bit_not_iff bit_high simp del: bit_numeral_word_iff)
  also have "\<dots> \<longleftrightarrow> (\<exists>i<8. bit (subBytes False n xs ! i) 7 \<and> \<not> bit (xs ! i) 7)" (is "?l \<longleftrightarrow> ?r")
  proof
    assume ?l
    then obtain k where k: "k < 64" "k mod 8 = 7" "bit ?d k" "\<not> bit (load_le xs :: u64) k" by blast
    then have "k div 8 < 8" by (simp add: less_mult_imp_div_less)
    then show ?r using k assms(1) unfolding d bit_load_le by (auto intro!: exI [of _ "k div 8"])
  next
    assume ?r
    then obtain i where i: "i < 8" "bit (subBytes False n xs ! i) 7" "\<not> bit (xs ! i) 7" by blast
    have m: "(8 * i + 7) div 8 = i" "(8 * i + 7) mod 8 = 7" by simp_all
    show ?l using i assms(1) unfolding d bit_load_le
      by (intro exI [of _ "8 * i + 7"]) (simp add: m)
  qed
  also have "\<dots> \<longleftrightarrow> (\<exists>x\<in>set xs. x < n)" using subBytes_flag [OF assms(2), of xs] assms(1) by simp
  finally show ?thesis .
qed

end
