(* ===== verification/BloomFilter.thy ===== *)
theory BloomFilter
  imports Prelude
begin

text \<open>
  The filter of native/uwebsockets/BloomFilter.h that lets \<open>getHeader\<close> skip the scan for a header
  that was not sent: four bits per key, from a multiplicative hash of four of its characters.
\<close>

type_synonym bloom = "256 word"

definition perfectHash :: "u32 \<Rightarrow> u32" where
  "perfectHash features = features * 1843993368"

definition getFeatures :: "bytes \<Rightarrow> u32" where
  "getFeatures key =
     load_le [key ! 0, key ! (length key - 1), key ! (length key - 2), key ! (length key div 2)]"

definition scramble :: "bytes \<Rightarrow> nat list" where
  "scramble key = map unat (store_le 4 (perfectHash (getFeatures key)))"

definition mightHave :: "bytes \<Rightarrow> bloom \<Rightarrow> bool" where
  "mightHave key f \<longleftrightarrow> length key < 2 \<or> list_all (bit f) (scramble key)"

definition bloomAdd :: "bytes \<Rightarrow> bloom \<Rightarrow> bloom" where
  "bloomAdd key f = (if 2 \<le> length key then fold set_bit (scramble key) f else f)"

definition bloomReset :: bloom where
  "bloomReset = 0"

lemma bit_fold_set_bit:
  "bit (fold set_bit ns f) m \<longleftrightarrow> bit f m \<or> m \<in> set ns \<and> m < 256" for f :: bloom
  by (induction ns arbitrary: f) (auto simp: bit_set_bit_iff)

lemma scramble_less: "n \<in> set (scramble key) \<Longrightarrow> n < 256"
  by (auto simp: scramble_def)

lemma mightHave_add:
  "mightHave key (bloomAdd key f)" "mightHave key f \<Longrightarrow> mightHave key (bloomAdd key' f)"
  by (auto simp: mightHave_def bloomAdd_def list_all_iff bit_fold_set_bit scramble_less)

lemma mightHave_fold:
  "mightHave key f \<Longrightarrow> mightHave key (fold bloomAdd keys f)"
  by (induction keys arbitrary: f) (simp_all add: mightHave_add)

text \<open>No false negatives, whatever was added before or after.\<close>

lemma no_false_negative: "key \<in> set keys \<Longrightarrow> mightHave key (fold bloomAdd keys f)"
  by (induction keys arbitrary: f) (auto simp: mightHave_add mightHave_fold)

end
