(* ===== verification/ProxyParser.thy ===== *)
theory ProxyParser
  imports Prelude
begin

text \<open>
  The PROXY protocol version 2 header a load balancer puts in front of a connection:
  native/uwebsockets/ProxyParser.h. A read outside the data is \<open>None\<close>.
\<close>

text \<open>\<open>addr\<close> is the union of the address layouts, 36 bytes; \<open>family\<close> 0 means no address.\<close>

record ProxyParser =
  proxyAddr :: bytes
  proxyDone :: bool
  proxyFamily :: byte

definition freshProxy :: ProxyParser where
  "freshProxy = \<lparr>proxyAddr = replicate 36 0, proxyDone = False, proxyFamily = 0\<rparr>"

definition proxySignature :: bytes where
  "proxySignature = [0x0D, 0x0A, 0x0D, 0x0A, 0x00, 0x0D, 0x0A, 0x51, 0x55, 0x49, 0x54, 0x0A]"

definition inet4 :: "byte \<Rightarrow> bool" where
  "inet4 family \<longleftrightarrow> drop_bit 4 (family AND 0xF0) = 1"

definition getSourceAddress :: "ProxyParser \<Rightarrow> bytes" where
  "getSourceAddress pp =
     (if proxyFamily pp = 0 then []
      else if inet4 (proxyFamily pp) then take 4 (proxyAddr pp) else take 16 (proxyAddr pp))"

text \<open>Ports are in network byte order: at offset 8 of an IPv4 address pair and at 32 of an IPv6 pair.\<close>

definition getSourcePort :: "ProxyParser \<Rightarrow> u16" where
  "getSourcePort pp =
     (if proxyFamily pp = 0 then 0
      else load_le (rev (take 2 (drop (if inet4 (proxyFamily pp) then 8 else 32) (proxyAddr pp)))))"

text \<open>The pair of the source: whether HTTP can go on, and how many bytes were the PROXY header.\<close>

definition proxyParse :: "bytes \<Rightarrow> ProxyParser \<Rightarrow> (bool \<times> nat) \<times> ProxyParser" where
  "proxyParse data pp =
     (if length data < 4 then ((False, 0), pp)
      else if take 4 data \<noteq> [CR, LF, CR, LF] then ((True, 0), pp)
      else if length data < 16 then ((False, 0), pp)
      else if take 12 data \<noteq> proxySignature then ((False, 0), pp)
      else if drop_bit 4 (data ! 12 AND 0xF0) \<noteq> 2 then ((False, 0), pp)
      else
        (let hostLength = unat (load_le (rev (take 2 (drop 14 data))) :: u16) in
         if length data < 16 + hostLength then ((False, 0), pp)
         else if 36 < hostLength then ((False, 0), pp)
         else
           ((True, 16 + hostLength),
            if proxyDone pp then pp
            else pp\<lparr>proxyFamily := data ! 13,
                     proxyAddr := take hostLength (drop 16 data) @ drop hostLength (proxyAddr pp),
                     proxyDone := True\<rparr>)))"

lemma proxyParse_consumed:
  assumes "proxyParse data pp = ((ok, n), pp')"
  shows "n \<le> length data" "ok \<or> n = 0"
  using assms by (auto simp: proxyParse_def Let_def split: if_splits)

text \<open>A stream that is not PROXY is passed through from its fourth byte on.\<close>

lemma proxyParse_http:
  "take 4 data \<noteq> [CR, LF, CR, LF] \<Longrightarrow> 4 \<le> length data \<Longrightarrow> proxyParse data pp = ((True, 0), pp)"
  by (simp add: proxyParse_def)

text \<open>The answer for a prefix is final: more data does not change it.\<close>

lemma proxyParse_prefix:
  assumes "proxyParse data pp = ((True, n), pp')"
  shows "proxyParse (data @ more_data) pp = ((True, n), pp')"
proof (cases "take 4 data = [CR, LF, CR, LF]")
  case False
  then show ?thesis using assms by (auto simp: proxyParse_def split: if_splits)
next
  case True
  then have len: "16 \<le> length data" using assms by (auto simp: proxyParse_def split: if_splits)
  have same: "take 4 (data @ more_data) = take 4 data" "take 12 (data @ more_data) = take 12 data"
    "(data @ more_data) ! 12 = data ! 12" "(data @ more_data) ! 13 = data ! 13"
    "take 2 (drop 14 (data @ more_data)) = take 2 (drop 14 data)"
    using len by (simp_all add: nth_append)
  have host: "take h (drop 16 (data @ more_data)) = take h (drop 16 data)" if "16 + h \<le> length data" for h
    using that by simp
  show ?thesis
    using assms len True unfolding proxyParse_def same Let_def
    by (simp add: host not_less split: if_splits)
qed

text \<open>The header a sender writes.\<close>

definition proxyHeader :: "byte \<Rightarrow> bytes \<Rightarrow> bytes" where
  "proxyHeader family payload =
     proxySignature @ [0x21, family] @ rev (store_le 2 (word_of_nat (length payload) :: u16)) @ payload"

lemma proxyParse_header:
  assumes "length payload \<le> 36" and "\<not> proxyDone pp" and "length (proxyAddr pp) = 36"
  shows "proxyParse (proxyHeader family payload @ rest) pp =
    ((True, 16 + length payload),
     pp\<lparr>proxyFamily := family, proxyAddr := payload @ drop (length payload) (proxyAddr pp), proxyDone := True\<rparr>)"
proof -
  have n: "unat (word_of_nat (length payload) :: u16) = length payload"
    using assms(1) by (intro unat_of_nat_u16) simp
  have sw: "load_le (rev (rev (store_le 2 (word_of_nat (length payload) :: u16)))) = (word_of_nat (length payload) :: u16)"
    by (simp add: load_store_le)
  have two: "length (rev (store_le 2 (word_of_nat (length payload) :: u16))) = 2" by simp
  let ?d = "proxyHeader family payload @ rest"
  have take: "take 4 ?d = [CR, LF, CR, LF]" "take 12 ?d = proxySignature" "?d ! 12 = 0x21" "?d ! 13 = family"
    by (simp_all add: proxyHeader_def proxySignature_def)
  have len: "take 2 (drop 14 ?d) = rev (store_le 2 (word_of_nat (length payload) :: u16))"
    "drop 16 ?d = payload @ rest"
    by (simp_all add: proxyHeader_def proxySignature_def)
  have ver: "drop_bit 4 ((0x21 :: byte) AND 0xF0) = 2" by simp
  show ?thesis
    using assms unfolding proxyParse_def take len sw Let_def n
    by (simp add: ver proxyHeader_def proxySignature_def)
qed

end
