(* ===== verification/HttpHead.thy ===== *)
theory HttpHead
  imports WordBytes BloomFilter ProxyParser "HOL-Library.Monad_Syntax"
begin

text \<open>
  Parsing the head of a request: \<open>getHeaders\<close> of native/uwebsockets/HttpParser.h and the scanners
  it calls. They run over the receive buffer without checking for its end: two bytes behind it are
  overwritten with \<open>\r\<close> and \<open>a\<close>, which stop every scan. In the model every read and write of the
  buffer is checked, \<open>None\<close> is an access outside of it. Characters are signed: bytes from 128 on
  are negative.
\<close>

section \<open>Scanning\<close>

definition scharGe :: "byte \<Rightarrow> byte \<Rightarrow> bool" where
  "scharGe b n \<longleftrightarrow> n \<le> b \<and> b < 128"

definition schar_between :: "byte \<Rightarrow> byte \<Rightarrow> byte \<Rightarrow> bool" where
  "schar_between lo hi b \<longleftrightarrow> scharGe b lo \<and> b \<le> hi"

text \<open>The first position from \<open>p\<close> on whose byte fails the test.\<close>

function scanWhile :: "(byte \<Rightarrow> bool) \<Rightarrow> bytes \<Rightarrow> nat \<Rightarrow> nat option" where
  "scanWhile P mem p =
     (if p < length mem then if P (mem ! p) then scanWhile P mem (p + 1) else Some p else None)"
  by pat_completeness auto
termination by (relation "measure (\<lambda>(P, mem, p). length mem - p)") auto

declare scanWhile.simps [simp del]

text \<open>Eight bytes at a time: is one of them less than \<open>n\<close>?\<close>

definition hasLess :: "u64 \<Rightarrow> u64 \<Rightarrow> bool" where
  "hasLess x n \<longleftrightarrow> ((x - (-1 div 255) * n) AND NOT x AND (-1 div 255) * 128) \<noteq> 0"

definition isUnlikelyFieldNameByte :: "byte \<Rightarrow> bool" where
  "isUnlikelyFieldNameByte c \<longleftrightarrow>
     c = 126 \<or> c = 124 \<or> c = 96 \<or> c = 95 \<or> c = 94 \<or> c = 46 \<or> c = 43 \<or> c = 42 \<or> c = 33 \<or>
     48 \<le> c \<and> c \<le> 57 \<or> c \<le> 39 \<and> 35 \<le> c"

text \<open>The byte a field name has for \<open>c\<close>, if it may have one.\<close>

definition isFieldNameByteFastLowercased :: "byte \<Rightarrow> byte option" where
  "isFieldNameByteFastLowercased c =
     (if 97 \<le> c \<and> c \<le> 122 \<or> c = 45 then Some c
      else if 65 \<le> c \<and> c \<le> 90 then Some (c OR 32)
      else if isUnlikelyFieldNameByte c then Some c
      else None)"

abbreviation isUpper :: "byte \<Rightarrow> bool" where "isUpper \<equiv> schar_between 65 90"
abbreviation isLower :: "byte \<Rightarrow> bool" where "isLower \<equiv> schar_between 97 122"

text \<open>\<open>while (upper case) { *p |= 32; p++; }\<close>\<close>

function lowerRun :: "bytes \<Rightarrow> nat \<Rightarrow> (bytes \<times> nat) option" where
  "lowerRun mem p =
     (if p < length mem then
        if isUpper (mem ! p) then lowerRun (mem[p := mem ! p OR 32]) (p + 1) else Some (mem, p)
      else None)"
  by pat_completeness auto
termination by (relation "measure (\<lambda>(mem, p). length mem - p)") auto

declare lowerRun.simps [simp del]

text \<open>The generic loop at the end of \<open>consumeFieldName\<close>.\<close>

function genericRun :: "bytes \<Rightarrow> nat \<Rightarrow> (bytes \<times> nat) option" where
  "genericRun mem p =
     (if p < length mem then
        (case isFieldNameByteFastLowercased (mem ! p) of
           Some b \<Rightarrow> genericRun (mem[p := b]) (p + 1)
         | None \<Rightarrow> Some (mem, p))
      else None)"
  by pat_completeness auto
termination by (relation "measure (\<lambda>(mem, p). length mem - p)") auto

declare genericRun.simps [simp del]

lemma lowerRun_length: "lowerRun mem p = Some (mem', p') \<Longrightarrow> length mem' = length mem \<and> p \<le> p' \<and> p' < length mem"
proof (induction mem p arbitrary: mem' p' rule: lowerRun.induct)
  case (1 mem p)
  from "1.prems" show ?case
    by (subst (asm) lowerRun.simps) (auto split: if_splits dest!: "1.IH")
qed

lemma scanWhile_le: "scanWhile P mem p = Some q \<Longrightarrow> p \<le> q \<and> q < length mem"
proof (induction P mem p rule: scanWhile.induct)
  case (1 P mem p)
  from "1.prems" show ?case
    by (subst (asm) scanWhile.simps) (auto split: if_splits dest!: "1.IH")
qed

lemma lowerRun_stay: "lowerRun mem p = Some (mem', p) \<Longrightarrow> mem' = mem \<and> \<not> isUpper (mem ! p)"
  using lowerRun_length [of "mem[p := mem ! p OR 32]" "p + 1" mem' p]
  by (subst (asm) lowerRun.simps) (auto split: if_splits)

function fastFieldName :: "bytes \<Rightarrow> nat \<Rightarrow> (bytes \<times> nat) option" where
  "fastFieldName mem p =
     (case lowerRun mem p of
        None \<Rightarrow> None
      | Some (mem', p1) \<Rightarrow>
          (case scanWhile isLower mem' p1 of
             None \<Rightarrow> None
           | Some p' \<Rightarrow>
               if mem' ! p' = 58 then Some (mem', p')
               else if mem' ! p' = 45 then fastFieldName mem' (p' + 1)
               else if \<not> isUpper (mem' ! p') then genericRun mem' p'
               else fastFieldName mem' p'))"
  by pat_completeness auto
termination
proof (relation "measure (\<lambda>(mem, p). length mem - p)", goal_cases)
  case 1
  show ?case by simp
next
  case (2 mem p r mem' p1 p')
  then show ?case
    using lowerRun_length [of mem p mem' p1] scanWhile_le [of isLower mem' p1 p'] by auto
next
  case (3 mem p r mem' p1 p')
  then have l: "lowerRun mem p = Some (mem', p1)" "scanWhile isLower mem' p1 = Some p'" "isUpper (mem' ! p')" by simp_all
  have "p < p'"
  proof (rule ccontr)
    assume "\<not> p < p'"
    then have "p1 = p" "p' = p" using lowerRun_length [OF l(1)] scanWhile_le [OF l(2)] by auto
    then show False using lowerRun_stay [of mem p mem'] l(1,3) by simp
  qed
  then show ?case using lowerRun_length [OF l(1)] scanWhile_le [OF l(2)] by auto
qed

declare fastFieldName.simps [simp del]

definition consumeFieldName :: "bytes \<Rightarrow> nat \<Rightarrow> (bytes \<times> nat) option" where
  "consumeFieldName mem p = fastFieldName mem p"

text \<open>Loops over words of eight bytes that end with a scan inside the word.\<close>

function wordScan :: "byte \<Rightarrow> bytes \<Rightarrow> nat \<Rightarrow> nat option" where
  "wordScan n mem p =
     (case rdN mem p 8 of
        None \<Rightarrow> None
      | Some bs \<Rightarrow>
          if hasLess (load_le bs) (ucast n) then scanWhile (\<lambda>b. n - 1 < b) mem p
          else wordScan n mem (p + 8))"
  by pat_completeness auto
termination
  by (relation "measure (\<lambda>(n, mem, p). length mem - p)") (auto simp: rdN_def split: if_splits)

declare wordScan.simps [simp del]

definition tryConsumeFieldValue :: "bytes \<Rightarrow> nat \<Rightarrow> nat option" where
  "tryConsumeFieldValue mem p = wordScan 32 mem p"

section \<open>The request line and the headers\<close>

datatype HttpError =
    HTTP_ERROR_505_HTTP_VERSION_NOT_SUPPORTED
  | HTTP_ERROR_431_REQUEST_HEADER_FIELDS_TOO_LARGE
  | HTTP_ERROR_400_BAD_REQUEST

type_synonym header = "bytes \<times> bytes"

text \<open>The null pointer, the pointer 1, and the end of the line with method and target.\<close>

datatype requestLine = TryAgain | BadLine | Line header nat

definition httpVersion :: bytes where
  "httpVersion = ascii '' HTTP/1.1'' @ [CR, LF]"

definition bytesOf :: "bytes \<Rightarrow> nat \<Rightarrow> nat \<Rightarrow> bytes" where
  "bytesOf mem p q = take (q - p) (drop p mem)"

definition consumeRequestLine :: "bytes \<Rightarrow> nat \<Rightarrow> nat \<Rightarrow> requestLine option" where
  "consumeRequestLine mem start stop = do {
     d \<leftarrow> scanWhile (\<lambda>b. scharGe b 33) mem start;
     if d + 1 = stop then Some TryAgain
     else do {
       b0 \<leftarrow> rd mem d;
       b1 \<leftarrow> (if b0 = SP then rd mem (d + 1) else Some 0);
       if b0 = SP \<and> b1 = 47 then do {
         e \<leftarrow> wordScan 33 mem (d + 1);
         let line = (bytesOf mem start d, bytesOf mem (d + 1) e);
         if stop \<le> e + 11 then do {
           xs \<leftarrow> rdN mem e (if e \<le> stop then min 11 (stop - e) else 11);
           Some (if xs = take (length xs) httpVersion then TryAgain else BadLine) }
         else do {
           xs \<leftarrow> rdN mem e 11;
           if xs = httpVersion then Some (Line line (e + 11))
           else do {
             b \<leftarrow> rd mem e;
             Some (if b = CR then TryAgain else BadLine) } } }
       else Some (if b0 = CR then TryAgain else BadLine) } }"

text \<open>The scan for the end of a field value: tabs are allowed. False is an invalid character.\<close>

lemma wordScan_le: "wordScan n mem p = Some q \<Longrightarrow> p \<le> q \<and> q < length mem"
proof (induction n mem p rule: wordScan.induct)
  case (1 n mem p)
  from "1.prems" show ?case
    by (subst (asm) wordScan.simps)
       (auto split: option.splits if_splits dest: scanWhile_le dest!: "1.IH")
qed

function fieldValue :: "bytes \<Rightarrow> nat \<Rightarrow> (nat \<times> bool) option" where
  "fieldValue mem p =
     (case tryConsumeFieldValue mem p of
        None \<Rightarrow> None
      | Some q \<Rightarrow>
          if mem ! q \<noteq> CR then (if mem ! q = HTAB then fieldValue mem (q + 1) else Some (q, False))
          else Some (q, True))"
  by pat_completeness auto
termination
  by (relation "measure (\<lambda>(mem, p). length mem - p)")
     (auto simp: tryConsumeFieldValue_def dest!: wordScan_le)

declare fieldValue.simps [simp del]

definition trimValue :: "bytes \<Rightarrow> bytes" where
  "trimValue v = dropWhile (\<lambda>b. b < 33) (rev (dropWhile (\<lambda>b. b < 33) (rev v)))"

text \<open>
  \<open>Complete n hs\<close>: a whole head of \<open>n\<close> bytes, the first of \<open>hs\<close> holds method and target. The array
  of the source ends with an empty key.
\<close>

datatype headResult = Incomplete | Rejected HttpError | Complete nat "header list"

fun headerLines :: "nat \<Rightarrow> nat \<Rightarrow> nat \<Rightarrow> bytes \<Rightarrow> nat \<Rightarrow> header list \<Rightarrow> (bytes \<times> headResult) option" where
  "headerLines start stop 0 mem p hs = Some (mem, Rejected HTTP_ERROR_431_REQUEST_HEADER_FIELDS_TOO_LARGE)"
| "headerLines start stop (Suc n) mem p hs = do {
     (mem, q) \<leftarrow> consumeFieldName mem p;
     b \<leftarrow> rd mem q;
     if b \<noteq> 58 then Some (mem, if q = stop then Incomplete else Rejected HTTP_ERROR_400_BAD_REQUEST)
     else do {
       (r, ok) \<leftarrow> fieldValue mem (q + 1);
       if \<not> ok then Some (mem, Rejected HTTP_ERROR_400_BAD_REQUEST)
       else do {
         b1 \<leftarrow> rd mem (r + 1);
         if b1 = LF then do {
           let hs = hs @ [(bytesOf mem p q, trimValue (bytesOf mem (q + 1) r))];
           c \<leftarrow> rd mem (r + 2);
           if c = CR then do {
             c1 \<leftarrow> rd mem (r + 3);
             Some (mem, if c1 = LF then Complete (r + 4 - start) hs
                        else if r + 3 < stop then Rejected HTTP_ERROR_400_BAD_REQUEST
                        else Incomplete) }
           else headerLines start stop n mem (r + 2) hs }
         else Some (mem, Incomplete) } } }"

definition UWS_HTTP_MAX_HEADERS_COUNT :: nat where "UWS_HTTP_MAX_HEADERS_COUNT = 100"

definition getHeaders :: "bytes \<Rightarrow> nat \<Rightarrow> nat \<Rightarrow> ProxyParser \<Rightarrow> ((bytes \<times> ProxyParser) \<times> headResult) option" where
  "getHeaders mem start stop pp = do {
     text \<leftarrow> rdN mem start (stop - start);
     let ((done, offset), pp) = proxyParse text pp;
     if \<not> done then Some ((mem, pp), Incomplete)
     else do {
       line \<leftarrow> consumeRequestLine mem (start + offset) stop;
       case line of
         TryAgain \<Rightarrow> Some ((mem, pp), Incomplete)
       | BadLine \<Rightarrow> Some ((mem, pp), Rejected HTTP_ERROR_505_HTTP_VERSION_NOT_SUPPORTED)
       | Line h p \<Rightarrow> do {
           (mem, r) \<leftarrow> headerLines start stop (UWS_HTTP_MAX_HEADERS_COUNT - 2) mem p [h];
           Some ((mem, pp), r) } } }"

section \<open>The same on the text of a request\<close>

text \<open>
  The reference: no pointers, no fence, no words of eight bytes. The second component is the text
  as the parser leaves it, with the names it has seen in lower case.
\<close>

definition fieldByte :: "byte \<Rightarrow> bool" where
  "fieldByte b \<longleftrightarrow> isFieldNameByteFastLowercased b \<noteq> None"

definition lower :: "byte \<Rightarrow> byte" where
  "lower b = (if 65 \<le> b \<and> b \<le> 90 then b OR 32 else b)"

definition valueByte :: "byte \<Rightarrow> bool" where
  "valueByte b \<longleftrightarrow> 31 < b \<or> b = HTAB"

definition lineSpec :: "bytes \<Rightarrow> requestLine" where
  "lineSpec xs =
     (let m = takeWhile (\<lambda>b. scharGe b 33) xs; rest = dropWhile (\<lambda>b. scharGe b 33) xs in
      if length rest \<le> 1 then TryAgain
      else if hd rest = SP \<and> rest ! 1 = 47 then
        (let target = takeWhile (\<lambda>b. 32 < b) (tl rest); v = dropWhile (\<lambda>b. 32 < b) (tl rest) in
         if length v \<le> 11 then (if v = take (length v) httpVersion then TryAgain else BadLine)
         else if take 11 v = httpVersion then Line (m, target) (length m + 1 + length target + 11)
         else if hd v = CR then TryAgain else BadLine)
      else if hd rest = CR then TryAgain else BadLine)"

fun headersSpec :: "nat \<Rightarrow> bytes \<Rightarrow> headResult \<times> bytes" where
  "headersSpec 0 xs = (Rejected HTTP_ERROR_431_REQUEST_HEADER_FIELDS_TOO_LARGE, xs)"
| "headersSpec (Suc n) xs =
     (let name = map lower (takeWhile fieldByte xs); rest = dropWhile fieldByte xs in
      if rest = [] then (Incomplete, name)
      else if hd rest \<noteq> 58 then (Rejected HTTP_ERROR_400_BAD_REQUEST, name @ rest)
      else
        (let v = takeWhile valueByte (tl rest); r = dropWhile valueByte (tl rest) in
         if r = [] \<or> r = [CR] then (Incomplete, name @ rest)
         else if hd r \<noteq> CR then (Rejected HTTP_ERROR_400_BAD_REQUEST, name @ rest)
         else if r ! 1 \<noteq> LF then (Incomplete, name @ rest)
         else
           (let s = drop 2 r in
            if s = [] \<or> s = [CR] then (Incomplete, name @ rest)
            else if hd s = CR then
              (if s ! 1 = LF then (Complete (length xs - length s + 2) [(name, trimValue v)], name @ rest)
               else (Rejected HTTP_ERROR_400_BAD_REQUEST, name @ rest))
            else
              (case headersSpec n s of
                 (Complete c hs, s') \<Rightarrow>
                   (Complete (length xs - length s + c) ((name, trimValue v) # hs), name @ 58 # v @ CR # LF # s')
               | (res, s') \<Rightarrow> (res, name @ 58 # v @ CR # LF # s')))))"

definition headSpec :: "bytes \<Rightarrow> ProxyParser \<Rightarrow> (headResult \<times> bytes) \<times> ProxyParser" where
  "headSpec xs pp =
     (case proxyParse xs pp of
        ((False, _), pp) \<Rightarrow> ((Incomplete, xs), pp)
      | ((True, offset), pp) \<Rightarrow>
          (case lineSpec (drop offset xs) of
             TryAgain \<Rightarrow> ((Incomplete, xs), pp)
           | BadLine \<Rightarrow> ((Rejected HTTP_ERROR_505_HTTP_VERSION_NOT_SUPPORTED, xs), pp)
           | Line h n \<Rightarrow>
               (case headersSpec (UWS_HTTP_MAX_HEADERS_COUNT - 2) (drop (offset + n) xs) of
                  (Complete c hs, ys) \<Rightarrow> ((Complete (offset + n + c) (h # hs), take (offset + n) xs @ ys), pp)
                | (res, ys) \<Rightarrow> ((res, take (offset + n) xs @ ys), pp))))"

section \<open>The scanners do what the reference says\<close>

lemma scanWhile_iff:
  "scanWhile P mem p = Some q \<longleftrightarrow> p \<le> q \<and> q < length mem \<and> \<not> P (mem ! q) \<and> (\<forall>i. p \<le> i \<and> i < q \<longrightarrow> P (mem ! i))"
proof (induction P mem p rule: scanWhile.induct)
  case (1 P mem p)
  show ?case
  proof (cases "p < length mem \<and> P (mem ! p)")
    case True
    have "(\<forall>i. p \<le> i \<and> i < q \<longrightarrow> P (mem ! i)) \<longleftrightarrow> (\<forall>i. p + 1 \<le> i \<and> i < q \<longrightarrow> P (mem ! i))"
      using True by (metis add_leD1 le_neq_implies_less less_iff_succ_less_eq)
    moreover have "p \<le> q \<longleftrightarrow> p + 1 \<le> q" if "\<not> P (mem ! q)"
      using that True by (metis add_leD1 le_neq_implies_less less_iff_succ_less_eq)
    ultimately show ?thesis
      using "1.IH" True by (subst scanWhile.simps) auto
  next
    case False
    then have "scanWhile P mem p = (if p < length mem then Some p else None)"
      by (subst scanWhile.simps) simp
    moreover have "p = q" if "p \<le> q" "q < length mem" "\<forall>i. p \<le> i \<and> i < q \<longrightarrow> P (mem ! i)"
      using that False by (metis le_neq_implies_less le_trans less_le_not_le order_refl)
    ultimately show ?thesis using False by (cases "p < length mem") auto
  qed
qed

lemma scanWhile_skip:
  assumes "p \<le> q" and "q \<le> length mem" and "\<And>i. p \<le> i \<Longrightarrow> i < q \<Longrightarrow> P (mem ! i)"
  shows "scanWhile P mem p = scanWhile P mem q"
  using assms
proof (induction rule: dec_induct)
  case base
  then show ?case by simp
next
  case (step k)
  then have "scanWhile P mem k = scanWhile P mem (Suc k)"
    by (subst scanWhile.simps) simp
  then show ?case using step by simp
qed

lemma scanWhile_list:
  assumes "\<not> P y"
  shows "scanWhile P (pre @ xs @ y # post) (length pre) = Some (length pre + length (takeWhile P xs))"
proof -
  let ?k = "length (takeWhile P xs)"
  have k: "?k \<le> length xs" by (rule length_takeWhile_le)
  have "(pre @ xs @ y # post) ! (length pre + ?k) = (if ?k < length xs then xs ! ?k else y)"
    using k by (auto simp: nth_append)
  then have "\<not> P ((pre @ xs @ y # post) ! (length pre + ?k))"
    using assms nth_length_takeWhile [of P xs] by (auto split: if_splits)
  moreover have "P ((pre @ xs @ y # post) ! i)" if "length pre \<le> i" "i < length pre + ?k" for i
  proof -
    have "i - length pre < ?k" using that by simp
    then have "P (xs ! (i - length pre))" using takeWhile_nth nth_mem set_takeWhileD by metis
    moreover have "i - length pre < length xs" using that k by simp
    ultimately show ?thesis using that by (simp add: nth_append)
  qed
  ultimately show ?thesis using k unfolding scanWhile_iff by simp
qed

lemma hasLess_iff:
  assumes "length bs = 8" and "n \<le> 128"
  shows "hasLess (load_le bs) (ucast n) \<longleftrightarrow> (\<exists>b\<in>set bs. b < n)"
proof -
  have "(-1 div 255 :: u64) = 0x0101010101010101" by code_simp
  moreover have "(0x0101010101010101 * 128 :: u64) = 0x8080808080808080" by simp
  ultimately show ?thesis
    using subtract_trick [OF assms] unfolding hasLess_def by (simp add: and.assoc)
qed

lemma wordScan_scan:
  assumes "n \<le> 128" and "0 < n" and "p \<le> q" and "q + 8 \<le> length mem" and "mem ! q < n"
  shows "wordScan n mem p = scanWhile (\<lambda>b. n - 1 < b) mem p"
  using assms
proof (induction n mem p rule: wordScan.induct)
  case (1 n mem p)
  let ?bs = "take 8 (drop p mem)"
  have bs: "rdN mem p 8 = Some ?bs" "length ?bs = 8" using "1.prems" by (simp_all add: rdN_def)
  have n0: "n \<noteq> 0" "0 < unat n" using \<open>0 < n\<close> by (simp_all add: word_gt_0 unat_gt_0)
  have less: "n - 1 < b \<longleftrightarrow> \<not> b < n" for b
    unfolding word_less_nat_alt unat_minus_one [OF n0(1)] using n0(2) by linarith
  show ?case
  proof (cases "hasLess (load_le ?bs) (ucast n)")
    case True
    then show ?thesis by (subst wordScan.simps) (simp add: bs(1))
  next
    case False
    then have all: "\<And>b. b \<in> set ?bs \<Longrightarrow> \<not> b < n" using hasLess_iff [OF bs(2)] "1.prems"(1) by blast
    have in8: "mem ! i \<in> set ?bs" if "p \<le> i" "i < p + 8" for i
    proof -
      have "?bs ! (i - p) = mem ! i" "i - p < length ?bs" using that "1.prems" bs(2) by simp_all
      then show ?thesis by (metis nth_mem)
    qed
    have "p + 8 \<le> q" using all in8 "1.prems" by (metis not_less)
    moreover have "scanWhile (\<lambda>b. n - 1 < b) mem p = scanWhile (\<lambda>b. n - 1 < b) mem (p + 8)"
      by (rule scanWhile_skip) (use "1.prems" calculation all in8 less in auto)
    ultimately show ?thesis
      using "1.IH" [OF bs(1) False] "1.prems" by (subst wordScan.simps) (simp add: bs(1) False)
  qed
qed

section \<open>Field names: the fast path and the generic one\<close>

lemma field_byte_lower: "isFieldNameByteFastLowercased b = (if fieldByte b then Some (lower b) else None)"
  by (auto simp: fieldByte_def isFieldNameByteFastLowercased_def lower_def isUnlikelyFieldNameByte_def word_le_nat_alt)

lemma upper_field: "isUpper b \<Longrightarrow> fieldByte b \<and> lower b = b OR 32"
  by (auto simp: fieldByte_def isFieldNameByteFastLowercased_def lower_def schar_between_def scharGe_def)

lemma lower_field: "isLower b \<Longrightarrow> fieldByte b \<and> lower b = b"
  by (auto simp: fieldByte_def isFieldNameByteFastLowercased_def lower_def schar_between_def scharGe_def
      word_le_nat_alt)

lemma special_field: "fieldByte 45" "lower 45 = 45" "\<not> fieldByte 58" "\<not> fieldByte CR" "\<not> fieldByte LF"
  by code_simp+

lemma genericRun_step:
  "p < length mem \<Longrightarrow> fieldByte (mem ! p) \<Longrightarrow> genericRun mem p = genericRun (mem[p := lower (mem ! p)]) (p + 1)"
  by (subst genericRun.simps) (simp add: field_byte_lower)

lemma genericRun_lowerRun:
  "(case lowerRun mem p of None \<Rightarrow> genericRun mem p = None | Some (mem', q) \<Rightarrow> genericRun mem p = genericRun mem' q)"
proof (induction mem p rule: lowerRun.induct)
  case (1 mem p)
  show ?case
  proof (cases "p < length mem \<and> isUpper (mem ! p)")
    case True
    then show ?thesis
      using "1.IH" upper_field [of "mem ! p"] genericRun_step [of p mem]
      by (subst lowerRun.simps) (auto split: option.splits)
  next
    case False
    then show ?thesis
      by (subst lowerRun.simps) (auto simp: genericRun.simps [of mem p])
  qed
qed

lemma genericRun_scan:
  "(case scanWhile isLower mem p of None \<Rightarrow> genericRun mem p = None | Some q \<Rightarrow> genericRun mem p = genericRun mem q)"
proof (induction "isLower" mem p rule: scanWhile.induct)
  case (1 mem p)
  show ?case
  proof (cases "p < length mem \<and> isLower (mem ! p)")
    case True
    then have "genericRun mem p = genericRun mem (p + 1)"
      using lower_field [of "mem ! p"] genericRun_step [of p mem] by simp
    then show ?thesis using "1.hyps" True by (subst scanWhile.simps) (auto split: option.splits)
  next
    case False
    then show ?thesis
      by (subst scanWhile.simps) (auto simp: genericRun.simps [of mem p])
  qed
qed

text \<open>\<open>consumeFieldName\<close> with its fast path is its generic loop.\<close>

lemma fastFieldName_generic: "fastFieldName mem p = genericRun mem p"
proof (induction mem p rule: fastFieldName.induct)
  case (1 mem p)
  show ?case
  proof (cases "lowerRun mem p")
    case None
    then show ?thesis using genericRun_lowerRun [of mem p] by (subst fastFieldName.simps) simp
  next
    case (Some r)
    obtain mem' p1 where r: "lowerRun mem p = Some (mem', p1)" using Some by (cases r) simp
    then have g1: "genericRun mem p = genericRun mem' p1" using genericRun_lowerRun [of mem p] by simp
    show ?thesis
    proof (cases "scanWhile isLower mem' p1")
      case None
      then show ?thesis using r g1 genericRun_scan [of mem' p1] by (subst fastFieldName.simps) simp
    next
      case (Some q)
      then have g2: "genericRun mem' p1 = genericRun mem' q" using genericRun_scan [of mem' p1] by simp
      have q: "q < length mem'" using scanWhile_le [OF Some] by simp
      consider "mem' ! q = 58" | "mem' ! q = 45" | "mem' ! q \<noteq> 58" "mem' ! q \<noteq> 45" "isUpper (mem' ! q)"
        | "mem' ! q \<noteq> 58" "mem' ! q \<noteq> 45" "\<not> isUpper (mem' ! q)" by blast
      then show ?thesis
      proof cases
        case 1
        then have "genericRun mem' q = Some (mem', q)"
          using q special_field by (subst genericRun.simps) (simp add: field_byte_lower)
        then show ?thesis using r Some g1 g2 1 by (subst fastFieldName.simps) simp
      next
        case 2
        have "mem'[q := 45] = mem'" using 2 by (metis list_update_id)
        then have "genericRun mem' q = genericRun mem' (q + 1)"
          using q special_field 2 genericRun_step [of q mem'] by simp
        then show ?thesis using r Some g1 g2 2 "1.IH"(1) [OF r refl Some] by (subst fastFieldName.simps) simp
      next
        case 3
        then show ?thesis using r Some g1 g2 "1.IH"(2) [OF r refl Some] by (subst fastFieldName.simps) simp
      next
        case 4
        then show ?thesis using r Some g1 g2 by (subst fastFieldName.simps) simp
      qed
    qed
  qed
qed

lemma genericRun_list:
  assumes "\<not> fieldByte y"
  shows "genericRun (pre @ xs @ y # post) (length pre) =
    Some (pre @ map lower (takeWhile fieldByte xs) @ dropWhile fieldByte xs @ y # post,
          length pre + length (takeWhile fieldByte xs))"
proof (induction xs arbitrary: pre)
  case Nil
  then show ?case using assms by (subst genericRun.simps) (simp add: field_byte_lower)
next
  case (Cons x xs)
  show ?case
  proof (cases "fieldByte x")
    case True
    then have "genericRun (pre @ (x # xs) @ y # post) (length pre) = genericRun ((pre @ [lower x]) @ xs @ y # post) (length (pre @ [lower x]))"
      by (subst genericRun_step) simp_all
    then show ?thesis using Cons.IH [of "pre @ [lower x]"] True by simp
  next
    case False
    then show ?thesis by (subst genericRun.simps) (simp add: field_byte_lower)
  qed
qed

lemma scanWhile_stops:
  assumes "p \<le> c" and "c < length mem" and "\<not> P (mem ! c)"
  shows "\<exists>q. scanWhile P mem p = Some q \<and> q \<le> c"
  using assms
proof (induction P mem p rule: scanWhile.induct)
  case (1 P mem p)
  show ?case
  proof (cases "P (mem ! p)")
    case True
    then have "p + 1 \<le> c" using "1.prems" by (metis Suc_eq_plus1 le_neq_implies_less Suc_leI)
    then show ?thesis using "1.IH" "1.prems" True by (subst scanWhile.simps) auto
  next
    case False
    then show ?thesis using "1.prems" by (subst scanWhile.simps) auto
  qed
qed

lemma fieldValue_scan:
  assumes "p \<le> c" and "c + 8 \<le> length mem" and "mem ! c = CR"
  shows "\<exists>q. scanWhile valueByte mem p = Some q \<and> fieldValue mem p = Some (q, mem ! q = CR)"
  using assms
proof (induction mem p rule: fieldValue.induct)
  case (1 mem p)
  have "wordScan 32 mem p = scanWhile (\<lambda>b. 31 < b) mem p"
    using wordScan_scan [of 32 p c mem] "1.prems" by simp
  moreover obtain q where q: "scanWhile (\<lambda>b. 31 < b) mem p = Some q" and cq: "q \<le> c"
    using scanWhile_stops [of p c mem "\<lambda>b. 31 < b"] "1.prems" by auto
  ultimately have t: "tryConsumeFieldValue mem p = Some q" by (simp add: tryConsumeFieldValue_def)
  have qs: "p \<le> q" "q < length mem" "\<not> 31 < mem ! q" "\<And>i. p \<le> i \<Longrightarrow> i < q \<Longrightarrow> valueByte (mem ! i)"
    using q unfolding scanWhile_iff valueByte_def by auto
  have skip: "scanWhile valueByte mem p = scanWhile valueByte mem q"
    by (rule scanWhile_skip) (use qs in auto)
  show ?case
  proof (cases "mem ! q = HTAB")
    case True
    then have "q \<noteq> c" using "1.prems" by auto
    then have "q + 1 \<le> c" using cq by simp
    have s1: "scanWhile valueByte mem q = scanWhile valueByte mem (q + 1)"
      using True qs by (subst scanWhile.simps) (simp add: valueByte_def)
    have "fieldValue mem p = fieldValue mem (q + 1)" using t True by (subst fieldValue.simps) simp
    then show ?thesis
      using "1.IH" [OF t] True \<open>q + 1 \<le> c\<close> "1.prems" skip s1 by simp
  next
    case False
    then have "scanWhile valueByte mem q = Some q"
      using qs by (subst scanWhile.simps) (simp add: valueByte_def)
    then show ?thesis using t False skip by (subst fieldValue.simps) auto
  qed
qed

section \<open>The parser refines the reference\<close>

declare dropWhile_eq_Nil_conv [simp del]

abbreviation fence :: "bytes \<Rightarrow> bytes" where
  "fence post \<equiv> CR # 97 # post"

fun shift :: "nat \<Rightarrow> header list \<Rightarrow> headResult \<Rightarrow> headResult" where
  "shift k hs (Complete c hs') = Complete (k + c) (hs @ hs')"
| "shift k hs r = r"

lemma bytesOf_list: "bytesOf (pre @ xs @ ys) (length pre) (length pre + length xs) = xs"
  by (simp add: bytesOf_def)

lemma bytesOf_list':
  "p = length pre \<Longrightarrow> q = p + length xs \<Longrightarrow> bytesOf (pre @ xs @ ys) p q = xs"
  by (simp add: bytesOf_def)

lemma rd_list: "p = length pre \<Longrightarrow> rd (pre @ x # ys) p = Some x"
  by (simp add: rd_def)

text \<open>The end of a field value: what follows the name and its colon.\<close>

lemma fieldValue_list:
  assumes "6 \<le> length post"
  shows "fieldValue (pre @ xs @ fence post) (length pre) =
    Some (length pre + length (takeWhile valueByte xs), hd (dropWhile valueByte xs @ [CR]) = CR)"
proof -
  let ?m = "pre @ xs @ fence post" and ?k = "length (takeWhile valueByte xs)"
  have "length pre \<le> length pre + length xs" "length pre + length xs + 8 \<le> length ?m" "?m ! (length pre + length xs) = CR"
    using assms by (simp_all add: nth_append)
  from fieldValue_scan [OF this] have
    "fieldValue ?m (length pre) = Some (length pre + ?k, ?m ! (length pre + ?k) = CR)"
    using scanWhile_list [of valueByte CR pre xs "97 # post"] by (simp add: valueByte_def)
  moreover have "?m ! (length pre + ?k) = hd (dropWhile valueByte xs @ [CR])"
  proof -
    have "?m = (pre @ takeWhile valueByte xs) @ dropWhile valueByte xs @ fence post" by simp
    then have "?m ! (length pre + ?k) = (dropWhile valueByte xs @ fence post) ! 0"
      by (metis add.right_neutral length_append nth_append_length_plus)
    then show ?thesis by (cases "dropWhile valueByte xs") (simp_all del: dropWhile_eq_Nil_conv)
  qed
  ultimately show ?thesis by simp
qed

lemma headerLines_spec:
  assumes "6 \<le> length post" and "start \<le> length pre"
  shows "headerLines start (length pre + length xs) n (pre @ xs @ fence post) (length pre) hs =
    (case headersSpec n xs of
       (r, ys) \<Rightarrow> Some (pre @ ys @ fence post, shift (length pre - start) hs r))"
  using assms(2)
proof (induction n arbitrary: pre xs hs)
  case 0
  then show ?case by simp
next
  case (Suc n)
  let ?name = "map lower (takeWhile fieldByte xs)"
  let ?rest = "dropWhile fieldByte xs"
  let ?q = "length pre + length ?name"
  let ?mem = "pre @ ?name @ ?rest @ fence post"
  let ?stop = "length pre + length xs"
  have name: "consumeFieldName (pre @ xs @ fence post) (length pre) = Some (?mem, ?q)"
    using genericRun_list [of CR pre xs "97 # post"] special_field
    by (simp add: consumeFieldName_def fastFieldName_generic)
  have len: "length xs = length ?name + length ?rest"
    by (metis length_append length_map takeWhile_dropWhile_id)
  show ?case
  proof (cases ?rest)
    case Nil
    have "rd ?mem ?q = Some CR" using Nil by (simp add: rd_def nth_append)
    moreover have "?q = ?stop" using len Nil by simp
    ultimately show ?thesis using name Nil by simp
  next
    case (Cons b w)
    have b: "rd ?mem ?q = Some b" using Cons by (simp add: rd_def nth_append)
    show ?thesis
    proof (cases "b = 58")
      case False
      have "?q \<noteq> ?stop" using len Cons by simp
      then show ?thesis using name b False Cons by simp
    next
      case True
      let ?v = "takeWhile valueByte w" and ?r = "dropWhile valueByte w"
      let ?pre1 = "pre @ ?name @ [58]"
      have mem1: "?mem = ?pre1 @ w @ fence post" using Cons True by simp
      have p1: "?q + 1 = length ?pre1" by simp
      have fv: "fieldValue ?mem (?q + 1) = Some (?q + 1 + length ?v, hd (?r @ [CR]) = CR)"
        unfolding mem1 p1 by (rule fieldValue_list [OF assms(1)])
      have lw: "length w = length ?v + length ?r" by (metis length_append takeWhile_dropWhile_id)
      let ?e = "?q + 1 + length ?v"
      let ?pre2 = "?pre1 @ ?v"
      have mem2: "?mem = ?pre2 @ ?r @ fence post" unfolding mem1 by simp
      have e2: "?e = length ?pre2" by simp
      have spec: "headersSpec (Suc n) xs =
          (if ?r = [] \<or> ?r = [CR] then (Incomplete, ?name @ ?rest)
           else if hd ?r \<noteq> CR then (Rejected HTTP_ERROR_400_BAD_REQUEST, ?name @ ?rest)
           else if ?r ! 1 \<noteq> LF then (Incomplete, ?name @ ?rest)
           else
             (let s = drop 2 ?r in
              if s = [] \<or> s = [CR] then (Incomplete, ?name @ ?rest)
              else if hd s = CR then
                (if s ! 1 = LF then (Complete (length xs - length s + 2) [(?name, trimValue ?v)], ?name @ ?rest)
                 else (Rejected HTTP_ERROR_400_BAD_REQUEST, ?name @ ?rest))
              else
                (case headersSpec n s of
                   (Complete c hs, s') \<Rightarrow>
                     (Complete (length xs - length s + c) ((?name, trimValue ?v) # hs), ?name @ 58 # ?v @ CR # LF # s')
                 | (res, s') \<Rightarrow> (res, ?name @ 58 # ?v @ CR # LF # s'))))"
        using Cons True by (simp add: Let_def)
      show ?thesis
      proof (cases "?r = [] \<or> ?r = [CR]")
        case short: True
        have "rd ?mem (?e + 1) = Some (if ?r = [] then 97 else CR)"
          unfolding mem2 e2 using short by (elim disjE) (simp_all add: rd_def nth_append del: dropWhile_eq_Nil_conv)
        then show ?thesis unfolding spec using short name b True fv Cons by (elim disjE) simp_all
      next
        case long: False
        then consider (two) r0 r1 s where "?r = r0 # r1 # s" | (one) r0 where "?r = [r0]" "r0 \<noteq> CR"
          by (metis list.exhaust)
        then show ?thesis
        proof cases
          case one
          then show ?thesis unfolding spec using name b True fv by simp
        next
          case (two r0 r1 s)
          show ?thesis
          proof (cases "r0 = CR \<and> r1 = LF")
            case False
            have "rd ?mem (?e + 1) = Some r1" unfolding mem2 e2 using two by (simp add: rd_def nth_append)
            then show ?thesis unfolding spec using two name b True fv False by auto
          next
            case crlf: True
            let ?pre3 = "?pre2 @ [CR, LF]"
            have mem3: "?mem = ?pre3 @ s @ fence post" unfolding mem2 using two crlf by simp
            have e3: "?e + 2 = length ?pre3" by simp
            have b1: "rd ?mem (?e + 1) = Some LF" unfolding mem2 e2 using two crlf by (simp add: rd_def nth_append)
            have key: "bytesOf ?mem (length pre) ?q = ?name" by (rule bytesOf_list') simp_all
            have mem4: "?mem = ?pre1 @ ?v @ ?r @ fence post" unfolding mem2 by simp
            have val: "bytesOf ?mem (?q + 1) ?e = ?v" unfolding mem4 by (rule bytesOf_list') simp_all
            have ls: "length xs = length ?name + 1 + length ?v + 2 + length s" using len Cons lw two by simp
            have c: "rd ?mem (?e + 2) = Some (hd (s @ [CR]))"
              unfolding mem3 e3 by (cases s) (simp_all add: rd_def nth_append)
            show ?thesis
            proof (cases "hd (s @ [CR]) = CR")
              case last: True
              have d: "rd ?mem (?e + 3) = Some (if s = [] then 97 else if length s = 1 then CR else s ! 1)"
              proof -
                have "?e + 3 = length ?pre3 + 1" by simp
                then show ?thesis unfolding mem3 by (cases s; cases "tl s") (auto simp: rd_def nth_append)
              qed
              define M Q E stop where "M = ?mem" and "Q = ?q" and "E = ?e" and "stop = ?stop"
              note facts = name b fv b1 c d key val
              note facts = facts [folded M_def Q_def E_def stop_def]
              have stop: "?e + 3 < ?stop \<longleftrightarrow> 2 \<le> length s" using ls by (simp add: numeral_2_eq_2 Suc_le_eq)
              have "headerLines start stop (Suc n) (pre @ xs @ fence post) (length pre) hs =
                  Some (M, if (if s = [] then 97 else if length s = 1 then CR else s ! 1) = LF
                     then Complete (E + 4 - start) (hs @ [(?name, trimValue ?v)])
                     else if E + 3 < stop then Rejected HTTP_ERROR_400_BAD_REQUEST else Incomplete)"
                using facts True two crlf last by simp
              also have "\<dots> = (case headersSpec (Suc n) xs of (r, ys) \<Rightarrow> Some (pre @ ys @ fence post, shift (length pre - start) hs r))"
                unfolding spec M_def E_def stop_def stop using two crlf last ls Suc.prems Cons True
                by (cases s; cases "tl s") (auto simp: Let_def)
              finally show ?thesis unfolding stop_def .
            next
              case more: False
              then have sne: "s \<noteq> []" "hd s \<noteq> CR" "s \<noteq> [CR]" by (cases s; auto)+
              define M Q E where "M = ?mem" and "Q = ?q" and "E = ?e"
              note facts = name b fv b1 c key val
              note facts = facts [folded M_def Q_def E_def]
              have "headerLines start ?stop (Suc n) (pre @ xs @ fence post) (length pre) hs =
                  headerLines start ?stop n M (E + 2) (hs @ [(?name, trimValue ?v)])"
                using facts True two crlf more by simp
              also have "\<dots> = headerLines start (length ?pre3 + length s) n (?pre3 @ s @ fence post) (length ?pre3)
                  (hs @ [(?name, trimValue ?v)])"
                unfolding M_def E_def e3 mem3 using ls by (simp add: add.assoc)
              also have "\<dots> = (case headersSpec n s of (r, ys) \<Rightarrow>
                  Some (?pre3 @ ys @ fence post, shift (length ?pre3 - start) (hs @ [(?name, trimValue ?v)]) r))"
                by (rule Suc.IH) (use Suc.prems in simp)
              also have "\<dots> = (case headersSpec (Suc n) xs of (r, ys) \<Rightarrow> Some (pre @ ys @ fence post, shift (length pre - start) hs r))"
                unfolding spec using two crlf sne ls Suc.prems Cons
                by (auto simp: Let_def split: prod.splits headResult.splits)
              finally show ?thesis .
            qed
          qed
        qed
      qed
    qed
  qed
qed


lemma wordScan_list:
  assumes "6 \<le> length post"
  shows "wordScan 33 (pre @ xs @ fence post) (length pre) = Some (length pre + length (takeWhile (\<lambda>b. 32 < b) xs))"
proof -
  let ?m = "pre @ xs @ fence post"
  have "wordScan 33 ?m (length pre) = scanWhile (\<lambda>b. 33 - 1 < b) ?m (length pre)"
    by (rule wordScan_scan [of _ _ "length pre + length xs"]) (use assms in \<open>simp_all add: nth_append\<close>)
  then show ?thesis using scanWhile_list [of "\<lambda>b. 32 < b" CR pre xs "97 # post"] by simp
qed

lemma consumeRequestLine_spec:
  assumes "6 \<le> length post"
  shows "consumeRequestLine (pre @ xs @ fence post) (length pre) (length pre + length xs) =
    Some (case lineSpec xs of Line h n \<Rightarrow> Line h (length pre + n) | r \<Rightarrow> r)"
proof -
  let ?m = "takeWhile (\<lambda>b. scharGe b 33) xs" and ?rest = "dropWhile (\<lambda>b. scharGe b 33) xs"
  let ?mem = "pre @ xs @ fence post"
  have "\<not> scharGe CR 33" by (simp add: scharGe_def)
  then have d: "scanWhile (\<lambda>b. scharGe b 33) ?mem (length pre) = Some (length pre + length ?m)"
    using scanWhile_list [of "\<lambda>b. scharGe b 33" CR pre xs "97 # post"] by simp
  have lx: "length xs = length ?m + length ?rest" by (metis length_append takeWhile_dropWhile_id)
  have mem: "?mem = (pre @ ?m) @ ?rest @ fence post" by simp
  show ?thesis
  proof (cases ?rest rule: list.exhaust [case_names Nil Cons])
    case Nil
    have "rd ?mem (length pre + length ?m) = Some CR" unfolding mem Nil by (simp add: rd_def nth_append)
    then show ?thesis using d Nil lx by (simp add: consumeRequestLine_def lineSpec_def)
  next
    case (Cons b0 w)
    have b0: "rd ?mem (length pre + length ?m) = Some b0" unfolding mem Cons by (simp add: rd_def nth_append)
    show ?thesis
    proof (cases w)
      case Nil
      then show ?thesis using d Cons lx by (simp add: consumeRequestLine_def lineSpec_def)
    next
      case w: (Cons b1 w')
      have b1: "rd ?mem (length pre + length ?m + 1) = Some b1" unfolding mem Cons w by (simp add: rd_def nth_append)
      have more_than_one: "length pre + length ?m + 1 \<noteq> length pre + length xs" using lx Cons w by simp
      show ?thesis
      proof (cases "b0 = SP \<and> b1 = 47")
        case False
        then show ?thesis using d b0 b1 more_than_one Cons w
          by (auto simp: consumeRequestLine_def lineSpec_def)
      next
        case True
        let ?t = "takeWhile (\<lambda>b. 32 < b) w" and ?v = "dropWhile (\<lambda>b. 32 < b) w"
        let ?pre1 = "pre @ ?m @ [b0]"
        let ?e = "length ?pre1 + length ?t"
        have mem1: "?mem = ?pre1 @ w @ fence post" unfolding mem Cons by simp
        have lw: "length w = length ?t + length ?v" by (metis length_append takeWhile_dropWhile_id)
        have e: "wordScan 33 ?mem (length pre + length ?m + 1) = Some ?e"
          unfolding mem1 using wordScan_list [OF assms, of ?pre1 w] by simp
        have mem2: "?mem = (?pre1 @ ?t) @ ?v @ fence post" unfolding mem1 by simp
        have stop: "length pre + length xs = ?e + length ?v" using lx lw Cons by simp
        have key: "bytesOf ?mem (length pre) (length pre + length ?m) = ?m"
          unfolding mem using bytesOf_list' [of _ pre _ ?m "?rest @ fence post"] by simp
        have val: "bytesOf ?mem (length pre + length ?m + 1) ?e = ?t"
          unfolding mem2 append_assoc [of ?pre1] by (rule bytesOf_list') simp_all
        have rdn: "rdN ?mem ?e k = Some (take k (?v @ fence post))" if "k \<le> length ?v + 8" for k
          unfolding mem2 using that assms by (simp add: rdN_def)
        have rdv: "rd ?mem ?e = Some (hd (?v @ [CR]))"
          unfolding mem2 by (cases ?v) (simp_all add: rd_def nth_append)
        have lin: "lineSpec xs =
            (if length ?v \<le> 11 then (if ?v = take (length ?v) httpVersion then TryAgain else BadLine)
             else if take 11 ?v = httpVersion then Line (?m, ?t) (length ?m + 1 + length ?t + 11)
             else if hd ?v = CR then TryAgain else BadLine)"
          using Cons w True by (simp add: lineSpec_def Let_def)
        define M D E stop where "M = ?mem" and "D = length pre + length ?m" and "E = ?e" and "stop = length pre + length xs"
        note facts = d b0 b1 e key val rdn rdv stop more_than_one
        note facts = facts [folded M_def D_def E_def stop_def]
        have pos: "E + 11 = length pre + (length ?m + 1 + length ?t + 11)" by (simp add: E_def)
        show ?thesis unfolding M_def [symmetric] stop_def [symmetric]
        proof (cases "length ?v \<le> 11")
          case short: True
          have "rdN M E (min 11 (stop - E)) = Some ?v"
            using facts(7) [of "length ?v"] short unfolding facts(9) by simp
          then show "consumeRequestLine M (length pre) stop =
              Some (case lineSpec xs of Line h n \<Rightarrow> Line h (length pre + n) | r \<Rightarrow> r)"
            unfolding lin consumeRequestLine_def using facts(1-4,9,10) True short by simp
        next
          case long: False
          have "rdN M E 11 = Some (take 11 ?v)" using facts(7) [of 11] long by simp
          moreover have "hd (?v @ [CR]) = hd ?v" using long by (cases ?v) simp_all
          moreover have "\<not> stop \<le> E + 11" using long facts(9) by simp
          ultimately show "consumeRequestLine M (length pre) stop =
              Some (case lineSpec xs of Line h n \<Rightarrow> Line h (length pre + n) | r \<Rightarrow> r)"
            unfolding lin consumeRequestLine_def using facts(1-6,8,10) True long pos by simp
        qed
      qed
    qed
  qed
qed

lemma lineSpec_length: "lineSpec xs = Line h n \<Longrightarrow> n \<le> length xs"
proof -
  assume l: "lineSpec xs = Line h n"
  let ?m = "takeWhile (\<lambda>b. scharGe b 33) xs" and ?rest = "dropWhile (\<lambda>b. scharGe b 33) xs"
  let ?t = "takeWhile (\<lambda>b. 32 < b) (tl ?rest)" and ?v = "dropWhile (\<lambda>b. 32 < b) (tl ?rest)"
  have n: "n = length ?m + 1 + length ?t + 11" "\<not> length ?v \<le> 11" "\<not> length ?rest \<le> 1"
    using l by (auto simp: lineSpec_def Let_def split: if_splits)
  have "length xs = length ?m + length ?rest" "length (tl ?rest) = length ?t + length ?v"
    by (metis length_append takeWhile_dropWhile_id)+
  then show ?thesis using n by simp
qed

text \<open>
  \<open>getHeaders\<close> on a fenced buffer: it stays inside the buffer and its padding, and does what the
  reference does.
\<close>

lemma getHeaders_spec:
  assumes "6 \<le> length post"
  shows "getHeaders (pre @ xs @ fence post) (length pre) (length pre + length xs) pp =
    (case headSpec xs pp of ((r, ys), pp') \<Rightarrow> Some ((pre @ ys @ fence post, pp'), r))"
proof -
  let ?mem = "pre @ xs @ fence post"
  have seg: "rdN ?mem (length pre) (length pre + length xs - length pre) = Some xs"
    by (simp add: rdN_def)
  obtain ok off pp' where pp: "proxyParse xs pp = ((ok, off), pp')" by (metis surj_pair)
  have off: "off \<le> length xs" using proxyParse_consumed [OF pp] by simp
  show ?thesis
  proof (cases ok)
    case False
    then show ?thesis using seg pp by (simp add: getHeaders_def headSpec_def)
  next
    case True
    have mem: "?mem = (pre @ take off xs) @ drop off xs @ fence post" by simp
    have pos: "length pre + off = length (pre @ take off xs)" using off by simp
    have stop: "length pre + length xs = length (pre @ take off xs) + length (drop off xs)" using off by simp
    have line: "consumeRequestLine ?mem (length pre + off) (length pre + length xs) =
        Some (case lineSpec (drop off xs) of Line h n \<Rightarrow> Line h (length (pre @ take off xs) + n) | r \<Rightarrow> r)"
      unfolding mem pos stop by (rule consumeRequestLine_spec [OF assms])
    show ?thesis
    proof (cases "lineSpec (drop off xs)")
      case TryAgain
      then show ?thesis using seg pp line True by (simp add: getHeaders_def headSpec_def)
    next
      case BadLine
      then show ?thesis using seg pp line True by (simp add: getHeaders_def headSpec_def)
    next
      case (Line h n)
      let ?k = "off + n"
      have "n \<le> length (drop off xs)"
        using lineSpec_length [OF Line] .
      then have k: "?k \<le> length xs" using off by simp
      have mem2: "?mem = (pre @ take ?k xs) @ drop ?k xs @ fence post" by simp
      have pos2: "length (pre @ take off xs) + n = length (pre @ take ?k xs)" using off k by simp
      have stop2: "length pre + length xs = length (pre @ take ?k xs) + length (drop ?k xs)" using k by simp
      have "headerLines (length pre) (length pre + length xs) (UWS_HTTP_MAX_HEADERS_COUNT - 2) ?mem
          (length (pre @ take off xs) + n) [h] =
        (case headersSpec (UWS_HTTP_MAX_HEADERS_COUNT - 2) (drop ?k xs) of
           (r, ys) \<Rightarrow> Some ((pre @ take ?k xs) @ ys @ fence post, shift (length (pre @ take ?k xs) - length pre) [h] r))"
        unfolding mem2 pos2 stop2 by (rule headerLines_spec [OF assms]) simp
      then show ?thesis using seg pp line True Line k
        by (auto simp: getHeaders_def headSpec_def split: prod.splits headResult.splits)
    qed
  qed
qed

end
