(* ===== verification/HttpParser.thy ===== *)
theory HttpParser
  imports ChunkedEncoding HttpHead
begin

text \<open>
  The request parser of native/uwebsockets/HttpParser.h: heads, bodies of known length and chunked
  bodies, fed one network segment at a time, with a fallback buffer for heads that are cut. The
  callbacks are parameters: they act on the connection (\<open>'u\<close>), and their boolean says whether it is
  still an open HTTP connection (the source compares the returned pointer). The receive buffer is
  bounds-checked; \<open>None\<close> is an access outside of it, or an unsigned subtraction that wraps.
\<close>

section \<open>Requests\<close>

text \<open>The first header holds method and target; the list of fields ends at the first empty name.\<close>

record HttpRequest =
  reqHeaders :: "header list"
  querySeparator :: nat
  reqBloom :: bloom

definition headerFields :: "header list \<Rightarrow> header list" where
  "headerFields hs = takeWhile (\<lambda>h. fst h \<noteq> []) (tl hs)"

definition findHeader :: "bytes \<Rightarrow> header list \<Rightarrow> bytes option" where
  "findHeader key hs = map_option snd (find (\<lambda>h. fst h = key) (headerFields hs))"

definition getHeader :: "bytes \<Rightarrow> HttpRequest \<Rightarrow> bytes option" where
  "getHeader key req = (if mightHave key (reqBloom req) then findHeader key (reqHeaders req) else None)"

definition getUrl :: "HttpRequest \<Rightarrow> bytes" where
  "getUrl req = take (querySeparator req) (snd (hd (reqHeaders req)))"

definition getFullUrl :: "HttpRequest \<Rightarrow> bytes" where
  "getFullUrl req = snd (hd (reqHeaders req))"

definition getCaseSensitiveMethod :: "HttpRequest \<Rightarrow> bytes" where
  "getCaseSensitiveMethod req = fst (hd (reqHeaders req))"

definition getMethod :: "HttpRequest \<Rightarrow> bytes" where
  "getMethod req = map (\<lambda>b. b OR 32) (fst (hd (reqHeaders req)))"

definition getQuery :: "HttpRequest \<Rightarrow> bytes" where
  "getQuery req = drop (querySeparator req + 1) (snd (hd (reqHeaders req)))"

abbreviation hostKey :: bytes where "hostKey \<equiv> ascii ''host''"
abbreviation contentLengthKey :: bytes where "contentLengthKey \<equiv> ascii ''content-length''"
abbreviation transferEncodingKey :: bytes where "transferEncodingKey \<equiv> ascii ''transfer-encoding''"

text \<open>The loop that fills the filter; \<open>None\<close> is a second host, length or encoding.\<close>

fun addHeaders :: "header list \<Rightarrow> header list \<Rightarrow> bloom \<Rightarrow> bloom option" where
  "addHeaders hs [] f = Some f"
| "addHeaders hs (h # rest) f =
     (if mightHave (fst h) f \<and> fst h \<in> {hostKey, contentLengthKey, transferEncodingKey} \<and>
         findHeader (fst h) hs \<noteq> None
      then None
      else addHeaders hs rest (bloomAdd (fst h) f))"

definition valueLength :: "bytes option \<Rightarrow> nat" where
  "valueLength v = (case v of None \<Rightarrow> 0 | Some x \<Rightarrow> length x)"

definition checkRequest :: "header list \<Rightarrow> HttpRequest option" where
  "checkRequest hs =
     (case addHeaders hs (headerFields hs) bloomReset of
        None \<Rightarrow> None
      | Some f \<Rightarrow>
          (let target = snd (hd hs);
               req = \<lparr>reqHeaders = hs, querySeparator = length (takeWhile (\<lambda>b. b \<noteq> 63) target), reqBloom = f\<rparr> in
           if getHeader hostKey req = None then None
           else if valueLength (getHeader transferEncodingKey req) \<noteq> 0 \<and>
                   valueLength (getHeader contentLengthKey req) \<noteq> 0 then None
           else Some req))"

section \<open>The parser and its callbacks\<close>

record HttpParser =
  fallback :: bytes
  remainingStreamingBytes :: u64
  trailerTail :: nat

record 'u callbacks =
  onRequest :: "'u \<Rightarrow> HttpRequest \<Rightarrow> 'u \<times> bool"
  onData :: "'u \<Rightarrow> bytes \<Rightarrow> u64 \<Rightarrow> 'u \<times> bool"

text \<open>\<open>GoAhead\<close>, the connection is gone or upgraded, or a parser error to answer and close.\<close>

datatype verdict = GoAhead | Gone | Failed HttpError

record 'u httpCursor =
  hmem :: bytes
  hpos :: nat
  hlen :: nat
  hparser :: HttpParser
  hproxy :: ProxyParser
  huser :: 'u

definition UINT64_MAX :: u64 where "UINT64_MAX = -1"

definition toUnsignedInteger :: "bytes \<Rightarrow> u64" where
  "toUnsignedInteger str =
     (if 18 < length str then UINT64_MAX
      else
        (case fold (\<lambda>c r. case r of
                None \<Rightarrow> None
              | Some v \<Rightarrow> if c < 48 \<or> \<not> c \<le> 57 then None else Some (v * 10 + (ucast c - 48)))
              str (Some 0) of
           None \<Rightarrow> UINT64_MAX
         | Some v \<Rightarrow> v))"

text \<open>Skipping the trailer section: a small machine that looks for the empty line.\<close>

fun consumeChunkedTrailer :: "bytes \<Rightarrow> u64 \<Rightarrow> nat \<Rightarrow> bytes \<times> u64 \<times> nat" where
  "consumeChunkedTrailer [] remaining tail = ([], remaining, tail)"
| "consumeChunkedTrailer (c # data) remaining tail =
     (if remaining \<noteq> STATE_IS_TRAILER then (c # data, remaining, tail)
      else if tail = 0 then consumeChunkedTrailer data remaining (if c = CR then 4 else 5)
      else if tail = 4 then
        (if c = LF then (data, 0, 0) else consumeChunkedTrailer data remaining (if c = CR then 1 else 5))
      else if c = CR then consumeChunkedTrailer data remaining (if tail = 2 then 3 else 1)
      else if c = LF then
        (if tail = 3 then (data, 0, 0) else consumeChunkedTrailer data remaining (if tail = 1 then 2 else 5))
      else consumeChunkedTrailer data remaining 5)"

text \<open>The loop over the chunks of a segment, which a callback can leave.\<close>

function chunkBody :: "'u callbacks \<Rightarrow> bytes \<Rightarrow> u64 \<Rightarrow> 'u \<Rightarrow> (bytes \<times> u64 \<times> 'u \<times> bool) option" where
  "chunkBody cb data state u =
     (case getNextChunk data state of
        None \<Rightarrow> None
      | Some (None, data', state') \<Rightarrow> Some (data', state', u, True)
      | Some (Some chunk, data', state') \<Rightarrow>
          (case onData cb u chunk (if chunk \<noteq> [] then UINT64_MAX else 0) of
             (u', same) \<Rightarrow> if same then chunkBody cb data' state' u' else Some (data', state', u', False)))"
  by pat_completeness auto
termination
  by (relation "measure (\<lambda>(cb, data, state, u). length data)") (auto dest: getNextChunk_progress)

declare chunkBody.simps [simp del]

definition advance :: "nat \<Rightarrow> 'u httpCursor \<Rightarrow> 'u httpCursor option" where
  "advance n c = (if n \<le> hlen c then Some (c\<lparr>hpos := hpos c + n, hlen := hlen c - n\<rparr>) else None)"

abbreviation setRemaining :: "u64 \<Rightarrow> 'u httpCursor \<Rightarrow> 'u httpCursor" where
  "setRemaining r c \<equiv> c\<lparr>hparser := (hparser c)\<lparr>remainingStreamingBytes := r\<rparr>\<rparr>"

text \<open>
  A chunked body: the chunks that are there, then the trailer section. The rest of the segment is
  a suffix of it.
\<close>

definition consumeChunked :: "'u callbacks \<Rightarrow> 'u httpCursor \<Rightarrow> ('u httpCursor \<times> verdict) option" where
  "consumeChunked cb c = do {
     data \<leftarrow> rdN (hmem c) (hpos c) (hlen c);
     (data', state, u, same) \<leftarrow> chunkBody cb data (remainingStreamingBytes (hparser c)) (huser c);
     let c = (setRemaining state c)\<lparr>huser := u\<rparr>;
     if \<not> same then Some (c, Gone)
     else
       (case consumeChunkedTrailer data' state (trailerTail (hparser c)) of
          (data'', state', tail) \<Rightarrow>
            let c = c\<lparr>hparser := (hparser c)\<lparr>remainingStreamingBytes := state', trailerTail := tail\<rparr>\<rparr> in
            if isParsingInvalidChunkedEncoding state' then Some (c, Failed HTTP_ERROR_400_BAD_REQUEST)
            else do {
              c \<leftarrow> advance (length data - length data'') c;
              Some (c, GoAhead) }) }"

text \<open>
  A body that started in an earlier segment. \<open>None\<close> in the second component is \<open>nullopt\<close>: go on
  with the rest of the segment.
\<close>

definition consumeStreamingBody :: "'u callbacks \<Rightarrow> 'u httpCursor \<Rightarrow> ('u httpCursor \<times> verdict option) option" where
  "consumeStreamingBody cb c =
     (let remaining = remainingStreamingBytes (hparser c) in
      if isParsingChunkedEncoding remaining then
        map_option (map_prod id (\<lambda>v. if v = GoAhead then None else Some v)) (consumeChunked cb c)
      else if hlen c \<le> unat remaining then do {
        data \<leftarrow> rdN (hmem c) (hpos c) (hlen c);
        let (u, same) = onData cb (huser c) data (remaining - of_nat (hlen c));
        Some ((setRemaining (remaining - of_nat (hlen c)) c)\<lparr>huser := u\<rparr>,
              Some (if same then GoAhead else Gone)) }
      else do {
        data \<leftarrow> rdN (hmem c) (hpos c) (unat remaining);
        let (u, same) = onData cb (huser c) data 0;
        c \<leftarrow> advance (unat remaining) c;
        Some ((setRemaining 0 c)\<lparr>huser := u\<rparr>, if same then None else Some Gone) })"

text \<open>The body of a request whose head was just parsed.\<close>

definition startBody :: "bool \<Rightarrow> 'u callbacks \<Rightarrow> HttpRequest \<Rightarrow> 'u httpCursor \<Rightarrow> ('u httpCursor \<times> verdict) option" where
  "startBody minimally cb req c =
     (if valueLength (getHeader transferEncodingKey req) \<noteq> 0 then
        (let c = c\<lparr>hparser := (hparser c)\<lparr>remainingStreamingBytes := STATE_IS_CHUNKED, trailerTail := 0\<rparr>\<rparr> in
         if minimally then Some (c, GoAhead) else consumeChunked cb c)
      else if valueLength (getHeader contentLengthKey req) \<noteq> 0 then
        (let remaining = toUnsignedInteger (the (getHeader contentLengthKey req));
             c = setRemaining remaining c in
         if remaining = UINT64_MAX then Some (c, Failed HTTP_ERROR_400_BAD_REQUEST)
         else if \<not> minimally then do {
           let n = min (unat remaining) (hlen c);
           data \<leftarrow> rdN (hmem c) (hpos c) n;
           let (u, same) = onData cb (huser c) data (remaining - of_nat n);
           if \<not> same then Some (c\<lparr>huser := u\<rparr>, Gone)
           else do {
             c \<leftarrow> advance n (setRemaining (remaining - of_nat n) c);
             Some (c\<lparr>huser := u\<rparr>, GoAhead) } }
         else if remaining = 0 then
           (let (u, same) = onData cb (huser c) [] 0 in
            Some (c\<lparr>huser := u\<rparr>, if same then GoAhead else Gone))
         else Some (c, GoAhead))
      else
        (let (u, same) = onData cb (huser c) [] 0 in
         Some (c\<lparr>huser := u\<rparr>, if same then GoAhead else Gone)))"

section \<open>The loop over the requests of a segment\<close>

lemma advance_hlen: "advance n c = Some c' \<Longrightarrow> hlen c' = hlen c - n \<and> n \<le> hlen c"
  by (auto simp: advance_def split: if_splits)

lemma consumeChunked_hlen: "consumeChunked cb c = Some (c', v) \<Longrightarrow> hlen c' \<le> hlen c"
  by (auto simp: consumeChunked_def Let_def dest!: advance_hlen split: bind_splits if_splits prod.splits)

lemma startBody_hlen: "startBody minimally cb req c = Some (c', v) \<Longrightarrow> hlen c' \<le> hlen c"
  by (auto simp: startBody_def Let_def dest!: consumeChunked_hlen advance_hlen
      split: bind_splits if_splits prod.splits)

text \<open>What follows a complete head of \<open>n\<close> bytes.\<close>

definition handleHead ::
  "bool \<Rightarrow> nat \<Rightarrow> 'u callbacks \<Rightarrow> nat \<Rightarrow> header list \<Rightarrow> 'u httpCursor \<Rightarrow> ('u httpCursor \<times> verdict) option" where
  "handleHead minimally maxHeaderSize cb n hs c = do {
     c \<leftarrow> advance n c;
     if maxHeaderSize < n then Some (c, Failed HTTP_ERROR_431_REQUEST_HEADER_FIELDS_TOO_LARGE)
     else
       (case checkRequest hs of
          None \<Rightarrow> Some (c, Failed HTTP_ERROR_400_BAD_REQUEST)
        | Some req \<Rightarrow>
            (let (u, same) = onRequest cb (huser c) req;
                 c = c\<lparr>huser := u\<rparr> in
             if \<not> same then Some (c, Gone) else startBody minimally cb req c)) }"

lemma handleHead_hlen:
  "handleHead minimally maxHeaderSize cb n hs c = Some (c', v) \<Longrightarrow> n \<noteq> 0 \<Longrightarrow> hlen c' < hlen c"
  by (fastforce simp: handleHead_def Let_def dest!: advance_hlen startBody_hlen
      split: bind_splits if_splits prod.splits option.splits)

function requestLoop :: "bool \<Rightarrow> nat \<Rightarrow> 'u callbacks \<Rightarrow> 'u httpCursor \<Rightarrow> ('u httpCursor \<times> verdict) option" where
  "requestLoop minimally maxHeaderSize cb c =
     (if hlen c = 0 then Some (c, GoAhead)
      else
        (case getHeaders (hmem c) (hpos c) (hpos c + hlen c) (hproxy c) of
           None \<Rightarrow> None
         | Some ((mem, pp), Incomplete) \<Rightarrow> Some (c\<lparr>hmem := mem, hproxy := pp\<rparr>, GoAhead)
         | Some ((mem, pp), Rejected e) \<Rightarrow> Some (c\<lparr>hmem := mem, hproxy := pp\<rparr>, Failed e)
         | Some ((mem, pp), Complete n hs) \<Rightarrow>
             (if n = 0 then Some (c\<lparr>hmem := mem, hproxy := pp\<rparr>, GoAhead)
              else
                (case handleHead minimally maxHeaderSize cb n hs (c\<lparr>hmem := mem, hproxy := pp\<rparr>) of
                   None \<Rightarrow> None
                 | Some (c', v) \<Rightarrow>
                     (if v = GoAhead \<and> \<not> minimally then requestLoop minimally maxHeaderSize cb c'
                      else Some (c', v))))))"
  by pat_completeness auto
termination
  by (relation "measure (\<lambda>(m, n, cb, c). hlen c)") (auto dest: handleHead_hlen)

declare requestLoop.simps [simp del]

text \<open>The two bytes behind the text are overwritten first.\<close>

definition fenceAndConsumePostPadded ::
  "bool \<Rightarrow> nat \<Rightarrow> 'u callbacks \<Rightarrow> 'u httpCursor \<Rightarrow> ('u httpCursor \<times> verdict) option" where
  "fenceAndConsumePostPadded minimally maxHeaderSize cb c = do {
     mem \<leftarrow> wr (hmem c) (hpos c + hlen c) CR;
     mem \<leftarrow> wr mem (hpos c + hlen c + 1) 97;
     requestLoop minimally maxHeaderSize cb (c\<lparr>hmem := mem\<rparr>) }"

section \<open>One segment\<close>

definition MINIMUM_HTTP_POST_PADDING :: nat where "MINIMUM_HTTP_POST_PADDING = 32"

text \<open>
  The tail of a cut head is completed in the fallback buffer, with as much of the segment as the
  limit allows; \<open>None\<close> as a verdict is to go on with the rest of the segment. The padding of the
  buffer is reserved memory of no particular contents.
\<close>

definition consumeFallback ::
  "nat \<Rightarrow> 'u callbacks \<Rightarrow> 'u httpCursor \<Rightarrow> ('u httpCursor \<times> verdict option) option" where
  "consumeFallback maxHeaderSize cb c =
     (let had = length (fallback (hparser c));
          maxCopyDistance = (if maxHeaderSize < had then hlen c else min (maxHeaderSize - had) (hlen c)) in
      do {
        copied \<leftarrow> rdN (hmem c) (hpos c) maxCopyDistance;
        let text = fallback (hparser c) @ copied;
        (f, v) \<leftarrow> fenceAndConsumePostPadded True maxHeaderSize cb
          \<lparr>hmem = text @ replicate MINIMUM_HTTP_POST_PADDING 0, hpos = 0, hlen = length text,
           hparser = hparser c, hproxy = hproxy c, huser = huser c\<rparr>;
        let c = c\<lparr>hparser := (hparser f)\<lparr>fallback := take (length text) (hmem f)\<rparr>,
                  hproxy := hproxy f, huser := huser f\<rparr>;
        if v \<noteq> GoAhead then Some (c, Some v)
        else if hpos f \<noteq> 0 then do {
          let c = c\<lparr>hparser := (hparser c)\<lparr>fallback := []\<rparr>\<rparr>;
          c \<leftarrow> (if had \<le> hpos f then advance (hpos f - had) c else None);
          if remainingStreamingBytes (hparser c) \<noteq> 0 then consumeStreamingBody cb c else Some (c, None) }
        else if length text = maxHeaderSize
          then Some (c, Some (Failed HTTP_ERROR_431_REQUEST_HEADER_FIELDS_TOO_LARGE))
        else Some (c, Some GoAhead) })"

definition consumeRest :: "nat \<Rightarrow> 'u callbacks \<Rightarrow> 'u httpCursor \<Rightarrow> ('u httpCursor \<times> verdict) option" where
  "consumeRest maxHeaderSize cb c = do {
     (c, v) \<leftarrow> fenceAndConsumePostPadded False maxHeaderSize cb c;
     if v \<noteq> GoAhead then Some (c, v)
     else if hlen c = 0 then Some (c, GoAhead)
     else if hlen c < maxHeaderSize then do {
       data \<leftarrow> rdN (hmem c) (hpos c) (hlen c);
       Some (c\<lparr>hparser := (hparser c)\<lparr>fallback := fallback (hparser c) @ data\<rparr>\<rparr>, GoAhead) }
     else Some (c, Failed HTTP_ERROR_431_REQUEST_HEADER_FIELDS_TOO_LARGE) }"

definition consumePostPadded :: "nat \<Rightarrow> 'u callbacks \<Rightarrow> 'u httpCursor \<Rightarrow> ('u httpCursor \<times> verdict) option" where
  "consumePostPadded maxHeaderSize cb c = do {
     (c, v) \<leftarrow>
       (if remainingStreamingBytes (hparser c) \<noteq> 0 then consumeStreamingBody cb c
        else if fallback (hparser c) \<noteq> [] then consumeFallback maxHeaderSize cb c
        else Some (c, None));
     case v of
       Some v \<Rightarrow> Some (c, v)
     | None \<Rightarrow> consumeRest maxHeaderSize cb c }"

section \<open>A connection\<close>

text \<open>
  The event loop hands over a receive buffer with padding on both sides; the parser of the connection
  keeps its state from one segment to the next, until a verdict ends it.
\<close>

definition freshParser :: HttpParser where
  "freshParser = \<lparr>fallback = [], remainingStreamingBytes = 0, trailerTail = 0\<rparr>"

definition recvCursor :: "HttpParser \<Rightarrow> ProxyParser \<Rightarrow> 'u \<Rightarrow> bytes \<Rightarrow> 'u httpCursor" where
  "recvCursor p pp u seg =
     \<lparr>hmem = replicate 32 0 @ seg @ replicate 32 0, hpos = 32, hlen = length seg,
      hparser = p, hproxy = pp, huser = u\<rparr>"

fun httpStream ::
  "nat \<Rightarrow> 'u callbacks \<Rightarrow> HttpParser \<Rightarrow> ProxyParser \<Rightarrow> 'u \<Rightarrow> bytes list \<Rightarrow>
     (HttpParser \<times> ProxyParser \<times> 'u \<times> verdict) option" where
  "httpStream maxHeaderSize cb p pp u [] = Some (p, pp, u, GoAhead)"
| "httpStream maxHeaderSize cb p pp u (seg # segs) =
     (case consumePostPadded maxHeaderSize cb (recvCursor p pp u seg) of
        None \<Rightarrow> None
      | Some (c, v) \<Rightarrow>
          (if v = GoAhead then httpStream maxHeaderSize cb (hparser c) (hproxy c) (huser c) segs
           else Some (hparser c, hproxy c, huser c, v)))"

end
