(* ===== verification/HttpHeadText.thy ===== *)
theory HttpHeadText
  imports HttpHead
begin

text \<open>
  How the reference for request heads behaves when the text is cut or was already rewritten: what a
  prefix decides is final, and the lower-case text an incomplete head leaves behind is still an
  incomplete head. The fallback buffer of the parser rests on both.
\<close>

section \<open>Scans and cuts\<close>

lemma takeWhile_cut:
  assumes "length (takeWhile P (A @ B)) < length A"
  shows "takeWhile P (A @ B) = takeWhile P A" "dropWhile P (A @ B) = dropWhile P A @ B" "dropWhile P A \<noteq> []"
proof -
  have "\<exists>x\<in>set A. \<not> P x"
  proof (rule ccontr)
    assume "\<not> (\<exists>x\<in>set A. \<not> P x)"
    then have "takeWhile P (A @ B) = A @ takeWhile P B" by (simp add: takeWhile_append2)
    then show False using assms by simp
  qed
  then obtain x where x: "x \<in> set A" "\<not> P x" by blast
  show "takeWhile P (A @ B) = takeWhile P A" using x by (rule takeWhile_append1)
  show "dropWhile P (A @ B) = dropWhile P A @ B" using x by (rule dropWhile_append1)
  show "dropWhile P A \<noteq> []" using x by (auto simp: dropWhile_eq_Nil_conv)
qed

lemma takeWhile_append_stop:
  assumes "\<And>x. x \<in> set A \<Longrightarrow> P x" and "\<not> P y"
  shows "takeWhile P (A @ y # B) = A" "dropWhile P (A @ y # B) = y # B"
  using assms by (simp_all add: takeWhile_append2 dropWhile_append2)

section \<open>The PROXY header\<close>

lemma proxyParse_cut:
  assumes "proxyParse (A @ B) pp = ((True, n), pp')" and "max 4 n \<le> length A"
  shows "proxyParse A pp = ((True, n), pp')"
proof (cases "take 4 A = [CR, LF, CR, LF]")
  case False
  then show ?thesis using assms by (simp add: proxyParse_def split: if_splits)
next
  case True
  then have n: "16 \<le> n" using assms by (auto simp: proxyParse_def Let_def split: if_splits)
  then have len: "16 \<le> length A" using assms(2) by simp
  have same: "take 4 (A @ B) = take 4 A" "take 12 (A @ B) = take 12 A"
    "(A @ B) ! 12 = A ! 12" "(A @ B) ! 13 = A ! 13" "take 2 (drop 14 (A @ B)) = take 2 (drop 14 A)"
    using len by (simp_all add: nth_append)
  have host: "take h (drop 16 (A @ B)) = take h (drop 16 A)" if "16 + h \<le> length A" for h
    using that by simp
  show ?thesis
    using assms len True unfolding proxyParse_def same Let_def
    by (auto simp: host simp del: take_append drop_append split: if_splits)
qed

lemma proxyParse_again:
  "fst (proxyParse xs pp') = fst (proxyParse xs pp)"
  by (simp add: proxyParse_def Let_def)

lemma proxyParse_twice:
  "proxyParse xs pp = (r, pp') \<Longrightarrow> proxyParse xs pp' = (r, pp')"
  by (auto simp: proxyParse_def Let_def split: if_splits)

lemma proxyParse_replace:
  assumes "proxyParse (A @ B) pp = ((True, n), pp')" and "max 4 n \<le> length A"
  shows "proxyParse (A @ B') pp' = ((True, n), pp')"
  using proxyParse_prefix [OF proxyParse_twice [OF proxyParse_cut [OF assms]]] .

section \<open>The request line\<close>

lemma length_httpVersion: "length httpVersion = 11"
  by (simp add: httpVersion_def)

lemma lineSpec_Line_iff:
  "lineSpec xs = Line (m, t) n \<longleftrightarrow>
     (\<exists>B. xs = m @ SP # t @ httpVersion @ B \<and> B \<noteq> []) \<and> (\<forall>b\<in>set m. scharGe b 33) \<and>
     (\<forall>b\<in>set t. 32 < b) \<and> (\<exists>t'. t = 47 # t') \<and> n = length m + 1 + length t + 11"
  (is "_ \<longleftrightarrow> ?r")
proof
  assume l: "lineSpec xs = Line (m, t) n"
  let ?rest = "dropWhile (\<lambda>b. scharGe b 33) xs"
  let ?v = "dropWhile (\<lambda>b. 32 < b) (tl ?rest)"
  have facts: "m = takeWhile (\<lambda>b. scharGe b 33) xs" "t = takeWhile (\<lambda>b. 32 < b) (tl ?rest)"
    "n = length m + 1 + length t + 11" "11 < length ?v" "take 11 ?v = httpVersion"
    "1 < length ?rest" "hd ?rest = SP" "?rest ! 1 = 47"
    using l by (auto simp: lineSpec_def Let_def split: if_splits)
  obtain w where w: "?rest = SP # 47 # w"
    using facts(6-8) by (cases ?rest; cases "tl ?rest") auto
  have "t = 47 # takeWhile (\<lambda>b. 32 < b) w" using facts(2) w by simp
  moreover have "xs = m @ SP # t @ httpVersion @ drop 11 ?v"
  proof -
    have "xs = m @ ?rest" unfolding facts(1) by simp
    also have "?rest = SP # tl ?rest" using w by simp
    also have "tl ?rest = t @ ?v" unfolding facts(2) by simp
    also have "?v = httpVersion @ drop 11 ?v" using facts(5) by (metis append_take_drop_id)
    finally show ?thesis .
  qed
  moreover have "drop 11 ?v \<noteq> []" using facts(4) by simp
  moreover have "\<forall>b\<in>set m. scharGe b 33" "\<forall>b\<in>set t. 32 < b"
    unfolding facts(1,2) by (auto dest: set_takeWhileD)
  ultimately show ?r using facts(3) by blast
next
  assume ?r
  then obtain B t' where xs: "xs = m @ SP # t @ httpVersion @ B" "B \<noteq> []" "t = 47 # t'"
    and m: "\<And>b. b \<in> set m \<Longrightarrow> scharGe b 33" and t: "\<And>b. b \<in> set t \<Longrightarrow> 32 < b"
    and n: "n = length m + 1 + length t + 11" by auto
  have sp: "\<not> scharGe SP 33" by (simp add: scharGe_def)
  have line: "takeWhile (\<lambda>b. scharGe b 33) xs = m" "dropWhile (\<lambda>b. scharGe b 33) xs = SP # t @ httpVersion @ B"
    unfolding xs(1) by (rule takeWhile_append_stop; use m sp in simp)+
  have v: "httpVersion @ B = SP # tl httpVersion @ B" by (simp add: httpVersion_def)
  have "\<not> (32 :: byte) < SP" by simp
  then have target: "takeWhile (\<lambda>b. 32 < b) (t @ httpVersion @ B) = t"
    "dropWhile (\<lambda>b. 32 < b) (t @ httpVersion @ B) = httpVersion @ B"
    unfolding v using takeWhile_append_stop [of t "\<lambda>b. 32 < b" SP] t by simp_all
  have len: "\<not> length (httpVersion @ B) \<le> 11" "take 11 (httpVersion @ B) = httpVersion"
    using xs(2) by (simp_all add: length_httpVersion)
  have rest: "(SP # t @ httpVersion @ B) ! 1 = 47" "\<not> length (SP # t @ httpVersion @ B) \<le> 1"
    using xs(3) by simp_all
  show "lineSpec xs = Line (m, t) n"
    unfolding lineSpec_def line Let_def list.sel target
    using len rest n by simp
qed

lemma lineSpec_replace:
  assumes "lineSpec (A @ B) = Line h n" and "length A = n" and "B' \<noteq> []"
  shows "lineSpec (A @ B') = Line h n"
proof -
  obtain m t where h: "h = (m, t)" by (cases h)
  from assms(1) obtain C where C: "A @ B = (m @ SP # t @ httpVersion) @ C"
    and rest: "\<forall>b\<in>set m. scharGe b 33" "\<forall>b\<in>set t. 32 < b" "\<exists>t'. t = 47 # t'" "n = length m + 1 + length t + 11"
    unfolding h lineSpec_Line_iff by auto
  have "A = m @ SP # t @ httpVersion"
    using C assms(2) rest(4) by (subst (asm) append_eq_append_conv) (simp_all add: length_httpVersion)
  then show ?thesis unfolding h lineSpec_Line_iff using rest assms(3) by auto
qed

lemma lineSpec_cut:
  assumes "lineSpec (A @ B) = Line h n" and "n < length A"
  shows "lineSpec A = Line h n"
proof -
  have "take n A @ (drop n A @ B) = A @ B" by (metis append_assoc append_take_drop_id)
  then have "lineSpec (take n A @ (drop n A @ B)) = Line h n" using assms(1) by (simp only:)
  moreover have "length (take n A) = n" "drop n A \<noteq> []" using assms(2) by simp_all
  ultimately have "lineSpec (take n A @ drop n A) = Line h n" by (rule lineSpec_replace)
  then show ?thesis by (simp only: append_take_drop_id)
qed

lemma lineSpec_prefix:
  assumes "lineSpec A = Line h n"
  shows "lineSpec (A @ B) = Line h n"
proof -
  obtain m t where h: "h = (m, t)" by (cases h)
  show ?thesis using assms unfolding h lineSpec_Line_iff by auto
qed

lemma lineSpec_more:
  assumes "lineSpec xs = Line h n"
  shows "n < length xs" and "12 < n"
proof -
  obtain m t where h: "h = (m, t)" by (cases h)
  show "n < length xs" "12 < n" using assms unfolding h lineSpec_Line_iff by (auto simp: length_httpVersion)
qed

section \<open>The header lines\<close>

declare headersSpec.simps(2) [simp del]

lemma valueByte_CR: "\<not> valueByte CR"
  by (simp add: valueByte_def)

lemma fieldByte_colon: "\<not> fieldByte 58" "\<not> fieldByte CR"
  by (simp_all add: special_field)

text \<open>One line, evaluated.\<close>

lemma headersSpec_line:
  assumes "\<forall>b\<in>set name. fieldByte b" and "\<forall>b\<in>set v. valueByte b"
  shows "headersSpec (Suc n) (name @ 58 # v @ CR # LF # s) =
    (let key = map lower name; same = key @ 58 # v @ CR # LF # s; k = length name + length v + 3 in
     if s = [] \<or> s = [CR] then (Incomplete, same)
     else if hd s = CR then
       (if s ! 1 = LF then (Complete (k + 2) [(key, trimValue v)], same)
        else (Rejected HTTP_ERROR_400_BAD_REQUEST, same))
     else
       (case headersSpec n s of
          (Complete c hs, s') \<Rightarrow> (Complete (k + c) ((key, trimValue v) # hs), key @ 58 # v @ CR # LF # s')
        | (res, s') \<Rightarrow> (res, key @ 58 # v @ CR # LF # s')))"
proof -
  let ?xs = "name @ 58 # v @ CR # LF # s"
  have name: "takeWhile fieldByte ?xs = name" "dropWhile fieldByte ?xs = 58 # v @ CR # LF # s"
    by (rule takeWhile_append_stop; use assms(1) fieldByte_colon in simp)+
  have v: "takeWhile valueByte (v @ CR # LF # s) = v" "dropWhile valueByte (v @ CR # LF # s) = CR # LF # s"
    by (rule takeWhile_append_stop; use assms(2) valueByte_CR in simp)+
  have k: "length ?xs - length s = length name + length v + 3" by simp
  show ?thesis
    unfolding headersSpec.simps name Let_def list.sel v k
    by (auto split: prod.splits headResult.splits)
qed

lemma headersSpec_Complete:
  assumes "headersSpec n xs = (Complete c hs, ys)"
  obtains m name v s where "n = Suc m" "xs = name @ 58 # v @ CR # LF # s"
    "\<forall>b\<in>set name. fieldByte b" "\<forall>b\<in>set v. valueByte b"
    "(\<exists>s'. s = CR # LF # s') \<and> c = length name + length v + 5 \<and> hs = [(map lower name, trimValue v)] \<or>
     s \<noteq> [] \<and> hd s \<noteq> CR \<and>
       (\<exists>c' hs' s'. headersSpec m s = (Complete c' hs', s') \<and> c = length name + length v + 3 + c' \<and>
          hs = (map lower name, trimValue v) # hs')"
proof -
  obtain m where m: "n = Suc m" using assms by (cases n) simp_all
  let ?name = "takeWhile fieldByte xs" and ?rest = "dropWhile fieldByte xs"
  let ?v = "takeWhile valueByte (tl ?rest)" and ?r = "dropWhile valueByte (tl ?rest)"
  have r: "?rest \<noteq> []" "hd ?rest = 58" "?r \<noteq> []" "?r \<noteq> [CR]" "hd ?r = CR" "?r ! 1 = LF"
    using assms unfolding m headersSpec.simps Let_def by (auto split: if_splits)
  have r1: "1 < length ?r"
  proof -
    obtain y r' where "?r = y # r'" using r(3) by (cases ?r) auto
    then show ?thesis using r(4,5) by (cases r') auto
  qed
  have r2: "?r = CR # LF # drop 2 ?r" using r1 r(5,6) by (cases ?r; cases "tl ?r") auto
  have "xs = ?name @ ?rest" by simp
  also have "?rest = 58 # tl ?rest" using r(1,2) by (cases ?rest) auto
  also have "tl ?rest = ?v @ ?r" by simp
  also have "?r = CR # LF # drop 2 ?r" by (rule r2)
  finally have xs: "xs = ?name @ 58 # ?v @ CR # LF # drop 2 ?r" .
  have name: "\<forall>b\<in>set ?name. fieldByte b" and v: "\<forall>b\<in>set ?v. valueByte b"
    by (auto dest: set_takeWhileD)
  define s name v where sn: "s = drop 2 ?r" "name = ?name" "v = ?v"
  note facts = xs name v
  note facts = facts [folded sn]
  have "headersSpec (Suc m) (name @ 58 # v @ CR # LF # s) = (Complete c hs, ys)"
    using assms m facts(1) by simp
  then have l: "headersSpec (Suc m) (name @ 58 # v @ CR # LF # s) = (Complete c hs, ys)" .
  have "(\<exists>s'. s = CR # LF # s') \<and> c = length name + length v + 5 \<and> hs = [(map lower name, trimValue v)] \<or>
     s \<noteq> [] \<and> hd s \<noteq> CR \<and>
       (\<exists>c' hs' s'. headersSpec m s = (Complete c' hs', s') \<and> c = length name + length v + 3 + c' \<and>
          hs = (map lower name, trimValue v) # hs')"
  proof (cases "s \<noteq> [] \<and> hd s = CR")
    case True
    then obtain s1 where s1: "s = CR # s1" by (cases s) auto
    from l show ?thesis unfolding s1 headersSpec_line [OF facts(2,3)] Let_def
      by (cases s1) (auto split: if_splits)
  next
    case False
    from l show ?thesis unfolding headersSpec_line [OF facts(2,3)] Let_def
      using False by (auto split: if_splits prod.splits headResult.splits)
  qed
  then show thesis by (rule that [OF m facts])
qed

lemma headersSpec_cut:
  assumes "headersSpec n (A @ B) = (Complete c hs, ys)" and "c \<le> length A"
  shows "\<exists>ys'. headersSpec n A = (Complete c hs, ys')"
  using assms
proof (induction n arbitrary: A c hs ys)
  case 0
  then show ?case by simp
next
  case (Suc n)
  from Suc.prems(1) obtain m name v s where l: "Suc n = Suc m" "A @ B = name @ 58 # v @ CR # LF # s"
    "\<forall>b\<in>set name. fieldByte b" "\<forall>b\<in>set v. valueByte b"
    and more: "(\<exists>s'. s = CR # LF # s') \<and> c = length name + length v + 5 \<and> hs = [(map lower name, trimValue v)] \<or>
     s \<noteq> [] \<and> hd s \<noteq> CR \<and>
       (\<exists>c' hs' s'. headersSpec m s = (Complete c' hs', s') \<and> c = length name + length v + 3 + c' \<and>
          hs = (map lower name, trimValue v) # hs')"
    by (rule headersSpec_Complete) blast
  define line where "line = name @ 58 # v @ [CR, LF]"
  have len: "length line = length name + length v + 3" by (simp add: line_def)
  have "length line \<le> length A" using more Suc.prems(2) len by auto
  moreover have AB: "A @ B = line @ s" using l(2) by (simp add: line_def)
  ultimately have A: "A = line @ drop (length line) A"
    by (metis append_eq_append_conv_if append_take_drop_id)
  define S where "S = drop (length line) A"
  have s: "s = S @ B" using AB A unfolding S_def by (metis append_assoc same_append_eq)
  have "A = line @ S" using A by (simp only: S_def)
  then have A': "A = name @ 58 # v @ CR # LF # S" by (simp add: line_def)
  have lenA: "length A = length line + length S" using A unfolding S_def [symmetric] by (metis length_append)
  note line = headersSpec_line [OF l(3,4), of n S, folded A']
  from more show ?case
  proof (elim disjE conjE exE)
    fix s' assume s': "s = CR # LF # s'" and c: "c = length name + length v + 5"
      and hs: "hs = [(map lower name, trimValue v)]"
    then have "2 \<le> length S" using Suc.prems(2) lenA len by simp
    then have "S = CR # LF # drop 2 S" using s' s by (cases S; cases "tl S") auto
    then have "S \<noteq> []" "S \<noteq> [CR]" "hd S = CR" "S ! 1 = LF" by (metis list.distinct(1) list.inject list.sel(1) nth_Cons_0 nth_Cons_Suc One_nat_def)+
    then show ?thesis unfolding line Let_def using c hs by simp
  next
    fix c' hs' s' assume h: "s \<noteq> []" "hd s \<noteq> CR" "headersSpec m s = (Complete c' hs', s')"
      and c: "c = length name + length v + 3 + c'" and hs: "hs = (map lower name, trimValue v) # hs'"
    have mn: "m = n" using l(1) by simp
    have "c' \<le> length S" using c Suc.prems(2) lenA len by simp
    then obtain ys' where ih: "headersSpec n S = (Complete c' hs', ys')"
      using Suc.IH h(3) unfolding s mn by blast
    have "S \<noteq> []"
    proof
      assume "S = []"
      then show False using ih by (cases n) (simp_all add: headersSpec.simps)
    qed
    moreover have "hd S \<noteq> CR" using h(2) \<open>S \<noteq> []\<close> s by simp
    ultimately show ?thesis unfolding line Let_def using ih c hs by auto
  qed
qed

section \<open>The text an incomplete head leaves\<close>

lemma lower_facts: "fieldByte (lower b) \<longleftrightarrow> fieldByte b" "lower b = CR \<longleftrightarrow> b = CR"
proof -
  have all: "\<forall>n\<in>set [65..<91]. fieldByte (word_of_nat n OR 32) \<and> word_of_nat n OR 32 \<noteq> CR"
    by (simp add: fieldByte_def isFieldNameByteFastLowercased_def)
  have "fieldByte (lower b) \<and> lower b \<noteq> CR \<and> fieldByte b \<and> b \<noteq> CR" if b: "65 \<le> b" "b \<le> 90"
  proof -
    have "unat b \<in> set [65..<91]" unfolding set_upt using b by (simp add: word_le_nat_alt)
    from bspec [OF all this] have "fieldByte (b OR 32) \<and> b OR 32 \<noteq> CR" unfolding of_nat_unat_id .
    moreover have "fieldByte b" using b by (simp add: fieldByte_def isFieldNameByteFastLowercased_def)
    moreover have "b \<noteq> CR" using b by auto
    ultimately show ?thesis using b by (simp add: lower_def)
  qed
  then show "fieldByte (lower b) \<longleftrightarrow> fieldByte b" "lower b = CR \<longleftrightarrow> b = CR"
    by (cases "65 \<le> b \<and> b \<le> 90"; simp add: lower_def; blast)+
qed

definition lowered :: "bytes \<Rightarrow> bytes \<Rightarrow> bool" where
  "lowered = list_all2 (\<lambda>x y. y = x \<or> y = lower x)"

lemma lowered_refl: "lowered xs xs"
  by (simp add: lowered_def list_all2_refl)

lemma lowered_append: "lowered xs xs' \<Longrightarrow> lowered ys ys' \<Longrightarrow> lowered (xs @ ys) (xs' @ ys')"
  by (simp add: lowered_def list_all2_appendI)

lemma lowered_lower: "lowered xs (map lower xs)"
  by (simp add: lowered_def list_all2_conv_all_nth)

lemma lowered_length: "lowered xs ys \<Longrightarrow> length ys = length xs"
  by (simp add: lowered_def list_all2_lengthD)

lemma lowered_hd: "lowered xs ys \<Longrightarrow> xs \<noteq> [] \<Longrightarrow> hd ys = CR \<longleftrightarrow> hd xs = CR"
  by (cases xs; cases ys) (auto simp: lowered_def lower_facts)

lemma headersSpec_lowered: "headersSpec n xs = (r, ys) \<Longrightarrow> lowered xs ys"
proof (induction n arbitrary: xs r ys)
  case 0
  then show ?case by (simp add: lowered_refl)
next
  case (Suc n)
  let ?name = "takeWhile fieldByte xs" and ?rest = "dropWhile fieldByte xs"
  let ?v = "takeWhile valueByte (tl ?rest)" and ?r = "dropWhile valueByte (tl ?rest)"
  let ?s = "drop 2 ?r"
  have same: "lowered (?name @ ?rest) (map lower ?name @ ?rest)"
    by (intro lowered_append lowered_lower lowered_refl)
  then have same': "lowered xs (map lower ?name @ ?rest)" by simp
  show ?case
  proof (cases "?rest = [] \<or> hd ?rest \<noteq> 58 \<or> ?r = [] \<or> ?r = [CR] \<or> hd ?r \<noteq> CR \<or> ?r ! 1 \<noteq> LF \<or>
      ?s = [] \<or> ?s = [CR] \<or> hd ?s = CR")
    case True
    then have "ys = map lower ?name @ ?rest"
      using Suc.prems unfolding headersSpec.simps Let_def by (auto split: if_splits)
    then show ?thesis using same' by simp
  next
    case False
    obtain r' s' where h: "headersSpec n ?s = (r', s')" by fastforce
    have ys: "ys = map lower ?name @ 58 # ?v @ CR # LF # s'"
      using Suc.prems False h unfolding headersSpec.simps Let_def
      by (auto split: if_splits headResult.splits)
    have "?r = CR # LF # ?s" using False by (cases ?r; cases "tl ?r") auto
    moreover have "?rest = 58 # tl ?rest" using False by (cases ?rest) auto
    moreover have "tl ?rest = ?v @ ?r" by simp
    ultimately have rest: "?rest = (58 # ?v @ [CR, LF]) @ ?s" by simp
    have "lowered (?name @ (58 # ?v @ [CR, LF]) @ ?s) (map lower ?name @ (58 # ?v @ [CR, LF]) @ s')"
      by (intro lowered_append lowered_lower lowered_refl Suc.IH [OF h])
    then have "lowered (?name @ ?rest) ys" unfolding ys rest [symmetric] by simp
    then show ?thesis by simp
  qed
qed

lemma headersSpec_again:
  "headersSpec n xs = (Incomplete, ys) \<Longrightarrow> fst (headersSpec n ys) = Incomplete"
proof (induction n arbitrary: xs ys)
  case 0
  then show ?case by simp
next
  case (Suc n)
  let ?name = "takeWhile fieldByte xs" and ?rest = "dropWhile fieldByte xs"
  let ?v = "takeWhile valueByte (tl ?rest)" and ?r = "dropWhile valueByte (tl ?rest)"
  let ?s = "drop 2 ?r"
  have name: "\<forall>b\<in>set (map lower ?name). fieldByte b" by (auto dest: set_takeWhileD simp: lower_facts)
  have v: "\<forall>b\<in>set ?v. valueByte b" by (auto dest: set_takeWhileD)
  show ?case
  proof (cases "?rest = []")
    case True
    then have "ys = map lower ?name" using Suc.prems unfolding headersSpec.simps Let_def by simp
    moreover have "dropWhile fieldByte (map lower ?name) = []"
      using name by (simp add: dropWhile_eq_Nil_conv)
    ultimately show ?thesis by (simp add: headersSpec.simps)
  next
    case False
    then have rest: "?rest = 58 # tl ?rest"
      using Suc.prems unfolding headersSpec.simps Let_def by (cases ?rest) (auto split: if_splits)
    have scan: "takeWhile fieldByte (map lower ?name @ ?rest) = map lower ?name"
      "dropWhile fieldByte (map lower ?name @ ?rest) = ?rest"
      by (subst rest, subst rest, rule takeWhile_append_stop; use name fieldByte_colon in blast)+
    show ?thesis
    proof (cases "?r = [] \<or> ?r = [CR] \<or> hd ?r = CR \<and> (?r ! 1 \<noteq> LF \<or> ?s = [] \<or> ?s = [CR])")
      case True
      then have "ys = map lower ?name @ ?rest"
        using Suc.prems False unfolding headersSpec.simps Let_def by (auto split: if_splits)
      then show ?thesis
        using Suc.prems False True scan unfolding headersSpec.simps Let_def by (auto split: if_splits)
    next
      case go: False
      have line: "hd ?r = CR" "?r ! 1 = LF" "hd ?s \<noteq> CR" "hd ?rest = 58"
        using Suc.prems False go rest unfolding headersSpec.simps Let_def by (auto split: if_splits)
      obtain r' s' where h: "headersSpec n ?s = (r', s')" by fastforce
      have r': "r' = Incomplete" and ys: "ys = map lower ?name @ 58 # ?v @ CR # LF # s'"
        using Suc.prems False go line h unfolding headersSpec.simps Let_def
        by (auto split: if_splits headResult.splits)
      have ih: "fst (headersSpec n s') = Incomplete" using Suc.IH h r' by simp
      have rw: "lowered ?s s'" using headersSpec_lowered [OF h] .
      have s: "?s \<noteq> []" "?s \<noteq> [CR]" using go line by auto
      have "s' \<noteq> []" using s lowered_length [OF rw] by auto
      moreover have "hd s' \<noteq> CR" using lowered_hd [OF rw s(1)] line(3) by simp
      ultimately show ?thesis
        unfolding ys headersSpec_line [OF name v] Let_def using ih
        by (auto split: prod.splits headResult.splits)
    qed
  qed
qed

section \<open>The whole head\<close>

lemma headSpec_lowered: "headSpec xs pp = ((r, ys), pp') \<Longrightarrow> lowered xs ys"
proof -
  assume h: "headSpec xs pp = ((r, ys), pp')"
  have part: "lowered xs (take k xs @ zs)" if "lowered (drop k xs) zs" for k zs
    using lowered_append [OF lowered_refl that, of "take k xs"] by simp
  show ?thesis
    using h by (auto simp: headSpec_def lowered_refl split: prod.splits bool.splits requestLine.splits headResult.splits
        dest!: headersSpec_lowered intro: part)
qed

lemma headSpec_cut:
  assumes "headSpec (A @ B) pp = ((Complete c hs, ys), pp')" and "c \<le> length A"
  shows "\<exists>ys'. headSpec A pp = ((Complete c hs, ys'), pp')"
proof -
  obtain off h n c' hs' zs where p: "proxyParse (A @ B) pp = ((True, off), pp')"
    and l: "lineSpec (drop off (A @ B)) = Line h n"
    and f: "headersSpec (UWS_HTTP_MAX_HEADERS_COUNT - 2) (drop (off + n) (A @ B)) = (Complete c' hs', zs)"
    and c: "c = off + n + c'" and hs: "hs = h # hs'"
    using assms(1) unfolding headSpec_def
    by (auto split: prod.splits bool.splits requestLine.splits headResult.splits)
  have n: "12 < n" using lineSpec_more [OF l] by simp
  have "0 < c'" using f by (rule headersSpec_Complete) auto
  then have len: "off + n < length A" "off \<le> length A" using c assms(2) by simp_all
  have "proxyParse A pp = ((True, off), pp')"
    using proxyParse_cut [OF p] n len by simp
  moreover have "lineSpec (drop off A) = Line h n"
  proof (rule lineSpec_cut)
    show "lineSpec (drop off A @ B) = Line h n" using l len by simp
    show "n < length (drop off A)" using len by simp
  qed
  moreover have "\<exists>ys'. headersSpec (UWS_HTTP_MAX_HEADERS_COUNT - 2) (drop (off + n) A) = (Complete c' hs', ys')"
  proof (rule headersSpec_cut)
    show "headersSpec (UWS_HTTP_MAX_HEADERS_COUNT - 2) (drop (off + n) A @ B) = (Complete c' hs', zs)"
      using f len by simp
    show "c' \<le> length (drop (off + n) A)" using c assms(2) by simp
  qed
  ultimately show ?thesis using c hs by (auto simp: headSpec_def)
qed

lemma headSpec_again:
  assumes "headSpec xs pp = ((Incomplete, ys), pp')"
  shows "fst (fst (headSpec ys pp')) = Incomplete"
proof -
  obtain ok off where p: "proxyParse xs pp = ((ok, off), pp')"
    using assms unfolding headSpec_def
    by (auto split: prod.splits bool.splits requestLine.splits headResult.splits)
  note p' = proxyParse_twice [OF p]
  show ?thesis
  proof (cases "ok \<and> (\<exists>h n. lineSpec (drop off xs) = Line h n)")
    case False
    then have "ys = xs" using assms p unfolding headSpec_def
      by (auto split: bool.splits requestLine.splits headResult.splits)
    then show ?thesis using assms p p' False unfolding headSpec_def
      by (auto split: bool.splits requestLine.splits headResult.splits)
  next
    case True
    then obtain h n where l: "lineSpec (drop off xs) = Line h n" and ok by blast
    obtain zs where f: "headersSpec (UWS_HTTP_MAX_HEADERS_COUNT - 2) (drop (off + n) xs) = (Incomplete, zs)"
      and ys: "ys = take (off + n) xs @ zs"
      using assms p l \<open>ok\<close> unfolding headSpec_def by (auto split: prod.splits headResult.splits)
    have len: "12 < n" "off + n < length xs" using lineSpec_more [OF l] by simp_all
    have zs: "zs \<noteq> []" using lowered_length [OF headersSpec_lowered [OF f]] len by auto
    have "proxyParse (take (off + n) xs @ drop (off + n) xs) pp = ((True, off), pp')" using p \<open>ok\<close> by simp
    then have py: "proxyParse ys pp' = ((True, off), pp')"
      unfolding ys by (rule proxyParse_replace) (use len in simp)
    have "lineSpec (take n (drop off xs) @ drop n (drop off xs)) = Line h n"
      using l by (simp only: append_take_drop_id)
    then have "lineSpec (take n (drop off xs) @ zs) = Line h n"
      by (rule lineSpec_replace) (use len zs in simp_all)
    moreover have d: "drop off ys = take n (drop off xs) @ zs" "drop (off + n) ys = zs"
      unfolding ys using len by (simp_all add: take_drop add.commute)
    ultimately have ly: "lineSpec (drop off ys) = Line h n" by simp
    have "fst (headersSpec (UWS_HTTP_MAX_HEADERS_COUNT - 2) zs) = Incomplete"
      using headersSpec_again [OF f] .
    then show ?thesis using py ly d by (auto simp: headSpec_def split: prod.splits headResult.splits)
  qed
qed

text \<open>
  The fact the fallback buffer relies on: the head it completes ends behind the text it had.
\<close>

lemma headSpec_completes_later:
  assumes "fst (fst (headSpec A pp)) = Incomplete" and "headSpec (A @ B) pp = ((Complete c hs, ys), pp')"
  shows "length A < c"
  using headSpec_cut [OF assms(2)] assms(1) by (cases "length A < c") auto

text \<open>A head is not empty and lies in the text.\<close>

lemma headersSpec_le: "headersSpec n xs = (Complete c hs, ys) \<Longrightarrow> 0 < c \<and> c \<le> length xs"
proof (induction n arbitrary: xs c hs ys)
  case 0
  then show ?case by simp
next
  case (Suc n)
  from Suc.prems show ?case
    by (rule headersSpec_Complete) (auto dest!: Suc.IH)
qed

lemma headSpec_le:
  assumes "headSpec xs pp = ((Complete c hs, ys), pp')"
  shows "0 < c" "c \<le> length xs"
proof -
  obtain off h n c' hs' zs where l: "lineSpec (drop off xs) = Line h n"
    and f: "headersSpec (UWS_HTTP_MAX_HEADERS_COUNT - 2) (drop (off + n) xs) = (Complete c' hs', zs)"
    and c: "c = off + n + c'"
    using assms unfolding headSpec_def
    by (auto split: prod.splits bool.splits requestLine.splits headResult.splits)
  show "0 < c" "c \<le> length xs"
    using headersSpec_le [OF f] lineSpec_more [OF l] c by auto
qed

lemma headSpec_proxy: "fst (headSpec xs pp) = fst (headSpec xs pp')"
proof -
  obtain ok off q q' where "proxyParse xs pp = ((ok, off), q)" "proxyParse xs pp' = ((ok, off), q')"
    using proxyParse_again [of xs pp pp'] by (metis prod.exhaust fst_conv)
  then show ?thesis
    by (auto simp: headSpec_def split: bool.splits requestLine.splits prod.splits headResult.splits)
qed

section \<open>Heads that come in pieces\<close>

lemma lower_lower: "map lower (map lower xs) = map lower xs"
proof -
  have all: "\<forall>n\<in>set [65..<91]. lower (word_of_nat n OR 32) = word_of_nat n OR 32"
    by (simp add: lower_def)
  have "lower (lower b) = lower b" for b
  proof (cases "65 \<le> b \<and> b \<le> 90")
    case True
    then have "unat b \<in> set [65..<91]" unfolding set_upt by (simp add: word_le_nat_alt)
    from bspec [OF all this] have "lower (b OR 32) = b OR 32" unfolding of_nat_unat_id .
    then show ?thesis using True by (simp add: lower_def)
  next
    case False
    then show ?thesis by (auto simp: lower_def)
  qed
  then show ?thesis by simp
qed

lemma headersSpec_line_cong:
  assumes "\<forall>b\<in>set name. fieldByte b" and "\<forall>b\<in>set v. valueByte b"
    and "s \<noteq> []" "hd s \<noteq> CR" "s' \<noteq> []" "hd s' \<noteq> CR" and "headersSpec n s' = headersSpec n s"
  shows "headersSpec (Suc n) (map lower name @ 58 # v @ CR # LF # s') = headersSpec (Suc n) (name @ 58 # v @ CR # LF # s)"
proof -
  have key: "\<forall>b\<in>set (map lower name). fieldByte b" using assms(1) by (simp add: lower_facts)
  have "s \<noteq> [CR]" "s' \<noteq> [CR]" using assms(4,6) by auto
  then show ?thesis
    unfolding headersSpec_line [OF assms(1,2)] headersSpec_line [OF key assms(2)] lower_lower length_map Let_def
    by (simp only: assms(3-7) if_False simp_thms)
qed

text \<open>Parsing can go on from the text an incomplete head left as if nothing had been rewritten.\<close>

lemma headersSpec_resume:
  "headersSpec n A = (Incomplete, A') \<Longrightarrow> headersSpec n (A' @ B) = headersSpec n (A @ B)"
proof (induction n arbitrary: A A')
  case 0
  then show ?case by simp
next
  case (Suc n)
  let ?name = "takeWhile fieldByte A" and ?rest = "dropWhile fieldByte A"
  let ?v = "takeWhile valueByte (tl ?rest)" and ?r = "dropWhile valueByte (tl ?rest)"
  let ?s = "drop 2 ?r" and ?key = "map lower ?name"
  have name: "\<forall>b\<in>set ?name. fieldByte b" "\<forall>b\<in>set ?key. fieldByte b" by (auto dest: set_takeWhileD simp: lower_facts)
  have v: "\<forall>b\<in>set ?v. valueByte b" by (auto dest: set_takeWhileD)
  have gen: "headersSpec (Suc n) (?key @ y) = headersSpec (Suc n) (?name @ y)" for y
  proof -
    have "takeWhile fieldByte (?key @ y) = ?key @ takeWhile fieldByte y" "dropWhile fieldByte (?key @ y) = dropWhile fieldByte y"
      "takeWhile fieldByte (?name @ y) = ?name @ takeWhile fieldByte y" "dropWhile fieldByte (?name @ y) = dropWhile fieldByte y"
      using takeWhile_append2 [of ?key fieldByte y] dropWhile_append2 [of ?key fieldByte y]
        takeWhile_append2 [of ?name fieldByte y] dropWhile_append2 [of ?name fieldByte y] name by blast+
    moreover have "length (?key @ y) = length (?name @ y)" by simp
    ultimately show ?thesis unfolding headersSpec.simps by (simp only: map_append lower_lower)
  qed
  have A: "A = ?name @ ?rest" by simp
  show ?case
  proof (cases "?rest = [] \<or> ?r = [] \<or> ?r = [CR] \<or> hd ?r = CR \<and> (?r ! 1 \<noteq> LF \<or> ?s = [] \<or> ?s = [CR])")
    case True
    then have "A' = ?key @ ?rest"
      using Suc.prems unfolding headersSpec.simps Let_def by (auto split: if_splits)
    then have "A' @ B = ?key @ (?rest @ B)" by simp
    then have "headersSpec (Suc n) (A' @ B) = headersSpec (Suc n) (?name @ (?rest @ B))" by (simp only: gen)
    also have "?name @ (?rest @ B) = A @ B" by (metis A append_assoc)
    finally show ?thesis .
  next
    case go: False
    then have rest: "?rest = 58 # tl ?rest"
      using Suc.prems unfolding headersSpec.simps Let_def by (cases ?rest) (auto split: if_splits)
    have line: "hd ?r = CR" "?r ! 1 = LF" "hd ?s \<noteq> CR" "hd ?rest = 58"
      using Suc.prems go rest unfolding headersSpec.simps Let_def by (auto split: if_splits)
    obtain r' s' where h: "headersSpec n ?s = (r', s')" by fastforce
    have r': "r' = Incomplete" and A': "A' = ?key @ 58 # ?v @ CR # LF # s'"
      using Suc.prems go line h unfolding headersSpec.simps Let_def
      by (auto split: if_splits headResult.splits)
    have s: "?s \<noteq> []" "?s \<noteq> [CR]" using go line by auto
    have rw: "lowered ?s s'" using headersSpec_lowered [OF h] .
    have s': "s' \<noteq> []" "hd s' \<noteq> CR" using s lowered_length [OF rw] lowered_hd [OF rw s(1)] line(3) by auto
    have "?r = CR # LF # ?s" using go line by (cases ?r; cases "tl ?r") auto
    then have "A = ?name @ 58 # ?v @ CR # LF # ?s" using rest by (metis A takeWhile_dropWhile_id)
    then have AB: "A @ B = ?name @ 58 # ?v @ CR # LF # (?s @ B)"
      by (metis append_Cons append_assoc)
    have ih: "headersSpec n (s' @ B) = headersSpec n (?s @ B)" using Suc.IH [of ?s s'] h r' by simp
    have "headersSpec (Suc n) (A' @ B) = headersSpec (Suc n) (?key @ 58 # ?v @ CR # LF # (s' @ B))" by (simp add: A')
    also have "\<dots> = headersSpec (Suc n) (?name @ 58 # ?v @ CR # LF # (?s @ B))"
      by (rule headersSpec_line_cong [OF name(1) v _ _ _ _ ih]) (use s(1) s' line(3) in \<open>simp_all add: hd_append\<close>)
    finally show ?thesis unfolding AB .
  qed
qed

lemma headSpec_resume:
  assumes "headSpec A pp = ((Incomplete, A'), pp')"
  shows "headSpec (A' @ B) pp' = headSpec (A @ B) pp"
proof -
  obtain ok off q where p: "proxyParse A pp = ((ok, off), q)" by (metis surj_pair)
  show ?thesis
  proof (cases ok)
    case False
    then have "pp' = q" "A' = A" using assms p by (simp_all add: headSpec_def)
    moreover have "q = pp" using p False by (auto simp: proxyParse_def Let_def split: if_splits)
    ultimately show ?thesis by simp
  next
    case True
    then have q: "q = pp'" using assms p unfolding headSpec_def
      by (auto split: requestLine.splits prod.splits headResult.splits)
    have pA: "proxyParse A pp = ((True, off), pp')" using p True q by simp
    have pAB: "proxyParse (A @ B) pp = ((True, off), pp')" using proxyParse_prefix [OF pA] .
    have offA: "off \<le> length A" using proxyParse_consumed [OF pA] by simp
    show ?thesis
    proof (cases "\<exists>h n. lineSpec (drop off A) = Line h n")
      case False
      then have "A' = A" using assms pA unfolding headSpec_def by (auto split: requestLine.splits)
      then show ?thesis using pAB proxyParse_twice [OF pAB] by (simp add: headSpec_def)
    next
      case True
      then obtain h n where l: "lineSpec (drop off A) = Line h n" by blast
      obtain zs where f: "headersSpec (UWS_HTTP_MAX_HEADERS_COUNT - 2) (drop (off + n) A) = (Incomplete, zs)"
        and A': "A' = take (off + n) A @ zs"
        using assms pA l unfolding headSpec_def by (auto split: prod.splits headResult.splits)
      have len: "12 < n" "off + n < length A" using lineSpec_more [OF l] by simp_all
      have zs: "zs \<noteq> []" using lowered_length [OF headersSpec_lowered [OF f]] len by auto
      have "proxyParse (take (off + n) A @ drop (off + n) A) pp = ((True, off), pp')" using pA by simp
      then have pA'B: "proxyParse (A' @ B) pp' = ((True, off), pp')"
        unfolding A' append_assoc by (rule proxyParse_replace) (use len in simp)
      have lAB: "lineSpec (drop off (A @ B)) = Line h n" using lineSpec_prefix [OF l] offA by simp
      have "lineSpec (take n (drop off A) @ drop n (drop off A)) = Line h n"
        using l by (simp only: append_take_drop_id)
      then have "lineSpec (take n (drop off A) @ (zs @ B)) = Line h n"
        by (rule lineSpec_replace) (use len zs in simp_all)
      moreover have d: "drop off (A' @ B) = take n (drop off A) @ (zs @ B)" "drop (off + n) (A' @ B) = zs @ B"
        "take (off + n) (A' @ B) = take (off + n) A"
        unfolding A' using len by (simp_all add: take_drop add.commute)
      ultimately have lA'B: "lineSpec (drop off (A' @ B)) = Line h n" by simp
      have e: "drop (off + n) (A @ B) = drop (off + n) A @ B" "take (off + n) (A @ B) = take (off + n) A"
        using len by simp_all
      show ?thesis
        unfolding headSpec_def pAB pA'B lAB lA'B prod.case bool.case requestLine.case d(2,3) e
          headersSpec_resume [OF f] ..
    qed
  qed
qed

section \<open>Well-formed heads\<close>

definition fieldLine :: "header \<Rightarrow> bytes" where
  "fieldLine = (\<lambda>(k, v). k @ 58 # SP # v @ [CR, LF])"

definition encodeHead :: "header \<Rightarrow> header list \<Rightarrow> bytes" where
  "encodeHead line hdrs =
     fst line @ SP # snd line @ httpVersion @ concat (map fieldLine hdrs) @ [CR, LF]"

text \<open>A name may be empty: the parser accepts such a line.\<close>

definition trimmed :: "bytes \<Rightarrow> bool" where
  "trimmed v \<longleftrightarrow> v = [] \<or> \<not> hd v < 33 \<and> \<not> last v < 33"

definition fieldOk :: "header \<Rightarrow> bool" where
  "fieldOk = (\<lambda>(k, v). list_all fieldByte k \<and> list_all valueByte v \<and> trimmed v)"

definition lineOk :: "header \<Rightarrow> bool" where
  "lineOk = (\<lambda>(m, t). list_all (\<lambda>b. scharGe b 33) m \<and> list_all (\<lambda>b. 32 < b) t \<and> take 1 t = [47])"

lemma trimValue_trimmed: "trimmed v \<Longrightarrow> trimValue (SP # v) = v"
proof (cases "v = []")
  case False
  assume "trimmed v"
  then have v: "\<not> hd v < 33" "\<not> last v < 33" using False by (simp_all add: trimmed_def)
  then have "dropWhile (\<lambda>b. b < 33) (rev v @ [SP]) = rev v @ [SP]"
    using False by (cases v rule: rev_cases) simp_all
  moreover have "dropWhile (\<lambda>b. b < 33) (SP # v) = v" using v False by (cases v) simp_all
  ultimately show ?thesis by (simp add: trimValue_def)
qed (simp add: trimValue_def)

lemma headersSpec_encode:
  assumes "hdrs \<noteq> []" and "length hdrs \<le> n" and "list_all fieldOk hdrs"
  shows "\<exists>ys. headersSpec n (concat (map fieldLine hdrs) @ CR # LF # rest) =
    (Complete (length (concat (map fieldLine hdrs)) + 2) (map (\<lambda>(k, v). (map lower k, v)) hdrs), ys)"
  using assms
proof (induction hdrs arbitrary: n)
  case Nil
  then show ?case by simp
next
  case (Cons f hdrs)
  obtain k v where f: "f = (k, v)" by (cases f)
  obtain m where n: "n = Suc m" using Cons.prems(2) by (cases n) simp_all
  have k: "\<forall>b\<in>set k. fieldByte b" and v: "\<forall>b\<in>set (SP # v). valueByte b" and t: "trimmed v"
    using Cons.prems(3) by (auto simp: f fieldOk_def list_all_iff valueByte_def)
  let ?s = "concat (map fieldLine hdrs) @ CR # LF # rest"
  have tx: "concat (map fieldLine (f # hdrs)) @ CR # LF # rest = k @ 58 # (SP # v) @ CR # LF # ?s"
    by (simp add: f fieldLine_def)
  note line = headersSpec_line [OF k v, of m ?s]
  have len: "length (concat (map fieldLine (f # hdrs))) = length k + length (SP # v) + 3 + length (concat (map fieldLine hdrs))"
    by (simp add: f fieldLine_def)
  show ?case
  proof (cases "hdrs = []")
    case True
    then show ?thesis unfolding n tx line
      by (simp add: Let_def trimValue_trimmed [OF t] f fieldLine_def)
  next
    case False
    obtain ys where ih: "headersSpec m ?s =
        (Complete (length (concat (map fieldLine hdrs)) + 2) (map (\<lambda>(k, v). (map lower k, v)) hdrs), ys)"
      using Cons.IH [of m] Cons.prems False n by auto
    obtain k2 v2 fs where fs: "hdrs = (k2, v2) # fs" using False by (cases hdrs) auto
    have "k2 \<noteq> [] \<Longrightarrow> fieldByte (hd k2)" using Cons.prems(3) by (auto simp: fs fieldOk_def list_all_iff)
    then have "hd ?s \<noteq> CR" using fieldByte_colon by (cases k2) (auto simp: fs fieldLine_def)
    moreover have "?s \<noteq> []" "?s \<noteq> [CR]" by (simp_all add: fs fieldLine_def Cons_eq_append_conv append_eq_Cons_conv)
    ultimately show ?thesis unfolding n tx line Let_def ih len
      by (simp add: trimValue_trimmed [OF t, simplified] f)
  qed
qed

lemma encodeHead_line:
  assumes "lineOk line"
  shows "\<exists>n. lineSpec (encodeHead line hdrs @ rest) = Line line n \<and>
    drop n (encodeHead line hdrs @ rest) = concat (map fieldLine hdrs) @ CR # LF # rest \<and>
    length (encodeHead line hdrs) = n + (length (concat (map fieldLine hdrs)) + 2) \<and>
    proxyParse (encodeHead line hdrs @ rest) pp = ((True, 0), pp)"
proof -
  obtain m t where l: "line = (m, t)" by (cases line)
  let ?s = "concat (map fieldLine hdrs) @ CR # LF # rest"
  let ?n = "length m + 1 + length t + 11"
  have ok: "\<forall>b\<in>set m. scharGe b 33" "\<forall>b\<in>set t. 32 < b" "take 1 t = [47]"
    using assms(1) by (auto simp: l lineOk_def list_all_iff)
  then obtain t' where t: "t = 47 # t'" by (cases t) auto
  have xs: "encodeHead line hdrs @ rest = (m @ SP # t @ httpVersion) @ ?s" by (simp add: encodeHead_def l)
  have pre: "length (m @ SP # t @ httpVersion) = ?n" by (simp add: length_httpVersion)
  have "take 4 ((m @ SP # t @ httpVersion) @ ?s) \<noteq> [CR, LF, CR, LF]"
    using ok(1) by (cases m) (auto simp: scharGe_def)
  then have "proxyParse (encodeHead line hdrs @ rest) pp = ((True, 0), pp)"
    unfolding xs by (rule proxyParse_http) (simp add: length_httpVersion)
  moreover have "lineSpec (encodeHead line hdrs @ rest) = Line (m, t) ?n"
    unfolding xs lineSpec_Line_iff using ok t by auto
  then have "lineSpec (encodeHead line hdrs @ rest) = Line line ?n" unfolding l .
  moreover have "drop ?n (encodeHead line hdrs @ rest) = ?s"
    unfolding xs pre [symmetric] by (metis append_eq_conv_conj)
  moreover have "length (encodeHead line hdrs) = ?n + (length (concat (map fieldLine hdrs)) + 2)"
    by (simp add: encodeHead_def l length_httpVersion)
  ultimately show ?thesis by blast
qed

theorem headSpec_encode:
  assumes "lineOk line" and "hdrs \<noteq> []" and "length hdrs \<le> UWS_HTTP_MAX_HEADERS_COUNT - 2"
    and "list_all fieldOk hdrs"
  shows "\<exists>ys. headSpec (encodeHead line hdrs @ rest) pp =
    ((Complete (length (encodeHead line hdrs)) (line # map (\<lambda>(k, v). (map lower k, v)) hdrs), ys), pp)"
  using encodeHead_line [OF assms(1), of hdrs rest pp] headersSpec_encode [OF assms(2-4), of rest]
  by (auto simp: headSpec_def)

section \<open>Proper prefixes of a head\<close>

lemma append_prefix_cases:
  assumes "A @ B = P @ Q"
  shows "(\<exists>A2. P = A @ A2 \<and> A2 \<noteq> []) \<or> (\<exists>S. A = P @ S \<and> S @ B = Q)"
  using assms by (fastforce simp: append_eq_append_conv2)

lemma takeWhile_all: "\<forall>x\<in>set (A @ C). P x \<Longrightarrow> takeWhile P A = A \<and> dropWhile P A = []"
  by (simp add: takeWhile_eq_all_conv dropWhile_eq_Nil_conv)

lemma lineSpec_prefix_TryAgain:
  assumes "lineSpec (A @ B) = Line h n" and "length A \<le> n"
  shows "lineSpec A = TryAgain"
proof -
  obtain m t where h: "h = (m, t)" by (cases h)
  obtain C where AB: "A @ B = m @ (SP # t @ httpVersion @ C)"
    and m: "\<forall>b\<in>set m. scharGe b 33" and t: "\<forall>b\<in>set t. 32 < b" "\<exists>t'. t = 47 # t'"
    and n: "n = length m + 1 + length t + 11"
    using assms(1) unfolding h lineSpec_Line_iff by auto
  have sp: "\<not> scharGe SP 33" "\<not> (32 :: byte) < SP" by (simp_all add: scharGe_def)
  from append_prefix_cases [OF AB] show ?thesis
  proof (elim disjE exE conjE)
    fix A2 assume "m = A @ A2"
    then have "dropWhile (\<lambda>b. scharGe b 33) A = []" using takeWhile_all [of A A2 "\<lambda>b. scharGe b 33"] m by simp
    then show ?thesis by (simp add: lineSpec_def Let_def)
  next
    fix S assume A: "A = m @ S" and S: "S @ B = SP # t @ httpVersion @ C"
    show ?thesis
    proof (cases S)
      case Nil
      then have "dropWhile (\<lambda>b. scharGe b 33) A = []" using takeWhile_all [of A "[]" "\<lambda>b. scharGe b 33"] m A by simp
      then show ?thesis by (simp add: lineSpec_def Let_def)
    next
      case (Cons b S1)
      then have b: "S = SP # S1" and S1: "S1 @ B = t @ (httpVersion @ C)" using S by simp_all
      have rest: "dropWhile (\<lambda>b. scharGe b 33) A = SP # S1"
        unfolding A b by (rule takeWhile_append_stop) (use m sp in auto)
      show ?thesis
      proof (cases "S1 = []")
        case True
        then show ?thesis using rest by (simp add: lineSpec_def Let_def)
      next
        case False
        have "hd S1 = hd t" using S1 False t(2) by (cases S1) auto
        then have slash: "(SP # S1) ! 1 = 47" using False t(2) by (cases S1) auto
        from append_prefix_cases [OF S1] show ?thesis
        proof (elim disjE exE conjE)
          fix A2 assume "t = S1 @ A2"
          then have "dropWhile (\<lambda>b. 32 < b) S1 = []" using takeWhile_all [of S1 A2 "\<lambda>b. 32 < b"] t(1) by simp
          then show ?thesis using rest slash False by (simp add: lineSpec_def Let_def)
        next
          fix V assume V: "S1 = t @ V" "V @ B = httpVersion @ C"
          have vlen: "length V \<le> 11" using assms(2) unfolding n A b V(1) by simp
          have v: "V = take (length V) httpVersion"
            using V(2) vlen by (metis append_eq_conv_conj length_httpVersion take_append take_all diff_is_0_eq take0 append_Nil2)
          have "dropWhile (\<lambda>b. 32 < b) S1 = V"
          proof (cases V)
            case Nil
            then show ?thesis using takeWhile_all [of S1 "[]" "\<lambda>b. 32 < b"] t(1) V(1) by simp
          next
            case (Cons x V')
            then have "x = SP" using v by (simp add: httpVersion_def)
            then show ?thesis unfolding V(1) Cons by (intro takeWhile_append_stop) (use t(1) sp in auto)
          qed
          then show ?thesis using rest slash False v vlen by (simp add: lineSpec_def Let_def)
        qed
      qed
    qed
  qed
qed

lemma headersSpec_prefix_Incomplete:
  "headersSpec n (A @ B) = (Complete c hs, ys) \<Longrightarrow> length A < c \<Longrightarrow> fst (headersSpec n A) = Incomplete"
proof (induction n arbitrary: A c hs ys)
  case 0
  then show ?case by simp
next
  case (Suc n)
  from Suc.prems(1) obtain m name v s where l: "Suc n = Suc m" "A @ B = name @ 58 # v @ CR # LF # s"
    "\<forall>b\<in>set name. fieldByte b" "\<forall>b\<in>set v. valueByte b"
    and more: "(\<exists>s'. s = CR # LF # s') \<and> c = length name + length v + 5 \<and> hs = [(map lower name, trimValue v)] \<or>
     s \<noteq> [] \<and> hd s \<noteq> CR \<and>
       (\<exists>c' hs' s'. headersSpec m s = (Complete c' hs', s') \<and> c = length name + length v + 3 + c' \<and>
          hs = (map lower name, trimValue v) # hs')"
    by (rule headersSpec_Complete) blast
  have m: "m = n" using l(1) by simp
  from append_prefix_cases [OF l(2)] show ?case
  proof (elim disjE exE conjE)
    fix A2 assume "name = A @ A2"
    then have "dropWhile fieldByte A = []" using takeWhile_all [of A A2 fieldByte] l(3) by simp
    then show ?thesis by (simp add: headersSpec.simps)
  next
    fix S assume A: "A = name @ S" and S: "S @ B = 58 # v @ CR # LF # s"
    show ?thesis
    proof (cases S)
      case Nil
      then have "dropWhile fieldByte A = []" using takeWhile_all [of A "[]" fieldByte] l(3) A by simp
      then show ?thesis by (simp add: headersSpec.simps)
    next
      case (Cons b W)
      then have b: "S = 58 # W" and W: "W @ B = v @ CR # LF # s" using S by simp_all
      have rest: "dropWhile fieldByte A = 58 # W"
        unfolding A b by (rule takeWhile_append_stop) (use l(3) fieldByte_colon in auto)
      from append_prefix_cases [OF W] show ?thesis
      proof (elim disjE exE conjE)
        fix A2 assume "v = W @ A2"
        then have "dropWhile valueByte W = []" using takeWhile_all [of W A2 valueByte] l(4) by simp
        then show ?thesis using rest by (simp add: headersSpec.simps)
      next
        fix V assume V: "W = v @ V" "V @ B = CR # LF # s"
        consider "V = []" | "V = [CR]" | S2 where "V = CR # LF # S2" "S2 @ B = s"
          using V(2) by (cases V; cases "tl V") auto
        then show ?thesis
        proof cases
          case 1
          then have "dropWhile valueByte W = []" using takeWhile_all [of W "[]" valueByte] l(4) V(1) by simp
          then show ?thesis using rest by (simp add: headersSpec.simps)
        next
          case 2
          then have "dropWhile valueByte W = [CR]"
            unfolding V(1) 2 by (intro takeWhile_append_stop) (use l(4) valueByte_CR in auto)
          then show ?thesis using rest by (simp add: headersSpec.simps)
        next
          case 3
          have A': "A = name @ 58 # v @ CR # LF # S2" using A b V(1) 3(1) by simp
          note line = headersSpec_line [OF l(3,4), of n S2, folded A']
          show ?thesis
          proof (cases "S2 = [] \<or> S2 = [CR]")
            case True
            then show ?thesis unfolding line by (auto simp: Let_def)
          next
            case False
            then have hd: "hd S2 = hd s" and len: "length A = length name + length v + 3 + length S2"
              using 3(2) A' by (auto simp: hd_append)
            have "2 \<le> length S2" if "hd S2 = CR" using False that by (cases S2; cases "tl S2") auto
            then have "hd s \<noteq> CR" using more hd len Suc.prems(2) by auto
            then obtain c' hs' s' where r: "headersSpec n (S2 @ B) = (Complete c' hs', s')" "c = length name + length v + 3 + c'"
              using more 3(2) m by auto
            then have "fst (headersSpec n S2) = Incomplete" using Suc.IH [OF r(1)] len Suc.prems(2) by simp
            then show ?thesis unfolding line using False hd \<open>hd s \<noteq> CR\<close>
              by (auto simp: Let_def split: prod.splits headResult.splits)
          qed
        qed
      qed
    qed
  qed
qed

lemma headSpec_prefix_Incomplete:
  assumes "headSpec (A @ B) pp = ((Complete c hs, ys), pp')" and "length A < c"
  shows "fst (fst (headSpec A pp)) = Incomplete"
proof -
  obtain off h n c' hs' zs where p: "proxyParse (A @ B) pp = ((True, off), pp')"
    and l: "lineSpec (drop off (A @ B)) = Line h n"
    and f: "headersSpec (UWS_HTTP_MAX_HEADERS_COUNT - 2) (drop (off + n) (A @ B)) = (Complete c' hs', zs)"
    and c: "c = off + n + c'"
    using assms(1) unfolding headSpec_def
    by (auto split: prod.splits bool.splits requestLine.splits headResult.splits)
  obtain ok k q where pA: "proxyParse A pp = ((ok, k), q)" by (metis surj_pair)
  show ?thesis
  proof (cases ok)
    case False
    then show ?thesis using pA by (simp add: headSpec_def)
  next
    case True
    then have k: "k = off" "q = pp'" using proxyParse_prefix [of A pp k q B] pA p by simp_all
    have off: "off \<le> length A" using proxyParse_consumed [OF pA] k by simp
    show ?thesis
    proof (cases "length A \<le> off + n")
      case le: True
      have "lineSpec (drop off A) = TryAgain"
        by (rule lineSpec_prefix_TryAgain [of _ B h n]) (use l off le in simp_all)
      then show ?thesis using pA True k by (simp add: headSpec_def)
    next
      case gt: False
      have "lineSpec (drop off A) = Line h n"
        by (rule lineSpec_cut [of _ B]) (use l off gt in simp_all)
      moreover have "fst (headersSpec (UWS_HTTP_MAX_HEADERS_COUNT - 2) (drop (off + n) A)) = Incomplete"
        by (rule headersSpec_prefix_Incomplete [of _ _ B c' hs' zs]) (use f gt c assms(2) in simp_all)
      ultimately show ?thesis using pA True k
        by (auto simp: headSpec_def split: prod.splits headResult.splits)
    qed
  qed
qed

section \<open>Properties\<close>

text \<open>
  The fast loop over the letters of a field name, with its shortcuts for hyphens and colons, does
  what the generic loop does one byte at a time.
\<close>

theorem consumeFieldName_is_generic_loop: "consumeFieldName mem p = genericRun mem p"
  by (simp add: consumeFieldName_def fastFieldName_generic)

text \<open>
  C2. On a fenced buffer with its padding the pointer program that parses a head, eight bytes at a
  time and without looking for the end of the text, stays inside the buffer and computes what the
  reference computes from the text alone: the same result, the same rewritten text, and nothing
  around it touched.
\<close>

theorem getHeaders_refines_reference:
  assumes "6 \<le> length post"
  shows "getHeaders (pre @ xs @ fence post) (length pre) (length pre + length xs) pp =
    (case headSpec xs pp of ((r, ys), pp') \<Rightarrow> Some ((pre @ ys @ fence post, pp'), r)) \<and>
    length (snd (fst (headSpec xs pp))) = length xs"
proof -
  obtain r ys pp' where h: "headSpec xs pp = ((r, ys), pp')" by (metis surj_pair)
  then show ?thesis
    using getHeaders_spec [OF assms, of pre xs pp] lowered_length [OF headSpec_lowered [OF h]] by simp
qed

lemma getHeaders_refines_reference_witness:
  "getHeaders ([7] @ ascii ''GET / H'' @ fence (replicate 6 0)) 1 8 freshProxy =
     Some (([7] @ ascii ''GET / H'' @ fence (replicate 6 0), freshProxy), Incomplete)"
proof -
  have p: "proxyParse (ascii ''GET / H'') freshProxy = ((True, 0), freshProxy)" by (rule proxyParse_http) simp_all
  have "lineSpec (ascii ''GET / H'') = TryAgain" by (simp add: lineSpec_def scharGe_def httpVersion_def)
  then have "headSpec (ascii ''GET / H'') freshProxy = ((Incomplete, ascii ''GET / H''), freshProxy)"
    using p by (simp add: headSpec_def)
  then show ?thesis
    using getHeaders_refines_reference [of "replicate 6 0" "[7]" "ascii ''GET / H''" freshProxy]
    by (simp add: eval_nat_numeral)
qed

end
