(* ===== verification/HttpParserSafety.thy ===== *)
theory HttpParserSafety
  imports HttpParser HttpHeadText
begin

text \<open>
  The request parser keeps inside its buffers and keeps its state well formed: a head in the fallback
  buffer is incomplete and no body is being read while there is one.
\<close>

section \<open>Content-Length\<close>

definition decimal :: "bytes \<Rightarrow> nat" where
  "decimal = foldl (\<lambda>n c. 10 * n + (unat c - 48)) 0"

abbreviation digit :: "byte \<Rightarrow> bool" where "digit c \<equiv> 48 \<le> c \<and> c \<le> 57"

abbreviation addDigit :: "byte \<Rightarrow> u64 option \<Rightarrow> u64 option" where
  "addDigit c r \<equiv> (case r of
     None \<Rightarrow> None
   | Some v \<Rightarrow> if c < 48 \<or> \<not> c \<le> 57 then None else Some (v * 10 + (ucast c - 48)))"

lemma addDigit_value:
  assumes "digit c" and "unat v < 10 ^ n" and "n < 18"
  shows "unat (v * 10 + (ucast c - 48 :: u64)) = 10 * unat v + (unat c - 48)" "10 * unat v + (unat c - 48) < 10 ^ Suc n"
proof -
  have c: "48 \<le> unat c" "unat c \<le> 57" using assms(1) by (simp_all add: word_le_nat_alt)
  show less: "10 * unat v + (unat c - 48) < 10 ^ Suc n" using assms(2) c by simp
  have "(10 :: nat) ^ Suc n \<le> 10 ^ 18" using assms(3) by (intro power_increasing) simp_all
  then have small: "10 * unat v + (unat c - 48) < 2 ^ 64" using less by simp
  have "v * 10 + (ucast c - 48) = of_nat (10 * unat v + (unat c - 48))"
    using c by (simp add: of_nat_diff mult.commute)
  then show "unat (v * 10 + (ucast c - 48 :: u64)) = 10 * unat v + (unat c - 48)"
    using small by (simp only: unat_of_nat_u64)
qed

lemma fold_addDigit:
  assumes "n + length str \<le> 18" and "unat v < 10 ^ n"
  shows "fold addDigit str (Some v) =
      (if \<forall>c\<in>set str. digit c then Some (of_nat (foldl (\<lambda>n c. 10 * n + (unat c - 48)) (unat v) str)) else None)
    \<and> ((\<forall>c\<in>set str. digit c) \<longrightarrow> foldl (\<lambda>n c. 10 * n + (unat c - 48)) (unat v) str < 10 ^ (n + length str))"
  using assms
proof (induction str arbitrary: v n)
  case Nil
  then show ?case by simp
next
  case (Cons c str)
  show ?case
  proof (cases "digit c")
    case True
    note d = addDigit_value [OF True Cons.prems(2)]
    have n: "n < 18" using Cons.prems(1) by simp
    have ge: "\<not> c < 48" using True by (simp add: not_less)
    have step: "addDigit c (Some v) = Some (v * 10 + (ucast c - 48))" using True ge by simp
    have "unat (v * 10 + (ucast c - 48 :: u64)) < 10 ^ Suc n" using d [OF n] by simp
    from Cons.IH [OF _ this] show ?thesis
      using Cons.prems(1) True ge by (simp add: d(1) [OF n] step)
  next
    case False
    have none: "fold addDigit str None = None" by (induction str) simp_all
    have "addDigit c (Some v) = None" using False by auto
    then show ?thesis using False none by auto
  qed
qed

lemma toUnsignedInteger_value:
  "toUnsignedInteger str =
     (if length str \<le> 18 \<and> (\<forall>c\<in>set str. digit c) then of_nat (decimal str) else UINT64_MAX)"
  using fold_addDigit [of 0 str 0] by (simp add: toUnsignedInteger_def decimal_def)

lemma decimal_less:
  assumes "length str \<le> 18" and "\<forall>c\<in>set str. digit c"
  shows "decimal str < 10 ^ length str" "decimal str < 2 ^ 60"
proof -
  show less: "decimal str < 10 ^ length str" using fold_addDigit [of 0 str 0] assms by (simp add: decimal_def)
  have "(10 :: nat) ^ length str \<le> 10 ^ 18" using assms(1) by (intro power_increasing) simp_all
  then show "decimal str < 2 ^ 60" using less by simp
qed

lemma toUnsignedInteger_cases:
  "toUnsignedInteger str = UINT64_MAX \<or> unat (toUnsignedInteger str) < 2 ^ 60"
proof (cases "length str \<le> 18 \<and> (\<forall>c\<in>set str. digit c)")
  case True
  then have "decimal str < 2 ^ 60" using decimal_less by blast
  then show ?thesis using True by (simp add: toUnsignedInteger_value)
next
  case False
  then show ?thesis unfolding toUnsignedInteger_value by (simp only: if_False simp_thms)
qed

section \<open>States the decoder leaves\<close>

text \<open>
  A size line of fifteen digits f carries into the trailer bit and leaves a state the decoder does
  not move from; see \<open>ChunkedEncoding\<close>.
\<close>

definition carried :: "u64 \<Rightarrow> bool" where
  "carried state \<longleftrightarrow> state AND STATE_IS_TRAILER \<noteq> 0 \<and> state \<noteq> STATE_IS_TRAILER \<and> state \<noteq> STATE_IS_ERROR"

lemma error_trailer: "STATE_IS_ERROR AND STATE_IS_TRAILER \<noteq> 0"
  by (simp add: chunk_flag_defs)

lemma getNextChunk_stops:
  "getNextChunk data state = Some (None, data', state') \<Longrightarrow> data' = [] \<or> state' AND STATE_IS_TRAILER \<noteq> 0"
proof (induction "length data" arbitrary: data state rule: less_induct)
  case less
  consider (nil) "data = []" | (trailer) "state AND STATE_IS_TRAILER \<noteq> 0"
    | (line) "data \<noteq> []" "state AND STATE_IS_TRAILER = 0" "\<not> hasChunkSize state"
    | (whole) "data \<noteq> []" "state AND STATE_IS_TRAILER = 0" "hasChunkSize state"
        "unat (chunkSize state) \<le> length data"
    | (part) "data \<noteq> []" "state AND STATE_IS_TRAILER = 0" "hasChunkSize state"
        "length data < unat (chunkSize state)"
    by linarith
  then show ?case
  proof cases
    case nil
    with less.prems show ?thesis by (simp add: getNextChunk_Nil)
  next
    case trailer
    with less.prems show ?thesis by (simp add: getNextChunk_trailer)
  next
    case line
    obtain d s where chn: "consumeHexNumber data state = (d, s)" by fastforce
    show ?thesis
    proof (cases "s = STATE_IS_ERROR")
      case True
      with less.prems line chn show ?thesis
        by (auto simp: getNextChunk_line isParsingInvalidChunkedEncoding_def error_trailer)
    next
      case False
      then have "length d < length data" using consumeHexNumber_progress [of data state] line chn by simp
      with less.hyps [of d s] less.prems line chn False show ?thesis
        by (auto simp: getNextChunk_line isParsingInvalidChunkedEncoding_def split: if_splits)
    qed
  next
    case whole
    define n where "n = unat (chunkSize state)"
    have "length (drop n data) < length data" if "n \<noteq> 0" using whole(1) that by simp
    then have ih: "n \<noteq> 0 \<Longrightarrow> getNextChunk (drop n data) STATE_IS_CHUNKED = Some (None, data', state') \<Longrightarrow>
        data' = [] \<or> state' AND STATE_IS_TRAILER \<noteq> 0"
      using less.hyps by blast
    show ?thesis
      using less.prems ih whole(4) getNextChunk_whole [OF whole(1-3) n_def] unfolding n_def [symmetric]
      by (auto simp: error_trailer simp del: drop_eq_Nil split: if_splits)
  next
    case part
    with less.prems show ?thesis
      by (auto simp: getNextChunk_part [OF _ _ _ refl] error_trailer split: if_splits)
  qed
qed

lemma chunkBody_safe:
  assumes "chunk_inv state" and "length data < 2 ^ 32"
  shows "\<exists>d s u' same. chunkBody cb data state u = Some (d, s, u', same) \<and> chunk_inv s \<and>
    length d \<le> length data \<and> (same \<longrightarrow> d = [] \<or> s AND STATE_IS_TRAILER \<noteq> 0)"
  using assms
proof (induction "length data" arbitrary: data state u rule: less_induct)
  case less
  then obtain c d s where g: "getNextChunk data state = Some (c, d, s)" and inv: "chunk_inv s"
    and le: "length d \<le> length data"
    using getNextChunk_safe by blast
  show ?case
  proof (cases c)
    case None
    with g inv le getNextChunk_stops [of data state d s] show ?thesis
      by (simp add: chunkBody.simps [of cb data] ex_bool_eq)
  next
    case (Some chunk)
    with g have short: "length d < length data" by (simp add: getNextChunk_progress)
    with less.prems(2) have len: "length d < 2 ^ 32" by simp
    obtain u1 same where r: "onData cb u chunk (if chunk \<noteq> [] then UINT64_MAX else 0) = (u1, same)" by fastforce
    from less.hyps [OF short inv len, of u1] obtain d' s' u' same'
      where ih: "chunkBody cb d s u1 = Some (d', s', u', same')" "chunk_inv s'" "length d' \<le> length d"
        "same' \<longrightarrow> d' = [] \<or> s' AND STATE_IS_TRAILER \<noteq> 0" by blast
    show ?thesis using g Some inv r le ih by (cases same) (simp_all add: chunkBody.simps [of cb data] ex_bool_eq)
  qed
qed

lemma consumeChunkedTrailer_other:
  "s \<noteq> STATE_IS_TRAILER \<Longrightarrow> consumeChunkedTrailer data s t = (data, s, t)"
  by (cases data) simp_all

lemma consumeChunkedTrailer_result:
  assumes "consumeChunkedTrailer data STATE_IS_TRAILER t = (d, s, t')"
  shows "length d \<le> length data \<and> (s = 0 \<or> s = STATE_IS_TRAILER \<and> d = [])"
  using assms
proof (induction data arbitrary: t)
  case Nil
  then show ?case by simp
next
  case (Cons c data)
  from Cons.prems show ?case by (auto split: if_splits dest!: Cons.IH)
qed

section \<open>The parser stays inside its buffers\<close>

text \<open>
  A move inside the segment: the text that is left shrinks from the front, and nothing but the
  streaming state and the connection changes.
\<close>

definition moved :: "'u httpCursor \<Rightarrow> 'u httpCursor \<Rightarrow> bool" where
  "moved c c' \<longleftrightarrow> hmem c' = hmem c \<and> hproxy c' = hproxy c \<and> fallback (hparser c') = fallback (hparser c) \<and>
     (\<exists>k\<le>hlen c. hpos c' = hpos c + k \<and> hlen c' = hlen c - k)"

abbreviation remaining :: "'u httpCursor \<Rightarrow> u64" where
  "remaining c \<equiv> remainingStreamingBytes (hparser c)"

text \<open>No body is being read when there is more text to parse, unless the decoder is stuck.\<close>

definition between :: "'u httpCursor \<Rightarrow> bool" where
  "between c \<longleftrightarrow> chunk_inv (remaining c) \<and> (hlen c \<noteq> 0 \<longrightarrow> remaining c = 0 \<or> carried (remaining c))"

definition inBounds :: "'u httpCursor \<Rightarrow> bool" where
  "inBounds c \<longleftrightarrow> hpos c + hlen c \<le> length (hmem c) \<and> length (hmem c) < 2 ^ 32"

lemma moved_refl: "moved c c"
  by (auto simp: moved_def)

lemma moved_trans: "moved a b \<Longrightarrow> moved b c \<Longrightarrow> moved a c"
proof -
  assume ab: "moved a b" and bc: "moved b c"
  obtain k where k: "k \<le> hlen a" "hpos b = hpos a + k" "hlen b = hlen a - k" using ab by (auto simp: moved_def)
  obtain l where l: "l \<le> hlen b" "hpos c = hpos b + l" "hlen c = hlen b - l" using bc by (auto simp: moved_def)
  have "k + l \<le> hlen a \<and> hpos c = hpos a + (k + l) \<and> hlen c = hlen a - (k + l)" using k l by simp
  then show ?thesis using ab bc unfolding moved_def by (intro conjI exI [of _ "k + l"]) simp_all
qed

lemma moved_inBounds: "moved c c' \<Longrightarrow> inBounds c \<Longrightarrow> inBounds c'"
  by (auto simp: moved_def inBounds_def)

lemma chunk_inv_0: "chunk_inv 0"
  by (simp add: chunk_inv_def hasChunkSize_def)

lemma chunk_inv_size: "unat r < 2 ^ 60 \<Longrightarrow> chunk_inv r"
proof -
  assume "unat r < 2 ^ 60"
  then have "\<not> bit r 63" using low_bits [of "unat r" 63] by simp
  then show ?thesis by (simp add: chunk_inv_def has_size_bit)
qed

lemma chunk_inv_chunked: "chunk_inv STATE_IS_CHUNKED"
  by (simp add: chunk_inv_def has_size_bit bit_of_flag)

lemma chunk_inv_trailer: "chunk_inv STATE_IS_TRAILER"
  by (simp add: chunk_inv_def has_size_bit bit_of_flag)

lemma rdN_inBounds: "inBounds c \<Longrightarrow> k \<le> hlen c \<Longrightarrow> rdN (hmem c) (hpos c) k = Some (take k (drop (hpos c) (hmem c)))"
  by (simp add: rdN_def inBounds_def)

lemma consumeChunked_safe:
  assumes "inBounds c" and "chunk_inv (remaining c)"
  shows "\<exists>c' v. consumeChunked cb c = Some (c', v) \<and> moved c c' \<and> (v = GoAhead \<longrightarrow> between c')"
proof -
  let ?data = "take (hlen c) (drop (hpos c) (hmem c))"
  have len: "length ?data = hlen c" "length ?data < 2 ^ 32" using assms(1) by (auto simp: inBounds_def min_def)
  obtain d s u same where b: "chunkBody cb ?data (remaining c) (huser c) = Some (d, s, u, same)"
    and inv: "chunk_inv s" and le: "length d \<le> length ?data" and stop: "same \<longrightarrow> d = [] \<or> s AND STATE_IS_TRAILER \<noteq> 0"
    using chunkBody_safe [OF assms(2) len(2), of cb "huser c"] by blast
  obtain d' s' t where t: "consumeChunkedTrailer d s (trailerTail (hparser c)) = (d', s', t)"
    by (metis prod_cases3)
  have tr: "length d' \<le> length d \<and> chunk_inv s' \<and> (same \<and> s' \<noteq> STATE_IS_ERROR \<and> d' \<noteq> [] \<longrightarrow> s' = 0 \<or> carried s')"
  proof (cases "s = STATE_IS_TRAILER")
    case True
    then show ?thesis using consumeChunkedTrailer_result [of d "trailerTail (hparser c)" d' s' t] t
      by (auto simp: chunk_inv_0 chunk_inv_trailer)
  next
    case False
    then have "d' = d" "s' = s" using t by (simp_all add: consumeChunkedTrailer_other)
    then show ?thesis using inv stop False by (auto simp: carried_def)
  qed
  have rdd: "rdN (hmem c) (hpos c) (hlen c) = Some ?data" using rdN_inBounds [OF assms(1)] by simp
  show ?thesis
  proof (cases same)
    case False
    then show ?thesis using rdd b by (auto simp: consumeChunked_def Let_def moved_def)
  next
    case True
    show ?thesis
    proof (cases "s' = STATE_IS_ERROR")
      case True
      then show ?thesis using \<open>same\<close> rdd b t
        by (auto simp: consumeChunked_def Let_def moved_def isParsingInvalidChunkedEncoding_def)
    next
      case False
      let ?k = "hlen c - length d'"
      have k: "length d' \<le> hlen c" using tr le len by simp
      then show ?thesis using \<open>same\<close> False rdd b t tr len(1)
        by (auto simp: consumeChunked_def Let_def moved_def isParsingInvalidChunkedEncoding_def advance_def
            between_def intro!: exI [of _ ?k])
    qed
  qed
qed

text \<open>A body of known length.\<close>

lemma minus_of_nat:
  "n \<le> unat r \<Longrightarrow> unat (r - of_nat n :: u64) = unat r - n"
proof -
  assume n: "n \<le> unat r"
  have "of_nat n + of_nat (unat r - n) = (of_nat (n + (unat r - n)) :: u64)" by (rule of_nat_add [symmetric])
  also have "\<dots> = r" unfolding le_add_diff_inverse [OF n] by (rule of_nat_unat_id)
  finally have "r - of_nat n = of_nat (unat r - n)" by (metis add_diff_cancel_left')
  moreover have "unat r < 2 ^ LENGTH(64)" by (rule unsigned_less)
  then have "unat r - n < 2 ^ 64" by simp
  ultimately show ?thesis by (simp only: unat_of_nat_u64)
qed

lemma startBody_safe:
  assumes "inBounds c" and "chunk_inv (remaining c)" and "hlen c \<noteq> 0 \<longrightarrow> remaining c = 0 \<or> carried (remaining c)"
  shows "\<exists>c' v. startBody minimally cb req c = Some (c', v) \<and> moved c c' \<and>
    (v = GoAhead \<longrightarrow> chunk_inv (remaining c') \<and> (\<not> minimally \<longrightarrow> between c') \<and> (minimally \<longrightarrow> hpos c' = hpos c \<and> hlen c' = hlen c))"
proof -
  consider (te) "valueLength (getHeader transferEncodingKey req) \<noteq> 0"
    | (cl) "valueLength (getHeader transferEncodingKey req) = 0" "valueLength (getHeader contentLengthKey req) \<noteq> 0"
    | (none) "valueLength (getHeader transferEncodingKey req) = 0" "valueLength (getHeader contentLengthKey req) = 0"
    by blast
  then show ?thesis
  proof cases
    case te
    let ?c = "c\<lparr>hparser := (hparser c)\<lparr>remainingStreamingBytes := STATE_IS_CHUNKED, trailerTail := 0\<rparr>\<rparr>"
    have bc: "inBounds ?c" "chunk_inv (remaining ?c)" using assms(1) by (simp_all add: inBounds_def chunk_inv_chunked)
    obtain c' v where r: "consumeChunked cb ?c = Some (c', v)" "moved ?c c'" "v = GoAhead \<longrightarrow> between c'"
      using consumeChunked_safe [OF bc, of cb] by blast
    have m: "moved c ?c" by (auto simp: moved_def)
    show ?thesis
    proof (cases minimally)
      case True
      then show ?thesis using te m bc(2) by (auto simp: startBody_def Let_def)
    next
      case False
      then show ?thesis using te r moved_trans [OF m r(2)] by (auto simp: startBody_def Let_def between_def)
    qed
  next
    case cl
    let ?r = "toUnsignedInteger (the (getHeader contentLengthKey req))"
    show ?thesis
    proof (cases "?r = UINT64_MAX")
      case True
      then show ?thesis using cl by (auto simp: startBody_def Let_def moved_def)
    next
      case False
      then have small: "unat ?r < 2 ^ 60" using toUnsignedInteger_cases by blast
      show ?thesis
      proof (cases minimally)
        case True
        then show ?thesis using cl False small
          by (auto simp: startBody_def Let_def moved_def chunk_inv_size split: prod.splits)
      next
        case nm: False
        let ?n = "min (unat ?r) (hlen c)"
        have rd: "rdN (hmem c) (hpos c) ?n = Some (take ?n (drop (hpos c) (hmem c)))"
          using rdN_inBounds [OF assms(1), of ?n] by simp
        obtain u same where d: "onData cb (huser c) (take ?n (drop (hpos c) (hmem c))) (?r - of_nat ?n) = (u, same)"
          by fastforce
        have rest: "unat (?r - of_nat ?n) = unat ?r - ?n" by (rule minus_of_nat) simp
        have "chunk_inv (?r - of_nat ?n)" using rest small by (intro chunk_inv_size) simp
        moreover have "?r - of_nat ?n = 0" if "hlen c - ?n \<noteq> 0"
          using rest that by (simp add: unat_eq_zero min_def split: if_splits)
        ultimately show ?thesis using cl False nm rd d
          by (auto simp: startBody_def Let_def moved_def advance_def between_def intro!: exI [of _ ?n])
      qed
    qed
  next
    case none
    then show ?thesis using assms
      by (auto simp: startBody_def Let_def moved_def between_def split: prod.splits)
  qed
qed

lemma not_chunked_small: "\<not> isParsingChunkedEncoding r \<Longrightarrow> unat r < 2 ^ 60"
proof -
  assume "\<not> isParsingChunkedEncoding r"
  then have "take_bit 60 r = r"
    by (intro bit_word_eqI) (auto simp: isParsingChunkedEncoding_def STATE_SIZE_MASK_mask bit_eq_iff bit_simps)
  moreover have "take_bit 60 (unat r) < 2 ^ 60" by (rule take_bit_nat_less_exp)
  ultimately show ?thesis by (metis unsigned_take_bit_eq)
qed

lemma consumeStreamingBody_safe:
  assumes "inBounds c" and "chunk_inv (remaining c)"
  shows "\<exists>c' r. consumeStreamingBody cb c = Some (c', r) \<and> moved c c' \<and>
    (r = None \<longrightarrow> between c') \<and> (r = Some GoAhead \<longrightarrow> chunk_inv (remaining c'))"
proof (cases "isParsingChunkedEncoding (remaining c)")
  case True
  obtain c' v where r: "consumeChunked cb c = Some (c', v)" "moved c c'" "v = GoAhead \<longrightarrow> between c'"
    using consumeChunked_safe [OF assms, of cb] by blast
  show ?thesis
    using r True by (cases "v = GoAhead") (simp_all add: consumeStreamingBody_def)
next
  case False
  note small = not_chunked_small [OF False]
  show ?thesis
  proof (cases "hlen c \<le> unat (remaining c)")
    case True
    have rd: "rdN (hmem c) (hpos c) (hlen c) = Some (take (hlen c) (drop (hpos c) (hmem c)))"
      using rdN_inBounds [OF assms(1)] by simp
    have "chunk_inv (remaining c - of_nat (hlen c))"
      using minus_of_nat [OF True] small by (intro chunk_inv_size) simp
    then show ?thesis using False True rd
      by (auto simp: consumeStreamingBody_def Let_def moved_def split: prod.splits)
  next
    case more: False
    have rd: "rdN (hmem c) (hpos c) (unat (remaining c)) = Some (take (unat (remaining c)) (drop (hpos c) (hmem c)))"
      using rdN_inBounds [OF assms(1)] more by simp
    then show ?thesis using False more
      by (auto simp: consumeStreamingBody_def Let_def moved_def advance_def between_def chunk_inv_0
          intro!: exI [of _ "unat (remaining c)"] split: prod.splits)
  qed
qed

text \<open>The text of a fenced segment, and what \<open>getHeaders\<close> does to it.\<close>

definition segText :: "'u httpCursor \<Rightarrow> bytes" where
  "segText c = take (hlen c) (drop (hpos c) (hmem c))"

definition fenced :: "'u httpCursor \<Rightarrow> bool" where
  "fenced c \<longleftrightarrow> length (hmem c) < 2 ^ 32 \<and>
     (\<exists>pre xs post. hmem c = pre @ xs @ fence post \<and> hpos c = length pre \<and> hlen c = length xs \<and> 6 \<le> length post)"

definition incompleteHead :: "bytes \<Rightarrow> bool" where
  "incompleteHead xs \<longleftrightarrow> fst (fst (headSpec xs freshProxy)) = Incomplete"

lemma fenced_inBounds: "fenced c \<Longrightarrow> inBounds c"
  by (auto simp: fenced_def inBounds_def)

lemma fenced_moved: "fenced c \<Longrightarrow> moved c c' \<Longrightarrow> fenced c'"
proof -
  assume f: "fenced c" and m: "moved c c'"
  obtain pre xs post where p: "hmem c = pre @ xs @ fence post" "hpos c = length pre" "hlen c = length xs" "6 \<le> length post"
    using f by (auto simp: fenced_def)
  obtain k where k: "k \<le> hlen c" "hpos c' = hpos c + k" "hlen c' = hlen c - k" and e: "hmem c' = hmem c"
    using m by (auto simp: moved_def)
  have "hmem c' = (pre @ take k xs) @ drop k xs @ fence post" using p e by simp
  moreover have "hpos c' = length (pre @ take k xs)" "hlen c' = length (drop k xs)" using p k by simp_all
  ultimately show ?thesis using f p(4) e unfolding fenced_def by metis
qed

lemma getHeaders_fenced:
  assumes "fenced c" and "headSpec (segText c) (hproxy c) = ((r, ys), pp)"
  shows "\<exists>mem. getHeaders (hmem c) (hpos c) (hpos c + hlen c) (hproxy c) = Some ((mem, pp), r) \<and>
    fenced (c\<lparr>hmem := mem, hproxy := pp\<rparr>) \<and> segText (c\<lparr>hmem := mem, hproxy := pp\<rparr>) = ys \<and>
    length mem = length (hmem c) \<and> take (hpos c) mem = take (hpos c) (hmem c)"
proof -
  obtain pre xs post where p: "hmem c = pre @ xs @ fence post" "hpos c = length pre" "hlen c = length xs" "6 \<le> length post"
    using assms(1) by (auto simp: fenced_def)
  have xs: "segText c = xs" using p by (simp add: segText_def)
  have len: "length ys = length xs" using lowered_length [OF headSpec_lowered [OF assms(2)]] xs by simp
  have "getHeaders (hmem c) (hpos c) (hpos c + hlen c) (hproxy c) = Some ((pre @ ys @ fence post, pp), r)"
    using getHeaders_spec [OF p(4), of pre xs "hproxy c"] assms(2) unfolding xs by (simp add: p(1-3))
  moreover have "fenced (c\<lparr>hmem := pre @ ys @ fence post, hproxy := pp\<rparr>)"
    unfolding fenced_def
    by (intro conjI exI [of _ pre] exI [of _ ys] exI [of _ post])
       (use assms(1) p len in \<open>auto simp: fenced_def\<close>)
  ultimately show ?thesis using p len by (auto simp: segText_def)
qed

lemma incompleteHead_any: "incompleteHead xs \<longleftrightarrow> fst (fst (headSpec xs pp)) = Incomplete"
  by (simp add: incompleteHead_def headSpec_proxy [of xs freshProxy pp])

lemma incompleteHead_again:
  "headSpec xs pp = ((Incomplete, ys), pp') \<Longrightarrow> incompleteHead ys"
  by (simp add: incompleteHead_any [of _ pp'] headSpec_again)

lemma handleHead_safe:
  assumes "inBounds c" and "n \<le> hlen c" and "chunk_inv (remaining c)" and "remaining c = 0 \<or> carried (remaining c)"
  shows "\<exists>c' v. handleHead minimally maxH cb n hs c = Some (c', v) \<and> moved c c' \<and>
    (v = GoAhead \<longrightarrow> chunk_inv (remaining c') \<and> (\<not> minimally \<longrightarrow> between c') \<and> (minimally \<longrightarrow> hpos c' = hpos c + n))"
proof -
  let ?c = "c\<lparr>hpos := hpos c + n, hlen := hlen c - n\<rparr>"
  have adv: "advance n c = Some ?c" using assms(2) by (simp add: advance_def)
  have m: "moved c ?c" using assms(2) by (auto simp: moved_def)
  show ?thesis
  proof (cases "n \<le> maxH \<and> checkRequest hs \<noteq> None")
    case False
    then show ?thesis using adv m by (auto simp: handleHead_def not_le split: option.splits)
  next
    case True
    then obtain req where req: "checkRequest hs = Some req" and n: "\<not> maxH < n" by auto
    obtain u same where cbk: "onRequest cb (huser c) req = (u, same)" by fastforce
    let ?c2 = "?c\<lparr>huser := u\<rparr>"
    have m2: "moved c ?c2" using m by (auto simp: moved_def)
    have inb: "inBounds ?c2" using moved_inBounds [OF m2 assms(1)] .
    obtain c' v where b: "startBody minimally cb req ?c2 = Some (c', v)" "moved ?c2 c'"
      "v = GoAhead \<longrightarrow> chunk_inv (remaining c') \<and> (\<not> minimally \<longrightarrow> between c') \<and>
         (minimally \<longrightarrow> hpos c' = hpos ?c2 \<and> hlen c' = hlen ?c2)"
      using startBody_safe [OF inb, of minimally cb req] assms(3,4) by auto
    show ?thesis
      using adv n req cbk b m2 moved_trans [OF m2 b(2)] by (cases same) (auto simp: handleHead_def)
  qed
qed

lemma requestLoop_safe:
  assumes "fenced c" and "between c"
  shows "\<exists>c' v. requestLoop False maxH cb c = Some (c', v) \<and> fallback (hparser c') = fallback (hparser c) \<and>
    (v = GoAhead \<longrightarrow> fenced c' \<and> between c' \<and> (hlen c' \<noteq> 0 \<longrightarrow> incompleteHead (segText c')))"
  using assms
proof (induction "hlen c" arbitrary: c rule: less_induct)
  case less
  show ?case
  proof (cases "hlen c = 0")
    case True
    then show ?thesis using less.prems by (simp add: requestLoop.simps [of _ _ _ c])
  next
    case False
    obtain r ys pp where h: "headSpec (segText c) (hproxy c) = ((r, ys), pp)" by (metis surj_pair)
    obtain mem where g: "getHeaders (hmem c) (hpos c) (hpos c + hlen c) (hproxy c) = Some ((mem, pp), r)"
      and f: "fenced (c\<lparr>hmem := mem, hproxy := pp\<rparr>)" "segText (c\<lparr>hmem := mem, hproxy := pp\<rparr>) = ys"
      using getHeaders_fenced [OF less.prems(1) h] by blast
    define c1 where "c1 = c\<lparr>hmem := mem, hproxy := pp\<rparr>"
    have same: "hlen c1 = hlen c" "hparser c1 = hparser c" by (simp_all add: c1_def)
    note f = f [folded c1_def]
    show ?thesis
    proof (cases r)
      case Incomplete
      then show ?thesis using False g f incompleteHead_again [of _ _ ys pp] h less.prems(2)
        by (auto simp: requestLoop.simps [of _ _ _ c] c1_def between_def)
    next
      case (Rejected e)
      then show ?thesis using False g by (simp add: requestLoop.simps [of _ _ _ c])
    next
      case (Complete n hs)
      have "length (segText c) \<le> hlen c" by (simp add: segText_def)
      then have n: "0 < n" "n \<le> hlen c1" using headSpec_le [OF h [unfolded Complete]] same by auto
      have st: "chunk_inv (remaining c1)" "remaining c1 = 0 \<or> carried (remaining c1)"
        using less.prems(2) False by (simp_all add: between_def same)
      obtain c' v where b: "handleHead False maxH cb n hs c1 = Some (c', v)" "moved c1 c'" "v = GoAhead \<longrightarrow> between c'"
        using handleHead_safe [OF fenced_inBounds [OF f(1)] n(2) st, of False maxH cb hs] by auto
      have fb: "fallback (hparser c') = fallback (hparser c)" using b(2) by (simp add: moved_def same)
      show ?thesis
      proof (cases "v = GoAhead")
        case True
        have "hlen c' < hlen c" using handleHead_hlen [OF b(1)] n same by simp
        then have "\<exists>c'' w. requestLoop False maxH cb c' = Some (c'', w) \<and> fallback (hparser c'') = fallback (hparser c') \<and>
            (w = GoAhead \<longrightarrow> fenced c'' \<and> between c'' \<and> (hlen c'' \<noteq> 0 \<longrightarrow> incompleteHead (segText c'')))"
          using less.hyps fenced_moved [OF f(1) b(2)] b(3) True by blast
        then show ?thesis using False g Complete n b True fb
          by (auto simp: requestLoop.simps [of _ _ _ c] c1_def)
      next
        case other: False
        then show ?thesis using False g Complete n b fb
          by (auto simp: requestLoop.simps [of _ _ _ c] c1_def)
      qed
    qed
  qed
qed

text \<open>Room for the fence and for the scans over words behind the segment.\<close>

definition padded :: "'u httpCursor \<Rightarrow> bool" where
  "padded c \<longleftrightarrow> hpos c + hlen c + 8 \<le> length (hmem c) \<and> length (hmem c) < 2 ^ 32"

lemma padded_inBounds: "padded c \<Longrightarrow> inBounds c"
  by (simp add: padded_def inBounds_def)

lemma padded_moved: "padded c \<Longrightarrow> moved c c' \<Longrightarrow> padded c'"
  by (auto simp: padded_def moved_def)

lemma padded_user: "padded (c\<lparr>hparser := p, hproxy := q, huser := u\<rparr>) \<longleftrightarrow> padded c"
  by (simp add: padded_def)

lemma split3: "xs = take p xs @ take h (drop p xs) @ drop (p + h) xs"
proof -
  have "take h (drop p xs) @ drop (p + h) xs = drop p xs"
    by (subst add.commute, subst drop_drop [symmetric], rule append_take_drop_id)
  then show ?thesis by simp
qed

lemma fence_write:
  assumes "padded c"
  shows "\<exists>mem. fenceAndConsumePostPadded minimally maxH cb c = requestLoop minimally maxH cb (c\<lparr>hmem := mem\<rparr>) \<and>
    fenced (c\<lparr>hmem := mem\<rparr>) \<and> segText (c\<lparr>hmem := mem\<rparr>) = segText c"
proof -
  let ?p = "hpos c" and ?q = "hpos c + hlen c" and ?m = "hmem c"
  let ?mem = "?m[?q := CR, ?q + 1 := 97]"
  have len: "?q + 8 \<le> length ?m" "length ?m < 2 ^ 32" using assms by (simp_all add: padded_def)
  have w: "fenceAndConsumePostPadded minimally maxH cb c = requestLoop minimally maxH cb (c\<lparr>hmem := ?mem\<rparr>)"
    using len by (simp add: fenceAndConsumePostPadded_def)
  have seg: "segText (c\<lparr>hmem := ?mem\<rparr>) = segText c" by (simp add: segText_def drop_update_swap take_update_swap list_update_beyond)
  have "drop ?q ?mem = fence (drop (?q + 2) ?m)"
  proof -
    have "drop ?q ?m = ?m ! ?q # ?m ! (?q + 1) # drop (?q + 2) ?m"
      using len by (simp add: Cons_nth_drop_Suc)
    then show ?thesis using len by (simp add: drop_update_swap)
  qed
  moreover have "?mem = take ?p ?mem @ take (hlen c) (drop ?p ?mem) @ drop ?q ?mem"
    by (rule split3)
  ultimately have "?mem = take ?p ?mem @ take (hlen c) (drop ?p ?mem) @ fence (drop (?q + 2) ?m)" by simp
  moreover have "length (take ?p ?mem) = ?p" "length (take (hlen c) (drop ?p ?mem)) = hlen c"
    using len by simp_all
  ultimately have "fenced (c\<lparr>hmem := ?mem\<rparr>)"
    unfolding fenced_def using len
    by (intro conjI exI [of _ "take ?p ?mem"] exI [of _ "take (hlen c) (drop ?p ?mem)"] exI [of _ "drop (?q + 2) ?m"])
       simp_all
  then show ?thesis using w seg by blast
qed

text \<open>The one round of the loop that is run on the fallback buffer.\<close>

lemma requestLoop_minimal:
  assumes "fenced c" and "remaining c = 0" and "hlen c \<noteq> 0"
  shows "\<exists>c' v. requestLoop True maxH cb c = Some (c', v) \<and> length (hmem c') = length (hmem c) \<and>
    (v = GoAhead \<longrightarrow> chunk_inv (remaining c') \<and>
      (hpos c' = hpos c \<and> remaining c' = 0 \<and> incompleteHead (take (hlen c) (drop (hpos c) (hmem c'))) \<or>
       (\<exists>n hs ys pp. headSpec (segText c) (hproxy c) = ((Complete n hs, ys), pp) \<and> hpos c' = hpos c + n)))"
proof -
  obtain r ys pp where h: "headSpec (segText c) (hproxy c) = ((r, ys), pp)" by (metis surj_pair)
  obtain mem where g: "getHeaders (hmem c) (hpos c) (hpos c + hlen c) (hproxy c) = Some ((mem, pp), r)"
    and f: "fenced (c\<lparr>hmem := mem, hproxy := pp\<rparr>)" "segText (c\<lparr>hmem := mem, hproxy := pp\<rparr>) = ys"
    and len: "length mem = length (hmem c)"
    using getHeaders_fenced [OF assms(1) h] by blast
  define c1 where "c1 = c\<lparr>hmem := mem, hproxy := pp\<rparr>"
  have same: "hlen c1 = hlen c" "hparser c1 = hparser c" "hpos c1 = hpos c" "hmem c1 = mem" by (simp_all add: c1_def)
  note f = f [folded c1_def]
  show ?thesis
  proof (cases r)
    case Incomplete
    have "take (hlen c) (drop (hpos c) mem) = ys" using f(2) same by (simp add: segText_def)
    then show ?thesis using assms g f incompleteHead_again [of _ _ ys pp] h Incomplete len
      by (auto simp: requestLoop.simps [of _ _ _ c] chunk_inv_0)
  next
    case (Rejected e)
    then show ?thesis using assms(3) g len by (simp add: requestLoop.simps [of _ _ _ c])
  next
    case (Complete n hs)
    have "length (segText c) \<le> hlen c" by (simp add: segText_def)
    then have n: "0 < n" "n \<le> hlen c1" using headSpec_le [OF h [unfolded Complete]] same by auto
    have st: "chunk_inv (remaining c1)" "remaining c1 = 0 \<or> carried (remaining c1)"
      using assms(2) by (simp_all add: same chunk_inv_0)
    obtain c' v where b: "handleHead True maxH cb n hs c1 = Some (c', v)" "moved c1 c'"
      "v = GoAhead \<longrightarrow> chunk_inv (remaining c') \<and> hpos c' = hpos c + n"
      using handleHead_safe [OF fenced_inBounds [OF f(1)] n(2) st, of True maxH cb hs] same by auto
    have "length (hmem c') = length (hmem c)" using b(2) len same by (simp add: moved_def)
    moreover have "requestLoop True maxH cb c = Some (c', v)"
      using assms(3) g Complete n b(1) by (simp add: requestLoop.simps [of _ _ _ c] c1_def)
    ultimately show ?thesis using b(3) h Complete by auto
  qed
qed

section \<open>One call\<close>

definition parserOk :: "nat \<Rightarrow> HttpParser \<Rightarrow> bool" where
  "parserOk maxH p \<longleftrightarrow> chunk_inv (remainingStreamingBytes p) \<and>
     (fallback p \<noteq> [] \<longrightarrow>
        remainingStreamingBytes p = 0 \<and> length (fallback p) < maxH \<and> incompleteHead (fallback p))"

text \<open>The steps after the fallback buffer was parsed.\<close>

lemma consumeFallback_step:
  assumes "length (fallback (hparser c)) < maxH"
    and "rdN (hmem c) (hpos c) (min (maxH - length (fallback (hparser c))) (hlen c)) = Some copied"
    and "tx = fallback (hparser c) @ copied"
    and "fenceAndConsumePostPadded True maxH cb
      \<lparr>hmem = tx @ replicate MINIMUM_HTTP_POST_PADDING 0, hpos = 0, hlen = length tx,
       hparser = hparser c, hproxy = hproxy c, huser = huser c\<rparr> = Some (f, v)"
    and "c1 = c\<lparr>hparser := (hparser f)\<lparr>fallback := take (length tx) (hmem f)\<rparr>, hproxy := hproxy f, huser := huser f\<rparr>"
    and "c2 = c1\<lparr>hparser := (hparser c1)\<lparr>fallback := []\<rparr>\<rparr>"
  shows "consumeFallback maxH cb c =
     (if v \<noteq> GoAhead then Some (c1, Some v)
      else if hpos f \<noteq> 0 then do {
        c \<leftarrow> (if length (fallback (hparser c)) \<le> hpos f
             then advance (hpos f - length (fallback (hparser c))) c2 else None);
        if remaining c \<noteq> 0 then consumeStreamingBody cb c else Some (c, None) }
      else if length tx = maxH then Some (c1, Some (Failed HTTP_ERROR_431_REQUEST_HEADER_FIELDS_TOO_LARGE))
      else Some (c1, Some GoAhead))"
  using assms(1,2) assms(4) [unfolded assms(3)]
  unfolding consumeFallback_def Let_def assms(3,5,6) by (simp add: not_less)

lemma consumeFallback_safe:
  assumes "padded c" and "parserOk maxH (hparser c)" and "fallback (hparser c) \<noteq> []" and "maxH < 2 ^ 31"
  shows "\<exists>c' r. consumeFallback maxH cb c = Some (c', r) \<and>
    (r = None \<longrightarrow> padded c' \<and> between c' \<and> fallback (hparser c') = []) \<and>
    (r = Some GoAhead \<longrightarrow> parserOk maxH (hparser c'))"
proof -
  let ?fb = "fallback (hparser c)"
  let ?had = "length ?fb"
  let ?k = "min (maxH - ?had) (hlen c)"
  let ?copied = "take ?k (drop (hpos c) (hmem c))"
  let ?text = "?fb @ ?copied"
  have ok: "remaining c = 0" "?had < maxH" "incompleteHead ?fb" using assms(2,3) by (simp_all add: parserOk_def)
  have copied: "rdN (hmem c) (hpos c) ?k = Some ?copied"
    using rdN_inBounds [OF padded_inBounds [OF assms(1)], of ?k] by simp
  have klen: "length ?copied = ?k" using assms(1) by (auto simp: padded_def)
  define tx where "tx = ?text"
  define b where "b = \<lparr>hmem = tx @ replicate MINIMUM_HTTP_POST_PADDING 0, hpos = 0, hlen = length tx,
     hparser = hparser c, hproxy = hproxy c, huser = huser c\<rparr>"
  have short: "length tx \<le> maxH" using ok(2) klen by (simp add: tx_def)
  then have "padded b" using assms(4) by (simp add: padded_def b_def MINIMUM_HTTP_POST_PADDING_def)
  then obtain mem where fence: "fenceAndConsumePostPadded True maxH cb b = requestLoop True maxH cb (b\<lparr>hmem := mem\<rparr>)"
    and fb: "fenced (b\<lparr>hmem := mem\<rparr>)" and seg: "segText (b\<lparr>hmem := mem\<rparr>) = segText b"
    using fence_write by blast
  have gen: "take (length t) (drop 0 (t @ r)) = t" for t r :: bytes by simp
  have txt0: "segText b = tx" by (simp only: segText_def b_def httpCursor.simps gen)
  have nz: "hlen (b\<lparr>hmem := mem\<rparr>) \<noteq> 0" using assms(3) by (simp add: b_def tx_def)
  have r0: "remaining (b\<lparr>hmem := mem\<rparr>) = 0" using ok(1) by (simp add: b_def)
  obtain f v where f: "requestLoop True maxH cb (b\<lparr>hmem := mem\<rparr>) = Some (f, v)"
    and post: "v = GoAhead \<longrightarrow> chunk_inv (remaining f) \<and>
      (hpos f = 0 \<and> remaining f = 0 \<and> incompleteHead (take (length tx) (hmem f)) \<or>
       (\<exists>n hs ys pp. headSpec tx (hproxy c) = ((Complete n hs, ys), pp) \<and> hpos f = n))"
    and flen: "length (hmem f) = length mem"
    using requestLoop_minimal [OF fb r0 nz, of maxH cb] txt0 seg by (auto simp: b_def)
  note loop = fence [unfolded f, unfolded b_def]
  let ?c = "c\<lparr>hparser := (hparser f)\<lparr>fallback := take (length tx) (hmem f)\<rparr>, hproxy := hproxy f, huser := huser f\<rparr>"
  note step = consumeFallback_step [OF ok(2) copied tx_def loop refl refl]
  consider (stop) "v \<noteq> GoAhead" | (wait) "v = GoAhead" "hpos f = 0" | (go) "v = GoAhead" "hpos f \<noteq> 0" by blast
  then show ?thesis
  proof cases
    case stop
    then show ?thesis using step by auto
  next
    case wait
    have "\<not> (\<exists>hs ys pp. headSpec tx (hproxy c) = ((Complete 0 hs, ys), pp))" using headSpec_le(1) by blast
    then have "remaining f = 0" "incompleteHead (take (length tx) (hmem f))" using post wait by auto
    moreover have "length (take (length tx) (hmem f)) \<le> length tx" by simp
    moreover have "consumeFallback maxH cb c =
      (if length tx = maxH then Some (?c, Some (Failed HTTP_ERROR_431_REQUEST_HEADER_FIELDS_TOO_LARGE))
       else Some (?c, Some GoAhead))" using step wait by simp
    ultimately show ?thesis using short by (cases "length tx = maxH") (auto simp: parserOk_def chunk_inv_0)
  next
    case go
    then obtain n hs ys pp where n: "headSpec tx (hproxy c) = ((Complete n hs, ys), pp)" "hpos f = n"
      and inv: "chunk_inv (remaining f)" using post by auto
    have had: "?had < n"
      using headSpec_completes_later [OF _ n(1) [unfolded tx_def]] ok(3) incompleteHead_any by blast
    have "n \<le> length tx" using headSpec_le(2) [OF n(1)] .
    then have le: "n - ?had \<le> hlen c" using klen by (simp add: tx_def)
    let ?c1 = "?c\<lparr>hparser := (hparser ?c)\<lparr>fallback := []\<rparr>\<rparr>"
    define c2 where "c2 = ?c1\<lparr>hpos := hpos c + (n - ?had), hlen := hlen c - (n - ?had)\<rparr>"
    have adv: "advance (n - ?had) ?c1 = Some c2" using le by (simp add: advance_def c2_def)
    have p: "padded c2" "chunk_inv (remaining c2)" "fallback (hparser c2) = []"
      using assms(1) le inv by (auto simp: c2_def padded_def)
    have res: "consumeFallback maxH cb c = (if remaining c2 \<noteq> 0 then consumeStreamingBody cb c2 else Some (c2, None))"
      unfolding step using go n(2) had adv by simp
    show ?thesis
    proof (cases "remaining c2 = 0")
      case True
      then show ?thesis using res p by (auto simp: between_def)
    next
      case False
      obtain c' r where b: "consumeStreamingBody cb c2 = Some (c', r)" "moved c2 c'"
        "r = None \<longrightarrow> between c'" "r = Some GoAhead \<longrightarrow> chunk_inv (remaining c')"
        using consumeStreamingBody_safe [OF padded_inBounds [OF p(1)] p(2), of cb] by blast
      have "padded c'" "fallback (hparser c') = []" using padded_moved [OF p(1) b(2)] b(2) p(3) by (simp_all add: moved_def)
      then show ?thesis using res False b by (auto simp: parserOk_def)
    qed
  qed
qed

lemma consumeRest_safe:
  assumes "padded c" and "between c" and "fallback (hparser c) = []"
  shows "\<exists>c' v. consumeRest maxH cb c = Some (c', v) \<and>
    (v = GoAhead \<longrightarrow> parserOk maxH (hparser c') \<or> carried (remaining c'))"
proof -
  obtain mem where fence: "fenceAndConsumePostPadded False maxH cb c = requestLoop False maxH cb (c\<lparr>hmem := mem\<rparr>)"
    and f: "fenced (c\<lparr>hmem := mem\<rparr>)"
    using fence_write [OF assms(1)] by blast
  have "between (c\<lparr>hmem := mem\<rparr>)" using assms(2) by (simp add: between_def)
  from requestLoop_safe [OF f this, of maxH cb] obtain c' v
    where r: "requestLoop False maxH cb (c\<lparr>hmem := mem\<rparr>) = Some (c', v)" "fallback (hparser c') = []"
      "v = GoAhead \<longrightarrow> fenced c' \<and> between c' \<and> (hlen c' \<noteq> 0 \<longrightarrow> incompleteHead (segText c'))"
    using assms(3) by auto
  show ?thesis
  proof (cases "v = GoAhead \<and> hlen c' \<noteq> 0 \<and> hlen c' < maxH")
    case True
    then have inb: "inBounds c'" using r(3) fenced_inBounds by blast
    then have "rdN (hmem c') (hpos c') (hlen c') = Some (segText c')"
      using rdN_inBounds [of c' "hlen c'"] by (simp add: segText_def)
    moreover have "length (segText c') = hlen c'"
      using inb by (auto simp: segText_def inBounds_def)
    ultimately show ?thesis using fence r True
      by (auto simp: consumeRest_def parserOk_def between_def)
  next
    case False
    then show ?thesis using fence r by (auto simp: consumeRest_def parserOk_def between_def)
  qed
qed

lemma consumePostPadded_safe:
  assumes "padded c" and "parserOk maxH (hparser c)" and "maxH < 2 ^ 31"
  shows "\<exists>c' v. consumePostPadded maxH cb c = Some (c', v) \<and>
    (v = GoAhead \<longrightarrow> parserOk maxH (hparser c') \<or> carried (remaining c'))"
proof -
  let ?first = "if remaining c \<noteq> 0 then consumeStreamingBody cb c
    else if fallback (hparser c) \<noteq> [] then consumeFallback maxH cb c else Some (c, None)"
  have "\<exists>c' r. ?first = Some (c', r) \<and> (r = None \<longrightarrow> padded c' \<and> between c' \<and> fallback (hparser c') = []) \<and>
      (r = Some GoAhead \<longrightarrow> parserOk maxH (hparser c'))"
  proof (cases "remaining c = 0")
    case False
    have inv: "chunk_inv (remaining c)" and fb: "fallback (hparser c) = []"
      using assms(2) False by (auto simp: parserOk_def)
    obtain c' r where "consumeStreamingBody cb c = Some (c', r)" "moved c c'"
      "r = None \<longrightarrow> between c'" "r = Some GoAhead \<longrightarrow> chunk_inv (remaining c')"
      using consumeStreamingBody_safe [OF padded_inBounds [OF assms(1)] inv, of cb] by blast
    moreover from this(2) have "padded c'" "fallback (hparser c') = []"
      using padded_moved [OF assms(1)] fb by (simp_all add: moved_def)
    ultimately show ?thesis using False by (auto simp: parserOk_def)
  next
    case True
    then show ?thesis
      using consumeFallback_safe [OF assms(1,2) _ assms(3), of cb] assms(1)
      by (cases "fallback (hparser c) = []") (auto simp: between_def chunk_inv_0)
  qed
  then obtain c1 r where first: "?first = Some (c1, r)"
    and go: "r = None \<longrightarrow> padded c1 \<and> between c1 \<and> fallback (hparser c1) = []"
    and stay: "r = Some GoAhead \<longrightarrow> parserOk maxH (hparser c1)" by blast
  show ?thesis
  proof (cases r)
    case None
    then show ?thesis using consumeRest_safe [of c1 maxH cb] go first by (simp add: consumePostPadded_def)
  next
    case (Some v)
    then show ?thesis using stay first by (simp add: consumePostPadded_def)
  qed
qed

section \<open>A whole connection\<close>

text \<open>After some of the segments the chunk decoder is in a carried state.\<close>

definition stuck ::
  "nat \<Rightarrow> 'u callbacks \<Rightarrow> HttpParser \<Rightarrow> ProxyParser \<Rightarrow> 'u \<Rightarrow> bytes list \<Rightarrow> bool" where
  "stuck maxH cb p pp u segs \<longleftrightarrow>
     (\<exists>k p' pp' u'. httpStream maxH cb p pp u (take k segs) = Some (p', pp', u', GoAhead) \<and>
        carried (remainingStreamingBytes p'))"

lemma stuck_Cons:
  assumes "consumePostPadded maxH cb (recvCursor p pp u seg) = Some (c, GoAhead)"
    and "stuck maxH cb (hparser c) (hproxy c) (huser c) segs"
  shows "stuck maxH cb p pp u (seg # segs)"
proof -
  from assms(2) obtain k p' pp' u' where "httpStream maxH cb (hparser c) (hproxy c) (huser c) (take k segs) = Some (p', pp', u', GoAhead)"
    "carried (remainingStreamingBytes p')" unfolding stuck_def by blast
  then have "httpStream maxH cb p pp u (take (Suc k) (seg # segs)) = Some (p', pp', u', GoAhead)"
    using assms(1) by simp
  then show ?thesis using \<open>carried (remainingStreamingBytes p')\<close> unfolding stuck_def by blast
qed

lemma padded_recvCursor: "length seg < 2 ^ 31 \<Longrightarrow> padded (recvCursor p pp u seg)"
  by (simp add: padded_def recvCursor_def)

lemma httpStream_safe:
  assumes "maxH < 2 ^ 31" and "\<forall>seg\<in>set segs. length seg < 2 ^ 31" and "parserOk maxH p"
  shows "(\<exists>r. httpStream maxH cb p pp u segs = Some r \<and>
      (snd (snd (snd r)) = GoAhead \<longrightarrow> parserOk maxH (fst r))) \<or> stuck maxH cb p pp u segs"
  using assms(2,3)
proof (induction segs arbitrary: p pp u)
  case Nil
  then show ?case by simp
next
  case (Cons seg segs)
  let ?c = "recvCursor p pp u seg"
  have "padded ?c" "parserOk maxH (hparser ?c)"
    using Cons.prems by (simp_all add: padded_recvCursor) (simp add: recvCursor_def)
  from consumePostPadded_safe [OF this assms(1), of cb] obtain c v
    where c: "consumePostPadded maxH cb ?c = Some (c, v)"
      and post: "v = GoAhead \<longrightarrow> parserOk maxH (hparser c) \<or> carried (remaining c)" by blast
  show ?case
  proof (cases "v = GoAhead")
    case False
    then show ?thesis using c by simp
  next
    case True
    note c = c [unfolded True]
    show ?thesis
    proof (cases "parserOk maxH (hparser c)")
      case ok: True
      have segs: "\<forall>seg\<in>set segs. length seg < 2 ^ 31" using Cons.prems(1) by simp
      show ?thesis
      proof (cases "stuck maxH cb (hparser c) (hproxy c) (huser c) segs")
        case True
        then show ?thesis using stuck_Cons [OF c] by blast
      next
        case False
        then show ?thesis using Cons.IH [OF segs ok, of "hproxy c" "huser c"] c by auto
      qed
    next
      case False
      then have "httpStream maxH cb p pp u (take 1 (seg # segs)) = Some (hparser c, hproxy c, huser c, GoAhead)"
        "carried (remaining c)" using c post True by simp_all
      then show ?thesis unfolding stuck_def by blast
    qed
  qed
qed

lemma parserOk_fresh: "parserOk maxH freshParser"
  by (simp add: parserOk_def freshParser_def chunk_inv_0)

text \<open>An example: the first two bytes of a request.\<close>

lemma short_segment:
  "httpStream 4096 cb freshParser freshProxy u [ascii ''GE''] =
     Some (\<lparr>fallback = ascii ''GE'', remainingStreamingBytes = 0, trailerTail = 0\<rparr>, freshProxy, u, GoAhead)"
  by (simp add: consumePostPadded_def consumeRest_def fenceAndConsumePostPadded_def recvCursor_def freshParser_def
      wr_def requestLoop.simps getHeaders_def proxyParse_def rdN_def eval_nat_numeral)

lemma short_segment_not_stuck: "\<not> stuck 4096 cb freshParser freshProxy u [ascii ''GE'']"
proof -
  define seg where "seg = ascii ''GE''"
  have stay: "remainingStreamingBytes (fst r) = 0" if r: "httpStream 4096 cb freshParser freshProxy u (take k [seg]) = Some r" for k r
  proof (cases k)
    case 0
    then show ?thesis using r by (auto simp: freshParser_def)
  next
    case (Suc l)
    then have "take k [seg] = [seg]" by simp
    then show ?thesis using r short_segment [of cb u, folded seg_def] by (auto simp del: httpStream.simps)
  qed
  have "\<not> carried 0" by (simp add: carried_def)
  then show ?thesis unfolding stuck_def seg_def [symmetric] using stay by fastforce
qed

section \<open>Properties\<close>

text \<open>
  C5. The parser never accesses memory outside of the receive buffer or its fallback buffer and no
  length it computes wraps, for any bytes cut into any segments and any handlers, as long as the
  chunk decoder did not get stuck in a state that a carried chunk size leaves.
\<close>

theorem http_parser_memory_safe:
  assumes "maxHeaderSize < 2 ^ 31" and "\<forall>seg\<in>set segs. length seg < 2 ^ 31"
  shows "httpStream maxHeaderSize cb freshParser freshProxy u segs \<noteq> None \<or>
    stuck maxHeaderSize cb freshParser freshProxy u segs"
  using httpStream_safe [OF assms parserOk_fresh, of cb freshProxy u] by auto

lemma http_parser_memory_safe_witness:
  "httpStream 4096 \<lparr>onRequest = \<lambda>u r. (u + 1, True), onData = \<lambda>u d n. (u, u < 2)\<rparr> freshParser freshProxy (0 :: nat)
     [ascii ''GE''] \<noteq> None"
  using http_parser_memory_safe [of 4096 "[ascii ''GE'']" _ 0] short_segment_not_stuck by fastforce

text \<open>
  C17. Between two segments of a connection that goes on and on which the chunk decoder never got stuck
  (a chunk size that carried into the flag of the trailer: \<open>HttpDesync\<close> shows such a connection, and its
  state is none of these), a head in the fallback buffer is incomplete and shorter than the limit, no
  body is awaited while there is one, and the decoder state of a body is one the decoder can go on from.
\<close>

theorem http_parser_state_invariant:
  assumes "maxHeaderSize < 2 ^ 31" and "\<forall>seg\<in>set segs. length seg < 2 ^ 31"
    and "httpStream maxHeaderSize cb freshParser freshProxy u segs = Some (p, pp, u', GoAhead)"
    and "\<not> stuck maxHeaderSize cb freshParser freshProxy u segs"
  shows "chunk_inv (remainingStreamingBytes p) \<and>
    (fallback p \<noteq> [] \<longrightarrow> remainingStreamingBytes p = 0 \<and> length (fallback p) < maxHeaderSize \<and>
       incompleteHead (fallback p))"
  using httpStream_safe [OF assms(1,2) parserOk_fresh, of cb freshProxy u] assms(3,4)
  by (simp add: parserOk_def)

lemma http_parser_state_invariant_witness:
  "chunk_inv 0 \<and> length (ascii ''GE'') < 4096 \<and> incompleteHead (ascii ''GE'')"
  using http_parser_state_invariant [of 4096 "[ascii ''GE'']" "\<lparr>onRequest = \<lambda>u r. (u, True), onData = \<lambda>u d n. (u, True)\<rparr>" "()"]
    short_segment [of _ "()"] short_segment_not_stuck by fastforce

text \<open>
  C18. A Content-Length of at most 18 decimal digits is read exactly, and anything else is the error
  value, which no number can give.
\<close>

theorem content_length_exact:
  "(if length str \<le> 18 \<and> (\<forall>c\<in>set str. digit c)
    then unat (toUnsignedInteger str) = decimal str \<and> decimal str < 10 ^ 18
    else toUnsignedInteger str = UINT64_MAX)"
proof (cases "length str \<le> 18 \<and> (\<forall>c\<in>set str. digit c)")
  case True
  then have d: "decimal str < 10 ^ length str" using decimal_less(1) by blast
  have "(10 :: nat) ^ length str \<le> 10 ^ 18" using True by (intro power_increasing) simp_all
  then have less: "decimal str < 10 ^ 18" using d by (rule less_le_trans [rotated])
  then have "unat (of_nat (decimal str) :: u64) = decimal str" by (intro unat_of_nat_u64) simp
  then show ?thesis using less by (simp only: toUnsignedInteger_value if_P [OF True] simp_thms)
next
  case False
  then show ?thesis by (simp only: toUnsignedInteger_value if_False simp_thms)
qed

lemma content_length_exact_witness:
  "unat (toUnsignedInteger (ascii ''120'')) = 120 \<and> toUnsignedInteger (ascii ''1x'') = UINT64_MAX"
  using content_length_exact [of "ascii ''120''"] content_length_exact [of "ascii ''1x''"]
  by (simp add: decimal_def)

end
