(* ===== verification/HttpRequests.thy ===== *)
theory HttpRequests
  imports HttpParserSafety
begin

text \<open>
  What the handler of a request gets to see: the headers of an accepted request, the requests the
  parser refuses, and the delivery of a request whose bytes come in pieces.
\<close>

section \<open>Headers of an accepted request\<close>

definition criticalKeys :: "bytes set" where
  "criticalKeys = {hostKey, contentLengthKey, transferEncodingKey}"

abbreviation fieldKeys :: "header list \<Rightarrow> bytes list" where
  "fieldKeys hs \<equiv> map fst (headerFields hs)"

lemma addHeaders_filter:
  "addHeaders hs rest f = Some f' \<Longrightarrow> f' = fold bloomAdd (map fst rest) f"
  by (induction rest arbitrary: f) (auto split: if_splits)

lemma findHeader_None: "findHeader key hs = None \<longleftrightarrow> key \<notin> set (fieldKeys hs)"
  by (force simp: findHeader_def find_None_iff)

lemma checkRequest_Some:
  assumes "checkRequest hs = Some req"
  shows "reqHeaders req = hs" "reqBloom req = fold bloomAdd (fieldKeys hs) bloomReset"
    "addHeaders hs (headerFields hs) bloomReset \<noteq> None"
    "querySeparator req = length (takeWhile (\<lambda>b. b \<noteq> 63) (snd (hd hs)))"
    "getHeader hostKey req \<noteq> None"
    "valueLength (getHeader transferEncodingKey req) = 0 \<or> valueLength (getHeader contentLengthKey req) = 0"
  using assms addHeaders_filter [of hs "headerFields hs" bloomReset]
  by (auto simp: checkRequest_def Let_def split: option.splits if_splits)

text \<open>The filter hides no header.\<close>

lemma getHeader_findHeader:
  assumes "checkRequest hs = Some req"
  shows "getHeader key req = findHeader key hs"
proof (cases "key \<in> set (fieldKeys hs)")
  case True
  then have "mightHave key (reqBloom req)"
    unfolding checkRequest_Some(2) [OF assms] by (rule no_false_negative)
  then show ?thesis by (simp add: getHeader_def checkRequest_Some(1) [OF assms])
next
  case False
  then have "findHeader key hs = None" by (simp add: findHeader_None)
  then show ?thesis by (simp add: getHeader_def checkRequest_Some(1) [OF assms])
qed

lemma addHeaders_once:
  assumes "addHeaders hs rest f \<noteq> None" and "key \<in> criticalKeys" and "set rest \<subseteq> set (headerFields hs)"
  shows "length (filter (\<lambda>k. k = key) (map fst rest)) \<le> 1 \<and> (mightHave key f \<longrightarrow> key \<notin> set (map fst rest))"
  using assms(1,3)
proof (induction rest arbitrary: f)
  case Nil
  then show ?case by simp
next
  case (Cons h rest)
  have found: "findHeader (fst h) hs \<noteq> None" using Cons.prems(2) by (auto simp: findHeader_None)
  have nodup: "\<not> (mightHave (fst h) f \<and> fst h \<in> {hostKey, contentLengthKey, transferEncodingKey})"
    and next': "addHeaders hs rest (bloomAdd (fst h) f) \<noteq> None"
    using Cons.prems(1) found by (auto split: if_splits)
  have ih: "length (filter (\<lambda>k. k = key) (map fst rest)) \<le> 1 \<and>
      (mightHave key (bloomAdd (fst h) f) \<longrightarrow> key \<notin> set (map fst rest))"
    using Cons.IH [OF next'] Cons.prems(2) by auto
  show ?case
  proof (cases "fst h = key")
    case True
    then have "key \<notin> set (map fst rest)" using ih mightHave_add(1) [of key f] by simp
    then have "filter (\<lambda>k. k = key) (map fst rest) = []" by (auto simp: filter_empty_conv)
    moreover have "\<not> mightHave key f" using nodup True assms(2) by (auto simp: criticalKeys_def)
    ultimately show ?thesis using True by simp
  next
    case False
    then show ?thesis using ih mightHave_add(2) [of key f "fst h"] by auto
  qed
qed

text \<open>A request that is accepted whatever the filter does: the host comes first.\<close>

lemma scramble_not_Nil: "\<exists>n ns. scramble key = n # ns"
  by (simp add: scramble_def store_le_def upt_conv_Cons)

lemma mightHave_reset: "2 \<le> length key \<Longrightarrow> \<not> mightHave key bloomReset"
  using scramble_not_Nil [of key] by (auto simp: mightHave_def bloomReset_def)

lemma addHeaders_plain:
  "\<forall>h\<in>set rest. fst h \<notin> criticalKeys \<Longrightarrow> addHeaders hs rest f = Some (fold bloomAdd (map fst rest) f)"
  by (induction rest arbitrary: f) (auto simp: criticalKeys_def)

lemma checkRequest_host_first:
  assumes "headerFields hs = (hostKey, v) # rest" and "\<forall>h\<in>set rest. fst h \<notin> criticalKeys"
  shows "checkRequest hs = Some \<lparr>reqHeaders = hs, querySeparator = length (takeWhile (\<lambda>b. b \<noteq> 63) (snd (hd hs))),
    reqBloom = fold bloomAdd (fieldKeys hs) bloomReset\<rparr>"
proof -
  let ?f = "fold bloomAdd (fieldKeys hs) bloomReset"
  have add: "addHeaders hs (headerFields hs) bloomReset = Some ?f"
    using addHeaders_plain [OF assms(2), of hs "bloomAdd hostKey bloomReset"] mightHave_reset [of hostKey]
    unfolding assms(1) by simp
  have "mightHave hostKey ?f" by (rule no_false_negative) (simp add: assms(1))
  moreover have "findHeader hostKey hs = Some v" by (simp add: findHeader_def assms(1))
  moreover have "findHeader transferEncodingKey hs = None"
    unfolding findHeader_None using assms(2) by (auto simp: assms(1) criticalKeys_def)
  ultimately show ?thesis
    using add by (simp add: checkRequest_def Let_def getHeader_def valueLength_def)
qed

section \<open>The content length and the body\<close>

definition noBody :: "HttpRequest \<Rightarrow> bool" where
  "noBody req \<longleftrightarrow> getHeader transferEncodingKey req = None \<and> getHeader contentLengthKey req = None"

lemma startBody_none:
  assumes "noBody req" and "onData cb (huser c) [] 0 = (u, True)"
  shows "startBody minimally cb req c = Some (c\<lparr>huser := u\<rparr>, GoAhead)"
  using assms by (simp add: startBody_def noBody_def valueLength_def)

section \<open>Delivery in pieces\<close>

lemma requestLoop_done: "hlen c = 0 \<Longrightarrow> requestLoop minimally maxH cb c = Some (c, GoAhead)"
  by (simp add: requestLoop.simps [of _ _ _ c])

lemma requestLoop_Incomplete:
  assumes "fenced c" and "headSpec (segText c) (hproxy c) = ((Incomplete, ys), pp)"
  shows "\<exists>mem. requestLoop minimally maxH cb c = Some (c\<lparr>hmem := mem, hproxy := pp\<rparr>, GoAhead) \<and>
    (hlen c \<noteq> 0 \<longrightarrow> fenced (c\<lparr>hmem := mem, hproxy := pp\<rparr>) \<and> segText (c\<lparr>hmem := mem, hproxy := pp\<rparr>) = ys)"
proof (cases "hlen c = 0")
  case True
  then have "segText c = []" by (simp add: segText_def)
  then have "pp = hproxy c" using assms(2) by (simp add: headSpec_def proxyParse_def)
  then show ?thesis using True by (intro exI [of _ "hmem c"]) (simp add: requestLoop.simps [of _ _ _ c])
next
  case False
  then show ?thesis using getHeaders_fenced [OF assms]
    by (auto simp: requestLoop.simps [of _ _ _ c])
qed

lemma requestLoop_single:
  assumes "fenced c" and "headSpec (segText c) (hproxy c) = ((Complete n hs, ys), pp)" and "n = hlen c"
    and "n \<le> maxH" and "checkRequest hs = Some req" and "noBody req"
    and "onRequest cb (huser c) req = (u1, True)" and "onData cb u1 [] 0 = (u2, True)"
  shows "\<exists>mem. requestLoop minimally maxH cb c =
      Some (c\<lparr>hmem := mem, hproxy := pp, hpos := hpos c + n, hlen := 0, huser := u2\<rparr>, GoAhead) \<and>
    length mem = length (hmem c)"
proof -
  obtain mem where g: "getHeaders (hmem c) (hpos c) (hpos c + hlen c) (hproxy c) = Some ((mem, pp), Complete n hs)"
    and len: "length mem = length (hmem c)" using getHeaders_fenced [OF assms(1,2)] by blast
  have n: "0 < n" using headSpec_le [OF assms(2)] by simp
  let ?c1 = "c\<lparr>hmem := mem, hproxy := pp\<rparr>"
  let ?c2 = "?c1\<lparr>hpos := hpos c + n, hlen := 0, huser := u1\<rparr>"
  have body: "startBody minimally cb req ?c2 = Some (?c2\<lparr>huser := u2\<rparr>, GoAhead)"
    by (rule startBody_none) (simp_all add: assms)
  have h: "handleHead minimally maxH cb n hs ?c1 = Some (?c2\<lparr>huser := u2\<rparr>, GoAhead)"
    using body assms(3-5,7) by (simp add: handleHead_def advance_def)
  have stop: "requestLoop minimally maxH cb (?c2\<lparr>huser := u2\<rparr>) = Some (?c2\<lparr>huser := u2\<rparr>, GoAhead)"
    by (rule requestLoop_done) simp
  show ?thesis using n assms(3) g h stop len
    by (intro exI [of _ mem]) (cases minimally; simp add: requestLoop.simps [of _ _ _ c])
qed

lemma requestLoop_refused:
  assumes "fenced c" and "headSpec (segText c) (hproxy c) = ((Complete n hs, ys), pp)" and "n = hlen c"
    and "n \<le> maxH" and "checkRequest hs = None"
  shows "\<exists>mem. requestLoop minimally maxH cb c =
      Some (c\<lparr>hmem := mem, hproxy := pp, hpos := hpos c + n, hlen := 0\<rparr>, Failed HTTP_ERROR_400_BAD_REQUEST)"
proof -
  obtain mem where g: "getHeaders (hmem c) (hpos c) (hpos c + hlen c) (hproxy c) = Some ((mem, pp), Complete n hs)"
    using getHeaders_fenced [OF assms(1,2)] by blast
  have n: "0 < n" using headSpec_le [OF assms(2)] by simp
  let ?c1 = "c\<lparr>hmem := mem, hproxy := pp\<rparr>"
  have "handleHead minimally maxH cb n hs ?c1 =
      Some (?c1\<lparr>hpos := hpos c + n, hlen := 0\<rparr>, Failed HTTP_ERROR_400_BAD_REQUEST)"
    using assms(3-5) by (simp add: handleHead_def advance_def)
  then show ?thesis using n assms(3) g
    by (intro exI [of _ mem]) (simp add: requestLoop.simps [of _ _ _ c])
qed

text \<open>A fresh connection, and one whose fallback buffer holds the beginning of a head.\<close>

definition waiting :: "nat \<Rightarrow> HttpParser \<Rightarrow> ProxyParser \<Rightarrow> ProxyParser \<Rightarrow> bytes \<Rightarrow> bool" where
  "waiting maxH p pp pp0 A \<longleftrightarrow> remainingStreamingBytes p = 0 \<and> length A < maxH \<and>
     headSpec A pp0 = ((Incomplete, fallback p), pp)"

lemma waiting_length: "waiting maxH p pp pp0 A \<Longrightarrow> length (fallback p) = length A"
  using lowered_length [OF headSpec_lowered] unfolding waiting_def by blast

lemma waiting_resume:
  "waiting maxH p pp pp0 A \<Longrightarrow> headSpec (fallback p @ seg) pp = headSpec (A @ seg) pp0"
  unfolding waiting_def by (blast intro: headSpec_resume)

lemma padded_recv: "length seg < 2 ^ 31 \<Longrightarrow> padded (recvCursor p pp u seg)"
  by (simp add: padded_def recvCursor_def)

lemma segText_recv: "segText (recvCursor p pp u seg) = seg"
  by (simp add: segText_def recvCursor_def)

lemma fallback_buffer:
  assumes "length tx < 2 ^ 31"
  shows "padded \<lparr>hmem = tx @ replicate MINIMUM_HTTP_POST_PADDING 0, hpos = 0, hlen = length tx,
      hparser = p, hproxy = pp, huser = u\<rparr>"
    "segText \<lparr>hmem = tx @ replicate MINIMUM_HTTP_POST_PADDING 0, hpos = 0, hlen = length tx,
      hparser = p, hproxy = pp, huser = u\<rparr> = tx"
  using assms by (simp_all add: padded_def segText_def MINIMUM_HTTP_POST_PADDING_def)

text \<open>Another piece that does not complete the head goes to the fallback buffer.\<close>

lemma consume_piece:
  assumes "waiting maxH p pp pp0 A" and "length (A @ seg) < maxH" and "maxH < 2 ^ 31"
    and "headSpec (A @ seg) pp0 = ((Incomplete, ys), pp')"
  shows "\<exists>c. consumePostPadded maxH cb (recvCursor p pp u seg) = Some (c, GoAhead) \<and>
    hparser c = p\<lparr>fallback := ys\<rparr> \<and> hproxy c = pp' \<and> huser c = u"
proof -
  let ?c = "recvCursor p pp u seg"
  have r0: "remaining ?c = 0" using assms(1) by (simp add: waiting_def recvCursor_def)
  have h: "headSpec (fallback p @ seg) pp = ((Incomplete, ys), pp')"
    using waiting_resume [OF assms(1)] assms(4) by simp
  have short: "length seg < 2 ^ 31" using assms(2,3) by simp
  have len: "length (fallback p @ seg) < maxH" using waiting_length [OF assms(1)] assms(2) by simp
  have ylen: "length ys = length (fallback p @ seg)" using lowered_length [OF headSpec_lowered [OF h]] .
  show ?thesis
  proof (cases "fallback p = []")
    case True
    obtain mem where f: "fenceAndConsumePostPadded False maxH cb ?c = requestLoop False maxH cb (?c\<lparr>hmem := mem\<rparr>)"
      "fenced (?c\<lparr>hmem := mem\<rparr>)" "segText (?c\<lparr>hmem := mem\<rparr>) = seg"
      using fence_write [OF padded_recv [OF short]] segText_recv by metis
    have "headSpec (segText (?c\<lparr>hmem := mem\<rparr>)) (hproxy (?c\<lparr>hmem := mem\<rparr>)) = ((Incomplete, ys), pp')"
      using h True f(3) by (simp add: recvCursor_def)
    from requestLoop_Incomplete [OF f(2) this, of False maxH cb] obtain mem'
      where l: "requestLoop False maxH cb (?c\<lparr>hmem := mem\<rparr>) = Some (?c\<lparr>hmem := mem', hproxy := pp'\<rparr>, GoAhead)"
        "seg \<noteq> [] \<longrightarrow> fenced (?c\<lparr>hmem := mem', hproxy := pp'\<rparr>) \<and> segText (?c\<lparr>hmem := mem', hproxy := pp'\<rparr>) = ys"
      by (auto simp: recvCursor_def)
    have rest: "consumePostPadded maxH cb ?c = consumeRest maxH cb ?c"
      using r0 True by (simp add: consumePostPadded_def recvCursor_def)
    show ?thesis
    proof (cases "seg = []")
      case nil: True
      then have "ys = []" using ylen True by simp
      then show ?thesis using f(1) l(1) True nil unfolding rest consumeRest_def by (simp add: recvCursor_def)
    next
      case False
      then have "rdN mem' 32 (length seg) = Some ys"
        using l(2) rdN_inBounds [OF fenced_inBounds, of "?c\<lparr>hmem := mem', hproxy := pp'\<rparr>" "length seg"]
        by (simp add: recvCursor_def segText_def)
      then show ?thesis using f(1) l(1) True False len unfolding rest consumeRest_def by (simp add: recvCursor_def)
    qed
  next
    case False
    define tx where "tx = fallback p @ seg"
    define b where "b = \<lparr>hmem = tx @ replicate MINIMUM_HTTP_POST_PADDING 0, hpos = 0, hlen = length tx,
      hparser = p, hproxy = pp, huser = u\<rparr>"
    have tl: "length tx < 2 ^ 31" using len assms(3) by (simp add: tx_def)
    obtain mem where f: "fenceAndConsumePostPadded True maxH cb b = requestLoop True maxH cb (b\<lparr>hmem := mem\<rparr>)"
      "fenced (b\<lparr>hmem := mem\<rparr>)" "segText (b\<lparr>hmem := mem\<rparr>) = tx"
      using fence_write [OF fallback_buffer(1) [OF tl, of p pp u], folded b_def]
        fallback_buffer(2) [OF tl, of p pp u, folded b_def] by metis
    have "headSpec (segText (b\<lparr>hmem := mem\<rparr>)) (hproxy (b\<lparr>hmem := mem\<rparr>)) = ((Incomplete, ys), pp')"
      using h f(3) by (simp add: b_def tx_def)
    from requestLoop_Incomplete [OF f(2) this, of True maxH cb] obtain mem'
      where l: "requestLoop True maxH cb (b\<lparr>hmem := mem\<rparr>) = Some (b\<lparr>hmem := mem', hproxy := pp'\<rparr>, GoAhead)"
        "segText (b\<lparr>hmem := mem', hproxy := pp'\<rparr>) = ys"
      using False by (auto simp: b_def tx_def)
    have copied: "rdN (hmem ?c) (hpos ?c) (min (maxH - length (fallback p)) (hlen ?c)) = Some seg"
      using len by (simp add: recvCursor_def rdN_def min_def)
    have ys: "take (length tx) mem' = ys" using l(2) by (simp add: segText_def b_def)
    have tl2: "length tx \<noteq> maxH" using len by (simp add: tx_def)
    have had: "length (fallback (hparser ?c)) < maxH" and tx: "tx = fallback (hparser ?c) @ seg"
      using len by (simp_all add: recvCursor_def tx_def)
    have copied': "rdN (hmem ?c) (hpos ?c) (min (maxH - length (fallback (hparser ?c))) (hlen ?c)) = Some seg"
      using copied by (simp add: recvCursor_def)
    have run: "fenceAndConsumePostPadded True maxH cb
      \<lparr>hmem = tx @ replicate MINIMUM_HTTP_POST_PADDING 0, hpos = 0, hlen = length tx,
       hparser = hparser ?c, hproxy = hproxy ?c, huser = huser ?c\<rparr> = Some (b\<lparr>hmem := mem', hproxy := pp'\<rparr>, GoAhead)"
      using f(1) l(1) by (simp add: b_def recvCursor_def)
    have "consumeFallback maxH cb ?c = Some (?c\<lparr>hparser := p\<lparr>fallback := ys\<rparr>, hproxy := pp', huser := u\<rparr>, Some GoAhead)"
      unfolding consumeFallback_step [OF had copied' tx run refl refl] using tl2 ys by (simp add: b_def)
    then show ?thesis using r0 False by (simp add: consumePostPadded_def) (simp add: recvCursor_def)
  qed
qed

text \<open>The piece that completes a head without a body delivers the request.\<close>

lemma consume_last_piece:
  assumes "waiting maxH p pp pp0 A" and "length (A @ seg) < maxH" and "maxH < 2 ^ 31"
    and "headSpec (A @ seg) pp0 = ((Complete (length (A @ seg)) hs, ys), pp')"
    and "checkRequest hs = Some req" and "noBody req"
    and "onRequest cb u req = (u1, True)" and "onData cb u1 [] 0 = (u2, True)"
  shows "\<exists>c. consumePostPadded maxH cb (recvCursor p pp u seg) = Some (c, GoAhead) \<and>
    hparser c = p\<lparr>fallback := []\<rparr> \<and> hproxy c = pp' \<and> huser c = u2"
proof -
  let ?c = "recvCursor p pp u seg"
  have r0: "remaining ?c = 0" using assms(1) by (simp add: waiting_def recvCursor_def)
  have flen: "length (fallback p) = length A" using waiting_length [OF assms(1)] .
  have h: "headSpec (fallback p @ seg) pp = ((Complete (length (fallback p @ seg)) hs, ys), pp')"
    using waiting_resume [OF assms(1)] assms(4) flen by simp
  have short: "length seg < 2 ^ 31" using assms(2,3) by simp
  have len: "length (fallback p @ seg) < maxH" using flen assms(2) by simp
  show ?thesis
  proof (cases "fallback p = []")
    case True
    obtain mem where f: "fenceAndConsumePostPadded False maxH cb ?c = requestLoop False maxH cb (?c\<lparr>hmem := mem\<rparr>)"
      "fenced (?c\<lparr>hmem := mem\<rparr>)" "segText (?c\<lparr>hmem := mem\<rparr>) = seg"
      using fence_write [OF padded_recv [OF short]] segText_recv by metis
    have hh: "headSpec (segText (?c\<lparr>hmem := mem\<rparr>)) (hproxy (?c\<lparr>hmem := mem\<rparr>)) = ((Complete (length seg) hs, ys), pp')"
      using h True f(3) by (simp add: recvCursor_def)
    obtain mem' where l: "requestLoop False maxH cb (?c\<lparr>hmem := mem\<rparr>) =
        Some (?c\<lparr>hmem := mem', hproxy := pp', hpos := 32 + length seg, hlen := 0, huser := u2\<rparr>, GoAhead)"
      using requestLoop_single [OF f(2) hh _ _ assms(5,6) _ assms(8), where minimally = False and maxH = maxH] len True assms(7)
      by (auto simp: recvCursor_def)
    show ?thesis using f(1) l r0 True
      by (simp add: consumePostPadded_def consumeRest_def recvCursor_def)
  next
    case False
    define tx where "tx = fallback p @ seg"
    define b where "b = \<lparr>hmem = tx @ replicate MINIMUM_HTTP_POST_PADDING 0, hpos = 0, hlen = length tx,
      hparser = p, hproxy = pp, huser = u\<rparr>"
    have tl: "length tx < 2 ^ 31" using len assms(3) by (simp add: tx_def)
    obtain mem where f: "fenceAndConsumePostPadded True maxH cb b = requestLoop True maxH cb (b\<lparr>hmem := mem\<rparr>)"
      "fenced (b\<lparr>hmem := mem\<rparr>)" "segText (b\<lparr>hmem := mem\<rparr>) = tx"
      using fence_write [OF fallback_buffer(1) [OF tl, of p pp u], folded b_def]
        fallback_buffer(2) [OF tl, of p pp u, folded b_def] by metis
    have hh: "headSpec (segText (b\<lparr>hmem := mem\<rparr>)) (hproxy (b\<lparr>hmem := mem\<rparr>)) = ((Complete (length tx) hs, ys), pp')"
      using h f(3) by (simp add: b_def tx_def)
    obtain mem' where l: "requestLoop True maxH cb (b\<lparr>hmem := mem\<rparr>) =
        Some (b\<lparr>hmem := mem', hproxy := pp', hpos := length tx, hlen := 0, huser := u2\<rparr>, GoAhead)"
      using requestLoop_single [OF f(2) hh _ _ assms(5,6) _ assms(8), where minimally = True and maxH = maxH] len assms(7)
      by (auto simp: b_def tx_def)
    have copied: "rdN (hmem ?c) (hpos ?c) (min (maxH - length (fallback p)) (hlen ?c)) = Some seg"
      using len by (simp add: recvCursor_def rdN_def min_def)
    let ?c2 = "?c\<lparr>hparser := p\<lparr>fallback := []\<rparr>, hproxy := pp', huser := u2, hpos := 32 + length seg, hlen := 0\<rparr>"
    have had: "length (fallback (hparser ?c)) < maxH" and tx: "tx = fallback (hparser ?c) @ seg"
      using len by (simp_all add: recvCursor_def tx_def)
    have copied': "rdN (hmem ?c) (hpos ?c) (min (maxH - length (fallback (hparser ?c))) (hlen ?c)) = Some seg"
      using copied by (simp add: recvCursor_def)
    have run: "fenceAndConsumePostPadded True maxH cb
      \<lparr>hmem = tx @ replicate MINIMUM_HTTP_POST_PADDING 0, hpos = 0, hlen = length tx,
       hparser = hparser ?c, hproxy = hproxy ?c, huser = huser ?c\<rparr> =
      Some (b\<lparr>hmem := mem', hproxy := pp', hpos := length tx, hlen := 0, huser := u2\<rparr>, GoAhead)"
      using f(1) l by (simp add: b_def recvCursor_def)
    have tp: "tx \<noteq> []" "length tx - length (fallback p) = length seg" "length (fallback p) \<le> length tx"
      using False by (simp_all add: tx_def)
    have p0: "remainingStreamingBytes p = 0" using assms(1) by (simp add: waiting_def)
    have fb: "consumeFallback maxH cb ?c = Some (?c2, None)"
      unfolding consumeFallback_step [OF had copied' tx run refl refl]
      using tp p0 by (simp add: b_def) (simp add: recvCursor_def advance_def)
    have p2: "padded ?c2" using short by (simp add: padded_def recvCursor_def)
    obtain mem2 where "fenceAndConsumePostPadded False maxH cb ?c2 = requestLoop False maxH cb (?c2\<lparr>hmem := mem2\<rparr>)"
      using fence_write [OF p2] by blast
    also have "\<dots> = Some (?c2\<lparr>hmem := mem2\<rparr>, GoAhead)" by (rule requestLoop_done) simp
    finally have "consumeRest maxH cb ?c2 = Some (?c2\<lparr>hmem := mem2\<rparr>, GoAhead)" by (simp add: consumeRest_def)
    then show ?thesis using fb r0 False by (simp add: consumePostPadded_def) (simp add: recvCursor_def)
  qed
qed

text \<open>The piece that completes a head that the checks refuse ends the connection; no handler is called.\<close>

lemma consume_refused_piece:
  assumes "waiting maxH p pp pp0 A" and "length (A @ seg) < maxH" and "maxH < 2 ^ 31"
    and "headSpec (A @ seg) pp0 = ((Complete (length (A @ seg)) hs, ys), pp')" and "checkRequest hs = None"
  shows "\<exists>c. consumePostPadded maxH cb (recvCursor p pp u seg) = Some (c, Failed HTTP_ERROR_400_BAD_REQUEST) \<and> huser c = u"
proof -
  let ?c = "recvCursor p pp u seg"
  have r0: "remaining ?c = 0" using assms(1) by (simp add: waiting_def recvCursor_def)
  have flen: "length (fallback p) = length A" using waiting_length [OF assms(1)] .
  have h: "headSpec (fallback p @ seg) pp = ((Complete (length (fallback p @ seg)) hs, ys), pp')"
    using waiting_resume [OF assms(1)] assms(4) flen by simp
  have short: "length seg < 2 ^ 31" using assms(2,3) by simp
  have len: "length (fallback p @ seg) < maxH" using flen assms(2) by simp
  show ?thesis
  proof (cases "fallback p = []")
    case True
    obtain mem where f: "fenceAndConsumePostPadded False maxH cb ?c = requestLoop False maxH cb (?c\<lparr>hmem := mem\<rparr>)"
      "fenced (?c\<lparr>hmem := mem\<rparr>)" "segText (?c\<lparr>hmem := mem\<rparr>) = seg"
      using fence_write [OF padded_recv [OF short]] segText_recv by metis
    have hh: "headSpec (segText (?c\<lparr>hmem := mem\<rparr>)) (hproxy (?c\<lparr>hmem := mem\<rparr>)) = ((Complete (length seg) hs, ys), pp')"
      using h True f(3) by (simp add: recvCursor_def)
    obtain mem' where l: "requestLoop False maxH cb (?c\<lparr>hmem := mem\<rparr>) =
        Some (?c\<lparr>hmem := mem', hproxy := pp', hpos := 32 + length seg, hlen := 0\<rparr>, Failed HTTP_ERROR_400_BAD_REQUEST)"
      using requestLoop_refused [OF f(2) hh _ _ assms(5), where minimally = False and maxH = maxH] len True
      by (auto simp: recvCursor_def)
    show ?thesis using f(1) l r0 True
      by (simp add: consumePostPadded_def consumeRest_def recvCursor_def)
  next
    case False
    define tx where "tx = fallback p @ seg"
    define b where "b = \<lparr>hmem = tx @ replicate MINIMUM_HTTP_POST_PADDING 0, hpos = 0, hlen = length tx,
      hparser = p, hproxy = pp, huser = u\<rparr>"
    have tl: "length tx < 2 ^ 31" using len assms(3) by (simp add: tx_def)
    obtain mem where f: "fenceAndConsumePostPadded True maxH cb b = requestLoop True maxH cb (b\<lparr>hmem := mem\<rparr>)"
      "fenced (b\<lparr>hmem := mem\<rparr>)" "segText (b\<lparr>hmem := mem\<rparr>) = tx"
      using fence_write [OF fallback_buffer(1) [OF tl, of p pp u], folded b_def]
        fallback_buffer(2) [OF tl, of p pp u, folded b_def] by metis
    have hh: "headSpec (segText (b\<lparr>hmem := mem\<rparr>)) (hproxy (b\<lparr>hmem := mem\<rparr>)) = ((Complete (length tx) hs, ys), pp')"
      using h f(3) by (simp add: b_def tx_def)
    obtain mem' where l: "requestLoop True maxH cb (b\<lparr>hmem := mem\<rparr>) =
        Some (b\<lparr>hmem := mem', hproxy := pp', hpos := length tx, hlen := 0\<rparr>, Failed HTTP_ERROR_400_BAD_REQUEST)"
      using requestLoop_refused [OF f(2) hh _ _ assms(5), where minimally = True and maxH = maxH] len
      by (auto simp: b_def tx_def)
    have had: "length (fallback (hparser ?c)) < maxH" and tx: "tx = fallback (hparser ?c) @ seg"
      using len by (simp_all add: recvCursor_def tx_def)
    have copied: "rdN (hmem ?c) (hpos ?c) (min (maxH - length (fallback (hparser ?c))) (hlen ?c)) = Some seg"
      using len by (simp add: recvCursor_def rdN_def min_def)
    have run: "fenceAndConsumePostPadded True maxH cb
      \<lparr>hmem = tx @ replicate MINIMUM_HTTP_POST_PADDING 0, hpos = 0, hlen = length tx,
       hparser = hparser ?c, hproxy = hproxy ?c, huser = huser ?c\<rparr> =
      Some (b\<lparr>hmem := mem', hproxy := pp', hpos := length tx, hlen := 0\<rparr>, Failed HTTP_ERROR_400_BAD_REQUEST)"
      using f(1) l by (simp add: b_def recvCursor_def)
    show ?thesis
      using consumeFallback_step [OF had copied tx run refl refl] r0 False
      by (simp add: consumePostPadded_def) (simp add: recvCursor_def b_def)
  qed
qed

text \<open>However the bytes of a request are cut: only the piece with its end matters.\<close>

lemma httpStream_pieces:
  assumes "waiting maxH p pp pp0 A" and "length (A @ concat segs) < maxH" and "maxH < 2 ^ 31"
    and "headSpec (A @ concat segs) pp0 = ((Complete (length (A @ concat segs)) hs, ys), pp')"
    and "\<And>seg. seg \<in> set segs \<Longrightarrow> seg \<noteq> []"
    and "\<And>q pq B seg. waiting maxH q pq pp0 B \<Longrightarrow> q\<lparr>fallback := []\<rparr> = p\<lparr>fallback := []\<rparr> \<Longrightarrow> B @ seg = A @ concat segs \<Longrightarrow>
      \<exists>c. consumePostPadded maxH cb (recvCursor q pq u seg) = Some (c, v) \<and> P (hparser c) (hproxy c) (huser c)"
  shows "\<exists>p' q' u'. httpStream maxH cb p pp u segs = Some (p', q', u', v) \<and> P p' q' u'"
  using assms(1,2,4-6)
proof (induction segs arbitrary: p pp A)
  case Nil
  then have "Incomplete = Complete (length A) hs" unfolding waiting_def by simp
  then show ?case by simp
next
  case (Cons seg segs)
  have le: "length (A @ seg) < maxH" using Cons.prems(2) by simp
  show ?case
  proof (cases "segs = []")
    case True
    obtain c where "consumePostPadded maxH cb (recvCursor p pp u seg) = Some (c, v)" "P (hparser c) (hproxy c) (huser c)"
      using Cons.prems(5) [OF Cons.prems(1) refl, of seg] True by auto
    then show ?thesis using True by simp
  next
    case False
    then have rest: "concat segs \<noteq> []" using Cons.prems(4) by (cases segs) auto
    obtain r zs q where h: "headSpec (A @ seg) pp0 = ((r, zs), q)" by (metis surj_pair)
    have r: "r = Incomplete"
      using headSpec_prefix_Incomplete [of "A @ seg" "concat segs" pp0] Cons.prems(3) rest h by auto
    from consume_piece [OF Cons.prems(1) le assms(3) h [unfolded r], of cb u]
    obtain c where c: "consumePostPadded maxH cb (recvCursor p pp u seg) = Some (c, GoAhead)"
      "hparser c = p\<lparr>fallback := zs\<rparr>" "hproxy c = q" "huser c = u"
      by (elim exE conjE)
    have w: "waiting maxH (p\<lparr>fallback := zs\<rparr>) q pp0 (A @ seg)"
      using Cons.prems(1) le h r by (simp add: waiting_def)
    have "\<exists>p' q' u'. httpStream maxH cb (p\<lparr>fallback := zs\<rparr>) q u segs = Some (p', q', u', v) \<and> P p' q' u'"
      by (rule Cons.IH [OF w]) (use Cons.prems in simp_all)
    then show ?thesis using c by simp
  qed
qed

section \<open>Well-formed requests\<close>

definition hostFirst :: "header list \<Rightarrow> bool" where
  "hostFirst hs \<longleftrightarrow> (\<exists>v rest. hs = (hostKey, v) # rest \<and> (\<forall>h\<in>set rest. fst h \<notin> criticalKeys))"

abbreviation lowerKeys :: "header list \<Rightarrow> header list" where
  "lowerKeys \<equiv> map (\<lambda>(k, v). (map lower k, v))"

lemma map_of_find: "map_of hs key = map_option snd (find (\<lambda>h. fst h = key) hs)"
  by (induction hs) (auto split: prod.splits)

lemma headerFields_all: "\<forall>h\<in>set hs. fst h \<noteq> [] \<Longrightarrow> headerFields (line # hs) = hs"
  by (simp add: headerFields_def takeWhile_eq_all_conv)

lemma filter_member: "key \<in> set ks \<Longrightarrow> 1 \<le> length (filter (\<lambda>k. k = key) ks)"
  by (induction ks) auto

section \<open>Properties\<close>

text \<open>
  C16. What becomes of a well-formed request head does not depend on how its bytes are cut into
  segments. If the checks of its fields refuse it, the connection fails with status 400 and no handler
  has been called. If they accept it, the request has its method, its target and its fields (names in
  lower case), and when it announces no body it is delivered to the handler exactly once and the
  connection is then ready for the next request. The checks do accept it when Host is the first field
  and no other field is named Host, Content-Length or Transfer-Encoding.
\<close>

theorem request_delivered_in_pieces:
  fixes cb :: "'u callbacks"
  assumes "lineOk line" and "list_all fieldOk hdrs" and "length hdrs \<le> UWS_HTTP_MAX_HEADERS_COUNT - 2"
    and "hdrs \<noteq> []" and "\<forall>h\<in>set hdrs. fst h \<noteq> []"
    and "concat segs = encodeHead line hdrs" and "\<forall>seg\<in>set segs. seg \<noteq> []"
    and "length (concat segs) < maxHeaderSize" and "maxHeaderSize < 2 ^ 31"
  shows "(hostFirst (lowerKeys hdrs) \<longrightarrow> checkRequest (line # lowerKeys hdrs) \<noteq> None) \<and>
    (case checkRequest (line # lowerKeys hdrs) of
       None \<Rightarrow> \<exists>p pp. httpStream maxHeaderSize cb freshParser freshProxy u segs = Some (p, pp, u, Failed HTTP_ERROR_400_BAD_REQUEST)
     | Some req \<Rightarrow>
         getCaseSensitiveMethod req = fst line \<and> getFullUrl req = snd line \<and>
         (\<forall>key. getHeader key req = map_of (lowerKeys hdrs) key) \<and>
         (\<forall>u1 u2. noBody req \<longrightarrow> onRequest cb u req = (u1, True) \<longrightarrow> onData cb u1 [] 0 = (u2, True) \<longrightarrow>
            httpStream maxHeaderSize cb freshParser freshProxy u segs = Some (freshParser, freshProxy, u2, GoAhead)))"
proof -
  let ?hs = "line # lowerKeys hdrs"
  have fields: "headerFields ?hs = lowerKeys hdrs" using assms(5) by (intro headerFields_all) auto
  have accept: "hostFirst (lowerKeys hdrs) \<longrightarrow> checkRequest ?hs \<noteq> None"
    using checkRequest_host_first [of ?hs] unfolding hostFirst_def fields by (intro impI, elim exE conjE) simp
  from headSpec_encode [OF assms(1,4,3,2), of "[]" freshProxy] obtain ys
    where h: "headSpec ([] @ concat segs) freshProxy = ((Complete (length ([] @ concat segs)) ?hs, ys), freshProxy)"
    by (auto simp: assms(6))
  have w: "waiting maxHeaderSize freshParser freshProxy freshProxy []"
    using assms(8) by (simp add: waiting_def freshParser_def headSpec_def proxyParse_def)
  have len: "length ([] @ concat segs) < maxHeaderSize" using assms(8) by simp
  have some: "seg \<noteq> []" if "seg \<in> set segs" for seg using assms(7) that by blast
  note pieces = httpStream_pieces [OF w len assms(9) h some]
  show ?thesis
  proof (cases "checkRequest ?hs")
    case None
    have last: "\<exists>d. consumePostPadded maxHeaderSize cb (recvCursor q pq u seg) = Some (d, Failed HTTP_ERROR_400_BAD_REQUEST) \<and> huser d = u"
      if "waiting maxHeaderSize q pq freshProxy B" and B: "B @ seg = [] @ concat segs" for q pq B seg
      using consume_refused_piece [OF that(1) len [folded B] assms(9) h [folded B] None] .
    have "\<exists>p q v. httpStream maxHeaderSize cb freshParser freshProxy u segs = Some (p, q, v, Failed HTTP_ERROR_400_BAD_REQUEST) \<and> v = u"
      by (rule pieces [OF _ last]) simp_all
    then show ?thesis using accept None by simp
  next
    case (Some req)
    have get: "getHeader key req = map_of (lowerKeys hdrs) key" for key
      using getHeader_findHeader [OF Some] by (simp add: findHeader_def fields map_of_find)
    have "httpStream maxHeaderSize cb freshParser freshProxy u segs = Some (freshParser, freshProxy, u2, GoAhead)"
      if c: "noBody req" "onRequest cb u req = (u1, True)" "onData cb u1 [] 0 = (u2, True)" for u1 u2
    proof -
      have last: "\<exists>d. consumePostPadded maxHeaderSize cb (recvCursor q pq u seg) = Some (d, GoAhead) \<and>
          hparser d = freshParser \<and> hproxy d = freshProxy \<and> huser d = u2"
        if wq: "waiting maxHeaderSize q pq freshProxy B" and q: "q\<lparr>fallback := []\<rparr> = freshParser\<lparr>fallback := []\<rparr>"
          and B: "B @ seg = [] @ concat segs" for q pq B seg
        using consume_last_piece [OF wq len [folded B] assms(9) h [folded B] Some c] q by (simp add: freshParser_def)
      have "\<exists>p q v. httpStream maxHeaderSize cb freshParser freshProxy u segs = Some (p, q, v, GoAhead) \<and>
          p = freshParser \<and> q = freshProxy \<and> v = u2"
        by (rule pieces [OF _ last]) simp_all
      then show ?thesis by simp
    qed
    then show ?thesis using get Some accept
      by (simp add: getCaseSensitiveMethod_def getFullUrl_def checkRequest_Some(1) [OF Some])
  qed
qed

lemma request_delivered_in_pieces_witness:
  "\<exists>req. getCaseSensitiveMethod req = ascii ''GET'' \<and> getFullUrl req = ascii ''/a'' \<and>
    getHeader (ascii ''host'') req = Some (ascii ''b'') \<and> getHeader (ascii ''range'') req = None \<and>
    httpStream 4096 \<lparr>onRequest = \<lambda>u r. (u @ [r], True), onData = \<lambda>u d n. (u, True)\<rparr> freshParser freshProxy []
        [ascii ''GET /a HTTP/1.1'' @ [CR], [LF] @ ascii ''Ho'', ascii ''st: b'' @ [CR, LF, CR, LF]] =
      Some (freshParser, freshProxy, [req], GoAhead)"
proof -
  let ?line = "(ascii ''GET'', ascii ''/a'')" and ?hdrs = "[(ascii ''Host'', ascii ''b'')]"
  let ?segs = "[ascii ''GET /a HTTP/1.1'' @ [CR], [LF] @ ascii ''Ho'', ascii ''st: b'' @ [CR, LF, CR, LF]]"
  let ?cb = "\<lparr>onRequest = \<lambda>u (r :: HttpRequest). (u @ [r], True), onData = \<lambda>u (d :: bytes) (n :: u64). (u, True)\<rparr>"
  have pre: "lineOk ?line" "list_all fieldOk ?hdrs" "length ?hdrs \<le> UWS_HTTP_MAX_HEADERS_COUNT - 2" "?hdrs \<noteq> []"
    "\<forall>h\<in>set ?hdrs. fst h \<noteq> []" "concat ?segs = encodeHead ?line ?hdrs" "\<forall>seg\<in>set ?segs. seg \<noteq> []"
    "length (concat ?segs) < 4096" "(4096 :: nat) < 2 ^ 31"
    by (simp_all add: lineOk_def scharGe_def fieldOk_def trimmed_def fieldByte_def isFieldNameByteFastLowercased_def valueByte_def
        UWS_HTTP_MAX_HEADERS_COUNT_def encodeHead_def fieldLine_def httpVersion_def)
  have key: "lowerKeys ?hdrs = [(hostKey, ascii ''b'')]" by (simp add: lower_def)
  have host: "hostFirst (lowerKeys ?hdrs)" unfolding key by (simp add: hostFirst_def)
  note all = request_delivered_in_pieces [OF pre, of ?cb "[]"]
  from all host obtain req where req: "checkRequest (?line # lowerKeys ?hdrs) = Some req" by blast
  have none: "noBody req" unfolding noBody_def getHeader_findHeader [OF req] findHeader_None headerFields_def key by simp
  have cbs: "onRequest ?cb [] req = ([req], True)" "onData ?cb [req] [] 0 = ([req], True)" by simp_all
  note facts = all [unfolded req option.case, THEN conjunct2]
  from facts none cbs have "httpStream 4096 ?cb freshParser freshProxy [] ?segs = Some (freshParser, freshProxy, [req], GoAhead)"
    by blast
  moreover have "getHeader k req = map_of (lowerKeys ?hdrs) k" "getCaseSensitiveMethod req = fst ?line" "getFullUrl req = snd ?line" for k
    using facts by blast+
  ultimately show ?thesis unfolding key by (intro exI [of _ req]) simp
qed

text \<open>
  Looking a header up in an accepted request gives the value of its first field with that name:
  the filter, which may answer wrongly, never changes the result.
\<close>

theorem getHeader_is_first_field:
  assumes "checkRequest hs = Some req"
  shows "getHeader key req = map_of (headerFields hs) key"
  using getHeader_findHeader [OF assms] by (simp add: findHeader_def map_of_find)

lemma getHeader_is_first_field_witness:
  "\<exists>req. getHeader (ascii ''accept'') req = Some [49]"
proof -
  let ?hs = "[(ascii ''GET'', [47]), (hostKey, [97]), (ascii ''accept'', [49]), (ascii ''accept'', [50])]"
  have "headerFields ?hs = [(hostKey, [97]), (ascii ''accept'', [49]), (ascii ''accept'', [50])]"
    by (simp add: headerFields_def)
  moreover from checkRequest_host_first [OF this] obtain req where "checkRequest ?hs = Some req"
    by (auto simp: criticalKeys_def)
  ultimately show ?thesis using getHeader_is_first_field [of ?hs req "ascii ''accept''"] by auto
qed

text \<open>
  C8. A request that is accepted says only one thing about its host and its length to its handlers:
  among the fields they can see there is exactly one Host, at most one Content-Length and at most one
  Transfer-Encoding, and not both of the last two with a value. The fields that can be seen are those
  in front of the first one with an empty name, so all of them when no name is empty.
\<close>

theorem accepted_request_is_unambiguous:
  assumes "checkRequest hs = Some req"
  shows "let seen = map fst (takeWhile (\<lambda>h. fst h \<noteq> []) (tl hs)) in
    length (filter (\<lambda>k. k = hostKey) seen) = 1 \<and>
    length (filter (\<lambda>k. k = contentLengthKey) seen) \<le> 1 \<and>
    length (filter (\<lambda>k. k = transferEncodingKey) seen) \<le> 1 \<and>
    (valueLength (getHeader transferEncodingKey req) = 0 \<or> valueLength (getHeader contentLengthKey req) = 0) \<and>
    (\<forall>key. getHeader key req = map_of (takeWhile (\<lambda>h. fst h \<noteq> []) (tl hs)) key)"
proof -
  have once: "length (filter (\<lambda>k. k = key) (fieldKeys hs)) \<le> 1" if "key \<in> criticalKeys" for key
    using addHeaders_once [OF checkRequest_Some(3) [OF assms] that] by simp
  have crit: "hostKey \<in> criticalKeys" "contentLengthKey \<in> criticalKeys" "transferEncodingKey \<in> criticalKeys"
    unfolding criticalKeys_def by blast+
  have "hostKey \<in> set (fieldKeys hs)"
    using checkRequest_Some(5) [OF assms] unfolding getHeader_findHeader [OF assms] findHeader_None by blast
  note one = le_antisym [OF once [OF crit(1)] filter_member [OF this]]
  have "\<forall>key. getHeader key req = map_of (headerFields hs) key"
    using getHeader_findHeader [OF assms] by (simp add: findHeader_def map_of_find)
  then show ?thesis unfolding headerFields_def [symmetric] Let_def using one once [OF crit(2)] once [OF crit(3)] checkRequest_Some(6) [OF assms] by blast
qed

lemma accepted_request_is_unambiguous_witness:
  "\<exists>req. checkRequest [(ascii ''GET'', [47]), (hostKey, [97])] = Some req \<and>
    (valueLength (getHeader transferEncodingKey req) = 0 \<or> valueLength (getHeader contentLengthKey req) = 0) \<and>
    getHeader hostKey req = Some [97]"
proof -
  define hs where "hs = [(ascii ''GET'', [47 :: byte]), (hostKey, [97])]"
  have fields: "takeWhile (\<lambda>h. fst h \<noteq> []) (tl hs) = [(hostKey, [97])]" by (simp add: hs_def)
  then have "headerFields hs = [(hostKey, [97])]" by (simp add: headerFields_def)
  from checkRequest_host_first [OF this] obtain req where req: "checkRequest hs = Some req" by simp
  have "getHeader hostKey req = Some [97]"
    using accepted_request_is_unambiguous [OF req] unfolding Let_def fields by simp
  moreover have "valueLength (getHeader transferEncodingKey req) = 0 \<or> valueLength (getHeader contentLengthKey req) = 0"
    using accepted_request_is_unambiguous [OF req] unfolding Let_def by (elim conjE)
  ultimately show ?thesis using req unfolding hs_def by blast
qed

text \<open>
  A single Host field is refused as a duplicate when a field whose name has the same four hashed
  characters comes before it, and accepted when it comes after: the check for duplicates takes the
  filter's answer and then finds the field itself.
\<close>

theorem host_refused_after_lookalike:
  "checkRequest [line, (ascii ''hast'', x), (hostKey, v)] = None \<and>
   checkRequest [line, (hostKey, v), (ascii ''hast'', x)] \<noteq> None"
proof
  let ?hs = "[line, (ascii ''hast'', x), (hostKey, v)]"
  have fields: "headerFields ?hs = [(ascii ''hast'', x), (hostKey, v)]" by (simp add: headerFields_def)
  have "scramble (ascii ''hast'') = scramble hostKey" by (simp add: scramble_def getFeatures_def)
  then have "mightHave hostKey (bloomAdd (ascii ''hast'') bloomReset)"
    using mightHave_add(1) [of "ascii ''hast''" bloomReset] by (simp add: mightHave_def)
  moreover have "findHeader hostKey ?hs \<noteq> None" unfolding findHeader_None fields by simp
  ultimately have "addHeaders ?hs (headerFields ?hs) bloomReset = None" unfolding fields by simp
  then show "checkRequest ?hs = None" by (simp add: checkRequest_def)
next
  have "headerFields [line, (hostKey, v), (ascii ''hast'', x)] = [(hostKey, v), (ascii ''hast'', x)]"
    by (simp add: headerFields_def)
  from checkRequest_host_first [OF this] show "checkRequest [line, (hostKey, v), (ascii ''hast'', x)] \<noteq> None"
    by (simp add: criticalKeys_def)
qed

text \<open>
  C20. A field line with an empty name is accepted and hides every field behind it: the head is parsed
  as a whole, but a Content-Length that follows is not seen, the request counts as one without a body,
  and its body is taken for the next request.
\<close>

theorem empty_name_hides_fields:
  assumes "lineOk line" and "list_all fieldOk hdrs" and "length hdrs \<le> UWS_HTTP_MAX_HEADERS_COUNT - 4"
    and "fieldOk (ascii ''host'', v)" and "list_all valueByte x" and "trimmed x"
  shows "\<exists>req ys. headSpec (encodeHead line ((hostKey, v) # ([], x) # hdrs) @ body) freshProxy =
      ((Complete (length (encodeHead line ((hostKey, v) # ([], x) # hdrs))) (reqHeaders req), ys), freshProxy) \<and>
    checkRequest (reqHeaders req) = Some req \<and> noBody req \<and> (\<forall>key. key \<noteq> hostKey \<longrightarrow> getHeader key req = None)"
proof -
  let ?hdrs = "(hostKey, v) # ([], x) # hdrs" and ?hs = "line # (hostKey, v) # ([], x) # lowerKeys hdrs"
  have "lower 104 = 104" "lower 111 = 111" "lower 115 = 115" "lower 116 = 116" by (simp_all add: lower_def)
  then have lk: "line # lowerKeys ?hdrs = ?hs" by simp
  have "list_all fieldOk ?hdrs" using assms(2,4-6) by (simp add: fieldOk_def)
  from headSpec_encode [OF assms(1) _ _ this, of body freshProxy] assms(3) obtain ys
    where h: "headSpec (encodeHead line ?hdrs @ body) freshProxy = ((Complete (length (encodeHead line ?hdrs)) ?hs, ys), freshProxy)"
    unfolding lk by (auto simp: UWS_HTTP_MAX_HEADERS_COUNT_def)
  have fields: "headerFields ?hs = [(hostKey, v)]" by (simp add: headerFields_def)
  from checkRequest_host_first [OF fields] obtain req where req: "checkRequest ?hs = Some req" by auto
  have get: "getHeader key req = None" if "key \<noteq> hostKey" for key
    unfolding getHeader_findHeader [OF req] findHeader_None fields using that by simp
  have "contentLengthKey \<noteq> hostKey" "transferEncodingKey \<noteq> hostKey" by simp_all
  then have "noBody req" using get unfolding noBody_def by blast
  then show ?thesis using h req get
    by (intro exI [of _ req] exI [of _ ys]) (simp only: checkRequest_Some(1) [OF req], blast)
qed

lemma empty_name_hides_fields_witness:
  "\<exists>req ys. headSpec (encodeHead (ascii ''POST'', ascii ''/'')
        [(hostKey, ascii ''a''), ([], ascii ''x''), (ascii ''Content-Length'', ascii ''5'')] @ ascii ''hello'') freshProxy =
      ((Complete (length (encodeHead (ascii ''POST'', ascii ''/'')
        [(hostKey, ascii ''a''), ([], ascii ''x''), (ascii ''Content-Length'', ascii ''5'')])) (reqHeaders req), ys), freshProxy) \<and>
    checkRequest (reqHeaders req) = Some req \<and> noBody req \<and> getHeader contentLengthKey req = None"
proof -
  let ?line = "(ascii ''POST'', ascii ''/'')" and ?hdrs = "[(ascii ''Content-Length'', ascii ''5'')]"
  note defs = lineOk_def fieldOk_def trimmed_def fieldByte_def isFieldNameByteFastLowercased_def valueByte_def
    UWS_HTTP_MAX_HEADERS_COUNT_def scharGe_def isUnlikelyFieldNameByte_def
  have "lineOk ?line" "list_all fieldOk ?hdrs" "length ?hdrs \<le> UWS_HTTP_MAX_HEADERS_COUNT - 4"
    "fieldOk (ascii ''host'', ascii ''a'')" "list_all valueByte (ascii ''x'')" "trimmed (ascii ''x'')"
    by (simp_all add: defs)
  from empty_name_hides_fields [OF this, of "ascii ''hello''"] obtain req ys
    where r: "headSpec (encodeHead ?line ((hostKey, ascii ''a'') # ([], ascii ''x'') # ?hdrs) @ ascii ''hello'') freshProxy =
      ((Complete (length (encodeHead ?line ((hostKey, ascii ''a'') # ([], ascii ''x'') # ?hdrs))) (reqHeaders req), ys), freshProxy)"
      "checkRequest (reqHeaders req) = Some req" "noBody req" "\<And>key. key \<noteq> hostKey \<Longrightarrow> getHeader key req = None"
    by blast
  have "getHeader contentLengthKey req = None" by (rule r(4)) simp
  then show ?thesis using r(1-3) by blast
qed

end
