(* ===== verification/HttpDesync.thy ===== *)
theory HttpDesync
  imports HttpRequests
begin

text \<open>
  What a carried chunk size does to the parser: it takes what follows for new requests, collects the
  cut ends of several segments in the fallback buffer, and then consumes less of that buffer than it
  held, so that a length wraps and the parser runs far out of the receive buffer.
\<close>

definition carriedState :: u64 where
  "carriedState = endSizeLine (4611686018427387904 + 1152921504606846975)"

lemma carriedState_facts:
  "carriedState \<noteq> STATE_IS_ERROR" "carriedState \<noteq> STATE_IS_TRAILER" "carriedState AND STATE_IS_TRAILER \<noteq> 0"
  "hasChunkSize carriedState" "chunkSize carriedState \<noteq> 2" "isParsingChunkedEncoding carriedState" "carriedState \<noteq> 0"
  by (simp_all add: carriedState_def endSizeLine_def chunk_flag_defs hasChunkSize_def chunkSize_def STATE_SIZE_MASK_def
      isParsingChunkedEncoding_def)

lemma getNextChunk_carries:
  "getNextChunk (ascii ''fffffffffffffff'' @ [CR, LF] @ rest) STATE_IS_CHUNKED = Some (None, rest, carriedState)"
proof -
  have hex: "hexDigit 102 = Some 15" "hexDigit CR = None"
    by (simp_all add: hexDigit_def)
  have line: "consumeHexNumber (ascii ''fffffffffffffff'' @ [CR, LF] @ rest) STATE_IS_CHUNKED = (rest, carriedState)"
    by (simp add: consumeHexNumber_def chunk_flag_defs hex chunkSize_def STATE_SIZE_MASK_def carriedState_def)
  show ?thesis
    using carriedState_facts by (subst getNextChunk_line)
      (simp_all only: line, simp_all add: isParsingInvalidChunkedEncoding_def getNextChunk_trailer
        hasChunkSize_def flags_disjoint)
qed

text \<open>A stuck decoder leaves a segment as it is and lets the parser go on.\<close>

lemma consumeChunked_stuck:
  assumes "inBounds c" and "getNextChunk (segText c) (remaining c) = Some (None, rest, carriedState)"
    and "length rest \<le> hlen c" and "trailerTail (hparser c) = 0"
  shows "consumeChunked cb c =
    Some (c\<lparr>hpos := hpos c + (hlen c - length rest), hlen := length rest,
            hparser := (hparser c)\<lparr>remainingStreamingBytes := carriedState, trailerTail := 0\<rparr>\<rparr>, GoAhead)"
proof -
  have rd: "rdN (hmem c) (hpos c) (hlen c) = Some (segText c)"
    using rdN_inBounds [OF assms(1)] by (simp add: segText_def)
  have len: "length (segText c) = hlen c" using assms(1) by (auto simp: segText_def inBounds_def)
  have body: "chunkBody cb (segText c) (remaining c) (huser c) = Some (rest, carriedState, huser c, True)"
    using assms(2) by (simp add: chunkBody.simps [of cb "segText c"])
  show ?thesis
    using rd body carriedState_facts assms(3,4) len
    by (simp add: consumeChunked_def consumeChunkedTrailer_other isParsingInvalidChunkedEncoding_def advance_def)
qed

text \<open>The filter tells the three names the parser checks apart.\<close>

lemma scramble_keys:
  "scramble hostKey = [192, 225, 193, 58]" "scramble contentLengthKey = [72, 58, 7, 179]"
  "scramble transferEncodingKey = [224, 238, 214, 115]"
  by code_simp+

lemma checkRequest_second:
  assumes "headerFields hs = [(hostKey, v), (key, w)]" and "key = contentLengthKey \<or> key = transferEncodingKey"
  shows "\<exists>req. checkRequest hs = Some req \<and> getHeader key req = Some w \<and>
    (\<forall>k. k \<noteq> key \<longrightarrow> k \<noteq> hostKey \<longrightarrow> getHeader k req = None)"
proof -
  let ?f1 = "bloomAdd hostKey bloomReset"
  have "\<not> mightHave key ?f1"
    using assms(2) by (auto simp: mightHave_def bloomAdd_def bit_fold_set_bit scramble_keys bloomReset_def
        simp del: ascii_Cons fold_Cons fold_simps)
  then have add: "addHeaders hs (headerFields hs) bloomReset = Some (fold bloomAdd (fieldKeys hs) bloomReset)"
    using mightHave_reset [of hostKey] unfolding assms(1) by simp
  have other: "findHeader k hs = None" if "k \<noteq> key" "k \<noteq> hostKey" for k
    unfolding findHeader_None assms(1) using that by simp
  have kh: "key \<noteq> hostKey" using assms(2) by auto
  have "findHeader hostKey hs = Some v" "findHeader key hs = Some w" using kh by (simp_all add: findHeader_def assms(1))
  moreover have "mightHave hostKey (fold bloomAdd (fieldKeys hs) bloomReset)"
    by (rule no_false_negative) (simp add: assms(1))
  moreover have "findHeader contentLengthKey hs = None \<or> findHeader transferEncodingKey hs = None"
    using assms(2) other [of contentLengthKey] other [of transferEncodingKey] by auto
  ultimately have "checkRequest hs \<noteq> None"
    using add by (auto simp: checkRequest_def Let_def getHeader_def valueLength_def)
  then obtain req where req: "checkRequest hs = Some req" by blast
  then show ?thesis using getHeader_findHeader [OF req] \<open>findHeader key hs = Some w\<close> other by auto
qed

section \<open>Requests with a body\<close>

lemma headersSpec_tail: "headersSpec n xs = (Complete c hs, ys) \<Longrightarrow> drop c ys = drop c xs"
proof (induction n arbitrary: xs c hs ys)
  case 0
  then show ?case by simp
next
  case (Suc n)
  from Suc.prems obtain m name v s where l: "Suc n = Suc m" "xs = name @ 58 # v @ CR # LF # s"
    "\<forall>b\<in>set name. fieldByte b" "\<forall>b\<in>set v. valueByte b"
    and more: "(\<exists>s'. s = CR # LF # s') \<and> c = length name + length v + 5 \<and> hs = [(map lower name, trimValue v)] \<or>
     s \<noteq> [] \<and> hd s \<noteq> CR \<and>
       (\<exists>c' hs' s'. headersSpec m s = (Complete c' hs', s') \<and> c = length name + length v + 3 + c' \<and>
          hs = (map lower name, trimValue v) # hs')"
    by (rule headersSpec_Complete) blast
  have m: "m = n" using l(1) by simp
  note line = headersSpec_line [OF l(3,4), of n s, folded l(2)]
  have drop: "drop (length name + length v + 3 + k) (a @ 58 # v @ CR # LF # t) = drop k t" if "length a = length name" for a t k
    using that by (simp add: numeral_eq_Suc)
  from more show ?case
  proof (elim disjE conjE exE)
    fix s' assume "s = CR # LF # s'" "c = length name + length v + 5"
    then have ys: "ys = map lower name @ 58 # v @ CR # LF # s" "c = length name + length v + 3 + 2"
      using Suc.prems unfolding line by (auto simp: Let_def)
    show ?thesis unfolding ys l(2) by (simp only: drop length_map)
  next
    fix c' hs' s' assume h: "s \<noteq> []" "hd s \<noteq> CR" "headersSpec m s = (Complete c' hs', s')" "c = length name + length v + 3 + c'"
    then have ys: "ys = map lower name @ 58 # v @ CR # LF # s'"
      using Suc.prems unfolding line by (auto simp: Let_def m split: if_splits)
    have "drop c' s' = drop c' s" using Suc.IH h(3) m by blast
    then show ?thesis unfolding ys l(2) h(4) by (simp only: drop length_map)
  qed
qed

lemma headSpec_tail: "headSpec xs pp = ((Complete c hs, ys), pp') \<Longrightarrow> drop c ys = drop c xs"
proof -
  assume h: "headSpec xs pp = ((Complete c hs, ys), pp')"
  then obtain off line n c' hs' zs where l: "lineSpec (drop off xs) = Line line n"
    and f: "headersSpec (UWS_HTTP_MAX_HEADERS_COUNT - 2) (drop (off + n) xs) = (Complete c' hs', zs)"
    and c: "c = off + n + c'" "ys = take (off + n) xs @ zs"
    unfolding headSpec_def by (auto split: prod.splits bool.splits requestLine.splits headResult.splits)
  have "off + n \<le> length xs" using lineSpec_more [OF l] by simp
  then have "length (take (off + n) xs) = off + n" by simp
  then have "drop (off + n + c') ys = drop c' zs" unfolding c(2) by simp
  moreover have "drop (off + n + c') xs = drop c' (drop (off + n) xs)" by (simp add: add.commute)
  ultimately show ?thesis using headersSpec_tail [OF f] by (simp only: c(1))
qed

lemma segText_moved:
  "segText (c\<lparr>hpos := hpos c + k, hlen := hlen c - k\<rparr>) = drop k (segText c)"
  by (simp add: segText_def drop_take add.commute)

text \<open>One more request of a segment is handed to its handler.\<close>

lemma requestLoop_step:
  assumes "fenced c" and "headSpec (segText c) (hproxy c) = ((Complete n hs, ys), pp)" and "n \<le> maxH"
    and "checkRequest hs = Some req" and "onRequest cb (huser c) req = (u1, True)"
  shows "\<exists>c1. fenced c1 \<and> segText c1 = drop n (segText c) \<and> hlen c1 = hlen c - n \<and> hparser c1 = hparser c \<and>
    hproxy c1 = pp \<and> huser c1 = u1 \<and> hpos c1 = hpos c + n \<and>
    (\<forall>c2. startBody False cb req c1 = Some (c2, GoAhead) \<longrightarrow>
       requestLoop False maxH cb c = requestLoop False maxH cb c2) \<and>
    (\<forall>c2. startBody True cb req c1 = Some (c2, GoAhead) \<longrightarrow>
       requestLoop True maxH cb c = Some (c2, GoAhead))"
proof -
  obtain mem where g: "getHeaders (hmem c) (hpos c) (hpos c + hlen c) (hproxy c) = Some ((mem, pp), Complete n hs)"
    and f: "fenced (c\<lparr>hmem := mem, hproxy := pp\<rparr>)" "segText (c\<lparr>hmem := mem, hproxy := pp\<rparr>) = ys"
    using getHeaders_fenced [OF assms(1,2)] by blast
  let ?c0 = "c\<lparr>hmem := mem, hproxy := pp\<rparr>"
  have n: "0 < n" "n \<le> hlen c"
    using headSpec_le [OF assms(2)] by (auto simp: segText_def)
  let ?c1 = "?c0\<lparr>hpos := hpos c + n, hlen := hlen c - n, huser := u1\<rparr>"
  have "moved ?c0 ?c1" using n by (auto simp: moved_def)
  then have "fenced ?c1" using fenced_moved f(1) by blast
  moreover have "segText ?c1 = drop n ys"
    using segText_moved [of ?c0 n] f(2) by (simp add: segText_def)
  moreover have "handleHead minimally maxH cb n hs ?c0 = startBody minimally cb req ?c1" for minimally
    using n assms(3-5) by (simp add: handleHead_def advance_def)
  ultimately show ?thesis using g n headSpec_tail [OF assms(2)]
    by (intro exI [of _ ?c1]) (simp add: requestLoop.simps [of _ _ _ c])
qed

text \<open>The end of a segment that stops inside a head.\<close>

lemma consumeRest_wait:
  assumes "padded c" and "\<And>mem. fenced (c\<lparr>hmem := mem\<rparr>) \<Longrightarrow> segText (c\<lparr>hmem := mem\<rparr>) = segText c \<Longrightarrow>
      \<exists>c2. requestLoop False maxH cb (c\<lparr>hmem := mem\<rparr>) = requestLoop False maxH cb c2 \<and> fenced c2 \<and>
        hparser c2 = p \<and> hproxy c2 = pp \<and> huser c2 = u \<and> segText c2 = tx"
    and "headSpec tx pp = ((Incomplete, ys), pp')" and "tx \<noteq> []" and "length tx < maxH"
  shows "\<exists>c'. consumeRest maxH cb c = Some (c', GoAhead) \<and> hparser c' = p\<lparr>fallback := fallback p @ ys\<rparr> \<and>
    hproxy c' = pp' \<and> huser c' = u"
proof -
  obtain mem where f: "fenceAndConsumePostPadded False maxH cb c = requestLoop False maxH cb (c\<lparr>hmem := mem\<rparr>)"
    "fenced (c\<lparr>hmem := mem\<rparr>)" "segText (c\<lparr>hmem := mem\<rparr>) = segText c"
    using fence_write [OF assms(1)] by blast
  from assms(2) [OF f(2,3)] obtain c2 where c2: "requestLoop False maxH cb (c\<lparr>hmem := mem\<rparr>) = requestLoop False maxH cb c2"
    "fenced c2" "hparser c2 = p" "hproxy c2 = pp" "huser c2 = u" "segText c2 = tx" by blast
  have len: "hlen c2 = length tx"
    using fenced_inBounds [OF c2(2)] c2(6) by (auto simp: segText_def inBounds_def)
  have h: "headSpec (segText c2) (hproxy c2) = ((Incomplete, ys), pp')" using assms(3) c2 by simp
  from requestLoop_Incomplete [OF c2(2) h, of False maxH cb] obtain mem'
    where l: "requestLoop False maxH cb c2 = Some (c2\<lparr>hmem := mem', hproxy := pp'\<rparr>, GoAhead)"
      "fenced (c2\<lparr>hmem := mem', hproxy := pp'\<rparr>)" "segText (c2\<lparr>hmem := mem', hproxy := pp'\<rparr>) = ys"
    using len assms(4) by auto
  have "rdN mem' (hpos c2) (length tx) = Some ys"
    using rdN_inBounds [OF fenced_inBounds [OF l(2)], of "length tx"] l(3) len by (simp add: segText_def)
  then show ?thesis
    using f(1) c2(1,3,5) l(1) len assms(4,5) by (auto simp: consumeRest_def)
qed

lemma segText_length: "inBounds c \<Longrightarrow> length (segText c) = hlen c"
  by (auto simp: segText_def inBounds_def)

lemma segText_remaining: "segText (c\<lparr>hparser := p\<rparr>) = segText c"
  by (simp add: segText_def)

lemma fenced_parser: "fenced (c\<lparr>hparser := p, huser := u\<rparr>) \<longleftrightarrow> fenced c" "fenced (c\<lparr>hparser := p\<rparr>) \<longleftrightarrow> fenced c"
  by (simp_all add: fenced_def)

section \<open>Three segments\<close>

definition allow :: "unit callbacks" where
  "allow = \<lparr>onRequest = \<lambda>u r. (u, True), onData = \<lambda>u d n. (u, True)\<rparr>"

definition hostA :: header where
  "hostA = (hostKey, ascii ''a'')"

definition postLine :: header where
  "postLine = (ascii ''POST'', ascii ''/'')"

definition cutHead :: bytes where
  "cutHead = ascii ''GET'' @ SP # ascii ''/'' @ httpVersion @ fieldLine hostA"

definition segment1 :: bytes where
  "segment1 = encodeHead postLine [hostA, (transferEncodingKey, ascii ''chunked'')] @
     ascii ''fffffffffffffff'' @ [CR, LF] @ cutHead"

definition segment2 :: bytes where
  "segment2 = encodeHead postLine [hostA, (contentLengthKey, ascii ''0'')] @ [CR, LF] @ ascii ''ZZZZ''"

lemma fieldOk_examples: "fieldOk hostA" "fieldOk (transferEncodingKey, ascii ''chunked'')" "fieldOk (contentLengthKey, ascii ''0'')"
  by (simp_all add: hostA_def fieldOk_def trimmed_def fieldByte_def isFieldNameByteFastLowercased_def
      isUnlikelyFieldNameByte_def valueByte_def)

lemma lineOk_examples: "lineOk postLine" "lineOk (ascii ''GET'', ascii ''/'')"
  by (simp_all add: postLine_def lineOk_def scharGe_def)

lemma lower_examples: "lowerKeys [hostA] = [hostA]"
  "lowerKeys [hostA, (transferEncodingKey, w)] = [hostA, (transferEncodingKey, w)]"
  "lowerKeys [hostA, (contentLengthKey, w)] = [hostA, (contentLengthKey, w)]"
  by (simp_all add: hostA_def lower_def)

lemma headSpec_cutHead: "headSpec cutHead freshProxy = ((Incomplete, cutHead), freshProxy)"
proof -
  have "take 4 cutHead \<noteq> [CR, LF, CR, LF]" "4 \<le> length cutHead" by (simp_all add: cutHead_def httpVersion_def)
  then have p: "proxyParse cutHead freshProxy = ((True, 0), freshProxy)" by (rule proxyParse_http)
  have fl: "fieldLine hostA = hostKey @ 58 # [SP, 97] @ CR # LF # []" by (simp add: fieldLine_def hostA_def)
  have "lineSpec cutHead = Line (ascii ''GET'', ascii ''/'') 16"
    unfolding lineSpec_Line_iff cutHead_def fl by (simp add: scharGe_def)
  moreover have d: "drop 16 cutHead = fieldLine hostA" "take 16 cutHead = ascii ''GET'' @ SP # ascii ''/'' @ httpVersion"
    by (simp_all add: cutHead_def httpVersion_def)
  have fuel: "UWS_HTTP_MAX_HEADERS_COUNT - 2 = Suc 97" by (simp add: UWS_HTTP_MAX_HEADERS_COUNT_def)
  have "headersSpec (Suc 97) (fieldLine hostA) = (Incomplete, fieldLine hostA)"
    unfolding fl by (subst headersSpec_line)
      (simp_all add: Let_def fieldByte_def isFieldNameByteFastLowercased_def valueByte_def lower_def)
  ultimately show ?thesis using p d fuel by (simp add: headSpec_def) (simp add: cutHead_def)
qed

lemma headSpec_tail_text: "headSpec (CR # LF # ascii ''ZZZZ'') pp = ((Incomplete, CR # LF # ascii ''ZZZZ''), pp)"
proof -
  have p: "proxyParse (CR # LF # ascii ''ZZZZ'') pp = ((True, 0), pp)" by (rule proxyParse_http) simp_all
  have "lineSpec (CR # LF # ascii ''ZZZZ'') = TryAgain" by (simp add: lineSpec_def scharGe_def)
  then show ?thesis using p by (simp add: headSpec_def)
qed

lemma step1:
  "\<exists>c. consumePostPadded 4096 allow (recvCursor freshParser freshProxy () segment1) = Some (c, GoAhead) \<and>
     hparser c = \<lparr>fallback = cutHead, remainingStreamingBytes = carriedState, trailerTail = 0\<rparr> \<and> hproxy c = freshProxy"
proof -
  let ?c = "recvCursor freshParser freshProxy () segment1"
  let ?hdrs = "[hostA, (transferEncodingKey, ascii ''chunked'')]"
  let ?n = "length (encodeHead postLine ?hdrs)" and ?chunk = "ascii ''fffffffffffffff'' @ [CR, LF] @ cutHead"
  let ?p = "\<lparr>fallback = [], remainingStreamingBytes = carriedState, trailerTail = 0\<rparr>"
  obtain ys where h: "headSpec segment1 freshProxy = ((Complete ?n (postLine # ?hdrs), ys), freshProxy)"
    using headSpec_encode [OF lineOk_examples(1), of ?hdrs ?chunk freshProxy] fieldOk_examples
    unfolding lower_examples segment1_def by (auto simp: UWS_HTTP_MAX_HEADERS_COUNT_def)
  have "headerFields (postLine # ?hdrs) = [(hostKey, ascii ''a''), (transferEncodingKey, ascii ''chunked'')]"
    by (simp add: headerFields_def hostA_def)
  from checkRequest_second [OF this] obtain req where req: "checkRequest (postLine # ?hdrs) = Some req"
    "getHeader transferEncodingKey req = Some (ascii ''chunked'')" by blast
  have nlen: "?n \<le> 4096" by (simp add: encodeHead_def hostA_def fieldLine_def postLine_def httpVersion_def)
  have len: "length segment1 < 2 ^ 31"
    by (simp add: segment1_def encodeHead_def hostA_def fieldLine_def postLine_def httpVersion_def cutHead_def)
  have step: "\<exists>c2. requestLoop False 4096 allow (?c\<lparr>hmem := mem\<rparr>) = requestLoop False 4096 allow c2 \<and> fenced c2 \<and>
      hparser c2 = ?p \<and> hproxy c2 = freshProxy \<and> huser c2 = () \<and> segText c2 = cutHead"
    if f: "fenced (?c\<lparr>hmem := mem\<rparr>)" "segText (?c\<lparr>hmem := mem\<rparr>) = segText ?c" for mem
  proof -
    have t: "segText (?c\<lparr>hmem := mem\<rparr>) = segment1" using f(2) by (simp only: segText_recv)
    have hs: "headSpec (segText (?c\<lparr>hmem := mem\<rparr>)) (hproxy (?c\<lparr>hmem := mem\<rparr>)) = ((Complete ?n (postLine # ?hdrs), ys), freshProxy)"
      using h by (simp add: t) (simp add: recvCursor_def)
    have cbk: "onRequest allow (huser (?c\<lparr>hmem := mem\<rparr>)) req = ((), True)" by (simp add: allow_def)
    from requestLoop_step [OF f(1) hs nlen req(1) cbk] obtain c1 where c1: "fenced c1"
      "segText c1 = drop ?n segment1" "hparser c1 = freshParser" "hproxy c1 = freshProxy"
      and go: "\<And>c2. startBody False allow req c1 = Some (c2, GoAhead) \<Longrightarrow>
        requestLoop False 4096 allow (?c\<lparr>hmem := mem\<rparr>) = requestLoop False 4096 allow c2"
      unfolding t by (auto simp: recvCursor_def)
    have t1: "segText c1 = ?chunk" unfolding c1(2) segment1_def by simp
    let ?c1 = "c1\<lparr>hparser := (hparser c1)\<lparr>remainingStreamingBytes := STATE_IS_CHUNKED, trailerTail := 0\<rparr>\<rparr>"
    have f1: "fenced ?c1" using c1(1) by (simp only: fenced_parser)
    have hl: "hlen c1 = length ?chunk"
      using segText_length [OF fenced_inBounds [OF c1(1)]] t1 by simp
    have next1: "getNextChunk (segText ?c1) (remaining ?c1) = Some (None, cutHead, carriedState)"
      unfolding segText_remaining t1 using getNextChunk_carries [of cutHead] by simp
    let ?c2 = "?c1\<lparr>hpos := hpos ?c1 + (hlen ?c1 - length cutHead), hlen := length cutHead,
       hparser := (hparser ?c1)\<lparr>remainingStreamingBytes := carriedState, trailerTail := 0\<rparr>\<rparr>"
    have cc: "consumeChunked allow ?c1 = Some (?c2, GoAhead)"
      by (rule consumeChunked_stuck [OF fenced_inBounds [OF f1] next1]) (use hl in simp_all)
    have "startBody False allow req c1 = Some (?c2, GoAhead)"
      using cc req(2) by (simp add: startBody_def valueLength_def Let_def)
    from go [OF this] have loop: "requestLoop False 4096 allow (?c\<lparr>hmem := mem\<rparr>) = requestLoop False 4096 allow ?c2" .
    have m: "moved c1 ?c2" using hl by (auto simp: moved_def)
    have f2: "fenced ?c2" using fenced_moved [OF c1(1) m] .
    have "segText ?c2 = drop (hlen c1 - length cutHead) (segText c1)"
      using hl by (simp add: segText_def drop_take add.commute)
    also have "\<dots> = cutHead" unfolding t1 hl by simp
    finally have "segText ?c2 = cutHead" .
    then show ?thesis using loop f2 c1(3,4) by (intro exI [of _ ?c2]) (simp add: freshParser_def)
  qed
  have p: "padded ?c" using padded_recv [OF len] .
  have ch: "cutHead \<noteq> []" "length cutHead < 4096" by (simp_all add: cutHead_def httpVersion_def hostA_def fieldLine_def)
  from consumeRest_wait [OF p step headSpec_cutHead ch]
  show ?thesis by (simp add: consumePostPadded_def) (simp add: recvCursor_def freshParser_def)
qed

text \<open>In the next segment a new request resets the decoder, but not the fallback buffer.\<close>

lemma step2:
  assumes "p = \<lparr>fallback = cutHead, remainingStreamingBytes = carriedState, trailerTail = 0\<rparr>"
  shows "\<exists>c. consumePostPadded 4096 allow (recvCursor p freshProxy () segment2) = Some (c, GoAhead) \<and>
     hparser c = \<lparr>fallback = cutHead @ CR # LF # ascii ''ZZZZ'', remainingStreamingBytes = 0, trailerTail = 0\<rparr> \<and>
     hproxy c = freshProxy"
proof -
  let ?c = "recvCursor p freshProxy () segment2"
  let ?hdrs = "[hostA, (contentLengthKey, ascii ''0'')]"
  let ?n = "length (encodeHead postLine ?hdrs)" and ?tail = "CR # LF # ascii ''ZZZZ''"
  let ?p = "\<lparr>fallback = cutHead, remainingStreamingBytes = 0, trailerTail = 0\<rparr>"
  have seg: "segment2 = encodeHead postLine ?hdrs @ ?tail" by (simp add: segment2_def)
  obtain ys where h: "headSpec segment2 freshProxy = ((Complete ?n (postLine # ?hdrs), ys), freshProxy)"
    using headSpec_encode [OF lineOk_examples(1), of ?hdrs ?tail freshProxy] fieldOk_examples
    unfolding lower_examples seg by (auto simp: UWS_HTTP_MAX_HEADERS_COUNT_def)
  have "headerFields (postLine # ?hdrs) = [(hostKey, ascii ''a''), (contentLengthKey, ascii ''0'')]"
    by (simp add: headerFields_def hostA_def)
  moreover have "transferEncodingKey \<noteq> contentLengthKey" "transferEncodingKey \<noteq> hostKey" by simp_all
  ultimately obtain req where req: "checkRequest (postLine # ?hdrs) = Some req"
    "getHeader contentLengthKey req = Some (ascii ''0'')" "getHeader transferEncodingKey req = None"
    using checkRequest_second [of _ _ contentLengthKey] by blast
  have nlen: "?n \<le> 4096" by (simp add: encodeHead_def hostA_def fieldLine_def postLine_def httpVersion_def)
  have len: "length segment2 < 2 ^ 31"
    by (simp add: segment2_def encodeHead_def hostA_def fieldLine_def postLine_def httpVersion_def)
  have pd: "padded ?c" using padded_recv [OF len] .
  have zero: "toUnsignedInteger (ascii ''0'') = 0" "(0 :: u64) \<noteq> UINT64_MAX"
    by (simp_all add: toUnsignedInteger_value decimal_def UINT64_MAX_def)
  have step: "\<exists>c2. requestLoop False 4096 allow (?c\<lparr>hmem := mem\<rparr>) = requestLoop False 4096 allow c2 \<and> fenced c2 \<and>
      hparser c2 = ?p \<and> hproxy c2 = freshProxy \<and> huser c2 = () \<and> segText c2 = ?tail"
    if f: "fenced (?c\<lparr>hmem := mem\<rparr>)" "segText (?c\<lparr>hmem := mem\<rparr>) = segText ?c" for mem
  proof -
    have t: "segText (?c\<lparr>hmem := mem\<rparr>) = segment2" using f(2) by (simp only: segText_recv)
    have hs: "headSpec (segText (?c\<lparr>hmem := mem\<rparr>)) (hproxy (?c\<lparr>hmem := mem\<rparr>)) = ((Complete ?n (postLine # ?hdrs), ys), freshProxy)"
      using h by (simp add: t) (simp add: recvCursor_def)
    have cbk: "onRequest allow (huser (?c\<lparr>hmem := mem\<rparr>)) req = ((), True)" by (simp add: allow_def)
    from requestLoop_step [OF f(1) hs nlen req(1) cbk] obtain c1 where c1: "fenced c1"
      "segText c1 = drop ?n segment2" "hparser c1 = p" "hproxy c1 = freshProxy"
      and go: "\<And>c2. startBody False allow req c1 = Some (c2, GoAhead) \<Longrightarrow>
        requestLoop False 4096 allow (?c\<lparr>hmem := mem\<rparr>) = requestLoop False 4096 allow c2"
      unfolding t by (auto simp: recvCursor_def)
    have t1: "segText c1 = ?tail" unfolding c1(2) seg by simp
    let ?c2 = "c1\<lparr>hparser := (hparser c1)\<lparr>remainingStreamingBytes := 0\<rparr>, huser := ()\<rparr>"
    have rd: "rdN (hmem c1) (hpos c1) 0 = Some []"
      using rdN_inBounds [OF fenced_inBounds [OF c1(1)], of 0] by simp
    have "startBody False allow req c1 = Some (?c2, GoAhead)"
      using req(2,3) zero rd
      by (simp add: startBody_def valueLength_def Let_def allow_def advance_def del: ascii_Cons)
    from go [OF this] have "requestLoop False 4096 allow (?c\<lparr>hmem := mem\<rparr>) = requestLoop False 4096 allow ?c2" .
    moreover have "fenced ?c2" using c1(1) by (simp only: fenced_parser)
    moreover have "segText ?c2 = ?tail" using t1 by (simp add: segText_def)
    ultimately show ?thesis using c1(3,4) assms by (intro exI [of _ ?c2]) simp
  qed
  have ch: "?tail \<noteq> []" "length ?tail < 4096" by simp_all
  have t0: "segText ?c = segment2" by (rule segText_recv)
  have rc: "remaining ?c = carriedState" by (simp add: recvCursor_def assms)
  have skip: "consumeChunked allow ?c = Some (?c, GoAhead)"
  proof -
    have "getNextChunk (segText ?c) (remaining ?c) = Some (None, segment2, carriedState)"
      unfolding t0 using carriedState_facts(3) by (simp add: getNextChunk_trailer recvCursor_def assms)
    from consumeChunked_stuck [OF padded_inBounds [OF pd] this, of allow]
    show ?thesis by (simp add: recvCursor_def assms)
  qed
  have "consumePostPadded 4096 allow ?c = consumeRest 4096 allow ?c"
    using skip carriedState_facts(6,7) rc by (simp add: consumePostPadded_def consumeStreamingBody_def)
  then show ?thesis using consumeRest_wait [OF pd step headSpec_tail_text ch] by simp
qed

text \<open>Then less is consumed than the fallback buffer held, and the difference wraps.\<close>

lemma step3:
  assumes "p = \<lparr>fallback = cutHead @ CR # LF # ascii ''ZZZZ'', remainingStreamingBytes = 0, trailerTail = 0\<rparr>"
  shows "consumePostPadded 4096 allow (recvCursor p freshProxy () [65]) = None"
proof -
  let ?c = "recvCursor p freshProxy () [65]"
  let ?line = "(ascii ''GET'', ascii ''/'')"
  let ?n = "length (encodeHead ?line [hostA])"
  let ?tx = "encodeHead ?line [hostA] @ ascii ''ZZZZA''"
  have tx: "?tx = fallback (hparser ?c) @ [65]"
    by (simp add: recvCursor_def assms encodeHead_def cutHead_def)
  obtain ys where h: "headSpec ?tx freshProxy = ((Complete ?n [?line, hostA], ys), freshProxy)"
    using headSpec_encode [OF lineOk_examples(2), of "[hostA]" "ascii ''ZZZZA''" freshProxy] fieldOk_examples
    unfolding lower_examples by (auto simp: UWS_HTTP_MAX_HEADERS_COUNT_def)
  have fields: "headerFields [?line, hostA] = [(hostKey, ascii ''a'')]" by (simp add: headerFields_def hostA_def)
  from checkRequest_host_first [OF fields] have "checkRequest [?line, hostA] \<noteq> None" by simp
  then obtain req where req: "checkRequest [?line, hostA] = Some req" by blast
  have none: "noBody req" unfolding noBody_def getHeader_findHeader [OF req] findHeader_None fields by simp
  have nlen: "?n \<le> 4096" "length ?tx < 2 ^ 31" "?n = 27"
    by (simp_all add: encodeHead_def hostA_def fieldLine_def httpVersion_def)
  define b where "b = \<lparr>hmem = ?tx @ replicate MINIMUM_HTTP_POST_PADDING 0, hpos = 0, hlen = length ?tx,
     hparser = p, hproxy = freshProxy, huser = ()\<rparr>"
  obtain mem where f: "fenceAndConsumePostPadded True 4096 allow b = requestLoop True 4096 allow (b\<lparr>hmem := mem\<rparr>)"
    "fenced (b\<lparr>hmem := mem\<rparr>)" "segText (b\<lparr>hmem := mem\<rparr>) = ?tx"
    using fence_write [OF fallback_buffer(1) [OF nlen(2), of p freshProxy "()"], folded b_def]
      fallback_buffer(2) [OF nlen(2), of p freshProxy "()", folded b_def] by metis
  have hs: "headSpec (segText (b\<lparr>hmem := mem\<rparr>)) (hproxy (b\<lparr>hmem := mem\<rparr>)) = ((Complete ?n [?line, hostA], ys), freshProxy)"
    using h f(3) by (simp add: b_def)
  have cbk: "onRequest allow (huser (b\<lparr>hmem := mem\<rparr>)) req = ((), True)" by (simp add: allow_def)
  from requestLoop_step [OF f(2) hs nlen(1) req cbk] obtain c1 where c1: "hpos c1 = ?n"
    and go: "\<And>c2. startBody True allow req c1 = Some (c2, GoAhead) \<Longrightarrow>
      requestLoop True 4096 allow (b\<lparr>hmem := mem\<rparr>) = Some (c2, GoAhead)"
    by (auto simp: b_def)
  have "startBody True allow req c1 = Some (c1\<lparr>huser := ()\<rparr>, GoAhead)"
    by (rule startBody_none [OF none]) (simp add: allow_def)
  from go [OF this] have loop: "requestLoop True 4096 allow (b\<lparr>hmem := mem\<rparr>) = Some (c1, GoAhead)" by simp
  have had: "length (fallback (hparser ?c)) = 31"
    by (simp add: recvCursor_def assms cutHead_def hostA_def fieldLine_def httpVersion_def)
  have small: "length (fallback (hparser ?c)) < 4096" using had by simp
  have copied: "rdN (hmem ?c) (hpos ?c) (min (4096 - length (fallback (hparser ?c))) (hlen ?c)) = Some [65]"
    unfolding had by (simp add: recvCursor_def rdN_def)
  have run: "fenceAndConsumePostPadded True 4096 allow
      \<lparr>hmem = ?tx @ replicate MINIMUM_HTTP_POST_PADDING 0, hpos = 0, hlen = length ?tx,
       hparser = hparser ?c, hproxy = hproxy ?c, huser = huser ?c\<rparr> = Some (c1, GoAhead)"
    using f(1) loop by (simp only: b_def) (simp add: recvCursor_def)
  have "consumeFallback 4096 allow ?c = None"
    unfolding consumeFallback_step [OF small copied tx run refl refl] had c1 nlen(3) by simp
  moreover have "remaining ?c = 0" "fallback (hparser ?c) \<noteq> []" using assms by (simp_all add: recvCursor_def)
  ultimately show ?thesis by (simp add: consumePostPadded_def)
qed

section \<open>Properties\<close>

text \<open>
  C19. Three segments a client may send make the parser compute a position far outside of the receive
  buffer: a chunked request with a carried chunk size and the beginning of another request behind it,
  a second request with an unfinished head behind it, and one more byte.
\<close>

theorem carried_chunk_size_leaves_the_buffer:
  "httpStream 4096 allow freshParser freshProxy () [segment1, segment2, [65]] = None"
proof -
  obtain c1 where c1: "consumePostPadded 4096 allow (recvCursor freshParser freshProxy () segment1) = Some (c1, GoAhead)"
    "hparser c1 = \<lparr>fallback = cutHead, remainingStreamingBytes = carriedState, trailerTail = 0\<rparr>" "hproxy c1 = freshProxy"
    using step1 by blast
  obtain c2 where c2: "consumePostPadded 4096 allow (recvCursor (hparser c1) freshProxy () segment2) = Some (c2, GoAhead)"
    "hparser c2 = \<lparr>fallback = cutHead @ CR # LF # ascii ''ZZZZ'', remainingStreamingBytes = 0, trailerTail = 0\<rparr>"
    "hproxy c2 = freshProxy"
    using step2 [OF c1(2)] by blast
  show ?thesis using c1(1,3) c2(1,3) step3 [OF c2(2)] by simp
qed

end
