(* ===== verification/StringView.thy ===== *)
theory StringView
  imports Prelude
begin

text \<open>
  The operations of \<open>std::string_view\<close> that the text parsers share: searching for a character or a
  text from a position, splitting at a separator, and the facts about them.
\<close>

definition findFrom :: "byte \<Rightarrow> bytes \<Rightarrow> nat \<Rightarrow> nat option" where
  "findFrom c s p =
     (let t = takeWhile (\<lambda>b. b \<noteq> c) (drop p s)
      in if p + length t < length s then Some (p + length t) else None)"

fun findText :: "bytes \<Rightarrow> bytes \<Rightarrow> nat option" where
  "findText t [] = (if t = [] then Some 0 else None)"
| "findText t (b # s) = (if prefix t (b # s) then Some 0 else map_option Suc (findText t s))"

text \<open>The parts of a text between the separators.\<close>

fun splitOn :: "byte \<Rightarrow> bytes \<Rightarrow> bytes list" where
  "splitOn c [] = [[]]"
| "splitOn c (b # s) =
     (if b = c then [] # splitOn c s else (case splitOn c s of p # ps \<Rightarrow> (b # p) # ps | [] \<Rightarrow> [[b]]))"

fun joinWith :: "byte \<Rightarrow> bytes list \<Rightarrow> bytes" where
  "joinWith c [] = []"
| "joinWith c [p] = p"
| "joinWith c (p # ps) = p @ c # joinWith c ps"

lemma splitOn_nonempty [simp]: "splitOn c s \<noteq> []"
  by (cases s) (auto split: list.split)

lemma splitOn_none: "c \<notin> set p \<Longrightarrow> splitOn c p = [p]"
  by (induction p) auto

lemma splitOn_part: "c \<notin> set p \<Longrightarrow> splitOn c (p @ c # s) = p # splitOn c s"
  by (induction p) auto

lemma joinWith_Cons: "ps \<noteq> [] \<Longrightarrow> joinWith c (p # ps) = p @ c # joinWith c ps"
  by (cases ps) simp_all

lemma splitOn_joinWith: "\<forall>p \<in> set ps. c \<notin> set p \<Longrightarrow> ps \<noteq> [] \<Longrightarrow> splitOn c (joinWith c ps) = ps"
  by (induction ps rule: joinWith.induct) (auto simp: splitOn_none splitOn_part)

lemma joinWith_splitOn: "joinWith c (splitOn c s) = s"
proof (induction s)
  case (Cons b s)
  show ?case
  proof (cases "b = c")
    case True
    then show ?thesis using Cons by (simp add: joinWith_Cons)
  next
    case False
    obtain p ps where "splitOn c s = p # ps" by (cases "splitOn c s") auto
    then show ?thesis using Cons False by (cases ps) auto
  qed
qed simp

lemma takeWhile_neq: "c \<notin> set p \<Longrightarrow> takeWhile (\<lambda>b. b \<noteq> c) p = p"
  by (induction p) auto

lemma takeWhile_neq_stop: "c \<notin> set p \<Longrightarrow> takeWhile (\<lambda>b. b \<noteq> c) (p @ c # s) = p"
  by (induction p) auto

lemma dropWhile_neq_stop: "c \<notin> set p \<Longrightarrow> dropWhile (\<lambda>b. b \<noteq> c) (p @ c # s) = c # s"
  by (induction p) auto

text \<open>The first occurrence, when there is one.\<close>

lemma findFrom_none: "c \<notin> set (drop p s) \<Longrightarrow> findFrom c s p = None"
  by (simp add: findFrom_def takeWhile_neq Let_def)

lemma findFrom_0_none: "c \<notin> set s \<Longrightarrow> findFrom c s 0 = None"
  by (simp add: findFrom_none)

lemma findFrom_0_some: "c \<notin> set p \<Longrightarrow> findFrom c (p @ c # s) 0 = Some (length p)"
  by (simp add: findFrom_def takeWhile_neq_stop)

lemma findFrom_1: "findFrom c (x # s) 1 = map_option Suc (findFrom c s 0)"
  by (simp add: findFrom_def Let_def)

lemma findFrom_cases:
  obtains (none) "c \<notin> set s" "findFrom c s 0 = None"
  | (some) p r where "s = p @ c # r" "c \<notin> set p" "findFrom c s 0 = Some (length p)"
proof (cases "c \<in> set s")
  case True
  then obtain p r where "s = p @ c # r" "c \<notin> set p" by (meson split_list_first)
  then show ?thesis using some findFrom_0_some by metis
qed (auto simp: findFrom_0_none intro: none)

lemma findText_Some: "findText t s = Some i \<Longrightarrow> s = take i s @ t @ drop (i + length t) s \<and> i + length t \<le> length s"
proof (induction s arbitrary: i)
  case (Cons b s)
  show ?case
  proof (cases "prefix t (b # s)")
    case True
    then have "i = 0" using Cons.prems by simp
    then show ?thesis using True prefix_length_le [OF True] by (auto simp: prefix_def)
  next
    case False
    then obtain j where "i = Suc j" "findText t s = Some j" using Cons.prems by auto
    then show ?thesis using Cons.IH [of j] by auto
  qed
qed (auto split: if_splits)

lemma findText_least: "findText t s = Some i \<Longrightarrow> j < i \<Longrightarrow> \<not> prefix t (drop j s)"
proof (induction s arbitrary: i j)
  case (Cons b s)
  then obtain k where "i = Suc k" "findText t s = Some k" "\<not> prefix t (b # s)" by (auto split: if_splits)
  then show ?case using Cons.IH [of k "j - 1"] Cons.prems by (cases j) auto
qed (auto split: if_splits)

lemma findText_None: "findText t s = None \<Longrightarrow> \<not> prefix t (drop j s)"
proof (induction s arbitrary: j)
  case (Cons b s)
  then have "findText t s = None" "\<not> prefix t (b # s)" by (auto split: if_splits)
  then show ?case using Cons.IH [of "j - 1"] by (cases j) auto
qed (auto split: if_splits)

lemma findText_at: "findText t s = Some i"
  if "prefix t (drop i s)" "\<forall>j < i. \<not> prefix t (drop j s)" "i \<le> length s"
proof (cases "findText t s")
  case None
  then show ?thesis using findText_None that(1) by blast
next
  case (Some k)
  have "prefix t (drop k s)" using findText_Some [OF Some] by (metis append_take_drop_id prefixI same_append_eq)
  then have "\<not> k < i" using that(2) by blast
  moreover have "\<not> i < k" using findText_least [OF Some] that(1) by blast
  ultimately show ?thesis using Some by simp
qed

end
