(* ===== verification/HttpRouter.thy ===== *)
theory HttpRouter
  imports StringView "HOL-Library.Monad_Syntax" "HOL-Library.Multiset"
begin

text \<open>
  The router of native/uwebsockets/HttpRouter.h: a tree of nodes for the methods and the segments of
  the patterns, a cache of the segments of the URL that is being routed, a stack of parameters, and
  the list of handlers that the nodes refer to by number. A handler is a value of a type \<open>'h\<close>, and
  running one is an argument of the model: it sees the parameters, changes a state of type \<open>'u\<close> and
  tells whether it took the request. \<open>None\<close> is an access outside of an array or vector.
\<close>

section \<open>The data\<close>

definition HIGH_PRIORITY :: u32 where "HIGH_PRIORITY = 0xd0000000"
definition MEDIUM_PRIORITY :: u32 where "MEDIUM_PRIORITY = 0xe0000000"
definition LOW_PRIORITY :: u32 where "LOW_PRIORITY = 0xf0000000"
definition HANDLER_MASK :: u32 where "HANDLER_MASK = 0x0fffffff"
definition MAX_URL_SEGMENTS :: int where "MAX_URL_SEGMENTS = 100"
definition ANY_METHOD_TOKEN :: bytes where "ANY_METHOD_TOKEN = ascii ''*''"

datatype Node = Node (nodeName: bytes) (nodeChildren: "Node list") (nodeHandlers: "u32 list") (nodeHigh: bool)

record 'h HttpRouter =
  routeHandlers :: "'h list"
  rootChildren :: "Node list"
  currentUrl :: bytes
  urlSegmentVector :: "bytes list"
  urlSegmentTop :: int
  urlTooLong :: bool
  params :: "bytes list"
  paramsTop :: int

section \<open>Segments of a URL\<close>

definition setUrl :: "bytes \<Rightarrow> 'h HttpRouter \<Rightarrow> 'h HttpRouter" where
  "setUrl url r = r\<lparr>currentUrl := url, urlSegmentTop := - 1,
     urlTooLong := int (count_list url 47) > MAX_URL_SEGMENTS\<rparr>"

text \<open>The segment, or \<open>None\<close> inside for a stop.\<close>

definition getUrlSegment :: "int \<Rightarrow> 'h HttpRouter \<Rightarrow> ('h HttpRouter \<times> bytes option) option" where
  "getUrlSegment urlSegment r =
     (if urlSegment > urlSegmentTop r then
        if currentUrl r = [] \<or> urlSegment > MAX_URL_SEGMENTS - 1 then Some (r, None)
        else (let url = drop 1 (currentUrl r);
                  segmentLength = (case findFrom 47 url 0 of None \<Rightarrow> length url | Some n \<Rightarrow> n);
                  segment = take segmentLength url
              in if 0 \<le> urlSegment \<and> nat urlSegment < length (urlSegmentVector r)
                 then Some (r\<lparr>urlSegmentVector := (urlSegmentVector r)[nat urlSegment := segment],
                   urlSegmentTop := urlSegmentTop r + 1, currentUrl := drop segmentLength url\<rparr>, Some segment)
                 else None)
      else if 0 \<le> urlSegment \<and> nat urlSegment < length (urlSegmentVector r)
        then Some (r, Some (urlSegmentVector r ! nat urlSegment)) else None)"

definition paramPush :: "bytes \<Rightarrow> 'h HttpRouter \<Rightarrow> 'h HttpRouter option" where
  "paramPush param r =
     (let t = paramsTop r + 1
      in if 0 \<le> t \<and> nat t < length (params r) then Some (r\<lparr>paramsTop := t, params := (params r)[nat t := param]\<rparr>) else None)"

definition paramPop :: "'h HttpRouter \<Rightarrow> 'h HttpRouter" where
  "paramPop r = r\<lparr>paramsTop := paramsTop r - 1\<rparr>"

definition getParameters :: "'h HttpRouter \<Rightarrow> bytes list" where
  "getParameters r = take (nat (paramsTop r + 1)) (params r)"

section \<open>Routing\<close>

definition handlerIndex :: "u32 \<Rightarrow> nat" where
  "handlerIndex h = unat (h AND HANDLER_MASK)"

type_synonym ('h, 'u) runHandler = "'h \<Rightarrow> bytes list \<Rightarrow> 'u \<Rightarrow> 'u \<times> bool"

fun runHandlers :: "('h, 'u) runHandler \<Rightarrow> u32 list \<Rightarrow> 'h HttpRouter \<Rightarrow> 'u \<Rightarrow> ('u \<times> bool) option" where
  "runHandlers run [] r u = Some (u, False)"
| "runHandlers run (h # hs) r u =
     (if handlerIndex h < length (routeHandlers r) then
        (case run (routeHandlers r ! handlerIndex h) (getParameters r) u of
           (u, True) \<Rightarrow> Some (u, True)
         | (u, False) \<Rightarrow> runHandlers run hs r u)
      else None)"

fun executeHandlers :: "('h, 'u) runHandler \<Rightarrow> Node \<Rightarrow> int \<Rightarrow> 'h HttpRouter \<Rightarrow> 'u \<Rightarrow> ('h HttpRouter \<times> 'u \<times> bool) option"
  and executeChildren :: "('h, 'u) runHandler \<Rightarrow> Node list \<Rightarrow> bytes \<Rightarrow> int \<Rightarrow> 'h HttpRouter \<Rightarrow> 'u \<Rightarrow> ('h HttpRouter \<times> 'u \<times> bool) option"
where
  "executeHandlers run (Node nm cs hs hi) urlSegment r u =
     (if urlTooLong r then Some (r, u, False)
      else do {
        (r, s) \<leftarrow> getUrlSegment urlSegment r;
        (case s of
           None \<Rightarrow> do { (u, b) \<leftarrow> runHandlers run hs r u; Some (r, u, b) }
         | Some segment \<Rightarrow> executeChildren run cs segment urlSegment r u)
      })"
| "executeChildren run [] segment urlSegment r u = Some (r, u, False)"
| "executeChildren run (p # ps) segment urlSegment r u =
     do {
       (r, u, b) \<leftarrow>
         (if nodeName p \<noteq> [] \<and> nodeName p ! 0 = 42 then
            do { (u, b) \<leftarrow> runHandlers run (nodeHandlers p) r u; Some (r, u, b) }
          else if nodeName p \<noteq> [] \<and> nodeName p ! 0 = 58 \<and> segment \<noteq> [] then
            do {
              r \<leftarrow> paramPush segment r;
              (r, u, b) \<leftarrow> executeHandlers run p (urlSegment + 1) r u;
              Some (if b then r else paramPop r, u, b)
            }
          else if nodeName p = segment then executeHandlers run p (urlSegment + 1) r u
          else Some (r, u, False));
       if b then Some (r, u, True) else executeChildren run ps segment urlSegment r u
     }"

definition route :: "('h, 'u) runHandler \<Rightarrow> bytes \<Rightarrow> bytes \<Rightarrow> 'h HttpRouter \<Rightarrow> 'u \<Rightarrow> ('h HttpRouter \<times> 'u \<times> bool) option" where
  "route run method url r u =
     (let r = (setUrl url r)\<lparr>paramsTop := - 1\<rparr>
      in if urlTooLong r then
           if rootChildren r = [] then None
           else executeHandlers run (last (rootChildren r)) 0 (r\<lparr>urlTooLong := False\<rparr>) u
         else do {
           (r, u, b) \<leftarrow>
             (case List.find (\<lambda>p. nodeName p = method) (rootChildren r) of
                Some p \<Rightarrow> executeHandlers run p 0 r u
              | None \<Rightarrow> Some (r, u, False));
           if b then Some (r, u, True)
           else if rootChildren r = [] then Some (r, u, False)
           else executeHandlers run (last (rootChildren r)) 0 r u
         })"

section \<open>Adding and removing\<close>

definition lexicalOrder :: "bytes \<Rightarrow> nat" where
  "lexicalOrder name = (if name = [] then 2 else if name ! 0 = 58 then 1 else if name ! 0 = 42 then 0 else 2)"

text \<open>\<open>getNode\<close>: the children with the node in them, and its position.\<close>

definition sortsBefore :: "bool \<Rightarrow> bytes \<Rightarrow> bool \<Rightarrow> Node \<Rightarrow> bool" where
  "sortsBefore isRoot name high b =
     (if high \<noteq> nodeHigh b then high
      else nodeName b \<noteq> [] \<and> \<not> isRoot \<and> lexicalOrder (nodeName b) < lexicalOrder name)"

definition getNode :: "bool \<Rightarrow> bytes \<Rightarrow> bool \<Rightarrow> Node list \<Rightarrow> Node list \<times> nat" where
  "getNode isRoot child high cs =
     (let i = length (takeWhile (\<lambda>n. \<not> (nodeName n = child \<and> nodeHigh n = high)) cs)
      in if i < length cs then (cs, i)
         else (let k = length (takeWhile (\<lambda>n. \<not> sortsBefore isRoot child high n) cs)
               in (take k cs @ Node child [] [] high # drop k cs, k)))"

definition insertHandler :: "u32 \<Rightarrow> u32 list \<Rightarrow> u32 list" where
  "insertHandler h hs = takeWhile (\<lambda>x. \<not> h < x) hs @ h # dropWhile (\<lambda>x. \<not> h < x) hs"

definition stripSegment :: "bytes \<Rightarrow> bytes" where
  "stripSegment s = (if s \<noteq> [] \<and> s ! 0 = 58 then [58] else s)"

fun insertRoute :: "bytes list \<Rightarrow> bool \<Rightarrow> u32 \<Rightarrow> Node \<Rightarrow> Node" where
  "insertRoute [] high h (Node nm cs hs hi) = Node nm cs (insertHandler h hs) hi"
| "insertRoute (seg # segs) high h (Node nm cs hs hi) =
     (let (cs, i) = getNode False (stripSegment seg) high cs
      in Node nm (cs[i := insertRoute segs high h (cs ! i)]) hs hi)"

text \<open>The loop \<open>for (i = 0; !getUrlSegment(i).second; i++)\<close> stops at 100 at the latest.\<close>

fun segmentLoop :: "nat \<Rightarrow> int \<Rightarrow> 'h HttpRouter \<Rightarrow> ('h HttpRouter \<times> bytes list) option" where
  "segmentLoop 0 i r = None"
| "segmentLoop (Suc n) i r =
     do {
       (r, s) \<leftarrow> getUrlSegment i r;
       (case s of
          None \<Rightarrow> Some (r, [])
        | Some segment \<Rightarrow> do { (r, segs) \<leftarrow> segmentLoop n (i + 1) r; Some (r, segment # segs) })
     }"

definition findChild :: "bool \<Rightarrow> bytes \<Rightarrow> Node list \<Rightarrow> Node option" where
  "findChild high segment cs =
     List.find (\<lambda>child. ((segment \<noteq> [] \<and> nodeName child \<noteq> [] \<and> segment ! 0 = 58 \<and> nodeName child ! 0 = 58) \<or>
        nodeName child = segment) \<and> nodeHigh child = high) cs"

fun findPath :: "bool \<Rightarrow> bytes list \<Rightarrow> Node \<Rightarrow> Node option" where
  "findPath high [] n = Some n"
| "findPath high (seg # segs) n =
     (case findChild high seg (nodeChildren n) of None \<Rightarrow> None | Some child \<Rightarrow> findPath high segs child)"

definition findHandler :: "bytes \<Rightarrow> bytes \<Rightarrow> u32 \<Rightarrow> 'h HttpRouter \<Rightarrow> ('h HttpRouter \<times> u32 option) option" where
  "findHandler method pattern priority r =
     (case List.find (\<lambda>n. nodeName n = method) (rootChildren r) of
        None \<Rightarrow> Some (r, None)
      | Some n \<Rightarrow>
          do {
            (r, segs) \<leftarrow> segmentLoop 101 0 (setUrl pattern r);
            Some (r, case findPath (priority = HIGH_PRIORITY) segs n of
                None \<Rightarrow> None
              | Some n \<Rightarrow> List.find (\<lambda>h. h AND NOT HANDLER_MASK = priority) (nodeHandlers n))
          })"

definition cullHandlers :: "u32 \<Rightarrow> u32 list \<Rightarrow> u32 list" where
  "cullHandlers handler hs =
     concat (map (\<lambda>h.
       if (h AND HANDLER_MASK) > (handler AND HANDLER_MASK) then [((h AND HANDLER_MASK) - 1) OR (h AND NOT HANDLER_MASK)]
       else if h = handler then [] else [h]) hs)"

text \<open>What is left of a node, \<open>None\<close> when it is removed from its parent.\<close>

fun cullNode :: "u32 \<Rightarrow> Node \<Rightarrow> Node option"
  and cullChildren :: "u32 \<Rightarrow> Node list \<Rightarrow> Node list"
where
  "cullNode handler (Node nm cs hs hi) =
     (let cs = cullChildren handler cs; hs = cullHandlers handler hs
      in if hs = [] \<and> cs = [] then None else Some (Node nm cs hs hi))"
| "cullChildren handler [] = []"
| "cullChildren handler (c # cs) =
     (case cullNode handler c of None \<Rightarrow> cullChildren handler cs | Some c' \<Rightarrow> c' # cullChildren handler cs)"

definition remove :: "bytes \<Rightarrow> bytes \<Rightarrow> u32 \<Rightarrow> 'h HttpRouter \<Rightarrow> ('h HttpRouter \<times> bool) option" where
  "remove method pattern priority r =
     do {
       (r, handler) \<leftarrow> findHandler method pattern priority r;
       (case handler of
          None \<Rightarrow> Some (r, False)
        | Some h \<Rightarrow>
            (let r = r\<lparr>rootChildren := cullChildren h (rootChildren r)\<rparr>; i = handlerIndex h
             in if i < length (routeHandlers r)
                then Some (r\<lparr>routeHandlers := take i (routeHandlers r) @ drop (i + 1) (routeHandlers r)\<rparr>, True)
                else None))
     }"

text \<open>GET first, ANY last, the others by name; names of methods are distinct.\<close>

fun lexLess :: "bytes \<Rightarrow> bytes \<Rightarrow> bool" where
  "lexLess xs [] = False"
| "lexLess [] (y # ys) = True"
| "lexLess (x # xs) (y # ys) = (x < y \<or> x = y \<and> lexLess xs ys)"

definition methodLess :: "bytes \<Rightarrow> bytes \<Rightarrow> bool" where
  "methodLess a b =
     (if a = ascii ''GET'' \<and> b \<noteq> ascii ''GET'' then True
      else if b = ascii ''GET'' \<and> a \<noteq> ascii ''GET'' then False
      else if a = ANY_METHOD_TOKEN \<and> b \<noteq> ANY_METHOD_TOKEN then False
      else if b = ANY_METHOD_TOKEN \<and> a \<noteq> ANY_METHOD_TOKEN then True
      else lexLess a b)"

fun insertMethod :: "Node \<Rightarrow> Node list \<Rightarrow> Node list" where
  "insertMethod n [] = [n]"
| "insertMethod n (m # ms) = (if methodLess (nodeName m) (nodeName n) then m # insertMethod n ms else n # m # ms)"

definition sortMethods :: "Node list \<Rightarrow> Node list" where
  "sortMethods ns = foldr insertMethod ns []"

definition add :: "bytes \<Rightarrow> bytes \<Rightarrow> 'h \<Rightarrow> u32 \<Rightarrow> 'h HttpRouter \<Rightarrow> 'h HttpRouter option" where
  "add method pattern handler priority r =
     do {
       (r, _) \<leftarrow> remove method pattern priority r;
       let (cs, i) = getNode True method False (rootChildren r);
       (r, segs) \<leftarrow> segmentLoop 101 0 (setUrl pattern r);
       let h = priority OR of_nat (length (routeHandlers r));
       Some (r\<lparr>rootChildren := sortMethods (cs[i := insertRoute segs (priority = HIGH_PRIORITY) h (cs ! i)]),
         routeHandlers := routeHandlers r @ [handler]\<rparr>)
     }"

definition newRouter :: "'h HttpRouter" where
  "newRouter = \<lparr>routeHandlers = [], rootChildren = fst (getNode True ANY_METHOD_TOKEN False []), currentUrl = [],
     urlSegmentVector = replicate 100 [], urlSegmentTop = 0, urlTooLong = False, params = replicate 100 [], paramsTop = 0\<rparr>"

end
