(* ===== verification/HttpRouterTree.thy ===== *)
theory HttpRouterTree
  imports HttpRouter
begin

text \<open>
  Lemmas on the tree of the router: the cache of segments, the routes below a node and which of them
  match a URL, what executing, inserting, culling and finding do to the list of routes, and the
  order of siblings and methods.
\<close>

section \<open>The cache of segments\<close>

definition urlSegments :: "bytes \<Rightarrow> bytes list" where
  "urlSegments url = (if url = [] then [] else splitOn 47 (drop 1 url))"

text \<open>A URL is cut after 100 segments.\<close>

definition segmentsOf :: "bytes \<Rightarrow> bytes list" where
  "segmentsOf url = take 100 (urlSegments url)"

definition cacheOk :: "bytes \<Rightarrow> 'h HttpRouter \<Rightarrow> bool" where
  "cacheOk url r \<longleftrightarrow>
     (let k = nat (urlSegmentTop r + 1) in
      - 1 \<le> urlSegmentTop r \<and> k \<le> length (segmentsOf url) \<and> length (urlSegmentVector r) = 100 \<and>
      take k (urlSegmentVector r) = take k (urlSegments url) \<and> urlSegments (currentUrl r) = drop k (urlSegments url))"

lemma urlSegments_Nil: "urlSegments url = [] \<longleftrightarrow> url = []"
  by (simp add: urlSegments_def)

lemma urlSegments_step:
  assumes "url \<noteq> []" and "n = (case findFrom 47 (drop 1 url) 0 of None \<Rightarrow> length (drop 1 url) | Some n \<Rightarrow> n)"
  shows "urlSegments url = take n (drop 1 url) # urlSegments (drop n (drop 1 url))"
proof -
  define u where "u = drop 1 url"
  have "splitOn 47 u = take n u # urlSegments (drop n u)"
  proof (cases u rule: findFrom_cases [of 47])
    case none
    then show ?thesis using assms(2) by (simp add: u_def splitOn_none urlSegments_def)
  next
    case (some p t)
    then show ?thesis using assms(2) by (simp add: u_def splitOn_part urlSegments_def)
  qed
  then show ?thesis using assms(1) by (simp add: urlSegments_def u_def)
qed

definition fixed :: "'h HttpRouter \<Rightarrow> 'h HttpRouter \<Rightarrow> bool" where
  "fixed r r' \<longleftrightarrow> routeHandlers r' = routeHandlers r \<and> rootChildren r' = rootChildren r \<and> urlTooLong r' = urlTooLong r"

lemma fixed_refl [simp]: "fixed r r" and fixed_trans: "fixed r s \<Longrightarrow> fixed s t \<Longrightarrow> fixed r t"
  by (auto simp: fixed_def)

lemma cacheOk_setUrl: "length (urlSegmentVector r) = 100 \<Longrightarrow> cacheOk url (setUrl url r)"
  by (simp add: cacheOk_def setUrl_def)

lemma cacheOk_params [simp]: "cacheOk url (r\<lparr>paramsTop := t, params := ps\<rparr>) = cacheOk url r"
  "cacheOk url (r\<lparr>paramsTop := t\<rparr>) = cacheOk url r" "cacheOk url (r\<lparr>urlTooLong := l\<rparr>) = cacheOk url r"
  by (simp_all add: cacheOk_def)

lemma getUrlSegment_cached:
  assumes "cacheOk url r" and "int i \<le> urlSegmentTop r + 1"
  obtains r' where
    "getUrlSegment (int i) r = Some (r', if i < length (segmentsOf url) then Some (segmentsOf url ! i) else None)"
    "cacheOk url r'" "fixed r r'" "params r' = params r" "paramsTop r' = paramsTop r"
    "urlSegmentTop r \<le> urlSegmentTop r'" "i < length (segmentsOf url) \<Longrightarrow> int i \<le> urlSegmentTop r'"
proof -
  define k where "k = nat (urlSegmentTop r + 1)"
  have top: "urlSegmentTop r = int k - 1" using assms(1) by (simp add: k_def cacheOk_def Let_def)
  have c: "k \<le> length (segmentsOf url)" "length (urlSegmentVector r) = 100"
    "take k (urlSegmentVector r) = take k (urlSegments url)" "urlSegments (currentUrl r) = drop k (urlSegments url)"
    using assms(1) by (simp_all add: cacheOk_def Let_def k_def)
  have ls: "length (segmentsOf url) = min (length (urlSegments url)) 100" by (simp add: segmentsOf_def)
  show thesis
  proof (cases "i < k")
    case True
    have "urlSegmentVector r ! i = segmentsOf url ! i"
    proof -
      have "take k (urlSegmentVector r) ! i = take k (urlSegments url) ! i" using c(3) by simp
      then show ?thesis using True c(1) ls by (simp add: segmentsOf_def)
    qed
    then have "getUrlSegment (int i) r = Some (r, Some (segmentsOf url ! i))"
      using True c ls by (simp add: getUrlSegment_def top)
    then show thesis using that [of r] assms True c(1) top by auto
  next
    case False
    then have i: "i = k" using assms(2) top by linarith
    show thesis
    proof (cases "i < length (segmentsOf url)")
      case stop: False
      then have "currentUrl r = [] \<or> MAX_URL_SEGMENTS - 1 < int i"
        using c(4) ls i urlSegments_Nil [of "currentUrl r"] by (auto simp: MAX_URL_SEGMENTS_def)
      then have "getUrlSegment (int i) r = Some (r, None)" using i top by (simp add: getUrlSegment_def)
      then show thesis using that [of r] assms stop by simp
    next
      case seg: True
      define url' where "url' = drop 1 (currentUrl r)"
      define n where "n = (case findFrom 47 url' 0 of None \<Rightarrow> length url' | Some n \<Rightarrow> n)"
      have ne: "currentUrl r \<noteq> []" using seg i c(4) ls urlSegments_Nil [of "currentUrl r"] by auto
      have "urlSegments (currentUrl r) = take n url' # urlSegments (drop n url')"
        unfolding url'_def by (rule urlSegments_step [OF ne]) (simp only: n_def url'_def)
      then have d: "drop k (urlSegments url) = take n url' # urlSegments (drop n url')" using c(4) by simp
      have kl: "k < length (urlSegments url)" "k < 100" using seg i ls by simp_all
      have at: "urlSegments url ! k = take n url'" "urlSegments (drop n url') = drop (Suc k) (urlSegments url)"
        using d kl by (metis Cons_nth_drop_Suc list.inject)+
      define r' where "r' = r\<lparr>urlSegmentVector := (urlSegmentVector r)[k := take n url'], urlSegmentTop := urlSegmentTop r + 1,
        currentUrl := drop n url'\<rparr>"
      have "getUrlSegment (int i) r = Some (r', Some (take n url'))"
        using ne i top kl c(2) unfolding getUrlSegment_def Let_def r'_def n_def url'_def by (simp add: MAX_URL_SEGMENTS_def)
      moreover have "segmentsOf url ! i = take n url'" using at(1) i kl by (simp add: segmentsOf_def)
      moreover have "cacheOk url r'"
      proof -
        have "nat (urlSegmentTop r' + 1) = Suc k" by (simp add: r'_def top)
        moreover have "take (Suc k) (urlSegmentVector r') = take (Suc k) (urlSegments url)"
          using c(2,3) kl at(1) by (simp add: r'_def take_Suc_conv_app_nth)
        ultimately show ?thesis
          using at(2) seg i c(2) top by (simp add: cacheOk_def Let_def r'_def)
      qed
      ultimately show thesis using that [of r'] seg top i by (simp add: r'_def fixed_def)
    qed
  qed
qed

section \<open>The routes of a tree\<close>

text \<open>All routes below a node, in the order of the tree: the names and priorities of the nodes on the way, and the handler.\<close>

type_synonym route = "(bytes \<times> bool) list \<times> u32"

fun routesOf :: "Node \<Rightarrow> route list" where
  "routesOf (Node nm cs hs hi) =
     map (Pair []) hs @ concat (map (\<lambda>c. map (\<lambda>(p, h). ((nodeName c, nodeHigh c) # p, h)) (routesOf c)) cs)"

text \<open>A pattern against the segments of a URL: the parameters, when it matches.\<close>

definition isWild :: "bytes \<Rightarrow> bool" where "isWild nm \<longleftrightarrow> nm \<noteq> [] \<and> nm ! 0 = 42"
definition isParam :: "bytes \<Rightarrow> bool" where "isParam nm \<longleftrightarrow> nm \<noteq> [] \<and> nm ! 0 = 58"

fun matchPath :: "(bytes \<times> bool) list \<Rightarrow> bytes list \<Rightarrow> bytes list option" where
  "matchPath [] segs = (if segs = [] then Some [] else None)"
| "matchPath (n # path) [] = None"
| "matchPath (n # path) (s # segs) =
     (if isWild (fst n) then (if path = [] then Some [] else None)
      else if isParam (fst n) \<and> s \<noteq> [] then map_option ((#) s) (matchPath path segs)
      else if fst n = s then matchPath path segs
      else None)"

definition matching :: "bytes list \<Rightarrow> Node \<Rightarrow> (u32 \<times> bytes list) list" where
  "matching segs n = List.map_filter (\<lambda>(p, h). map_option (Pair h) (matchPath p segs)) (routesOf n)"

text \<open>Handlers are tried in order until one takes the request.\<close>

fun tryAll :: "('h, 'u) runHandler \<Rightarrow> ('h \<times> bytes list) list \<Rightarrow> 'u \<Rightarrow> 'u \<times> bool" where
  "tryAll run [] u = (u, False)"
| "tryAll run ((f, ps) # fs) u = (case run f ps u of (u, True) \<Rightarrow> (u, True) | (u, False) \<Rightarrow> tryAll run fs u)"

lemma tryAll_append:
  "tryAll run (fs @ gs) u = (case tryAll run fs u of (u, True) \<Rightarrow> (u, True) | (u, False) \<Rightarrow> tryAll run gs u)"
  by (induction fs arbitrary: u) (auto split: prod.split bool.split)

lemma map_filter_append: "List.map_filter f (xs @ ys) = List.map_filter f xs @ List.map_filter f ys"
  by (simp add: map_filter_def)

lemma map_filter_concat: "List.map_filter f (concat xss) = concat (map (List.map_filter f) xss)"
  by (induction xss) (simp_all add: map_filter_append map_filter_def)

lemma map_filter_map: "List.map_filter f (map g xs) = List.map_filter (f \<circ> g) xs"
  by (simp add: map_filter_def comp_def filter_map)

lemma map_filter_none: "(\<And>x. x \<in> set xs \<Longrightarrow> f x = None) \<Longrightarrow> List.map_filter f xs = []"
  by (simp add: map_filter_def filter_empty_conv)

lemma map_filter_some: "List.map_filter (\<lambda>x. Some (g x)) xs = map g xs"
  by (simp add: map_filter_def)

lemma map_filter_map_option: "List.map_filter (\<lambda>x. map_option g (f x)) xs = map g (List.map_filter f xs)"
  by (induction xs) (auto simp: map_filter_simps split: option.split)

lemma matching_stop: "matching [] (Node nm cs hs hi) = map (\<lambda>h. (h, [])) hs"
proof -
  have "List.map_filter (\<lambda>(p, h). map_option (Pair h) (matchPath p []))
      (concat (map (\<lambda>c. map (\<lambda>(p, h). ((nodeName c, nodeHigh c) # p, h)) (routesOf c)) cs)) = []"
    by (rule map_filter_none) auto
  then show ?thesis
    by (simp add: matching_def map_filter_append map_filter_map comp_def map_filter_some)
qed

definition matchChild :: "bytes \<Rightarrow> bytes list \<Rightarrow> Node \<Rightarrow> (u32 \<times> bytes list) list" where
  "matchChild s segs c =
     (if isWild (nodeName c) then map (\<lambda>h. (h, [])) (nodeHandlers c)
      else if isParam (nodeName c) \<and> s \<noteq> [] then map (\<lambda>(h, ps). (h, s # ps)) (matching segs c)
      else if nodeName c = s then matching segs c
      else [])"

lemma matching_step: "matching (s # segs) (Node nm cs hs hi) = concat (map (matchChild s segs) cs)"
proof -
  have own: "List.map_filter (\<lambda>(p, h). map_option (Pair h) (matchPath p (s # segs))) (map (Pair []) hs) = []"
    by (rule map_filter_none) auto
  have child: "List.map_filter (\<lambda>(p, h). map_option (Pair h) (matchPath ((nodeName c, nodeHigh c) # p) (s # segs))) (routesOf c) =
      matchChild s segs c" for c
  proof (cases "isWild (nodeName c)")
    case True
    obtain nm cs hs hi where c: "c = Node nm cs hs hi" by (cases c)
    have "List.map_filter (\<lambda>(p, h). map_option (Pair h) (if p = [] then Some [] else None))
        (concat (map (\<lambda>c. map (\<lambda>(p, h). ((nodeName c, nodeHigh c) # p, h)) (routesOf c)) cs)) = ([] :: (u32 \<times> bytes list) list)"
      by (rule map_filter_none) auto
    then show ?thesis
      using True by (simp add: c matchChild_def map_filter_append map_filter_map comp_def map_filter_some)
  next
    case False
    consider "isParam (nodeName c) \<and> s \<noteq> []" | "\<not> (isParam (nodeName c) \<and> s \<noteq> [])" "nodeName c = s"
      | "\<not> (isParam (nodeName c) \<and> s \<noteq> [])" "nodeName c \<noteq> s" by blast
    then show ?thesis
    proof cases
      case 1
      have E: "(\<lambda>(p, h). map_option (Pair h) (map_option ((#) s) (matchPath p segs))) =
          (\<lambda>x. map_option (\<lambda>(h, ps). (h, s # ps)) (case x of (p, h) \<Rightarrow> map_option (Pair h) (matchPath p segs)))"
        by (auto simp: fun_eq_iff option.map_comp comp_def)
      have "List.map_filter (\<lambda>(p, h). map_option (Pair h) (map_option ((#) s) (matchPath p segs))) (routesOf c) =
          map (\<lambda>(h, ps). (h, s # ps)) (matching segs c)"
        unfolding matching_def E map_filter_map_option by (rule refl)
      then show ?thesis using 1 False by (simp add: matchChild_def)
    next
      case 2
      then show ?thesis using False by (auto simp: matchChild_def matching_def)
    next
      case 3
      then show ?thesis using False by (auto simp: matchChild_def intro!: map_filter_none)
    qed
  qed
  have comp: "(\<lambda>(p, h). map_option (Pair h) (matchPath p (s # segs))) \<circ> (\<lambda>(p, h). ((nodeName c, nodeHigh c) # p, h)) =
      (\<lambda>(p, h). map_option (Pair h) (matchPath ((nodeName c, nodeHigh c) # p) (s # segs)))" for c :: Node
    by (auto simp: fun_eq_iff)
  show ?thesis
    unfolding matching_def routesOf.simps map_filter_append own map_filter_concat map_map
    by (simp only: comp_def [of "List.map_filter f" for f] map_filter_map comp child append_Nil)
qed

section \<open>Executing the handlers\<close>

definition ready :: "bytes \<Rightarrow> nat \<Rightarrow> 'h HttpRouter \<Rightarrow> bool" where
  "ready url i r \<longleftrightarrow> cacheOk url r \<and> \<not> urlTooLong r \<and> length (params r) = 100 \<and> - 1 \<le> paramsTop r \<and>
     paramsTop r + 1 \<le> int i \<and> int i \<le> urlSegmentTop r + 1"

definition calls :: "'h HttpRouter \<Rightarrow> (u32 \<times> bytes list) list \<Rightarrow> ('h \<times> bytes list) list" where
  "calls r ms = map (\<lambda>(h, ps). (routeHandlers r ! handlerIndex h, getParameters r @ ps)) ms"

text \<open>The handlers that are run, and what is left in place when none of them took the request.\<close>

definition outcome :: "('h, 'u) runHandler \<Rightarrow> bytes \<Rightarrow> nat \<Rightarrow> 'h HttpRouter \<Rightarrow> 'u \<Rightarrow> (u32 \<times> bytes list) list \<Rightarrow>
    ('h HttpRouter \<times> 'u \<times> bool) option \<Rightarrow> bool" where
  "outcome run url i r u ms res \<longleftrightarrow>
     (\<exists>r' u' b. res = Some (r', u', b) \<and> tryAll run (calls r ms) u = (u', b) \<and> fixed r r' \<and>
        (\<not> b \<longrightarrow> ready url i r' \<and> getParameters r' = getParameters r \<and> paramsTop r' = paramsTop r))"

definition inRange :: "'h HttpRouter \<Rightarrow> Node \<Rightarrow> bool" where
  "inRange r n \<longleftrightarrow> (\<forall>(p, h) \<in> set (routesOf n). handlerIndex h < length (routeHandlers r))"

lemma inRange_Node: "inRange r (Node nm cs hs hi) \<longleftrightarrow>
    (\<forall>h \<in> set hs. handlerIndex h < length (routeHandlers r)) \<and> (\<forall>c \<in> set cs. inRange r c)"
  by (force simp: inRange_def)

lemma inRange_fixed: "fixed r r' \<Longrightarrow> inRange r' n = inRange r n"
  by (simp add: inRange_def fixed_def)

lemma calls_append: "calls r (xs @ ys) = calls r xs @ calls r ys"
  by (simp add: calls_def)

lemma runHandlers_try:
  "\<forall>h \<in> set hs. handlerIndex h < length (routeHandlers r) \<Longrightarrow>
   runHandlers run hs r u = Some (tryAll run (calls r (map (\<lambda>h. (h, [])) hs)) u)"
  by (induction hs arbitrary: u) (auto simp: calls_def split: prod.split bool.split)

lemma runHandlers_outcome:
  assumes "\<forall>h \<in> set hs. handlerIndex h < length (routeHandlers r)" and "ready url i r"
  shows "outcome run url i r u (map (\<lambda>h. (h, [])) hs) (do { (u, b) \<leftarrow> runHandlers run hs r u; Some (r, u, b) })"
  using assms(2) by (simp add: outcome_def runHandlers_try [OF assms(1)] split: prod.split)

lemma ready_push:
  assumes "ready url i r" and "i < 100" and "int i \<le> urlSegmentTop r"
  obtains r' where "paramPush s r = Some r'" "ready url (i + 1) r'" "fixed r r'" "getParameters r' = getParameters r @ [s]"
    "paramsTop r' = paramsTop r + 1"
proof -
  define t where "t = nat (paramsTop r + 1)"
  have t: "paramsTop r + 1 = int t" "t < 100" using assms by (auto simp: t_def ready_def nat_less_iff)
  have l: "length (params r) = 100" using assms(1) by (simp add: ready_def)
  have "paramPush s r = Some (r\<lparr>paramsTop := int t, params := (params r)[t := s]\<rparr>)"
    using t l by (simp add: paramPush_def)
  moreover have "getParameters (r\<lparr>paramsTop := int t, params := (params r)[t := s]\<rparr>) = getParameters r @ [s]"
  proof -
    have "nat (int t + 1) = Suc t" by simp
    then show ?thesis using t l by (simp add: getParameters_def take_Suc_conv_app_nth)
  qed
  ultimately show thesis using that assms t by (simp add: ready_def fixed_def)
qed

lemma ready_pop:
  assumes "ready url (i + 1) r'" and "ready url i r" and "getParameters r' = getParameters r @ [s]"
    and "paramsTop r' = paramsTop r + 1"
  shows "ready url i (paramPop r')" and "getParameters (paramPop r') = getParameters r" and "paramsTop (paramPop r') = paramsTop r"
proof -
  show "ready url i (paramPop r')" "paramsTop (paramPop r') = paramsTop r"
    using assms by (simp_all add: ready_def paramPop_def)
  define t where "t = nat (paramsTop r + 1)"
  have l: "length (params r') = 100" "length (params r) = 100" "t \<le> 100" "- 1 \<le> paramsTop r"
    using assms(1,2,4) cacheOk_def [of url r'] by (auto simp: ready_def t_def segmentsOf_def cacheOk_def Let_def)
  have "take t (params r') = take t (getParameters r')" using assms(4) by (simp add: getParameters_def t_def min_def)
  also have "\<dots> = getParameters r" using assms(3) l by (simp add: getParameters_def flip: t_def)
  finally show "getParameters (paramPop r') = getParameters r"
    using assms(4) by (simp add: getParameters_def paramPop_def t_def)
qed

text \<open>A node runs the handlers of the routes below it that match the rest of the URL.\<close>

lemma executeHandlers_matching:
  assumes "ready url i r" and "inRange r n"
  shows "outcome run url i r u (matching (drop i (segmentsOf url)) n) (executeHandlers run n (int i) r u)"
  using assms
proof (induction n arbitrary: i r u)
  case (Node nm cs hs hi)
  have tl: "\<not> urlTooLong r" and c: "cacheOk url r" and top: "int i \<le> urlSegmentTop r + 1"
    using Node.prems(1) by (simp_all add: ready_def)
  have hs: "\<forall>h \<in> set hs. handlerIndex h < length (routeHandlers r)" and rng: "\<forall>c \<in> set cs. inRange r c"
    using Node.prems(2) by (simp_all add: inRange_Node)
  obtain r1 where r1: "getUrlSegment (int i) r = Some (r1, if i < length (segmentsOf url) then Some (segmentsOf url ! i) else None)"
    "cacheOk url r1" "fixed r r1" "params r1 = params r" "paramsTop r1 = paramsTop r"
    "urlSegmentTop r \<le> urlSegmentTop r1" "i < length (segmentsOf url) \<Longrightarrow> int i \<le> urlSegmentTop r1"
    by (rule getUrlSegment_cached [OF c top]) blast
  have ready1: "ready url i r1" using Node.prems(1) r1 by (auto simp: ready_def fixed_def)
  have same: "outcome run url i r u ms res = outcome run url i r1 u ms res" for ms and res :: "('a HttpRouter \<times> 'b \<times> bool) option"
    using r1(3-5) by (auto simp: outcome_def calls_def getParameters_def fixed_def)
  show ?case
  proof (cases "i < length (segmentsOf url)")
    case False
    have hs1: "\<forall>h \<in> set hs. handlerIndex h < length (routeHandlers r1)" using hs r1(3) by (simp add: fixed_def)
    have "executeHandlers run (Node nm cs hs hi) (int i) r u = do { (u, b) \<leftarrow> runHandlers run hs r1 u; Some (r1, u, b) }"
      using tl r1(1) False by simp
    then show ?thesis using False runHandlers_outcome [OF hs1 ready1, of run u] by (simp add: same matching_stop)
  next
    case True
    define s segs where "s = segmentsOf url ! i" and "segs = drop (i + 1) (segmentsOf url)"
    have d: "drop i (segmentsOf url) = s # segs" using True by (simp add: s_def segs_def Cons_nth_drop_Suc)
    have i100: "i < 100" using True by (simp add: segmentsOf_def)
    have "executeHandlers run (Node nm cs hs hi) (int i) r u = executeChildren run cs s (int i) r1 u"
      using tl r1(1) True by (simp add: s_def)
    moreover have "outcome run url i r2 u2 (concat (map (matchChild s segs) ds)) (executeChildren run ds s (int i) r2 u2)"
      if "set ds \<subseteq> set cs" "fixed r r2" "ready url i r2" "int i \<le> urlSegmentTop r2" for ds r2 u2
      using that
    proof (induction ds arbitrary: r2 u2)
      case Nil
      then show ?case by (force simp: outcome_def calls_def)
    next
      case (Cons p ds)
      have p: "inRange r2 p" "p \<in> set cs" using Cons.prems(1,2) rng inRange_fixed by auto
      define k where "k = (if isWild (nodeName p) then
            do { (u, b) \<leftarrow> runHandlers run (nodeHandlers p) r2 u2; Some (r2, u, b) }
          else if isParam (nodeName p) \<and> s \<noteq> [] then
            do {
              r \<leftarrow> paramPush s r2;
              (r, u, b) \<leftarrow> executeHandlers run p (int i + 1) r u2;
              Some (if b then r else paramPop r, u, b)
            }
          else if nodeName p = s then executeHandlers run p (int i + 1) r2 u2
          else Some (r2, u2, False))"
      have eq: "executeChildren run (p # ds) s (int i) r2 u2 =
          do { (r, u, b) \<leftarrow> k; if b then Some (r, u, True) else executeChildren run ds s (int i) r u }"
        by (simp add: k_def isWild_def isParam_def)
      have ready2: "ready url (i + 1) r2" using Cons.prems(3,4) by (simp add: ready_def)
      have "\<exists>r' u' b. k = Some (r', u', b) \<and> tryAll run (calls r2 (matchChild s segs p)) u2 = (u', b) \<and> fixed r2 r' \<and>
          (\<not> b \<longrightarrow> ready url i r' \<and> getParameters r' = getParameters r2 \<and> paramsTop r' = paramsTop r2 \<and> int i \<le> urlSegmentTop r')"
      proof -
        consider (wild) "isWild (nodeName p)" | (param) "\<not> isWild (nodeName p)" "isParam (nodeName p) \<and> s \<noteq> []"
          | (static) "\<not> isWild (nodeName p)" "\<not> (isParam (nodeName p) \<and> s \<noteq> [])" "nodeName p = s"
          | (other) "\<not> isWild (nodeName p)" "\<not> (isParam (nodeName p) \<and> s \<noteq> [])" "nodeName p \<noteq> s" by blast
        then show ?thesis
        proof cases
          case wild
          have "\<forall>h \<in> set (nodeHandlers p). handlerIndex h < length (routeHandlers r2)"
            using p(1) by (cases p) (simp add: inRange_Node)
          then show ?thesis
            using wild Cons.prems(3,4) by (simp add: k_def matchChild_def runHandlers_try split: prod.split)
        next
          case param
          obtain r3 where r3: "paramPush s r2 = Some r3" "ready url (i + 1) r3" "fixed r2 r3"
            "getParameters r3 = getParameters r2 @ [s]" "paramsTop r3 = paramsTop r2 + 1"
            by (rule ready_push [OF Cons.prems(3) i100 Cons.prems(4)]) blast
          have "inRange r3 p" using p(1) inRange_fixed [OF r3(3)] by simp
          from Node.IH [OF p(2) r3(2) this, of u2]
          obtain r4 u4 b where r4: "executeHandlers run p (int i + 1) r3 u2 = Some (r4, u4, b)"
            "tryAll run (calls r3 (matching segs p)) u2 = (u4, b)" "fixed r3 r4"
            "\<not> b \<Longrightarrow> ready url (i + 1) r4 \<and> getParameters r4 = getParameters r3 \<and> paramsTop r4 = paramsTop r3"
            by (auto simp: outcome_def segs_def add.commute)
          have c: "calls r2 (matchChild s segs p) = calls r3 (matching segs p)"
            using param r3(3,4) by (simp add: matchChild_def calls_def fixed_def case_prod_unfold comp_def)
          have kk: "k = Some (if b then r4 else paramPop r4, u4, b)" using param r3(1) r4(1) by (simp add: k_def)
          have f: "fixed r2 (if b then r4 else paramPop r4)" using r3(3) r4(3) by (simp add: fixed_def paramPop_def)
          show ?thesis
          proof (cases b)
            case True
            then show ?thesis using kk c r4(2) f by auto
          next
            case False
            then have r4': "ready url (i + 1) r4" "getParameters r4 = getParameters r2 @ [s]" "paramsTop r4 = paramsTop r2 + 1"
              using r4(4) r3(4,5) by auto
            have "int i \<le> urlSegmentTop (paramPop r4)" using r4'(1) by (simp add: ready_def paramPop_def)
            then show ?thesis
              using kk c r4(2) f False ready_pop [OF r4'(1) Cons.prems(3) r4'(2,3)] by auto
          qed
        next
          case static
          from Node.IH [OF p(2) ready2 p(1), of u2]
          obtain r4 u4 b where r4: "executeHandlers run p (int i + 1) r2 u2 = Some (r4, u4, b)"
            "tryAll run (calls r2 (matching segs p)) u2 = (u4, b)" "fixed r2 r4"
            "\<not> b \<Longrightarrow> ready url (i + 1) r4 \<and> getParameters r4 = getParameters r2 \<and> paramsTop r4 = paramsTop r2"
            by (auto simp: outcome_def segs_def add.commute)
          have "matchChild s segs p = matching segs p" using static by (auto simp: matchChild_def)
          moreover have "ready url i r4 \<and> int i \<le> urlSegmentTop r4" if "\<not> b"
            using r4(4) [OF that] Cons.prems(3) by (simp add: ready_def)
          moreover have "k = Some (r4, u4, b)" using static r4(1) by (auto simp: k_def)
          ultimately show ?thesis using r4(2-4) by auto
        next
          case other
          then have "matchChild s segs p = []" "k = Some (r2, u2, False)" by (auto simp: matchChild_def k_def)
          then show ?thesis using Cons.prems(3,4) by (auto simp: calls_def)
        qed
      qed
      then obtain r' u' b where k: "k = Some (r', u', b)" "tryAll run (calls r2 (matchChild s segs p)) u2 = (u', b)" "fixed r2 r'"
        "\<not> b \<Longrightarrow> ready url i r' \<and> getParameters r' = getParameters r2 \<and> paramsTop r' = paramsTop r2 \<and> int i \<le> urlSegmentTop r'"
        by blast
      show ?case
      proof (cases b)
        case True
        then have "executeChildren run (p # ds) s (int i) r2 u2 = Some (r', u', True)" using True unfolding eq k(1) by simp
        moreover have "tryAll run (calls r2 (concat (map (matchChild s segs) (p # ds)))) u2 = (u', True)"
          using k(2) True by (simp add: calls_append tryAll_append)
        ultimately show ?thesis using k(3) unfolding outcome_def by blast
      next
        case False
        note k4 = k(4) [OF False]
        have "outcome run url i r' u' (concat (map (matchChild s segs) ds)) (executeChildren run ds s (int i) r' u')"
          by (rule Cons.IH) (use Cons.prems k4 fixed_trans [OF Cons.prems(2) k(3)] in auto)
        moreover have "calls r' ms = calls r2 ms" for ms using k(3) k4 by (simp add: calls_def fixed_def)
        moreover have "executeChildren run (p # ds) s (int i) r2 u2 = executeChildren run ds s (int i) r' u'"
          using False unfolding eq k(1) by simp
        moreover have "tryAll run (calls r2 (concat (map (matchChild s segs) (p # ds)))) u2 =
            tryAll run (calls r2 (concat (map (matchChild s segs) ds))) u'"
          using k(2) False by (simp add: calls_append tryAll_append)
        ultimately show ?thesis
          using k4 fixed_trans [OF k(3)] unfolding outcome_def by metis
      qed
    qed
    ultimately show ?thesis
      using ready1 r1(3) r1(7) [OF True] True by (simp add: same d matching_step)
  qed
qed

section \<open>Numbers of handlers\<close>

definition priorityOf :: "u32 \<Rightarrow> u32" where
  "priorityOf h = h AND NOT HANDLER_MASK"

definition isPriority :: "u32 \<Rightarrow> bool" where
  "isPriority p \<longleftrightarrow> p = HIGH_PRIORITY \<or> p = MEDIUM_PRIORITY \<or> p = LOW_PRIORITY"

lemma mask_28: "HANDLER_MASK = mask 28"
  by (simp add: HANDLER_MASK_def mask_eq_exp_minus_1)

lemma handlerIndex_less: "handlerIndex h < 2 ^ 28"
  unfolding handlerIndex_def mask_28 take_bit_eq_mask [symmetric] unsigned_take_bit_eq by (rule take_bit_nat_less_exp)

lemma priority_and_mask: "isPriority p \<Longrightarrow> p AND HANDLER_MASK = 0 \<and> p AND NOT HANDLER_MASK = p"
  by (auto simp: isPriority_def HIGH_PRIORITY_def MEDIUM_PRIORITY_def LOW_PRIORITY_def HANDLER_MASK_def)

lemma mask_split: "x = (x AND NOT m) OR (x AND m)" for x m :: u32
  by (rule bit_word_eqI) (auto simp: bit_simps)

lemma mask_disjoint: "x AND m = x \<Longrightarrow> x AND NOT m = 0" "(x AND NOT m) AND m = 0" for x m :: u32
  by (simp_all add: and.assoc) (metis and.assoc bit.conj_cancel_right and_zero_eq)

lemma entry_parts:
  assumes "p AND HANDLER_MASK = 0" and "n < 2 ^ 28"
  shows "handlerIndex (p OR of_nat n) = n" and "priorityOf (p OR of_nat n) = p"
proof -
  have n: "of_nat n AND HANDLER_MASK = (of_nat n :: u32)" "of_nat n AND NOT HANDLER_MASK = (0 :: u32)"
  proof -
    have "take_bit 28 (of_nat n :: u32) = of_nat (take_bit 28 n)" by (rule take_bit_of_nat)
    then show e: "of_nat n AND HANDLER_MASK = (of_nat n :: u32)"
      using assms(2) by (simp add: mask_28 take_bit_eq_mask [symmetric] take_bit_nat_eq_self)
    then show "of_nat n AND NOT HANDLER_MASK = (0 :: u32)" by (rule mask_disjoint)
  qed
  have "(p OR of_nat n) AND HANDLER_MASK = of_nat n" using assms(1) n(1) by (simp add: bit.conj_disj_distrib2)
  then show "handlerIndex (p OR of_nat n) = n" using assms(2) by (simp add: handlerIndex_def)
  have "p AND NOT HANDLER_MASK = p" using assms(1)
    using mask_split [of p HANDLER_MASK] by simp
  then show "priorityOf (p OR of_nat n) = p" using n(2) by (simp add: priorityOf_def bit.conj_disj_distrib2)
qed

lemma entry_split: "h = priorityOf h OR of_nat (handlerIndex h)" and entry_mask: "priorityOf h AND HANDLER_MASK = 0"
proof -
  show "h = priorityOf h OR of_nat (handlerIndex h)"
    unfolding priorityOf_def handlerIndex_def of_nat_unat_id
    by (rule mask_split)
  show "priorityOf h AND HANDLER_MASK = 0"
    unfolding priorityOf_def by (rule mask_disjoint)
qed

lemma entry_eqI: "handlerIndex g = handlerIndex h \<Longrightarrow> priorityOf g = priorityOf h \<Longrightarrow> g = h"
  by (metis entry_split)

text \<open>What culling a handler does to the number of another.\<close>

definition renumber :: "u32 \<Rightarrow> u32 \<Rightarrow> u32 option" where
  "renumber g h =
     (if handlerIndex h > handlerIndex g then Some (priorityOf h OR of_nat (handlerIndex h - 1))
      else if h = g then None else Some h)"

lemma cullHandlers_renumber: "cullHandlers g hs = List.map_filter (renumber g) hs"
proof (induction hs)
  case Nil
  then show ?case by (simp add: cullHandlers_def map_filter_simps)
next
  case (Cons h hs)
  have less: "(h AND HANDLER_MASK) > (g AND HANDLER_MASK) \<longleftrightarrow> handlerIndex h > handlerIndex g"
    by (simp add: word_less_nat_alt handlerIndex_def)
  have "((h AND HANDLER_MASK) - 1) OR (h AND NOT HANDLER_MASK) = priorityOf h OR of_nat (handlerIndex h - 1)"
    if "handlerIndex h > handlerIndex g"
  proof -
    have "of_nat (handlerIndex h - 1) = (of_nat (handlerIndex h) :: u32) - 1" using that by (simp add: of_nat_diff)
    then show ?thesis by (simp add: priorityOf_def handlerIndex_def or.commute)
  qed
  then show ?case using Cons by (simp add: cullHandlers_def renumber_def map_filter_simps less)
qed

lemma renumber_Some:
  assumes "renumber g h = Some h'"
  shows "priorityOf h' = priorityOf h" and "handlerIndex h' = (if handlerIndex h > handlerIndex g then handlerIndex h - 1 else handlerIndex h)"
proof -
  have "handlerIndex h - 1 < 2 ^ 28" using handlerIndex_less [of h] by simp
  from entry_parts [OF entry_mask this]
  show "priorityOf h' = priorityOf h" "handlerIndex h' = (if handlerIndex h > handlerIndex g then handlerIndex h - 1 else handlerIndex h)"
    using assms by (auto simp: renumber_def split: if_splits)
qed

section \<open>The trees that are built\<close>

text \<open>Siblings differ, parameters are named \<open>:\<close>, and they are in the order in which they are tried:
  high priority first, then static segments, parameters and wildcards.\<close>

definition siblingKey :: "Node \<Rightarrow> bytes \<times> bool" where
  "siblingKey n = (nodeName n, nodeHigh n)"

fun kind :: "bytes \<Rightarrow> nat" where
  "kind [] = 0"
| "kind (c # name) = (if c = 58 then 1 else if c = 42 then 2 else 0)"

definition rank :: "bytes \<Rightarrow> bool \<Rightarrow> nat" where
  "rank name high = (if high then 0 else 3) + kind name"

lemma kind_lexicalOrder: "kind name = 2 - lexicalOrder name"
  by (cases name) (auto simp: lexicalOrder_def)

lemma rank_alt: "rank name high = (if high then 0 else 3) + (2 - lexicalOrder name)"
  by (simp add: rank_def kind_lexicalOrder)

fun nodeOk :: "Node \<Rightarrow> bool" where
  "nodeOk (Node nm cs hs hi) \<longleftrightarrow>
     distinct (map siblingKey cs) \<and> (\<forall>c \<in> set cs. stripSegment (nodeName c) = nodeName c) \<and>
     sorted (map (\<lambda>c. rank (nodeName c) (nodeHigh c)) cs) \<and> (\<forall>c \<in> set cs. nodeOk c)"

lemma search_stops: "c \<in> set cs \<Longrightarrow> \<not> P c \<Longrightarrow> length (takeWhile P cs) < length cs"
  by (induction cs) auto

lemma getNode_cases:
  assumes "getNode isRoot child high cs = (cs', i)"
  obtains (old) "cs' = cs" "i < length cs" "siblingKey (cs ! i) = (child, high)"
  | (new) k where "cs' = take k cs @ Node child [] [] high # drop k cs" "i = k" "k \<le> length cs"
    "k = length (takeWhile (\<lambda>n. \<not> sortsBefore isRoot child high n) cs)" "\<forall>c \<in> set cs. siblingKey c \<noteq> (child, high)"
proof (cases "\<exists>c \<in> set cs. siblingKey c = (child, high)")
  case True
  define P where "P = (\<lambda>n. \<not> (nodeName n = child \<and> nodeHigh n = high))"
  have "length (takeWhile P cs) < length cs"
    using True search_stops [of _ cs P] by (auto simp: P_def siblingKey_def)
  moreover have "\<not> P (cs ! length (takeWhile P cs))" using calculation by (rule nth_length_takeWhile)
  moreover have "cs' = cs" "i = length (takeWhile P cs)"
    using assms calculation(1) unfolding getNode_def Let_def P_def by auto
  ultimately show thesis using old by (simp add: P_def siblingKey_def)
next
  case False
  define k where "k = length (takeWhile (\<lambda>n. \<not> sortsBefore isRoot child high n) cs)"
  define P where "P = (\<lambda>n. \<not> (nodeName n = child \<and> nodeHigh n = high))"
  have e: "takeWhile P cs = cs" using False by (auto simp: takeWhile_eq_all_conv siblingKey_def P_def)
  have g: "getNode isRoot child high cs = (let i = length (takeWhile P cs) in
      if i < length cs then (cs, i) else (take k cs @ Node child [] [] high # drop k cs, k))"
    unfolding getNode_def P_def k_def Let_def ..
  have "getNode isRoot child high cs = (take k cs @ Node child [] [] high # drop k cs, k)" unfolding g e by simp
  then have "cs' = take k cs @ Node child [] [] high # drop k cs" "i = k" using assms by simp_all
  moreover have "k \<le> length cs" unfolding k_def by (rule length_takeWhile_le)
  ultimately show thesis using new [of k] False by (simp add: k_def)
qed

lemma lexicalOrder_le: "lexicalOrder nm \<le> 2"
  by (simp add: lexicalOrder_def)

lemma sortsBefore_rank: "sortsBefore False child high b \<longleftrightarrow> rank child high < rank (nodeName b) (nodeHigh b)"
  using lexicalOrder_le [of child] lexicalOrder_le [of "nodeName b"]
  by (auto simp: sortsBefore_def rank_alt lexicalOrder_def split: if_splits)

lemma sorted_insert_at:
  assumes "sorted (map f cs)" and "k = length (takeWhile (\<lambda>n. \<not> f x < f n) cs)"
  shows "sorted (map f (take k cs @ x # drop k cs))"
proof -
  have t: "take k cs = takeWhile (\<lambda>n. \<not> f x < f n) cs" "drop k cs = dropWhile (\<lambda>n. \<not> f x < f n) cs"
    unfolding assms(2) by (simp_all only: takeWhile_eq_take [symmetric] dropWhile_eq_drop [symmetric])
  have s: "sorted (map f (take k cs))" "sorted (map f (drop k cs))" "\<forall>a \<in> set (take k cs). \<forall>b \<in> set (drop k cs). f a \<le> f b"
  proof -
    have "sorted (map f (take k cs) @ map f (drop k cs))" using assms(1) by (metis append_take_drop_id map_append)
    then show "sorted (map f (take k cs))" "sorted (map f (drop k cs))" "\<forall>a \<in> set (take k cs). \<forall>b \<in> set (drop k cs). f a \<le> f b"
      by (simp_all add: sorted_append)
  qed
  have "f a \<le> f x" if "a \<in> set (take k cs)" for a
    using that set_takeWhileD [of a "\<lambda>n. \<not> f x < f n" cs] by (simp add: t(1) linorder_not_less)
  moreover have "f x \<le> f b" if "b \<in> set (drop k cs)" for b
  proof -
    have "drop k cs \<noteq> []" using that by (intro notI) simp
    then obtain c d where d: "drop k cs = c # d" unfolding neq_Nil_conv by blast
    have "f x < f c" using t(2) hd_dropWhile [of "\<lambda>n. \<not> f x < f n" cs] d by (metis list.distinct(1) list.sel(1))
    moreover have "f c \<le> f b" using s(2) that d by auto
    ultimately show ?thesis by simp
  qed
  ultimately show ?thesis using s by (auto simp: sorted_append)
qed

section \<open>Adding a route to a tree\<close>

definition patternPath :: "bool \<Rightarrow> bytes list \<Rightarrow> (bytes \<times> bool) list" where
  "patternPath high segs = map (\<lambda>s. (stripSegment s, high)) segs"

lemma stripSegment_idem [simp]: "stripSegment (stripSegment s) = stripSegment s"
  by (auto simp: stripSegment_def)

lemma insertRoute_key: "nodeName (insertRoute segs high h n) = nodeName n" "nodeHigh (insertRoute segs high h n) = nodeHigh n"
  by (cases n; cases segs; simp add: Let_def split: prod.split)+

definition childRoutes :: "Node \<Rightarrow> route list" where
  "childRoutes c = map (\<lambda>(p, h). ((nodeName c, nodeHigh c) # p, h)) (routesOf c)"

lemma routesOf_Node: "routesOf (Node nm cs hs hi) = map (Pair []) hs @ concat (map childRoutes cs)"
  unfolding routesOf.simps childRoutes_def [abs_def] ..

lemma getNode_routes:
  assumes "getNode isRoot child high cs = (cs', i)"
  shows "i < length cs'" and "siblingKey (cs' ! i) = (child, high)"
    and "concat (map childRoutes cs') = concat (map childRoutes cs)"
    and "distinct (map siblingKey cs) \<Longrightarrow> distinct (map siblingKey cs')"
    and "set cs' \<subseteq> insert (Node child [] [] high) (set cs)"
    and "\<not> isRoot \<Longrightarrow> sorted (map (\<lambda>c. rank (nodeName c) (nodeHigh c)) cs) \<Longrightarrow>
      sorted (map (\<lambda>c. rank (nodeName c) (nodeHigh c)) cs')"
proof -
  let ?f = "\<lambda>c. rank (nodeName c) (nodeHigh c)"
  have "i < length cs' \<and> siblingKey (cs' ! i) = (child, high) \<and> concat (map childRoutes cs') = concat (map childRoutes cs) \<and>
    (distinct (map siblingKey cs) \<longrightarrow> distinct (map siblingKey cs')) \<and> set cs' \<subseteq> insert (Node child [] [] high) (set cs) \<and>
    (\<not> isRoot \<longrightarrow> sorted (map ?f cs) \<longrightarrow> sorted (map ?f cs'))"
  proof (cases rule: getNode_cases [OF assms])
    case 1
    then show ?thesis by auto
  next
    case (2 k)
    define x where "x = Node child [] [] high"
    have cs': "cs' = take k cs @ x # drop k cs" using 2(1) by (simp add: x_def)
    have "childRoutes x = []" by (simp add: childRoutes_def x_def)
    then have "concat (map childRoutes cs') = concat (map childRoutes (take k cs)) @ concat (map childRoutes (drop k cs))"
      by (simp add: cs')
    also have "\<dots> = concat (map childRoutes (take k cs @ drop k cs))" by (simp only: map_append concat_append)
    finally have r: "concat (map childRoutes cs') = concat (map childRoutes cs)" by (simp only: append_take_drop_id)
    define ys zs where "ys = map siblingKey (take k cs)" and "zs = map siblingKey (drop k cs)"
    have yz: "ys @ zs = map siblingKey cs" unfolding ys_def zs_def by (simp only: map_append [symmetric] append_take_drop_id)
    have "siblingKey x \<notin> set (ys @ zs)" unfolding yz using 2(5) by (auto simp: x_def siblingKey_def)
    moreover have "map siblingKey cs' = ys @ siblingKey x # zs" by (simp add: cs' ys_def zs_def)
    ultimately have d: "distinct (map siblingKey cs) \<longrightarrow> distinct (map siblingKey cs')" unfolding yz [symmetric] by auto
    have s: "sorted (map ?f cs')" if "\<not> isRoot" "sorted (map ?f cs)"
      unfolding cs' by (rule sorted_insert_at [OF that(2)]) (use 2(4) that(1) in \<open>simp add: sortsBefore_rank x_def\<close>)
    show ?thesis
      using 2(2,3) r d s set_take_subset [of k cs] set_drop_subset [of k cs]
      by (auto simp: cs' x_def nth_append siblingKey_def)
  qed
  then show "i < length cs'" "siblingKey (cs' ! i) = (child, high)" "concat (map childRoutes cs') = concat (map childRoutes cs)"
    "distinct (map siblingKey cs) \<Longrightarrow> distinct (map siblingKey cs')" "set cs' \<subseteq> insert (Node child [] [] high) (set cs)"
    "\<not> isRoot \<Longrightarrow> sorted (map ?f cs) \<Longrightarrow> sorted (map ?f cs')"
    by auto
qed

lemma mset_concat_update:
  assumes "i < length cs" and "mset (f c) = add_mset x (mset (f (cs ! i)))"
  shows "mset (concat (map f (cs[i := c]))) = add_mset x (mset (concat (map f cs)))"
proof -
  have cs: "cs = take i cs @ cs ! i # drop (Suc i) cs" using assms(1) by (rule id_take_nth_drop)
  have "mset (concat (map f (cs[i := c]))) = mset (concat (map f (take i cs))) + mset (f c) + mset (concat (map f (drop (Suc i) cs)))"
    using assms(1) by (simp add: upd_conv_take_nth_drop add.assoc)
  also have "\<dots> = add_mset x (mset (concat (map f (take i cs @ cs ! i # drop (Suc i) cs))))" by (simp add: assms(2))
  finally show ?thesis using cs by simp
qed

lemma map_update_same: "i < length cs \<Longrightarrow> f c = f (cs ! i) \<Longrightarrow> map f (cs[i := c]) = map f cs"
  by (metis list_update_id map_update)

lemma insertRoute_both:
  "mset (routesOf (insertRoute segs high h n)) = add_mset (patternPath high segs, h) (mset (routesOf n)) \<and>
   (nodeOk n \<longrightarrow> nodeOk (insertRoute segs high h n))"
proof (induction segs arbitrary: n)
  case Nil
  obtain nm cs hs hi where n: "n = Node nm cs hs hi" by (cases n)
  have "mset (insertHandler h hs) = add_mset h (mset hs)"
    unfolding insertHandler_def by (metis mset_append mset.simps(2) takeWhile_dropWhile_id union_mset_add_mset_right)
  then show ?case by (simp add: n patternPath_def)
next
  case (Cons seg segs)
  obtain nm cs hs hi where n: "n = Node nm cs hs hi" by (cases n)
  obtain cs' i where g: "getNode False (stripSegment seg) high cs = (cs', i)" by (cases "getNode False (stripSegment seg) high cs")
  note r = getNode_routes [OF g]
  define c where "c = insertRoute segs high h (cs' ! i)"
  have ins: "insertRoute (seg # segs) high h n = Node nm (cs'[i := c]) hs hi" by (simp add: n g c_def)
  have key: "nodeName c = nodeName (cs' ! i)" "nodeHigh c = nodeHigh (cs' ! i)" by (simp_all add: c_def insertRoute_key)
  have name: "nodeName (cs' ! i) = stripSegment seg" "nodeHigh (cs' ! i) = high" using r(2) by (simp_all add: siblingKey_def)
  have "mset (childRoutes c) = add_mset (patternPath high (seg # segs), h) (mset (childRoutes (cs' ! i)))"
    using Cons.IH [of "cs' ! i"] key name by (simp add: childRoutes_def c_def patternPath_def)
  from mset_concat_update [OF r(1) this]
  have routes: "mset (routesOf (insertRoute (seg # segs) high h n)) = add_mset (patternPath high (seg # segs), h) (mset (routesOf n))"
    unfolding ins unfolding n routesOf_Node by (simp add: r(3))
  have "nodeOk (insertRoute (seg # segs) high h n)" if "nodeOk n"
  proof -
    have ok: "distinct (map siblingKey cs)" "\<forall>c \<in> set cs. stripSegment (nodeName c) = nodeName c"
      "sorted (map (\<lambda>c. rank (nodeName c) (nodeHigh c)) cs)" "\<forall>c \<in> set cs. nodeOk c"
      using that by (simp_all add: n)
    have ok': "\<forall>c \<in> set cs'. stripSegment (nodeName c) = nodeName c \<and> nodeOk c" using r(5) ok by auto
    have "cs' ! i \<in> set cs'" using r(1) by simp
    then have "nodeOk c" "stripSegment (nodeName c) = nodeName c" using Cons.IH ok' key by (auto simp: c_def)
    then have "\<forall>d \<in> set (cs'[i := c]). stripSegment (nodeName d) = nodeName d \<and> nodeOk d"
      using ok' set_update_subset_insert [of cs' i c] by auto
    moreover have "map siblingKey (cs'[i := c]) = map siblingKey cs'"
      by (rule map_update_same [OF r(1)]) (simp add: siblingKey_def key)
    moreover have "map (\<lambda>c. rank (nodeName c) (nodeHigh c)) (cs'[i := c]) = map (\<lambda>c. rank (nodeName c) (nodeHigh c)) cs'"
      by (rule map_update_same [OF r(1)]) (simp add: key)
    ultimately show ?thesis using r(4) [OF ok(1)] r(6) [OF _ ok(3)] by (simp add: ins)
  qed
  with routes show ?case by blast
qed

lemmas insertRoute_routes = insertRoute_both [THEN conjunct1] insertRoute_both [THEN conjunct2, rule_format]

section \<open>Removing a handler from a tree\<close>

definition cullRoutes :: "u32 \<Rightarrow> route list \<Rightarrow> route list" where
  "cullRoutes g rs = List.map_filter (\<lambda>(p, h). map_option (Pair p) (renumber g h)) rs"

lemma cullRoutes_append: "cullRoutes g (xs @ ys) = cullRoutes g xs @ cullRoutes g ys"
  by (simp add: cullRoutes_def map_filter_append)

lemma cullRoutes_childRoutes:
  "cullRoutes g (map (\<lambda>(p, h). (k # p, h)) rs) = map (\<lambda>(p, h). (k # p, h)) (cullRoutes g rs)"
proof -
  have "(\<lambda>(p, h). map_option (Pair p) (renumber g h)) \<circ> (\<lambda>(p, h). (k # p, h)) =
      (\<lambda>x. map_option (\<lambda>(p, h). (k # p, h)) (case x of (p, h) \<Rightarrow> map_option (Pair p) (renumber g h)))"
    by (auto simp: fun_eq_iff option.map_comp comp_def)
  then show ?thesis unfolding cullRoutes_def map_filter_map by (simp only: map_filter_map_option)
qed

definition cullsTo :: "u32 \<Rightarrow> Node \<Rightarrow> Node option \<Rightarrow> bool" where
  "cullsTo g n r \<longleftrightarrow>
     (case r of
        None \<Rightarrow> cullRoutes g (routesOf n) = []
      | Some n' \<Rightarrow> routesOf n' = cullRoutes g (routesOf n) \<and> siblingKey n' = siblingKey n \<and> (nodeOk n \<longrightarrow> nodeOk n'))"

lemma cullChildren_if:
  assumes "\<forall>d \<in> set ds. cullsTo g d (cullNode g d)"
  shows "concat (map childRoutes (cullChildren g ds)) = cullRoutes g (concat (map childRoutes ds))"
    and "set (map siblingKey (cullChildren g ds)) \<subseteq> set (map siblingKey ds)"
    and "distinct (map siblingKey ds) \<Longrightarrow> distinct (map siblingKey (cullChildren g ds))"
    and "sorted_wrt (\<lambda>a b. R (siblingKey a) (siblingKey b)) ds \<Longrightarrow>
      sorted_wrt (\<lambda>a b. R (siblingKey a) (siblingKey b)) (cullChildren g ds)"
    and "\<forall>d \<in> set ds. nodeOk d \<Longrightarrow> \<forall>d \<in> set (cullChildren g ds). nodeOk d"
  using assms
proof (induction ds)
  case Nil
  { case 1 show ?case by (simp add: cullRoutes_def map_filter_simps)
  next case 2 show ?case by simp
  next case 3 show ?case by simp
  next case 4 show ?case by simp
  next case 5 show ?case by simp }
next
  case (Cons d ds)
  { fix all assume all: "\<forall>x \<in> set (d # ds). cullsTo g x (cullNode g x)"
    then have rest: "\<forall>x \<in> set ds. cullsTo g x (cullNode g x)" and d: "cullsTo g d (cullNode g d)" by simp_all
    note IH = Cons.IH(1) [OF rest] Cons.IH(2) [OF rest] Cons.IH(3) [OF _ rest] Cons.IH(4) [OF _ rest] Cons.IH(5) [OF _ rest]
    have "concat (map childRoutes (cullChildren g (d # ds))) = cullRoutes g (concat (map childRoutes (d # ds))) \<and>
        set (map siblingKey (cullChildren g (d # ds))) \<subseteq> set (map siblingKey (d # ds)) \<and>
        (distinct (map siblingKey (d # ds)) \<longrightarrow> distinct (map siblingKey (cullChildren g (d # ds)))) \<and>
        (sorted_wrt (\<lambda>a b. R (siblingKey a) (siblingKey b)) (d # ds) \<longrightarrow>
          sorted_wrt (\<lambda>a b. R (siblingKey a) (siblingKey b)) (cullChildren g (d # ds))) \<and>
        ((\<forall>x \<in> set (d # ds). nodeOk x) \<longrightarrow> (\<forall>x \<in> set (cullChildren g (d # ds)). nodeOk x))"
    proof (cases "cullNode g d")
      case None
      then have "cullRoutes g (childRoutes d) = []" using d by (simp add: childRoutes_def cullRoutes_childRoutes cullsTo_def)
      then show ?thesis using IH None by (auto simp: cullRoutes_append)
    next
      case (Some d')
      then have d': "routesOf d' = cullRoutes g (routesOf d)" "siblingKey d' = siblingKey d" "nodeOk d \<longrightarrow> nodeOk d'"
        using d by (simp_all add: cullsTo_def)
      have k: "nodeName d' = nodeName d" "nodeHigh d' = nodeHigh d" using d'(2) by (simp_all add: siblingKey_def)
      have eq: "cullChildren g (d # ds) = d' # cullChildren g ds" using Some by simp
      have "childRoutes d' = cullRoutes g (childRoutes d)" using d'(1) k by (simp add: childRoutes_def cullRoutes_childRoutes)
      then have routes: "concat (map childRoutes (cullChildren g (d # ds))) = cullRoutes g (concat (map childRoutes (d # ds)))"
        using IH(1) eq by (simp add: cullRoutes_append)
      have sub: "R (siblingKey d) (siblingKey x)"
        if x: "x \<in> set (cullChildren g ds)" and s: "\<forall>y \<in> set ds. R (siblingKey d) (siblingKey y)" for x
      proof -
        have "siblingKey x \<in> set (map siblingKey ds)" using x IH(2) by auto
        then show ?thesis using s by auto
      qed
      have "set (map siblingKey (d' # cullChildren g ds)) \<subseteq> set (map siblingKey (d # ds))" using IH(2) d'(2) by auto
      moreover have "distinct (map siblingKey (d # ds)) \<longrightarrow> distinct (map siblingKey (d' # cullChildren g ds))"
        using IH(2,3) d'(2) by auto
      moreover have "sorted_wrt (\<lambda>a b. R (siblingKey a) (siblingKey b)) (d # ds) \<longrightarrow>
          sorted_wrt (\<lambda>a b. R (siblingKey a) (siblingKey b)) (d' # cullChildren g ds)"
        using IH(4) sub d'(2) by simp
      moreover have "(\<forall>x \<in> set (d # ds). nodeOk x) \<longrightarrow> (\<forall>x \<in> set (d' # cullChildren g ds). nodeOk x)"
        using IH(5) d'(3) by simp
      ultimately show ?thesis using routes unfolding eq by (intro conjI)
    qed
  } note step = this
  { case 1 show ?case using step [OF 1] by (elim conjE)
  next case 2 show ?case using step [OF 2] by (elim conjE)
  next case 3 show ?case using step [OF 3(2)] 3(1) by (elim conjE) (rule mp)
  next case 4 show ?case using step [OF 4(2)] 4(1) by (elim conjE) (rule mp)
  next case 5 show ?case using step [OF 5(2)] 5(1) by (elim conjE) (rule mp) }
qed

lemma cullNode_routes: "cullsTo g n (cullNode g n)"
proof (induction n)
  case (Node nm cs hs hi)
  let ?f = "\<lambda>c. rank (nodeName c) (nodeHigh c)"
  have IH: "\<forall>c \<in> set cs. cullsTo g c (cullNode g c)" using Node.IH by blast
  note list = cullChildren_if [OF IH]
  have own: "map (Pair []) (cullHandlers g hs) = cullRoutes g (map (Pair []) hs)"
    by (simp add: cullHandlers_renumber cullRoutes_def map_filter_map comp_def map_filter_map_option)
  have routes: "routesOf (Node nm (cullChildren g cs) (cullHandlers g hs) hi) = cullRoutes g (routesOf (Node nm cs hs hi))"
    using list(1) own by (simp only: routesOf_Node cullRoutes_append)
  show ?case
  proof (cases "cullHandlers g hs = [] \<and> cullChildren g cs = []")
    case True
    then show ?thesis using routes by (simp add: cullsTo_def)
  next
    case False
    then have "cullNode g (Node nm cs hs hi) = Some (Node nm (cullChildren g cs) (cullHandlers g hs) hi)" by (auto simp: Let_def)
    moreover have "nodeOk (Node nm cs hs hi) \<longrightarrow> nodeOk (Node nm (cullChildren g cs) (cullHandlers g hs) hi)"
    proof
      assume "nodeOk (Node nm cs hs hi)"
      then have ok: "distinct (map siblingKey cs)" "\<forall>c \<in> set cs. stripSegment (nodeName c) = nodeName c"
        "sorted (map ?f cs)" "\<forall>c \<in> set cs. nodeOk c"
        by simp_all
      have "\<forall>c \<in> set (cullChildren g cs). stripSegment (nodeName c) = nodeName c"
      proof
        fix c assume "c \<in> set (cullChildren g cs)"
        then have "siblingKey c \<in> set (map siblingKey cs)" using list(2) by auto
        then obtain d where "d \<in> set cs" "siblingKey d = siblingKey c" by auto
        then show "stripSegment (nodeName c) = nodeName c" using ok(2) by (metis prod.inject siblingKey_def)
      qed
      moreover have "sorted (map ?f (cullChildren g cs))"
        using list(4) [of "\<lambda>x y. rank (fst x) (snd x) \<le> rank (fst y) (snd y)"] ok(3)
        by (simp add: sorted_wrt_map siblingKey_def)
      ultimately show "nodeOk (Node nm (cullChildren g cs) (cullHandlers g hs) hi)"
        using list(3) [OF ok(1)] list(5) [OF ok(4)] unfolding nodeOk.simps by (intro conjI)
    qed
    ultimately show ?thesis using routes unfolding siblingKey_def cullsTo_def by (simp only: option.case Node.sel simp_thms)
  qed
qed

lemmas cullChildren_routes = cullChildren_if [OF ballI [OF cullNode_routes]]

section \<open>Finding a handler\<close>

lemma segmentLoop_segments:
  assumes "cacheOk url r" and "int i \<le> urlSegmentTop r + 1" and "length (segmentsOf url) < n + i"
  shows "\<exists>r'. segmentLoop n (int i) r = Some (r', drop i (segmentsOf url)) \<and> fixed r r' \<and> cacheOk url r' \<and> params r' = params r"
  using assms
proof (induction n arbitrary: i r)
  case 0
  have "int i \<le> int (length (segmentsOf url))"
    using 0 unfolding cacheOk_def Let_def by linarith
  then show ?case using 0(3) by simp
next
  case (Suc n)
  obtain r1 where r1: "getUrlSegment (int i) r = Some (r1, if i < length (segmentsOf url) then Some (segmentsOf url ! i) else None)"
    "cacheOk url r1" "fixed r r1" "params r1 = params r" "paramsTop r1 = paramsTop r"
    "urlSegmentTop r \<le> urlSegmentTop r1" "i < length (segmentsOf url) \<Longrightarrow> int i \<le> urlSegmentTop r1"
    by (rule getUrlSegment_cached [OF Suc.prems(1,2)]) blast
  show ?case
  proof (cases "i < length (segmentsOf url)")
    case False
    then show ?thesis using r1 by simp
  next
    case True
    have "int (i + 1) \<le> urlSegmentTop r1 + 1" using r1(7) [OF True] by simp
    from Suc.IH [OF r1(2) this] Suc.prems(3)
    obtain r' where "segmentLoop n (int (i + 1)) r1 = Some (r', drop (i + 1) (segmentsOf url))" "fixed r1 r'" "cacheOk url r'" "params r' = params r1"
      by auto
    then show ?thesis
      using True r1(1,3,4) fixed_trans [OF r1(3)] by (simp add: Cons_nth_drop_Suc add.commute)
  qed
qed

lemma stripSegment_match:
  assumes "stripSegment nm = nm"
  shows "(seg \<noteq> [] \<and> nm \<noteq> [] \<and> seg ! 0 = 58 \<and> nm ! 0 = 58) \<or> nm = seg \<longleftrightarrow> nm = stripSegment seg"
  using assms by (auto simp: stripSegment_def split: if_splits)

lemma find_distinct:
  assumes "distinct (map f xs)" and "x \<in> set xs"
  shows "List.find (\<lambda>y. f y = f x) xs = Some x"
  using assms by (induction xs) auto

lemma findChild_spec:
  assumes "\<forall>c \<in> set cs. stripSegment (nodeName c) = nodeName c"
  shows "findChild high seg cs = List.find (\<lambda>c. siblingKey c = (stripSegment seg, high)) cs"
  unfolding findChild_def
  by (rule find_cong) (use assms stripSegment_match in \<open>auto simp: siblingKey_def\<close>)

lemma childRoutes_mem: "(k # p, h) \<in> set (childRoutes c) \<longleftrightarrow> siblingKey c = k \<and> (p, h) \<in> set (routesOf c)"
  by (auto simp: childRoutes_def siblingKey_def)

lemma childRoutes_not_Nil: "([], h) \<notin> set (childRoutes c)"
  by (auto simp: childRoutes_def)

lemma findPath_routes:
  "nodeOk n \<Longrightarrow>
   (case findPath high segs n of
      None \<Rightarrow> (\<forall>h. (patternPath high segs, h) \<notin> set (routesOf n))
    | Some n' \<Rightarrow> (\<forall>h. (patternPath high segs, h) \<in> set (routesOf n) \<longleftrightarrow> h \<in> set (nodeHandlers n')))"
proof (induction segs arbitrary: n)
  case Nil
  obtain nm cs hs hi where n: "n = Node nm cs hs hi" by (cases n)
  show ?case by (auto simp: n patternPath_def)
next
  case (Cons seg segs)
  obtain nm cs hs hi where n: "n = Node nm cs hs hi" by (cases n)
  have ok: "distinct (map siblingKey cs)" "\<forall>c \<in> set cs. stripSegment (nodeName c) = nodeName c" "\<forall>c \<in> set cs. nodeOk c"
    using Cons.prems by (simp_all add: n)
  have mem: "(patternPath high (seg # segs), h) \<in> set (routesOf n) \<longleftrightarrow>
      (\<exists>c \<in> set cs. siblingKey c = (stripSegment seg, high) \<and> (patternPath high segs, h) \<in> set (routesOf c))" for h
    by (auto simp: n routesOf_Node patternPath_def childRoutes_mem simp del: routesOf.simps)
  show ?case
  proof (cases "findChild high seg cs")
    case None
    then have "\<forall>c \<in> set cs. siblingKey c \<noteq> (stripSegment seg, high)"
      unfolding findChild_spec [OF ok(2)] find_None_iff by blast
    then show ?thesis using None mem by (auto simp: n)
  next
    case (Some c)
    then have c: "c \<in> set cs" "siblingKey c = (stripSegment seg, high)"
      unfolding findChild_spec [OF ok(2)] find_Some_iff by auto
    have "d = c" if "d \<in> set cs" "siblingKey d = (stripSegment seg, high)" for d
      using ok(1) c that by (metis inj_onD distinct_map)
    then have "(patternPath high (seg # segs), h) \<in> set (routesOf n) \<longleftrightarrow> (patternPath high segs, h) \<in> set (routesOf c)" for h
      using mem c by blast
    moreover have "nodeOk c" using ok(3) c(1) by blast
    ultimately show ?thesis using Cons.IH [of c] Some by (simp add: n split: option.splits)
  qed
qed

section \<open>Sorting the methods\<close>

lemma lexLess_irrefl: "\<not> lexLess xs xs"
  by (induction xs) auto

lemma lexLess_trans: "lexLess xs ys \<Longrightarrow> lexLess ys zs \<Longrightarrow> lexLess xs zs"
proof (induction ys arbitrary: xs zs)
  case (Cons y ys)
  then show ?case by (cases xs; cases zs) (auto dest: less_trans)
qed simp

lemma lexLess_total: "xs = ys \<or> lexLess xs ys \<or> lexLess ys xs"
proof (induction xs arbitrary: ys)
  case Nil
  then show ?case by (cases ys) auto
next
  case (Cons x xs)
  then show ?case by (cases ys) (auto simp: neq_iff)
qed

definition methodClass :: "bytes \<Rightarrow> nat" where
  "methodClass m = (if m = ascii ''GET'' then 0 else if m = ANY_METHOD_TOKEN then 2 else 1)"

lemma methodLess_class:
  "methodLess a b \<longleftrightarrow> methodClass a < methodClass b \<or> methodClass a = 1 \<and> methodClass b = 1 \<and> lexLess a b"
proof -
  define g t where "g = ascii ''GET''" and "t = ANY_METHOD_TOKEN"
  have "g \<noteq> t" by (simp add: g_def t_def ANY_METHOD_TOKEN_def)
  then show ?thesis
    unfolding methodLess_def methodClass_def g_def [symmetric] t_def [symmetric]
    by (cases "a = g"; cases "b = g"; cases "a = t"; cases "b = t") (simp_all add: lexLess_irrefl)
qed

lemma methodLess_trans: "methodLess a b \<Longrightarrow> methodLess b c \<Longrightarrow> methodLess a c"
  unfolding methodLess_class using lexLess_trans by force

lemma methodLess_total: "a = b \<or> methodLess a b \<or> methodLess b a"
proof -
  have "a = b" if "methodClass a = methodClass b" "methodClass a \<noteq> 1"
    using that by (auto simp: methodClass_def split: if_splits)
  then show ?thesis unfolding methodLess_class using lexLess_total [of a b] by (metis less_one linorder_neqE_nat)
qed

definition methodsSorted :: "Node list \<Rightarrow> bool" where
  "methodsSorted ns \<longleftrightarrow> sorted_wrt (\<lambda>m n. methodLess (nodeName m) (nodeName n)) ns"

lemma mset_sortMethods: "mset (sortMethods ns) = mset ns"
proof -
  have "mset (insertMethod n ms) = add_mset n (mset ms)" for n ms by (induction ms) auto
  then have "mset (foldr insertMethod ns []) = mset ns" by (induction ns) simp_all
  then show ?thesis by (simp add: sortMethods_def)
qed

lemma insertMethod_set: "set (insertMethod n ms) = insert n (set ms)"
  by (induction ms) auto

lemma methodsSorted_insert:
  "methodsSorted ms \<Longrightarrow> \<forall>m \<in> set ms. nodeName m \<noteq> nodeName n \<Longrightarrow> methodsSorted (insertMethod n ms)"
proof (induction ms)
  case Nil
  then show ?case by (simp add: methodsSorted_def)
next
  case (Cons m ms)
  show ?case
  proof (cases "methodLess (nodeName m) (nodeName n)")
    case True
    then show ?thesis using Cons by (auto simp: methodsSorted_def insertMethod_set)
  next
    case False
    then have nm: "methodLess (nodeName n) (nodeName m)" using methodLess_total Cons.prems(2) by auto
    have "\<forall>x \<in> set ms. methodLess (nodeName n) (nodeName x)"
      using Cons.prems(1) methodLess_trans [OF nm] by (auto simp: methodsSorted_def)
    then show ?thesis using Cons.prems(1) nm False by (simp add: methodsSorted_def)
  qed
qed

lemma methodsSorted_sort: "distinct (map nodeName ns) \<Longrightarrow> methodsSorted (sortMethods ns)"
proof -
  assume "distinct (map nodeName ns)"
  then have "methodsSorted (foldr insertMethod ns []) \<and> set (foldr insertMethod ns []) = set ns"
  proof (induction ns)
    case Nil
    then show ?case by (simp add: methodsSorted_def)
  next
    case (Cons n ns)
    then have "\<forall>m \<in> set ns. nodeName m \<noteq> nodeName n" by (metis distinct.simps(2) image_eqI list.set_map list.simps(9))
    then show ?case using Cons methodsSorted_insert [of "foldr insertMethod ns []" n] by (simp add: insertMethod_set)
  qed
  then show ?thesis by (simp add: sortMethods_def)
qed

end
