(* ===== verification/HttpRouterMap.thy ===== *)
theory HttpRouterMap
  imports HttpRouterTree
begin

text \<open>
  What the router promises: it is a map from methods, patterns and priorities to handlers, a request
  is offered to the matching routes in the order of their patterns, and what happens when the node
  for any method is culled.
\<close>

section \<open>The router as a map\<close>

definition allRoutes :: "'h HttpRouter \<Rightarrow> route list" where
  "allRoutes r = concat (map childRoutes (rootChildren r))"

definition routeKey :: "bytes \<Rightarrow> bytes \<Rightarrow> u32 \<Rightarrow> (bytes \<times> bool) list \<times> u32" where
  "routeKey method pattern priority =
     ((method, False) # patternPath (priority = HIGH_PRIORITY) (segmentsOf pattern), priority)"

definition keyOf :: "route \<Rightarrow> (bytes \<times> bool) list \<times> u32" where
  "keyOf = (\<lambda>(p, h). (p, priorityOf h))"

text \<open>The handler registered for a method, a pattern and a priority.\<close>

definition routesMap :: "'h HttpRouter \<Rightarrow> (bytes \<times> bool) list \<times> u32 \<Rightarrow> 'h option" where
  "routesMap r = map_of (map (\<lambda>e. (keyOf e, routeHandlers r ! handlerIndex (snd e))) (allRoutes r))"

definition routerOk :: "'h HttpRouter \<Rightarrow> bool" where
  "routerOk r \<longleftrightarrow>
     distinct (map keyOf (allRoutes r)) \<and>
     distinct (map (handlerIndex \<circ> snd) (allRoutes r)) \<and>
     set (map (handlerIndex \<circ> snd) (allRoutes r)) = {..<length (routeHandlers r)} \<and>
     (\<forall>m \<in> set (rootChildren r). nodeOk m \<and> \<not> nodeHigh m) \<and>
     distinct (map siblingKey (rootChildren r)) \<and> methodsSorted (rootChildren r) \<and>
     length (urlSegmentVector r) = 100 \<and> length (params r) = 100"

lemma routesMap_iff:
  assumes "routerOk r"
  shows "routesMap r k = Some f \<longleftrightarrow> (\<exists>e \<in> set (allRoutes r). keyOf e = k \<and> routeHandlers r ! handlerIndex (snd e) = f)"
proof -
  have "distinct (map fst (map (\<lambda>e. (keyOf e, routeHandlers r ! handlerIndex (snd e))) (allRoutes r)))"
    using assms by (simp add: routerOk_def comp_def)
  from map_of_eq_Some_iff [OF this] show ?thesis unfolding routesMap_def by auto
qed

lemma bex_pair: "(\<exists>e \<in> S. P e) \<longleftrightarrow> (\<exists>q h. (q, h) \<in> S \<and> P (q, h))"
  by auto

lemma map_eqI: "(\<And>k v. m k = Some v \<longleftrightarrow> m' k = Some v) \<Longrightarrow> m = (m' :: 'a \<Rightarrow> 'b option)"
proof (rule ext)
  fix k assume "\<And>k v. m k = Some v \<longleftrightarrow> m' k = Some v"
  then show "m k = m' k" by (metis option.exhaust)
qed

lemma methods_names: "(\<forall>m \<in> set ms. \<not> nodeHigh m) \<Longrightarrow> map siblingKey ms = map (\<lambda>x. (x, False)) (map nodeName ms)"
  by (induction ms) (auto simp: siblingKey_def)

lemma distinct_names:
  assumes "\<forall>m \<in> set ms. \<not> nodeHigh m" and "distinct (map siblingKey ms)"
  shows "distinct (map nodeName ms)"
  using assms(2) unfolding methods_names [OF assms(1)] distinct_map by simp

lemma fixed_ok:
  assumes "routerOk r" and "fixed r r'" and "length (urlSegmentVector r') = 100" and "length (params r') = 100"
  shows "routerOk r'" and "routesMap r' = routesMap r" and "allRoutes r' = allRoutes r"
  using assms by (simp_all add: routerOk_def fixed_def allRoutes_def routesMap_def)

lemma setUrl_segments:
  assumes "routerOk r"
  obtains r' where "segmentLoop 101 0 (setUrl url r) = Some (r', segmentsOf url)"
    "routeHandlers r' = routeHandlers r" "rootChildren r' = rootChildren r"
    "length (urlSegmentVector r') = 100" "length (params r') = 100"
proof -
  have c: "cacheOk url (setUrl url r)" using assms by (simp add: cacheOk_setUrl routerOk_def)
  have l: "length (segmentsOf url) < 101 + 0" by (simp add: segmentsOf_def)
  from segmentLoop_segments [OF c _ l] obtain r' where
    "segmentLoop 101 0 (setUrl url r) = Some (r', segmentsOf url)" "fixed (setUrl url r) r'" "cacheOk url r'"
    "params r' = params (setUrl url r)"
    by (auto simp: setUrl_def)
  then show thesis using that assms by (simp add: fixed_def setUrl_def cacheOk_def Let_def routerOk_def)
qed

lemma findHandler_spec:
  assumes "routerOk r"
  obtains r' res where "findHandler method pattern priority r = Some (r', res)"
    "routeHandlers r' = routeHandlers r" "rootChildren r' = rootChildren r"
    "length (urlSegmentVector r') = 100" "length (params r') = 100"
    "case res of
       None \<Rightarrow> routeKey method pattern priority \<notin> keyOf ` set (allRoutes r)
     | Some h \<Rightarrow> (fst (routeKey method pattern priority), h) \<in> set (allRoutes r) \<and> priorityOf h = priority"
proof (cases "List.find (\<lambda>n. nodeName n = method) (rootChildren r)")
  case None
  have "routeKey method pattern priority \<notin> keyOf ` set (allRoutes r)"
    using None by (auto simp: find_None_iff allRoutes_def routeKey_def keyOf_def childRoutes_def)
  then show thesis using that [of r None] None assms by (simp add: findHandler_def routerOk_def)
next
  case (Some n)
  define high where "high \<longleftrightarrow> priority = HIGH_PRIORITY"
  have n: "n \<in> set (rootChildren r)" "nodeName n = method" using Some by (auto simp: find_Some_iff)
  have ok: "nodeOk n" "siblingKey n = (method, False)" "distinct (map siblingKey (rootChildren r))"
    using assms n by (auto simp: routerOk_def siblingKey_def)
  have mem: "(fst (routeKey method pattern priority), h) \<in> set (allRoutes r) \<longleftrightarrow>
      (patternPath high (segmentsOf pattern), h) \<in> set (routesOf n)" for h
  proof -
    have "d = n" if "d \<in> set (rootChildren r)" "siblingKey d = (method, False)" for d
      using ok(2,3) n(1) that by (metis inj_onD distinct_map)
    moreover have "(fst (routeKey method pattern priority), h) \<in> set (allRoutes r) \<longleftrightarrow>
        (\<exists>d \<in> set (rootChildren r). siblingKey d = (method, False) \<and> (patternPath high (segmentsOf pattern), h) \<in> set (routesOf d))"
      by (simp add: allRoutes_def routeKey_def childRoutes_mem high_def)
    ultimately show ?thesis using n(1) ok(2) by blast
  qed
  obtain r' where r': "segmentLoop 101 0 (setUrl pattern r) = Some (r', segmentsOf pattern)"
    "routeHandlers r' = routeHandlers r" "rootChildren r' = rootChildren r"
    "length (urlSegmentVector r') = 100" "length (params r') = 100"
    by (rule setUrl_segments [OF assms]) blast
  define res where "res = (case findPath high (segmentsOf pattern) n of
      None \<Rightarrow> None | Some n \<Rightarrow> List.find (\<lambda>h. h AND NOT HANDLER_MASK = priority) (nodeHandlers n))"
  have eq: "findHandler method pattern priority r = Some (r', res)"
    using Some r'(1) by (simp add: findHandler_def res_def high_def)
  have none: "routeKey method pattern priority \<notin> keyOf ` set (allRoutes r)"
    if "\<forall>h. (fst (routeKey method pattern priority), h) \<in> set (allRoutes r) \<longrightarrow> priorityOf h \<noteq> priority"
  proof
    assume "routeKey method pattern priority \<in> keyOf ` set (allRoutes r)"
    then obtain p h where "(p, h) \<in> set (allRoutes r)" "routeKey method pattern priority = (p, priorityOf h)"
      by (auto simp: keyOf_def)
    then show False using that by (auto simp: routeKey_def)
  qed
  have "case res of
       None \<Rightarrow> routeKey method pattern priority \<notin> keyOf ` set (allRoutes r)
     | Some h \<Rightarrow> (fst (routeKey method pattern priority), h) \<in> set (allRoutes r) \<and> priorityOf h = priority"
  proof (cases "findPath high (segmentsOf pattern) n")
    case None
    then have "\<forall>h. (fst (routeKey method pattern priority), h) \<notin> set (allRoutes r)"
      using findPath_routes [OF ok(1), of high "segmentsOf pattern"] mem by simp
    then show ?thesis using none None by (simp add: res_def)
  next
    case (Some n')
    then have m: "(fst (routeKey method pattern priority), h) \<in> set (allRoutes r) \<longleftrightarrow> h \<in> set (nodeHandlers n')" for h
      using findPath_routes [OF ok(1), of high "segmentsOf pattern"] mem by simp
    show ?thesis
    proof (cases res)
      case None
      then have "\<forall>h \<in> set (nodeHandlers n'). priorityOf h \<noteq> priority"
        using Some by (auto simp: res_def find_None_iff priorityOf_def)
      then show ?thesis using none m None by simp
    next
      case (Some h)
      then have "h \<in> set (nodeHandlers n')" "priorityOf h = priority"
        using \<open>findPath high (segmentsOf pattern) n = Some n'\<close> by (auto simp: res_def find_Some_iff priorityOf_def)
      then show ?thesis using m Some by simp
    qed
  qed
  then show thesis using that eq r' by blast
qed

text \<open>Culling the handler of one route leaves the others, with numbers that fit the shorter list.\<close>

lemma cullRoutes_set:
  "(p, h') \<in> set (cullRoutes g rs) \<longleftrightarrow> (\<exists>h. (p, h) \<in> set rs \<and> renumber g h = Some h')"
  by (force simp: cullRoutes_def map_filter_def)

lemma distinct_cullRoutes:
  assumes "distinct (map f rs)" and "\<And>p h h'. (p, h) \<in> set rs \<Longrightarrow> renumber g h = Some h' \<Longrightarrow> f' (p, h') = k (f (p, h))"
    and "inj_on k (f ` {(p, h) \<in> set rs. renumber g h \<noteq> None})"
  shows "distinct (map f' (cullRoutes g rs))"
  using assms
proof (induction rs)
  case Nil
  then show ?case by (simp add: cullRoutes_def map_filter_simps)
next
  case (Cons e rs)
  obtain p h where e: "e = (p, h)" by (cases e)
  have IH: "distinct (map f' (cullRoutes g rs))"
    by (rule Cons.IH) (use Cons.prems in \<open>auto intro: inj_on_subset\<close>)
  show ?case
  proof (cases "renumber g h")
    case None
    then show ?thesis using IH by (simp add: e cullRoutes_def map_filter_simps)
  next
    case (Some h')
    have "f' (p, h') \<noteq> f' x" if x: "x \<in> set (cullRoutes g rs)" for x
    proof -
      obtain q i' where x': "x = (q, i')" by (cases x)
      then obtain i where i: "(q, i) \<in> set rs" "renumber g i = Some i'" using x cullRoutes_set by blast
      have "f (p, h) \<noteq> f (q, i)" using Cons.prems(1) i(1) by (auto simp: e)
      moreover have "f (p, h) \<in> f ` {(p, h) \<in> set (e # rs). renumber g h \<noteq> None}" "f (q, i) \<in> f ` {(p, h) \<in> set (e # rs). renumber g h \<noteq> None}"
        using i Some by (force simp: e)+
      ultimately have "k (f (p, h)) \<noteq> k (f (q, i))" using inj_onD [OF Cons.prems(3)] by blast
      then show ?thesis using Cons.prems(2) [of p h h'] Cons.prems(2) [of q i i'] i Some x' by (simp add: e)
    qed
    then show ?thesis using IH Some by (auto simp: e cullRoutes_def map_filter_simps)
  qed
qed

lemma cull_ok:
  assumes ok: "routerOk r" and e: "(p, g) \<in> set (allRoutes r)"
    and r': "rootChildren r' = cullChildren g (rootChildren r)"
      "routeHandlers r' = take (handlerIndex g) (routeHandlers r) @ drop (handlerIndex g + 1) (routeHandlers r)"
      "length (urlSegmentVector r') = 100" "length (params r') = 100"
  shows "handlerIndex g < length (routeHandlers r)" and "routerOk r'"
    and "routesMap r' = (routesMap r)(keyOf (p, g) := None)"
proof -
  define i where "i = handlerIndex g"
  note cull = cullChildren_routes [where g = g and ds = "rootChildren r"]
  have all: "allRoutes r' = cullRoutes g (allRoutes r)" using cull(1) r'(1) by (simp add: allRoutes_def)
  have idx: "distinct (map (handlerIndex \<circ> snd) (allRoutes r))" "set (map (handlerIndex \<circ> snd) (allRoutes r)) = {..<length (routeHandlers r)}"
    "distinct (map keyOf (allRoutes r))"
    using ok by (simp_all add: routerOk_def)
  show gl: "handlerIndex g < length (routeHandlers r)" using idx(2) e by force
  have only: "x = (p, g)" if "x \<in> set (allRoutes r)" "handlerIndex (snd x) = i" for x
    using idx(1) e that unfolding distinct_map i_def by (metis comp_apply inj_onD snd_conv)
  have gone: "renumber g h = None \<longleftrightarrow> (q, h) = (p, g)" if "(q, h) \<in> set (allRoutes r)" for q h
    using only [OF that] by (auto simp: renumber_def i_def)
  have kept: "priorityOf h' = priorityOf h" "handlerIndex h' = (if handlerIndex h > i then handlerIndex h - 1 else handlerIndex h)"
    if "renumber g h = Some h'" for h h' using renumber_Some [OF that] by (simp_all add: i_def)
  have ne: "handlerIndex h \<noteq> i" if "(q, h) \<in> set (allRoutes r)" "renumber g h = Some h'" for q h h'
    using only [OF that(1)] gone [OF that(1)] that(2) by auto
  have keys: "distinct (map keyOf (allRoutes r'))"
    unfolding all by (rule distinct_cullRoutes [OF idx(3), where k = id]) (auto simp: keyOf_def kept)
  have nums: "distinct (map (handlerIndex \<circ> snd) (allRoutes r'))"
    unfolding all
  proof (rule distinct_cullRoutes [OF idx(1), where k = "\<lambda>j. if j > i then j - 1 else j"])
    show "inj_on (\<lambda>j. if j > i then j - 1 else j) ((handlerIndex \<circ> snd) ` {(p, h) \<in> set (allRoutes r). renumber g h \<noteq> None})"
      using ne by (fastforce simp: inj_on_def)
  qed (simp add: kept)
  have range: "set (map (handlerIndex \<circ> snd) (allRoutes r')) = {..<length (routeHandlers r')}"
  proof -
    have len: "length (routeHandlers r') = length (routeHandlers r) - 1" using gl by (simp add: r'(2))
    have "j < length (routeHandlers r) - 1" if j: "j \<in> set (map (handlerIndex \<circ> snd) (allRoutes r'))" for j
    proof -
      obtain q h' where h': "(q, h') \<in> set (cullRoutes g (allRoutes r))" "j = handlerIndex h'" using j unfolding all by auto
      then obtain h where h: "(q, h) \<in> set (allRoutes r)" "renumber g h = Some h'" using cullRoutes_set by blast
      have "handlerIndex h < length (routeHandlers r)" using idx(2) h(1) by force
      then show ?thesis using kept(2) [OF h(2)] ne [OF h] h'(2) gl by (auto simp: i_def)
    qed
    moreover have "j \<in> set (map (handlerIndex \<circ> snd) (allRoutes r'))" if j: "j < length (routeHandlers r) - 1" for j
    proof -
      define m where "m = (if j < i then j else j + 1)"
      have "m \<in> {..<length (routeHandlers r)}" using j unfolding m_def lessThan_iff by (simp split: if_split) linarith
      then obtain x where x: "x \<in> set (allRoutes r)" "handlerIndex (snd x) = m" unfolding idx(2) [symmetric] by auto
      obtain q h where qh: "x = (q, h)" by (cases x)
      have "m \<noteq> i" by (simp add: m_def)
      then obtain h' where h': "renumber g h = Some h'" using gone [of q h] x by (auto simp: qh i_def)
      then have "handlerIndex h' = j" using kept(2) [OF h'] x(2) by (auto simp: qh m_def split: if_splits)
      moreover have "(q, h') \<in> set (allRoutes r')" unfolding all cullRoutes_set using x(1) h' qh by blast
      ultimately show ?thesis by force
    qed
    ultimately show ?thesis unfolding len by auto
  qed
  have methods: "\<forall>m \<in> set (rootChildren r'). nodeOk m \<and> \<not> nodeHigh m"
  proof -
    have "\<forall>m \<in> set (rootChildren r'). nodeOk m" using cull(5) ok by (simp add: r'(1) routerOk_def)
    moreover have "\<not> nodeHigh m" if "m \<in> set (rootChildren r')" for m
    proof -
      have "siblingKey m \<in> set (map siblingKey (rootChildren r))" using that cull(2) by (auto simp: r'(1))
      then show ?thesis using ok by (auto simp: routerOk_def siblingKey_def)
    qed
    ultimately show ?thesis by blast
  qed
  have sorted: "methodsSorted (rootChildren r')"
    using cull(4) [of "\<lambda>x y. methodLess (fst x) (fst y)"] ok by (simp add: r'(1) routerOk_def methodsSorted_def siblingKey_def)
  show ok': "routerOk r'"
    using keys nums range methods sorted cull(3) ok r'(3,4) unfolding routerOk_def by (simp add: r'(1))
  have at: "routeHandlers r' ! handlerIndex h' = routeHandlers r ! handlerIndex h"
    if "(q, h) \<in> set (allRoutes r)" "renumber g h = Some h'" for q h h'
    using kept(2) [OF that(2)] ne [OF that] gl by (auto simp: r'(2) nth_append min_def i_def)
  show "routesMap r' = (routesMap r)(keyOf (p, g) := None)"
  proof (rule map_eqI)
    fix k f
    have "routesMap r' k = Some f \<longleftrightarrow> (\<exists>q h'. (q, h') \<in> set (allRoutes r') \<and> (q, priorityOf h') = k \<and> routeHandlers r' ! handlerIndex h' = f)"
      unfolding routesMap_iff [OF ok'] bex_pair by (simp add: keyOf_def)
    also have "\<dots> \<longleftrightarrow> (\<exists>q h. (q, h) \<in> set (allRoutes r) \<and> (q, h) \<noteq> (p, g) \<and> (q, priorityOf h) = k \<and> routeHandlers r ! handlerIndex h = f)"
    proof
      assume "\<exists>q h'. (q, h') \<in> set (allRoutes r') \<and> (q, priorityOf h') = k \<and> routeHandlers r' ! handlerIndex h' = f"
      then obtain q h h' where h: "(q, h) \<in> set (allRoutes r)" "renumber g h = Some h'" and
        k: "(q, priorityOf h') = k" "routeHandlers r' ! handlerIndex h' = f"
        unfolding all cullRoutes_set by blast
      have "(q, h) \<noteq> (p, g)" using gone [OF h(1)] h(2) by simp
      then show "\<exists>q h. (q, h) \<in> set (allRoutes r) \<and> (q, h) \<noteq> (p, g) \<and> (q, priorityOf h) = k \<and> routeHandlers r ! handlerIndex h = f"
        using h(1) k at [OF h] kept(1) [OF h(2)] by metis
    next
      assume "\<exists>q h. (q, h) \<in> set (allRoutes r) \<and> (q, h) \<noteq> (p, g) \<and> (q, priorityOf h) = k \<and> routeHandlers r ! handlerIndex h = f"
      then obtain q h where h: "(q, h) \<in> set (allRoutes r)" "(q, h) \<noteq> (p, g)" and
        k: "(q, priorityOf h) = k" "routeHandlers r ! handlerIndex h = f" by blast
      obtain h' where h': "renumber g h = Some h'" using gone [OF h(1)] h(2) by blast
      then show "\<exists>q h'. (q, h') \<in> set (allRoutes r') \<and> (q, priorityOf h') = k \<and> routeHandlers r' ! handlerIndex h' = f"
        unfolding all cullRoutes_set using h(1) k at [OF h(1) h'] kept(1) [OF h'] by metis
    qed
    also have "\<dots> \<longleftrightarrow> k \<noteq> keyOf (p, g) \<and> routesMap r k = Some f"
    proof -
      have "x = (p, g)" if "x \<in> set (allRoutes r)" "keyOf x = keyOf (p, g)" for x
        using idx(3) e that unfolding distinct_map by (metis inj_onD)
      then show ?thesis unfolding routesMap_iff [OF ok] by (fastforce simp: keyOf_def)
    qed
    finally show "routesMap r' k = Some f \<longleftrightarrow> ((routesMap r)(keyOf (p, g) := None)) k = Some f" by simp
  qed
qed

lemma remove_spec:
  assumes "routerOk r"
  obtains r' b where "remove method pattern priority r = Some (r', b)" "routerOk r'"
    "routesMap r' = (routesMap r)(routeKey method pattern priority := None)"
    "b \<longleftrightarrow> routesMap r (routeKey method pattern priority) \<noteq> None"
    "length (routeHandlers r') \<le> length (routeHandlers r)"
proof -
  obtain r1 res where r1: "findHandler method pattern priority r = Some (r1, res)"
    "routeHandlers r1 = routeHandlers r" "rootChildren r1 = rootChildren r"
    "length (urlSegmentVector r1) = 100" "length (params r1) = 100"
    and res: "case res of
       None \<Rightarrow> routeKey method pattern priority \<notin> keyOf ` set (allRoutes r)
     | Some h \<Rightarrow> (fst (routeKey method pattern priority), h) \<in> set (allRoutes r) \<and> priorityOf h = priority"
    by (rule findHandler_spec [OF assms, of "method" "pattern" "priority"]) blast
  have ok1: "routerOk r1" using assms r1 by (simp add: routerOk_def allRoutes_def)
  have same: "routesMap r1 = routesMap r" "allRoutes r1 = allRoutes r" using r1 by (simp_all add: routesMap_def allRoutes_def)
  show thesis
  proof (cases res)
    case None
    then have none: "routeKey method pattern priority \<notin> keyOf ` set (allRoutes r)" using res by simp
    have "routesMap r (routeKey method pattern priority) = None"
    proof (cases "routesMap r (routeKey method pattern priority)")
      case (Some f)
      then have "\<exists>e \<in> set (allRoutes r). keyOf e = routeKey method pattern priority"
        unfolding routesMap_iff [OF assms] by blast
      then show ?thesis using none by (metis image_eqI)
    qed
    then show thesis
      using that [of r1 False] r1(1,2) None ok1 same by (simp add: remove_def fun_upd_idem)
  next
    case (Some g)
    define p where "p = fst (routeKey method pattern priority)"
    have g: "(p, g) \<in> set (allRoutes r1)" "keyOf (p, g) = routeKey method pattern priority"
      using res Some same by (simp_all add: p_def keyOf_def routeKey_def)
    define r' where "r' = r1\<lparr>rootChildren := cullChildren g (rootChildren r1),
      routeHandlers := take (handlerIndex g) (routeHandlers r1) @ drop (handlerIndex g + 1) (routeHandlers r1)\<rparr>"
    have fields: "rootChildren r' = cullChildren g (rootChildren r1)"
      "routeHandlers r' = take (handlerIndex g) (routeHandlers r1) @ drop (handlerIndex g + 1) (routeHandlers r1)"
      "length (urlSegmentVector r') = 100" "length (params r') = 100"
      using r1(4,5) by (simp_all add: r'_def)
    note c = cull_ok [OF ok1 g(1) fields]
    have "remove method pattern priority r = Some (r', True)"
      using r1(1) Some c(1) by (simp add: remove_def r'_def Let_def)
    moreover have "routesMap r (routeKey method pattern priority) \<noteq> None"
      using routesMap_iff [OF ok1] g same by (metis option.distinct(1))
    moreover have "length (routeHandlers r') \<le> length (routeHandlers r)" using r1(2) c(1) by (simp add: r'_def)
    ultimately show thesis using that [of r' True] c(2,3) g(2) same by simp
  qed
qed

lemma add_spec:
  assumes ok: "routerOk r" and priority: "isPriority priority" and room: "length (routeHandlers r) < 2 ^ 28"
  obtains r' where "add method pattern f priority r = Some r'" "routerOk r'"
    "routesMap r' = (routesMap r)(routeKey method pattern priority \<mapsto> f)"
    "length (routeHandlers r') \<le> length (routeHandlers r) + 1"
proof -
  define key where "key = routeKey method pattern priority"
  obtain r1 b where r1: "remove method pattern priority r = Some (r1, b)" "routerOk r1"
    "routesMap r1 = (routesMap r)(key := None)" "length (routeHandlers r1) \<le> length (routeHandlers r)"
    using remove_spec [OF ok, of "method" "pattern" "priority"] unfolding key_def by metis
  define n where "n = length (routeHandlers r1)"
  have n: "n < 2 ^ 28" using r1(4) room by (simp add: n_def)
  obtain cs i where cs: "getNode True method False (rootChildren r1) = (cs, i)" by (cases "getNode True method False (rootChildren r1)")
  note g = getNode_routes [OF cs]
  obtain r2 where r2: "segmentLoop 101 0 (setUrl pattern r1) = Some (r2, segmentsOf pattern)"
    "routeHandlers r2 = routeHandlers r1" "rootChildren r2 = rootChildren r1"
    "length (urlSegmentVector r2) = 100" "length (params r2) = 100"
    by (rule setUrl_segments [OF r1(2)]) blast
  define h where "h = priority OR (of_nat n :: u32)"
  define c where "c = insertRoute (segmentsOf pattern) (priority = HIGH_PRIORITY) h (cs ! i)"
  define r' where "r' = r2\<lparr>rootChildren := sortMethods (cs[i := c]), routeHandlers := routeHandlers r2 @ [f]\<rparr>"
  have h: "handlerIndex h = n" "priorityOf h = priority"
    using entry_parts [OF _ n] priority_and_mask [OF priority] by (simp_all add: h_def)
  have add: "add method pattern f priority r = Some r'"
    using r1(1) cs r2(1,2) by (simp add: add_def Let_def r'_def c_def h_def n_def)
  have c: "siblingKey c = siblingKey (cs ! i)" by (simp add: siblingKey_def c_def insertRoute_key)
  have key': "nodeName c = method" "nodeHigh c = False" using c g(2) by (simp_all add: siblingKey_def)
  have "mset (childRoutes c) = add_mset (fst key, h) (mset (childRoutes (cs ! i)))"
    using insertRoute_routes(1) [of "segmentsOf pattern" "priority = HIGH_PRIORITY" h "cs ! i"] g(2) key'
    by (simp add: childRoutes_def c_def [symmetric] key_def routeKey_def siblingKey_def)
  from mset_concat_update [OF g(1) this]
  have "mset (concat (map childRoutes (cs[i := c]))) = add_mset (fst key, h) (mset (allRoutes r1))"
    by (simp add: allRoutes_def g(3))
  moreover have "mset (allRoutes r') = mset (concat (map childRoutes (cs[i := c])))"
  proof -
    have "mset (concat (map childRoutes (sortMethods ns))) = mset (concat (map childRoutes ns))" for ns
    proof -
      have "mset (concat (map childRoutes ms)) = (\<Sum>x\<in>#mset ms. mset (childRoutes x))" for ms
        by (induction ms) simp_all
      then show ?thesis by (simp add: mset_sortMethods)
    qed
    then show ?thesis by (simp add: allRoutes_def r'_def)
  qed
  ultimately have all: "mset (allRoutes r') = add_mset (fst key, h) (mset (allRoutes r1))" by simp
  have perm: "distinct (map F (allRoutes r')) \<longleftrightarrow> distinct (map F ((fst key, h) # allRoutes r1))" for F :: "route \<Rightarrow> 'z"
    by (rule mset_eq_imp_distinct_iff) (simp add: all)
  have set_all: "set (allRoutes r') = insert (fst key, h) (set (allRoutes r1))" by (metis all set_mset_add_mset_insert set_mset_mset)
  have keyh: "keyOf (fst key, h) = key" by (simp add: keyOf_def h key_def routeKey_def)
  have fresh: "key \<notin> keyOf ` set (allRoutes r1)"
  proof
    assume "key \<in> keyOf ` set (allRoutes r1)"
    then have "\<exists>f. routesMap r1 key = Some f" unfolding routesMap_iff [OF r1(2)] by auto
    then show False using r1(3) by simp
  qed
  have "distinct (map keyOf (allRoutes r'))" unfolding perm using r1(2) fresh keyh by (simp add: routerOk_def)
  moreover have "distinct (map (handlerIndex \<circ> snd) (allRoutes r'))"
    unfolding perm using r1(2) h(1) unfolding routerOk_def n_def by force
  moreover have "set (map (handlerIndex \<circ> snd) (allRoutes r')) = {..<length (routeHandlers r')}"
  proof -
    have "set (map (handlerIndex \<circ> snd) (allRoutes r')) = insert n {..<n}"
      using r1(2) h(1) by (simp add: set_all routerOk_def n_def)
    also have "\<dots> = {..<length (routeHandlers r')}" by (auto simp: r'_def r2(2) n_def)
    finally show ?thesis .
  qed
  moreover have methods: "\<forall>m \<in> set (cs[i := c]). nodeOk m \<and> \<not> nodeHigh m"
  proof -
    have "\<forall>m \<in> set cs. nodeOk m \<and> \<not> nodeHigh m" using g(5) r1(2) by (auto simp: routerOk_def)
    moreover have "nodeOk c" unfolding c_def by (rule insertRoute_routes(2)) (use calculation g(1) in auto)
    ultimately show ?thesis using key'(2) set_update_subset_insert [of cs i c] by auto
  qed
  moreover have keys: "distinct (map siblingKey (cs[i := c]))"
    using map_update_same [OF g(1), of siblingKey, OF c] g(4) r1(2) by (simp add: routerOk_def)
  moreover have "distinct (map siblingKey (sortMethods (cs[i := c])))"
    using mset_eq_imp_distinct_iff [of "map siblingKey (sortMethods (cs[i := c]))" "map siblingKey (cs[i := c])"] keys
    by (simp add: mset_sortMethods)
  moreover have "set (sortMethods (cs[i := c])) = set (cs[i := c])" by (metis mset_sortMethods set_mset_mset)
  moreover have "methodsSorted (sortMethods (cs[i := c]))"
    by (rule methodsSorted_sort) (rule distinct_names, use methods keys in auto)
  ultimately have ok': "routerOk r'" using r2(4,5) unfolding routerOk_def by (simp add: r'_def)
  have "routesMap r' = (routesMap r)(key \<mapsto> f)"
  proof (rule map_eqI)
    fix k v
    have old: "routeHandlers r' ! handlerIndex (snd e) = routeHandlers r1 ! handlerIndex (snd e)" if "e \<in> set (allRoutes r1)" for e
    proof -
      have "handlerIndex (snd e) \<in> set (map (handlerIndex \<circ> snd) (allRoutes r1))" using that by force
      then have "handlerIndex (snd e) < length (routeHandlers r1)" using r1(2) unfolding routerOk_def by blast
      then show ?thesis by (simp add: r'_def r2(2) nth_append)
    qed
    have new: "routeHandlers r' ! handlerIndex h = f" by (simp add: r'_def r2(2) h(1) n_def)
    have "routesMap r' k = Some v \<longleftrightarrow> k = key \<and> v = f \<or>
        (\<exists>e \<in> set (allRoutes r1). keyOf e = k \<and> routeHandlers r1 ! handlerIndex (snd e) = v)"
      unfolding routesMap_iff [OF ok'] set_all using old new keyh by auto
    also have "\<dots> \<longleftrightarrow> k = key \<and> v = f \<or> routesMap r1 k = Some v" unfolding routesMap_iff [OF r1(2)] ..
    finally show "routesMap r' k = Some v \<longleftrightarrow> ((routesMap r)(key \<mapsto> f)) k = Some v" using r1(3) by auto
  qed
  moreover have "length (routeHandlers r') \<le> length (routeHandlers r) + 1" using r1(4) by (simp add: r'_def r2(2))
  ultimately show thesis using that [OF add ok'] by (simp add: key_def)
qed

lemma newRouter_ok: "routerOk (newRouter :: 'h HttpRouter)" "routesMap (newRouter :: 'h HttpRouter) = (\<lambda>_. None)"
  "length (routeHandlers (newRouter :: 'h HttpRouter)) = 0"
proof -
  have root: "rootChildren (newRouter :: 'h HttpRouter) = [Node ANY_METHOD_TOKEN [] [] False]"
    by (simp add: newRouter_def getNode_def)
  have "allRoutes (newRouter :: 'h HttpRouter) = []" unfolding allRoutes_def root by (simp add: childRoutes_def)
  then show "routerOk (newRouter :: 'h HttpRouter)" "routesMap (newRouter :: 'h HttpRouter) = (\<lambda>_. None)"
    "length (routeHandlers (newRouter :: 'h HttpRouter)) = 0"
    using root by (simp_all add: routerOk_def methodsSorted_def routesMap_def newRouter_def fun_eq_iff)
qed

text \<open>Any sequence of additions and removals.\<close>

datatype 'h routerOp = AddRoute bytes bytes 'h u32 | RemoveRoute bytes bytes u32

fun applyOp :: "'h routerOp \<Rightarrow> 'h HttpRouter \<Rightarrow> 'h HttpRouter option" where
  "applyOp (AddRoute m p f pr) r = add m p f pr r"
| "applyOp (RemoveRoute m p pr) r = map_option fst (remove m p pr r)"

fun applyOps :: "'h routerOp list \<Rightarrow> 'h HttpRouter \<Rightarrow> 'h HttpRouter option" where
  "applyOps [] r = Some r"
| "applyOps (op # ops) r = do { r \<leftarrow> applyOp op r; applyOps ops r }"

fun mapOp :: "'h routerOp \<Rightarrow> ((bytes \<times> bool) list \<times> u32 \<Rightarrow> 'h option) \<Rightarrow> (bytes \<times> bool) list \<times> u32 \<Rightarrow> 'h option" where
  "mapOp (AddRoute m p f pr) M = M(routeKey m p pr \<mapsto> f)"
| "mapOp (RemoveRoute m p pr) M = M(routeKey m p pr := None)"

fun opPriority :: "'h routerOp \<Rightarrow> u32" where
  "opPriority (AddRoute m p f pr) = pr"
| "opPriority (RemoveRoute m p pr) = pr"

lemma applyOps_refines:
  assumes "routerOk r" and "list_all (isPriority \<circ> opPriority) ops" and "length (routeHandlers r) + length ops \<le> 2 ^ 28"
  shows "\<exists>r'. applyOps ops r = Some r' \<and> routerOk r' \<and> routesMap r' = fold mapOp ops (routesMap r)"
  using assms
proof (induction ops arbitrary: r)
  case Nil
  then show ?case by simp
next
  case (Cons op ops)
  have "\<exists>r1. applyOp op r = Some r1 \<and> routerOk r1 \<and> routesMap r1 = mapOp op (routesMap r) \<and>
      length (routeHandlers r1) \<le> length (routeHandlers r) + 1"
  proof (cases op)
    case (AddRoute m p f pr)
    obtain r1 where "add m p f pr r = Some r1" "routerOk r1" "routesMap r1 = (routesMap r)(routeKey m p pr \<mapsto> f)"
      "length (routeHandlers r1) \<le> length (routeHandlers r) + 1"
      by (rule add_spec [OF Cons.prems(1), of pr m p f]) (use AddRoute Cons.prems in auto)
    then show ?thesis using AddRoute by simp
  next
    case (RemoveRoute m p pr)
    obtain r1 b where "remove m p pr r = Some (r1, b)" "routerOk r1" "routesMap r1 = (routesMap r)(routeKey m p pr := None)"
      "length (routeHandlers r1) \<le> length (routeHandlers r)"
      by (rule remove_spec [OF Cons.prems(1), of m p pr]) blast
    then show ?thesis using RemoveRoute by simp
  qed
  then obtain r1 where r1: "applyOp op r = Some r1" "routerOk r1" "routesMap r1 = mapOp op (routesMap r)"
    "length (routeHandlers r1) \<le> length (routeHandlers r) + 1" by blast
  from Cons.IH [OF r1(2)] Cons.prems(2,3) r1(4) show ?case by (auto simp: r1(1,3))
qed

text \<open>C11. The tree of routes is a map: whatever handlers are added and removed, in any order, no array
  or vector is left, the tree is well formed, and for every method, pattern and priority it holds
  exactly the handler that was added last and not removed since.\<close>
theorem router_is_a_map:
  assumes "list_all (isPriority \<circ> opPriority) ops" and "length ops \<le> 2 ^ 28"
  shows "\<exists>r. applyOps ops newRouter = Some r \<and> routerOk r \<and> routesMap r = fold mapOp ops (\<lambda>_. None)"
  using applyOps_refines [OF newRouter_ok(1) assms(1)] assms(2) by (simp add: newRouter_ok(2,3))

text \<open>A route that is replaced, and one that is removed.\<close>
lemma router_is_a_map_witness:
  "\<exists>r. applyOps [AddRoute (ascii ''GET'') (ascii ''/a/:x'') (1 :: nat) MEDIUM_PRIORITY,
        AddRoute (ascii ''GET'') (ascii ''/a/:y'') 2 MEDIUM_PRIORITY,
        AddRoute (ascii ''GET'') (ascii ''/b'') 3 HIGH_PRIORITY,
        RemoveRoute (ascii ''GET'') (ascii ''/b'') HIGH_PRIORITY] newRouter = Some r \<and>
     routerOk r \<and> routesMap r = [routeKey (ascii ''GET'') (ascii ''/a/:z'') MEDIUM_PRIORITY \<mapsto> 2]"
proof -
  have k: "routeKey (ascii ''GET'') (ascii ''/a/:x'') MEDIUM_PRIORITY = routeKey (ascii ''GET'') (ascii ''/a/:z'') MEDIUM_PRIORITY"
    "routeKey (ascii ''GET'') (ascii ''/a/:y'') MEDIUM_PRIORITY = routeKey (ascii ''GET'') (ascii ''/a/:z'') MEDIUM_PRIORITY"
    "routeKey (ascii ''GET'') (ascii ''/b'') HIGH_PRIORITY \<noteq> routeKey (ascii ''GET'') (ascii ''/a/:z'') MEDIUM_PRIORITY"
    by code_simp+
  have p: "list_all (isPriority \<circ> opPriority) [AddRoute (ascii ''GET'') (ascii ''/a/:x'') (1 :: nat) MEDIUM_PRIORITY,
        AddRoute (ascii ''GET'') (ascii ''/a/:y'') 2 MEDIUM_PRIORITY,
        AddRoute (ascii ''GET'') (ascii ''/b'') 3 HIGH_PRIORITY,
        RemoveRoute (ascii ''GET'') (ascii ''/b'') HIGH_PRIORITY]"
    by (simp add: isPriority_def)
  from router_is_a_map [OF p] show ?thesis using k by (simp add: fun_upd_twist fun_upd_idem)
qed

section \<open>Routing a request\<close>

lemma inRange_ok:
  assumes "routerOk r" and "m \<in> set (rootChildren r)"
  shows "inRange r m"
proof -
  have "handlerIndex h < length (routeHandlers r)" if "(p, h) \<in> set (routesOf m)" for p h
  proof -
    have "((nodeName m, nodeHigh m) # p, h) \<in> set (allRoutes r)"
      using assms(2) that unfolding allRoutes_def by (force simp: childRoutes_def)
    then have "handlerIndex h \<in> set (map (handlerIndex \<circ> snd) (allRoutes r))" by force
    then show ?thesis using assms(1) unfolding routerOk_def by blast
  qed
  then show ?thesis by (auto simp: inRange_def)
qed

text \<open>The handlers a request is offered to, with their parameters: the matching routes of the last
  node for a URL of more than 100 segments, else those of the method and then those of the last node.\<close>

definition candidates :: "'h HttpRouter \<Rightarrow> bytes \<Rightarrow> bytes \<Rightarrow> ('h \<times> bytes list) list" where
  "candidates r method url =
     (let handlersIn = (\<lambda>n. map (\<lambda>(h, ps). (routeHandlers r ! handlerIndex h, ps)) (matching (segmentsOf url) n));
          fallback = (if rootChildren r = [] then [] else handlersIn (last (rootChildren r)))
      in if count_list url 47 > 100 then fallback
         else (case List.find (\<lambda>p. nodeName p = method) (rootChildren r) of Some p \<Rightarrow> handlersIn p | None \<Rightarrow> []) @ fallback)"

lemma route_candidates:
  assumes ok: "routerOk r" and root: "rootChildren r \<noteq> [] \<or> count_list url 47 \<le> 100"
  shows "\<exists>r'. route run method url r u = Some (r', tryAll run (candidates r method url) u)"
proof -
  define r0 where "r0 = (setUrl url r)\<lparr>paramsTop := - 1, urlTooLong := False\<rparr>"
  have ready: "ready url 0 r0"
    using ok cacheOk_setUrl [of r url] by (simp add: ready_def r0_def routerOk_def setUrl_def cacheOk_def)
  have par: "getParameters r0 = []" by (simp add: r0_def getParameters_def)
  have same: "routeHandlers r0 = routeHandlers r" "rootChildren r0 = rootChildren r" by (simp_all add: r0_def setUrl_def)
  have exec: "outcome run url 0 s u (matching (segmentsOf url) n) (executeHandlers run n 0 s u)"
    if "ready url 0 s" "fixed r0 s" "n \<in> set (rootChildren r)" for s n u
  proof -
    have "inRange s n" using inRange_ok [OF ok that(3)] that(2) same by (simp add: inRange_def fixed_def)
    from executeHandlers_matching [OF that(1) this] show ?thesis by simp
  qed
  have calls: "calls s (matching (segmentsOf url) n) = map (\<lambda>(h, ps). (routeHandlers r ! handlerIndex h, ps)) (matching (segmentsOf url) n)"
    if "fixed r0 s" "getParameters s = []" for s n
    using that same by (simp add: calls_def fixed_def)
  define handlersIn where "handlersIn = (\<lambda>n. map (\<lambda>(h, ps). (routeHandlers r ! handlerIndex h, ps)) (matching (segmentsOf url) n))"
  define fallback where "fallback = (if rootChildren r = [] then [] else handlersIn (last (rootChildren r)))"
  define k where "k = (\<lambda>s u. if rootChildren r = [] then Some (s, u, False) else executeHandlers run (last (rootChildren r)) 0 s u)"
  have last: "\<exists>r'. k s u = Some (r', tryAll run fallback u)" if "ready url 0 s" "fixed r0 s" "getParameters s = []" for s u
  proof (cases "rootChildren r = []")
    case True
    then show ?thesis by (simp add: k_def fallback_def)
  next
    case False
    then show ?thesis using exec [OF that(1,2), of "last (rootChildren r)" u] calls [OF that(2,3)]
      by (auto simp: k_def fallback_def handlersIn_def outcome_def)
  qed
  show ?thesis
  proof (cases "count_list url 47 > 100")
    case True
    then have "route run method url r u = k r0 u" using root
      by (simp add: route_def setUrl_def MAX_URL_SEGMENTS_def k_def r0_def)
    moreover have "candidates r method url = fallback"
      using True unfolding candidates_def Let_def fallback_def handlersIn_def by simp
    ultimately show ?thesis using last [OF ready fixed_refl par] by simp
  next
    case False
    then have r0: "(setUrl url r)\<lparr>paramsTop := - 1\<rparr> = r0" "\<not> urlTooLong r0"
      by (simp_all add: r0_def setUrl_def MAX_URL_SEGMENTS_def)
    define first where "first = (case List.find (\<lambda>p. nodeName p = method) (rootChildren r) of Some p \<Rightarrow> handlersIn p | None \<Rightarrow> [])"
    have cand: "candidates r method url = first @ fallback"
      using False unfolding candidates_def Let_def first_def fallback_def handlersIn_def by simp
    obtain s v b where s: "(case List.find (\<lambda>p. nodeName p = method) (rootChildren r) of
          Some p \<Rightarrow> executeHandlers run p 0 r0 u | None \<Rightarrow> Some (r0, u, False)) = Some (s, v, b)"
      "tryAll run first u = (v, b)" "fixed r0 s" "\<not> b \<Longrightarrow> ready url 0 s \<and> getParameters s = []"
    proof (cases "List.find (\<lambda>p. nodeName p = method) (rootChildren r)")
      case None
      then show thesis using that [of r0 u False] ready par by (simp add: first_def)
    next
      case (Some p)
      then have "p \<in> set (rootChildren r)" by (auto simp: find_Some_iff)
      from exec [OF ready fixed_refl this, of u] Some calls [OF fixed_refl par] show thesis
        using that par by (auto simp: outcome_def first_def handlersIn_def)
    qed
    have eq: "route run method url r u = (if b then Some (s, v, True) else k s v)"
      using s(1,3) same by (simp add: route_def r0 same(2) k_def fixed_def)
    show ?thesis
    proof (cases b)
      case True
      then show ?thesis using s(2) by (simp add: eq cand tryAll_append)
    next
      case False
      with last [of s v] s(2-4) show ?thesis by (auto simp: eq cand tryAll_append)
    qed
  qed
qed

text \<open>C30. A request whose URL has at most 100 slashes is offered, in order and until one takes it, to exactly the
  handlers whose patterns match its URL, each with the segments that its parameters stand for: first those of its method
  and then those of the last method of the tree. A URL with more slashes is offered to the handlers of the last method only, those
  whose patterns match its first 100 segments; if the tree has no method at all, routing it then reads outside the vector of methods.
  The cache of segments and the stack of parameters never show, whatever the handlers before answered.\<close>
theorem route_offers_matching_routes:
  fixes r :: "'h HttpRouter" and url verb :: bytes
  assumes "list_all (isPriority \<circ> opPriority) ops" and "length ops \<le> 2 ^ 28" and "applyOps ops newRouter = Some r"
  defines "offer \<equiv> \<lambda>n. map (\<lambda>(h, ps). (routeHandlers r ! handlerIndex h, ps)) (matching (segmentsOf url) n)"
  defines "mine \<equiv> (case List.find (\<lambda>p. nodeName p = verb) (rootChildren r) of Some p \<Rightarrow> offer p | None \<Rightarrow> [])"
    and "others \<equiv> (if rootChildren r = [] then [] else offer (last (rootChildren r)))"
  shows "map_option snd (route run verb url r u) =
    (if count_list url 47 \<le> 100 then Some (tryAll run (mine @ others) u)
     else if rootChildren r \<noteq> [] then Some (tryAll run others u)
     else None)"
proof (cases "rootChildren r \<noteq> [] \<or> count_list url 47 \<le> 100")
  case True
  have "routerOk r" using applyOps_refines [OF newRouter_ok(1) assms(1)] assms(2,3) by (simp add: newRouter_ok(3))
  from route_candidates [OF this True, of run "verb" "u"]
  have "map_option snd (route run verb url r u) = Some (tryAll run (candidates r verb url) u)"
    by (metis option.simps(9) snd_conv)
  moreover have "candidates r verb url = (if count_list url 47 \<le> 100 then mine @ others else others)"
    unfolding candidates_def Let_def mine_def others_def offer_def by simp
  ultimately have "map_option snd (route run verb url r u) = Some (tryAll run (if count_list url 47 \<le> 100 then mine @ others else others) u)"
    by simp
  then show ?thesis using True by (simp only: split: if_split) blast
next
  case False
  then show ?thesis by (simp add: route_def setUrl_def MAX_URL_SEGMENTS_def)
qed

definition asked :: "('h, ('h \<times> bytes list) list) runHandler" where
  "asked f ps u = (u @ [(f, ps)], False)"

lemma tryAll_asked: "tryAll asked fs u = (u @ fs, False)"
  by (induction fs arbitrary: u) (auto simp: asked_def)

lemma route_offers_matching_routes_witness:
  "map_option snd (route asked (ascii ''GET'') (ascii ''/a/b'')
      (the (applyOps [AddRoute (ascii ''*'') (ascii ''/*'') (1 :: nat) LOW_PRIORITY,
        AddRoute (ascii ''GET'') (ascii ''/a/:x'') 2 MEDIUM_PRIORITY,
        AddRoute (ascii ''GET'') (ascii ''/:y/b'') 3 MEDIUM_PRIORITY] newRouter)) []) =
    Some ([(2, [ascii ''b'']), (3, [ascii ''a'']), (1, [])], False)"
proof -
  define ops where "ops = [AddRoute (ascii ''*'') (ascii ''/*'') (1 :: nat) LOW_PRIORITY,
        AddRoute (ascii ''GET'') (ascii ''/a/:x'') 2 MEDIUM_PRIORITY,
        AddRoute (ascii ''GET'') (ascii ''/:y/b'') 3 MEDIUM_PRIORITY]"
  have p: "list_all (isPriority \<circ> opPriority) ops" "length ops \<le> 2 ^ 28" by (simp_all add: ops_def isPriority_def)
  obtain r where r: "applyOps ops newRouter = Some r" using router_is_a_map [OF p] by blast
  have few: "count_list (ascii ''/a/b'') 47 \<le> 100" by simp
  have "candidates (the (applyOps ops newRouter)) (ascii ''GET'') (ascii ''/a/b'') = [(2, [ascii ''b'']), (3, [ascii ''a'']), (1, [])]"
    unfolding ops_def by code_simp
  then have c: "candidates r (ascii ''GET'') (ascii ''/a/b'') = [(2, [ascii ''b'']), (3, [ascii ''a'']), (1, [])]" by (simp only: r option.sel)
  show ?thesis
    using route_offers_matching_routes [OF p r, of asked "ascii ''GET''" "ascii ''/a/b''" "[]"] few c
    unfolding ops_def [symmetric] r option.sel candidates_def Let_def
    by (simp only: tryAll_asked append_Nil if_True linorder_not_le [symmetric] not_True_eq_False if_False)
qed

section \<open>The order of the routes\<close>

fun rankLe :: "nat list \<Rightarrow> nat list \<Rightarrow> bool" where
  "rankLe [] ys = True"
| "rankLe (x # xs) [] = False"
| "rankLe (x # xs) (y # ys) = (x < y \<or> x = y \<and> rankLe xs ys)"

definition ranks :: "route \<Rightarrow> nat list" where
  "ranks e = map (\<lambda>(name, high). rank name high) (fst e)"

definition matches :: "bytes list \<Rightarrow> route \<Rightarrow> bool" where
  "matches segs e \<longleftrightarrow> matchPath (fst e) segs \<noteq> None"

lemma isWild_rank: "isWild nm \<longleftrightarrow> lexicalOrder nm = 0" "isParam nm \<longleftrightarrow> lexicalOrder nm = 1"
  by (auto simp: isWild_def isParam_def lexicalOrder_def)

lemma matching_siblings:
  assumes "siblingKey c \<noteq> siblingKey d" and "rank (nodeName c) (nodeHigh c) \<le> rank (nodeName d) (nodeHigh d)"
    and "stripSegment (nodeName c) = nodeName c" and "stripSegment (nodeName d) = nodeName d"
    and "x \<in> set (childRoutes c)" and "y \<in> set (childRoutes d)" and "matches (s # segs) x" and "matches (s # segs) y"
  shows "rankLe (ranks x) (ranks y)"
proof -
  obtain p h where x: "x = ((nodeName c, nodeHigh c) # p, h)" using assms(5) by (auto simp: childRoutes_def)
  obtain q g where y: "y = ((nodeName d, nodeHigh d) # q, g)" using assms(6) by (auto simp: childRoutes_def)
  show ?thesis
  proof (cases "rank (nodeName c) (nodeHigh c) < rank (nodeName d) (nodeHigh d)")
    case True
    then show ?thesis by (simp add: ranks_def x y)
  next
    case False
    then have eq: "rank (nodeName c) (nodeHigh c) = rank (nodeName d) (nodeHigh d)" using assms(2) by simp
    then have o: "nodeHigh c = nodeHigh d" "lexicalOrder (nodeName c) = lexicalOrder (nodeName d)"
      using lexicalOrder_le [of "nodeName c"] lexicalOrder_le [of "nodeName d"] by (auto simp: rank_alt split: if_splits)
    then have ne: "nodeName c \<noteq> nodeName d" using assms(1) by (auto simp: siblingKey_def)
    have w: "isWild (nodeName c) = isWild (nodeName d)" "isParam (nodeName c) = isParam (nodeName d)" by (simp_all add: isWild_rank o)
    show ?thesis
    proof (cases "isWild (nodeName c)")
      case True
      then have "p = []" "q = []" using assms(7,8) w by (simp_all add: matches_def x y split: if_splits)
      then show ?thesis using eq by (simp add: ranks_def x y)
    next
      case nw: False
      show ?thesis
      proof (cases "isParam (nodeName c)")
        case True
        then have "nodeName c = nodeName d" using assms(3,4) w by (auto simp: isParam_def stripSegment_def)
        then show ?thesis using ne by simp
      next
        case False
        then have "nodeName c = s" "nodeName d = s" using assms(7,8) w nw by (auto simp: matches_def x y split: if_splits)
        then show ?thesis using ne by simp
      qed
    qed
  qed
qed

lemma sorted_wrt_all: "\<forall>x \<in> set xs. \<forall>y. R x y \<Longrightarrow> sorted_wrt R xs"
  by (induction xs) auto

lemma routes_ordered:
  "nodeOk n \<Longrightarrow> sorted_wrt (\<lambda>x y. rankLe (ranks x) (ranks y)) (filter (matches segs) (routesOf n))"
proof (induction n arbitrary: segs)
  case (Node nm cs hs hi)
  have ok: "distinct (map siblingKey cs)" "\<forall>c \<in> set cs. stripSegment (nodeName c) = nodeName c"
    "sorted_wrt (\<lambda>c d. rank (nodeName c) (nodeHigh c) \<le> rank (nodeName d) (nodeHigh d)) cs" "\<forall>c \<in> set cs. nodeOk c"
    using Node.prems by (simp_all add: sorted_wrt_map)
  show ?case
  proof (cases segs)
    case Nil
    have "filter (matches []) (routesOf (Node nm cs hs hi)) = map (Pair []) hs"
    proof -
      have "filter (matches []) (concat (map childRoutes cs)) = []" by (auto simp: filter_empty_conv childRoutes_def matches_def)
      moreover have "filter (matches []) (map (Pair []) hs) = map (Pair []) hs" by (auto simp: filter_id_conv matches_def)
      ultimately show ?thesis by (simp only: routesOf_Node filter_append append_Nil2)
    qed
    then show ?thesis by (simp add: Nil sorted_wrt_map ranks_def sorted_wrt_iff_nth_less)
  next
    case (Cons s ss)
    have own: "filter (matches segs) (map (Pair []) hs) = []" by (auto simp: filter_empty_conv matches_def Cons)
    have "sorted_wrt (\<lambda>x y. rankLe (ranks x) (ranks y)) (filter (matches segs) (concat (map childRoutes ds)))"
      if "set ds \<subseteq> set cs" "distinct (map siblingKey ds)"
        "sorted_wrt (\<lambda>c d. rank (nodeName c) (nodeHigh c) \<le> rank (nodeName d) (nodeHigh d)) ds" for ds
      using that
    proof (induction ds)
      case (Cons d ds)
      have d: "nodeOk d" "stripSegment (nodeName d) = nodeName d" "d \<in> set cs" using Cons.prems(1) ok by auto
      have child: "sorted_wrt (\<lambda>x y. rankLe (ranks x) (ranks y)) (filter (matches segs) (childRoutes d))"
      proof -
        define add where "add = (\<lambda>(p, h :: u32). ((nodeName d, nodeHigh d) # p, h))"
        have "filter (matches segs) (childRoutes d) = map add (filter (\<lambda>x. matches segs (add x)) (routesOf d))"
          by (simp add: childRoutes_def add_def filter_map comp_def)
        moreover have le: "rankLe (ranks (add x)) (ranks (add y)) = rankLe (ranks x) (ranks y)" for x y
          by (cases x; cases y) (simp add: add_def ranks_def)
        have "sorted_wrt (\<lambda>x y. rankLe (ranks x) (ranks y)) (filter (\<lambda>x. matches segs (add x)) (routesOf d))"
        proof (cases "isWild (nodeName d)")
          case True
          obtain n2 c2 h2 i2 where dd: "d = Node n2 c2 h2 i2" by (cases d)
          have "fst x = []" if "matches segs (add x)" for x
            using that True by (cases x) (auto simp: matches_def add_def \<open>segs = s # ss\<close> split: if_splits)
          then have "\<forall>x \<in> set (filter (\<lambda>x. matches segs (add x)) (routesOf d)). \<forall>y. rankLe (ranks x) (ranks y)" by (simp add: ranks_def)
          then show ?thesis by (rule sorted_wrt_all)
        next
          case False
          have "\<exists>b. \<forall>x. matches segs (add x) = (b \<and> matches ss x)"
          proof -
            have "matches segs (add x) = ((isParam (nodeName d) \<and> s \<noteq> [] \<or> nodeName d = s) \<and> matches ss x)" for x
              using False by (cases x) (auto simp: matches_def add_def \<open>segs = s # ss\<close>)
            then show ?thesis by blast
          qed
          then obtain b where b: "matches segs (add x) = (b \<and> matches ss x)" for x by blast
          show ?thesis using Node.IH [OF d(3,1), of ss] by (cases b) (simp_all add: b)
        qed
        then have "sorted_wrt (\<lambda>x y. rankLe (ranks x) (ranks y)) (map add (filter (\<lambda>x. matches segs (add x)) (routesOf d)))"
          by (simp add: sorted_wrt_map le)
        ultimately show ?thesis by simp
      qed
      have cross: "rankLe (ranks x) (ranks y)"
        if xy: "x \<in> set (filter (matches segs) (childRoutes d))" "y \<in> set (filter (matches segs) (concat (map childRoutes ds)))" for x y
      proof -
        obtain e where e: "e \<in> set ds" "y \<in> set (childRoutes e)" using xy(2) by auto
        have e': "siblingKey d \<noteq> siblingKey e" "rank (nodeName d) (nodeHigh d) \<le> rank (nodeName e) (nodeHigh e)"
          "stripSegment (nodeName e) = nodeName e"
          using Cons.prems e(1) ok(2) by (auto simp: rev_image_eqI)
        show ?thesis
          using matching_siblings [OF e'(1,2) d(2) e'(3) _ e(2), of x s ss] xy \<open>segs = s # ss\<close> by simp
      qed
      have "sorted_wrt (\<lambda>x y. rankLe (ranks x) (ranks y)) (filter (matches segs) (concat (map childRoutes ds)))"
        by (rule Cons.IH) (use Cons.prems in simp_all)
      then show ?case using child cross by (auto simp: sorted_wrt_append)
    qed simp
    from this [OF subset_refl ok(1,3)] show ?thesis by (simp only: routesOf_Node filter_append own append_Nil)
  qed
qed

text \<open>C31. The routes of a method that match a URL are in the order of their patterns, segment by segment:
  those of high priority first, then static segments before parameters before wildcards. The
  methods are in order too: when there is a node for any method, it is the last one.\<close>
theorem more_specific_routes_first:
  assumes "list_all (isPriority \<circ> opPriority) ops" and "length ops \<le> 2 ^ 28" and "applyOps ops newRouter = Some r"
    and "m \<in> set (rootChildren r)"
  shows "sorted_wrt (\<lambda>x y. rankLe (ranks x) (ranks y)) (filter (matches segs) (routesOf m)) \<and>
    (nodeName m = ANY_METHOD_TOKEN \<longrightarrow> m = last (rootChildren r))"
proof -
  have ok: "routerOk r" using applyOps_refines [OF newRouter_ok(1) assms(1)] assms(2,3) by (simp add: newRouter_ok(3))
  have "m = last (rootChildren r)" if any: "nodeName m = ANY_METHOD_TOKEN"
  proof (rule ccontr)
    assume ne: "m \<noteq> last (rootChildren r)"
    have cs: "rootChildren r = butlast (rootChildren r) @ [last (rootChildren r)]" using assms(4) by (metis append_butlast_last_id empty_iff empty_set)
    then have "m \<in> set (butlast (rootChildren r))" using assms(4) ne by (metis Un_iff empty_iff empty_set insert_iff list.simps(15) set_append)
    moreover have "sorted_wrt (\<lambda>m n. methodLess (nodeName m) (nodeName n)) (butlast (rootChildren r) @ [last (rootChildren r)])"
      using ok cs by (simp add: routerOk_def methodsSorted_def)
    ultimately have "methodLess ANY_METHOD_TOKEN (nodeName (last (rootChildren r)))" using any by (auto simp: sorted_wrt_append)
    then show False by (simp add: methodLess_class methodClass_def ANY_METHOD_TOKEN_def split: if_splits)
  qed
  moreover have "nodeOk m" using ok assms(4) by (simp add: routerOk_def)
  ultimately show ?thesis using routes_ordered by blast
qed

lemma more_specific_routes_first_witness:
  "sorted_wrt (\<lambda>x y. rankLe (ranks x) (ranks y)) (filter (matches [ascii ''a'']) (routesOf (rootChildren
      (the (applyOps [AddRoute (ascii ''GET'') (ascii ''/:x'') (1 :: nat) MEDIUM_PRIORITY,
        AddRoute (ascii ''GET'') (ascii ''/*'') 2 HIGH_PRIORITY,
        AddRoute (ascii ''GET'') (ascii ''/a'') 3 MEDIUM_PRIORITY] newRouter)) ! 0)))"
proof -
  define ops where "ops = [AddRoute (ascii ''GET'') (ascii ''/:x'') (1 :: nat) MEDIUM_PRIORITY,
        AddRoute (ascii ''GET'') (ascii ''/*'') 2 HIGH_PRIORITY,
        AddRoute (ascii ''GET'') (ascii ''/a'') 3 MEDIUM_PRIORITY]"
  have p: "list_all (isPriority \<circ> opPriority) ops" "length ops \<le> 2 ^ 28" by (simp_all add: ops_def isPriority_def)
  obtain r where r: "applyOps ops newRouter = Some r" using router_is_a_map [OF p] by blast
  have "0 < length (rootChildren (the (applyOps ops newRouter)))" unfolding ops_def by code_simp
  then have "rootChildren r ! 0 \<in> set (rootChildren r)" using r by simp
  from more_specific_routes_first [OF p r this] show ?thesis unfolding ops_def [symmetric] r option.sel by blast
qed

section \<open>The route for any method\<close>

text \<open>Removing a route removes the node for any method too when it holds no route. After that a
  request with a method that has no routes is offered to the handlers of another method, and a URL
  of more than 100 segments reads the last element of an empty vector when no route is left.\<close>
theorem any_method_node_is_culled:
  "map_option (\<lambda>r. candidates r (ascii ''POST'') (ascii ''/a''))
      (applyOps [AddRoute (ascii ''GET'') (ascii ''/a'') (1 :: nat) MEDIUM_PRIORITY,
        AddRoute (ascii ''GET'') (ascii ''/a'') 2 MEDIUM_PRIORITY] newRouter) = Some [(2, [])] \<and>
   map_option (\<lambda>r. route asked (ascii ''GET'') (replicate 101 47) r [])
      (applyOps [AddRoute (ascii ''GET'') (ascii ''/a'') (1 :: nat) MEDIUM_PRIORITY,
        RemoveRoute (ascii ''GET'') (ascii ''/a'') MEDIUM_PRIORITY] newRouter) = Some None"
  by code_simp

end
