(* ===== verification/Multipart.thy ===== *)
theory Multipart
  imports HttpHead StringView
begin

text \<open>
  Multipart bodies: native/uwebsockets/MessageParser.h and Multipart.h, and the loops of
  native/addon/addon.cpp that drive them. A body is parsed in place: the names of the header fields
  are lowercased in it, and one byte behind each part is overwritten with a carriage return. \<open>None\<close> is
  an access outside of the body, or a view cut by more than it holds.
\<close>

section \<open>The header fields of a part\<close>

text \<open>\<open>for (; (*p != ':') & (*(unsigned char *) p > 32); *(p++) |= 32);\<close>\<close>

function keyRun :: "bytes \<Rightarrow> nat \<Rightarrow> (bytes \<times> nat) option" where
  "keyRun mem p =
     (if p < length mem then
        if mem ! p \<noteq> 58 \<and> 32 < mem ! p then keyRun (mem[p := mem ! p OR 32]) (p + 1) else Some (mem, p)
      else None)"
  by pat_completeness auto
termination by (relation "measure (\<lambda>(mem, p). length mem - p)") auto

declare keyRun.simps [simp del]

definition memchr :: "byte \<Rightarrow> bytes \<Rightarrow> nat \<Rightarrow> nat \<Rightarrow> nat option option" where
  "memchr c mem p e =
     (if p \<le> e \<and> e \<le> length mem then Some (findFrom c (take e mem) p) else None)"

definition MAX_HEADERS :: nat where "MAX_HEADERS = 100"

text \<open>The loop over at most \<open>MAX_HEADERS\<close> fields; the result is the length up to the empty line, or
  \<open>None\<close> for the 0 of the source.\<close>

fun partHeaders :: "nat \<Rightarrow> bytes \<Rightarrow> nat \<Rightarrow> nat \<Rightarrow> header list \<Rightarrow> (bytes \<times> (nat \<times> header list) option) option" where
  "partHeaders 0 mem p e hs = Some (mem, None)"
| "partHeaders (Suc n) mem p e hs =
     do {
       (mem, q) \<leftarrow> keyRun mem p;
       if mem ! q = CR then
         do {
           b \<leftarrow> rd mem (q + 1);
           Some (mem, if q \<noteq> e \<and> b = LF then Some (q + 2, hs) else None)
         }
       else
         do {
           v \<leftarrow> scanWhile (\<lambda>b. (b = 58 \<or> b < 33) \<and> b \<noteq> CR) mem (q + 1);
           r \<leftarrow> memchr CR mem v e;
           (case r of
              None \<Rightarrow> Some (mem, None)
            | Some r \<Rightarrow>
                do {
                  b \<leftarrow> rd mem (r + 1);
                  if b = LF then partHeaders n mem (r + 2) e (hs @ [(bytesOf mem p q, bytesOf mem v r)])
                  else Some (mem, None)
                })
         }
     }"

definition getPartHeaders :: "bytes \<Rightarrow> nat \<Rightarrow> nat \<Rightarrow> (bytes \<times> nat \<times> header list) option" where
  "getPartHeaders mem p e =
     do {
       (mem, r) \<leftarrow> partHeaders MAX_HEADERS mem p e [];
       Some (case r of Some (q, hs) \<Rightarrow> (mem, q - p, hs) | None \<Rightarrow> (mem, 0, []))
     }"

section \<open>Parts\<close>

record MultipartParser =
  prependedBoundary :: bytes
  body :: bytes
  remaining :: nat
  isFirst :: bool

definition trimBoundary :: "bytes \<Rightarrow> bytes" where
  "trimBoundary s = (let ws = (\<lambda>b. b = SP \<or> b = HTAB) in rev (dropWhile ws (rev (dropWhile ws s))))"

definition boundaryOf :: "bytes \<Rightarrow> bytes" where
  "boundaryOf contentType =
     (if length contentType < 10 \<or> take 10 contentType \<noteq> ascii ''multipart/'' then []
      else (case findText (ascii ''boundary='') (drop 10 contentType) of
        None \<Rightarrow> []
      | Some i \<Rightarrow>
          (let boundary = drop (10 + i + 9) contentType;
               boundary = (case findFrom 59 boundary 0 of Some e \<Rightarrow> take e boundary | None \<Rightarrow> boundary);
               boundary = trimBoundary boundary;
               boundary = (if 2 \<le> length boundary \<and> hd boundary = 34 \<and> last boundary = 34
                           then take (length boundary - 2) (drop 1 boundary) else boundary)
           in if boundary = [] \<or> length boundary > 70 then [] else [45, 45] @ boundary)))"

text \<open>The constructor, and \<open>setBody\<close>: the remaining body is a view to its end.\<close>

definition newParser :: "bytes \<Rightarrow> MultipartParser" where
  "newParser contentType = \<lparr>prependedBoundary = boundaryOf contentType, body = [], remaining = 0, isFirst = True\<rparr>"

definition isValid :: "MultipartParser \<Rightarrow> bool" where
  "isValid mp \<longleftrightarrow> length (prependedBoundary mp) \<noteq> 0"

definition setBody :: "bytes \<Rightarrow> MultipartParser \<Rightarrow> MultipartParser" where
  "setBody b mp = mp\<lparr>body := b, remaining := 0\<rparr>"

definition remainingBody :: "MultipartParser \<Rightarrow> bytes" where
  "remainingBody mp = drop (remaining mp) (body mp)"

text \<open>Toss away the first boundary and anything before it; \<open>None\<close> when there is none.\<close>

definition skipPreamble :: "MultipartParser \<Rightarrow> MultipartParser option" where
  "skipPreamble mp =
     (if isFirst mp then
        (case findText (prependedBoundary mp) (remainingBody mp) of
           None \<Rightarrow> None
         | Some n \<Rightarrow> Some (mp\<lparr>remaining := remaining mp + n + length (prependedBoundary mp), isFirst := False\<rparr>))
      else Some mp)"

definition getNextPart :: "MultipartParser \<Rightarrow> (MultipartParser \<times> (header list \<times> bytes) option) option" where
  "getNextPart mp =
     (if length (remainingBody mp) < length (prependedBoundary mp) then Some (mp, None)
      else (case skipPreamble mp of
        None \<Rightarrow> Some (mp, None)
      | Some mp \<Rightarrow>
          (case findText (prependedBoundary mp) (remainingBody mp) of
             None \<Rightarrow> Some (mp, None)
           | Some n \<Rightarrow>
               (let p = remaining mp;
                    mp = mp\<lparr>remaining := p + n + length (prependedBoundary mp)\<rparr>
                in if n < 4 then Some (mp, None)
                   else do {
                     mem \<leftarrow> wr (body mp) (p + n - 2) CR;
                     (mem, consumed, hs) \<leftarrow> getPartHeaders mem (p + 2) (p + n - 2);
                     let mp = mp\<lparr>body := mem\<rparr>;
                     if consumed = 0 then Some (mp, None)
                     else if consumed \<le> n - 4 then Some (mp, Some (hs, bytesOf mem (p + 2 + consumed) (p + n - 2)))
                     else None
                   }))))"

section \<open>Parameters of a header field\<close>

definition isspace :: "byte \<Rightarrow> bool" where
  "isspace b \<longleftrightarrow> 9 \<le> b \<and> b \<le> 13 \<or> b = 32"

text \<open>A token and the remaining line.\<close>

definition getToken :: "bytes \<Rightarrow> bytes \<times> bytes" where
  "getToken line =
     (case dropWhile isspace line of
        [] \<Rightarrow> ([], [])
      | c # rest \<Rightarrow>
          if c = 59 \<or> c = 61 then ([c], rest)
          else if c = 34 then
            (let quote = takeWhile (\<lambda>b. b \<noteq> 34) rest; rest = dropWhile (\<lambda>b. b \<noteq> 34) rest
             in if rest = [] then ([], []) else (quote, drop 1 rest))
          else (let inside = (\<lambda>b. b \<noteq> 59 \<and> b \<noteq> 61 \<and> \<not> isspace b)
             in (takeWhile inside (c # rest), dropWhile inside (c # rest))))"

definition getKeyValue :: "bytes \<Rightarrow> (bytes \<times> bytes) \<times> bytes" where
  "getKeyValue line =
     (let (key, line) = getToken line;
          (op', line) = getToken line
      in if op' = [] then ((key, []), line)
         else if op' ! 0 \<noteq> 59 then
           (let (value, line) = getToken line;
                (_, line) = getToken line
            in ((key, value), line))
         else ((key, []), line))"

section \<open>Reading stays inside a part\<close>

lemma keyRun_bounds:
  "\<lbrakk>p \<le> e; e < length mem; mem ! e = CR\<rbrakk> \<Longrightarrow>
   \<exists>mem' q. keyRun mem p = Some (mem', q) \<and> p \<le> q \<and> q \<le> e \<and> length mem' = length mem \<and>
     (\<forall>i. i < p \<or> e \<le> i \<longrightarrow> mem' ! i = mem ! i)"
proof (induction mem p rule: keyRun.induct)
  case (1 mem p)
  show ?case
  proof (cases "mem ! p \<noteq> 58 \<and> 32 < mem ! p")
    case True
    then have "p \<noteq> e" using 1(4) by auto
    then have pe: "p < e" using 1(2) by simp
    have step: "keyRun mem p = keyRun (mem[p := mem ! p OR 32]) (p + 1)" using True pe 1(3) by (subst keyRun.simps) simp
    obtain mem' q where "keyRun (mem[p := mem ! p OR 32]) (p + 1) = Some (mem', q)" "p + 1 \<le> q" "q \<le> e"
      "length mem' = length mem" "\<forall>i. i < p + 1 \<or> e \<le> i \<longrightarrow> mem' ! i = mem[p := mem ! p OR 32] ! i"
      using 1(1) [OF _ True] pe 1(3,4) by auto
    then show ?thesis unfolding step using pe by auto
  next
    case False
    then show ?thesis using 1 by (subst keyRun.simps) auto
  qed
qed

text \<open>What the header parser does with memory that has the fence at \<open>e\<close> and a byte behind it.\<close>

lemma partHeaders_safe:
  "\<lbrakk>p \<le> e; e + 1 < length mem; mem ! e = CR\<rbrakk> \<Longrightarrow>
   \<exists>mem' r. partHeaders n mem p e hs = Some (mem', r) \<and> length mem' = length mem \<and>
     (\<forall>i. i < p \<or> e \<le> i \<longrightarrow> mem' ! i = mem ! i) \<and> (\<forall>q hs'. r = Some (q, hs') \<longrightarrow> p + 2 \<le> q \<and> q \<le> e)"
proof (induction n arbitrary: mem p hs)
  case (Suc n)
  obtain mem1 q where q: "keyRun mem p = Some (mem1, q)" "p \<le> q" "q \<le> e" "length mem1 = length mem"
    "\<forall>i. i < p \<or> e \<le> i \<longrightarrow> mem1 ! i = mem ! i"
    using keyRun_bounds [of p e mem] Suc.prems by auto
  have e: "mem1 ! e = CR" using q Suc.prems by simp
  show ?case
  proof (cases "mem1 ! q = CR")
    case True
    have "q + 2 \<le> e" if "q \<noteq> e" "mem1 ! (q + 1) = LF"
    proof -
      have "q + 1 \<noteq> e" using that(2) e by auto
      then show ?thesis using that(1) q(3) by simp
    qed
    then show ?thesis using True q Suc.prems by auto
  next
    case False
    then have qe: "q < e" using q e by (metis le_neq_implies_less)
    obtain v where v: "scanWhile (\<lambda>b. (b = 58 \<or> b < 33) \<and> b \<noteq> CR) mem1 (q + 1) = Some v" "v \<le> e" "q + 1 \<le> v"
      using scanWhile_stops [of "q + 1" e mem1 "\<lambda>b. (b = 58 \<or> b < 33) \<and> b \<noteq> CR"] qe q(4) e Suc.prems(2) scanWhile_le by fastforce
    obtain r where r: "memchr CR mem1 v e = Some r" using v(2) q(4) Suc.prems(2) by (simp add: memchr_def)
    show ?thesis
    proof (cases r)
      case None
      then show ?thesis using q v r False by auto
    next
      case (Some k)
      then have k: "v \<le> k" "k < e"
        using r q(4) Suc.prems(2) by (auto simp: memchr_def findFrom_def Let_def split: if_splits option.splits)
      show ?thesis
      proof (cases "mem1 ! (k + 1) = LF")
        case True
        then have "k + 1 \<noteq> e" using e by auto
        then have "k + 2 \<le> e" using k by simp
        from Suc.IH [OF this, of mem1 "hs @ [(bytesOf mem1 p q, bytesOf mem1 v k)]"]
        obtain mem' r' where "partHeaders n mem1 (k + 2) e (hs @ [(bytesOf mem1 p q, bytesOf mem1 v k)]) = Some (mem', r')"
          "length mem' = length mem1" "\<forall>i. i < k + 2 \<or> e \<le> i \<longrightarrow> mem' ! i = mem1 ! i"
          "\<forall>q hs'. r' = Some (q, hs') \<longrightarrow> k + 2 + 2 \<le> q \<and> q \<le> e"
          using q(4) e Suc.prems(2) by auto
        then show ?thesis using True Some q v r False k Suc.prems(2) by auto
      next
        case no: False
        then show ?thesis using Some q v r False k Suc.prems(2) by auto
      qed
    qed
  qed
qed auto

lemma getPartHeaders_safe:
  assumes "p \<le> e" and "e + 1 < length mem" and "mem ! e = CR"
  obtains mem' consumed hs where "getPartHeaders mem p e = Some (mem', consumed, hs)" "length mem' = length mem"
    "consumed \<le> e - p" "consumed = 0 \<or> 2 \<le> consumed"
    "\<forall>i. i < p \<or> e \<le> i \<longrightarrow> mem' ! i = mem ! i"
proof -
  from partHeaders_safe [OF assms, of MAX_HEADERS "[]"]
  obtain mem' r where r: "partHeaders MAX_HEADERS mem p e [] = Some (mem', r)" "length mem' = length mem"
    "\<forall>i. i < p \<or> e \<le> i \<longrightarrow> mem' ! i = mem ! i" "\<forall>q hs'. r = Some (q, hs') \<longrightarrow> p + 2 \<le> q \<and> q \<le> e"
    by (elim exE conjE)
  show thesis
  proof (cases r)
    case None
    then show thesis using that [of mem' 0 "[]"] r by (simp add: getPartHeaders_def)
  next
    case (Some x)
    then obtain q hs where x: "r = Some (q, hs)" by (cases x) simp
    then have "p + 2 \<le> q" "q \<le> e" using r(4) by auto
    then show thesis using that [of mem' "q - p" hs] r x by (simp add: getPartHeaders_def)
  qed
qed

section \<open>The loop over the parts\<close>

lemma findText_Nil_pattern [simp]: "findText [] s = Some 0"
  by (cases s) simp_all

lemma getNextPart_cases:
  obtains (stop) mp' where "getNextPart mp = Some (mp', None)" "prependedBoundary mp' = prependedBoundary mp"
  | (part) mp' hs data where "getNextPart mp = Some (mp', Some (hs, data))" "prependedBoundary mp' = prependedBoundary mp"
    "length (body mp') = length (body mp)" "remaining mp + 4 \<le> remaining mp'" "remaining mp' \<le> length (body mp)"
    "remainingBody mp' = drop (remaining mp') (body mp)" "\<not> isFirst mp'"
proof (cases "length (remainingBody mp) < length (prependedBoundary mp)")
  case True
  then show thesis using stop by (simp add: getNextPart_def)
next
  case long: False
  show thesis
  proof (cases "skipPreamble mp")
    case None
    then show thesis using long stop by (simp add: getNextPart_def)
  next
    case (Some m)
    have m: "prependedBoundary m = prependedBoundary mp" "body m = body mp" "remaining mp \<le> remaining m" "\<not> isFirst m"
      using Some by (auto simp: skipPreamble_def split: if_splits option.splits)
    show thesis
    proof (cases "findText (prependedBoundary m) (remainingBody m)")
      case None
      then show thesis using long Some stop m by (simp add: getNextPart_def)
    next
      case found: (Some n)
      define p where "p = remaining m"
      define m' where "m' = m\<lparr>remaining := p + n + length (prependedBoundary m)\<rparr>"
      have eq: "getNextPart mp = (if n < 4 then Some (m', None) else do {
           mem \<leftarrow> wr (body m) (p + n - 2) CR;
           (mem, consumed, hs) \<leftarrow> getPartHeaders mem (p + 2) (p + n - 2);
           let mp = m'\<lparr>body := mem\<rparr>;
           if consumed = 0 then Some (mp, None)
           else if consumed \<le> n - 4 then Some (mp, Some (hs, bytesOf mem (p + 2 + consumed) (p + n - 2)))
           else None})"
        using long Some found unfolding p_def m'_def by (simp add: getNextPart_def Let_def)
      show thesis
      proof (cases "n < 4")
        case True
        then show thesis using stop [of m'] eq m by (simp add: m'_def)
      next
        case big: False
        have "n + length (prependedBoundary m) \<le> length (body m) - p"
          using findText_Some [OF found] by (simp add: remainingBody_def p_def)
        moreover have "prependedBoundary m \<noteq> []" using found big by auto
        then have "1 \<le> length (prependedBoundary m)" by (simp add: Suc_le_eq)
        ultimately have fits: "p + n + length (prependedBoundary m) \<le> length (body m)" "p + n - 2 + 1 < length (body m)"
          using big by linarith+
        define mem where "mem = (body m)[p + n - 2 := CR]"
        have wr: "wr (body m) (p + n - 2) CR = Some mem" using fits by (simp add: mem_def)
        have e: "mem ! (p + n - 2) = CR" "length mem = length (body m)" using fits by (simp_all add: mem_def)
        obtain mem' consumed hs where g: "getPartHeaders mem (p + 2) (p + n - 2) = Some (mem', consumed, hs)"
          "length mem' = length mem" "consumed \<le> p + n - 2 - (p + 2)"
          "\<forall>i. i < p + 2 \<or> p + n - 2 \<le> i \<longrightarrow> mem' ! i = mem ! i"
          by (rule getPartHeaders_safe [of "p + 2" "p + n - 2" mem]) (use big fits e in auto)
        have "mem' ! i = body m ! i" if "p + n \<le> i" for i
          using g(4) that big by (auto simp: mem_def)
        then have tail: "drop (p + n + length (prependedBoundary m)) mem' = drop (p + n + length (prependedBoundary m)) (body m)"
          using g(2) e(2) by (intro nth_equalityI) auto
        show thesis
        proof (cases "consumed = 0")
          case True
          then show thesis using stop [of "m'\<lparr>body := mem'\<rparr>"] eq big wr g m by (simp add: m'_def Let_def)
        next
          case False
          have "consumed \<le> n - 4" using g(3) by simp
          then have "getNextPart mp = Some (m'\<lparr>body := mem'\<rparr>, Some (hs, bytesOf mem' (p + 2 + consumed) (p + n - 2)))"
            using eq big wr g(1) False by (simp add: Let_def)
          then show thesis
            by (rule part) (use m fits big g(2) e(2) tail in \<open>simp_all add: m'_def p_def remainingBody_def\<close>)
        qed
      qed
    qed
  qed
qed

text \<open>The loop of \<open>addon.cpp\<close>; it ends because every part that is delivered uses up some of the body.\<close>

function allParts :: "MultipartParser \<Rightarrow> (header list \<times> bytes) list option" where
  "allParts mp =
     (case getNextPart mp of
        None \<Rightarrow> None
      | Some (mp', None) \<Rightarrow> Some []
      | Some (mp', Some part) \<Rightarrow> map_option ((#) part) (allParts mp'))"
  by pat_completeness auto
termination
proof (relation "measure (\<lambda>mp. length (body mp) - remaining mp)")
  fix mp x mp' r part
  assume *: "getNextPart mp = Some x" "(mp', r) = x" "r = Some part"
  then show "(mp', mp) \<in> measure (\<lambda>mp. length (body mp) - remaining mp)"
    by (cases rule: getNextPart_cases [of mp]) (auto simp: in_measure)
qed simp

declare allParts.simps [simp del]

section \<open>Reading a body that was put together\<close>

text \<open>Fields and parts as they are written.\<close>

definition writeField :: "header \<Rightarrow> bytes" where
  "writeField = (\<lambda>(k, v). k @ [58, SP] @ v @ [CR, LF])"

definition writePart :: "header list \<times> bytes \<Rightarrow> bytes" where
  "writePart = (\<lambda>(hs, data). [CR, LF] @ concat (map writeField hs) @ [CR, LF] @ data @ [CR, LF])"

definition fieldOk :: "header \<Rightarrow> bool" where
  "fieldOk = (\<lambda>(k, v). (\<forall>b \<in> set k. b \<noteq> 58 \<and> 32 < b) \<and> CR \<notin> set v \<and> (v = [] \<or> 33 \<le> hd v \<and> hd v \<noteq> 58))"

text \<open>The boundary does not occur before the end of a text that is followed by it.\<close>

definition boundaryFree :: "bytes \<Rightarrow> bytes \<Rightarrow> bool" where
  "boundaryFree B t \<longleftrightarrow> findText B (t @ B) = Some (length t)"

definition lowerField :: "header \<Rightarrow> header" where
  "lowerField = (\<lambda>(k, v). (map (\<lambda>b. b OR 32) k, v))"

lemma keyRun_list:
  "\<lbrakk>\<forall>b \<in> set k. b \<noteq> 58 \<and> 32 < b; c = 58 \<or> \<not> 32 < c\<rbrakk> \<Longrightarrow>
   keyRun (pre @ k @ c # post) (length pre) = Some (pre @ map (\<lambda>b. b OR 32) k @ c # post, length pre + length k)"
proof (induction k arbitrary: pre)
  case Nil
  then show ?case by (subst keyRun.simps) auto
next
  case (Cons b k)
  have "keyRun (pre @ (b # k) @ c # post) (length pre) = keyRun ((pre @ [b OR 32]) @ k @ c # post) (length (pre @ [b OR 32]))"
    using Cons.prems by (subst keyRun.simps) simp
  also have "\<dots> = Some ((pre @ [b OR 32]) @ map (\<lambda>b. b OR 32) k @ c # post, length (pre @ [b OR 32]) + length k)"
    by (rule Cons.IH) (use Cons.prems in simp_all)
  finally show ?case by simp
qed

lemma memchr_list:
  assumes "CR \<notin> set v" and "length (pre @ v) < e" and "e \<le> length (pre @ v @ CR # post)"
  shows "memchr CR (pre @ v @ CR # post) (length pre) e = Some (Some (length pre + length v))"
proof -
  obtain k where k: "e = length (pre @ v) + Suc k" using assms(2) less_imp_Suc_add by (metis add_Suc_right)
  then have "drop (length pre) (take e (pre @ v @ CR # post)) = v @ CR # take k post" by simp
  then show ?thesis using assms k by (simp add: memchr_def findFrom_def takeWhile_neq_stop)
qed

lemma bytesOf_piece: "bytesOf (pre @ s @ post) (length pre) (length pre + length s) = s"
  by (simp add: bytesOf_def)

lemma partHeaders_list:
  assumes "\<forall>h \<in> set hs. fieldOk h" and "length hs < n"
    and "e = length (pre @ concat (map writeField hs) @ [CR, LF] @ data)"
  shows "partHeaders n (pre @ concat (map writeField hs) @ [CR, LF] @ data @ CR # post) (length pre) e acc =
    Some (pre @ concat (map writeField (map lowerField hs)) @ [CR, LF] @ data @ CR # post,
      Some (length (pre @ concat (map writeField hs)) + 2, acc @ map lowerField hs))"
  using assms
proof (induction hs arbitrary: n pre acc)
  case Nil
  then obtain m where n: "n = Suc m" by (cases n) auto
  have "keyRun (pre @ [] @ CR # LF # data @ CR # post) (length pre) = Some (pre @ CR # LF # data @ CR # post, length pre)"
    by (subst keyRun_list) auto
  then show ?case using Nil n by (simp add: nth_append)
next
  case (Cons h hs)
  obtain m where n: "n = Suc m" using Cons.prems(2) by (cases n) auto
  obtain k v where h: "h = (k, v)" by (cases h)
  have ok: "\<forall>b \<in> set k. b \<noteq> 58 \<and> 32 < b" "CR \<notin> set v" "v = [] \<or> 33 \<le> hd v \<and> hd v \<noteq> 58"
    using Cons.prems(1) by (simp_all add: fieldOk_def h)
  define k' rest where "k' = map (\<lambda>b. b OR 32) k"
    and "rest = concat (map writeField hs) @ [CR, LF] @ data @ CR # post"
  have lk: "length k' = length k" by (simp add: k'_def)
  have mem: "pre @ concat (map writeField (h # hs)) @ [CR, LF] @ data @ CR # post = pre @ k @ 58 # SP # v @ CR # LF # rest"
    by (simp add: writeField_def h rest_def)
  have e: "e = length (pre @ k @ 58 # SP # v @ CR # LF # concat (map writeField hs) @ [CR, LF] @ data)"
    using Cons.prems(3) by (simp add: writeField_def h)
  have k1: "keyRun (pre @ k @ 58 # SP # v @ CR # LF # rest) (length pre) = Some (pre @ k' @ 58 # SP # v @ CR # LF # rest, length pre + length k)"
    unfolding k'_def by (rule keyRun_list) (use ok in auto)
  have k2: "scanWhile (\<lambda>b. (b = 58 \<or> b < 33) \<and> b \<noteq> CR) (pre @ k' @ 58 # SP # v @ CR # LF # rest) (length pre + length k + 1) =
      Some (length pre + length k + 2)"
  proof -
    define M L where "M = pre @ k' @ 58 # SP # v @ CR # LF # rest" and "L = length pre + length k"
    have at: "M ! (L + 1) = SP" using lk by (simp add: nth_append M_def L_def)
    have "(v @ CR # LF # rest) ! 0 = (if v = [] then CR else hd v)" by (cases v) auto
    then have after: "M ! (L + 2) = (if v = [] then CR else hd v)" using lk by (simp add: nth_append M_def L_def)
    have "\<not> ((M ! (L + 2) = 58 \<or> M ! (L + 2) < 33) \<and> M ! (L + 2) \<noteq> CR)" using ok(3) after by auto
    moreover have "(M ! i = 58 \<or> M ! i < 33) \<and> M ! i \<noteq> CR" if "L + 1 \<le> i \<and> i < L + 2" for i
    proof -
      have "i = L + 1" using that by linarith
      then show ?thesis using at by simp
    qed
    moreover have "L + 2 < length M" using lk by (simp add: M_def L_def)
    ultimately have "scanWhile (\<lambda>b. (b = 58 \<or> b < 33) \<and> b \<noteq> CR) M (L + 1) = Some (L + 2)"
      unfolding scanWhile_iff by (metis add_le_cancel_left one_le_numeral)
    then show ?thesis by (simp add: M_def L_def)
  qed
  have k3: "memchr CR (pre @ k' @ 58 # SP # v @ CR # LF # rest) (length pre + length k + 2) e = Some (Some (length pre + length k + 2 + length v))"
    using memchr_list [of v "pre @ k' @ [58, SP]" e "LF # rest"] ok(2) e lk by (simp add: rest_def)
  have k4: "rd (pre @ k' @ 58 # SP # v @ CR # LF # rest) (length pre + length k + 2 + length v + 1) = Some LF"
    using lk by (simp add: rd_def nth_append)
  have k5: "bytesOf (pre @ k' @ 58 # SP # v @ CR # LF # rest) (length pre) (length pre + length k) = k'"
    using bytesOf_piece [of pre k' "58 # SP # v @ CR # LF # rest"] lk by simp
  have k6: "bytesOf (pre @ k' @ 58 # SP # v @ CR # LF # rest) (length pre + length k + 2) (length pre + length k + 2 + length v) = v"
    using bytesOf_piece [of "pre @ k' @ [58, SP]" v "CR # LF # rest"] lk by simp
  have k7: "(pre @ k' @ 58 # SP # v @ CR # LF # rest) ! (length pre + length k) = 58"
    using lk by (simp add: nth_append)
  have "partHeaders (Suc m) (pre @ k @ 58 # SP # v @ CR # LF # rest) (length pre) e acc =
      partHeaders m (pre @ k' @ 58 # SP # v @ CR # LF # rest) (length pre + length k + 2 + length v + 2) e (acc @ [(k', v)])"
    by (simp add: k1 k2 [simplified] k3 [simplified] k4 [simplified] k5 k6 [simplified] k7 [simplified])
  also have "pre @ k' @ 58 # SP # v @ CR # LF # rest = (pre @ k' @ 58 # SP # v @ [CR, LF]) @ concat (map writeField hs) @ [CR, LF] @ data @ CR # post"
    by (simp add: rest_def)
  also have "length pre + length k + 2 + length v + 2 = length (pre @ k' @ 58 # SP # v @ [CR, LF])" using lk by simp
  also have "partHeaders m ((pre @ k' @ 58 # SP # v @ [CR, LF]) @ concat (map writeField hs) @ [CR, LF] @ data @ CR # post)
      (length (pre @ k' @ 58 # SP # v @ [CR, LF])) e (acc @ [(k', v)]) =
    Some ((pre @ k' @ 58 # SP # v @ [CR, LF]) @ concat (map writeField (map lowerField hs)) @ [CR, LF] @ data @ CR # post,
      Some (length ((pre @ k' @ 58 # SP # v @ [CR, LF]) @ concat (map writeField hs)) + 2, (acc @ [(k', v)]) @ map lowerField hs))"
    by (rule Cons.IH) (use Cons.prems n e lk in simp_all)
  finally show ?case unfolding mem n
    by (simp add: h lowerField_def writeField_def k'_def)
qed

lemma findText_boundary:
  assumes "boundaryFree B t"
  shows "findText B (t @ B @ s) = Some (length t)"
proof (rule findText_at)
  show "\<forall>j < length t. \<not> prefix B (drop j (t @ B @ s))"
  proof (intro allI impI notI)
    fix j assume j: "j < length t" and p: "prefix B (drop j (t @ B @ s))"
    have "prefix (drop j (t @ B)) (drop j (t @ B @ s))" using j by simp
    moreover have "length B \<le> length (drop j (t @ B))" using j by simp
    ultimately have "prefix B (drop j (t @ B))" using p prefix_length_prefix by blast
    then show False using findText_least assms j unfolding boundaryFree_def by blast
  qed
qed simp_all

lemma length_lowerField: "length (concat (map writeField (map lowerField hs))) = length (concat (map writeField hs))"
  by (induction hs) (auto simp: writeField_def lowerField_def)

lemma getNextPart_list:
  assumes "prependedBoundary mp = B" and "B \<noteq> []" and "\<not> isFirst mp" and "remaining mp = length pre"
    and "body mp = pre @ writePart (hs, data) @ B @ rest"
    and "\<forall>h \<in> set hs. fieldOk h" and "length hs < MAX_HEADERS" and "boundaryFree B (writePart (hs, data))"
  obtains mp' where "getNextPart mp = Some (mp', Some (map lowerField hs, data))"
    "prependedBoundary mp' = B" "\<not> isFirst mp'" "remaining mp' = length (pre @ writePart (hs, data) @ B)"
    "body mp' = pre @ writePart (map lowerField hs, data) @ B @ rest"
proof -
  define fs fs' where "fs = concat (map writeField hs)" and "fs' = concat (map writeField (map lowerField hs))"
  have l: "length fs' = length fs" unfolding fs_def fs'_def by (rule length_lowerField)
  define t where "t = writePart (hs, data)"
  have t: "t = [CR, LF] @ fs @ [CR, LF] @ data @ [CR, LF]" by (simp add: t_def writePart_def fs_def)
  have n: "length t = length fs + length data + 6" by (simp add: t)
  have found: "findText B (remainingBody mp) = Some (length t)"
    using findText_boundary [OF assms(8), of rest] assms(4,5) by (simp add: remainingBody_def t_def)
  have big: "\<not> length t < 4" "length fs + 2 \<le> length t - 4" using n by simp_all
  define e where "e = length pre + length t - 2"
  have mem: "body mp = (pre @ [CR, LF]) @ fs @ [CR, LF] @ data @ CR # LF # B @ rest" using assms(5) by (simp add: t flip: t_def)
  have e: "e = length ((pre @ [CR, LF]) @ fs @ [CR, LF] @ data)" by (simp add: e_def n)
  have at: "body mp ! e = CR" and "e < length (body mp)" unfolding mem e by (simp_all add: nth_append)
  then have wr: "wr (body mp) e CR = Some (body mp)" by (metis list_update_id wr_in)
  define mem' where "mem' = (pre @ [CR, LF]) @ fs' @ [CR, LF] @ data @ CR # LF # B @ rest"
  have "partHeaders MAX_HEADERS (body mp) (length (pre @ [CR, LF])) e [] = Some (mem', Some (length ((pre @ [CR, LF]) @ fs) + 2, map lowerField hs))"
    unfolding mem mem'_def fs_def fs'_def
    by (subst partHeaders_list) (use assms(6,7) e in \<open>simp_all add: fs_def\<close>)
  then have hdrs: "getPartHeaders (body mp) (length pre + 2) e = Some (mem', length fs + 2, map lowerField hs)"
    by (simp add: getPartHeaders_def)
  have data: "bytesOf mem' (length pre + 2 + (length fs + 2)) e = data"
    using bytesOf_piece [of "pre @ [CR, LF] @ fs' @ [CR, LF]" data "CR # LF # B @ rest"] by (simp add: mem'_def e l add.assoc)
  have long: "\<not> length (remainingBody mp) < length B" using assms(4,5) by (simp add: remainingBody_def)
  have gn: "getNextPart mp = Some (mp\<lparr>remaining := length pre + length t + length B, body := mem'\<rparr>, Some (map lowerField hs, data))"
    using long found wr hdrs data big assms(1,3,4)
    by (simp add: getNextPart_def skipPreamble_def Let_def flip: e_def numeral_2_eq_2)
  show thesis
    by (rule that [OF gn]) (use assms(1,3) in \<open>simp_all add: mem'_def writePart_def fs'_def t_def\<close>)
qed

definition partOk :: "bytes \<Rightarrow> header list \<times> bytes \<Rightarrow> bool" where
  "partOk B = (\<lambda>(hs, data). list_all fieldOk hs \<and> length hs < MAX_HEADERS \<and> boundaryFree B (writePart (hs, data)))"

lemma allParts_rest:
  assumes "prependedBoundary mp = B" and "B \<noteq> []" and "\<not> isFirst mp" and "remaining mp = length pre"
    and "body mp = pre @ concat (map (\<lambda>p. writePart p @ B) parts) @ tail"
    and "list_all (partOk B) parts" and "findText B tail = None"
  shows "allParts mp = Some (map (\<lambda>(hs, data). (map lowerField hs, data)) parts)"
  using assms
proof (induction parts arbitrary: mp pre)
  case Nil
  then have "remainingBody mp = tail" by (simp add: remainingBody_def)
  then have "getNextPart mp = Some (mp, None)" using Nil by (simp add: getNextPart_def skipPreamble_def)
  then show ?case by (subst allParts.simps) simp
next
  case (Cons p parts)
  obtain hs data where p: "p = (hs, data)" by (cases p)
  have ok: "\<forall>h \<in> set hs. fieldOk h" "length hs < MAX_HEADERS" "boundaryFree B (writePart (hs, data))"
    using Cons.prems(6) by (simp_all add: partOk_def p list_all_iff)
  define rest where "rest = concat (map (\<lambda>p. writePart p @ B) parts) @ tail"
  have "body mp = pre @ writePart (hs, data) @ B @ rest" using Cons.prems(5) by (simp add: p rest_def)
  from getNextPart_list [OF Cons.prems(1,2,3,4) this ok]
  obtain mp' where mp': "getNextPart mp = Some (mp', Some (map lowerField hs, data))"
    "prependedBoundary mp' = B" "\<not> isFirst mp'" "remaining mp' = length (pre @ writePart (hs, data) @ B)"
    "body mp' = pre @ writePart (map lowerField hs, data) @ B @ rest" by blast
  have "length (writePart (map lowerField hs, data)) = length (writePart (hs, data))"
    using length_lowerField [of hs] by (simp add: writePart_def)
  then have "allParts mp' = Some (map (\<lambda>(hs, data). (map lowerField hs, data)) parts)"
    by (intro Cons.IH [of mp' "pre @ writePart (map lowerField hs, data) @ B"])
      (use mp' Cons.prems(2,6,7) in \<open>simp_all add: rest_def\<close>)
  then show ?case using mp'(1) by (subst allParts.simps) (simp add: p)
qed

text \<open>A body that is put together from parts, with the boundary that the content type names, is
  taken apart again: every part is delivered once, in order, with its bytes and its fields, the
  names of the fields as the parser lowercases them.\<close>
theorem multipart_roundtrip:
  assumes "boundaryOf contentType = B" and "B \<noteq> []"
    and "boundaryFree B preamble" and "list_all (partOk B) parts" and "findText B tail = None"
  shows "allParts (setBody (preamble @ B @ concat (map (\<lambda>p. writePart p @ B) parts) @ tail) (newParser contentType)) =
    Some (map (\<lambda>(hs, data). (map lowerField hs, data)) parts)"
proof -
  define rest where "rest = concat (map (\<lambda>p. writePart p @ B) parts) @ tail"
  define mp mp' where "mp = setBody (preamble @ B @ rest) (newParser contentType)"
    and "mp' = mp\<lparr>remaining := length (preamble @ B), isFirst := False\<rparr>"
  have r: "remainingBody mp = preamble @ B @ rest" "prependedBoundary mp = B" "isFirst mp" "remaining mp = 0" "body mp = preamble @ B @ rest"
    using assms(1) by (simp_all add: mp_def setBody_def newParser_def remainingBody_def)
  have r': "remainingBody mp' = rest" "prependedBoundary mp' = B" "\<not> isFirst mp'" "remaining mp' = length (preamble @ B)"
    "body mp' = (preamble @ B) @ rest"
    using r by (simp_all add: mp'_def remainingBody_def)
  have same: "allParts mp' = Some (map (\<lambda>(hs, data). (map lowerField hs, data)) parts)"
    by (rule allParts_rest) (use r' assms in \<open>auto simp: rest_def\<close>)
  have skip: "skipPreamble mp = Some mp'"
    using findText_boundary [OF assms(3), of rest] r by (simp add: skipPreamble_def mp'_def)
  have skip': "skipPreamble mp' = Some mp'" using r' by (simp add: skipPreamble_def)
  have len: "\<not> length (remainingBody mp) < length (prependedBoundary mp)" using r by simp
  show ?thesis
  proof (cases "length rest < length B")
    case True
    then have "findText B rest = None" using findText_Some [of B rest] by (cases "findText B rest") auto
    then have "getNextPart mp = Some (mp', None)" using len skip r' by (simp add: getNextPart_def)
    moreover have "getNextPart mp' = Some (mp', None)" using True r' by (simp add: getNextPart_def)
    ultimately have "allParts mp = allParts mp'" unfolding allParts.simps [of mp] allParts.simps [of mp'] by simp
    then show ?thesis using same unfolding mp_def rest_def by simp
  next
    case False
    then have "getNextPart mp = getNextPart mp'" using len skip skip' r' by (simp add: getNextPart_def)
    then have "allParts mp = allParts mp'" unfolding allParts.simps [of mp] allParts.simps [of mp'] by simp
    then show ?thesis using same unfolding mp_def rest_def by simp
  qed
qed

text \<open>The roundtrip at a body with a preamble, two parts and an epilogue.\<close>
lemma multipart_roundtrip_witness:
  "allParts (setBody (ascii ''pre--XY'' @ writePart ([(ascii ''Name'', ascii ''a b'')], ascii ''one'') @ ascii ''--XY'' @
      writePart ([], ascii ''--X'') @ ascii ''--XY--'') (newParser (ascii ''multipart/form-data; boundary=XY''))) =
    Some [([(ascii ''name'', ascii ''a b'')], ascii ''one''), ([], ascii ''--X'')]"
proof -
  have b: "boundaryOf (ascii ''multipart/form-data; boundary=XY'') = ascii ''--XY''" by code_simp
  have f: "boundaryFree (ascii ''--XY'') (ascii ''pre'')" by code_simp
  have p: "list_all (partOk (ascii ''--XY'')) [([(ascii ''Name'', ascii ''a b'')], ascii ''one''), ([], ascii ''--X'')]" by code_simp
  have t: "findText (ascii ''--XY'') (ascii ''--'') = None" by code_simp
  show ?thesis using multipart_roundtrip [OF b _ f p t] by (simp add: lowerField_def)
qed

section \<open>Every body\<close>

lemma allParts_ends: "\<exists>parts. allParts mp = Some parts \<and> length parts * 4 \<le> length (body mp) - remaining mp"
proof (induction mp rule: allParts.induct)
  case (1 mp)
  show ?case
  proof (cases rule: getNextPart_cases [of mp])
    case (stop mp')
    then show ?thesis by (subst allParts.simps) simp
  next
    case (part mp' hs data)
    then show ?thesis using 1 [of "(mp', Some (hs, data))" mp' "Some (hs, data)" "(hs, data)"] by (subst allParts.simps) auto
  qed
qed

text \<open>C29. Whatever the content type and the body, the loop over the parts ends, it reads and writes
  no byte outside of the body, and it delivers at most one part for four bytes of the body.\<close>
theorem multipart_ends_in_bounds:
  "\<exists>parts. allParts (setBody b (newParser contentType)) = Some parts \<and> length parts * 4 \<le> length b"
  using allParts_ends [of "setBody b (newParser contentType)"] by (simp add: setBody_def)

section \<open>Parameters\<close>

lemma length_dropWhile_isspace: "dropWhile isspace line = c # rest \<Longrightarrow> length rest < length line"
  using length_dropWhile_le [of isspace line] by simp

lemma getToken_shorter:
  assumes "getToken line = (token, rest)"
  shows "length rest \<le> length line" and "token \<noteq> [] \<Longrightarrow> length rest < length line"
proof -
  have "length rest \<le> length line \<and> (token \<noteq> [] \<longrightarrow> length rest < length line)"
  proof (cases "dropWhile isspace line")
    case Nil
    then show ?thesis using assms unfolding getToken_def Nil by simp
  next
    case (Cons c r)
    have l: "length r < length line" using length_dropWhile_isspace [OF Cons] .
    have d: "length (dropWhile P r) \<le> length r" for P by (rule length_dropWhile_le)
    show ?thesis
      using assms l d [of "\<lambda>b. b \<noteq> 34"] d [of "\<lambda>b. b \<noteq> 59 \<and> b \<noteq> 61 \<and> \<not> isspace b"]
      unfolding getToken_def Cons by (auto simp: Let_def split: if_splits)
  qed
  then show "length rest \<le> length line" "token \<noteq> [] \<Longrightarrow> length rest < length line" by auto
qed

lemma getKeyValue_shorter:
  assumes "getKeyValue line = ((key, value), rest)" and "key \<noteq> []"
  shows "length rest < length line"
proof -
  obtain l1 o1 l2 where t: "getToken line = (fst (getToken line), l1)" "getToken l1 = (o1, l2)" by (metis prod.collapse)
  obtain v l3 x l4 where u: "getToken l2 = (v, l3)" "getToken l3 = (x, l4)" by (metis prod.collapse)
  have "fst (getToken line) = key" "rest = l2 \<or> rest = l4"
    using assms(1) t u by (auto simp: getKeyValue_def Let_def case_prod_unfold split: if_splits)
  moreover have "length l1 < length line" using getToken_shorter(2) [of line key l1] calculation(1) t(1) assms(2) by metis
  ultimately show ?thesis
    using getToken_shorter(1) [OF t(2)] getToken_shorter(1) [OF u(1)] getToken_shorter(1) [OF u(2)] by auto
qed

text \<open>The loop of \<open>addon.cpp\<close> over the parameters of a content disposition.\<close>

function allParameters :: "bytes \<Rightarrow> (bytes \<times> bytes) list" where
  "allParameters line =
     (case getKeyValue line of
        ((key, value), rest) \<Rightarrow> if key = [] then [] else (key, value) # allParameters rest)"
  by pat_completeness auto
termination by (relation "measure length") (auto dest: getKeyValue_shorter [OF sym])

declare allParameters.simps [simp del]

definition writeParameter :: "bytes \<times> bytes \<Rightarrow> bytes" where
  "writeParameter = (\<lambda>(k, v). [59, SP] @ k @ [61, 34] @ v @ [34])"

definition tokenOk :: "bytes \<Rightarrow> bool" where
  "tokenOk k \<longleftrightarrow> k \<noteq> [] \<and> hd k \<noteq> 34 \<and> list_all (\<lambda>b. b \<noteq> 59 \<and> b \<noteq> 61 \<and> \<not> isspace b) k"

lemma getToken_operator: "c = 59 \<or> c = 61 \<Longrightarrow> getToken (c # rest) = ([c], rest)"
  by (auto simp: getToken_def isspace_def)

lemma getToken_quoted: "34 \<notin> set v \<Longrightarrow> getToken (34 # v @ 34 # rest) = (v, rest)"
  by (simp add: getToken_def isspace_def takeWhile_neq_stop dropWhile_neq_stop)

lemma getToken_space: "isspace c \<Longrightarrow> getToken (c # line) = getToken line"
  by (simp add: getToken_def)

lemma getToken_token:
  assumes "tokenOk k" and "rest = [] \<or> hd rest = 59 \<or> hd rest = 61"
  shows "getToken (k @ rest) = (k, rest)"
proof -
  obtain c k' where k: "k = c # k'" using assms(1) by (cases k) (auto simp: tokenOk_def)
  define inside where "inside = (\<lambda>b :: byte. b \<noteq> 59 \<and> b \<noteq> 61 \<and> \<not> isspace b)"
  have all: "\<forall>b \<in> set k. inside b" using assms(1) by (simp add: tokenOk_def inside_def list_all_iff)
  have stop: "takeWhile inside rest = []" "dropWhile inside rest = rest"
    using assms(2) by (cases rest; auto simp: inside_def)+
  have "takeWhile inside (k @ rest) = k" "dropWhile inside (k @ rest) = rest"
    using all stop by (simp_all add: takeWhile_append2 dropWhile_append2)
  then show ?thesis
    using assms(1) all unfolding k getToken_def by (simp add: tokenOk_def Let_def inside_def)
qed

lemma parameters_roundtrip_rest:
  "list_all (\<lambda>(k, v). tokenOk k \<and> 34 \<notin> set v) ps \<Longrightarrow> allParameters (drop 1 (concat (map writeParameter ps))) = ps"
proof (induction ps)
  case Nil
  then show ?case by (subst allParameters.simps) (simp add: getKeyValue_def getToken_def)
next
  case (Cons p ps)
  obtain k v where p: "p = (k, v)" by (cases p)
  define rest where "rest = concat (map writeParameter ps)"
  have ok: "tokenOk k" "34 \<notin> set v" using Cons.prems by (simp_all add: p)
  have sp: "isspace SP" by (simp add: isspace_def)
  have tail: "\<exists>x. getToken rest = (x, drop 1 rest)"
  proof (cases ps)
    case Nil
    then show ?thesis by (simp add: rest_def getToken_def)
  next
    case (Cons q qs)
    then show ?thesis by (cases q) (simp add: rest_def writeParameter_def getToken_operator)
  qed
  have "getKeyValue (SP # k @ 61 # 34 # v @ 34 # rest) = ((k, v), drop 1 rest)"
    using tail by (auto simp: getKeyValue_def Let_def getToken_space [OF sp] getToken_token [OF ok(1)] getToken_operator getToken_quoted [OF ok(2)])
  moreover have "drop 1 (concat (map writeParameter (p # ps))) = SP # k @ 61 # 34 # v @ 34 # rest"
    by (simp add: p writeParameter_def rest_def)
  moreover have "k \<noteq> []" using ok(1) by (simp add: tokenOk_def)
  moreover have "allParameters (drop 1 rest) = ps" using Cons by (simp add: rest_def)
  ultimately show ?case by (subst allParameters.simps) (simp add: p)
qed

text \<open>A disposition with quoted parameters is read as its type, with no value, and its parameters in order.\<close>
theorem parameters_roundtrip:
  assumes "tokenOk type" and "list_all (\<lambda>(k, v). tokenOk k \<and> 34 \<notin> set v) ps"
  shows "allParameters (type @ concat (map writeParameter ps)) = (type, []) # ps"
proof -
  define rest where "rest = concat (map writeParameter ps)"
  have t: "getToken (type @ rest) = (type, rest)"
    by (rule getToken_token [OF assms(1)]) (cases ps; auto simp: rest_def writeParameter_def)
  have "getKeyValue (type @ rest) = ((type, []), drop 1 rest)"
  proof (cases ps)
    case Nil
    then show ?thesis using t by (simp add: getKeyValue_def rest_def getToken_def)
  next
    case (Cons q qs)
    then have "rest = 59 # drop 1 rest" by (cases q) (simp add: rest_def writeParameter_def)
    then have "getToken rest = ([59], drop 1 rest)" using getToken_operator [of 59] by metis
    then show ?thesis using t by (simp add: getKeyValue_def)
  qed
  moreover have "type \<noteq> []" using assms(1) by (simp add: tokenOk_def)
  ultimately show ?thesis using parameters_roundtrip_rest [OF assms(2)] by (subst allParameters.simps) (simp add: rest_def)
qed

lemma parameters_roundtrip_witness:
  "allParameters (ascii ''form-data'' @ concat (map writeParameter [(ascii ''name'', ascii ''a;b''), (ascii ''filename'', [])])) =
    [(ascii ''form-data'', []), (ascii ''name'', ascii ''a;b''), (ascii ''filename'', [])]"
  by (subst parameters_roundtrip) (simp_all add: tokenOk_def isspace_def)

end
