(* ===== verification/QueryParser.thy ===== *)
theory QueryParser
  imports StringView
begin

text \<open>
  Looking up and decoding a value of the query string: native/uwebsockets/QueryParser.h. The value is
  decoded in place in a scratch copy, \<open>unsigned int\<close> offsets cannot wrap for queries below 4 GB.
\<close>

section \<open>The program\<close>

definition decodeHex :: "byte \<Rightarrow> int" where
  "decodeHex c =
     (if 48 \<le> c \<and> c \<le> 57 then uint c - 48
      else if 65 \<le> c \<and> c \<le> 70 then uint c - 65 + 10
      else if 97 \<le> c \<and> c \<le> 102 then uint c - 97 + 10
      else - 1)"

text \<open>The loop over the scratch string: \<open>i\<close> reads, \<open>out\<close> writes.\<close>

function decodeLoop :: "bytes \<Rightarrow> nat \<Rightarrow> nat \<Rightarrow> bytes option" where
  "decodeLoop s i out =
     (if i < length s \<and> s ! i \<noteq> 0 then
        if s ! i = 37 then
          if i + 2 \<ge> length s then None
          else (let hex1 = decodeHex (s ! (i + 1)); hex2 = decodeHex (s ! (i + 2)) in
            if hex1 < 0 \<or> hex2 < 0 then None
            else decodeLoop (s[out := word_of_int (hex1 * 16 + hex2)]) (i + 3) (out + 1))
        else if s ! i = 43 then decodeLoop (s[out := 32]) (i + 1) (out + 1)
        else decodeLoop (s[out := s ! i]) (i + 1) (out + 1)
      else Some (take out s))"
  by pat_completeness auto
termination by (relation "measure (\<lambda>(s, i, out). length s - i)") auto

declare decodeLoop.simps [simp del]

text \<open>A null view, for nothing found and for a value that does not decode, is \<open>None\<close>.\<close>

function queryLoop :: "bytes \<Rightarrow> bytes \<Rightarrow> bytes option" where
  "queryLoop key q =
     (if q = [] then None
      else (let statement = (case findFrom 38 q 1 of Some e \<Rightarrow> take (e - 1) (drop 1 q) | None \<Rightarrow> drop 1 q);
                again = queryLoop key (drop (length statement + 1) q)
            in if statement \<noteq> [] \<and> statement ! 0 = key ! 0 then
              (case findFrom 61 statement 0 of
                 Some equality \<Rightarrow>
                   if key = take equality statement
                   then decodeLoop (drop (equality + 1) statement) 0 0
                   else again
               | None \<Rightarrow> again)
            else again))"
  by pat_completeness auto
termination by (relation "measure (\<lambda>(key, q). length q)") auto

declare queryLoop.simps [simp del]

definition getDecodedQueryValue :: "bytes \<Rightarrow> bytes \<Rightarrow> bytes option" where
  "getDecodedQueryValue key rawQuery = (if key = [] then None else queryLoop key rawQuery)"

section \<open>The reference\<close>

definition isHex :: "byte \<Rightarrow> bool" where
  "isHex c \<longleftrightarrow> 48 \<le> c \<and> c \<le> 57 \<or> 65 \<le> c \<and> c \<le> 70 \<or> 97 \<le> c \<and> c \<le> 102"

definition hexVal :: "byte \<Rightarrow> nat" where
  "hexVal c = (if c < 58 then unat c - 48 else if c < 71 then unat c - 55 else unat c - 87)"

text \<open>Percent decoding of a list, up to a NUL.\<close>

fun decodeSpec :: "bytes \<Rightarrow> bytes option" where
  "decodeSpec [] = Some []"
| "decodeSpec (c # cs) =
     (if c = 0 then Some []
      else if c = 37 then
        (case cs of
           h # l # rest \<Rightarrow>
             if isHex h \<and> isHex l then map_option ((#) (of_nat (16 * hexVal h + hexVal l))) (decodeSpec rest) else None
         | _ \<Rightarrow> None)
      else map_option ((#) (if c = 43 then 32 else c)) (decodeSpec cs))"

text \<open>The value of the first field with this key.\<close>

definition querySpec :: "bytes \<Rightarrow> bytes \<Rightarrow> bytes option" where
  "querySpec key q =
     (case List.find (\<lambda>f. takeWhile (\<lambda>b. b \<noteq> 61) f = key \<and> 61 \<in> set f) (splitOn 38 q) of
        Some f \<Rightarrow> decodeSpec (drop (length key + 1) f)
      | None \<Rightarrow> None)"

section \<open>Decoding\<close>

lemma decodeHex_isHex:
  shows "isHex c \<Longrightarrow> decodeHex c = int (hexVal c)" and "isHex c \<Longrightarrow> hexVal c < 16" and "\<not> isHex c \<Longrightarrow> decodeHex c < 0"
proof -
  have "uint c = int (unat c)" by simp
  note facts = this isHex_def decodeHex_def hexVal_def word_le_nat_alt word_less_nat_alt
  show "isHex c \<Longrightarrow> decodeHex c = int (hexVal c)" unfolding facts by (auto split: if_splits)
  show "isHex c \<Longrightarrow> hexVal c < 16" unfolding facts by auto
  show "\<not> isHex c \<Longrightarrow> decodeHex c < 0" unfolding facts by auto
qed

lemma map_option_Nil: "map_option ((@) []) x = x"
  by (cases x) simp_all

lemma map_option_snoc: "map_option ((@) (a @ [w])) x = map_option (\<lambda>y. a @ w # y) x"
  by (cases x) simp_all

lemma decode_step:
  "out \<le> i \<Longrightarrow> i < k \<Longrightarrow> drop k (s[out := w]) = drop k s" "out < length s \<Longrightarrow> take (out + 1) (s[out := w]) = take out s @ [w]"
  by (simp_all add: take_Suc_conv_app_nth)

lemma decodeLoop_spec: "out \<le> i \<Longrightarrow> decodeLoop s i out = map_option ((@) (take out s)) (decodeSpec (drop i s))"
proof (induction s i out rule: decodeLoop.induct)
  case (1 s i out)
  show ?case
  proof (cases "i < length s \<and> s ! i \<noteq> 0")
    case False
    then have "decodeSpec (drop i s) = Some []" by (cases "i < length s") (simp_all flip: Cons_nth_drop_Suc)
    then show ?thesis using False by (subst decodeLoop.simps) auto
  next
    case True
    then have out: "out < length s" using 1(4) by simp
    have d: "drop i s = s ! i # drop (Suc i) s" using True by (simp add: Cons_nth_drop_Suc)
    consider (hex) "s ! i = 37" "i + 2 < length s" | (short) "s ! i = 37" "length s \<le> i + 2" | (char) "s ! i \<noteq> 37" by linarith
    then show ?thesis
    proof cases
      case hex
      define h l where "h = s ! Suc i" and "l = s ! Suc (Suc i)"
      have d': "drop (Suc i) s = h # l # drop (i + 3) s"
        using hex by (simp add: h_def l_def Cons_nth_drop_Suc numeral_3_eq_3)
      show ?thesis
      proof (cases "isHex h \<and> isHex l")
        case True2: True
        then have e: "decodeHex h = int (hexVal h)" "decodeHex l = int (hexVal l)" by (simp_all add: decodeHex_isHex)
        have w: "word_of_int (int (hexVal h) * 16 + int (hexVal l)) = (of_nat (16 * hexVal h + hexVal l) :: byte)" by (simp add: mult.commute)
        have step: "decodeLoop s i out = decodeLoop (s[out := word_of_int (decodeHex h * 16 + decodeHex l)]) (i + 3) (out + 1)"
          using True hex e by (subst decodeLoop.simps) (simp add: Let_def flip: h_def l_def)
        also have "\<dots> = map_option ((@) (take (out + 1) (s[out := word_of_int (decodeHex h * 16 + decodeHex l)])))
            (decodeSpec (drop (i + 3) (s[out := word_of_int (decodeHex h * 16 + decodeHex l)])))"
          using 1(1) [of "decodeHex h" "decodeHex l"] True hex e 1(4) by (simp add: h_def l_def)
        finally show ?thesis
          unfolding decode_step(1) [OF 1(4), of "i + 3", simplified] decode_step(2) [OF out] e w d d'
          using True hex True2 by (simp add: option.map_comp comp_def map_option_snoc)
      next
        case no: False
        then have "decodeHex h < 0 \<or> decodeHex l < 0" using decodeHex_isHex(3) by blast
        then have "decodeLoop s i out = None"
          using True hex by (subst decodeLoop.simps) (simp add: Let_def flip: h_def l_def)
        then show ?thesis unfolding d d' using True hex no by auto
      qed
    next
      case short
      then have "decodeLoop s i out = None" using True by (subst decodeLoop.simps) simp
      moreover have "\<exists>c. drop (Suc i) s = [] \<or> drop (Suc i) s = [c]"
      proof -
        have "length (drop (Suc i) s) \<le> 1" using short by simp
        then show ?thesis by (cases "drop (Suc i) s") auto
      qed
      ultimately show ?thesis unfolding d using True short by auto
    next
      case char
      define w where "w = (if s ! i = 43 then 32 else s ! i)"
      have "decodeLoop s i out = decodeLoop (s[out := w]) (i + 1) (out + 1)"
        using True char by (subst decodeLoop.simps) (simp add: w_def)
      also have "\<dots> = map_option ((@) (take (out + 1) (s[out := w]))) (decodeSpec (drop (i + 1) (s[out := w])))"
        using 1(2,3) True char 1(4) by (simp add: w_def split: if_splits)
      finally show ?thesis
        unfolding decode_step(2) [OF out] d
        using True char decode_step(1) [OF 1(4), of "Suc i" s w] by (simp add: option.map_comp comp_def map_option_snoc w_def)
    qed
  qed
qed

section \<open>Looking up\<close>

lemma queryLoop_spec:
  assumes "key \<noteq> []"
  shows "queryLoop key q = querySpec key (drop 1 q)"
proof (induction "length q" arbitrary: q rule: less_induct)
  case less
  show ?case
  proof (cases q)
    case Nil
    then show ?thesis using assms by (simp add: queryLoop.simps querySpec_def)
  next
    case (Cons x r)
    have ne: "q \<noteq> []" by (simp add: Cons)
    have d1: "drop 1 (y # z) = z" and d2: "drop (length p + 1) (x # p @ z) = z" for y z and p :: bytes by simp_all
    obtain f rest where f: "38 \<notin> set f" and sp: "splitOn 38 r = f # (case rest of None \<Rightarrow> [] | Some t \<Rightarrow> splitOn 38 t)"
      and st: "(case findFrom 38 q 1 of Some e \<Rightarrow> take (e - 1) (drop 1 q) | None \<Rightarrow> drop 1 q) = f"
      and rest: "drop (length f + 1) q = (case rest of None \<Rightarrow> [] | Some t \<Rightarrow> 38 # t)"
    proof (cases r rule: findFrom_cases [of 38])
      case none
      then show thesis using that [of r None] by (simp add: Cons findFrom_1 splitOn_none d1 d2 del: One_nat_def)
    next
      case (some p t)
      then show thesis using that [of p "Some t"] by (simp add: Cons findFrom_1 splitOn_part d1 d2 del: One_nat_def)
    qed
    have again: "queryLoop key (drop (length f + 1) q) = (case rest of None \<Rightarrow> None | Some t \<Rightarrow> querySpec key t)"
    proof (cases rest)
      case None
      then show ?thesis unfolding rest by (simp add: queryLoop.simps)
    next
      case (Some t)
      have "length (drop (length f + 1) q) < length q" by (simp add: Cons)
      from less [OF this] show ?thesis unfolding rest Some by simp
    qed
    define hit where "hit \<longleftrightarrow> takeWhile (\<lambda>b. b \<noteq> 61) f = key \<and> 61 \<in> set f"
    have spec: "querySpec key r = (if hit then decodeSpec (drop (length key + 1) f)
        else (case rest of None \<Rightarrow> None | Some t \<Rightarrow> querySpec key t))"
      by (simp add: querySpec_def sp hit_def split: option.split)
    have "queryLoop key q = (if f \<noteq> [] \<and> f ! 0 = key ! 0 then
        (case findFrom 61 f 0 of Some e \<Rightarrow> if key = take e f then decodeLoop (drop (e + 1) f) 0 0 else queryLoop key (drop (length f + 1) q)
         | None \<Rightarrow> queryLoop key (drop (length f + 1) q)) else queryLoop key (drop (length f + 1) q))"
      by (subst queryLoop.simps) (simp only: st Let_def ne if_False)
    also have "\<dots> = (if hit then decodeSpec (drop (length key + 1) f) else queryLoop key (drop (length f + 1) q))"
    proof (cases f rule: findFrom_cases [of 61])
      case none
      then show ?thesis by (simp add: hit_def)
    next
      case (some p v)
      have hit: "hit \<longleftrightarrow> p = key" using some by (simp add: hit_def takeWhile_neq_stop)
      have "f \<noteq> [] \<and> f ! 0 = key ! 0" if "p = key"
        using that assms some(1) by (cases key) auto
      then show ?thesis using some hit by (auto simp: decodeLoop_spec map_option_Nil)
    qed
    finally show ?thesis using again spec by (simp add: Cons)
  qed
qed

text \<open>For every query string and key, the lookup is the reference: the first field whose text before its first \<open>=\<close> is the key, percent-decoded up to a NUL, and null when there is none or it does not decode.\<close>
theorem getDecodedQueryValue_spec:
  "getDecodedQueryValue key q = (if key = [] then None else querySpec key (drop 1 q))"
  by (simp add: getDecodedQueryValue_def queryLoop_spec)

text \<open>Of two fields with the key, the first is decoded; a broken escape in it gives null.\<close>
lemma getDecodedQueryValue_spec_witness:
  "getDecodedQueryValue (ascii ''b'') (ascii ''?a=1&b=x%2By+z&b=2'') = Some (ascii ''x+y z'') \<and>
   getDecodedQueryValue (ascii ''b'') (ascii ''?b=%2&b=2'') = None"
proof -
  have "List.find (\<lambda>f. takeWhile (\<lambda>b. b \<noteq> 61) f = ascii ''b'' \<and> 61 \<in> set f) (splitOn 38 (ascii ''a=1&b=x%2By+z&b=2'')) =
      Some (ascii ''b=x%2By+z'')"
    "List.find (\<lambda>f. takeWhile (\<lambda>b. b \<noteq> 61) f = ascii ''b'' \<and> 61 \<in> set f) (splitOn 38 (ascii ''b=%2&b=2'')) =
      Some (ascii ''b=%2'')"
    by simp_all
  then show ?thesis
    unfolding getDecodedQueryValue_spec by (simp add: querySpec_def isHex_def hexVal_def)
qed

end
