(* ===== verification/SniTree.thy ===== *)
theory SniTree
  imports Prelude "HOL-Library.Multiset"
begin

text \<open>
  The tree of server names of \<open>sni_tree.cpp\<close>: one level per label of a host name, where the label \<open>*\<close>
  stands for any label. The contexts kept in it are of any type; a null pointer is \<open>None\<close>. The children
  of a node are the pairs of a \<open>std::map\<close> in the order of its keys.
\<close>

section \<open>The tree and its operations\<close>

definition MAX_LABELS :: nat where "MAX_LABELS = 10"

datatype 'u sni_node = SniNode (sniUser: "'u option") (sniChildren: "(bytes \<times> 'u sni_node) list")

definition sni_new :: "'u sni_node" where
  "sni_new = SniNode None []"

text \<open>Finding, replacing and erasing an entry of the map.\<close>

definition setChild :: "bytes \<Rightarrow> 'c \<Rightarrow> (bytes \<times> 'c) list \<Rightarrow> (bytes \<times> 'c) list" where
  "setChild l c cs = map (\<lambda>(k, d). (k, if k = l then c else d)) cs"

definition eraseChild :: "bytes \<Rightarrow> (bytes \<times> 'c) list \<Rightarrow> (bytes \<times> 'c) list" where
  "eraseChild l cs = filter (\<lambda>e. fst e \<noteq> l) cs"

fun keyLess :: "bytes \<Rightarrow> bytes \<Rightarrow> bool" where
  "keyLess [] ys \<longleftrightarrow> ys \<noteq> []"
| "keyLess (x # xs) [] \<longleftrightarrow> False"
| "keyLess (x # xs) (y # ys) \<longleftrightarrow> x < y \<or> x = y \<and> keyLess xs ys"

fun emplaceChild :: "bytes \<Rightarrow> 'c \<Rightarrow> (bytes \<times> 'c) list \<Rightarrow> (bytes \<times> 'c) list" where
  "emplaceChild l c [] = [(l, c)]"
| "emplaceChild l c (e # es) = (if keyLess l (fst e) then (l, c) # e # es else e # emplaceChild l c es)"

text \<open>The labels of a host name, \<open>None\<close> when there are more than \<open>MAX_LABELS\<close>.\<close>

function sniLabels :: "nat \<Rightarrow> bytes \<Rightarrow> bytes list option" where
  "sniLabels numLabels view =
     (if view = [] then Some []
      else let label = takeWhile (\<lambda>b. b \<noteq> 46) view in
        if numLabels = MAX_LABELS then None
        else map_option (Cons label)
               (sniLabels (numLabels + 1) (drop (min (length view) (length label + 1)) view)))"
  by pat_completeness auto
termination
  by (relation "measure (\<lambda>(n, view). length view)") auto

declare sniLabels.simps [simp del]

fun removeUser :: "bytes list \<Rightarrow> 'u sni_node \<Rightarrow> 'u option \<times> 'u sni_node" where
  "removeUser [] root = (sniUser root, SniNode None (sniChildren root))"
| "removeUser (label # labels) root =
     (case map_of (sniChildren root) label of
        None \<Rightarrow> (None, root)
      | Some child \<Rightarrow>
          (let (removedUser, child') = removeUser labels child
           in (removedUser, SniNode (sniUser root)
                (if sniChildren child' = [] \<and> sniUser child' = None then eraseChild label (sniChildren root)
                 else setChild label child' (sniChildren root)))))"

definition wildcard :: bytes where "wildcard = ascii ''*''"

fun getUser :: "bytes list \<Rightarrow> 'u sni_node \<Rightarrow> 'u option" where
  "getUser [] root = sniUser root"
| "getUser (label # labels) root =
     (let byWildcard = (case map_of (sniChildren root) wildcard of None \<Rightarrow> None
                        | Some child \<Rightarrow> getUser labels child)
      in case map_of (sniChildren root) label of
           None \<Rightarrow> byWildcard
         | Some child \<Rightarrow> (case getUser labels child of None \<Rightarrow> byWildcard | Some user \<Rightarrow> Some user))"

text \<open>The walk down of \<open>sni_add\<close>; the boolean is its result 1.\<close>

fun addUser :: "bytes list \<Rightarrow> 'u \<Rightarrow> 'u sni_node \<Rightarrow> bool \<times> 'u sni_node" where
  "addUser [] user root =
     (if sniUser root \<noteq> None then (True, root) else (False, SniNode (Some user) (sniChildren root)))"
| "addUser (label # labels) user root =
     (case map_of (sniChildren root) label of
        None \<Rightarrow> (let (r, child) = addUser labels user (SniNode None [])
                 in (r, SniNode (sniUser root) (emplaceChild label child (sniChildren root))))
      | Some child \<Rightarrow> (let (r, child') = addUser labels user child
                       in (r, SniNode (sniUser root) (setChild label child' (sniChildren root)))))"

definition sni_add :: "bytes \<Rightarrow> 'u \<Rightarrow> 'u sni_node \<Rightarrow> bool \<times> 'u sni_node" where
  "sni_add hostname user sni = (case sniLabels 0 hostname of
     None \<Rightarrow> (True, sni) | Some labels \<Rightarrow> addUser labels user sni)"

definition sni_remove :: "bytes \<Rightarrow> 'u sni_node \<Rightarrow> 'u option \<times> 'u sni_node" where
  "sni_remove hostname sni = (case sniLabels 0 hostname of
     None \<Rightarrow> (None, sni) | Some labels \<Rightarrow> removeUser labels sni)"

definition sni_find :: "bytes \<Rightarrow> 'u sni_node \<Rightarrow> 'u option" where
  "sni_find hostname sni = (case sniLabels 0 hostname of
     None \<Rightarrow> None | Some labels \<Rightarrow> getUser labels sni)"

text \<open>The calls of the destructor, in their order: first the users of the children, then their trees.\<close>

fun sni_free :: "'u sni_node \<Rightarrow> 'u list" where
  "sni_free (SniNode user cs) =
     concat (map (\<lambda>e. case sniUser (snd e) of None \<Rightarrow> [] | Some u \<Rightarrow> [u]) cs) @
     concat (map (\<lambda>e. sni_free (snd e)) cs)"

section \<open>The tree as a map of names\<close>

text \<open>What is stored under exactly these labels.\<close>

fun sniNames :: "'u sni_node \<Rightarrow> bytes list \<Rightarrow> 'u option" where
  "sniNames t [] = sniUser t"
| "sniNames t (l # ls) = (case map_of (sniChildren t) l of None \<Rightarrow> None | Some c \<Rightarrow> sniNames c ls)"

text \<open>Keys occur once, and no node but the root is empty.\<close>

fun sniOk :: "'u sni_node \<Rightarrow> bool" where
  "sniOk (SniNode u cs) \<longleftrightarrow> distinct (map fst cs) \<and>
     (\<forall>e \<in> set cs. sniOk (snd e) \<and> (sniUser (snd e) \<noteq> None \<or> sniChildren (snd e) \<noteq> []))"

lemma keyLess_irrefl [simp]: "\<not> keyLess l l"
  by (induction l) auto

lemma map_of_setChild [simp]:
  "map_of (setChild l c cs) k = (if k = l \<and> map_of cs l \<noteq> None then Some c else map_of cs k)"
  by (induction cs) (auto simp: setChild_def)

lemma keys_setChild [simp]: "map fst (setChild l c cs) = map fst cs"
  by (auto simp: setChild_def)

lemma map_of_eraseChild [simp]: "map_of (eraseChild l cs) k = (if k = l then None else map_of cs k)"
  by (induction cs) (auto simp: eraseChild_def)

lemma map_of_emplaceChild:
  "map_of cs l = None \<Longrightarrow> map_of (emplaceChild l c cs) k = (if k = l then Some c else map_of cs k)"
  by (induction cs) (auto split: if_splits)

lemma set_emplaceChild: "set (emplaceChild l c cs) = insert (l, c) (set cs)"
  by (induction cs) auto

lemma keys_emplaceChild: "distinct (map fst cs) \<Longrightarrow> map_of cs l = None \<Longrightarrow> distinct (map fst (emplaceChild l c cs))"
  by (induction cs) (auto simp: set_emplaceChild map_of_eq_None_iff split: if_splits)

lemma keys_eraseChild: "distinct (map fst cs) \<Longrightarrow> distinct (map fst (eraseChild l cs))"
  by (simp add: eraseChild_def distinct_map_filter)

lemma set_setChild: "e \<in> set (setChild l c cs) \<Longrightarrow> e \<in> set cs \<or> e = (l, c)"
proof (cases e)
  case (Pair a b)
  then show "e \<in> set (setChild l c cs) \<Longrightarrow> e \<in> set cs \<or> e = (l, c)"
    by (cases "a = l") (auto simp: setChild_def)
qed

lemma sniOk_child: "sniOk t \<Longrightarrow> map_of (sniChildren t) l = Some c \<Longrightarrow> sniOk c"
  by (cases t) (auto dest: map_of_SomeD)

lemma addUser_names:
  "addUser ls u t = (r, t') \<Longrightarrow>
     (r \<longleftrightarrow> sniNames t ls \<noteq> None) \<and>
     sniNames t' ks = (if \<not> r \<and> ks = ls then Some u else sniNames t ks)"
proof (induction ls arbitrary: t r t' ks)
  case Nil
  then show ?case by (cases ks) (auto split: if_splits)
next
  case (Cons l ls)
  have new: "sniNames (SniNode None []) ms = None" for ms :: "bytes list" by (cases ms) simp_all
  show ?case
  proof (cases "map_of (sniChildren t) l")
    case None
    obtain c where c: "addUser ls u (SniNode None []) = (r, c)" "t' = SniNode (sniUser t) (emplaceChild l c (sniChildren t))"
      using Cons.prems None by (auto split: prod.splits)
    have n: "\<not> r \<and> sniNames c ms = (if ms = ls then Some u else None)" for ms
      using Cons.IH [OF c(1), of ms] by (auto simp: new)
    show ?thesis
      by (cases ks) (use c(2) n None in \<open>auto simp: map_of_emplaceChild [OF None]\<close>)
  next
    case (Some d)
    obtain c where c: "addUser ls u d = (r, c)" "t' = SniNode (sniUser t) (setChild l c (sniChildren t))"
      using Cons.prems Some by (auto split: prod.splits)
    have n: "(r \<longleftrightarrow> sniNames d ls \<noteq> None) \<and> sniNames c ms = (if \<not> r \<and> ms = ls then Some u else sniNames d ms)" for ms
      using Cons.IH [OF c(1), of ms] .
    show ?thesis
      by (cases ks) (use c(2) n Some in \<open>auto\<close>)
  qed
qed

lemma removeUser_names:
  "removeUser ls t = (r, t') \<Longrightarrow>
     r = sniNames t ls \<and> sniNames t' ks = (if ks = ls then None else sniNames t ks)"
proof (induction ls arbitrary: t r t' ks)
  case Nil
  then show ?case by (cases ks) auto
next
  case (Cons l ls)
  show ?case
  proof (cases "map_of (sniChildren t) l")
    case None
    with Cons.prems show ?thesis by (cases ks) auto
  next
    case (Some d)
    obtain c where c: "removeUser ls d = (r, c)" "t' = SniNode (sniUser t)
        (if sniChildren c = [] \<and> sniUser c = None then eraseChild l (sniChildren t) else setChild l c (sniChildren t))"
      using Cons.prems Some by (auto split: prod.splits)
    have n: "r = sniNames d ls \<and> sniNames c ms = (if ms = ls then None else sniNames d ms)" for ms
      using Cons.IH [OF c(1), of ms] .
    have empty: "sniNames c ms = None" if "sniChildren c = []" "sniUser c = None" for ms
      using that by (cases ms) simp_all
    show ?thesis
    proof (cases ks)
      case Nil
      then show ?thesis using c(2) n Some by simp
    next
      case (Cons k ks')
      then show ?thesis using c(2) n [of ks'] Some empty [of ks'] by (auto split: if_splits)
    qed
  qed
qed

lemma addUser_ok: "sniOk t \<Longrightarrow> addUser ls u t = (r, t') \<Longrightarrow>
    sniOk t' \<and> (sniUser t' \<noteq> None \<or> sniChildren t' \<noteq> [])"
proof (induction ls arbitrary: t r t')
  case Nil
  then show ?case by (cases t) (auto split: if_splits)
next
  case (Cons l ls)
  obtain v cs where t: "t = SniNode v cs" by (cases t)
  show ?case
  proof (cases "map_of cs l")
    case None
    obtain c where c: "addUser ls u (SniNode None []) = (r, c)" "t' = SniNode v (emplaceChild l c cs)"
      using Cons.prems None t by (auto split: prod.splits)
    have "sniOk c \<and> (sniUser c \<noteq> None \<or> sniChildren c \<noteq> [])" using Cons.IH [OF _ c(1)] by simp
    moreover have "emplaceChild l c cs \<noteq> []" by (cases cs) auto
    ultimately show ?thesis
      using Cons.prems(1) c(2) t None by (auto simp: set_emplaceChild keys_emplaceChild)
  next
    case (Some d)
    obtain c where c: "addUser ls u d = (r, c)" "t' = SniNode v (setChild l c cs)"
      using Cons.prems Some t by (auto split: prod.splits)
    have "sniOk d" using sniOk_child [OF Cons.prems(1), of l d] Some t by simp
    then have "sniOk c \<and> (sniUser c \<noteq> None \<or> sniChildren c \<noteq> [])" using Cons.IH [OF _ c(1)] by simp
    moreover have "setChild l c cs \<noteq> []" using Some by (cases cs) (auto simp: setChild_def)
    ultimately show ?thesis
      using Cons.prems(1) c(2) t by (auto dest!: set_setChild)
  qed
qed

lemma removeUser_ok: "sniOk t \<Longrightarrow> removeUser ls t = (r, t') \<Longrightarrow> sniOk t'"
proof (induction ls arbitrary: t r t')
  case Nil
  then show ?case by (cases t) auto
next
  case (Cons l ls)
  obtain v cs where t: "t = SniNode v cs" by (cases t)
  show ?case
  proof (cases "map_of cs l")
    case None
    then have "t' = t" using Cons.prems t by simp
    then show ?thesis using Cons.prems(1) by simp
  next
    case (Some d)
    obtain c where c: "removeUser ls d = (r, c)" "t' = SniNode v
        (if sniChildren c = [] \<and> sniUser c = None then eraseChild l cs else setChild l c cs)"
      using Cons.prems Some t by (auto split: prod.splits)
    have "sniOk d" using sniOk_child [OF Cons.prems(1), of l d] Some t by simp
    then have "sniOk c" using Cons.IH [OF _ c(1)] by simp
    then show ?thesis
      using Cons.prems(1) c(2) t keys_eraseChild [of cs l] by (auto dest!: set_setChild simp: eraseChild_def)
  qed
qed

section \<open>What the tree answers\<close>

text \<open>
  The names that match labels, the ones with the literal label of a level before the ones with the
  wildcard: the name found is the first that is stored.
\<close>

fun sniPatterns :: "bytes list \<Rightarrow> bytes list list" where
  "sniPatterns [] = [[]]"
| "sniPatterns (l # ls) = map (Cons l) (sniPatterns ls) @ map (Cons wildcard) (sniPatterns ls)"

fun firstStored :: "(bytes list \<Rightarrow> 'u option) \<Rightarrow> bytes list list \<Rightarrow> 'u option" where
  "firstStored m [] = None"
| "firstStored m (p # ps) = (case m p of None \<Rightarrow> firstStored m ps | Some u \<Rightarrow> Some u)"

lemma firstStored_append:
  "firstStored m (ps @ qs) = (case firstStored m ps of None \<Rightarrow> firstStored m qs | Some u \<Rightarrow> Some u)"
  by (induction ps) (auto split: option.splits)

lemma firstStored_map: "firstStored m (map f ps) = firstStored (\<lambda>p. m (f p)) ps"
  by (induction ps) (auto split: option.splits)

lemma firstStored_none: "firstStored (\<lambda>_. None) ps = None"
  by (induction ps) simp_all

lemma getUser_spec: "getUser ls t = firstStored (sniNames t) (sniPatterns ls)"
proof (induction ls arbitrary: t)
  case Nil
  then show ?case by (simp split: option.splits)
next
  case (Cons l ls)
  let ?by = "\<lambda>k. case map_of (sniChildren t) k of None \<Rightarrow> None | Some c \<Rightarrow> getUser ls c"
  have eq: "?by k = firstStored (\<lambda>p. sniNames t (k # p)) (sniPatterns ls)" for k
    by (cases "map_of (sniChildren t) k") (simp_all add: Cons.IH firstStored_none)
  have "getUser (l # ls) t = (case ?by l of None \<Rightarrow> ?by wildcard | Some u \<Rightarrow> Some u)"
    by (cases "map_of (sniChildren t) l") (simp_all add: Let_def)
  moreover have "firstStored (sniNames t) (sniPatterns (l # ls)) =
      (case firstStored (\<lambda>p. sniNames t (l # p)) (sniPatterns ls) of
         None \<Rightarrow> firstStored (\<lambda>p. sniNames t (wildcard # p)) (sniPatterns ls) | Some u \<Rightarrow> Some u)"
    by (simp only: sniPatterns.simps firstStored_append firstStored_map)
  ultimately show ?case unfolding eq by (rule trans [OF _ sym])
qed

text \<open>Host names: the parts between dots, without a last empty one, at most ten of them.\<close>

fun hostLabels :: "bytes \<Rightarrow> bytes list" where
  "hostLabels [] = []"
| "hostLabels (b # bs) =
     (if b = 46 then [] # hostLabels bs
      else case bs of [] \<Rightarrow> [[b]]
           | c # cs \<Rightarrow> if c = 46 then [b] # hostLabels cs
                      else (case hostLabels bs of [] \<Rightarrow> [[b]] | l # ls \<Rightarrow> (b # l) # ls))"

lemma hostLabels_take:
  "view \<noteq> [] \<Longrightarrow> hostLabels view =
     takeWhile (\<lambda>b. b \<noteq> 46) view # hostLabels (drop (length (takeWhile (\<lambda>b. b \<noteq> 46) view) + 1) view)"
proof (induction view rule: hostLabels.induct)
  case (2 b bs)
  then show ?case by (cases bs) (auto split: list.splits)
qed simp

lemma sniLabels_spec:
  "n \<le> MAX_LABELS \<Longrightarrow> sniLabels n view =
     (if n + length (hostLabels view) \<le> MAX_LABELS then Some (hostLabels view) else None)"
proof (induction n view rule: sniLabels.induct)
  case (1 n view)
  show ?case
  proof (cases "view = []")
    case True
    then show ?thesis using 1(2) by (subst sniLabels.simps) simp
  next
    case False
    let ?l = "takeWhile (\<lambda>b. b \<noteq> 46) view"
    have drop: "drop (min (length view) (length ?l + 1)) view = drop (length ?l + 1) view"
      by (cases "length view \<le> length ?l + 1") simp_all
    show ?thesis
    proof (cases "n = MAX_LABELS")
      case True
      then show ?thesis using False hostLabels_take [OF False] by (subst sniLabels.simps) (simp add: Let_def)
    next
      case n: False
      then have "n + 1 \<le> MAX_LABELS" using 1(2) by simp
      from 1(1) [OF False refl n this] show ?thesis
        using False n hostLabels_take [OF False]
        by (subst sniLabels.simps) (simp add: Let_def drop [simplified])
    qed
  qed
qed

text \<open>C40. The tree of server names is a map from names to contexts: adding a name that is not there stores
  it, anything else leaves the tree with the same names and returns 1; removing returns and deletes
  exactly that name, with no regard to wildcards; every operation keeps the tree without empty nodes;
  and a lookup gives the first stored name among those that match, trying at every level the label itself
  before the wildcard. Names of more than ten labels are refused by all three.\<close>
theorem sni_tree_is_a_map:
  assumes "sniOk t"
  shows "(length (hostLabels h) \<le> MAX_LABELS \<and> sniNames t (hostLabels h) = None \<longrightarrow>
       (case sni_add h u t of (r, t') \<Rightarrow> \<not> r \<and> sniOk t' \<and> sniNames t' = (sniNames t)(hostLabels h \<mapsto> u))) \<and>
     (\<not> (length (hostLabels h) \<le> MAX_LABELS \<and> sniNames t (hostLabels h) = None) \<longrightarrow>
       (case sni_add h u t of (r, t') \<Rightarrow> r \<and> sniOk t' \<and> sniNames t' = sniNames t)) \<and>
     (case sni_remove h t of (r, t') \<Rightarrow> sniOk t' \<and>
        (if length (hostLabels h) \<le> MAX_LABELS
         then r = sniNames t (hostLabels h) \<and> sniNames t' = (sniNames t)(hostLabels h := None)
         else r = None \<and> t' = t)) \<and>
     sni_find h t = (if length (hostLabels h) \<le> MAX_LABELS
                     then firstStored (sniNames t) (sniPatterns (hostLabels h)) else None)"
proof -
  have lab: "sniLabels 0 h = (if length (hostLabels h) \<le> MAX_LABELS then Some (hostLabels h) else None)"
    using sniLabels_spec [of 0 h] by simp
  obtain r t1 where a: "addUser (hostLabels h) u t = (r, t1)" by fastforce
  obtain q t2 where d: "removeUser (hostLabels h) t = (q, t2)" by fastforce
  have "sniOk t1" using addUser_ok [OF assms a] by blast
  moreover have "r \<longleftrightarrow> sniNames t (hostLabels h) \<noteq> None" using addUser_names [OF a] by blast
  moreover have "sniNames t1 = (if r then sniNames t else (sniNames t)(hostLabels h \<mapsto> u))"
    using addUser_names [OF a] by (auto simp: fun_eq_iff)
  moreover have "sniOk t2" using removeUser_ok [OF assms d] .
  moreover have "q = sniNames t (hostLabels h)" using removeUser_names [OF d] by blast
  moreover have "sniNames t2 = (sniNames t)(hostLabels h := None)"
    using removeUser_names [OF d] by (auto simp: fun_eq_iff)
  ultimately show ?thesis
    using assms a d getUser_spec [of "hostLabels h" t]
    by (auto simp: sni_add_def sni_remove_def sni_find_def lab)
qed

definition sniExample :: "nat sni_node" where
  "sniExample = snd (sni_add (ascii ''*.b'') 1 (snd (sni_add (ascii ''a.b'') 2 sni_new)))"

lemma sni_tree_is_a_map_witness:
  "sni_find (ascii ''c.b'') sniExample = firstStored (sniNames sniExample) (sniPatterns (hostLabels (ascii ''c.b''))) \<and>
   sni_find (ascii ''c.b'') sniExample = Some 1"
proof -
  have ok: "sniOk sniExample" by code_simp
  have len: "length (hostLabels (ascii ''c.b'')) \<le> MAX_LABELS" by code_simp
  have "sni_find (ascii ''c.b'') sniExample = Some 1" by code_simp
  with sni_tree_is_a_map [OF ok, of "ascii ''c.b''" 0] len show ?thesis by simp
qed

section \<open>Freeing\<close>

fun sniEntries :: "'u sni_node \<Rightarrow> (bytes list \<times> 'u) list" where
  "sniEntries (SniNode u cs) =
     concat (map (\<lambda>e. (case sniUser (snd e) of None \<Rightarrow> [] | Some x \<Rightarrow> [([fst e], x)]) @
                      map (\<lambda>p. (fst e # fst p, snd p)) (sniEntries (snd e))) cs)"

lemma sniEntries_nonempty: "([], x) \<notin> set (sniEntries t)"
  by (cases t) (auto split: option.splits)

lemma sniEntries_names:
  "sniOk t \<Longrightarrow> (ls, x) \<in> set (sniEntries t) \<longleftrightarrow> ls \<noteq> [] \<and> sniNames t ls = Some x"
proof (induction t arbitrary: ls)
  case (SniNode u cs)
  have d: "distinct (map fst cs)" using SniNode.prems by simp
  have child: "(ms, x) \<in> set (sniEntries c) \<longleftrightarrow> ms \<noteq> [] \<and> sniNames c ms = Some x" if "(k, c) \<in> set cs" for k c ms
    using SniNode.IH [OF that] SniNode.prems that by auto
  show ?case
  proof (cases ls)
    case Nil
    then show ?thesis using sniEntries_nonempty [of x "SniNode u cs"] by simp
  next
    case (Cons l ms)
    have "(l # ms, x) \<in> set (sniEntries (SniNode u cs)) \<longleftrightarrow>
        (\<exists>c. (l, c) \<in> set cs \<and> (ms = [] \<and> sniUser c = Some x \<or> (ms, x) \<in> set (sniEntries c)))"
      by (force split: option.splits)
    also have "\<dots> \<longleftrightarrow> (\<exists>c. (l, c) \<in> set cs \<and> sniNames c ms = Some x)"
      using child by (cases ms) (auto simp: sniEntries_nonempty)
    also have "\<dots> \<longleftrightarrow> sniNames (SniNode u cs) (l # ms) = Some x"
      using d by (auto split: option.splits dest: map_of_SomeD) (metis map_of_is_SomeI not_None_eq option.inject)+
    finally show ?thesis using Cons by simp
  qed
qed

lemma sni_free_entries: "mset (sni_free t) = mset (map snd (sniEntries t))"
proof (induction t)
  case (SniNode u cs)
  have "mset (sni_free (SniNode u es)) = mset (map snd (sniEntries (SniNode u es)))" if "set es \<subseteq> set cs" for es
    using that
  proof (induction es)
    case (Cons e es)
    obtain k c where e: "e = (k, c)" by fastforce
    then have "mset (sni_free c) = mset (map snd (sniEntries c))" using SniNode.IH [of e c] Cons.prems by auto
    then show ?case using Cons by (simp add: e o_def split: option.splits)
  qed simp
  then show ?case by simp
qed

lemma sniEntries_distinct: "sniOk t \<Longrightarrow> distinct (map fst (sniEntries t))"
proof (induction t)
  case (SniNode u cs)
  have "distinct (map fst (sniEntries (SniNode u es)))" if "set es \<subseteq> set cs" "distinct (map fst es)" for es
    using that
  proof (induction es)
    case (Cons e es)
    obtain k c where e: "e = (k, c)" by fastforce
    have c: "distinct (map fst (sniEntries c))" using SniNode.IH [of e c] SniNode.prems Cons.prems(1) e by auto
    let ?A = "(case sniUser c of None \<Rightarrow> [] | Some x \<Rightarrow> [([k], x)]) @
        map (\<lambda>p. (k # fst p, snd p)) (sniEntries c)"
    let ?B = "sniEntries (SniNode u es)"
    have own: "distinct (map fst ?A)"
    proof -
      have "[k] \<notin> (Cons k \<circ> fst) ` set (sniEntries c)" using sniEntries_nonempty [of _ c] by force
      moreover have "distinct (map (Cons k) (map fst (sniEntries c)))"
        using c by (subst distinct_map) (simp add: inj_on_def del: map_map)
      ultimately show ?thesis by (auto simp: o_def split: option.splits)
    qed
    have disjoint: "set (map fst ?A) \<inter> set (map fst ?B) = {}"
    proof (rule equals0I)
      fix ls assume ls: "ls \<in> set (map fst ?A) \<inter> set (map fst ?B)"
      from ls have "ls \<in> set (map fst ?A)" by (rule IntD1)
      then have "hd ls = k" by (auto split: option.splits)
      moreover from ls have "ls \<in> set (map fst ?B)" by (rule IntD2)
      then have "hd ls \<in> set (map fst es)" by (force split: option.splits)
      moreover have "k \<notin> set (map fst es)" using Cons.prems(2) e by simp
      ultimately show False by simp
    qed
    have "distinct (map fst ?B)" using Cons by simp
    moreover have "sniEntries (SniNode u (e # es)) = ?A @ ?B" by (simp add: e split: option.splits)
    ultimately show ?case
      using own disjoint by (simp only: map_append distinct_append)
  qed simp
  then show ?case using SniNode.prems by simp
qed

text \<open>Freeing the tree calls back once for every stored name, with its context, but for the empty host
  name: its context is held by the root itself, which the destructor leaves out.\<close>
theorem sni_free_calls_once:
  assumes "sniOk t"
  shows "\<exists>es. distinct (map fst es) \<and> set es = {(ls, x). ls \<noteq> [] \<and> sniNames t ls = Some x} \<and>
     mset (sni_free t) = mset (map snd es)"
  using sniEntries_distinct [OF assms] sniEntries_names [OF assms] sni_free_entries [of t]
  by (intro exI [of _ "sniEntries t"]) auto

lemma sni_free_calls_once_witness:
  "\<exists>es. distinct (map fst es) \<and> set es = {(ls, x). ls \<noteq> [] \<and> sniNames sniExample ls = Some x} \<and>
     mset [1, 2] = mset (map snd es)"
proof -
  have "sniOk sniExample" "sni_free sniExample = [1, 2]" by code_simp+
  then show ?thesis using sni_free_calls_once [of sniExample] by simp
qed

end
