(* ===== verification/TopicTree.thy ===== *)
theory TopicTree
  imports Prelude "HOL-Library.Monad_Syntax"
begin

text \<open>
  The publish/subscribe tree of \<open>TopicTree.h\<close>. A publish does not send: it appends the message to the
  shared vector \<open>outgoingMessages\<close> and notes its index with every subscriber of the topic, at most 32 of
  them; subscribers with noted messages form a doubly linked list that is drained once per loop
  iteration, or earlier when a subscriber is full. Callbacks run in the middle of all this and may
  call the tree again, so changes to a topic that is being walked are deferred to \<open>pendingOps\<close>.

  Pointers are numbers into two heaps. Reading through a pointer whose object was deleted, an index
  outside \<open>outgoingMessages\<close> or \<open>messageIndices\<close>, or going on with the walk of a set that was changed, is
  \<open>None\<close>. Addresses are not used twice. The order in which an \<open>unordered_set\<close> is walked is the parameter
  \<open>walk\<close>; the callback given to the constructor is the parameter \<open>cb\<close>, any function on the state of the
  tree and of the world behind it that may itself be built from the operations below.
\<close>

record Topic =
  topicName :: bytes
  topicMembers :: "nat set"

record Subscriber =
  subPrev :: "nat option"
  subNext :: "nat option"
  messageIndices :: "u16 list"
  numMessageIndices :: nat
  pendingDestruction :: bool
  subTopics :: "nat set"

datatype Kind = SUBSCRIBE | UNSUBSCRIBE | PUBLISH

record 'm PendingOp =
  opKind :: Kind
  opSubscriber :: "nat option"
  opTopic :: "nat option"
  opTopicName :: bytes
  opMessage :: "'m option"

record ('m, 'w) TopicTree =
  topicHeap :: "nat \<rightharpoonup> Topic"
  subHeap :: "nat \<rightharpoonup> Subscriber"
  topicsByName :: "bytes \<rightharpoonup> nat"
  drainableSubscribers :: "nat option"
  drainingDepth :: nat
  iteratingTopic :: "nat option"
  iteratingSubscriber :: "nat option"
  opsPending :: bool
  applying :: bool
  pendingFree :: "nat list"
  pendingOps :: "'m PendingOp list"
  outgoingMessages :: "'m list"
  freshTopic :: nat
  freshSub :: nat
  world :: 'w

type_synonym ('m, 'w) callback =
  "nat \<Rightarrow> 'm \<Rightarrow> nat \<Rightarrow> ('m, 'w) TopicTree \<Rightarrow> (bool \<times> ('m, 'w) TopicTree) option"

definition emptyTree :: "'w \<Rightarrow> ('m, 'w) TopicTree" where
  "emptyTree w = \<lparr> topicHeap = Map.empty, subHeap = Map.empty, topicsByName = Map.empty,
     drainableSubscribers = None, drainingDepth = 0, iteratingTopic = None,
     iteratingSubscriber = None, opsPending = False, applying = False, pendingFree = [],
     pendingOps = [], outgoingMessages = [], freshTopic = 0, freshSub = 0, world = w \<rparr>"

abbreviation setSub :: "nat \<Rightarrow> Subscriber \<Rightarrow> ('m, 'w) TopicTree \<Rightarrow> ('m, 'w) TopicTree" where
  "setSub s x t \<equiv> t \<lparr> subHeap := (subHeap t)(s \<mapsto> x) \<rparr>"

abbreviation setTopic :: "nat \<Rightarrow> Topic \<Rightarrow> ('m, 'w) TopicTree \<Rightarrow> ('m, 'w) TopicTree" where
  "setTopic p x t \<equiv> t \<lparr> topicHeap := (topicHeap t)(p \<mapsto> x) \<rparr>"

definition needsDrainage :: "Subscriber \<Rightarrow> bool" where
  "needsDrainage x \<longleftrightarrow> numMessageIndices x \<noteq> 0"

section \<open>Draining one subscriber\<close>

definition LAST :: nat where "LAST = 1"
definition FIRST :: nat where "FIRST = 2"

text \<open>The loop of \<open>drainImpl\<close> with \<open>k\<close> of its \<open>n\<close> rounds left.\<close>

fun drainLoop :: "('m, 'w) callback \<Rightarrow> nat \<Rightarrow> nat \<Rightarrow> nat \<Rightarrow> ('m, 'w) TopicTree \<Rightarrow>
    ('m, 'w) TopicTree option" where
  "drainLoop cb s n 0 t = Some t"
| "drainLoop cb s n (Suc k) t = do {
     let i = n - Suc k;
     x \<leftarrow> subHeap t s;
     m \<leftarrow> (if i < length (messageIndices x) \<and> unat (messageIndices x ! i) < length (outgoingMessages t)
           then Some (outgoingMessages t ! unat (messageIndices x ! i)) else None);
     let flags = (if i = n - 1 then LAST else 0) OR (if i = 0 then FIRST else 0);
     (stop, t1) \<leftarrow> cb s m flags t;
     if stop then Some t1 else drainLoop cb s n k t1 }"

definition drainImpl :: "('m, 'w) callback \<Rightarrow> nat \<Rightarrow> ('m, 'w) TopicTree \<Rightarrow> ('m, 'w) TopicTree option" where
  "drainImpl cb s t = do {
     x \<leftarrow> subHeap t s;
     let n = numMessageIndices x;
     drainLoop cb s n n (setSub s (x \<lparr> numMessageIndices := 0 \<rparr>) t) }"

definition unlinkPrev :: "Subscriber \<Rightarrow> ('m, 'w) TopicTree \<Rightarrow> ('m, 'w) TopicTree option" where
  "unlinkPrev x t = (case subPrev x of None \<Rightarrow> Some t
     | Some p \<Rightarrow> do { y \<leftarrow> subHeap t p; Some (setSub p (y \<lparr> subNext := subNext x \<rparr>) t) })"

definition unlinkNext :: "Subscriber \<Rightarrow> ('m, 'w) TopicTree \<Rightarrow> ('m, 'w) TopicTree option" where
  "unlinkNext x t = (case subNext x of None \<Rightarrow> Some t
     | Some n \<Rightarrow> do { y \<leftarrow> subHeap t n; Some (setSub n (y \<lparr> subPrev := subPrev x \<rparr>) t) })"

definition unlinkDrainableSubscriber ::
  "nat \<Rightarrow> ('m, 'w) TopicTree \<Rightarrow> ('m, 'w) TopicTree option" where
  "unlinkDrainableSubscriber s t = do {
     x \<leftarrow> subHeap t s;
     t1 \<leftarrow> unlinkPrev x t;
     x1 \<leftarrow> subHeap t1 s;
     t2 \<leftarrow> unlinkNext x1 t1;
     x2 \<leftarrow> subHeap t2 s;
     Some (if drainableSubscribers t2 = Some s then t2 \<lparr> drainableSubscribers := subNext x2 \<rparr> else t2) }"

section \<open>Topics and their members\<close>

text \<open>\<open>topics.erase(name)\<close>: the map owns the topic, so its object goes too.\<close>

definition eraseTopicName :: "bytes \<Rightarrow> ('m, 'w) TopicTree \<Rightarrow> ('m, 'w) TopicTree" where
  "eraseTopicName n t = (case topicsByName t n of None \<Rightarrow> t
     | Some p \<Rightarrow> t \<lparr> topicsByName := (topicsByName t)(n := None), topicHeap := (topicHeap t)(p := None) \<rparr>)"

definition leaveTopic :: "nat \<Rightarrow> nat \<Rightarrow> ('m, 'w) TopicTree \<Rightarrow> ('m, 'w) TopicTree option" where
  "leaveTopic s p t = do {
     x \<leftarrow> topicHeap t p;
     Some (if card (topicMembers x) = 1 then eraseTopicName (topicName x) t
           else setTopic p (x \<lparr> topicMembers := topicMembers x - {s} \<rparr>) t) }"

fun leaveTopics :: "nat \<Rightarrow> nat list \<Rightarrow> ('m, 'w) TopicTree \<Rightarrow> ('m, 'w) TopicTree option" where
  "leaveTopics s [] t = Some t"
| "leaveTopics s (p # ps) t = do { t1 \<leftarrow> leaveTopic s p t; leaveTopics s ps t1 }"

definition destroySubscriber :: "nat \<Rightarrow> bool \<Rightarrow> ('m, 'w) TopicTree \<Rightarrow> ('m, 'w) TopicTree option" where
  "destroySubscriber s alreadyUnlinked t = do {
     x \<leftarrow> subHeap t s;
     t1 \<leftarrow> leaveTopics s (sorted_list_of_set (subTopics x)) t;
     t2 \<leftarrow> (if \<not> alreadyUnlinked \<and> needsDrainage x then unlinkDrainableSubscriber s t1 else Some t1);
     Some (t2 \<lparr> subHeap := (subHeap t2)(s := None) \<rparr>) }"

fun destroyAll :: "nat list \<Rightarrow> ('m, 'w) TopicTree \<Rightarrow> ('m, 'w) TopicTree option" where
  "destroyAll [] t = Some t"
| "destroyAll (s # ss) t = do { t1 \<leftarrow> destroySubscriber s True t; destroyAll ss t1 }"

definition freePendingSubscribers :: "('m, 'w) TopicTree \<Rightarrow> ('m, 'w) TopicTree option" where
  "freePendingSubscribers t = destroyAll (pendingFree t) (t \<lparr> pendingFree := [] \<rparr>)"

definition wasFreed :: "Subscriber \<Rightarrow> bool" where
  "wasFreed x \<longleftrightarrow> pendingDestruction x"

definition detached :: "Subscriber \<Rightarrow> nat \<Rightarrow> bool" where
  "detached x p \<longleftrightarrow> wasFreed x \<or> p \<notin> subTopics x"

definition deferOp :: "'m PendingOp \<Rightarrow> ('m, 'w) TopicTree \<Rightarrow> ('m, 'w) TopicTree" where
  "deferOp oper t = t \<lparr> pendingOps := pendingOps t @ [oper], opsPending := True \<rparr>"

definition subscribePending :: "nat \<Rightarrow> nat \<Rightarrow> ('m, 'w) TopicTree \<Rightarrow> bool" where
  "subscribePending p start t \<longleftrightarrow>
     (\<exists>oper \<in> set (drop start (pendingOps t)). opKind oper = SUBSCRIBE \<and> opTopic oper = Some p)"

definition eraseFromTopic :: "nat \<Rightarrow> nat \<Rightarrow> nat \<Rightarrow> ('m, 'w) TopicTree \<Rightarrow> ('m, 'w) TopicTree option" where
  "eraseFromTopic s p opsFrom t = do {
     x \<leftarrow> topicHeap t p;
     let x1 = x \<lparr> topicMembers := topicMembers x - {s} \<rparr>;
     let t1 = setTopic p x1 t;
     Some (if topicMembers x1 = {} \<and> \<not> (opsPending t1 \<and> subscribePending p opsFrom t1)
           then eraseTopicName (topicName x1) t1 else t1) }"


section \<open>The operations that call back\<close>

text \<open>
  \<open>leaveDraining\<close> runs \<open>applyPending\<close>, which publishes, which drains again. The knot is tied as in the
  code: \<open>applyPending\<close> sets \<open>applying\<close>, under which \<open>leaveDraining\<close> does not call it again. So the
  operations take the function \<open>ap\<close> that \<open>leaveDraining\<close> calls, and inside \<open>applyPending\<close> it is the one
  that always fails. \<open>lim\<close> bounds the two loops with no obvious end: the walk along the linked list and
  the loop of \<open>applyPending\<close>, whose vector grows while callbacks go on publishing.
\<close>

type_synonym ('m, 'w) leaving = "('m, 'w) TopicTree \<Rightarrow> ('m, 'w) TopicTree option"

definition leaveWith :: "('m, 'w) leaving \<Rightarrow> ('m, 'w) TopicTree \<Rightarrow> ('m, 'w) TopicTree option" where
  "leaveWith ap t =
     (let t1 = t \<lparr> drainingDepth := drainingDepth t - 1 \<rparr>
      in if drainingDepth t1 = 0 \<and> opsPending t1 \<and> \<not> applying t1 then ap t1 else Some t1)"

definition drainWith :: "('m, 'w) leaving \<Rightarrow> ('m, 'w) callback \<Rightarrow> nat \<Rightarrow> ('m, 'w) TopicTree \<Rightarrow>
    ('m, 'w) TopicTree option" where
  "drainWith ap cb s t = do {
     x \<leftarrow> subHeap t s;
     if needsDrainage x then do {
       t1 \<leftarrow> unlinkDrainableSubscriber s (t \<lparr> drainingDepth := drainingDepth t + 1 \<rparr>);
       t2 \<leftarrow> drainImpl cb s t1;
       let t3 = (if drainableSubscribers t2 = None then t2 \<lparr> outgoingMessages := [] \<rparr> else t2);
       leaveWith ap t3 }
     else Some t }"

fun drainList :: "nat \<Rightarrow> ('m, 'w) callback \<Rightarrow> nat option \<Rightarrow> ('m, 'w) TopicTree \<Rightarrow>
    ('m, 'w) TopicTree option" where
  "drainList lim cb None t = Some t"
| "drainList 0 cb (Some s) t = None"
| "drainList (Suc lim) cb (Some s) t = do {
     x \<leftarrow> subHeap t s;
     let n = subNext x;
     t1 \<leftarrow> (if \<not> wasFreed x then drainImpl cb s t else Some t);
     drainList lim cb n t1 }"

definition drainAllWith :: "('m, 'w) leaving \<Rightarrow> nat \<Rightarrow> ('m, 'w) callback \<Rightarrow> ('m, 'w) TopicTree \<Rightarrow>
    ('m, 'w) TopicTree option" where
  "drainAllWith ap lim cb t =
     (if drainableSubscribers t \<noteq> None then do {
        let t0 = t \<lparr> drainingDepth := drainingDepth t + 1 \<rparr>;
        t1 \<leftarrow> drainList lim cb (drainableSubscribers t0) t0;
        leaveWith ap (t1 \<lparr> drainableSubscribers := None, outgoingMessages := [] \<rparr>) }
      else Some t)"

text \<open>The loop of \<open>publish\<close> over the members of topic \<open>p\<close>; the boolean is \<open>referencedMessage\<close>.\<close>

definition stillWalking :: "nat \<Rightarrow> nat set \<Rightarrow> ('m, 'w) TopicTree \<Rightarrow> bool" where
  "stillWalking p ms t \<longleftrightarrow> (case topicHeap t p of None \<Rightarrow> False | Some x \<Rightarrow> topicMembers x = ms)"

definition pushIndex :: "nat \<Rightarrow> ('m, 'w) TopicTree \<Rightarrow> ('m, 'w) TopicTree option" where
  "pushIndex s t = do {
     x \<leftarrow> subHeap t s;
     x1 \<leftarrow> (if numMessageIndices x < length (messageIndices x)
           then Some (x \<lparr> messageIndices := (messageIndices x)[numMessageIndices x :=
                              of_nat (length (outgoingMessages t))],
                          numMessageIndices := numMessageIndices x + 1 \<rparr>) else None);
     if numMessageIndices x1 = 1 then do {
       let t1 = setSub s (x1 \<lparr> subNext := drainableSubscribers t, subPrev := None \<rparr>) t;
       t2 \<leftarrow> (case drainableSubscribers t of None \<Rightarrow> Some t1
             | Some h \<Rightarrow> do { y \<leftarrow> subHeap t1 h; Some (setSub h (y \<lparr> subPrev := Some s \<rparr>) t1) });
       Some (t2 \<lparr> drainableSubscribers := Some s \<rparr>) }
     else Some (setSub s x1 t) }"

definition publishTo :: "('m, 'w) leaving \<Rightarrow> ('m, 'w) callback \<Rightarrow> nat option \<Rightarrow> nat \<Rightarrow> nat \<Rightarrow>
    bool \<times> ('m, 'w) TopicTree \<Rightarrow> (bool \<times> ('m, 'w) TopicTree) option" where
  "publishTo ap cb sender p s rt = (case rt of (ref, t) \<Rightarrow>
     if sender = Some s then Some (ref, t) else do {
       x \<leftarrow> subHeap t s;
       if opsPending t \<and> detached x p then Some (ref, t) else do {
         t1 \<leftarrow> (if numMessageIndices x = 32 then drainWith ap cb s t else Some t);
         x1 \<leftarrow> subHeap t1 s;
         if numMessageIndices x = 32 \<and> opsPending t1 \<and> detached x1 p then Some (ref, t1) else do {
           t2 \<leftarrow> pushIndex s t1;
           Some (True, t2) } } })"

fun publishLoop :: "('m, 'w) leaving \<Rightarrow> ('m, 'w) callback \<Rightarrow> nat option \<Rightarrow> nat \<Rightarrow> nat set \<Rightarrow> nat list \<Rightarrow>
    bool \<times> ('m, 'w) TopicTree \<Rightarrow> (bool \<times> ('m, 'w) TopicTree) option" where
  "publishLoop ap cb sender p ms [] rt = Some rt"
| "publishLoop ap cb sender p ms (s # ss) rt = do {
     (ref, t1) \<leftarrow> publishTo ap cb sender p s rt;
     if stillWalking p ms t1 then publishLoop ap cb sender p ms ss (ref, t1) else None }"

text \<open>The test of the deferred branch: is there a member that would take the message now?\<close>

fun publishWanted :: "nat option \<Rightarrow> nat \<Rightarrow> ('m, 'w) TopicTree \<Rightarrow> nat list \<Rightarrow> bool option" where
  "publishWanted sender p t [] = Some False"
| "publishWanted sender p t (s # ss) =
     (if sender = Some s then publishWanted sender p t ss
      else if \<not> opsPending t then Some True
      else do { x \<leftarrow> subHeap t s;
                if detached x p then publishWanted sender p t ss else Some True })"

definition publishWith :: "('m, 'w) leaving \<Rightarrow> nat \<Rightarrow> (nat set \<Rightarrow> nat list) \<Rightarrow> ('m, 'w) callback \<Rightarrow>
    nat option \<Rightarrow> bytes \<Rightarrow> 'm \<Rightarrow> ('m, 'w) TopicTree \<Rightarrow> (bool \<times> ('m, 'w) TopicTree) option" where
  "publishWith ap lim walk cb sender n m t = (case topicsByName t n of
     None \<Rightarrow> Some (False, t)
   | Some p \<Rightarrow>
       if drainingDepth t > 0 then do {
         x \<leftarrow> topicHeap t p;
         wanted \<leftarrow> publishWanted sender p t (walk (topicMembers x));
         Some (wanted, deferOp \<lparr> opKind = PUBLISH, opSubscriber = sender, opTopic = None,
                                 opTopicName = n, opMessage = Some m \<rparr> t) }
       else do {
         t0 \<leftarrow> (if length (outgoingMessages t) \<ge> 65535 then drainAllWith ap lim cb t else Some t);
         let t1 = t0 \<lparr> drainingDepth := drainingDepth t0 + 1, iteratingTopic := Some p \<rparr>;
         x \<leftarrow> topicHeap t1 p;
         (ref, t2) \<leftarrow> publishLoop ap cb sender p (topicMembers x) (walk (topicMembers x)) (False, t1);
         let t3 = t2 \<lparr> iteratingTopic := None \<rparr>;
         let t4 = (if ref then t3 \<lparr> outgoingMessages := outgoingMessages t3 @ [m] \<rparr> else t3);
         t5 \<leftarrow> leaveWith ap t4;
         Some (ref, t5) })"

section \<open>Applying the deferred operations\<close>

definition applyOp :: "nat \<Rightarrow> (nat set \<Rightarrow> nat list) \<Rightarrow> ('m, 'w) callback \<Rightarrow> nat \<Rightarrow> 'm PendingOp \<Rightarrow>
    ('m, 'w) TopicTree \<Rightarrow> ('m, 'w) TopicTree option" where
  "applyOp lim walk cb i oper t = (case opKind oper of
     SUBSCRIBE \<Rightarrow> do { p \<leftarrow> opTopic oper; s \<leftarrow> opSubscriber oper; x \<leftarrow> topicHeap t p;
                     Some (setTopic p (x \<lparr> topicMembers := insert s (topicMembers x) \<rparr>) t) }
   | UNSUBSCRIBE \<Rightarrow> do { p \<leftarrow> opTopic oper; s \<leftarrow> opSubscriber oper; eraseFromTopic s p (i + 1) t }
   | PUBLISH \<Rightarrow> do { m \<leftarrow> opMessage oper;
        (_, t1) \<leftarrow> publishWith (\<lambda>_. None) lim walk cb (opSubscriber oper) (opTopicName oper) m t;
        Some t1 })"

fun applyLoop :: "nat \<Rightarrow> nat \<Rightarrow> (nat set \<Rightarrow> nat list) \<Rightarrow> ('m, 'w) callback \<Rightarrow> nat \<Rightarrow>
    ('m, 'w) TopicTree \<Rightarrow> ('m, 'w) TopicTree option" where
  "applyLoop 0 lim walk cb i t = (if i < length (pendingOps t) then None else Some t)"
| "applyLoop (Suc k) lim walk cb i t =
     (if i < length (pendingOps t) then do {
        t1 \<leftarrow> applyOp lim walk cb i (pendingOps t ! i) t;
        let t2 = t1 \<lparr> pendingOps := (pendingOps t1)[i := (pendingOps t1 ! i) \<lparr> opTopic := None \<rparr>] \<rparr>;
        applyLoop k lim walk cb (i + 1) t2 }
      else Some t)"

definition applyPending :: "nat \<Rightarrow> (nat set \<Rightarrow> nat list) \<Rightarrow> ('m, 'w) callback \<Rightarrow>
    ('m, 'w) TopicTree \<Rightarrow> ('m, 'w) TopicTree option" where
  "applyPending lim walk cb t = do {
     t1 \<leftarrow> applyLoop lim lim walk cb 0 (t \<lparr> applying := True \<rparr>);
     t2 \<leftarrow> freePendingSubscribers (t1 \<lparr> pendingOps := [] \<rparr>);
     Some (t2 \<lparr> opsPending := False, applying := False \<rparr>) }"

section \<open>The public operations\<close>

definition isDraining :: "('m, 'w) TopicTree \<Rightarrow> bool" where
  "isDraining t \<longleftrightarrow> drainingDepth t > 0"

definition lookupTopic :: "bytes \<Rightarrow> ('m, 'w) TopicTree \<Rightarrow> nat option" where
  "lookupTopic n t = topicsByName t n"

definition numSubscribers :: "nat \<Rightarrow> ('m, 'w) TopicTree \<Rightarrow> int option" where
  "numSubscribers p t = do {
     x \<leftarrow> topicHeap t p;
     Some (int (card (topicMembers x)) +
       (if opsPending t
        then sum_list (map (\<lambda>oper. if opTopic oper = Some p
                                 then (if opKind oper = SUBSCRIBE then 1 else - 1) else 0) (pendingOps t))
        else 0)) }"

definition newTopic :: "bytes \<Rightarrow> ('m, 'w) TopicTree \<Rightarrow> nat \<times> ('m, 'w) TopicTree" where
  "newTopic n t = (freshTopic t, t \<lparr> topicHeap := (topicHeap t)(freshTopic t \<mapsto> \<lparr> topicName = n, topicMembers = {} \<rparr>),
                                topicsByName := (topicsByName t)(n \<mapsto> freshTopic t), freshTopic := freshTopic t + 1 \<rparr>)"

definition subscribe :: "nat \<Rightarrow> bytes \<Rightarrow> ('m, 'w) TopicTree \<Rightarrow> (nat option \<times> ('m, 'w) TopicTree) option" where
  "subscribe s n t =
     (if iteratingSubscriber t = Some s then Some (None, t) else do {
        let (p, t1) = (case lookupTopic n t of None \<Rightarrow> newTopic n t | Some p \<Rightarrow> (p, t));
        x \<leftarrow> subHeap t1 s;
        if p \<in> subTopics x then Some (None, t1) else do {
          let t2 = setSub s (x \<lparr> subTopics := insert p (subTopics x) \<rparr>) t1;
          if iteratingTopic t2 = Some p
          then Some (Some p, deferOp \<lparr> opKind = SUBSCRIBE, opSubscriber = Some s, opTopic = Some p,
                                       opTopicName = [], opMessage = None \<rparr> t2)
          else do {
            y \<leftarrow> topicHeap t2 p;
            Some (Some p, setTopic p (y \<lparr> topicMembers := insert s (topicMembers y) \<rparr>) t2) } } })"

definition unsubscribe :: "nat \<Rightarrow> bytes \<Rightarrow> ('m, 'w) TopicTree \<Rightarrow>
    ((bool \<times> bool \<times> int) \<times> ('m, 'w) TopicTree) option" where
  "unsubscribe s n t =
     (if iteratingSubscriber t = Some s then Some ((False, False, - 1), t) else
      case lookupTopic n t of None \<Rightarrow> Some ((False, False, - 1), t)
      | Some p \<Rightarrow> do {
          x \<leftarrow> subHeap t s;
          if p \<notin> subTopics x then Some ((False, False, - 1), t) else do {
            let x1 = x \<lparr> subTopics := subTopics x - {p} \<rparr>;
            let t1 = setSub s x1 t;
            if iteratingTopic t1 = Some p then do {
              let t2 = deferOp \<lparr> opKind = UNSUBSCRIBE, opSubscriber = Some s, opTopic = Some p,
                                 opTopicName = [], opMessage = None \<rparr> t1;
              k \<leftarrow> numSubscribers p t2;
              Some ((True, subTopics x1 = {}, k), t2) }
            else do {
              y \<leftarrow> topicHeap t1 p;
              let newCount = int (card (topicMembers y)) - 1;
              t2 \<leftarrow> eraseFromTopic s p 0 t1;
              Some ((True, subTopics x1 = {}, newCount), t2) } } })"

definition createSubscriber :: "('m, 'w) TopicTree \<Rightarrow> nat \<times> ('m, 'w) TopicTree" where
  "createSubscriber t = (freshSub t, t \<lparr> subHeap := (subHeap t)(freshSub t \<mapsto>
      \<lparr> subPrev = None, subNext = None, messageIndices = replicate 32 0, numMessageIndices = 0,
        pendingDestruction = False, subTopics = {} \<rparr>), freshSub := freshSub t + 1 \<rparr>)"

definition freeSubscriber :: "nat option \<Rightarrow> ('m, 'w) TopicTree \<Rightarrow> ('m, 'w) TopicTree option" where
  "freeSubscriber so t = (case so of None \<Rightarrow> Some t
   | Some s \<Rightarrow>
       if drainingDepth t > 0 \<or> applying t then do {
         x \<leftarrow> subHeap t s;
         t1 \<leftarrow> (if needsDrainage x then do {
                 t0 \<leftarrow> unlinkDrainableSubscriber s t; y \<leftarrow> subHeap t0 s;
                 Some (setSub s (y \<lparr> numMessageIndices := 0 \<rparr>) t0) } else Some t);
         let t2 = t1 \<lparr> pendingFree := pendingFree t1 @ [s] \<rparr>;
         y \<leftarrow> subHeap t2 s;
         Some (setSub s (y \<lparr> pendingDestruction := True \<rparr>) t2 \<lparr> opsPending := True \<rparr>) }
       else destroySubscriber s False t)"

definition drain :: "nat \<Rightarrow> (nat set \<Rightarrow> nat list) \<Rightarrow> ('m, 'w) callback \<Rightarrow> nat \<Rightarrow> ('m, 'w) TopicTree \<Rightarrow>
    ('m, 'w) TopicTree option" where
  "drain lim walk cb = drainWith (applyPending lim walk cb) cb"

definition drainAll :: "nat \<Rightarrow> (nat set \<Rightarrow> nat list) \<Rightarrow> ('m, 'w) callback \<Rightarrow> ('m, 'w) TopicTree \<Rightarrow>
    ('m, 'w) TopicTree option" where
  "drainAll lim walk cb = drainAllWith (applyPending lim walk cb) lim cb"

definition publish :: "nat \<Rightarrow> (nat set \<Rightarrow> nat list) \<Rightarrow> ('m, 'w) callback \<Rightarrow> nat option \<Rightarrow> bytes \<Rightarrow> 'm \<Rightarrow>
    ('m, 'w) TopicTree \<Rightarrow> (bool \<times> ('m, 'w) TopicTree) option" where
  "publish lim walk cb = publishWith (applyPending lim walk cb) lim walk cb"

text \<open>\<open>publishBig\<close> sends at once, through a callback \<open>big\<close> of its own.\<close>

fun publishBigLoop :: "(nat \<Rightarrow> 'b \<Rightarrow> ('m, 'w) TopicTree \<Rightarrow> ('m, 'w) TopicTree option) \<Rightarrow> nat option \<Rightarrow> nat \<Rightarrow>
    nat set \<Rightarrow> 'b \<Rightarrow> nat list \<Rightarrow> ('m, 'w) TopicTree \<Rightarrow> ('m, 'w) TopicTree option" where
  "publishBigLoop big sender p ms m [] t = Some t"
| "publishBigLoop big sender p ms m (s # ss) t = do {
     t1 \<leftarrow> (if sender = Some s then Some t
           else if opsPending t then do { x \<leftarrow> subHeap t s; if detached x p then Some t else big s m t }
           else big s m t);
     if stillWalking p ms t1 then publishBigLoop big sender p ms m ss t1 else None }"

definition publishBig :: "nat \<Rightarrow> (nat set \<Rightarrow> nat list) \<Rightarrow> ('m, 'w) callback \<Rightarrow>
    (nat \<Rightarrow> 'b \<Rightarrow> ('m, 'w) TopicTree \<Rightarrow> ('m, 'w) TopicTree option) \<Rightarrow> nat option \<Rightarrow> bytes \<Rightarrow> 'b \<Rightarrow>
    ('m, 'w) TopicTree \<Rightarrow> (bool \<times> ('m, 'w) TopicTree) option" where
  "publishBig lim walk cb big sender n m t = (case topicsByName t n of
     None \<Rightarrow> Some (False, t)
   | Some p \<Rightarrow>
       if drainingDepth t > 0 then Some (False, t) else do {
         x \<leftarrow> topicHeap t p;
         t1 \<leftarrow> publishBigLoop big sender p (topicMembers x) m (walk (topicMembers x))
                (t \<lparr> drainingDepth := drainingDepth t + 1, iteratingTopic := Some p \<rparr>);
         t2 \<leftarrow> leaveWith (applyPending lim walk cb) (t1 \<lparr> iteratingTopic := None \<rparr>);
         Some (True, t2) })"


section \<open>Sequences of operations\<close>

text \<open>
  The calls into the tree as data, for statements about all sequences of them; \<open>big\<close> is what a socket
  does to send a message of its own, and the callback handed to \<open>publishBig\<close>.
\<close>

datatype 'm TreeOp = Create | Free nat | Subscribe nat bytes | Unsubscribe nat bytes | Drain nat | DrainAll
  | Publish "nat option" bytes 'm | PublishBig "nat option" bytes 'm | Send nat 'm

datatype Reply = Done | Made nat | Joined bool | Departed bool bool int | Published bool

fun perform :: "nat \<Rightarrow> (nat set \<Rightarrow> nat list) \<Rightarrow> ('m, 'w) callback \<Rightarrow>
    (nat \<Rightarrow> 'm \<Rightarrow> ('m, 'w) TopicTree \<Rightarrow> ('m, 'w) TopicTree option) \<Rightarrow> 'm TreeOp \<Rightarrow> ('m, 'w) TopicTree \<Rightarrow>
    (Reply \<times> ('m, 'w) TopicTree) option" where
  "perform lim walk cb big Create c = (let (s, c1) = createSubscriber c in Some (Made s, c1))"
| "perform lim walk cb big (Free s) c = do { c1 \<leftarrow> freeSubscriber (Some s) c; Some (Done, c1) }"
| "perform lim walk cb big (Subscribe s n) c = do { (r, c1) \<leftarrow> subscribe s n c; Some (Joined (r \<noteq> None), c1) }"
| "perform lim walk cb big (Unsubscribe s n) c =
     do { ((ok, last, k), c1) \<leftarrow> unsubscribe s n c; Some (Departed ok last k, c1) }"
| "perform lim walk cb big (Drain s) c = do { c1 \<leftarrow> drain lim walk cb s c; Some (Done, c1) }"
| "perform lim walk cb big DrainAll c = do { c1 \<leftarrow> drainAll lim walk cb c; Some (Done, c1) }"
| "perform lim walk cb big (Publish sender n m) c =
     do { (r, c1) \<leftarrow> publish lim walk cb sender n m c; Some (Published r, c1) }"
| "perform lim walk cb big (PublishBig sender n m) c =
     do { (r, c1) \<leftarrow> publishBig lim walk cb big sender n m c;
          Some (Published r, c1) }"
| "perform lim walk cb big (Send s m) c = do { c1 \<leftarrow> big s m c; Some (Done, c1) }"

fun performAll :: "nat \<Rightarrow> (nat set \<Rightarrow> nat list) \<Rightarrow> ('m, 'w) callback \<Rightarrow>
    (nat \<Rightarrow> 'm \<Rightarrow> ('m, 'w) TopicTree \<Rightarrow> ('m, 'w) TopicTree option) \<Rightarrow> 'm TreeOp list \<Rightarrow> ('m, 'w) TopicTree \<Rightarrow>
    (Reply list \<times> ('m, 'w) TopicTree) option" where
  "performAll lim walk cb big [] c = Some ([], c)"
| "performAll lim walk cb big (x # xs) c = do {
     (r, c1) \<leftarrow> perform lim walk cb big x c;
     (rs, c2) \<leftarrow> performAll lim walk cb big xs c1;
     Some (r # rs, c2) }"

end
