(* ===== verification/TopicQueues.thy ===== *)
theory TopicQueues
  imports TopicTree
begin

text \<open>
  What the tree of \<open>TopicTree\<close> is for: every subscriber has a queue of at most 32 messages. This theory
  holds that machine of queues, the relation between it and the tree with its shared vector, its 16-bit
  indices and its linked list, and the proof that each operation of the tree does what the machine does,
  for callbacks that send without calling back into the tree.
\<close>

section \<open>The machine of queues\<close>

record ('m, 'w) PubSub =
  live :: "nat set"
  topicsOf :: "nat \<Rightarrow> bytes set"
  queueOf :: "nat \<Rightarrow> 'm list"
  ready :: "nat list"
  backlog :: nat
  created :: nat
  outside :: 'w

type_synonym ('m, 'w) sender = "nat \<Rightarrow> 'm \<Rightarrow> nat \<Rightarrow> 'w \<Rightarrow> bool \<times> 'w"

fun deliver :: "('m, 'w) sender \<Rightarrow> nat \<Rightarrow> nat \<Rightarrow> 'm list \<Rightarrow> 'w \<Rightarrow> 'w" where
  "deliver send s first [] w = w"
| "deliver send s first (m # ms) w =
     (let (stop, w1) = send s m ((if ms = [] then LAST else 0) OR first) w
      in if stop then w1 else deliver send s 0 ms w1)"

definition qDrain :: "('m, 'w) sender \<Rightarrow> nat \<Rightarrow> ('m, 'w) PubSub \<Rightarrow> ('m, 'w) PubSub" where
  "qDrain send s a = (if queueOf a s = [] then a else
     (let r = remove1 s (ready a)
      in a \<lparr> queueOf := (queueOf a)(s := []), ready := r, backlog := (if r = [] then 0 else backlog a),
             outside := deliver send s FIRST (queueOf a s) (outside a) \<rparr>))"

definition qDrainAll :: "('m, 'w) sender \<Rightarrow> ('m, 'w) PubSub \<Rightarrow> ('m, 'w) PubSub" where
  "qDrainAll send a = (if ready a = [] then a else
     a \<lparr> queueOf := \<lambda>_. [], ready := [], backlog := 0,
         outside := fold (\<lambda>s. deliver send s FIRST (queueOf a s)) (ready a) (outside a) \<rparr>)"

definition qEnqueue :: "('m, 'w) sender \<Rightarrow> 'm \<Rightarrow> nat \<Rightarrow> ('m, 'w) PubSub \<Rightarrow> ('m, 'w) PubSub" where
  "qEnqueue send m s a =
     (let a1 = (if length (queueOf a s) = 32 then qDrain send s a else a)
      in a1 \<lparr> queueOf := (queueOf a1)(s := queueOf a1 s @ [m]),
              ready := (if queueOf a1 s = [] then s # ready a1 else ready a1) \<rparr>)"

definition subscribersOf :: "bytes \<Rightarrow> ('m, 'w) PubSub \<Rightarrow> nat set" where
  "subscribersOf n a = {s \<in> live a. n \<in> topicsOf a s}"

definition qPublish :: "(nat set \<Rightarrow> nat list) \<Rightarrow> ('m, 'w) sender \<Rightarrow> nat option \<Rightarrow> bytes \<Rightarrow> 'm \<Rightarrow>
    ('m, 'w) PubSub \<Rightarrow> bool \<times> ('m, 'w) PubSub" where
  "qPublish walk send sender n m a =
     (if subscribersOf n a = {} then (False, a)
      else let a0 = (if backlog a \<ge> 65535 then qDrainAll send a else a);
               ss = filter (\<lambda>s. sender \<noteq> Some s) (walk (subscribersOf n a));
               a1 = fold (qEnqueue send m) ss a0
           in (ss \<noteq> [], if ss = [] then a1 else a1 \<lparr> backlog := backlog a1 + 1 \<rparr>))"

definition qSend :: "('m, 'w) sender \<Rightarrow> 'm \<Rightarrow> nat \<Rightarrow> ('m, 'w) PubSub \<Rightarrow> ('m, 'w) PubSub" where
  "qSend send m s a = (let a1 = qDrain send s a
     in a1 \<lparr> outside := snd (send s m (FIRST OR LAST) (outside a1)) \<rparr>)"

definition qPublishBig :: "(nat set \<Rightarrow> nat list) \<Rightarrow> ('m, 'w) sender \<Rightarrow> nat option \<Rightarrow> bytes \<Rightarrow> 'm \<Rightarrow>
    ('m, 'w) PubSub \<Rightarrow> bool \<times> ('m, 'w) PubSub" where
  "qPublishBig walk send sender n m a =
     (if subscribersOf n a = {} then (False, a)
      else (True, fold (qSend send m) (filter (\<lambda>s. sender \<noteq> Some s) (walk (subscribersOf n a))) a))"

definition qSubscribe :: "nat \<Rightarrow> bytes \<Rightarrow> ('m, 'w) PubSub \<Rightarrow> ('m, 'w) PubSub" where
  "qSubscribe s n a = a \<lparr> topicsOf := (topicsOf a)(s := insert n (topicsOf a s)) \<rparr>"

definition qUnsubscribe :: "nat \<Rightarrow> bytes \<Rightarrow> ('m, 'w) PubSub \<Rightarrow> ('m, 'w) PubSub" where
  "qUnsubscribe s n a = a \<lparr> topicsOf := (topicsOf a)(s := topicsOf a s - {n}) \<rparr>"

definition qCreate :: "('m, 'w) PubSub \<Rightarrow> ('m, 'w) PubSub" where
  "qCreate a = a \<lparr> live := insert (created a) (live a), created := created a + 1 \<rparr>"

definition qFree :: "nat \<Rightarrow> ('m, 'w) PubSub \<Rightarrow> ('m, 'w) PubSub" where
  "qFree s a = a \<lparr> live := live a - {s}, topicsOf := (topicsOf a)(s := {}),
                   queueOf := (queueOf a)(s := []), ready := remove1 s (ready a) \<rparr>"

definition qEmpty :: "'w \<Rightarrow> ('m, 'w) PubSub" where
  "qEmpty w = \<lparr> live = {}, topicsOf = (\<lambda>_. {}), queueOf = (\<lambda>_. []), ready = [], backlog = 0, created = 0, outside = w \<rparr>"

section \<open>Callbacks that only send\<close>

text \<open>
  The callback of \<open>App.h\<close> sends; if no handler of the user runs under it, it changes the world and not
  the tree. A socket that sends drains its subscriber first (\<open>WebSocket::send\<close>), which keeps the order.
\<close>

definition onlySends :: "('m, 'w) sender \<Rightarrow> ('m, 'w) callback" where
  "onlySends send s m flags t =
     (let (stop, w) = send s m flags (world t) in Some (stop, t \<lparr> world := w \<rparr>))"

definition sendThrough :: "nat \<Rightarrow> (nat set \<Rightarrow> nat list) \<Rightarrow> ('m, 'w) sender \<Rightarrow> nat \<Rightarrow> 'm \<Rightarrow>
    ('m, 'w) TopicTree \<Rightarrow> ('m, 'w) TopicTree option" where
  "sendThrough lim walk send s m t = do {
     t1 \<leftarrow> drain lim walk (onlySends send) s t;
     Some (t1 \<lparr> world := snd (send s m (FIRST OR LAST) (world t1)) \<rparr>) }"

section \<open>The linked list\<close>

fun dll :: "(nat \<Rightarrow> nat option) \<Rightarrow> (nat \<Rightarrow> nat option) \<Rightarrow> nat option \<Rightarrow> nat option \<Rightarrow> nat list \<Rightarrow> bool" where
  "dll nx pv p q [] \<longleftrightarrow> p = None"
| "dll nx pv p q (s # ss) \<longleftrightarrow> p = Some s \<and> pv s = q \<and> dll nx pv (nx s) (Some s) ss"

lemma dll_cong:
  "(\<And>s. s \<in> set ss \<Longrightarrow> nx s = nx' s \<and> pv s = pv' s) \<Longrightarrow> dll nx pv p q ss = dll nx' pv' p q ss"
  by (induction ss arbitrary: p q) auto

lemma dll_prev: "dll nx pv p q ss \<Longrightarrow> s \<in> set ss \<Longrightarrow> pv s = u \<Longrightarrow> u = q \<or> (\<exists>v \<in> set ss. u = Some v)"
  by (induction ss arbitrary: p q) auto

lemma dll_next: "dll nx pv p q ss \<Longrightarrow> s \<in> set ss \<Longrightarrow> nx s = Some v \<Longrightarrow> v \<in> set ss"
proof (induction ss arbitrary: p q)
  case (Cons a ss)
  then show ?case by (cases "s = a"; cases ss) auto
qed simp

lemma dll_push:
  assumes "dll nx pv p None ss" and "s \<notin> set ss" and "distinct ss"
  shows "dll (nx(s := p)) (case p of None \<Rightarrow> pv(s := None) | Some h \<Rightarrow> pv(s := None, h := Some s))
           (Some s) None (s # ss)"
proof (cases ss)
  case Nil
  with assms show ?thesis by simp
next
  case (Cons a as)
  with assms have p: "p = Some a" and t: "dll nx pv (nx a) (Some a) as" and n: "s \<noteq> a" "s \<notin> set as"
    by auto
  have "dll (nx(s := p)) (pv(s := None, a := Some s)) (nx a) (Some a) as"
    using t n assms(2,3) Cons by (subst dll_cong [where nx' = nx and pv' = pv]) auto
  with p n Cons show ?thesis by simp
qed

definition unlinkNx :: "(nat \<Rightarrow> nat option) \<Rightarrow> (nat \<Rightarrow> nat option) \<Rightarrow> nat \<Rightarrow> nat \<Rightarrow> nat option" where
  "unlinkNx nx pv s = (case pv s of None \<Rightarrow> nx | Some u \<Rightarrow> nx(u := nx s))"

definition unlinkPv :: "(nat \<Rightarrow> nat option) \<Rightarrow> (nat \<Rightarrow> nat option) \<Rightarrow> nat \<Rightarrow> nat \<Rightarrow> nat option" where
  "unlinkPv nx pv s = (case nx s of None \<Rightarrow> pv | Some v \<Rightarrow> pv(v := pv s))"

lemma dll_unlink:
  assumes "dll nx pv p q ss" and "distinct ss" and "s \<in> set ss" and "q = None \<or> the q \<notin> set ss"
  shows "dll (unlinkNx nx pv s) (unlinkPv nx pv s) (if p = Some s then nx s else p) q (remove1 s ss)"
  using assms
proof (induction ss arbitrary: p q)
  case Nil
  then show ?case by simp
next
  case (Cons a rest)
  from Cons.prems have p: "p = Some a" and pva: "pv a = q" and r: "dll nx pv (nx a) (Some a) rest"
    and d: "a \<notin> set rest" "distinct rest" by auto
  show ?case
  proof (cases "s = a")
    case True
    have nx: "unlinkNx nx pv s v = nx v" if "v \<in> set rest" for v
      using that Cons.prems True pva by (auto simp: unlinkNx_def split: option.splits)
    show ?thesis
    proof (cases rest)
      case Nil
      with r True p show ?thesis by simp
    next
      case (Cons b bs)
      with r have nb: "nx a = Some b" and t: "dll nx pv (nx b) (Some b) bs" by auto
      have "dll (unlinkNx nx pv s) (unlinkPv nx pv s) (nx b) (Some b) bs = dll nx pv (nx b) (Some b) bs"
        by (rule dll_cong) (use d Cons nx nb True in \<open>auto simp: unlinkPv_def\<close>)
      with t have "dll (unlinkNx nx pv s) (unlinkPv nx pv s) (nx b) (Some b) bs" by simp
      moreover have "unlinkPv nx pv s b = q"
        using True nb pva by (simp add: unlinkPv_def)
      ultimately show ?thesis using True p Cons nb nx by simp
    qed
  next
    case False
    with Cons.prems have s: "s \<in> set rest" by simp
    have IH: "dll (unlinkNx nx pv s) (unlinkPv nx pv s) (if nx a = Some s then nx s else nx a) (Some a)
        (remove1 s rest)"
      using Cons.IH [OF r d(2) s] d by simp
    have "unlinkPv nx pv s a = q"
      using dll_next [OF r s] pva d by (auto simp: unlinkPv_def split: option.splits)
    moreover have "unlinkNx nx pv s a = (if nx a = Some s then nx s else nx a)"
    proof (cases "nx a = Some s")
      case True
      with r s have "pv s = Some a" by (cases rest) auto
      with True show ?thesis by (simp add: unlinkNx_def)
    next
      case nn: False
      have "pv s \<noteq> Some a"
      proof -
        from r s nn obtain b bs where rest: "rest = b # bs" "nx a = Some b" "b \<noteq> s"
          by (cases rest) auto
        then have "dll nx pv (nx b) (Some b) bs" "s \<in> set bs" using r s by auto
        then show ?thesis using dll_prev [of nx pv "nx b" "Some b" bs s] rest d by auto
      qed
      with nn show ?thesis by (auto simp: unlinkNx_def split: option.splits)
    qed
    ultimately show ?thesis using False p IH by simp
  qed
qed


section \<open>The relation between the tree and the queues\<close>

definition nxOf :: "(nat \<rightharpoonup> Subscriber) \<Rightarrow> nat \<Rightarrow> nat option" where
  "nxOf h s = (case h s of None \<Rightarrow> None | Some x \<Rightarrow> subNext x)"

definition pvOf :: "(nat \<rightharpoonup> Subscriber) \<Rightarrow> nat \<Rightarrow> nat option" where
  "pvOf h s = (case h s of None \<Rightarrow> None | Some x \<Rightarrow> subPrev x)"

text \<open>
  In the middle of a publish the message \<open>ext\<close> is not yet in the vector though some subscribers already
  hold its index; those in \<open>old\<close> do not.
\<close>

definition noted :: "'m list \<Rightarrow> Subscriber \<Rightarrow> 'm list" where
  "noted out x = map (\<lambda>w. out ! unat w) (take (numMessageIndices x) (messageIndices x))"

definition sub_rel :: "'m list \<Rightarrow> nat set \<Rightarrow> 'm list \<Rightarrow> nat \<Rightarrow> Subscriber \<Rightarrow> 'm list \<Rightarrow> bool" where
  "sub_rel ext old out s x q \<longleftrightarrow> length (messageIndices x) = 32 \<and> numMessageIndices x \<le> 32 \<and>
     q = noted (out @ ext) x \<and>
     (\<forall>i < numMessageIndices x. unat (messageIndices x ! i) <
         (if s \<in> old then length out else length out + length ext))"

definition queue_rel :: "'m list \<Rightarrow> nat set \<Rightarrow> ('m, 'w) TopicTree \<Rightarrow> ('m, 'w) PubSub \<Rightarrow> bool" where
  "queue_rel ext old c a \<longleftrightarrow>
     distinct (ready a) \<and>
     dll (nxOf (subHeap c)) (pvOf (subHeap c)) (drainableSubscribers c) None (ready a) \<and>
     (\<forall>s x. subHeap c s = Some x \<longrightarrow> sub_rel ext old (outgoingMessages c) s x (queueOf a s)) \<and>
     (\<forall>s. subHeap c s = None \<longrightarrow> queueOf a s = []) \<and>
     (\<forall>s. s \<in> set (ready a) \<longleftrightarrow> queueOf a s \<noteq> []) \<and>
     length (outgoingMessages c) = backlog a \<and> world c = outside a"

text \<open>The two maps of topics together hold the members \<open>M n\<close> of every name; no topic is empty.\<close>

definition maps_rel :: "('m, 'w) TopicTree \<Rightarrow> (bytes \<Rightarrow> nat set) \<Rightarrow> bool" where
  "maps_rel c M \<longleftrightarrow> (\<forall>n. topicsByName c n = None \<longleftrightarrow> M n = {}) \<and>
     (\<forall>n p. topicsByName c n = Some p \<longrightarrow> p < freshTopic c \<and>
        topicHeap c p = Some \<lparr> topicName = n, topicMembers = M n \<rparr>)"

definition topics_rel :: "('m, 'w) TopicTree \<Rightarrow> ('m, 'w) PubSub \<Rightarrow> bool" where
  "topics_rel c a \<longleftrightarrow>
     finite (live a) \<and> freshSub c = created a \<and> dom (subHeap c) = live a \<and>
     (\<forall>s. s \<notin> live a \<longrightarrow> topicsOf a s = {}) \<and> (\<forall>s \<in> live a. s < created a) \<and>
     (\<forall>s x. subHeap c s = Some x \<longrightarrow> \<not> pendingDestruction x \<and>
        subTopics x = {p. \<exists>n \<in> topicsOf a s. topicsByName c n = Some p}) \<and>
     (\<forall>s. finite (topicsOf a s)) \<and> maps_rel c (\<lambda>n. subscribersOf n a)"

definition idle :: "('m, 'w) TopicTree \<Rightarrow> bool" where
  "idle c \<longleftrightarrow> drainingDepth c = 0 \<and> iteratingTopic c = None \<and> iteratingSubscriber c = None \<and>
     \<not> opsPending c \<and> \<not> applying c \<and> pendingFree c = [] \<and> pendingOps c = []"

text \<open>What draining and publishing leave alone: all but the queues and the world.\<close>

definition asTopics :: "Subscriber \<Rightarrow> bool \<times> nat set" where
  "asTopics x = (pendingDestruction x, subTopics x)"

definition sameElse :: "('m, 'w) TopicTree \<Rightarrow> ('m, 'w) TopicTree \<Rightarrow> bool" where
  "sameElse c c' \<longleftrightarrow> (\<forall>s. map_option asTopics (subHeap c' s) = map_option asTopics (subHeap c s)) \<and>
     c' = c \<lparr> subHeap := subHeap c', outgoingMessages := outgoingMessages c',
             drainableSubscribers := drainableSubscribers c', world := world c' \<rparr>"

lemma sameElse_refl [simp]: "sameElse c c"
  by (simp add: sameElse_def)

lemma sameElse_trans: "sameElse c d \<Longrightarrow> sameElse d e \<Longrightarrow> sameElse c e"
  unfolding sameElse_def by (cases c; cases d; cases e) auto

lemma sameElse_fields:
  assumes "sameElse c c'"
  shows "topicHeap c' = topicHeap c" "topicsByName c' = topicsByName c"
    "drainingDepth c' = drainingDepth c" "iteratingTopic c' = iteratingTopic c"
    "iteratingSubscriber c' = iteratingSubscriber c" "opsPending c' = opsPending c"
    "applying c' = applying c" "pendingFree c' = pendingFree c" "pendingOps c' = pendingOps c"
    "freshTopic c' = freshTopic c" "freshSub c' = freshSub c"
  using assms unfolding sameElse_def by (cases c; cases c'; auto)+

lemma sameElse_dom: "sameElse c c' \<Longrightarrow> dom (subHeap c') = dom (subHeap c)"
  unfolding sameElse_def by (metis (no_types, lifting) domIff map_option_is_None subsetI subset_antisym)

lemma sameElse_sub:
  assumes "sameElse c c'" and "subHeap c s = Some x"
  obtains x' where "subHeap c' s = Some x'" "asTopics x' = asTopics x"
  using assms unfolding sameElse_def by (metis (no_types, lifting) map_option_eq_Some)

lemma sameElse_sub':
  assumes "sameElse c c'" and "subHeap c' s = Some x'"
  obtains x where "subHeap c s = Some x" "asTopics x' = asTopics x"
  using assms unfolding sameElse_def by (metis (no_types, lifting) map_option_eq_Some)

lemma topics_rel_sameElse:
  assumes "topics_rel c a" and "sameElse c c'" and "live a' = live a" and "topicsOf a' = topicsOf a" and "created a' = created a"
  shows "topics_rel c' a'"
proof -
  have *: "subscribersOf n a' = subscribersOf n a" for n
    by (simp add: subscribersOf_def assms)
  show ?thesis
    using assms(1) sameElse_dom [OF assms(2)] sameElse_fields [OF assms(2)]
    unfolding topics_rel_def maps_rel_def * assms(3-5)
    by (auto elim!: sameElse_sub' [OF assms(2)] simp: asTopics_def)
qed

lemma idle_sameElse: "idle c \<Longrightarrow> sameElse c c' \<Longrightarrow> idle c'"
  by (simp add: idle_def sameElse_fields)

section \<open>Draining a subscriber\<close>

lemma drainLoop_sends:
  assumes "subHeap t s = Some x" and "length (messageIndices x) = 32" and "n \<le> 32" and "k \<le> n"
    and "\<forall>i < n. unat (messageIndices x ! i) < length (outgoingMessages t)"
  shows "drainLoop (onlySends send) s n k t = Some (t \<lparr> world :=
     deliver send s (if k = n then FIRST else 0)
       (map (\<lambda>w. outgoingMessages t ! unat w) (take k (drop (n - k) (messageIndices x)))) (world t) \<rparr>)"
  using assms
proof (induction k arbitrary: t)
  case 0
  then show ?case by simp
next
  case (Suc k)
  let ?i = "n - Suc k"
  have i: "?i < n" "?i < 32" "n - k = Suc ?i" using Suc.prems by auto
  have split: "take (Suc k) (drop ?i (messageIndices x)) =
      messageIndices x ! ?i # take k (drop (n - k) (messageIndices x))"
    using i Suc.prems(2) by (simp add: Cons_nth_drop_Suc [symmetric])
  have last: "take k (drop (n - k) (messageIndices x)) = [] \<longleftrightarrow> k = 0"
    using i Suc.prems by auto
  let ?m = "outgoingMessages t ! unat (messageIndices x ! ?i)"
  let ?f = "(if k = 0 then LAST else 0) OR (if Suc k = n then FIRST else 0)"
  obtain b w where bw: "send s ?m ?f (world t) = (b, w)" by fastforce
  have "?i = n - 1 \<longleftrightarrow> k = 0" "?i = 0 \<longleftrightarrow> Suc k = n" using Suc.prems(4) by auto
  then have step: "drainLoop (onlySends send) s n (Suc k) t =
      (if b then Some (t \<lparr> world := w \<rparr>) else drainLoop (onlySends send) s n k (t \<lparr> world := w \<rparr>))"
    using Suc.prems(1,2,5) i bw by (simp add: onlySends_def Let_def)
  have IH: "drainLoop (onlySends send) s n k (t \<lparr> world := w \<rparr>) = Some (t \<lparr> world :=
     deliver send s 0 (map (\<lambda>w. outgoingMessages t ! unat w) (take k (drop (n - k) (messageIndices x)))) w \<rparr>)"
    using Suc.IH [of "t \<lparr> world := w \<rparr>"] Suc.prems by simp
  have "deliver send s (if Suc k = n then FIRST else 0)
      (map (\<lambda>w. outgoingMessages t ! unat w) (take (Suc k) (drop ?i (messageIndices x)))) (world t) =
    (if b then w else deliver send s 0
      (map (\<lambda>w. outgoingMessages t ! unat w) (take k (drop (n - k) (messageIndices x)))) w)"
    unfolding split using last bw by simp
  then show ?case unfolding step IH by simp
qed

lemma drainImpl_sends:
  assumes "subHeap t s = Some x" and "sub_rel ext old (outgoingMessages t) s x q" and "s \<in> old"
  shows "drainImpl (onlySends send) s t = Some (t \<lparr> subHeap := (subHeap t)(s \<mapsto> x \<lparr> numMessageIndices := 0 \<rparr>),
           world := deliver send s FIRST q (world t) \<rparr>)"
proof -
  have q: "q = map (\<lambda>w. outgoingMessages t ! unat w) (take (numMessageIndices x) (messageIndices x))"
    using assms(2,3) by (auto simp: sub_rel_def noted_def in_set_conv_nth nth_append)
  show ?thesis
    using assms drainLoop_sends [of "setSub s (x \<lparr> numMessageIndices := 0 \<rparr>) t" s
        "x \<lparr> numMessageIndices := 0 \<rparr>" "numMessageIndices x" "numMessageIndices x" send]
    by (simp add: drainImpl_def sub_rel_def q)
qed

lemma noted_eq_Nil: "length (messageIndices x) = 32 \<Longrightarrow> noted out x = [] \<longleftrightarrow> numMessageIndices x = 0"
  by (auto simp: noted_def)

lemma needsDrainage_queue:
  "sub_rel ext old out s x q \<Longrightarrow> needsDrainage x \<longleftrightarrow> q \<noteq> []"
  by (auto simp: sub_rel_def needsDrainage_def noted_eq_Nil)

definition core :: "Subscriber \<Rightarrow> Subscriber" where
  "core x = x \<lparr> subPrev := None, subNext := None \<rparr>"

lemma core_simps:
  "core x = core y \<Longrightarrow> messageIndices x = messageIndices y"
  "core x = core y \<Longrightarrow> numMessageIndices x = numMessageIndices y"
  "core x = core y \<Longrightarrow> asTopics x = asTopics y"
  by (cases x; cases y; simp add: core_def asTopics_def)+

lemma unlink_ok:
  assumes s: "subHeap t s = Some x"
    and p: "\<And>u. subPrev x = Some u \<Longrightarrow> u \<noteq> s \<and> u \<in> dom (subHeap t)"
    and n: "\<And>u. subNext x = Some u \<Longrightarrow> u \<noteq> s \<and> u \<in> dom (subHeap t)"
  shows "\<exists>h. unlinkDrainableSubscriber s t = Some (t \<lparr> subHeap := h,
             drainableSubscribers := (if drainableSubscribers t = Some s then subNext x else drainableSubscribers t) \<rparr>)
       \<and> nxOf h = unlinkNx (nxOf (subHeap t)) (pvOf (subHeap t)) s
       \<and> pvOf h = unlinkPv (nxOf (subHeap t)) (pvOf (subHeap t)) s
       \<and> (\<forall>u. map_option core (h u) = map_option core (subHeap t u)) \<and> h s = Some x"
proof -
  have a: "\<exists>h1. unlinkPrev x t = Some (t \<lparr> subHeap := h1 \<rparr>) \<and> h1 s = Some x
      \<and> nxOf h1 = unlinkNx (nxOf (subHeap t)) (pvOf (subHeap t)) s \<and> pvOf h1 = pvOf (subHeap t)
      \<and> (\<forall>u. map_option core (h1 u) = map_option core (subHeap t u)) \<and> dom h1 = dom (subHeap t)"
  proof (cases "subPrev x")
    case None
    then show ?thesis using s by (auto simp: unlinkPrev_def unlinkNx_def pvOf_def intro!: exI [of _ "subHeap t"])
  next
    case (Some u)
    with p obtain y where y: "u \<noteq> s" "subHeap t u = Some y" by blast
    with Some s show ?thesis
      by (intro exI [of _ "(subHeap t)(u \<mapsto> y \<lparr> subNext := subNext x \<rparr>)"])
        (auto simp: unlinkPrev_def unlinkNx_def pvOf_def nxOf_def core_def fun_eq_iff)
  qed
  then obtain h1 where h1: "unlinkPrev x t = Some (t \<lparr> subHeap := h1 \<rparr>)" "h1 s = Some x"
      "nxOf h1 = unlinkNx (nxOf (subHeap t)) (pvOf (subHeap t)) s" "pvOf h1 = pvOf (subHeap t)"
      "\<forall>u. map_option core (h1 u) = map_option core (subHeap t u)" "dom h1 = dom (subHeap t)" by blast
  have "\<exists>h2. unlinkNext x (t \<lparr> subHeap := h1 \<rparr>) = Some (t \<lparr> subHeap := h2 \<rparr>) \<and> h2 s = Some x
      \<and> nxOf h2 = nxOf h1 \<and> pvOf h2 = unlinkPv (nxOf (subHeap t)) (pvOf (subHeap t)) s
      \<and> (\<forall>u. map_option core (h2 u) = map_option core (h1 u))"
  proof (cases "subNext x")
    case None
    then show ?thesis using s h1
      by (auto simp: unlinkNext_def unlinkPv_def nxOf_def intro!: exI [of _ h1])
  next
    case (Some u)
    with n h1(6) obtain y where y: "u \<noteq> s" "h1 u = Some y" by blast
    have "pvOf h1 v = pvOf (subHeap t) v" for v using h1(4) by simp
    with Some s y h1(2) show ?thesis
      by (intro exI [of _ "h1(u \<mapsto> y \<lparr> subPrev := subPrev x \<rparr>)"])
        (auto simp: unlinkNext_def unlinkPv_def pvOf_def nxOf_def core_def fun_eq_iff)
  qed
  then obtain h2 where "unlinkNext x (t \<lparr> subHeap := h1 \<rparr>) = Some (t \<lparr> subHeap := h2 \<rparr>)" "h2 s = Some x"
      "nxOf h2 = nxOf h1" "pvOf h2 = unlinkPv (nxOf (subHeap t)) (pvOf (subHeap t)) s"
      "\<forall>u. map_option core (h2 u) = map_option core (h1 u)" by blast
  with h1 s show ?thesis
    by (intro exI [of _ h2]) (simp add: unlinkDrainableSubscriber_def)
qed


lemma dll_irrefl:
  "dll nx pv p q ss \<Longrightarrow> distinct ss \<Longrightarrow> q = None \<or> the q \<notin> set ss \<Longrightarrow> s \<in> set ss \<Longrightarrow>
     nx s \<noteq> Some s \<and> pv s \<noteq> Some s"
proof (induction ss arbitrary: p q)
  case (Cons a ss)
  then show ?case by (cases "s = a"; cases ss) auto
qed simp

lemma dll_None: "dll nx pv None q ss \<longleftrightarrow> ss = []"
  by (cases ss) auto

lemma dll_empty: "dll nx pv p q [] \<longleftrightarrow> p = None"
  by simp

lemma queue_rel_sub:
  "queue_rel ext old c a \<Longrightarrow> subHeap c s = Some x \<Longrightarrow>
     sub_rel ext old (outgoingMessages c) s x (queueOf a s)"
  by (simp add: queue_rel_def)

lemma queue_relI:
  assumes "distinct (ready a)"
    and "dll (nxOf (subHeap c)) (pvOf (subHeap c)) (drainableSubscribers c) None (ready a)"
    and "\<And>s x. subHeap c s = Some x \<Longrightarrow> sub_rel ext old (outgoingMessages c) s x (queueOf a s)"
    and "\<And>s. subHeap c s = None \<Longrightarrow> queueOf a s = []"
    and "\<And>s. s \<in> set (ready a) \<longleftrightarrow> queueOf a s \<noteq> []"
    and "length (outgoingMessages c) = backlog a" and "world c = outside a"
  shows "queue_rel ext old c a"
  using assms by (simp add: queue_rel_def)

lemma queue_relD:
  assumes "queue_rel ext old c a"
  shows "distinct (ready a)"
    "dll (nxOf (subHeap c)) (pvOf (subHeap c)) (drainableSubscribers c) None (ready a)"
    "subHeap c s = None \<Longrightarrow> queueOf a s = []"
    "s \<in> set (ready a) \<longleftrightarrow> queueOf a s \<noteq> []"
    "length (outgoingMessages c) = backlog a" "world c = outside a"
  using assms by (simp_all add: queue_rel_def)

lemma ready_dom: "queue_rel ext old c a \<Longrightarrow> s \<in> set (ready a) \<Longrightarrow> \<exists>x. subHeap c s = Some x"
  by (cases "subHeap c s") (auto simp: queue_relD)

lemma sameElseI:
  assumes "\<And>u. map_option asTopics (h u) = map_option asTopics (subHeap c u)"
  shows "sameElse c (c \<lparr> subHeap := h, drainableSubscribers := d, outgoingMessages := out, world := w \<rparr>)"
    and "sameElse c (c \<lparr> subHeap := h, drainableSubscribers := d \<rparr>)"
    and "sameElse c (c \<lparr> subHeap := h \<rparr>)"
  by (simp_all add: sameElse_def assms)

lemma core_asTopics:
  "map_option core (h u) = map_option core (h' u) \<Longrightarrow> map_option asTopics (h u) = map_option asTopics (h' u)"
  by (cases "h u"; cases "h' u") (auto dest: core_simps(3))

lemma sub_rel_core:
  "sub_rel ext old out s x q \<Longrightarrow> core y = core x \<Longrightarrow> sub_rel ext old out s y q"
  by (simp add: sub_rel_def noted_def core_simps [of y x])

lemma sub_rel_none:
  "sub_rel ext old out s x q \<Longrightarrow> sub_rel ext' old' out' s (x \<lparr> numMessageIndices := 0 \<rparr>) []"
  by (simp add: sub_rel_def noted_def)

lemma sub_rel_empty:
  "sub_rel ext old out s x [] \<Longrightarrow> sub_rel ext' old' out' s x []"
  by (auto simp: sub_rel_def noted_def)

lemma ready_links:
  assumes "queue_rel ext old c a" and "subHeap c s = Some x" and "s \<in> set (ready a)"
  shows "subPrev x = Some u \<Longrightarrow> u \<noteq> s \<and> u \<in> dom (subHeap c)"
    and "subNext x = Some u \<Longrightarrow> u \<noteq> s \<and> u \<in> dom (subHeap c)"
proof -
  let ?n = "nxOf (subHeap c)" and ?p = "pvOf (subHeap c)"
  have d: "dll ?n ?p (drainableSubscribers c) None (ready a)" "distinct (ready a)"
    and dom: "\<And>v. v \<in> set (ready a) \<Longrightarrow> v \<in> dom (subHeap c)"
    using assms(1) by (auto simp: queue_rel_def)
  have px: "?p s = subPrev x" and nx: "?n s = subNext x"
    using assms(2) by (simp_all add: pvOf_def nxOf_def)
  show "u \<noteq> s \<and> u \<in> dom (subHeap c)" if "subPrev x = Some u"
    using dll_prev [OF d(1) assms(3) px] dll_irrefl [OF d _ assms(3)] dom that px by auto
  show "u \<noteq> s \<and> u \<in> dom (subHeap c)" if "subNext x = Some u"
    using dll_next [OF d(1) assms(3)] dll_irrefl [OF d _ assms(3)] dom that nx by auto
qed

lemma unlink_ready:
  assumes "queue_rel ext old c a" and "subHeap c s = Some x" and "s \<in> set (ready a)"
    and t: "subHeap t = subHeap c" "drainableSubscribers t = drainableSubscribers c"
  shows "\<exists>h d. unlinkDrainableSubscriber s t = Some (t \<lparr> subHeap := h, drainableSubscribers := d \<rparr>)
     \<and> dll (nxOf h) (pvOf h) d None (remove1 s (ready a)) \<and> h s = Some x
     \<and> (\<forall>u. map_option core (h u) = map_option core (subHeap c u))"
proof -
  have d: "dll (nxOf (subHeap c)) (pvOf (subHeap c)) (drainableSubscribers c) None (ready a)"
      "distinct (ready a)"
    using assms(1) by (simp_all add: queue_rel_def)
  have "nxOf (subHeap c) s = subNext x" using assms(2) by (simp add: nxOf_def)
  with unlink_ok [of t s x] dll_unlink [OF d assms(3)] ready_links [OF assms(1-3)] t assms(2)
  show ?thesis by (simp only: t) fastforce
qed

lemma nxOf_same: "h s = Some x \<Longrightarrow> subNext y = subNext x \<Longrightarrow> nxOf (h(s \<mapsto> y)) = nxOf h"
  by (auto simp: nxOf_def fun_eq_iff)

lemma pvOf_same: "h s = Some x \<Longrightarrow> subPrev y = subPrev x \<Longrightarrow> pvOf (h(s \<mapsto> y)) = pvOf h"
  by (auto simp: pvOf_def fun_eq_iff)

lemma drainWith_ok:
  assumes rel: "queue_rel ext old c a" and s: "s \<in> dom (subHeap c)" "s \<in> old" and np: "\<not> opsPending c"
  shows "\<exists>c'. drainWith ap (onlySends send) s c = Some c' \<and> sameElse c c' \<and>
           queue_rel ext old c' (qDrain send s a)"
proof -
  from s obtain x where x: "subHeap c s = Some x" by blast
  note sub = queue_rel_sub [OF rel x]
  show ?thesis
  proof (cases "queueOf a s = []")
    case True
    then show ?thesis using x rel needsDrainage_queue [OF sub]
      by (simp add: drainWith_def qDrain_def)
  next
    case False
    then have inr: "s \<in> set (ready a)" using rel by (simp add: queue_rel_def)
    let ?t = "c \<lparr> drainingDepth := drainingDepth c + 1 \<rparr>"
    obtain h d where u: "unlinkDrainableSubscriber s ?t = Some (?t \<lparr> subHeap := h, drainableSubscribers := d \<rparr>)"
      and dl: "dll (nxOf h) (pvOf h) d None (remove1 s (ready a))" and hs: "h s = Some x"
      and core: "\<forall>u. map_option core (h u) = map_option core (subHeap c u)"
      using unlink_ready [OF rel x inr, of ?t] by auto
    have dN: "d = None \<longleftrightarrow> remove1 s (ready a) = []"
      using dl dll_None by (cases "remove1 s (ready a)") auto
    let ?o = "if d = None then [] else outgoingMessages c"
    let ?c = "c \<lparr> subHeap := h(s \<mapsto> x \<lparr> numMessageIndices := 0 \<rparr>), drainableSubscribers := d,
       outgoingMessages := ?o, world := deliver send s FIRST (queueOf a s) (world c) \<rparr>"
    have impl: "drainImpl (onlySends send) s (?t \<lparr> subHeap := h, drainableSubscribers := d \<rparr>) =
        Some (?t \<lparr> subHeap := h(s \<mapsto> x \<lparr> numMessageIndices := 0 \<rparr>), drainableSubscribers := d,
          world := deliver send s FIRST (queueOf a s) (world c) \<rparr>)"
      by (subst drainImpl_sends [where x = x and q = "queueOf a s" and ext = ext and old = old])
         (use hs sub s in simp_all)
    have run: "drainWith ap (onlySends send) s c = Some ?c"
      using x False needsDrainage_queue [OF sub] u impl np
      by (simp add: drainWith_def leaveWith_def)
    have other: "sub_rel ext old ?o v y (queueOf a v)" if "h v = Some y" "v \<noteq> s" for v y
    proof -
      from core that obtain y0 where y0: "subHeap c v = Some y0" "core y = core y0"
        by (metis (no_types, lifting) map_option_eq_Some)
      note sv = sub_rel_core [OF queue_rel_sub [OF rel y0(1)] y0(2)]
      show ?thesis
      proof (cases "d = None")
        case True
        with dN that have "v \<notin> set (ready a)" by (metis empty_iff empty_set in_set_remove1)
        then have "queueOf a v = []" using rel by (simp add: queue_rel_def)
        with sv show ?thesis by (metis sub_rel_empty)
      qed (use sv in auto)
    qed
    have dead: "h v = None \<Longrightarrow> queueOf a v = []" for v
      using core rel by (metis (no_types, lifting) map_option_is_None queue_rel_def)
    have "queue_rel ext old ?c (qDrain send s a)"
    proof (rule queue_relI)
      show "sub_rel ext old (outgoingMessages ?c) v y (queueOf (qDrain send s a) v)"
        if "subHeap ?c v = Some y" for v y
        using that False other sub_rel_none [OF sub] by (auto simp: qDrain_def Let_def)
      show "queueOf (qDrain send s a) v = []" if "subHeap ?c v = None" for v
        using that False dead [of v] by (auto simp: qDrain_def Let_def split: if_splits)
      show "v \<in> set (ready (qDrain send s a)) \<longleftrightarrow> queueOf (qDrain send s a) v \<noteq> []" for v
        using False queue_relD(1,4) [OF rel] by (auto simp: qDrain_def Let_def)
    qed (use False queue_relD [OF rel] dl dN hs in
        \<open>simp_all add: qDrain_def Let_def nxOf_same [of h s x] pvOf_same [of h s x]\<close>)
    moreover have "sameElse c ?c"
    proof (rule sameElseI(1))
      show "map_option asTopics ((h(s \<mapsto> x \<lparr> numMessageIndices := 0 \<rparr>)) u) = map_option asTopics (subHeap c u)" for u
        using core_asTopics [of h u "subHeap c"] core x by (cases "u = s") (simp_all add: asTopics_def)
    qed
    ultimately show ?thesis using run by blast
  qed
qed

section \<open>Noting a message\<close>

lemma pushIndex_ok:
  assumes rel: "queue_rel [m] old c a" and x: "subHeap c s = Some x" and s: "s \<in> old"
    and room: "length (queueOf a s) < 32" and b: "backlog a \<le> 65535"
  shows "\<exists>c'. pushIndex s c = Some c' \<and> sameElse c c' \<and> queue_rel [m] (old - {s}) c'
     (a \<lparr> queueOf := (queueOf a)(s := queueOf a s @ [m]),
          ready := (if queueOf a s = [] then s # ready a else ready a) \<rparr>)"
proof -
  note sub = queue_rel_sub [OF rel x]
  let ?k = "numMessageIndices x" and ?l = "length (outgoingMessages c)"
  have k: "?k < 32" and len: "length (messageIndices x) = 32"
    and q: "queueOf a s = noted (outgoingMessages c @ [m]) x"
    and bound: "\<forall>i < ?k. unat (messageIndices x ! i) < ?l"
    using sub room s by (auto simp: sub_rel_def noted_def)
  have l: "unat (of_nat ?l :: u16) = ?l"
    using rel b by (simp add: queue_rel_def)
  have other: "sub_rel [m] (old - {s}) (outgoingMessages c) v y (queueOf a v)"
    if "subHeap c v = Some y" "v \<noteq> s" for v y
    using queue_rel_sub [OF rel that(1)] that(2) by (simp add: sub_rel_def)
  define x1 where "x1 = x \<lparr> messageIndices := (messageIndices x)[?k := of_nat ?l], numMessageIndices := ?k + 1 \<rparr>"
  have new: "sub_rel [m] (old - {s}) (outgoingMessages c) s y (queueOf a s @ [m])"
    if "messageIndices y = messageIndices x1" "numMessageIndices y = numMessageIndices x1" for y
    using that k len l bound unfolding q
    by (auto simp: sub_rel_def noted_def x1_def take_Suc_conv_app_nth less_Suc_eq)
  have dead: "subHeap c v = None \<Longrightarrow> queueOf a v = []" for v
    using rel by (simp add: queue_rel_def)
  show ?thesis
  proof (cases "queueOf a s = []")
    case False
    then have "?k \<noteq> 0" using q len by (simp add: noted_eq_Nil)
    then have run: "pushIndex s c = Some (setSub s x1 c)"
      using x k len by (simp add: pushIndex_def x1_def)
    have links: "nxOf ((subHeap c)(s \<mapsto> x1)) = nxOf (subHeap c)" "pvOf ((subHeap c)(s \<mapsto> x1)) = pvOf (subHeap c)"
      using nxOf_same [of "subHeap c" s x x1] pvOf_same [of "subHeap c" s x x1] x by (simp_all add: x1_def)
    have "queue_rel [m] (old - {s}) (setSub s x1 c)
        (a \<lparr> queueOf := (queueOf a)(s := queueOf a s @ [m]) \<rparr>)"
    proof (rule queue_relI)
      show "sub_rel [m] (old - {s}) (outgoingMessages (setSub s x1 c)) v y
          (queueOf (a \<lparr> queueOf := (queueOf a)(s := queueOf a s @ [m]) \<rparr>) v)"
        if "subHeap (setSub s x1 c) v = Some y" for v y
        using that other new [of x1] by (cases "v = s") auto
      show "queueOf (a \<lparr> queueOf := (queueOf a)(s := queueOf a s @ [m]) \<rparr>) v = []"
        if "subHeap (setSub s x1 c) v = None" for v
        using that dead [of v] by (auto split: if_splits)
      show "v \<in> set (ready (a \<lparr> queueOf := (queueOf a)(s := queueOf a s @ [m]) \<rparr>)) \<longleftrightarrow>
          queueOf (a \<lparr> queueOf := (queueOf a)(s := queueOf a s @ [m]) \<rparr>) v \<noteq> []" for v
        using queue_relD(4) [OF rel, of v] False by simp
    qed (use queue_relD [OF rel] links in simp_all)
    moreover have "sameElse c (setSub s x1 c)"
      using x by (intro sameElseI(3)) (simp add: asTopics_def x1_def)
    ultimately show ?thesis using run False by auto
  next
    case True
    then have k0: "?k = 0" using q len by (simp add: noted_eq_Nil)
    have nr: "s \<notin> set (ready a)" "distinct (ready a)"
      and dl: "dll (nxOf (subHeap c)) (pvOf (subHeap c)) (drainableSubscribers c) None (ready a)"
      using rel True by (auto simp: queue_rel_def)
    let ?x2 = "x1 \<lparr> subNext := drainableSubscribers c, subPrev := None \<rparr>"
    have "\<exists>h. pushIndex s c = Some (c \<lparr> subHeap := h, drainableSubscribers := Some s \<rparr>)
       \<and> dll (nxOf h) (pvOf h) (Some s) None (s # ready a)
       \<and> (\<forall>v. v \<noteq> s \<longrightarrow> map_option core (h v) = map_option core (subHeap c v)) \<and> h s = Some ?x2"
    proof (cases "drainableSubscribers c")
      case None
      with dl have "ready a = []" by (simp add: dll_None)
      then show ?thesis using None x len k0
        by (auto simp: pushIndex_def x1_def nxOf_def pvOf_def)
    next
      case (Some hd)
      with dl have hd: "hd \<in> set (ready a)" "hd \<noteq> s" using nr by (cases "ready a"; auto)+
      then obtain y where y: "subHeap c hd = Some y" using ready_dom [OF rel] by blast
      let ?h = "(subHeap c)(s \<mapsto> ?x2, hd \<mapsto> y \<lparr> subPrev := Some s \<rparr>)"
      have "nxOf ?h = (nxOf (subHeap c))(s := drainableSubscribers c)"
        "pvOf ?h = (pvOf (subHeap c))(s := None, hd := Some s)"
        using hd y by (auto simp: nxOf_def pvOf_def fun_eq_iff)
      with dll_push [OF dl nr] Some have "dll (nxOf ?h) (pvOf ?h) (Some s) None (s # ready a)" by simp
      then show ?thesis using Some x len k0 hd y
        by (intro exI [of _ ?h]) (simp add: pushIndex_def x1_def core_def)
    qed
    then obtain h where run: "pushIndex s c = Some (c \<lparr> subHeap := h, drainableSubscribers := Some s \<rparr>)"
      and dl': "dll (nxOf h) (pvOf h) (Some s) None (s # ready a)"
      and core: "\<forall>v. v \<noteq> s \<longrightarrow> map_option core (h v) = map_option core (subHeap c v)"
      and hs: "h s = Some ?x2" by blast
    have oth: "sub_rel [m] (old - {s}) (outgoingMessages c) v y (queueOf a v)"
      if hv: "h v = Some y" "v \<noteq> s" for v y
    proof -
      from core hv obtain y0 where "subHeap c v = Some y0" "core y = core y0"
        by (metis (no_types, lifting) map_option_eq_Some)
      then show ?thesis using other hv(2) by (blast intro: sub_rel_core)
    qed
    have dead': "h v = None \<Longrightarrow> queueOf a v = []" for v
      using core dead hs by (metis (no_types, lifting) map_option_is_None option.distinct(1))
    have "queue_rel [m] (old - {s}) (c \<lparr> subHeap := h, drainableSubscribers := Some s \<rparr>)
        (a \<lparr> queueOf := (queueOf a)(s := [m]), ready := s # ready a \<rparr>)"
    proof (rule queue_relI)
      show "sub_rel [m] (old - {s}) (outgoingMessages (c \<lparr> subHeap := h, drainableSubscribers := Some s \<rparr>)) v y
          (queueOf (a \<lparr> queueOf := (queueOf a)(s := [m]), ready := s # ready a \<rparr>) v)"
        if "subHeap (c \<lparr> subHeap := h, drainableSubscribers := Some s \<rparr>) v = Some y" for v y
        using that oth new [of ?x2] hs True by (cases "v = s") auto
      show "queueOf (a \<lparr> queueOf := (queueOf a)(s := [m]), ready := s # ready a \<rparr>) v = []"
        if "subHeap (c \<lparr> subHeap := h, drainableSubscribers := Some s \<rparr>) v = None" for v
        using that dead' [of v] hs by auto
      show "v \<in> set (ready (a \<lparr> queueOf := (queueOf a)(s := [m]), ready := s # ready a \<rparr>)) \<longleftrightarrow>
          queueOf (a \<lparr> queueOf := (queueOf a)(s := [m]), ready := s # ready a \<rparr>) v \<noteq> []" for v
        using queue_relD(4) [OF rel, of v] by simp
    qed (use dl' nr queue_relD [OF rel] in simp_all)
    moreover have "sameElse c (c \<lparr> subHeap := h, drainableSubscribers := Some s \<rparr>)"
    proof (rule sameElseI(2))
      show "map_option asTopics (h u) = map_option asTopics (subHeap c u)" for u
        using core_asTopics [of h u "subHeap c"] core hs x by (cases "u = s") (simp_all add: asTopics_def x1_def)
    qed
    ultimately show ?thesis using run True by auto
  qed
qed


section \<open>Publishing\<close>

text \<open>What \<open>walk\<close> stands for: the order in which an unordered set is walked, any order of its elements.\<close>

definition walks :: "(nat set \<Rightarrow> nat list) \<Rightarrow> bool" where
  "walks walk \<longleftrightarrow> (\<forall>A. finite A \<longrightarrow> set (walk A) = A \<and> distinct (walk A))"

lemma qDrain_backlog: "backlog (qDrain send s a) \<le> backlog a"
  by (simp add: qDrain_def Let_def)

lemma qEnqueue_backlog: "backlog (qEnqueue send m s a) \<le> backlog a"
  using qDrain_backlog [of send s a] by (simp add: qEnqueue_def Let_def)

lemma qDrain_queue [simp]: "queueOf (qDrain send s a) s = []"
  by (simp add: qDrain_def Let_def)

lemma queue_length:
  assumes "queue_rel ext old c a" and "subHeap c s = Some x"
  shows "length (queueOf a s) = numMessageIndices x" "numMessageIndices x \<le> 32"
  using queue_rel_sub [OF assms] by (auto simp: sub_rel_def noted_def)

lemma publishTo_ok:
  assumes rel: "queue_rel [m] old c a" and s: "s \<in> dom (subHeap c)" "s \<in> old" and np: "\<not> opsPending c"
    and b: "backlog a \<le> 65535" and ns: "sender \<noteq> Some s"
  shows "\<exists>c'. publishTo ap (onlySends send) sender p s (ref, c) = Some (True, c') \<and> sameElse c c' \<and>
           queue_rel [m] (old - {s}) c' (qEnqueue send m s a)"
proof -
  from s obtain x where x: "subHeap c s = Some x" by blast
  note len = queue_length [OF rel x]
  show ?thesis
  proof (cases "numMessageIndices x = 32")
    case True
    obtain c1 where c1: "drainWith ap (onlySends send) s c = Some c1" "sameElse c c1"
        "queue_rel [m] old c1 (qDrain send s a)"
      using drainWith_ok [OF rel s np] by blast
    obtain x1 where x1: "subHeap c1 s = Some x1" using sameElse_sub [OF c1(2) x] by blast
    obtain c2 where c2: "pushIndex s c1 = Some c2" "sameElse c1 c2"
        "queue_rel [m] (old - {s}) c2 (qEnqueue send m s a)"
      using pushIndex_ok [OF c1(3) x1 s(2)] b qDrain_backlog [of send s a] True len
      by (auto simp: qEnqueue_def Let_def)
    have "\<not> opsPending c1" using np c1(2) by (simp add: sameElse_fields)
    then show ?thesis
      using x x1 True np c1 c2 ns sameElse_trans [OF c1(2) c2(2)]
      by (simp add: publishTo_def)
  next
    case False
    with len have "length (queueOf a s) < 32" by simp
    with pushIndex_ok [OF rel x s(2) _ b] obtain c2 where "pushIndex s c = Some c2" "sameElse c c2"
        "queue_rel [m] (old - {s}) c2 (qEnqueue send m s a)"
      using False len by (auto simp: qEnqueue_def Let_def)
    then show ?thesis using x False np ns by (simp add: publishTo_def)
  qed
qed

lemma publishLoop_ok:
  assumes "queue_rel [m] old c a" and "set ss \<subseteq> dom (subHeap c)" and "set ss \<subseteq> old" and "distinct ss"
    and "\<not> opsPending c" and "backlog a \<le> 65535" and "stillWalking p ms c"
  shows "\<exists>c'. publishLoop ap (onlySends send) sender p ms ss (ref, c) =
             Some (ref \<or> filter (\<lambda>s. sender \<noteq> Some s) ss \<noteq> [], c') \<and> sameElse c c' \<and>
           queue_rel [m] (old - set (filter (\<lambda>s. sender \<noteq> Some s) ss)) c'
             (fold (qEnqueue send m) (filter (\<lambda>s. sender \<noteq> Some s) ss) a)"
  using assms
proof (induction ss arbitrary: old c a ref)
  case Nil
  then show ?case by simp
next
  case (Cons s ss)
  show ?case
  proof (cases "sender = Some s")
    case True
    with Cons.prems have "publishLoop ap (onlySends send) sender p ms (s # ss) (ref, c) =
        publishLoop ap (onlySends send) sender p ms ss (ref, c)"
      by (simp add: publishTo_def)
    with True Cons.IH [of old c a ref] Cons.prems show ?thesis by simp
  next
    case False
    obtain c1 where c1: "publishTo ap (onlySends send) sender p s (ref, c) = Some (True, c1)"
        "sameElse c c1" "queue_rel [m] (old - {s}) c1 (qEnqueue send m s a)"
      using publishTo_ok [OF Cons.prems(1) _ _ Cons.prems(5,6) False, of ap send p ref] Cons.prems(2,3) by auto
    have still: "stillWalking p ms c1" "\<not> opsPending c1" "dom (subHeap c1) = dom (subHeap c)"
      using Cons.prems(5,7) c1(2) sameElse_dom [OF c1(2)] by (simp_all add: stillWalking_def sameElse_fields)
    have "backlog (qEnqueue send m s a) \<le> 65535"
      using Cons.prems(6) qEnqueue_backlog [of send m s a] by simp
    then obtain c2 where c2: "publishLoop ap (onlySends send) sender p ms ss (True, c1) =
          Some (True \<or> filter (\<lambda>s. sender \<noteq> Some s) ss \<noteq> [], c2)" "sameElse c1 c2"
        "queue_rel [m] (old - {s} - set (filter (\<lambda>s. sender \<noteq> Some s) ss)) c2
           (fold (qEnqueue send m) (filter (\<lambda>s. sender \<noteq> Some s) ss) (qEnqueue send m s a))"
      using Cons.IH [OF c1(3), of True] still Cons.prems by auto
    have set_eq: "old - {s} - set (filter (\<lambda>s. sender \<noteq> Some s) ss) =
        old - set (filter (\<lambda>s. sender \<noteq> Some s) (s # ss))" using False by auto
    show ?thesis
      using c1 c2 False still(1) sameElse_trans [OF c1(2) c2(2)] unfolding set_eq
      by simp
  qed
qed

section \<open>Draining all subscribers\<close>

definition zeroed :: "nat set \<Rightarrow> (nat \<rightharpoonup> Subscriber) \<Rightarrow> nat \<rightharpoonup> Subscriber" where
  "zeroed S h = (\<lambda>s. if s \<in> S then map_option (\<lambda>x. x \<lparr> numMessageIndices := 0 \<rparr>) (h s) else h s)"

lemma zeroed_links [simp]: "nxOf (zeroed S h) = nxOf h" "pvOf (zeroed S h) = pvOf h"
  by (auto simp: zeroed_def nxOf_def pvOf_def fun_eq_iff split: option.splits)

lemma zeroed_upd: "h s = Some x \<Longrightarrow> zeroed S (h(s \<mapsto> x \<lparr> numMessageIndices := 0 \<rparr>)) = zeroed (insert s S) h"
  by (auto simp: zeroed_def fun_eq_iff)

lemma drainList_ok:
  assumes "dll (nxOf (subHeap c)) (pvOf (subHeap c)) p q ss" and "distinct ss" and "length ss \<le> lim"
    and "\<And>s. s \<in> set ss \<Longrightarrow> \<exists>x. subHeap c s = Some x \<and> \<not> pendingDestruction x \<and>
           sub_rel ext UNIV (outgoingMessages c) s x (Q s)"
  shows "drainList lim (onlySends send) p c = Some (c \<lparr> subHeap := zeroed (set ss) (subHeap c),
           world := fold (\<lambda>s. deliver send s FIRST (Q s)) ss (world c) \<rparr>)"
  using assms
proof (induction ss arbitrary: c p q lim)
  case Nil
  then show ?case by (simp add: zeroed_def)
next
  case (Cons s ss)
  obtain x where x: "subHeap c s = Some x" "\<not> pendingDestruction x"
      "sub_rel ext UNIV (outgoingMessages c) s x (Q s)" using Cons.prems(4) [of s] by auto
  obtain k where k: "lim = Suc k" using Cons.prems(3) by (cases lim) auto
  let ?c = "c \<lparr> subHeap := (subHeap c)(s \<mapsto> x \<lparr> numMessageIndices := 0 \<rparr>),
      world := deliver send s FIRST (Q s) (world c) \<rparr>"
  have links: "nxOf ((subHeap c)(s \<mapsto> x \<lparr> numMessageIndices := 0 \<rparr>)) = nxOf (subHeap c)"
      "pvOf ((subHeap c)(s \<mapsto> x \<lparr> numMessageIndices := 0 \<rparr>)) = pvOf (subHeap c)"
    using x by (simp_all add: nxOf_same [of "subHeap c" s x] pvOf_same [of "subHeap c" s x])
  have "drainList k (onlySends send) (subNext x) ?c = Some (?c \<lparr> subHeap := zeroed (set ss) (subHeap ?c),
           world := fold (\<lambda>s. deliver send s FIRST (Q s)) ss (world ?c) \<rparr>)"
  proof (rule Cons.IH)
    show "dll (nxOf (subHeap ?c)) (pvOf (subHeap ?c)) (subNext x) (Some s) ss"
    proof -
      have "nxOf (subHeap c) s = subNext x" using x(1) by (simp add: nxOf_def)
      with Cons.prems(1) links show ?thesis by simp
    qed
    show "\<exists>y. subHeap ?c v = Some y \<and> \<not> pendingDestruction y \<and>
        sub_rel ext UNIV (outgoingMessages ?c) v y (Q v)" if "v \<in> set ss" for v
      using Cons.prems(4) [of v] Cons.prems(2) that by auto
  qed (use Cons.prems k in simp_all)
  moreover have "drainImpl (onlySends send) s c = Some ?c"
    by (rule drainImpl_sends [OF x(1,3)]) simp
  ultimately show ?case
    using Cons.prems(1) x k by (simp add: wasFreed_def zeroed_upd)
qed

lemma drainAllWith_ok:
  assumes rel: "queue_rel [] UNIV c a" and np: "\<not> opsPending c"
    and lim: "length (ready a) \<le> lim" and alive: "\<And>s x. subHeap c s = Some x \<Longrightarrow> \<not> pendingDestruction x"
  shows "\<exists>c'. drainAllWith ap lim (onlySends send) c = Some c' \<and> sameElse c c' \<and>
           queue_rel [] UNIV c' (qDrainAll send a)"
proof (cases "ready a = []")
  case True
  then have "drainableSubscribers c = None" using queue_relD(2) [OF rel] by simp
  then show ?thesis using True rel by (simp add: drainAllWith_def qDrainAll_def)
next
  case False
  let ?c = "c \<lparr> subHeap := zeroed (set (ready a)) (subHeap c), drainableSubscribers := None,
     outgoingMessages := [], world := fold (\<lambda>s. deliver send s FIRST (queueOf a s)) (ready a) (world c) \<rparr>"
  have d: "drainableSubscribers c \<noteq> None"
    using queue_relD(2) [OF rel] False dll_None by metis
  let ?t = "c \<lparr> drainingDepth := drainingDepth c + 1 \<rparr>"
  have "drainList lim (onlySends send) (drainableSubscribers c) ?t = Some (?t
      \<lparr> subHeap := zeroed (set (ready a)) (subHeap ?t),
        world := fold (\<lambda>s. deliver send s FIRST (queueOf a s)) (ready a) (world ?t) \<rparr>)"
    by (rule drainList_ok [where q = None and ext = "[]"])
      (use queue_relD(1,2) [OF rel] lim ready_dom [OF rel] queue_rel_sub [OF rel] alive in fastforce)+
  then have "drainAllWith ap lim (onlySends send) c = Some ?c"
    using d np by (simp add: drainAllWith_def leaveWith_def)
  moreover have "sameElse c ?c"
  proof (rule sameElseI(1))
    show "map_option asTopics (zeroed (set (ready a)) (subHeap c) u) = map_option asTopics (subHeap c u)" for u
      by (cases "subHeap c u") (simp_all add: zeroed_def asTopics_def)
  qed
  moreover have "queue_rel [] UNIV ?c (qDrainAll send a)"
  proof (rule queue_relI)
    show "sub_rel [] UNIV (outgoingMessages ?c) v y (queueOf (qDrainAll send a) v)" if y: "subHeap ?c v = Some y" for v y
    proof -
      from y obtain y0 where y0: "subHeap c v = Some y0" by (cases "subHeap c v") (auto simp: zeroed_def split: if_splits)
      note sv = queue_rel_sub [OF rel y0]
      show ?thesis
      proof (cases "v \<in> set (ready a)")
        case True
        with y y0 have "y = y0 \<lparr> numMessageIndices := 0 \<rparr>" by (simp add: zeroed_def)
        then show ?thesis using sub_rel_none [OF sv] False by (simp add: qDrainAll_def)
      next
        case nr: False
        with y y0 have "y = y0" by (simp add: zeroed_def)
        moreover have "queueOf a v = []" using nr queue_relD(4) [OF rel] by blast
        ultimately show ?thesis using sv sub_rel_empty False by (simp add: qDrainAll_def)
      qed
    qed
  qed (use False queue_relD(6) [OF rel] in \<open>simp_all add: qDrainAll_def\<close>)
  ultimately show ?thesis by blast
qed

end
