(* ===== verification/TopicService.thy ===== *)
theory TopicService
  imports TopicQueues
begin

text \<open>
  Membership: the two maps of topics and the sets of the subscribers agree and stay so. With the queues
  of \<open>TopicQueues\<close> this gives the whole tree as a refinement of the machine of queues, for any sequence
  of operations, and what every subscriber receives.
\<close>

section \<open>Joining and leaving topics\<close>

lemma maps_rel_member:
  "maps_rel c M \<Longrightarrow> topicsByName c n = Some p \<Longrightarrow>
     topicHeap c p = Some \<lparr> topicName = n, topicMembers = M n \<rparr> \<and> p < freshTopic c \<and> M n \<noteq> {}"
  unfolding maps_rel_def by (metis option.distinct(1))

lemma maps_rel_None: "maps_rel c M \<Longrightarrow> topicsByName c n = None \<longleftrightarrow> M n = {}"
  by (simp add: maps_rel_def)

lemma maps_rel_inj: "maps_rel c M \<Longrightarrow> topicsByName c n = Some p \<Longrightarrow> topicsByName c n' = Some p \<Longrightarrow> n = n'"
  unfolding maps_rel_def by (metis Topic.select_convs(1) option.inject)

lemma maps_relI:
  assumes "\<And>n. topicsByName c n = None \<longleftrightarrow> M n = {}"
    and "\<And>n p. topicsByName c n = Some p \<Longrightarrow>
           p < freshTopic c \<and> topicHeap c p = Some \<lparr> topicName = n, topicMembers = M n \<rparr>"
  shows "maps_rel c M"
  using assms by (simp add: maps_rel_def)

lemma maps_rel_update:
  assumes m: "maps_rel c M" and p: "topicsByName c n = Some p" and "A \<noteq> {}"
  shows "maps_rel (setTopic p \<lparr> topicName = n, topicMembers = A \<rparr> c) (M(n := A))"
proof (rule maps_relI)
  show "topicsByName (setTopic p \<lparr> topicName = n, topicMembers = A \<rparr> c) k = None \<longleftrightarrow> (M(n := A)) k = {}" for k
    using maps_rel_None [OF m] p assms(3) by (cases "k = n") simp_all
  show "q < freshTopic (setTopic p \<lparr> topicName = n, topicMembers = A \<rparr> c) \<and>
      topicHeap (setTopic p \<lparr> topicName = n, topicMembers = A \<rparr> c) q =
        Some \<lparr> topicName = k, topicMembers = (M(n := A)) k \<rparr>"
    if "topicsByName (setTopic p \<lparr> topicName = n, topicMembers = A \<rparr> c) k = Some q" for k q
    using maps_rel_member [OF m, of k q] maps_rel_inj [OF m p, of k] that p by (cases "q = p") auto
qed

lemma maps_rel_remove:
  assumes m: "maps_rel c M" and p: "topicsByName c n = Some p"
  shows "maps_rel (c \<lparr> topicHeap := (topicHeap c)(p := None), topicsByName := (topicsByName c)(n := None) \<rparr>) (M(n := {}))"
    (is "maps_rel ?c _")
proof (rule maps_relI)
  show "topicsByName ?c k = None \<longleftrightarrow> (M(n := {})) k = {}" for k
    using m by (simp add: maps_rel_def)
  show "q < freshTopic ?c \<and> topicHeap ?c q = Some \<lparr> topicName = k, topicMembers = (M(n := {})) k \<rparr>"
    if "topicsByName ?c k = Some q" for k q
    using maps_rel_member [OF m, of k q] maps_rel_inj [OF m p, of k] that by (auto split: if_splits)
qed

lemma maps_rel_cong:
  "maps_rel c M \<Longrightarrow> topicHeap d = topicHeap c \<Longrightarrow> topicsByName d = topicsByName c \<Longrightarrow> freshTopic d = freshTopic c \<Longrightarrow>
     maps_rel d M"
  by (simp add: maps_rel_def)

text \<open>The three ways a member leaves a topic do the same.\<close>

definition leftTopic :: "nat \<Rightarrow> bytes \<Rightarrow> nat set \<Rightarrow> ('m, 'w) TopicTree \<Rightarrow> ('m, 'w) TopicTree \<Rightarrow> bool" where
  "leftTopic s n A c c' \<longleftrightarrow> (\<exists>h b. c' = c \<lparr> topicHeap := h, topicsByName := b \<rparr>) \<and>
     (\<forall>n'. topicsByName c' n' = (if n' = n \<and> A \<subseteq> {s} then None else topicsByName c n'))"

lemma setTopic_shape: "\<exists>h b. setTopic p x c = c \<lparr> topicHeap := h, topicsByName := b \<rparr>"
  by (intro exI [of _ "(topicHeap c)(p \<mapsto> x)"] exI [of _ "topicsByName c"]) simp

lemma leaveTopic_ok:
  assumes m: "maps_rel c M" and p: "topicsByName c n = Some p" and s: "s \<in> M n" "finite (M n)"
  shows "\<exists>c'. leaveTopic s p c = Some c' \<and> leftTopic s n (M n) c c' \<and> maps_rel c' (M(n := M n - {s}))"
proof (cases "M n = {s}")
  case True
  then show ?thesis using maps_rel_member [OF m p] maps_rel_remove [OF m p] p
    by (intro exI [of _ "c \<lparr> topicHeap := (topicHeap c)(p := None), topicsByName := (topicsByName c)(n := None) \<rparr>"])
      (auto simp: leaveTopic_def eraseTopicName_def leftTopic_def)
next
  case False
  then have ne: "M n - {s} \<noteq> {}" "card (M n) \<noteq> 1" "\<not> M n \<subseteq> {s}"
    using s by (auto simp: card_1_singleton_iff)
  then show ?thesis using maps_rel_member [OF m p] maps_rel_update [OF m p ne(1)] p
    by (intro exI [of _ "setTopic p \<lparr> topicName = n, topicMembers = M n - {s} \<rparr> c"])
      (simp add: leaveTopic_def leftTopic_def, blast intro: setTopic_shape)
qed

lemma eraseFromTopic_ok:
  assumes m: "maps_rel c M" and p: "topicsByName c n = Some p" and s: "s \<in> M n" and np: "\<not> opsPending c"
  shows "\<exists>c'. eraseFromTopic s p k c = Some c' \<and> leftTopic s n (M n) c c' \<and> maps_rel c' (M(n := M n - {s}))"
proof (cases "M n = {s}")
  case True
  then show ?thesis using maps_rel_member [OF m p] maps_rel_remove [OF m p] p np
    by (intro exI [of _ "c \<lparr> topicHeap := (topicHeap c)(p := None), topicsByName := (topicsByName c)(n := None) \<rparr>"])
      (auto simp: eraseFromTopic_def Let_def eraseTopicName_def leftTopic_def)
next
  case False
  then have ne: "M n - {s} \<noteq> {}" "\<not> M n \<subseteq> {s}" using s by auto
  then show ?thesis using maps_rel_member [OF m p] maps_rel_update [OF m p ne(1)] p
    by (intro exI [of _ "setTopic p \<lparr> topicName = n, topicMembers = M n - {s} \<rparr> c"])
      (simp add: eraseFromTopic_def Let_def leftTopic_def, blast intro: setTopic_shape)
qed

definition leftNames :: "('m, 'w) TopicTree \<Rightarrow> nat list \<Rightarrow> bytes set" where
  "leftNames c ps = {n. \<exists>p \<in> set ps. topicsByName c n = Some p}"

lemma leaveTopics_ok:
  assumes "maps_rel c M" and "distinct ps" and "\<And>n. finite (M n)"
    and "\<And>p. p \<in> set ps \<Longrightarrow> \<exists>n. topicsByName c n = Some p \<and> s \<in> M n"
  shows "\<exists>h b. leaveTopics s ps c = Some (c \<lparr> topicHeap := h, topicsByName := b \<rparr>) \<and>
     maps_rel (c \<lparr> topicHeap := h, topicsByName := b \<rparr>) (\<lambda>n. if n \<in> leftNames c ps then M n - {s} else M n) \<and>
     b = (\<lambda>n. if n \<in> leftNames c ps \<and> M n \<subseteq> {s} then None else topicsByName c n)"
  using assms
proof (induction ps arbitrary: c M)
  case Nil
  then show ?case by (intro exI [of _ "topicHeap c"] exI [of _ "topicsByName c"]) (simp add: leftNames_def)
next
  case (Cons p ps)
  obtain n where n: "topicsByName c n = Some p" "s \<in> M n" using Cons.prems(4) by auto
  let ?M = "M(n := M n - {s})"
  obtain c1 where c1: "leaveTopic s p c = Some c1" "leftTopic s n (M n) c c1" "maps_rel c1 ?M"
    using leaveTopic_ok [OF Cons.prems(1) n] Cons.prems(3) by blast
  have by1: "topicsByName c1 k = (if k = n \<and> M n \<subseteq> {s} then None else topicsByName c k)" for k
    using c1(2) by (simp add: leftTopic_def)
  have inj: "k = n" if "topicsByName c k = Some p" for k
    using maps_rel_inj [OF Cons.prems(1) n(1) that] by simp
  have other: "\<exists>k. topicsByName c1 k = Some p' \<and> s \<in> ?M k" if p': "p' \<in> set ps" for p'
  proof -
    obtain k where k: "topicsByName c k = Some p'" "s \<in> M k" using Cons.prems(4) [of p'] p' by auto
    with n Cons.prems(2) p' have "k \<noteq> n" by auto
    with k show ?thesis by (intro exI [of _ k]) (simp add: by1)
  qed
  have fin: "finite (?M k)" for k using Cons.prems(3) by simp
  have "distinct ps" using Cons.prems(2) by simp
  from Cons.IH [OF c1(3) this fin other]
  obtain h b where hb: "leaveTopics s ps c1 = Some (c1 \<lparr> topicHeap := h, topicsByName := b \<rparr>)"
    "maps_rel (c1 \<lparr> topicHeap := h, topicsByName := b \<rparr>) (\<lambda>k. if k \<in> leftNames c1 ps then ?M k - {s} else ?M k)"
    "b = (\<lambda>k. if k \<in> leftNames c1 ps \<and> ?M k \<subseteq> {s} then None else topicsByName c1 k)"
    by blast
  have left: "k \<in> leftNames c (p # ps) \<longleftrightarrow> k = n \<or> k \<in> leftNames c1 ps" for k
  proof (cases "k = n")
    case True
    then show ?thesis using n by (simp add: leftNames_def)
  next
    case False
    then have "topicsByName c k \<noteq> Some p" using inj by blast
    with False show ?thesis by (simp add: leftNames_def by1)
  qed
  have nn: "n \<notin> leftNames c1 ps"
    using n Cons.prems(2) by (auto simp: leftNames_def by1 split: if_splits)
  have M_eq: "(\<lambda>k. if k \<in> leftNames c1 ps then ?M k - {s} else ?M k) =
      (\<lambda>k. if k \<in> leftNames c (p # ps) then M k - {s} else M k)"
    by (rule ext) (use nn left in simp)
  have b_eq: "b = (\<lambda>k. if k \<in> leftNames c (p # ps) \<and> M k \<subseteq> {s} then None else topicsByName c k)"
    by (rule ext) (use nn left in \<open>auto simp: hb(3) by1\<close>)
  have c_eq: "c1 \<lparr> topicHeap := h, topicsByName := b \<rparr> = c \<lparr> topicHeap := h, topicsByName := b \<rparr>"
    using c1(2) by (auto simp: leftTopic_def)
  have run: "leaveTopics s (p # ps) c = Some (c \<lparr> topicHeap := h, topicsByName := b \<rparr>)"
    by (simp add: c1(1) hb(1) c_eq)
  have "maps_rel (c \<lparr> topicHeap := h, topicsByName := b \<rparr>)
      (\<lambda>k. if k \<in> leftNames c (p # ps) then M k - {s} else M k)"
    using hb(2) unfolding M_eq c_eq .
  with run b_eq show ?case by blast
qed


section \<open>Every operation of the tree is one of the machine\<close>

definition tree_rel :: "('m, 'w) TopicTree \<Rightarrow> ('m, 'w) PubSub \<Rightarrow> bool" where
  "tree_rel c a \<longleftrightarrow> idle c \<and> topics_rel c a \<and> queue_rel [] UNIV c a \<and>
     backlog a \<le> 65535"

lemma tree_relD:
  assumes "tree_rel c a"
  shows "idle c" "topics_rel c a" "queue_rel [] UNIV c a" "backlog a \<le> 65535"
  using assms by (simp_all add: tree_rel_def)

lemma topics_relD:
  assumes "topics_rel c a"
  shows "finite (live a)" "freshSub c = created a" "dom (subHeap c) = live a"
    "s \<notin> live a \<Longrightarrow> topicsOf a s = {}" "s \<in> live a \<Longrightarrow> s < created a" "finite (topicsOf a s)"
    "subHeap c s = Some x \<Longrightarrow> \<not> pendingDestruction x"
    "subHeap c s = Some x \<Longrightarrow> subTopics x = {p. \<exists>n \<in> topicsOf a s. topicsByName c n = Some p}"
    "maps_rel c (\<lambda>n. subscribersOf n a)"
  using assms by (auto simp: topics_rel_def)

lemma topics_relI:
  assumes "finite (live a)" "freshSub c = created a" "dom (subHeap c) = live a"
    "\<And>s. s \<notin> live a \<Longrightarrow> topicsOf a s = {}" "\<And>s. s \<in> live a \<Longrightarrow> s < created a" "\<And>s. finite (topicsOf a s)"
    "\<And>s x. subHeap c s = Some x \<Longrightarrow> \<not> pendingDestruction x"
    "\<And>s x. subHeap c s = Some x \<Longrightarrow> subTopics x = {p. \<exists>n \<in> topicsOf a s. topicsByName c n = Some p}"
    "maps_rel c (\<lambda>n. subscribersOf n a)"
  shows "topics_rel c a"
  using assms by (simp add: topics_rel_def)

lemma live_sub: "topics_rel c a \<Longrightarrow> s \<in> live a \<Longrightarrow> \<exists>x. subHeap c s = Some x"
  using topics_relD(3) by fastforce

lemma ready_live:
  assumes "tree_rel c a" shows "set (ready a) \<subseteq> live a" "length (ready a) \<le> card (live a)"
proof -
  show s: "set (ready a) \<subseteq> live a"
    using ready_dom [OF tree_relD(3) [OF assms]] topics_relD(3) [OF tree_relD(2) [OF assms]] by blast
  have "length (ready a) = card (set (ready a))"
    using queue_relD(1) [OF tree_relD(3) [OF assms]] by (simp add: distinct_card)
  also have "\<dots> \<le> card (live a)"
    using s topics_relD(1) [OF tree_relD(2) [OF assms]] by (rule card_mono [rotated])
  finally show "length (ready a) \<le> card (live a)" .
qed

lemma finite_subscribers: "topics_rel c a \<Longrightarrow> finite (subscribersOf n a)"
  by (rule finite_subset [of _ "live a"]) (auto simp: subscribersOf_def topics_relD)

lemma sub_rel_subs: "sub_rel ext old out s (x \<lparr> subTopics := T \<rparr>) q = sub_rel ext old out s x q"
  by (simp add: sub_rel_def noted_def)

lemma queue_rel_subs:
  assumes "queue_rel ext old c a" and "queueOf a' = queueOf a" "ready a' = ready a" "backlog a' = backlog a"
    "outside a' = outside a"
    and "outgoingMessages d = outgoingMessages c" "drainableSubscribers d = drainableSubscribers c" "world d = world c"
    and "subHeap d = (subHeap c)(s \<mapsto> x \<lparr> subTopics := T \<rparr>)" "subHeap c s = Some x"
  shows "queue_rel ext old d a'"
proof (rule queue_relI)
  show "sub_rel ext old (outgoingMessages d) v y (queueOf a' v)" if "subHeap d v = Some y" for v y
    using that queue_rel_sub [OF assms(1)] assms(2,6,9,10) by (cases "v = s") (auto simp: sub_rel_subs)
qed (use queue_relD [OF assms(1)] assms nxOf_same [of "subHeap c" s x] pvOf_same [of "subHeap c" s x] in \<open>auto split: if_splits\<close>)

lemma subscribersOf_qSubscribe:
  "s \<in> live a \<Longrightarrow> subscribersOf k (qSubscribe s n a) = (if k = n then insert s (subscribersOf n a) else subscribersOf k a)"
  by (auto simp: subscribersOf_def qSubscribe_def)

lemma subscribersOf_qUnsubscribe:
  "subscribersOf k (qUnsubscribe s n a) = (if k = n then subscribersOf n a - {s} else subscribersOf k a)"
  by (auto simp: subscribersOf_def qUnsubscribe_def)

lemma subTopics_iff:
  assumes "topics_rel c a" and "subHeap c s = Some x" and "topicsByName c n = Some p"
  shows "p \<in> subTopics x \<longleftrightarrow> n \<in> topicsOf a s"
  using assms(3) maps_rel_inj [OF topics_relD(9) [OF assms(1)] assms(3)]
  by (subst topics_relD(8) [OF assms(1,2)]) blast

lemma subscribe_ok:
  assumes rel: "tree_rel c a" and s: "s \<in> live a"
  shows "\<exists>r c'. subscribe s n c = Some (r, c') \<and> (r = None \<longleftrightarrow> n \<in> topicsOf a s) \<and> tree_rel c' (qSubscribe s n a)"
proof -
  note idle = tree_relD(1) [OF rel] and top = tree_relD(2) [OF rel] and que = tree_relD(3) [OF rel]
  note maps = topics_relD(9) [OF top]
  obtain x where x: "subHeap c s = Some x" using live_sub [OF top s] by blast
  have noIter: "iteratingSubscriber c \<noteq> Some s" "iteratingTopic c = None" using idle by (simp_all add: idle_def)
  define c1 where "c1 = (case topicsByName c n of None \<Rightarrow> snd (newTopic n c) | Some p \<Rightarrow> c)"
  define p where "p = (case topicsByName c n of None \<Rightarrow> freshTopic c | Some p \<Rightarrow> p)"
  define T where "T = insert p (subTopics x)"
  define M where "M = insert s (subscribersOf n a)"
  define c2 where "c2 = setTopic p \<lparr> topicName = n, topicMembers = M \<rparr> (setSub s (x \<lparr> subTopics := T \<rparr>) c1)"
  have sub2: "subHeap c2 = (subHeap c)(s \<mapsto> x \<lparr> subTopics := T \<rparr>)"
    and by2: "topicsByName c2 = (topicsByName c)(n \<mapsto> p)"
    and top2: "topicHeap c2 q = (if q = p then Some \<lparr> topicName = n, topicMembers = M \<rparr> else topicHeap c q)" for q
    by (auto simp: c2_def c1_def p_def newTopic_def fun_eq_iff split: option.splits)
  have same2: "outgoingMessages c2 = outgoingMessages c" "drainableSubscribers c2 = drainableSubscribers c"
      "world c2 = world c" "freshSub c2 = freshSub c" "idle c2 = idle c"
    by (simp_all add: c2_def c1_def newTopic_def idle_def split: option.splits)
  show ?thesis
  proof (cases "n \<in> topicsOf a s")
    case True
    then have "s \<in> subscribersOf n a" using s by (simp add: subscribersOf_def)
    then obtain q where q: "topicsByName c n = Some q"
      using maps_rel_None [OF maps, of n] by (cases "topicsByName c n") auto
    then have "subscribe s n c = Some (None, c)"
      using noIter x True subTopics_iff [OF top x q] by (simp add: subscribe_def lookupTopic_def)
    moreover have "qSubscribe s n a = a" using True by (simp add: qSubscribe_def insert_absorb)
    ultimately show ?thesis using True rel by simp
  next
    case False
    have pn: "p \<notin> subTopics x"
    proof (cases "topicsByName c n")
      case None
      have "q < freshTopic c" if "q \<in> subTopics x" for q
        using that topics_relD(8) [OF top x] maps_rel_member [OF maps] by auto
      then show ?thesis using None by (auto simp: p_def)
    next
      case (Some q)
      then show ?thesis using False subTopics_iff [OF top x Some] by (simp add: p_def)
    qed
    have heap: "topicHeap c1 p = Some \<lparr> topicName = n, topicMembers = subscribersOf n a \<rparr>"
    proof (cases "topicsByName c n")
      case None
      then show ?thesis using maps_rel_None [OF maps, of n] by (simp add: c1_def p_def newTopic_def)
    next
      case (Some q)
      then show ?thesis using maps_rel_member [OF maps Some] by (simp add: c1_def p_def)
    qed
    have run: "subscribe s n c = Some (Some p, c2)"
    proof -
      have c1p: "(case lookupTopic n c of None \<Rightarrow> newTopic n c | Some p \<Rightarrow> (p, c)) = (p, c1)"
        by (simp add: lookupTopic_def c1_def p_def newTopic_def split: option.splits)
      have "subHeap c1 s = Some x" "iteratingTopic c1 = None"
        using x noIter by (auto simp: c1_def newTopic_def split: option.splits)
      then show ?thesis using noIter(1) pn heap
        by (simp add: subscribe_def c1p c2_def T_def M_def)
    qed
    have pfresh: "p < freshTopic c2" and ge: "freshTopic c \<le> freshTopic c2"
      using maps_rel_member [OF maps] by (auto simp: c2_def c1_def p_def newTopic_def split: option.splits)
    have inj: "k = n" if "topicsByName c k = Some p" for k
    proof (cases "topicsByName c n")
      case None
      then show ?thesis using that maps_rel_member [OF maps that] by (simp add: p_def)
    next
      case (Some q)
      then show ?thesis using maps_rel_inj [OF maps that, of n] by (simp add: p_def)
    qed
    have m2: "maps_rel c2 (\<lambda>k. subscribersOf k (qSubscribe s n a))"
    proof (rule maps_relI)
      show "topicsByName c2 k = None \<longleftrightarrow> subscribersOf k (qSubscribe s n a) = {}" for k
        using maps_rel_None [OF maps, of k] by (simp add: by2 subscribersOf_qSubscribe [OF s])
      show "q < freshTopic c2 \<and> topicHeap c2 q = Some \<lparr> topicName = k,
          topicMembers = subscribersOf k (qSubscribe s n a) \<rparr>" if kq: "topicsByName c2 k = Some q" for k q
      proof (cases "k = n")
        case True
        then have "q = p" using kq by (simp add: by2)
        then show ?thesis using pfresh True by (simp add: top2 subscribersOf_qSubscribe [OF s] M_def)
      next
        case kn: False
        then have kq': "topicsByName c k = Some q" using kq by (simp add: by2)
        then have "q \<noteq> p" using inj kn by blast
        then show ?thesis using maps_rel_member [OF maps kq'] ge kn
          by (simp add: top2 subscribersOf_qSubscribe [OF s])
      qed
    qed
    have "topics_rel c2 (qSubscribe s n a)"
    proof (rule topics_relI)
      show "subTopics y = {q. \<exists>k \<in> topicsOf (qSubscribe s n a) v. topicsByName c2 k = Some q}"
        if y: "subHeap c2 v = Some y" for v y
      proof (cases "v = s")
        case True
        then have "y = x \<lparr> subTopics := T \<rparr>" using y by (simp add: sub2)
        then show ?thesis using True topics_relD(8) [OF top x] False
          by (auto simp: by2 T_def qSubscribe_def split: if_splits)
      next
        case vs: False
        then have y': "subHeap c v = Some y" using y by (simp add: sub2)
        have key: "topicsByName c2 k = topicsByName c k" if k: "k \<in> topicsOf a v" for k
        proof -
          have "topicsByName c k \<noteq> None"
            using k y' topics_relD(3) [OF top] maps_rel_None [OF maps, of k] by (auto simp: subscribersOf_def)
          then show ?thesis by (auto simp: by2 p_def)
        qed
        then show ?thesis using vs topics_relD(8) [OF top y']
          by (simp add: qSubscribe_def cong: bex_cong)
      qed
      show "dom (subHeap c2) = live (qSubscribe s n a)"
        using topics_relD(3) [OF top] s by (auto simp: sub2 qSubscribe_def)
      show "\<not> pendingDestruction y" if "subHeap c2 v = Some y" for v y
        using that topics_relD(7) [OF top] x by (auto simp: sub2 split: if_splits)
    qed (use topics_relD [OF top] s m2 in \<open>auto simp: qSubscribe_def same2\<close>)
    moreover have "queue_rel [] UNIV c2 (qSubscribe s n a)"
      by (rule queue_rel_subs [OF que, where s = s and x = x and T = T])
        (use x in \<open>simp_all add: qSubscribe_def sub2 same2\<close>)
    moreover have "idle c2" using idle same2 by simp
    ultimately show ?thesis
      using run False tree_relD(4) [OF rel] by (simp add: tree_rel_def qSubscribe_def)
  qed
qed


lemma leftTopic_fields:
  assumes "leftTopic s n A c c'"
  shows "subHeap c' = subHeap c" "outgoingMessages c' = outgoingMessages c"
    "drainableSubscribers c' = drainableSubscribers c" "world c' = world c" "freshSub c' = freshSub c"
    "idle c' = idle c"
    "topicsByName c' k = (if k = n \<and> A \<subseteq> {s} then None else topicsByName c k)"
  using assms by (auto simp: leftTopic_def idle_def)

text \<open>The topics of the others are still found by their names when \<open>s\<close> left some.\<close>

lemma others_keep_topics:
  assumes top: "topics_rel c a" and v: "v \<noteq> s" "subHeap c v = Some y"
    and b: "\<And>k. b k = (if k \<in> L \<and> subscribersOf k a \<subseteq> {s} then None else topicsByName c k)"
  shows "subTopics y = {p. \<exists>n \<in> topicsOf a v. b n = Some p}"
proof -
  have "v \<in> subscribersOf k a" if "k \<in> topicsOf a v" for k
    using that v topics_relD(3) [OF top] by (auto simp: subscribersOf_def)
  then have "b k = topicsByName c k" if "k \<in> topicsOf a v" for k
    using that v(1) by (auto simp: b)
  then show ?thesis by (simp add: topics_relD(8) [OF top v(2)] cong: bex_cong)
qed

lemma unsubscribe_ok:
  assumes rel: "tree_rel c a" and s: "s \<in> live a"
  shows "\<exists>c'. unsubscribe s n c = Some ((if n \<in> topicsOf a s
       then (True, topicsOf a s = {n}, int (card (subscribersOf n a)) - 1) else (False, False, - 1)), c') \<and>
     tree_rel c' (qUnsubscribe s n a)"
proof -
  note idle = tree_relD(1) [OF rel] and top = tree_relD(2) [OF rel] and que = tree_relD(3) [OF rel]
  note maps = topics_relD(9) [OF top]
  obtain x where x: "subHeap c s = Some x" using live_sub [OF top s] by blast
  have noIter: "iteratingSubscriber c \<noteq> Some s" "iteratingTopic c = None" "\<not> opsPending c"
    using idle by (simp_all add: idle_def)
  show ?thesis
  proof (cases "n \<in> topicsOf a s")
    case False
    have "unsubscribe s n c = Some ((False, False, - 1), c)"
    proof (cases "topicsByName c n")
      case None
      then show ?thesis using noIter by (simp add: unsubscribe_def lookupTopic_def)
    next
      case (Some p)
      then show ?thesis using noIter x False subTopics_iff [OF top x Some]
        by (simp add: unsubscribe_def lookupTopic_def)
    qed
    moreover have "qUnsubscribe s n a = a" using False by (simp add: qUnsubscribe_def)
    ultimately show ?thesis using False rel by simp
  next
    case True
    then have mem: "s \<in> subscribersOf n a" using s by (simp add: subscribersOf_def)
    then obtain p where p: "topicsByName c n = Some p"
      using maps_rel_None [OF maps, of n] by (cases "topicsByName c n") auto
    define T where "T = subTopics x - {p}"
    define c1 where "c1 = setSub s (x \<lparr> subTopics := T \<rparr>) c"
    have maps1: "maps_rel c1 (\<lambda>n. subscribersOf n a)"
      by (rule maps_rel_cong [OF maps]) (simp_all add: c1_def)
    obtain c2 where c2: "eraseFromTopic s p 0 c1 = Some c2" "leftTopic s n (subscribersOf n a) c1 c2"
        "maps_rel c2 ((\<lambda>n. subscribersOf n a)(n := subscribersOf n a - {s}))"
      using eraseFromTopic_ok [OF maps1, of n p s 0] p mem noIter by (auto simp: c1_def)
    note f = leftTopic_fields [OF c2(2)]
    have "T = {} \<longleftrightarrow> topicsOf a s = {n}"
    proof -
      have ex: "\<exists>q. topicsByName c k = Some q" if "k \<in> topicsOf a s" for k
        using that s maps_rel_None [OF maps, of k] by (auto simp: subscribersOf_def)
      have inj: "k = n" if "topicsByName c k = Some p" for k
        using maps_rel_inj [OF maps that p] .
      have "q \<in> T \<longleftrightarrow> (\<exists>k \<in> topicsOf a s. k \<noteq> n \<and> topicsByName c k = Some q)" for q
      proof -
        have "q \<in> T \<longleftrightarrow> q \<noteq> p \<and> (\<exists>k \<in> topicsOf a s. topicsByName c k = Some q)"
          unfolding T_def topics_relD(8) [OF top x] by blast
        then show ?thesis using p inj by (metis option.inject)
      qed
      with ex have "T = {} \<longleftrightarrow> (\<forall>k \<in> topicsOf a s. k = n)" by blast
      with True show ?thesis by blast
    qed
    then have run: "unsubscribe s n c = Some ((True, topicsOf a s = {n}, int (card (subscribersOf n a)) - 1), c2)"
      using noIter p x True subTopics_iff [OF top x p] maps_rel_member [OF maps p] c2(1)
      by (simp add: unsubscribe_def lookupTopic_def Let_def T_def [symmetric] c1_def)
    have by2: "topicsByName c2 k = (if k \<in> {n} \<and> subscribersOf k a \<subseteq> {s} then None else topicsByName c k)" for k
      using f(7) [of k] by (auto simp: c1_def)
    have "topics_rel c2 (qUnsubscribe s n a)"
    proof (rule topics_relI)
      show "subTopics y = {q. \<exists>k \<in> topicsOf (qUnsubscribe s n a) v. topicsByName c2 k = Some q}"
        if y: "subHeap c2 v = Some y" for v y
      proof (cases "v = s")
        case True
        then have "y = x \<lparr> subTopics := T \<rparr>" using y by (simp add: f c1_def)
        then have yT: "subTopics y = {q. \<exists>k \<in> topicsOf a s. topicsByName c k = Some q} - {p}"
          by (simp add: T_def topics_relD(8) [OF top x])
        have "topicsByName c2 k = topicsByName c k" if "k \<noteq> n" for k using that by (simp add: by2)
        moreover have "topicsByName c k \<noteq> Some p" if "k \<noteq> n" for k using that maps_rel_inj [OF maps p] by blast
        ultimately show ?thesis unfolding yT using True p
          by (auto simp: qUnsubscribe_def)
      next
        case False
        then show ?thesis using others_keep_topics [OF top False _ by2] y
          by (simp add: f c1_def qUnsubscribe_def)
      qed
      show "maps_rel c2 (\<lambda>k. subscribersOf k (qUnsubscribe s n a))"
        using c2(3) by (simp add: subscribersOf_qUnsubscribe fun_upd_def cong: if_cong)
    qed (use topics_relD [OF top] s x in \<open>auto simp: qUnsubscribe_def f c1_def split: if_splits\<close>)
    moreover have "queue_rel [] UNIV c2 (qUnsubscribe s n a)"
      by (rule queue_rel_subs [OF que, where s = s and x = x and T = T])
        (use x in \<open>simp_all add: qUnsubscribe_def f c1_def\<close>)
    moreover have "idle c2" using idle f(6) by (simp add: c1_def idle_def)
    ultimately show ?thesis
      using run True tree_relD(4) [OF rel] by (simp add: tree_rel_def qUnsubscribe_def)
  qed
qed

lemma create_ok:
  assumes rel: "tree_rel c a"
  shows "\<exists>c'. createSubscriber c = (created a, c') \<and> tree_rel c' (qCreate a)"
proof -
  note idle = tree_relD(1) [OF rel] and top = tree_relD(2) [OF rel] and que = tree_relD(3) [OF rel]
  let ?s = "created a"
  have fresh: "?s \<notin> live a" "subHeap c ?s = None" "freshSub c = ?s"
    using topics_relD(2,3,5) [OF top] by (auto dest!: topics_relD(5) [OF top])
  define x where "x = \<lparr> subPrev = None, subNext = None, messageIndices = replicate 32 (0 :: u16),
     numMessageIndices = 0, pendingDestruction = False, subTopics = {} \<rparr>"
  let ?c = "c \<lparr> subHeap := (subHeap c)(?s \<mapsto> x), freshSub := ?s + 1 \<rparr>"
  have run: "createSubscriber c = (?s, ?c)"
    by (simp add: createSubscriber_def fresh x_def)
  have noTopics: "topicsOf a ?s = {}" using fresh(1) topics_relD(4) [OF top] by blast
  then have subs: "subscribersOf n (qCreate a) = subscribersOf n a" for n
    by (auto simp: subscribersOf_def qCreate_def)
  have "topics_rel ?c (qCreate a)"
  proof (rule topics_relI)
    show "maps_rel ?c (\<lambda>n. subscribersOf n (qCreate a))"
      unfolding subs by (rule maps_rel_cong [OF topics_relD(9) [OF top]]) simp_all
    show "s < created (qCreate a)" if "s \<in> live (qCreate a)" for s
      using that topics_relD(5) [OF top, of s] by (auto simp: qCreate_def)
  qed (use topics_relD [OF top] noTopics in \<open>auto simp: qCreate_def x_def split: if_splits\<close>)
  moreover have "queue_rel [] UNIV ?c (qCreate a)"
  proof (rule queue_relI)
    have "queueOf a ?s = []" using queue_relD(3) [OF que fresh(2)] .
    then show "sub_rel [] UNIV (outgoingMessages ?c) v y (queueOf (qCreate a) v)" if "subHeap ?c v = Some y" for v y
      using that queue_rel_sub [OF que] by (cases "v = ?s") (auto simp: qCreate_def x_def sub_rel_def noted_def)
    have links: "nxOf ((subHeap c)(?s \<mapsto> x)) = nxOf (subHeap c)" "pvOf ((subHeap c)(?s \<mapsto> x)) = pvOf (subHeap c)"
      using fresh(2) by (auto simp: nxOf_def pvOf_def fun_eq_iff x_def)
    show "dll (nxOf (subHeap ?c)) (pvOf (subHeap ?c)) (drainableSubscribers ?c) None (ready (qCreate a))"
      using queue_relD(2) [OF que] links by (simp add: qCreate_def)
  qed (use queue_relD [OF que] in \<open>auto simp: qCreate_def split: if_splits\<close>)
  moreover have "idle ?c" using idle by (simp add: idle_def)
  ultimately show ?thesis
    using run tree_relD(4) [OF rel] by (simp add: tree_rel_def qCreate_def)
qed

lemma subscribersOf_qFree:
  "subscribersOf n (qFree s a) = subscribersOf n a - {s}"
  by (auto simp: subscribersOf_def qFree_def)

lemma remove_ready:
  assumes que: "queue_rel [] UNIV c a" and s: "subHeap c s = Some x"
    and t: "subHeap t = subHeap c" "drainableSubscribers t = drainableSubscribers c"
  shows "\<exists>h d. (if needsDrainage x then unlinkDrainableSubscriber s t else Some t) =
       Some (t \<lparr> subHeap := h, drainableSubscribers := d \<rparr>)
     \<and> dll (nxOf (h(s := None))) (pvOf (h(s := None))) d None (remove1 s (ready a))
     \<and> (\<forall>u. map_option core (h u) = map_option core (subHeap c u))"
proof -
  have cut: "dll (nxOf (h(s := None))) (pvOf (h(s := None))) d None (remove1 s (ready a)) =
      dll (nxOf h) (pvOf h) d None (remove1 s (ready a))" for h d
    using queue_relD(1) [OF que] by (intro dll_cong) (auto simp: nxOf_def pvOf_def)
  note need = needsDrainage_queue [OF queue_rel_sub [OF que s]]
  show ?thesis
  proof (cases "s \<in> set (ready a)")
    case True
    with need queue_relD(4) [OF que, of s] have "needsDrainage x" by simp
    with unlink_ready [OF que s True t] show ?thesis unfolding cut by auto
  next
    case False
    with need queue_relD(4) [OF que, of s] have "\<not> needsDrainage x" by simp
    moreover have "dll (nxOf (subHeap c)) (pvOf (subHeap c)) (drainableSubscribers c) None (remove1 s (ready a))"
      using queue_relD(2) [OF que] False by (simp add: remove1_idem)
    ultimately show ?thesis unfolding cut using t
      by (intro exI [of _ "subHeap c"] exI [of _ "drainableSubscribers c"]) simp
  qed
qed

text \<open>
  A subscriber may be freed in a quiet tree at any time. When it was the last one with messages, these
  stay in \<open>outgoingMessages\<close>: the machine keeps them in its backlog.
\<close>

lemma free_ok:
  assumes rel: "tree_rel c a" and s: "s \<in> live a"
  shows "\<exists>c'. freeSubscriber (Some s) c = Some c' \<and> tree_rel c' (qFree s a)"
proof -
  note idle = tree_relD(1) [OF rel] and top = tree_relD(2) [OF rel] and que = tree_relD(3) [OF rel]
  note maps = topics_relD(9) [OF top]
  obtain x where x: "subHeap c s = Some x" using live_sub [OF top s] by blast
  have sT: "subTopics x = {p. \<exists>n \<in> topicsOf a s. topicsByName c n = Some p}" using topics_relD(8) [OF top x] .
  have fin: "finite (subTopics x)"
  proof -
    have "subTopics x \<subseteq> (\<lambda>n. the (topicsByName c n)) ` topicsOf a s" unfolding sT by force
    then show ?thesis using topics_relD(6) [OF top] by (blast intro: finite_subset finite_imageI)
  qed
  let ?ps = "sorted_list_of_set (subTopics x)"
  have names: "leftNames c ?ps = topicsOf a s"
  proof -
    have "\<exists>q. topicsByName c k = Some q" if "k \<in> topicsOf a s" for k
      using that s maps_rel_None [OF maps, of k] by (auto simp: subscribersOf_def)
    then have "topicsOf a s \<subseteq> leftNames c ?ps" using fin unfolding leftNames_def sT by fastforce
    moreover have "leftNames c ?ps \<subseteq> topicsOf a s"
      using fin maps_rel_inj [OF maps] unfolding leftNames_def sT by auto
    ultimately show ?thesis by blast
  qed
  obtain h1 b where leave: "leaveTopics s ?ps c = Some (c \<lparr> topicHeap := h1, topicsByName := b \<rparr>)"
    and m1: "maps_rel (c \<lparr> topicHeap := h1, topicsByName := b \<rparr>)
        (\<lambda>n. if n \<in> topicsOf a s then subscribersOf n a - {s} else subscribersOf n a)"
    and b: "b = (\<lambda>n. if n \<in> topicsOf a s \<and> subscribersOf n a \<subseteq> {s} then None else topicsByName c n)"
  proof -
    have mem: "\<exists>n. topicsByName c n = Some p \<and> s \<in> subscribersOf n a" if "p \<in> set ?ps" for p
      using that fin s by (auto simp: sT subscribersOf_def)
    have "\<exists>h b. leaveTopics s ?ps c = Some (c \<lparr> topicHeap := h, topicsByName := b \<rparr>) \<and>
      maps_rel (c \<lparr> topicHeap := h, topicsByName := b \<rparr>)
        (\<lambda>n. if n \<in> leftNames c ?ps then subscribersOf n a - {s} else subscribersOf n a) \<and>
      b = (\<lambda>n. if n \<in> leftNames c ?ps \<and> subscribersOf n a \<subseteq> {s} then None else topicsByName c n)"
      by (rule leaveTopics_ok [OF maps distinct_sorted_list_of_set finite_subscribers [OF top]]) (rule mem)
    then show ?thesis unfolding names by (elim exE conjE) (rule that)
  qed
  let ?c1 = "c \<lparr> topicHeap := h1, topicsByName := b \<rparr>"
  obtain h d where unl: "(if needsDrainage x then unlinkDrainableSubscriber s ?c1 else Some ?c1) =
       Some (?c1 \<lparr> subHeap := h, drainableSubscribers := d \<rparr>)"
     and dl: "dll (nxOf (h(s := None))) (pvOf (h(s := None))) d None (remove1 s (ready a))"
     and core: "\<forall>u. map_option core (h u) = map_option core (subHeap c u)"
    using remove_ready [OF que x, of ?c1] by auto
  let ?c = "?c1 \<lparr> subHeap := h(s := None), drainableSubscribers := d \<rparr>"
  have run: "freeSubscriber (Some s) c = Some ?c"
    using idle x leave unl by (simp add: freeSubscriber_def destroySubscriber_def idle_def)
  have old: "\<exists>y0. subHeap c v = Some y0 \<and> core y = core y0" if "h v = Some y" for v y
    using core that by (metis (no_types, lifting) map_option_eq_Some)
  have m: "maps_rel ?c (\<lambda>n. subscribersOf n (qFree s a))"
  proof -
    have "(\<lambda>n. subscribersOf n (qFree s a)) =
        (\<lambda>n. if n \<in> topicsOf a s then subscribersOf n a - {s} else subscribersOf n a)"
      by (auto simp: fun_eq_iff subscribersOf_qFree) (auto simp: subscribersOf_def)
    then show ?thesis using maps_rel_cong [OF m1, of ?c] by simp
  qed
  have dom: "dom h = dom (subHeap c)"
    using core by (metis (no_types, lifting) domIff map_option_is_None subsetI subset_antisym)
  have "topics_rel ?c (qFree s a)"
  proof (rule topics_relI)
    show "subTopics y = {p. \<exists>n \<in> topicsOf (qFree s a) v. topicsByName ?c n = Some p}"
      if y: "subHeap ?c v = Some y" for v y
    proof -
      have vs: "v \<noteq> s" "h v = Some y" using y by (auto split: if_splits)
      then obtain y0 where y0: "subHeap c v = Some y0" "core y = core y0" using old by blast
      have "subTopics y = subTopics y0" using core_simps(3) [OF y0(2)] by (simp add: asTopics_def)
      with others_keep_topics [OF top vs(1) y0(1), of b "topicsOf a s"] show ?thesis
        using vs(1) by (simp add: b qFree_def)
    qed
    show "\<not> pendingDestruction y" if y: "subHeap ?c v = Some y" for v y
    proof -
      have "h v = Some y" using y by (auto split: if_splits)
      then obtain y0 where y0: "subHeap c v = Some y0" "core y = core y0" using old by blast
      then show ?thesis using topics_relD(7) [OF top y0(1)] core_simps(3) [OF y0(2)] by (simp add: asTopics_def)
    qed
    show "dom (subHeap ?c) = live (qFree s a)"
      using dom topics_relD(3) [OF top] by (auto simp: qFree_def)
  qed (use topics_relD [OF top] m in \<open>auto simp: qFree_def\<close>)
  moreover have "queue_rel [] UNIV ?c (qFree s a)"
  proof (rule queue_relI)
    show "sub_rel [] UNIV (outgoingMessages ?c) v y (queueOf (qFree s a) v)" if y: "subHeap ?c v = Some y" for v y
    proof -
      have vs: "v \<noteq> s" "h v = Some y" using y by (auto split: if_splits)
      then obtain y0 where "subHeap c v = Some y0" "core y = core y0" using old by blast
      then show ?thesis using queue_rel_sub [OF que] vs(1) by (auto simp: qFree_def intro: sub_rel_core)
    qed
    show "queueOf (qFree s a) v = []" if "subHeap ?c v = None" for v
      using that dom queue_relD(3) [OF que, of v] by (auto simp: qFree_def split: if_splits)
    show "v \<in> set (ready (qFree s a)) \<longleftrightarrow> queueOf (qFree s a) v \<noteq> []" for v
      using queue_relD(1,4) [OF que] by (auto simp: qFree_def)
  qed (use queue_relD [OF que] dl in \<open>simp_all add: qFree_def\<close>)
  moreover have "idle ?c" using idle by (simp add: idle_def)
  ultimately show ?thesis
    using run tree_relD(4) [OF rel] by (simp add: tree_rel_def qFree_def)
qed


section \<open>Draining and publishing\<close>

lemma tree_rel_sameElse:
  assumes "tree_rel c a" and "sameElse c c'" and "queue_rel [] UNIV c' a'"
    and "live a' = live a" "topicsOf a' = topicsOf a" "created a' = created a"
    and "backlog a' \<le> 65535"
  shows "tree_rel c' a'"
  using assms idle_sameElse [of c c'] topics_rel_sameElse [of c a c' a']
  by (simp add: tree_rel_def)

lemma qDrain_fields [simp]:
  "live (qDrain send s a) = live a" "topicsOf (qDrain send s a) = topicsOf a" "created (qDrain send s a) = created a"
  by (simp_all add: qDrain_def Let_def)

lemma qDrainAll_fields [simp]:
  "live (qDrainAll send a) = live a" "topicsOf (qDrainAll send a) = topicsOf a"
  "created (qDrainAll send a) = created a"
  by (simp_all add: qDrainAll_def)

lemma qEnqueue_fields [simp]:
  "live (qEnqueue send m s a) = live a" "topicsOf (qEnqueue send m s a) = topicsOf a"
  "created (qEnqueue send m s a) = created a"
  by (simp_all add: qEnqueue_def Let_def)

lemma qEnqueues_fields [simp]:
  "live (fold (qEnqueue send m) ss a) = live a" "topicsOf (fold (qEnqueue send m) ss a) = topicsOf a"
  "created (fold (qEnqueue send m) ss a) = created a"
  by (induction ss arbitrary: a) simp_all

lemma drain_ok:
  assumes rel: "tree_rel c a" and s: "s \<in> live a"
  shows "\<exists>c'. drain lim walk (onlySends send) s c = Some c' \<and> tree_rel c' (qDrain send s a)"
proof -
  have d: "s \<in> dom (subHeap c)" "\<not> opsPending c"
    using s topics_relD(3) [OF tree_relD(2) [OF rel]] tree_relD(1) [OF rel] by (simp_all add: idle_def)
  obtain c' where c': "drain lim walk (onlySends send) s c = Some c'" "sameElse c c'"
      "queue_rel [] UNIV c' (qDrain send s a)"
    using drainWith_ok [OF tree_relD(3) [OF rel] d(1) _ d(2)] unfolding drain_def by blast
  have "backlog (qDrain send s a) \<le> 65535"
    using qDrain_backlog [of send s a] tree_relD(4) [OF rel] by simp
  then show ?thesis
    using c' tree_rel_sameElse [OF rel c'(2,3)] by auto
qed

lemma drainAll_ok:
  assumes rel: "tree_rel c a" and lim: "card (live a) \<le> lim"
  shows "\<exists>c'. drainAll lim walk (onlySends send) c = Some c' \<and> tree_rel c' (qDrainAll send a)"
proof -
  have np: "\<not> opsPending c" using tree_relD(1) [OF rel] by (simp add: idle_def)
  have "length (ready a) \<le> lim" using ready_live(2) [OF rel] lim by simp
  from drainAllWith_ok [OF tree_relD(3) [OF rel] np this] topics_relD(7) [OF tree_relD(2) [OF rel]]
  obtain c' where c': "drainAll lim walk (onlySends send) c = Some c'" "sameElse c c'"
      "queue_rel [] UNIV c' (qDrainAll send a)"
    unfolding drainAll_def by blast
  have "backlog (qDrainAll send a) \<le> 65535"
    using tree_relD(4) [OF rel] by (simp add: qDrainAll_def)
  then show ?thesis using c' tree_rel_sameElse [OF rel c'(2,3)] by auto
qed

lemma sendThrough_ok:
  assumes rel: "tree_rel c a" and s: "s \<in> live a"
  shows "\<exists>c'. sendThrough lim walk send s m c = Some c' \<and> tree_rel c' (qSend send m s a)"
proof -
  obtain c1 where c1: "drain lim walk (onlySends send) s c = Some c1" "tree_rel c1 (qDrain send s a)"
    using drain_ok [OF rel s] by blast
  let ?w = "snd (send s m (FIRST OR LAST) (world c1))"
  have w: "world c1 = outside (qDrain send s a)" using queue_relD(6) [OF tree_relD(3) [OF c1(2)]] .
  have "tree_rel (c1 \<lparr> world := ?w \<rparr>) (qSend send m s a)"
    using c1(2) w unfolding tree_rel_def qSend_def Let_def idle_def topics_rel_def maps_rel_def queue_rel_def
      subscribersOf_def by simp
  then show ?thesis using c1(1) by (simp add: sendThrough_def)
qed

lemma fold_qEnqueue_backlog: "backlog (fold (qEnqueue send m) ss a) \<le> backlog a"
proof (induction ss arbitrary: a)
  case (Cons s ss)
  show ?case using Cons [of "qEnqueue send m s a"] qEnqueue_backlog [of send m s a] by simp
qed simp

lemma queue_rel_start: "queue_rel [] UNIV c a \<Longrightarrow> queue_rel [m] UNIV c a"
  by (auto simp: queue_rel_def sub_rel_def noted_def in_set_conv_nth nth_append)

lemma queue_rel_stop: "queue_rel [m] UNIV c a \<Longrightarrow> queue_rel [] UNIV c a"
  by (auto simp: queue_rel_def sub_rel_def noted_def in_set_conv_nth nth_append)

lemma sub_rel_append: "sub_rel [m] old out s x q \<Longrightarrow> sub_rel [] UNIV (out @ [m]) s x q"
  by (auto simp: sub_rel_def intro: less_SucI split: if_splits)

lemma queue_rel_append:
  "queue_rel [m] old c a \<Longrightarrow>
     queue_rel [] UNIV (c \<lparr> outgoingMessages := outgoingMessages c @ [m] \<rparr>) (a \<lparr> backlog := backlog a + 1 \<rparr>)"
  unfolding queue_rel_def by (auto intro: sub_rel_append)

lemma queue_rel_control:
  "queue_rel ext old (c \<lparr> drainingDepth := k, iteratingTopic := i \<rparr>) a = queue_rel ext old c a"
  by (simp add: queue_rel_def)

lemma topics_rel_control:
  "topics_rel (c \<lparr> drainingDepth := k, iteratingTopic := i \<rparr>) a = topics_rel c a"
  "topics_rel (c \<lparr> outgoingMessages := out \<rparr>) a = topics_rel c a"
  "topics_rel c (a \<lparr> backlog := b \<rparr>) = topics_rel c a"
  by (simp_all add: topics_rel_def maps_rel_def subscribersOf_def)

lemma publish_ok:
  assumes rel: "tree_rel c a" and walk: "walks walk" and lim: "card (live a) \<le> lim"
    and room: "backlog a < 65535 \<or> ready a \<noteq> []"
  shows "\<exists>c'. publish lim walk (onlySends send) sender n m c = Some (fst (qPublish walk send sender n m a), c') \<and>
           tree_rel c' (snd (qPublish walk send sender n m a))"
proof (cases "topicsByName c n")
  case None
  then have "subscribersOf n a = {}" using maps_rel_None [OF topics_relD(9) [OF tree_relD(2) [OF rel]]] by simp
  with None rel show ?thesis by (simp add: publish_def publishWith_def qPublish_def)
next
  case (Some p)
  let ?S = "subscribersOf n a"
  let ?ap = "applyPending lim walk (onlySends send)"
  note top = tree_relD(2) [OF rel]
  have S: "?S \<noteq> {}" "finite ?S" "?S \<subseteq> live a"
    using maps_rel_member [OF topics_relD(9) [OF top] Some] finite_subscribers [OF top]
    by (auto simp: subscribersOf_def)
  define a0 where "a0 = (if backlog a \<ge> 65535 then qDrainAll send a else a)"
  have "\<exists>c0. (if length (outgoingMessages c) \<ge> 65535 then drainAllWith ?ap lim (onlySends send) c else Some c) = Some c0
      \<and> tree_rel c0 a0 \<and> sameElse c c0"
  proof (cases "backlog a \<ge> 65535")
    case False
    then show ?thesis using rel queue_relD(5) [OF tree_relD(3) [OF rel]] by (simp add: a0_def)
  next
    case True
    have np: "\<not> opsPending c" using tree_relD(1) [OF rel] by (simp add: idle_def)
    have "length (ready a) \<le> lim" using ready_live(2) [OF rel] lim by simp
    from drainAllWith_ok [OF tree_relD(3) [OF rel] np this] topics_relD(7) [OF top]
    obtain c0 where "drainAllWith ?ap lim (onlySends send) c = Some c0" "sameElse c c0"
        "queue_rel [] UNIV c0 (qDrainAll send a)" by blast
    moreover have "tree_rel c0 (qDrainAll send a)"
      using drainAll_ok [OF rel lim, of walk send] calculation(1) by (simp add: drainAll_def)
    ultimately show ?thesis using True queue_relD(5) [OF tree_relD(3) [OF rel]] by (simp add: a0_def)
  qed
  then obtain c0 where c0: "(if length (outgoingMessages c) \<ge> 65535 then drainAllWith ?ap lim (onlySends send) c else Some c) = Some c0"
      "tree_rel c0 a0" "sameElse c c0" by blast
  have a0: "live a0 = live a" "topicsOf a0 = topicsOf a" "created a0 = created a" by (simp_all add: a0_def)
  have b0: "backlog a0 \<le> 65534"
    using room by (auto simp: a0_def qDrainAll_def)
  let ?c1 = "c0 \<lparr> drainingDepth := drainingDepth c0 + 1, iteratingTopic := Some p \<rparr>"
  have heap: "topicHeap c0 p = Some \<lparr> topicName = n, topicMembers = ?S \<rparr>"
    using maps_rel_member [OF topics_relD(9) [OF top] Some] by (simp add: sameElse_fields [OF c0(3)])
  let ?f = "filter (\<lambda>s. sender \<noteq> Some s) (walk ?S)"
  have w: "set (walk ?S) = ?S" "distinct (walk ?S)" using walk S(2) by (simp_all add: walks_def)
  have np1: "\<not> opsPending c0" using tree_relD(1) [OF c0(2)] by (simp add: idle_def)
  obtain c2 where c2: "publishLoop ?ap (onlySends send) sender p ?S (walk ?S) (False, ?c1) = Some (?f \<noteq> [], c2)"
      "sameElse ?c1 c2" "queue_rel [m] (UNIV - set ?f) c2 (fold (qEnqueue send m) ?f a0)"
    using publishLoop_ok [of m UNIV ?c1 a0 "walk ?S" p ?S ?ap send sender False]
      queue_rel_start [OF tree_relD(3) [OF c0(2)], of m] w S(3) np1 b0 heap
      topics_relD(3) [OF tree_relD(2) [OF c0(2)]] a0(1)
    by (auto simp: queue_rel_control stillWalking_def)
  have depth: "drainingDepth c0 = 0" "iteratingTopic c0 = None" using tree_relD(1) [OF c0(2)] by (simp_all add: idle_def)
  note f2 = sameElse_fields [OF c2(2), simplified]
  let ?a1 = "fold (qEnqueue send m) ?f a0"
  define c3 where "c3 = c2 \<lparr> drainingDepth := 0, iteratingTopic := None \<rparr>"
  define c4 where "c4 = (if ?f \<noteq> [] then c3 \<lparr> outgoingMessages := outgoingMessages c3 @ [m] \<rparr> else c3)"
  have run: "publish lim walk (onlySends send) sender n m c = Some (?f \<noteq> [], c4)"
    using Some c0(1) heap c2(1) f2 np1 depth tree_relD(1) [OF rel]
    by (auto simp: publish_def publishWith_def leaveWith_def c4_def c3_def idle_def Let_def)
  let ?a2 = "if ?f = [] then ?a1 else ?a1 \<lparr> backlog := backlog ?a1 + 1 \<rparr>"
  have spec: "qPublish walk send sender n m a = (?f \<noteq> [], ?a2)"
    using S(1) by (simp add: qPublish_def a0_def Let_def)
  have "topics_rel c4 ?a2"
  proof -
    have "topics_rel c2 ?a1"
      by (rule topics_rel_sameElse [OF _ c2(2), of a0]) (use tree_relD(2) [OF c0(2)] in \<open>simp_all add: topics_rel_control\<close>)
    then show ?thesis by (cases "?f = []") (simp_all add: c4_def c3_def topics_rel_control)
  qed
  moreover have "queue_rel [] UNIV c4 ?a2"
  proof (cases "?f = []")
    case True
    then show ?thesis using c2(3) queue_rel_stop by (auto simp: c4_def c3_def queue_rel_control)
  next
    case False
    then show ?thesis using queue_rel_append [of m "UNIV - set ?f" c3 ?a1] c2(3)
      by (simp add: c4_def c3_def queue_rel_control)
  qed
  moreover have "idle c4"
    using tree_relD(1) [OF c0(2)] f2 by (simp add: c4_def c3_def idle_def)
  moreover have "backlog ?a2 \<le> 65535" using fold_qEnqueue_backlog [of send m ?f a0] b0 by simp
  ultimately have "tree_rel c4 ?a2" by (simp add: tree_rel_def)
  then show ?thesis unfolding spec using run by auto
qed


lemma qSend_fields [simp]:
  "live (qSend send m s a) = live a" "topicsOf (qSend send m s a) = topicsOf a" "created (qSend send m s a) = created a"
  by (simp_all add: qSend_def Let_def)

lemma qSends_fields [simp]:
  "live (fold (qSend send m) ss a) = live a" "topicsOf (fold (qSend send m) ss a) = topicsOf a"
  "created (fold (qSend send m) ss a) = created a"
  by (induction ss arbitrary: a) simp_all

lemma qSends_backlog: "backlog (fold (qSend send m) ss a) \<le> backlog a"
proof (induction ss arbitrary: a)
  case (Cons s ss)
  have "backlog (qSend send m s a) \<le> backlog a" by (simp add: qSend_def qDrain_def Let_def)
  then show ?case using Cons [of "qSend send m s a"] by simp
qed simp

lemma sendThrough_inside:
  assumes rel: "queue_rel [] UNIV c a" and s: "s \<in> dom (subHeap c)" and np: "\<not> opsPending c"
  shows "\<exists>c'. sendThrough lim walk send s m c = Some c' \<and> sameElse c c' \<and> queue_rel [] UNIV c' (qSend send m s a)"
proof -
  obtain c1 where c1: "drain lim walk (onlySends send) s c = Some c1" "sameElse c c1"
      "queue_rel [] UNIV c1 (qDrain send s a)"
    using drainWith_ok [OF rel s _ np] unfolding drain_def by blast
  let ?c = "c1 \<lparr> world := snd (send s m (FIRST OR LAST) (world c1)) \<rparr>"
  have "sameElse c1 ?c" by (simp add: sameElse_def)
  moreover have "queue_rel [] UNIV ?c (qSend send m s a)"
    using c1(3) by (simp add: queue_rel_def qSend_def Let_def)
  ultimately show ?thesis using c1(1) sameElse_trans [OF c1(2)] by (simp add: sendThrough_def)
qed

lemma publishBigLoop_ok:
  assumes "queue_rel [] UNIV c a" and "set ss \<subseteq> dom (subHeap c)" and "\<not> opsPending c" and "stillWalking p ms c"
  shows "\<exists>c'. publishBigLoop (sendThrough lim walk send) sender p ms m ss c = Some c' \<and> sameElse c c' \<and>
     queue_rel [] UNIV c' (fold (qSend send m) (filter (\<lambda>s. sender \<noteq> Some s) ss) a)"
  using assms
proof (induction ss arbitrary: c a)
  case Nil
  then show ?case by simp
next
  case (Cons s ss)
  show ?case
  proof (cases "sender = Some s")
    case True
    with Cons.IH [of c a] Cons.prems show ?thesis by simp
  next
    case False
    obtain c1 where c1: "sendThrough lim walk send s m c = Some c1" "sameElse c c1"
        "queue_rel [] UNIV c1 (qSend send m s a)"
      using sendThrough_inside [OF Cons.prems(1) _ Cons.prems(3), of s lim walk send m] Cons.prems(2) by auto
    have still: "stillWalking p ms c1" "\<not> opsPending c1" "dom (subHeap c1) = dom (subHeap c)"
      using Cons.prems(3,4) c1(2) sameElse_dom [OF c1(2)] by (simp_all add: stillWalking_def sameElse_fields)
    obtain c2 where "publishBigLoop (sendThrough lim walk send) sender p ms m ss c1 = Some c2" "sameElse c1 c2"
        "queue_rel [] UNIV c2 (fold (qSend send m) (filter (\<lambda>s. sender \<noteq> Some s) ss) (qSend send m s a))"
      using Cons.IH [OF c1(3)] still Cons.prems(2) by auto
    then show ?thesis using c1(1) False Cons.prems(3) still(1) sameElse_trans [OF c1(2)] by auto
  qed
qed

lemma publishBig_ok:
  assumes rel: "tree_rel c a" and walk: "walks walk"
  shows "\<exists>c'. publishBig lim walk (onlySends send) (sendThrough lim walk send) sender n m c =
             Some (fst (qPublishBig walk send sender n m a), c') \<and>
           tree_rel c' (snd (qPublishBig walk send sender n m a))"
proof (cases "topicsByName c n")
  case None
  then have "subscribersOf n a = {}" using maps_rel_None [OF topics_relD(9) [OF tree_relD(2) [OF rel]]] by simp
  with None rel show ?thesis by (simp add: publishBig_def qPublishBig_def)
next
  case (Some p)
  let ?S = "subscribersOf n a"
  note top = tree_relD(2) [OF rel]
  have heap: "topicHeap c p = Some \<lparr> topicName = n, topicMembers = ?S \<rparr>" and ne: "?S \<noteq> {}"
    using maps_rel_member [OF topics_relD(9) [OF top] Some] by auto
  have w: "set (walk ?S) = ?S" using walk finite_subscribers [OF top] by (simp add: walks_def)
  have idle: "\<not> opsPending c" "drainingDepth c = 0" using tree_relD(1) [OF rel] by (simp_all add: idle_def)
  let ?c1 = "c \<lparr> drainingDepth := drainingDepth c + 1, iteratingTopic := Some p \<rparr>"
  let ?f = "filter (\<lambda>s. sender \<noteq> Some s) (walk ?S)"
  obtain c2 where c2: "publishBigLoop (sendThrough lim walk send) sender p ?S m (walk ?S) ?c1 = Some c2"
      "sameElse ?c1 c2" "queue_rel [] UNIV c2 (fold (qSend send m) ?f a)"
    using publishBigLoop_ok [of ?c1 a "walk ?S" p ?S lim walk send sender m]
      tree_relD(3) [OF rel] w idle heap topics_relD(3) [OF top]
    by (auto simp: queue_rel_control stillWalking_def subscribersOf_def)
  let ?c3 = "c2 \<lparr> drainingDepth := 0, iteratingTopic := None \<rparr>" and ?a = "fold (qSend send m) ?f a"
  note f2 = sameElse_fields [OF c2(2), simplified]
  have run: "publishBig lim walk (onlySends send) (sendThrough lim walk send) sender n m c = Some (True, ?c3)"
    using Some heap c2(1) f2 idle by (simp add: publishBig_def leaveWith_def)
  have "topics_rel c2 ?a"
    by (rule topics_rel_sameElse [OF _ c2(2), of a]) (use top in \<open>simp_all add: topics_rel_control\<close>)
  moreover have "backlog ?a \<le> 65535" using qSends_backlog [of send m ?f a] tree_relD(4) [OF rel] by simp
  moreover have "idle ?c3" using tree_relD(1) [OF rel] f2 by (simp add: idle_def)
  ultimately have "tree_rel ?c3 ?a"
    using c2(3) by (simp add: tree_rel_def queue_rel_control topics_rel_control)
  then show ?thesis using run ne by (simp add: qPublishBig_def)
qed

fun specify :: "(nat set \<Rightarrow> nat list) \<Rightarrow> ('m, 'w) sender \<Rightarrow> 'm TreeOp \<Rightarrow> ('m, 'w) PubSub \<Rightarrow>
    Reply \<times> ('m, 'w) PubSub" where
  "specify walk send Create a = (Made (created a), qCreate a)"
| "specify walk send (Free s) a = (Done, qFree s a)"
| "specify walk send (Subscribe s n) a = (Joined (n \<notin> topicsOf a s), qSubscribe s n a)"
| "specify walk send (Unsubscribe s n) a =
     (if n \<in> topicsOf a s then Departed True (topicsOf a s = {n}) (int (card (subscribersOf n a)) - 1)
      else Departed False False (- 1), qUnsubscribe s n a)"
| "specify walk send (Drain s) a = (Done, qDrain send s a)"
| "specify walk send DrainAll a = (Done, qDrainAll send a)"
| "specify walk send (Publish sender n m) a =
     (let (r, a1) = qPublish walk send sender n m a in (Published r, a1))"
| "specify walk send (PublishBig sender n m) a =
     (let (r, a1) = qPublishBig walk send sender n m a in (Published r, a1))"
| "specify walk send (Send s m) a = (Done, qSend send m s a)"

fun specifyAll :: "(nat set \<Rightarrow> nat list) \<Rightarrow> ('m, 'w) sender \<Rightarrow> 'm TreeOp list \<Rightarrow> ('m, 'w) PubSub \<Rightarrow>
    Reply list \<times> ('m, 'w) PubSub" where
  "specifyAll walk send [] a = ([], a)"
| "specifyAll walk send (x # xs) a =
     (let (r, a1) = specify walk send x a; (rs, a2) = specifyAll walk send xs a1 in (r # rs, a2))"

text \<open>
  The calls a program may make: with subscribers that exist. A publish needs room in the vector of
  messages: it holds fewer than 65535, or there is a subscriber with messages, so that the drain inside
  the publish empties it. There is none only when messages of freed subscribers fill the vector alone:
  freeing the last subscriber that has messages leaves them there, and no drain removes them before
  somebody else has messages.
\<close>

fun allowed :: "'m TreeOp \<Rightarrow> ('m, 'w) PubSub \<Rightarrow> bool" where
  "allowed (Free s) a \<longleftrightarrow> s \<in> live a"
| "allowed (Subscribe s n) a \<longleftrightarrow> s \<in> live a"
| "allowed (Unsubscribe s n) a \<longleftrightarrow> s \<in> live a"
| "allowed (Drain s) a \<longleftrightarrow> s \<in> live a"
| "allowed (Send s m) a \<longleftrightarrow> s \<in> live a"
| "allowed (Publish sender n m) a \<longleftrightarrow> backlog a < 65535 \<or> ready a \<noteq> []"
| "allowed _ a \<longleftrightarrow> True"

fun allowedAll :: "(nat set \<Rightarrow> nat list) \<Rightarrow> ('m, 'w) sender \<Rightarrow> 'm TreeOp list \<Rightarrow> ('m, 'w) PubSub \<Rightarrow> bool" where
  "allowedAll walk send [] a \<longleftrightarrow> True"
| "allowedAll walk send (x # xs) a \<longleftrightarrow> allowed x a \<and> allowedAll walk send xs (snd (specify walk send x a))"

lemma perform_ok:
  assumes rel: "tree_rel c a" and walk: "walks walk" and ok: "allowed x a" and lim: "card (live a) \<le> lim"
  shows "\<exists>c'. perform lim walk (onlySends send) (sendThrough lim walk send) x c = Some (fst (specify walk send x a), c') \<and>
           tree_rel c' (snd (specify walk send x a))"
proof (cases x)
  case Create
  then show ?thesis using create_ok [OF rel] by auto
next
  case (Free s)
  then show ?thesis using free_ok [OF rel, of s] ok by auto
next
  case (Subscribe s n)
  then obtain r c' where "subscribe s n c = Some (r, c')" "r = None \<longleftrightarrow> n \<in> topicsOf a s"
      "tree_rel c' (qSubscribe s n a)" using subscribe_ok [OF rel, of s n] ok by auto
  then show ?thesis using Subscribe by (cases r) simp_all
next
  case (Unsubscribe s n)
  then obtain c' where "unsubscribe s n c = Some ((if n \<in> topicsOf a s
       then (True, topicsOf a s = {n}, int (card (subscribersOf n a)) - 1) else (False, False, - 1)), c')"
      "tree_rel c' (qUnsubscribe s n a)" using unsubscribe_ok [OF rel, of s n] ok by auto
  then show ?thesis using Unsubscribe by (cases "n \<in> topicsOf a s") simp_all
next
  case (Drain s)
  then show ?thesis using drain_ok [OF rel, of s lim walk send] ok by auto
next
  case DrainAll
  then show ?thesis using drainAll_ok [OF rel lim, of walk send] by auto
next
  case (Publish sender n m)
  then show ?thesis using publish_ok [OF rel walk lim, of send sender n m] ok by (auto split: prod.splits)
next
  case (PublishBig sender n m)
  then show ?thesis using publishBig_ok [OF rel walk, of lim send sender n m] by (auto split: prod.splits)
next
  case (Send s m)
  then show ?thesis using sendThrough_ok [OF rel, of s lim walk send m] ok by auto
qed

lemma created_step: "created (snd (specify walk send x a)) \<le> Suc (created a)"
  by (cases x) (auto simp: qCreate_def qFree_def qSubscribe_def qUnsubscribe_def qPublish_def qPublishBig_def Let_def)

lemma card_live:
  assumes "tree_rel c a" shows "card (live a) \<le> created a"
proof -
  have "live a \<subseteq> {..<created a}" using topics_relD(5) [OF tree_relD(2) [OF assms]] by auto
  then show ?thesis using card_mono [of "{..<created a}"] by simp
qed

lemma performAll_ok:
  assumes "walks walk" and "tree_rel c a" and "allowedAll walk send xs a" and "created a + length xs \<le> lim"
  shows "\<exists>c'. performAll lim walk (onlySends send) (sendThrough lim walk send) xs c = Some (fst (specifyAll walk send xs a), c') \<and>
           tree_rel c' (snd (specifyAll walk send xs a))"
  using assms(2-4)
proof (induction xs arbitrary: c a)
  case Nil
  then show ?case by simp
next
  case (Cons x xs)
  obtain r a1 where step: "specify walk send x a = (r, a1)" by fastforce
  obtain rs a2 where rest: "specifyAll walk send xs a1 = (rs, a2)" by fastforce
  have "card (live a) \<le> lim" using card_live [OF Cons.prems(1)] Cons.prems(3) by simp
  then obtain c1 where c1: "perform lim walk (onlySends send) (sendThrough lim walk send) x c = Some (r, c1)" "tree_rel c1 a1"
    using perform_ok [OF Cons.prems(1) assms(1), of x lim send] Cons.prems(2) step by auto
  have "created a1 + length xs \<le> lim"
    using created_step [of walk send x a] step Cons.prems(3) by simp
  then obtain c2 where "performAll lim walk (onlySends send) (sendThrough lim walk send) xs c1 = Some (rs, c2)" "tree_rel c2 a2"
    using Cons.IH [OF c1(2)] Cons.prems(2) step rest by auto
  then show ?case using c1(1) step rest by auto
qed

lemma tree_rel_empty: "tree_rel (emptyTree w) (qEmpty w)"
  by (simp add: tree_rel_def emptyTree_def qEmpty_def idle_def topics_rel_def maps_rel_def queue_rel_def subscribersOf_def)


section \<open>What the tree promises\<close>

lemma performAll_empty:
  assumes "walks walk" and "allowedAll walk send xs (qEmpty w)" and "length xs \<le> lim"
  shows "\<exists>c. performAll lim walk (onlySends send) (sendThrough lim walk send) xs (emptyTree w) =
             Some (fst (specifyAll walk send xs (qEmpty w)), c) \<and>
           tree_rel c (snd (specifyAll walk send xs (qEmpty w)))"
  using performAll_ok [OF assms(1) tree_rel_empty assms(2), of lim] assms(3) by (simp add: qEmpty_def)

lemma snd_specifyAll:
  "snd (specifyAll walk send (x # xs) a) = snd (specifyAll walk send xs (snd (specify walk send x a)))"
  by (simp add: Let_def split: prod.splits)

lemma specifyAll_append:
  "snd (specifyAll walk send (xs @ ys) a) = snd (specifyAll walk send ys (snd (specifyAll walk send xs a)))"
proof (induction xs arbitrary: a)
  case (Cons x xs)
  then show ?case unfolding append_Cons snd_specifyAll by simp
qed simp

lemma allowedAll_append:
  "allowedAll walk send (xs @ ys) a \<longleftrightarrow>
     allowedAll walk send xs a \<and> allowedAll walk send ys (snd (specifyAll walk send xs a))"
proof (induction xs arbitrary: a)
  case (Cons x xs)
  then show ?case unfolding append_Cons snd_specifyAll by simp
qed simp

text \<open>C3. Publish/subscribe as a refinement, for callbacks that only send: for a sequence of operations
  (creating and freeing subscribers, subscribing, unsubscribing, publishing small and big messages,
  sending and draining) on subscribers that exist, in which no publish comes to a vector of 65535
  messages while no subscriber has messages, the tree with its shared vector, its 16-bit indices, its
  linked list and its maps of topics never fails, gives the replies of the machine in which every
  subscriber has a queue of its own, and ends in a state that represents the machine's. The excluded
  publish needs 65535 messages left behind by freed subscribers, each the last that had messages
  (\<open>freeSubscriber\<close> does not clear the vector); the code then drains nothing and goes on
  filling the vector beyond what its indices reach.\<close>
theorem tree_refines_queues:
  assumes "walks walk" and "allowedAll walk send xs (qEmpty w)" and "length xs \<le> lim"
  shows "\<exists>c. performAll lim walk (onlySends send) (sendThrough lim walk send) xs (emptyTree w) = Some (fst (specifyAll walk send xs (qEmpty w)), c) \<and>
           tree_rel c (snd (specifyAll walk send xs (qEmpty w)))"
  using assms by (rule performAll_empty)

text \<open>The world of the next theorem is the list of all that was sent.\<close>

definition logSend :: "(nat, (nat \<times> nat) list) sender" where
  "logSend s m flags w = (False, w @ [(s, m)])"

definition received :: "nat \<Rightarrow> (nat \<times> nat) list \<Rightarrow> nat list" where
  "received s w = map snd (filter (\<lambda>e. fst e = s) w)"

definition addressedBy :: "nat TreeOp \<Rightarrow> (nat, 'w) PubSub \<Rightarrow> nat \<Rightarrow> nat list" where
  "addressedBy x a s = (case x of
     Publish sender n m \<Rightarrow> if s \<in> subscribersOf n a \<and> sender \<noteq> Some s then [m] else []
   | PublishBig sender n m \<Rightarrow> if s \<in> subscribersOf n a \<and> sender \<noteq> Some s then [m] else []
   | Send s' m \<Rightarrow> if s' = s then [m] else []
   | _ \<Rightarrow> [])"

fun addressed :: "(nat set \<Rightarrow> nat list) \<Rightarrow> (nat, 'w) sender \<Rightarrow> nat TreeOp list \<Rightarrow> (nat, 'w) PubSub \<Rightarrow> nat \<Rightarrow> nat list" where
  "addressed walk send [] a s = []"
| "addressed walk send (x # xs) a s =
     addressedBy x a s @ addressed walk send xs (snd (specify walk send x a)) s"

lemma addressed_append:
  "addressed walk send (xs @ ys) a s =
     addressed walk send xs a s @ addressed walk send ys (snd (specifyAll walk send xs a)) s"
proof (induction xs arbitrary: a)
  case (Cons x xs)
  then show ?case unfolding append_Cons snd_specifyAll by simp
qed simp

definition account :: "(nat, (nat \<times> nat) list) PubSub \<Rightarrow> nat \<Rightarrow> nat list" where
  "account a s = received s (outside a) @ queueOf a s"

lemma deliver_log: "deliver logSend s first ms w = w @ map (Pair s) ms"
  by (induction ms arbitrary: first w) (simp_all add: logSend_def)

lemma received_append [simp]: "received s (w @ w') = received s w @ received s w'"
  by (simp add: received_def)

lemma received_pairs [simp]: "received s (map (Pair s') ms) = (if s' = s then ms else [])"
  by (induction ms) (auto simp: received_def)

lemma received_single [simp]: "received s [(s', m)] = (if s' = s then [m] else [])"
  by (simp add: received_def)

lemma account_qDrain [simp]: "account (qDrain logSend s a) v = account a v"
  by (simp add: account_def qDrain_def Let_def deliver_log)

lemma account_qEnqueue: "account (qEnqueue logSend m s a) v = account a v @ (if s = v then [m] else [])"
proof -
  let ?a1 = "if length (queueOf a s) = 32 then qDrain logSend s a else a"
  have "account (qEnqueue logSend m s a) v = account ?a1 v @ (if s = v then [m] else [])"
    by (simp add: qEnqueue_def Let_def account_def)
  then show ?thesis by (simp split: if_splits)
qed

lemma account_qSend: "account (qSend logSend m s a) v = account a v @ (if s = v then [m] else [])"
proof -
  have "queueOf (qDrain logSend s a) s = []" by simp
  then have "account (qSend logSend m s a) v = account (qDrain logSend s a) v @ (if s = v then [m] else [])"
    by (simp add: qSend_def Let_def account_def logSend_def)
  then show ?thesis by simp
qed

lemma account_fold:
  assumes "\<And>s a. account (f s a) v = account a v @ (if s = v then [m] else [])" and "distinct ss"
  shows "account (fold f ss a) v = account a v @ (if v \<in> set ss then [m] else [])"
  using assms(2) by (induction ss arbitrary: a) (auto simp: assms(1))

lemma fold_deliver_log:
  "distinct ss \<Longrightarrow> received v (fold (\<lambda>s. deliver logSend s FIRST (Q s)) ss w) =
     received v w @ (if v \<in> set ss then Q v else [])"
  by (induction ss arbitrary: w) (auto simp: deliver_log)

lemma account_qDrainAll:
  assumes "queue_rel [] UNIV c a" shows "account (qDrainAll logSend a) v = account a v"
  using queue_relD(1,4) [OF assms] by (auto simp: account_def qDrainAll_def fold_deliver_log)

lemma account_step:
  assumes rel: "tree_rel c a" and walk: "walks walk" and ok: "allowed x a"
    and v: "x \<noteq> Free v"
  shows "account (snd (specify walk logSend x a)) v = account a v @ addressedBy x a v"
proof (cases x)
  case Create
  then show ?thesis by (simp add: account_def qCreate_def addressedBy_def)
next
  case (Free s)
  with v show ?thesis by (simp add: account_def qFree_def addressedBy_def)
next
  case (Subscribe s n)
  then show ?thesis by (simp add: account_def qSubscribe_def addressedBy_def)
next
  case (Unsubscribe s n)
  then show ?thesis by (simp add: account_def qUnsubscribe_def addressedBy_def)
next
  case (Drain s)
  then show ?thesis by (simp add: addressedBy_def)
next
  case DrainAll
  then show ?thesis using account_qDrainAll [OF tree_relD(3) [OF rel]] by (simp add: addressedBy_def)
next
  case (Publish sender n m)
  have w: "set (walk (subscribersOf n a)) = subscribersOf n a" "distinct (walk (subscribersOf n a))"
    using walk finite_subscribers [OF tree_relD(2) [OF rel]] by (simp_all add: walks_def)
  have bl: "account (a1 \<lparr> backlog := b \<rparr>) v = account a1 v" for a1 b by (simp add: account_def)
  have d: "account (if backlog a \<ge> 65535 then qDrainAll logSend a else a) v = account a v"
    using account_qDrainAll [OF tree_relD(3) [OF rel]] by simp
  show ?thesis
    using Publish w by (auto simp: filter_empty_conv qPublish_def addressedBy_def Let_def bl d account_qDrainAll [OF tree_relD(3) [OF rel]]
        account_fold [where f = "qEnqueue logSend m", OF account_qEnqueue])
next
  case (PublishBig sender n m)
  have w: "set (walk (subscribersOf n a)) = subscribersOf n a" "distinct (walk (subscribersOf n a))"
    using walk finite_subscribers [OF tree_relD(2) [OF rel]] by (simp_all add: walks_def)
  show ?thesis
    using PublishBig w by (auto simp: qPublishBig_def addressedBy_def
        account_fold [where f = "qSend logSend m", OF account_qSend])
next
  case (Send s m)
  then show ?thesis by (simp add: account_qSend addressedBy_def)
qed

text \<open>Once freed a subscriber does not come back.\<close>

lemma live_back: "v \<in> live (snd (specify walk send x a)) \<Longrightarrow> v < created a \<Longrightarrow> v \<in> live a"
  by (cases x) (auto simp: qCreate_def qFree_def qSubscribe_def qUnsubscribe_def qPublish_def qPublishBig_def Let_def
      split: if_splits)

lemma live_back_all:
  assumes "v \<in> live (snd (specifyAll walk send xs a))" and "v < created a"
  shows "v \<in> live a"
  using assms
proof (induction xs arbitrary: a)
  case (Cons x xs)
  have "created a \<le> created (snd (specify walk send x a))"
    by (cases x) (auto simp: qCreate_def qFree_def qSubscribe_def qUnsubscribe_def qPublish_def qPublishBig_def Let_def)
  then have "v \<in> live (snd (specify walk send x a))"
    using Cons.IH [of "snd (specify walk send x a)"] Cons.prems by (simp add: Let_def split: prod.splits)
  then show ?case using live_back Cons.prems(2) by blast
qed simp

lemma account_all:
  assumes "walks walk" and "tree_rel c a" and "allowedAll walk logSend xs a"
    and "v \<in> live (snd (specifyAll walk logSend xs a))"
  shows "account (snd (specifyAll walk logSend xs a)) v = account a v @ addressed walk logSend xs a v"
  using assms(2-4)
proof (induction xs arbitrary: c a)
  case Nil
  then show ?case by simp
next
  case (Cons x xs)
  let ?a1 = "snd (specify walk logSend x a)"
  obtain c1 where c1: "tree_rel c1 ?a1"
    using perform_ok [OF Cons.prems(1) assms(1), of x "card (live a)" logSend] Cons.prems(2) by auto
  have fin: "v \<in> live (snd (specifyAll walk logSend xs ?a1))"
    using Cons.prems(3) by (simp add: Let_def split: prod.splits)
  have "x \<noteq> Free v"
  proof
    assume x: "x = Free v"
    then have "v < created ?a1"
      using Cons.prems(2) topics_relD(5) [OF tree_relD(2) [OF Cons.prems(1)], of v] by (simp add: qFree_def)
    then have "v \<in> live ?a1" using live_back_all [OF fin] by blast
    with x show False by (simp add: qFree_def)
  qed
  then have "account ?a1 v = account a v @ addressedBy x a v"
    using account_step [OF Cons.prems(1) assms(1)] Cons.prems(2) by simp
  then show ?case using Cons.IH [OF c1 _ fin] Cons.prems(2) unfolding snd_specifyAll by simp
qed

text \<open>C6. Every message is delivered, once and in order, by a callback that sends what it is given, never
  asks to drop the rest and does not call the tree: after a sequence of operations on existing
  subscribers, in which no publish comes to a vector of 65535 messages while no subscriber has
  messages, and a drain, as the event loop does it in every iteration, every subscriber that still
  exists has been sent exactly the messages addressed to it, those published to its topics while it was
  subscribed and those sent to it alone, in the order in which that happened. Subscribers may be freed
  with undelivered messages.\<close>
theorem every_message_once_in_order:
  assumes "walks walk" and "allowedAll walk logSend xs (qEmpty [])" and "length xs < lim"
    and "performAll lim walk (onlySends logSend) (sendThrough lim walk logSend) (xs @ [DrainAll]) (emptyTree []) = Some (rs, c)"
    and "s \<in> dom (subHeap c)"
  shows "received s (world c) = addressed walk logSend xs (qEmpty []) s"
proof -
  let ?a = "snd (specifyAll walk logSend xs (qEmpty []))"
  have app: "specifyAll walk logSend (xs @ [DrainAll]) b = (fst (specifyAll walk logSend xs b) @ [Done],
      qDrainAll logSend (snd (specifyAll walk logSend xs b)))" for b
    by (induction xs arbitrary: b) (simp_all add: Let_def split: prod.splits)
  have "allowedAll walk logSend (xs @ [DrainAll]) b = allowedAll walk logSend xs b" for b
    by (induction xs arbitrary: b) simp_all
  with assms(2) have "allowedAll walk logSend (xs @ [DrainAll]) (qEmpty [])" by simp
  from performAll_empty [OF assms(1) this, of lim] assms(3,4)
  have rel: "tree_rel c (qDrainAll logSend ?a)" by (auto simp: app)
  from performAll_empty [OF assms(1,2), of lim] assms(3)
  obtain c0 where c0: "tree_rel c0 ?a" by auto
  have "s \<in> live ?a"
    using assms(5) topics_relD(3) [OF tree_relD(2) [OF rel]] by simp
  then have "account ?a s = addressed walk logSend xs (qEmpty []) s"
    using account_all [OF assms(1) tree_rel_empty assms(2)] by (simp add: account_def qEmpty_def received_def)
  moreover have "account (qDrainAll logSend ?a) s = account ?a s"
    by (rule account_qDrainAll [OF tree_relD(3) [OF c0]])
  moreover have "queueOf (qDrainAll logSend ?a) s = []"
    using queue_relD(4) [OF tree_relD(3) [OF c0], of s] by (auto simp: qDrainAll_def)
  ultimately show ?thesis
    using queue_relD(6) [OF tree_relD(3) [OF rel]] by (simp add: account_def)
qed


text \<open>
  A run: one subscriber is freed while it is the only one with a message; then two subscribers of a
  topic, one publishes to the other. The walk is by address.
\<close>

definition freedOps :: "nat TreeOp list" where
  "freedOps = [Create, Create, Create, Subscribe 2 [117], Publish None [117] 5, Free 2]"

definition exampleOps :: "nat TreeOp list" where
  "exampleOps = freedOps @ [Subscribe 0 [116], Subscribe 1 [116], Publish (Some 0) [116] 7, Send 1 8,
     PublishBig None [116] 9]"

lemma walks_sorted: "walks sorted_list_of_set"
  by (simp add: walks_def)

lemma freedOps_run:
  "snd (specifyAll sorted_list_of_set logSend freedOps (qEmpty [])) =
     \<lparr> live = {0, 1}, topicsOf = \<lambda>_. {}, queueOf = \<lambda>_. [], ready = [], backlog = 1, created = 3, outside = [] \<rparr>"
  by (simp add: freedOps_def qEmpty_def qCreate_def qSubscribe_def qFree_def qPublish_def subscribersOf_def qEnqueue_def)
    auto

lemma freedOps_allowed: "allowedAll sorted_list_of_set logSend freedOps (qEmpty [])"
  by (simp add: freedOps_def qEmpty_def qCreate_def qSubscribe_def qPublish_def qEnqueue_def subscribersOf_def)

lemma exampleOps_length: "length exampleOps = 11"
  by (simp add: exampleOps_def freedOps_def)

lemma exampleOps_allowed: "allowedAll sorted_list_of_set logSend exampleOps (qEmpty [])"
  unfolding exampleOps_def allowedAll_append freedOps_run
  by (simp add: freedOps_allowed qSubscribe_def qPublish_def qSend_def qDrain_def Let_def subscribersOf_def
      qEnqueue_def logSend_def)

lemma tree_refines_queues_witness:
  "\<exists>c. performAll 11 sorted_list_of_set (onlySends logSend) (sendThrough 11 sorted_list_of_set logSend) exampleOps (emptyTree []) =
      Some (fst (specifyAll sorted_list_of_set logSend exampleOps (qEmpty [])), c) \<and>
    tree_rel c (snd (specifyAll sorted_list_of_set logSend exampleOps (qEmpty [])))"
  using tree_refines_queues [OF walks_sorted exampleOps_allowed, of 11] by (simp add: exampleOps_length)


lemma every_message_once_in_order_witness:
  "\<exists>rs c. performAll 12 sorted_list_of_set (onlySends logSend) (sendThrough 12 sorted_list_of_set logSend)
       (exampleOps @ [DrainAll]) (emptyTree []) = Some (rs, c) \<and> received 1 (world c) = [7, 8, 9]"
proof -
  have step: "specifyAll sorted_list_of_set logSend (xs @ [DrainAll]) b =
      (fst (specifyAll sorted_list_of_set logSend xs b) @ [Done],
       qDrainAll logSend (snd (specifyAll sorted_list_of_set logSend xs b)))" for xs b
    by (induction xs arbitrary: b) (simp_all add: Let_def split: prod.splits)
  have "allowedAll sorted_list_of_set logSend (xs @ [DrainAll]) b = allowedAll sorted_list_of_set logSend xs b" for xs b
    by (induction xs arbitrary: b) simp_all
  with exampleOps_allowed have "allowedAll sorted_list_of_set logSend (exampleOps @ [DrainAll]) (qEmpty [])" by simp
  from performAll_empty [OF walks_sorted this, of 12] obtain rs c where
    run: "performAll 12 sorted_list_of_set (onlySends logSend) (sendThrough 12 sorted_list_of_set logSend)
       (exampleOps @ [DrainAll]) (emptyTree []) = Some (rs, c)"
    and rel: "tree_rel c (qDrainAll logSend (snd (specifyAll sorted_list_of_set logSend exampleOps (qEmpty []))))"
    unfolding step by (auto simp: exampleOps_length)
  have "live (snd (specifyAll sorted_list_of_set logSend exampleOps (qEmpty []))) = {0, 1}"
    unfolding exampleOps_def specifyAll_append freedOps_run
    by (auto simp: qSubscribe_def qPublish_def qPublishBig_def subscribersOf_def Let_def)
  with topics_relD(3) [OF tree_relD(2) [OF rel]] have "1 \<in> dom (subHeap c)" by simp
  from every_message_once_in_order [OF walks_sorted exampleOps_allowed _ run this]
  have "received 1 (world c) = addressed sorted_list_of_set logSend exampleOps (qEmpty []) 1"
    by (simp add: exampleOps_length)
  also have "\<dots> = [7, 8, 9]"
    unfolding exampleOps_def addressed_append freedOps_run
    by (simp add: freedOps_def qEmpty_def qCreate_def qSubscribe_def qPublish_def addressedBy_def subscribersOf_def
        Let_def)
  finally show ?thesis using run by blast
qed

end
