(* ===== verification/TopicCallbacks.thy ===== *)
theory TopicCallbacks
  imports TopicTree
begin

text \<open>
  Callbacks that call back into the tree. While a topic is walked by a publish, whatever the callbacks do
  with the operations of the tree leaves the members of that topic as they are, so the iterator of the
  walk stays valid. What deferral does not protect is in \<open>TopicReentry\<close>.
\<close>

section \<open>The walked topic stays as it is\<close>

definition namesAgree :: "('m, 'w) TopicTree \<Rightarrow> bool" where
  "namesAgree t \<longleftrightarrow>
     (\<forall>n p. topicsByName t n = Some p \<longrightarrow> p < freshTopic t \<and> (\<exists>x. topicHeap t p = Some x \<and> topicName x = n)) \<and>
     (\<forall>p x. topicHeap t p = Some x \<longrightarrow> topicsByName t (topicName x) = Some p)"

definition walked :: "nat \<Rightarrow> nat set \<Rightarrow> nat \<Rightarrow> ('m, 'w) TopicTree \<Rightarrow> bool" where
  "walked p M d t \<longleftrightarrow> drainingDepth t = d \<and> iteratingTopic t = Some p \<and> stillWalking p M t \<and> namesAgree t"

text \<open>A result of an operation, if there is one, keeps the walk.\<close>

definition keeps :: "nat \<Rightarrow> nat set \<Rightarrow> nat \<Rightarrow> ('m, 'w) TopicTree option \<Rightarrow> bool" where
  "keeps p M d r \<longleftrightarrow> (case r of None \<Rightarrow> True | Some t \<Rightarrow> walked p M d t)"

lemma keepsI: "(\<And>t. r = Some t \<Longrightarrow> walked p M d t) \<Longrightarrow> keeps p M d r"
  by (simp add: keeps_def split: option.splits)

lemma keepsD: "keeps p M d r \<Longrightarrow> r = Some t \<Longrightarrow> walked p M d t"
  by (simp add: keeps_def)

definition goodCallback :: "nat \<Rightarrow> nat set \<Rightarrow> ('m, 'w) callback \<Rightarrow> bool" where
  "goodCallback p M cb \<longleftrightarrow> (\<forall>s m flags t d. 0 < d \<longrightarrow> walked p M d t \<longrightarrow> keeps p M d (map_option snd (cb s m flags t)))"

definition topicSide :: "('m, 'w) TopicTree \<Rightarrow> (nat \<rightharpoonup> Topic) \<times> (bytes \<rightharpoonup> nat) \<times> nat \<times> nat option" where
  "topicSide t = (topicHeap t, topicsByName t, freshTopic t, iteratingTopic t)"

lemma walked_side:
  "topicSide t' = topicSide t \<Longrightarrow> walked p M d t' \<longleftrightarrow> drainingDepth t' = d \<and> (\<exists>d'. walked p M d' t)"
  by (auto simp: walked_def topicSide_def stillWalking_def namesAgree_def)

lemma unlink_side:
  assumes "unlinkDrainableSubscriber s t = Some t'"
  shows "topicSide t' = topicSide t" "drainingDepth t' = drainingDepth t"
  using assms
  by (auto simp: unlinkDrainableSubscriber_def unlinkPrev_def unlinkNext_def topicSide_def
      split: option.splits Option.bind_splits if_splits)

lemma drainLoop_keeps:
  assumes cb: "goodCallback p M cb" and d: "0 < d"
  shows "walked p M d t \<Longrightarrow> keeps p M d (drainLoop cb s n k t)"
proof (induction k arbitrary: t)
  case 0
  then show ?case by (simp add: keeps_def)
next
  case (Suc k)
  show ?case
  proof (rule keepsI)
    fix t' assume run: "drainLoop cb s n (Suc k) t = Some t'"
    let ?i = "n - Suc k"
    from run obtain x where x: "subHeap t s = Some x" by (cases "subHeap t s") simp_all
    let ?w = "messageIndices x ! ?i"
    let ?flags = "(if ?i = n - 1 then LAST else 0) OR (if ?i = 0 then FIRST else 0)"
    let ?m = "outgoingMessages t ! unat ?w"
    have "?i < length (messageIndices x) \<and> unat ?w < length (outgoingMessages t)"
      by (rule ccontr) (use run x in \<open>auto simp: Let_def split: if_splits\<close>)
    with run x have "Option.bind (cb s ?m ?flags t) (\<lambda>(b, t1). if b then Some t1 else drainLoop cb s n k t1) = Some t'"
      by (simp add: Let_def)
    then obtain m flags where bnd:
        "Option.bind (cb s m flags t) (\<lambda>(b, t1). if b then Some t1 else drainLoop cb s n k t1) = Some t'" ..
    then obtain z where z: "cb s m flags t = Some z" by (cases "cb s m flags t") simp_all
    obtain b t1 where zz: "z = (b, t1)" by fastforce
    have c: "cb s m flags t = Some (b, t1)" using z zz by simp
    have r: "(if b then Some t1 else drainLoop cb s n k t1) = Some t'" using bnd z zz by simp
    have "walked p M d t1"
    proof -
      have "keeps p M d (map_option snd (cb s m flags t))"
        using cb Suc.prems d by (simp add: goodCallback_def)
      with c show ?thesis by (simp add: keeps_def)
    qed
    then show "walked p M d t'" using r keepsD [OF Suc.IH [of t1]] by (cases b) simp_all
  qed
qed

lemma drainImpl_keeps:
  assumes "goodCallback p M cb" and "0 < d" and "walked p M d t"
  shows "keeps p M d (drainImpl cb s t)"
proof (rule keepsI)
  fix t' assume "drainImpl cb s t = Some t'"
  then obtain x where "drainLoop cb s (numMessageIndices x) (numMessageIndices x)
      (setSub s (x \<lparr> numMessageIndices := 0 \<rparr>) t) = Some t'"
    by (auto simp: drainImpl_def Let_def split: Option.bind_splits)
  moreover have "walked p M d (setSub s (x \<lparr> numMessageIndices := 0 \<rparr>) t)"
    using assms(3) by (simp add: walked_def stillWalking_def namesAgree_def)
  ultimately show "walked p M d t'"
    using drainLoop_keeps [OF assms(1,2)] by (blast intro: keepsD)
qed

lemma leave_inside: "0 < d \<Longrightarrow> drainingDepth t = Suc d \<Longrightarrow> leaveWith ap t = Some (t \<lparr> drainingDepth := d \<rparr>)"
  by (simp add: leaveWith_def)

lemma drainWith_keeps:
  assumes cb: "goodCallback p M cb" and d: "0 < d" and w: "walked p M d t"
  shows "keeps p M d (drainWith ap cb s t)"
proof (rule keepsI)
  fix t' assume run: "drainWith ap cb s t = Some t'"
  then obtain x where x: "subHeap t s = Some x"
    by (auto simp: drainWith_def split: Option.bind_splits)
  show "walked p M d t'"
  proof (cases "needsDrainage x")
    case False
    with run x w show ?thesis by (simp add: drainWith_def)
  next
    case True
    let ?t0 = "t \<lparr> drainingDepth := drainingDepth t + 1 \<rparr>"
    obtain t1 t2 where t1: "unlinkDrainableSubscriber s ?t0 = Some t1" and t2: "drainImpl cb s t1 = Some t2"
      and t': "leaveWith ap (if drainableSubscribers t2 = None then t2 \<lparr> outgoingMessages := [] \<rparr> else t2) = Some t'"
      using run x True by (auto simp: drainWith_def Let_def split: Option.bind_splits)
    have "walked p M (Suc d) t1"
      using w unlink_side [OF t1] by (subst walked_side [of t1 t]) (auto simp: topicSide_def walked_def)
    then have w2: "walked p M (Suc d) t2"
      using drainImpl_keeps [OF cb _ _, of "Suc d" t1 s] t2 by (simp add: keeps_def)
    then show ?thesis using t' d
      by (auto simp: leave_inside walked_def stillWalking_def namesAgree_def)
  qed
qed

lemma drainList_keeps:
  assumes cb: "goodCallback p M cb" and d: "0 < d"
  shows "walked p M d t \<Longrightarrow> keeps p M d (drainList lim cb so t)"
proof (induction lim arbitrary: so t)
  case 0
  then show ?case by (cases so) (simp_all add: keeps_def)
next
  case (Suc lim)
  show ?case
  proof (cases so)
    case None
    with Suc.prems show ?thesis by (simp add: keeps_def)
  next
    case (Some s)
    show ?thesis
    proof (rule keepsI)
      fix t' assume "drainList (Suc lim) cb so t = Some t'"
      then obtain x t1 where x: "subHeap t s = Some x"
        and t1: "(if \<not> wasFreed x then drainImpl cb s t else Some t) = Some t1"
        and t': "drainList lim cb (subNext x) t1 = Some t'"
        using Some by (auto simp: Let_def split: Option.bind_splits)
      have "walked p M d t1"
        using t1 Suc.prems drainImpl_keeps [OF cb d Suc.prems, of s] by (auto simp: keeps_def split: if_splits)
      then show "walked p M d t'" using keepsD [OF Suc.IH t'] by blast
    qed
  qed
qed

lemma drainAllWith_keeps:
  assumes cb: "goodCallback p M cb" and d: "0 < d" and w: "walked p M d t"
  shows "keeps p M d (drainAllWith ap lim cb t)"
proof (rule keepsI)
  fix t' assume run: "drainAllWith ap lim cb t = Some t'"
  show "walked p M d t'"
  proof (cases "drainableSubscribers t = None")
    case True
    with run w show ?thesis by (simp add: drainAllWith_def)
  next
    case False
    let ?t0 = "t \<lparr> drainingDepth := drainingDepth t + 1 \<rparr>"
    obtain t1 where t1: "drainList lim cb (drainableSubscribers t) ?t0 = Some t1"
      and t': "leaveWith ap (t1 \<lparr> drainableSubscribers := None, outgoingMessages := [] \<rparr>) = Some t'"
      using run False by (auto simp: drainAllWith_def Let_def split: Option.bind_splits)
    have "walked p M (Suc d) ?t0" using w by (simp add: walked_def stillWalking_def namesAgree_def)
    then have "walked p M (Suc d) t1"
      using drainList_keeps [OF cb, of "Suc d" ?t0 lim "drainableSubscribers t"] t1 by (simp add: keeps_def)
    then show ?thesis using t' d
      by (auto simp: leave_inside walked_def stillWalking_def namesAgree_def)
  qed
qed


lemma keeps_Some [simp]: "keeps p M d (Some t) = walked p M d t"
  by (simp add: keeps_def)

lemma walked_subs [simp]:
  "walked p M d (setSub s x t) = walked p M d t"
  "walked p M d (t \<lparr> pendingFree := l \<rparr>) = walked p M d t"
  "walked p M d (t \<lparr> opsPending := b \<rparr>) = walked p M d t"
  "walked p M d (deferOp oper t) = walked p M d t"
  by (simp_all add: walked_def stillWalking_def namesAgree_def deferOp_def)

lemma walked_unlink:
  assumes u: "unlinkDrainableSubscriber s t = Some t'" and w: "walked p M d t"
  shows "walked p M d t'"
proof -
  have "drainingDepth t' = d" using unlink_side(2) [OF u] w by (simp add: walked_def)
  with w show ?thesis by (subst walked_side [OF unlink_side(1) [OF u]]) blast
qed

lemma freeSubscriber_keeps:
  assumes "0 < d" and w: "walked p M d t"
  shows "keeps p M d (freeSubscriber so t)"
proof (rule keepsI)
  fix t' assume run: "freeSubscriber so t = Some t'"
  show "walked p M d t'"
  proof (cases so)
    case None
    with run w show ?thesis by (simp add: freeSubscriber_def)
  next
    case (Some s)
    have "drainingDepth t > 0" using assms by (simp add: walked_def)
    with run Some obtain x t1 y where t1: "(if needsDrainage x then do {
                 t0 \<leftarrow> unlinkDrainableSubscriber s t; y \<leftarrow> subHeap t0 s;
                 Some (setSub s (y \<lparr> numMessageIndices := 0 \<rparr>) t0) } else Some t) = Some t1"
      and t': "t' = setSub s (y \<lparr> pendingDestruction := True \<rparr>) (t1 \<lparr> pendingFree := pendingFree t1 @ [s] \<rparr>)
                 \<lparr> opsPending := True \<rparr>"
      by (auto simp: freeSubscriber_def Let_def bind_eq_Some_conv)
    have "walked p M d t1"
    proof (cases "needsDrainage x")
      case True
      with t1 obtain t0 z where "unlinkDrainableSubscriber s t = Some t0"
          "t1 = setSub s (z \<lparr> numMessageIndices := 0 \<rparr>) t0"
        by (auto simp: bind_eq_Some_conv)
      then show ?thesis using walked_unlink [OF _ w] by simp
    qed (use t1 w in simp)
    then show ?thesis unfolding t' by (simp add: walked_def stillWalking_def namesAgree_def)
  qed
qed

lemma publish_keeps:
  assumes "0 < d" and w: "walked p M d t"
  shows "keeps p M d (map_option snd (publish lim walk cb sender n m t))"
  using assms
  by (auto simp: keeps_def publish_def publishWith_def walked_def [of p M d t] stillWalking_def namesAgree_def
      deferOp_def bind_eq_Some_conv walked_def split: option.splits)

lemma publishBig_keeps:
  assumes "0 < d" and w: "walked p M d t"
  shows "keeps p M d (map_option snd (publishBig lim walk cb big sender n m t))"
  using assms by (auto simp: publishBig_def walked_def split: option.splits)

text \<open>A topic that is not the walked one may change, and new ones may come.\<close>

lemma walked_setTopic:
  assumes "walked p M d t" and "q \<noteq> p" and "topicHeap t q = Some x" and "topicName y = topicName x"
  shows "walked p M d (setTopic q y t)"
proof -
  have na: "namesAgree t" using assms(1) by (simp add: walked_def)
  have "namesAgree (setTopic q y t)"
    unfolding namesAgree_def
  proof (intro conjI allI impI)
    fix n r assume n: "topicsByName (setTopic q y t) n = Some r"
    then show "r < freshTopic (setTopic q y t)" using na by (simp add: namesAgree_def)
    from n na obtain z where "topicHeap t r = Some z" "topicName z = n" by (auto simp: namesAgree_def)
    then show "\<exists>x. topicHeap (setTopic q y t) r = Some x \<and> topicName x = n"
      using assms(3,4) by (cases "r = q") auto
  next
    fix r z assume "topicHeap (setTopic q y t) r = Some z"
    then show "topicsByName (setTopic q y t) (topicName z) = Some r"
      using na assms(3,4) by (cases "r = q") (auto simp: namesAgree_def)
  qed
  then show ?thesis using assms(1,2) by (simp add: walked_def stillWalking_def)
qed

lemma walked_eraseTopicName:
  assumes w: "walked p M d t" and q: "q \<noteq> p" "topicHeap t q = Some x"
  shows "walked p M d (eraseTopicName (topicName x) t)"
proof -
  have nq: "topicsByName t (topicName x) = Some q" and na: "namesAgree t"
    using w q by (auto simp: walked_def namesAgree_def)
  let ?t = "eraseTopicName (topicName x) t"
  have t: "topicsByName ?t k = (if k = topicName x then None else topicsByName t k)"
    "topicHeap ?t r = (if r = q then None else topicHeap t r)" "freshTopic ?t = freshTopic t" for k r
    by (simp_all add: eraseTopicName_def nq)
  have "namesAgree ?t"
    unfolding namesAgree_def
  proof (intro conjI allI impI)
    fix n r assume "topicsByName ?t n = Some r"
    then have n: "n \<noteq> topicName x" "topicsByName t n = Some r" by (auto simp: t split: if_splits)
    with na obtain z where z: "topicHeap t r = Some z" "topicName z = n" by (auto simp: namesAgree_def)
    then show "\<exists>x. topicHeap ?t r = Some x \<and> topicName x = n" using q n(1) by (auto simp: t)
    show "r < freshTopic ?t" using na n(2) by (simp add: namesAgree_def t)
  next
    fix r z assume "topicHeap ?t r = Some z"
    then have r: "r \<noteq> q" "topicHeap t r = Some z" by (auto simp: t split: if_splits)
    with na have "topicsByName t (topicName z) = Some r" by (simp add: namesAgree_def)
    with r(1) nq show "topicsByName ?t (topicName z) = Some r" by (auto simp: t)
  qed
  then show ?thesis using w q by (simp add: walked_def stillWalking_def eraseTopicName_def nq)
qed

lemma newTopic_keeps:
  assumes w: "walked p M d t" and "topicsByName t n = None"
  shows "walked p M d (snd (newTopic n t))"
proof -
  have p: "p < freshTopic t" and na: "namesAgree t"
    using w by (auto simp: walked_def stillWalking_def namesAgree_def split: option.splits)
  have heap: "q < freshTopic t" if "topicHeap t q = Some x" for q x
    using na that by (auto simp: namesAgree_def)
  have "namesAgree (snd (newTopic n t))"
    unfolding namesAgree_def
  proof (intro conjI allI impI)
    fix k r assume k: "topicsByName (snd (newTopic n t)) k = Some r"
    show "r < freshTopic (snd (newTopic n t))"
      using k na by (auto simp: newTopic_def namesAgree_def less_SucI split: if_splits)
    show "\<exists>x. topicHeap (snd (newTopic n t)) r = Some x \<and> topicName x = k"
    proof (cases "k = n")
      case False
      with k na obtain z where "topicHeap t r = Some z" "topicName z = k"
        by (auto simp: newTopic_def namesAgree_def)
      then show ?thesis using heap by (auto simp: newTopic_def)
    qed (use k in \<open>simp add: newTopic_def\<close>)
  next
    fix r z assume r: "topicHeap (snd (newTopic n t)) r = Some z"
    show "topicsByName (snd (newTopic n t)) (topicName z) = Some r"
    proof (cases "r = freshTopic t")
      case False
      with r have "topicHeap t r = Some z" by (simp add: newTopic_def)
      with na have "topicsByName t (topicName z) = Some r" by (simp add: namesAgree_def)
      with assms(2) show ?thesis by (auto simp: newTopic_def)
    qed (use r in \<open>auto simp: newTopic_def\<close>)
  qed
  then show ?thesis using w p by (simp add: walked_def stillWalking_def newTopic_def)
qed

lemma subscribe_keeps:
  assumes w: "walked p M d t"
  shows "keeps p M d (map_option snd (subscribe s n t))"
proof (cases "iteratingSubscriber t = Some s")
  case True
  then show ?thesis using w by (simp add: subscribe_def)
next
  case False
  obtain q t1 where q: "(case lookupTopic n t of None \<Rightarrow> newTopic n t | Some p \<Rightarrow> (p, t)) = (q, t1)"
    by fastforce
  have w1: "walked p M d t1"
    using q w newTopic_keeps [OF w, of n] by (auto simp: lookupTopic_def split: option.splits)
  have it: "iteratingTopic t1 = Some p" using w1 by (simp add: walked_def)
  show ?thesis
  proof (rule keepsI)
    fix t' assume "map_option snd (subscribe s n t) = Some t'"
    then obtain r where run: "subscribe s n t = Some (r, t')" by auto
    then obtain x where sx: "subHeap t1 s = Some x"
      using False by (auto simp: subscribe_def q bind_eq_Some_conv split: if_splits)
    let ?t2 = "setSub s (x \<lparr> subTopics := insert q (subTopics x) \<rparr>) t1"
    have x: "if q \<in> subTopics x then t' = t1
          else if q = p then (\<exists>oper. t' = deferOp oper ?t2)
          else (\<exists>y. topicHeap t1 q = Some y \<and> t' = setTopic q (y \<lparr> topicMembers := insert s (topicMembers y) \<rparr>) ?t2)"
      using run False it sx
      by (cases "q \<in> subTopics x"; cases "q = p") (auto simp: subscribe_def q bind_eq_Some_conv Let_def)
    show "walked p M d t'"
    proof (cases "q \<in> subTopics x")
      case True
      with x w1 show ?thesis by simp
    next
      case nin: False
      show ?thesis
      proof (cases "q = p")
        case True
        with x nin w1 show ?thesis by (auto simp: Let_def)
      next
        case qp: False
        with x nin obtain y where y: "topicHeap t1 q = Some y"
          "t' = setTopic q (y \<lparr> topicMembers := insert s (topicMembers y) \<rparr>)
             (setSub s (x \<lparr> subTopics := insert q (subTopics x) \<rparr>) t1)" by (auto simp: Let_def)
        have "walked p M d (setSub s (x \<lparr> subTopics := insert q (subTopics x) \<rparr>) t1)" using w1 by simp
        from walked_setTopic [OF this qp] y show ?thesis by auto
      qed
    qed
  qed
qed

lemma eraseFromTopic_keeps:
  assumes w: "walked p M d t" and "q \<noteq> p"
  shows "keeps p M d (eraseFromTopic s q k t)"
proof (rule keepsI)
  fix t' assume run: "eraseFromTopic s q k t = Some t'"
  then obtain x where x: "topicHeap t q = Some x" by (auto simp: eraseFromTopic_def bind_eq_Some_conv)
  let ?x = "x \<lparr> topicMembers := topicMembers x - {s} \<rparr>"
  have w1: "walked p M d (setTopic q ?x t)" by (rule walked_setTopic [OF assms x]) simp
  have "walked p M d (eraseTopicName (topicName ?x) (setTopic q ?x t))"
    by (rule walked_eraseTopicName [OF w1 assms(2)]) simp
  with w1 run x show "walked p M d t'" by (auto simp: eraseFromTopic_def Let_def split: if_splits)
qed

lemma unsubscribe_keeps:
  assumes w: "walked p M d t"
  shows "keeps p M d (map_option snd (unsubscribe s n t))"
proof (rule keepsI)
  fix t' assume "map_option snd (unsubscribe s n t) = Some t'"
  then obtain r where run: "unsubscribe s n t = Some (r, t')" by auto
  have it: "iteratingTopic t = Some p" using w by (simp add: walked_def)
  show "walked p M d t'"
  proof (cases "iteratingSubscriber t = Some s \<or> lookupTopic n t = None")
    case True
    with run w show ?thesis by (auto simp: unsubscribe_def split: if_splits)
  next
    case False
    then obtain q where q: "lookupTopic n t = Some q" by auto
    with False run obtain x where sx: "subHeap t s = Some x"
      by (auto simp: unsubscribe_def bind_eq_Some_conv)
    let ?t1 = "setSub s (x \<lparr> subTopics := subTopics x - {q} \<rparr>) t"
    have x: "if q \<notin> subTopics x then t' = t
         else if q = p then (\<exists>oper. t' = deferOp oper ?t1) else eraseFromTopic s q 0 ?t1 = Some t'"
      using run False it sx q
      by (cases "q \<in> subTopics x"; cases "q = p") (auto simp: unsubscribe_def bind_eq_Some_conv Let_def)
    have w1: "walked p M d (setSub s (x \<lparr> subTopics := subTopics x - {q} \<rparr>) t)" using w by simp
    show ?thesis
    proof (cases "q \<notin> subTopics x \<or> q = p")
      case True
      with x w w1 show ?thesis by (auto simp: Let_def split: if_splits)
    next
      case False
      with x keepsD [OF eraseFromTopic_keeps [OF w1]] show ?thesis by (auto simp: Let_def)
    qed
  qed
qed

text \<open>C33. No iterator is invalidated: while a publish walks the members of a topic, no call into the tree
  that a callback can make (subscribing, unsubscribing, creating and freeing subscribers, publishing,
  draining, to any depth of callbacks that do the same) changes the members of that topic, frees it or
  ends the walk; such changes are deferred.\<close>
theorem walked_topic_is_stable:
  assumes "0 < d" and "walked p M d t" and "goodCallback p M cb"
    and "\<And>s m t. walked p M d t \<Longrightarrow> keeps p M d (big s m t)"
    and "perform lim walk cb big x t = Some (r, t')"
  shows "walked p M d t'"
proof -
  have k: "keeps p M d (map_option snd (perform lim walk cb big x t))"
  proof (cases x)
    case Create
    then show ?thesis using assms(2)
      by (simp add: createSubscriber_def walked_def stillWalking_def namesAgree_def)
  next
    case (Free s)
    then show ?thesis using freeSubscriber_keeps [OF assms(1,2), of "Some s"]
      by (cases "freeSubscriber (Some s) t") (simp_all add: keeps_def)
  next
    case (Subscribe s n)
    then show ?thesis using subscribe_keeps [OF assms(2), of s n]
      by (cases "subscribe s n t") (auto simp: keeps_def)
  next
    case (Unsubscribe s n)
    then show ?thesis using unsubscribe_keeps [OF assms(2), of s n]
      by (cases "unsubscribe s n t") (auto simp: keeps_def)
  next
    case (Drain s)
    then show ?thesis using drainWith_keeps [OF assms(3,1,2), of "applyPending lim walk cb" s]
      by (cases "drain lim walk cb s t") (auto simp: keeps_def drain_def)
  next
    case DrainAll
    then show ?thesis using drainAllWith_keeps [OF assms(3,1,2), of "applyPending lim walk cb" lim]
      by (cases "drainAll lim walk cb t") (auto simp: keeps_def drainAll_def)
  next
    case (Publish sender n m)
    then show ?thesis using publish_keeps [OF assms(1,2), of lim walk cb sender n m]
      by (cases "publish lim walk cb sender n m t") (auto simp: keeps_def)
  next
    case (PublishBig sender n m)
    then show ?thesis using publishBig_keeps [OF assms(1,2), of lim walk cb big sender n m]
      by (cases "publishBig lim walk cb big sender n m t") (auto simp: keeps_def)
  next
    case (Send s m)
    then show ?thesis using assms(4) [OF assms(2), of s m]
      by (cases "big s m t") (simp_all add: keeps_def)
  qed
  then show ?thesis using assms(5) by (simp add: keeps_def)
qed


text \<open>An unsubscribe from the topic that is being walked is deferred.\<close>

definition midWalk :: "(nat, unit) TopicTree" where
  "midWalk = (emptyTree ()) \<lparr> topicHeap := [0 \<mapsto> \<lparr> topicName = [116], topicMembers = {0} \<rparr>],
     subHeap := [0 \<mapsto> \<lparr> subPrev = None, subNext = None, messageIndices = replicate 32 0, numMessageIndices = 0,
        pendingDestruction = False, subTopics = {0} \<rparr>],
     topicsByName := [[116] \<mapsto> 0], drainingDepth := 1, iteratingTopic := Some 0, freshTopic := 1, freshSub := 1 \<rparr>"

lemma walked_topic_is_stable_witness:
  "map_option (\<lambda>(r, t'). (topicHeap t' 0, length (pendingOps t')))
     (perform 1 sorted_list_of_set (\<lambda>s m flags t. Some (True, t)) (\<lambda>s m t. Some t) (Unsubscribe 0 [116]) midWalk) =
   Some (Some \<lparr> topicName = [116], topicMembers = {0} \<rparr>, 1)"
proof -
  have w: "walked 0 {0} 1 midWalk"
    by (simp add: walked_def midWalk_def stillWalking_def namesAgree_def)
  obtain r t' where run: "perform 1 sorted_list_of_set (\<lambda>s m flags t. Some (True, t)) (\<lambda>s m t. Some t)
      (Unsubscribe 0 [116]) midWalk = Some (r, t')" and len: "length (pendingOps t') = 1"
      and name: "topicHeap t' 0 = topicHeap midWalk 0"
    by (simp add: midWalk_def unsubscribe_def lookupTopic_def numSubscribers_def deferOp_def emptyTree_def Let_def)
  have "walked 0 {0} 1 t'"
    by (rule walked_topic_is_stable [OF _ w _ _ run]) (simp_all add: goodCallback_def keeps_def)
  then have "topicHeap t' 0 = Some \<lparr> topicName = [116], topicMembers = {0} \<rparr>"
    using name by (simp add: walked_def midWalk_def stillWalking_def)
  with run len show ?thesis by simp
qed

end
