(* ===== verification/TopicReentry.thy ===== *)
theory TopicReentry
  imports TopicService TopicCallbacks
begin

text \<open>
  What deferral does not protect: handlers of the user that run under the callback, as the one for
  dropped messages does, may send on another socket, and \<open>WebSocket::send\<close> drains that socket's
  subscriber at once.
\<close>

lemma unlinkPart_core:
  "unlinkPrev x t = Some t' \<Longrightarrow> map_option core (subHeap t' u) = map_option core (subHeap t u) \<and>
     outgoingMessages t' = outgoingMessages t"
  "unlinkNext x t = Some t' \<Longrightarrow> map_option core (subHeap t' u) = map_option core (subHeap t u) \<and>
     outgoingMessages t' = outgoingMessages t"
  by (auto simp: unlinkPrev_def unlinkNext_def core_def bind_eq_Some_conv split: option.splits)

lemma unlink_core:
  assumes "unlinkDrainableSubscriber s t = Some t'"
  shows "map_option core (subHeap t' u) = map_option core (subHeap t u)" "outgoingMessages t' = outgoingMessages t"
proof -
  from assms obtain x t1 x1 t2 where "unlinkPrev x t = Some t1" "unlinkNext x1 t1 = Some t2"
      "subHeap t' = subHeap t2" "outgoingMessages t' = outgoingMessages t2"
    by (auto simp: unlinkDrainableSubscriber_def bind_eq_Some_conv)
  with unlinkPart_core show "map_option core (subHeap t' u) = map_option core (subHeap t u)"
    "outgoingMessages t' = outgoingMessages t" by metis+
qed

text \<open>Draining a subscriber whose first index is beyond the vector is a read outside it.\<close>

lemma drain_outside:
  assumes x: "subHeap t s = Some x" and n: "0 < numMessageIndices x"
    and i: "length (outgoingMessages t) \<le> unat (messageIndices x ! 0)"
  shows "drainWith ap cb s t = None"
proof -
  let ?t0 = "t \<lparr> drainingDepth := drainingDepth t + 1 \<rparr>"
  have "drainImpl cb s t1 = None" if u: "unlinkDrainableSubscriber s ?t0 = Some t1" for t1
  proof -
    have "map_option core (subHeap t1 s) = map_option core (Some x)"
      using unlink_core(1) [OF u, of s] x by simp
    then obtain y where y: "subHeap t1 s = Some y" "core y = core x" by auto
    obtain k where k: "numMessageIndices y = Suc k" using n core_simps(2) [OF y(2)] by (cases "numMessageIndices x") auto
    have "drainLoop cb s (Suc k) (Suc k) (setSub s (y \<lparr> numMessageIndices := 0 \<rparr>) t1) = None"
      using i unlink_core(2) [OF u] core_simps(1) [OF y(2)] by (simp add: Let_def)
    then show ?thesis using y k by (simp add: drainImpl_def)
  qed
  then show ?thesis
    using x n by (cases "unlinkDrainableSubscriber s ?t0") (simp_all add: drainWith_def needsDrainage_def)
qed

lemma pushIndex_core:
  assumes run: "pushIndex s t = Some t'" and x: "subHeap t s = Some x"
  shows "outgoingMessages t' = outgoingMessages t"
    and "subHeap t' s = Some y \<Longrightarrow>
      messageIndices y = (messageIndices x)[numMessageIndices x := of_nat (length (outgoingMessages t))]"
proof -
  have lt: "numMessageIndices x < length (messageIndices x)"
    by (rule ccontr) (use run x in \<open>simp add: pushIndex_def\<close>)
  have "outgoingMessages t' = outgoingMessages t \<and> (subHeap t' s = Some y \<longrightarrow>
      messageIndices y = (messageIndices x)[numMessageIndices x := of_nat (length (outgoingMessages t))])"
  proof (cases "numMessageIndices x = 0")
    case False
    with run x lt show ?thesis by (auto simp: pushIndex_def)
  next
    case True
    with run x lt show ?thesis
      by (cases "drainableSubscribers t") (auto simp: pushIndex_def Let_def bind_eq_Some_conv split: if_splits)
  qed
  then show "outgoingMessages t' = outgoingMessages t"
    and "subHeap t' s = Some y \<Longrightarrow>
      messageIndices y = (messageIndices x)[numMessageIndices x := of_nat (length (outgoingMessages t))]" by blast+
qed

text \<open>The callback under which \<open>r\<close> drops its messages and the handler sends on \<open>s\<close>.\<close>

definition sendsOnDrop :: "nat \<Rightarrow> nat \<Rightarrow> (nat, 'w) callback" where
  "sendsOnDrop r s v m flags t =
     (if v = r then map_option (Pair True) (drain 0 sorted_list_of_set (onlySends (\<lambda>_ _ _ w. (False, w))) s t)
      else Some (False, t))"

text \<open>The first message noted with a subscriber gets the index behind the last message of the vector.\<close>

lemma pushIndex_first:
  assumes rel: "queue_rel [m] UNIV t a" and x: "subHeap t s = Some x" and e: "queueOf a s = []" and b: "backlog a < 65535"
  obtains t' x' where "pushIndex s t = Some t'" and "sameElse t t'" and "outgoingMessages t' = outgoingMessages t"
    and "queue_rel [m] (UNIV - {s}) t' (a \<lparr> queueOf := (queueOf a)(s := [m]), ready := s # ready a \<rparr>)"
    and "subHeap t' s = Some x'" and "numMessageIndices x' = 1" and "unat (messageIndices x' ! 0) = length (outgoingMessages t)"
proof -
  have n: "numMessageIndices x = 0" using queue_length [OF rel x] e by simp
  obtain t' where t': "pushIndex s t = Some t'" "sameElse t t'"
      "queue_rel [m] (UNIV - {s}) t' (a \<lparr> queueOf := (queueOf a)(s := [m]), ready := s # ready a \<rparr>)"
    using pushIndex_ok [OF rel x] e b by auto
  obtain x' where x': "subHeap t' s = Some x'" using sameElse_sub [OF t'(2), of s x] x by auto
  have "messageIndices x' = (messageIndices x)[0 := of_nat (length (outgoingMessages t))]"
    using pushIndex_core(2) [OF t'(1) x, of x'] x' n by simp
  moreover have "length (messageIndices x) = 32" "length (outgoingMessages t) = backlog a"
    using queue_rel_sub [OF rel x] queue_relD(5) [OF rel] by (simp_all add: sub_rel_def)
  ultimately have "unat (messageIndices x' ! 0) = length (outgoingMessages t)" using b by simp
  moreover have "numMessageIndices x' = 1" using queue_length(1) [OF t'(3) x'] by simp
  ultimately show thesis using that [OF t'(1,2) pushIndex_core(1) [OF t'(1) x] t'(3) x'] by blast
qed

lemma dropping_drains_outside:
  assumes "s \<noteq> r" and x: "subHeap t s = Some x" "0 < numMessageIndices x" "length (outgoingMessages t) \<le> unat (messageIndices x ! 0)"
    and y: "subHeap t r = Some y" "numMessageIndices y = 32" "length (messageIndices y) = 32"
      "unat (messageIndices y ! 0) < length (outgoingMessages t)"
  shows "drainWith ap (sendsOnDrop r s) r t = None"
proof -
  let ?t0 = "t \<lparr> drainingDepth := drainingDepth t + 1 \<rparr>"
  have "drainImpl (sendsOnDrop r s) r t1 = None" if u: "unlinkDrainableSubscriber r ?t0 = Some t1" for t1
  proof -
    obtain z where z: "subHeap t1 r = Some z" "core z = core y"
      using unlink_core(1) [OF u, of r] y(1) by (cases "subHeap t1 r") auto
    obtain v where v: "subHeap t1 s = Some v" "core v = core x"
      using unlink_core(1) [OF u, of s] x(1) by (cases "subHeap t1 s") auto
    let ?t = "setSub r (z \<lparr> numMessageIndices := 0 \<rparr>) t1"
    have "drainWith ap' cb' s ?t = None" for ap' cb'
      by (rule drain_outside [of _ _ v])
        (use v \<open>s \<noteq> r\<close> x(2,3) unlink_core(2) [OF u] core_simps(1,2) [OF v(2)] in simp_all)
    then have "sendsOnDrop r s r m' fl ?t = None" for m' fl by (simp add: sendsOnDrop_def drain_def)
    then show ?thesis
      using z y(2-4) core_simps(1,2) [OF z(2)] unlink_core(2) [OF u]
      by (simp add: drainImpl_def numeral_eq_Suc Let_def)
  qed
  then show ?thesis using y(1,2)
    by (cases "unlinkDrainableSubscriber r ?t0") (simp_all add: drainWith_def needsDrainage_def)
qed

text \<open>C34. A publish that reads outside its vector: when a publish notes the message with subscriber \<open>s\<close> and
  then comes to \<open>r\<close>, which already holds 32 messages and drops them, and the handler of \<open>r\<close>'s socket sends
  on the socket of \<open>s\<close>, then \<open>s\<close> is drained with an index that \<open>outgoingMessages\<close> does not have yet.\<close>
theorem publish_reads_outside:
  assumes rel: "tree_rel c a" and walk: "walk (subscribersOf n a) = [s, r]" and S: "subscribersOf n a = {s, r}"
    and "s \<noteq> r" and full: "length (queueOf a r) = 32" and empty: "queueOf a s = []" and b: "backlog a < 65535"
  shows "publish lim walk (sendsOnDrop r s) None n m c = None"
proof -
  note top = tree_relD(2) [OF rel] and que = tree_relD(3) [OF rel]
  have "subscribersOf n a \<noteq> {}" using S by simp
  then obtain p where p: "topicsByName c n = Some p"
    using maps_rel_None [OF topics_relD(9) [OF top], of n] by (cases "topicsByName c n") auto
  note heap = maps_rel_member [OF topics_relD(9) [OF top] p]
  have live: "s \<in> live a" "r \<in> live a" using S by (auto simp: subscribersOf_def)
  obtain x y where x: "subHeap c s = Some x" and y: "subHeap c r = Some y" using live_sub [OF top] live by blast
  have control: "drainingDepth c = 0" "\<not> opsPending c" using tree_relD(1) [OF rel] by (simp_all add: idle_def)
  have out: "length (outgoingMessages c) = backlog a" using queue_relD(5) [OF que] .
  have nx: "numMessageIndices x = 0" using queue_length [OF que x] empty by simp
  let ?ap = "applyPending lim walk (sendsOnDrop r s)"
  let ?c1 = "c \<lparr> drainingDepth := 1, iteratingTopic := Some p \<rparr>"
  have que1: "queue_rel [m] UNIV ?c1 a" using queue_rel_start [OF que, of m] by (simp add: queue_rel_control)
  have x1: "subHeap ?c1 s = Some x" using x by simp
  obtain c2 x2 where c2: "pushIndex s ?c1 = Some c2" "sameElse ?c1 c2" "outgoingMessages c2 = outgoingMessages ?c1"
      "queue_rel [m] (UNIV - {s}) c2 (a \<lparr> queueOf := (queueOf a)(s := [m]), ready := s # ready a \<rparr>)"
    and x2: "subHeap c2 s = Some x2" "numMessageIndices x2 = 1" "unat (messageIndices x2 ! 0) = length (outgoingMessages ?c1)"
    by (rule pushIndex_first [OF que1 x1 empty b])
  obtain y2 where y2: "subHeap c2 r = Some y2" using sameElse_sub [OF c2(2), of r y] y by auto
  have ny2: "numMessageIndices y2 = 32" using queue_length(1) [OF c2(4) y2] full \<open>s \<noteq> r\<close> by simp
  have "length (messageIndices y2) = 32" "unat (messageIndices y2 ! 0) < length (outgoingMessages c2)"
    using queue_rel_sub [OF c2(4) y2] ny2 \<open>s \<noteq> r\<close> by (simp_all add: sub_rel_def)
  then have drain_r: "drainWith ?ap (sendsOnDrop r s) r c2 = None"
    using dropping_drains_outside [OF \<open>s \<noteq> r\<close> x2(1) _ _ y2 ny2] x2(2,3) c2(3) by simp
  have np2: "\<not> opsPending c2" using control c2(2) by (simp add: sameElse_fields)
  have "publishTo ?ap (sendsOnDrop r s) None p s (False, ?c1) = Some (True, c2)"
    using x nx control c2(1) by (simp add: publishTo_def)
  moreover have "publishTo ?ap (sendsOnDrop r s) None p r (True, c2) = None"
    using y2 ny2 np2 drain_r by (simp add: publishTo_def)
  ultimately have "publishLoop ?ap (sendsOnDrop r s) None p {s, r} [s, r] (False, ?c1) = None"
    using heap S c2(2) by (simp add: stillWalking_def sameElse_fields)
  then show ?thesis
    using p heap control out b S walk by (simp add: publish_def publishWith_def)
qed

text \<open>A run that leads there: 32 messages for subscriber 0, then one for 1 and 0, walked in this order.\<close>

definition downwards :: "nat set \<Rightarrow> nat list" where
  "downwards A = rev (sorted_list_of_set A)"

definition quietly :: "(nat, unit) sender" where
  "quietly s m flags w = (False, w)"

definition joinOps :: "nat TreeOp list" where
  "joinOps = [Create, Create, Subscribe 0 [97], Subscribe 0 [98], Subscribe 1 [98]]"

definition fillOps :: "nat \<Rightarrow> nat TreeOp list" where
  "fillOps k = replicate k (Publish None [97] 7)"

lemma fill_ok:
  assumes "subscribersOf [97] a = {0}" and "length (queueOf a 0) + k \<le> 32" and "backlog a + k \<le> 65535"
  shows "let b = snd (specifyAll downwards quietly (fillOps k) a) in
     live b = live a \<and> topicsOf b = topicsOf a \<and> length (queueOf b 0) = length (queueOf a 0) + k \<and>
     (\<forall>s. s \<noteq> 0 \<longrightarrow> queueOf b s = queueOf a s) \<and> backlog b = backlog a + k \<and>
     allowedAll downwards quietly (fillOps k) a"
  using assms
proof (induction k arbitrary: a)
  case 0
  then show ?case by (simp add: fillOps_def)
next
  case (Suc k)
  let ?a = "snd (specify downwards quietly (Publish None [97] 7) a)"
  have w: "downwards {0} = [0]" by (simp add: downwards_def)
  have a: "live ?a = live a" "topicsOf ?a = topicsOf a" "queueOf ?a = (queueOf a)(0 := queueOf a 0 @ [7])"
      "backlog ?a = backlog a + 1"
    using Suc.prems by (simp_all add: qPublish_def w qEnqueue_def Let_def)
  have "subscribersOf [97] ?a = {0}" using Suc.prems(1) unfolding subscribersOf_def a .
  from Suc.IH [OF this] Suc.prems(2,3)
  have IH: "let b = snd (specifyAll downwards quietly (fillOps k) ?a) in
     live b = live ?a \<and> topicsOf b = topicsOf ?a \<and> length (queueOf b 0) = length (queueOf ?a 0) + k \<and>
     (\<forall>s. s \<noteq> 0 \<longrightarrow> queueOf b s = queueOf ?a s) \<and> backlog b = backlog ?a + k \<and>
     allowedAll downwards quietly (fillOps k) ?a"
    unfolding a by simp
  have "snd (specifyAll downwards quietly (fillOps (Suc k)) a) = snd (specifyAll downwards quietly (fillOps k) ?a)"
    unfolding fillOps_def replicate_Suc snd_specifyAll ..
  moreover have "allowedAll downwards quietly (fillOps (Suc k)) a \<longleftrightarrow> allowedAll downwards quietly (fillOps k) ?a"
    using Suc.prems(3) by (simp add: fillOps_def)
  ultimately show ?case using IH unfolding a Let_def by simp
qed

lemma publish_reads_outside_witness:
  "\<exists>rs c. performAll 40 downwards (onlySends quietly) (sendThrough 40 downwards quietly) (joinOps @ fillOps 32)
       (emptyTree ()) = Some (rs, c) \<and>
     publish 40 downwards (sendsOnDrop 0 1) None [98] 8 c = None"
proof -
  let ?j = "snd (specifyAll downwards quietly joinOps (qEmpty ()))"
  let ?a = "snd (specifyAll downwards quietly (joinOps @ fillOps 32) (qEmpty ()))"
  have j: "live ?j = {0, 1}" "topicsOf ?j = (\<lambda>_. {})(0 := {[98], [97]}, 1 := {[98]})" "queueOf ?j = (\<lambda>_. [])" "backlog ?j = 0"
    by (auto simp: joinOps_def qEmpty_def qCreate_def qSubscribe_def)
  have "subscribersOf [97] ?j = {0}" by (auto simp: subscribersOf_def j)
  from fill_ok [OF this, of 32]
  have a: "live ?a = {0, 1}" "topicsOf ?a = (\<lambda>_. {})(0 := {[98], [97]}, 1 := {[98]})" "length (queueOf ?a 0) = 32"
    "queueOf ?a 1 = []" "backlog ?a = 32" "allowedAll downwards quietly (fillOps 32) ?j"
    unfolding specifyAll_append by (simp_all add: Let_def j)
  have walks: "walks downwards" by (simp add: walks_def downwards_def)
  have "allowedAll downwards quietly (joinOps @ fillOps 32) (qEmpty ())"
    unfolding allowedAll_append by (simp add: a(6)) (simp add: joinOps_def qEmpty_def qCreate_def qSubscribe_def)
  from performAll_empty [OF walks this, of 40]
  obtain c where c: "performAll 40 downwards (onlySends quietly) (sendThrough 40 downwards quietly) (joinOps @ fillOps 32)
       (emptyTree ()) = Some (fst (specifyAll downwards quietly (joinOps @ fillOps 32) (qEmpty ())), c)"
    "tree_rel c ?a"
    by (auto simp: joinOps_def fillOps_def)
  have S: "subscribersOf [98] ?a = {1, 0}" by (auto simp: subscribersOf_def a)
  have W: "downwards (subscribersOf [98] ?a) = [1, 0]" unfolding S by (simp add: downwards_def insert_commute)
  have "publish 40 downwards (sendsOnDrop 0 1) None [98] 8 c = None"
    by (rule publish_reads_outside [of c ?a downwards "[98]" 1 0, OF c(2) W S _ a(3,4)]) (simp_all add: a)
  with c(1) show ?thesis by blast
qed

end
