(* ===== verification/WebSocketFormat.thy ===== *)
theory WebSocketFormat
  imports Prelude
begin

text \<open>
  The stateless half of native/uwebsockets/WebSocketProtocol.h: validation of UTF-8, close
  payloads, and the formatting of outgoing frames, with and without masking.
\<close>

section \<open>Validation of UTF-8\<close>

text \<open>
  \<open>isValidUtf8\<close> walks a pointer \<open>s\<close> towards the end \<open>e\<close>; here the argument is what lies between
  them. Sixteen bytes without a high bit are skipped at once by two 8-byte loads; the inner loop
  skips single ASCII bytes; then one multi-byte sequence is taken. Each guard \<open>s + k \<ge> e\<close> comes
  before the reads it protects.
\<close>

definition highBits :: u64 where "highBits = 0x8080808080808080"

definition asciiBlock :: "bytes \<Rightarrow> bool" where
  "asciiBlock s \<longleftrightarrow>
     (load_le (take 8 s) AND highBits) OR (load_le (take 8 (drop 8 s)) AND highBits) = (0 :: u64)"

definition utf8Sequence :: "bytes \<Rightarrow> nat option" where
  "utf8Sequence s =
     (let n = length s in
      if s ! 0 AND 0x60 = 0x40 then
        (if n \<le> 1 \<or> s ! 1 AND 0xc0 \<noteq> 0x80 \<or> s ! 0 AND 0xfe = 0xc0 then None else Some 2)
      else if s ! 0 AND 0xf0 = 0xe0 then
        (if n \<le> 2 \<or> s ! 1 AND 0xc0 \<noteq> 0x80 \<or> s ! 2 AND 0xc0 \<noteq> 0x80 \<or>
            s ! 0 = 0xe0 \<and> s ! 1 AND 0xe0 = 0x80 \<or> s ! 0 = 0xed \<and> s ! 1 AND 0xe0 = 0xa0
         then None else Some 3)
      else if s ! 0 AND 0xf8 = 0xf0 then
        (if n \<le> 3 \<or> s ! 1 AND 0xc0 \<noteq> 0x80 \<or> s ! 2 AND 0xc0 \<noteq> 0x80 \<or> s ! 3 AND 0xc0 \<noteq> 0x80 \<or>
            s ! 0 = 0xf0 \<and> s ! 1 AND 0xf0 = 0x80 \<or> s ! 0 = 0xf4 \<and> 0x8f < s ! 1 \<or> 0xf4 < s ! 0
         then None else Some 4)
      else None)"

lemma utf8Sequence_pos: "utf8Sequence s = Some k \<Longrightarrow> 0 < k \<and> k \<le> length s"
  by (auto simp: utf8Sequence_def Let_def split: if_splits)

function isValidUtf8 :: "bytes \<Rightarrow> bool" where
  "isValidUtf8 s =
     (if s = [] then True
      else if 16 \<le> length s \<and> asciiBlock s then isValidUtf8 (drop 16 s)
      else
        (let s' = dropWhile (\<lambda>b. b AND 0x80 = 0) s in
         if s' = [] then True
         else case utf8Sequence s' of
                None \<Rightarrow> False
              | Some k \<Rightarrow> isValidUtf8 (drop k s')))"
  by pat_completeness auto

termination isValidUtf8
proof (relation "measure length", goal_cases)
  case 1
  then show ?case by simp
next
  case (2 s)
  then show ?case by (cases s) auto
next
  case (3 s s' k)
  then have "0 < k" and "k \<le> length s'" and "length s' \<le> length s"
    using utf8Sequence_pos by (simp_all add: length_dropWhile_le)
  then show ?case by simp
qed

declare isValidUtf8.simps [simp del]

text \<open>The specification: the encoding of a Unicode scalar value, and of a sequence of them.\<close>

definition scalar :: "nat \<Rightarrow> bool" where
  "scalar c \<longleftrightarrow> c < 0xD800 \<or> 0xDFFF < c \<and> c < 0x110000"

definition utf8 :: "nat \<Rightarrow> bytes" where
  "utf8 c =
     (if c < 0x80 then [of_nat c]
      else if c < 0x800 then [of_nat (0xC0 + c div 64), of_nat (0x80 + c mod 64)]
      else if c < 0x10000 then
        [of_nat (0xE0 + c div 4096), of_nat (0x80 + c div 64 mod 64), of_nat (0x80 + c mod 64)]
      else
        [of_nat (0xF0 + c div 262144), of_nat (0x80 + c div 4096 mod 64),
         of_nat (0x80 + c div 64 mod 64), of_nat (0x80 + c mod 64)])"

definition utf8_text :: "bytes \<Rightarrow> bool" where
  "utf8_text s \<longleftrightarrow> (\<exists>cs. (\<forall>c \<in> set cs. scalar c) \<and> s = concat (map utf8 cs))"

text \<open>The bit tests of the validator, as ranges.\<close>

lemma unat_high_bits:
  fixes b :: byte
  shows "unat (b AND NOT (mask n)) = unat b div 2 ^ n * 2 ^ n"
proof -
  have "b AND NOT (mask n) = push_bit n (drop_bit n b)"
    by (rule bit_word_eqI)
       (auto simp: bit_and_iff bit_not_iff bit_mask_iff bit_push_bit_iff bit_drop_bit_eq)
  moreover have "unat (push_bit n (drop_bit n b)) = take_bit 8 (push_bit n (drop_bit n (unat b)))"
    by (simp add: unsigned_push_bit_eq unsigned_drop_bit_eq take_bit_nat_eq_self drop_bit_nat_def
        div_le_dividend le_less_trans [OF div_le_dividend])
  moreover have "push_bit n (drop_bit n (unat b)) < 256"
    using unat_byte_less [of b] le_less_trans [OF div_times_less_eq_dividend, of "unat b" 256 "2 ^ n"]
    by (simp add: push_bit_nat_def drop_bit_nat_def)
  ultimately show ?thesis
    by (simp add: take_bit_nat_eq_self push_bit_nat_def drop_bit_nat_def)
qed

lemma high_masks:
  "(0x80 :: byte) = NOT (mask 7)" "(0xfe :: byte) = NOT (mask 1)" "(0xc0 :: byte) = NOT (mask 6)"
  "(0xe0 :: byte) = NOT (mask 5)" "(0xf0 :: byte) = NOT (mask 4)" "(0xf8 :: byte) = NOT (mask 3)"
  by code_simp+

lemma and_high_bits_iff:
  fixes b :: byte
  assumes "unat c = k * 2 ^ n"
  shows "b AND NOT (mask n) = c \<longleftrightarrow> k * 2 ^ n \<le> unat b \<and> unat b < Suc k * 2 ^ n"
proof -
  have "b AND NOT (mask n) = c \<longleftrightarrow> unat b div 2 ^ n = k"
    using assms by (simp add: word_unat_eq_iff unat_high_bits)
  then show ?thesis
    using div_nat_eqI [of "2 ^ n" k "unat b"] dividend_less_times_div [of "2 ^ n" "unat b"]
      div_times_less_eq_dividend [of "unat b" "2 ^ n"]
    by (auto simp: mult.commute)
qed

lemma utf8_bit_tests:
  fixes b :: byte
  shows "b AND 0x80 = 0 \<longleftrightarrow> unat b < 128"
    and "b AND 0xfe = 0xc0 \<longleftrightarrow> 192 \<le> unat b \<and> unat b < 194"
    and "b AND 0xc0 = 0x80 \<longleftrightarrow> 128 \<le> unat b \<and> unat b < 192"
    and "b AND 0xe0 = 0x80 \<longleftrightarrow> 128 \<le> unat b \<and> unat b < 160"
    and "b AND 0xe0 = 0xa0 \<longleftrightarrow> 160 \<le> unat b \<and> unat b < 192"
    and "b AND 0xe0 = 0xc0 \<longleftrightarrow> 192 \<le> unat b \<and> unat b < 224"
    and "b AND 0xf0 = 0x80 \<longleftrightarrow> 128 \<le> unat b \<and> unat b < 144"
    and "b AND 0xf0 = 0xe0 \<longleftrightarrow> 224 \<le> unat b \<and> unat b < 240"
    and "b AND 0xf8 = 0xf0 \<longleftrightarrow> 240 \<le> unat b \<and> unat b < 248"
  using and_high_bits_iff [of 0 0 7 b] and_high_bits_iff [of "0xc0" 96 1 b]
    and_high_bits_iff [of "0x80" 2 6 b] and_high_bits_iff [of "0x80" 4 5 b]
    and_high_bits_iff [of "0xa0" 5 5 b] and_high_bits_iff [of "0xc0" 6 5 b]
    and_high_bits_iff [of "0x80" 8 4 b] and_high_bits_iff [of "0xe0" 14 4 b]
    and_high_bits_iff [of "0xf0" 30 3 b]
  unfolding high_masks [symmetric] by simp_all

lemma and_60_iff:
  fixes b :: byte
  assumes "128 \<le> unat b"
  shows "b AND 0x60 = 0x40 \<longleftrightarrow> b AND 0xe0 = 0xc0"
proof -
  have "unat (b AND 0xe0) = unat b div 32 * 32"
    using unat_high_bits [of b 5] unfolding high_masks [symmetric] by simp
  moreover have "unat b div 32 = 4 \<or> unat b div 32 = 5 \<or> unat b div 32 = 6 \<or> unat b div 32 = 7"
  proof -
    have "4 \<le> unat b div 32"
      using div_le_mono [OF assms, of 32] by simp
    moreover have "unat b div 32 < 8"
      using unat_byte_less [of b] by (simp add: less_mult_imp_div_less)
    ultimately show ?thesis by linarith
  qed
  ultimately have *: "b AND 0xe0 = 0x80 \<or> b AND 0xe0 = 0xa0 \<or> b AND 0xe0 = 0xc0 \<or> b AND 0xe0 = 0xe0"
    unfolding word_unat_eq_iff by (elim disjE) simp_all
  have "b AND 0x60 = (b AND 0xe0) AND 0x60"
    by (simp add: and.assoc)
  then show ?thesis
    using * by (elim disjE) simp_all
qed

lemma unat_less_iff: "(x :: byte) \<le> y \<longleftrightarrow> unat x \<le> unat y" "(x :: byte) < y \<longleftrightarrow> unat x < unat y"
  by (simp_all add: word_le_nat_alt word_less_nat_alt)

text \<open>\<open>utf8Sequence\<close> with its bit tests read as ranges.\<close>

definition cont :: "byte \<Rightarrow> bool" where
  "cont b \<longleftrightarrow> 128 \<le> unat b \<and> unat b < 192"

lemma utf8Sequence_ranges:
  assumes "s \<noteq> []" and "128 \<le> unat (s ! 0)"
  shows "utf8Sequence s =
    (let n = length s; b0 = unat (s ! 0); b1 = unat (s ! 1) in
     if b0 < 192 then None
     else if b0 < 224 then (if 1 < n \<and> cont (s ! 1) \<and> 194 \<le> b0 then Some 2 else None)
     else if b0 < 240 then
       (if 2 < n \<and> cont (s ! 1) \<and> cont (s ! 2) \<and> (b0 = 224 \<longrightarrow> 160 \<le> b1) \<and> (b0 = 237 \<longrightarrow> b1 < 160)
        then Some 3 else None)
     else if 3 < n \<and> cont (s ! 1) \<and> cont (s ! 2) \<and> cont (s ! 3) \<and> (b0 = 240 \<longrightarrow> 144 \<le> b1) \<and>
             (b0 = 244 \<longrightarrow> b1 < 144) \<and> b0 \<le> 244
     then Some 4 else None)"
proof -
  have eqs: "s ! 0 = 0xe0 \<longleftrightarrow> unat (s ! 0) = 224" "s ! 0 = 0xed \<longleftrightarrow> unat (s ! 0) = 237"
    "s ! 0 = 0xf0 \<longleftrightarrow> unat (s ! 0) = 240" "s ! 0 = 0xf4 \<longleftrightarrow> unat (s ! 0) = 244"
    "0xf4 < s ! 0 \<longleftrightarrow> 244 < unat (s ! 0)" "0x8f < s ! 1 \<longleftrightarrow> 143 < unat (s ! 1)"
    by (simp_all add: word_unat_eq_iff unat_less_iff)
  consider "unat (s ! 0) < 192" | "192 \<le> unat (s ! 0)" "unat (s ! 0) < 224"
    | "224 \<le> unat (s ! 0)" "unat (s ! 0) < 240" | "240 \<le> unat (s ! 0)"
    by linarith
  then show ?thesis
    unfolding utf8Sequence_def Let_def and_60_iff [OF assms(2)] utf8_bit_tests eqs cont_def
    by cases auto
qed

lemma base64_digits:
  fixes x a b :: nat
  assumes "a < 64" and "b < 64"
  shows "((x * 64 + a) * 64 + b) div 4096 = x" "((x * 64 + a) * 64 + b) div 64 mod 64 = a"
    and "((x * 64 + a) * 64 + b) mod 64 = b" "(x * 64 + a) div 64 = x" "(x * 64 + a) mod 64 = a"
    and "((x * 64 + a) * 64 + b) div 64 = x * 64 + a"
proof -
  show d: "((x * 64 + a) * 64 + b) div 64 = x * 64 + a" "(x * 64 + a) div 64 = x"
    using assms by simp_all
  then show "((x * 64 + a) * 64 + b) div 64 mod 64 = a" "((x * 64 + a) * 64 + b) mod 64 = b"
    "(x * 64 + a) mod 64 = a"
    using assms by (simp_all only: mod_mult_self3 mod_less)
  have "((x * 64 + a) * 64 + b) div 4096 = ((x * 64 + a) * 64 + b) div 64 div 64"
    by (simp add: div_mult2_eq [symmetric])
  with d show "((x * 64 + a) * 64 + b) div 4096 = x" by simp
qed

lemma byte_of_unat_diff: "k \<le> unat (b :: byte) \<Longrightarrow> of_nat (k + (unat b - k)) = b"
  by simp

lemma take_nth_2: "1 < length s \<Longrightarrow> take 2 s = [s ! 0, s ! 1]"
  and take_nth_3: "2 < length s \<Longrightarrow> take 3 s = [s ! 0, s ! 1, s ! 2]"
  and take_nth_4: "3 < length s \<Longrightarrow> take 4 s = [s ! 0, s ! 1, s ! 2, s ! 3]"
  by (rule nth_equalityI; auto simp: nth_Cons' numeral_eq_Suc less_Suc_eq)+

lemma utf8Sequence_sound:
  assumes "s \<noteq> []" and "128 \<le> unat (s ! 0)" and "utf8Sequence s = Some k"
  shows "\<exists>c. scalar c \<and> take k s = utf8 c"
proof -
  define a where "a = unat (s ! 1) - 128"
  define b where "b = unat (s ! 2) - 128"
  define d where "d = unat (s ! 3) - 128"
  consider (two) "k = 2" "1 < length s" "cont (s ! 1)" "194 \<le> unat (s ! 0)" "unat (s ! 0) < 224"
    | (three) "k = 3" "2 < length s" "cont (s ! 1)" "cont (s ! 2)" "224 \<le> unat (s ! 0)" "unat (s ! 0) < 240"
        "unat (s ! 0) = 224 \<longrightarrow> 160 \<le> unat (s ! 1)" "unat (s ! 0) = 237 \<longrightarrow> unat (s ! 1) < 160"
    | (four) "k = 4" "3 < length s" "cont (s ! 1)" "cont (s ! 2)" "cont (s ! 3)" "240 \<le> unat (s ! 0)"
        "unat (s ! 0) \<le> 244" "unat (s ! 0) = 240 \<longrightarrow> 144 \<le> unat (s ! 1)"
        "unat (s ! 0) = 244 \<longrightarrow> unat (s ! 1) < 144"
    using assms(3) unfolding utf8Sequence_ranges [OF assms(1,2)] Let_def
    by (auto split: if_splits simp: not_less)
  then show ?thesis
  proof cases
    case two
    define x where "x = unat (s ! 0) - 192"
    have "a < 64" "2 \<le> x" "x < 32" using two by (auto simp: a_def x_def cont_def)
    then have "0x80 \<le> x * 64 + a" and "x * 64 + a < 0x800"
      by simp_all
    moreover have "s ! 0 = of_nat (0xC0 + x)" "s ! 1 = of_nat (0x80 + a)"
      using two by (simp_all add: x_def a_def cont_def byte_of_unat_diff del: of_nat_add)
    ultimately have "utf8 (x * 64 + a) = take 2 s" and "scalar (x * 64 + a)"
      using two base64_digits [of a 0 x] \<open>a < 64\<close>
      by (simp_all add: utf8_def scalar_def take_nth_2 del: of_nat_add)
    then show ?thesis using two by metis
  next
    case three
    define x where "x = unat (s ! 0) - 224"
    have "a < 64" "b < 64" "x < 16" "x = 0 \<longrightarrow> 32 \<le> a" "x = 13 \<longrightarrow> a < 32"
      using three by (auto simp: a_def b_def x_def cont_def)
    then have "0x800 \<le> (x * 64 + a) * 64 + b \<and> (x * 64 + a) * 64 + b < 0x10000"
      by (cases "x = 0") auto
    moreover have "scalar ((x * 64 + a) * 64 + b)"
      unfolding scalar_def using \<open>a < 64\<close> \<open>b < 64\<close> \<open>x < 16\<close> \<open>x = 13 \<longrightarrow> a < 32\<close>
      by (cases x "13 :: nat" rule: linorder_cases) auto
    moreover have "s ! 0 = of_nat (0xE0 + x)" "s ! 1 = of_nat (0x80 + a)" "s ! 2 = of_nat (0x80 + b)"
      using three by (simp_all add: x_def a_def b_def cont_def byte_of_unat_diff del: of_nat_add)
    ultimately have "utf8 ((x * 64 + a) * 64 + b) = take 3 s" "scalar ((x * 64 + a) * 64 + b)"
      using three base64_digits [of a b x] \<open>a < 64\<close> \<open>b < 64\<close>
      by (simp_all add: utf8_def take_nth_3 del: of_nat_add)
    then show ?thesis using three by metis
  next
    case four
    define x where "x = unat (s ! 0) - 240"
    define c where "c = ((x * 64 + a) * 64 + b) * 64 + d"
    have ranges: "a < 64" "b < 64" "d < 64" "x \<le> 4" "x = 0 \<longrightarrow> 16 \<le> a" "x = 4 \<longrightarrow> a < 16"
      using four by (auto simp: a_def b_def d_def x_def cont_def)
    then have "c div 64 = (x * 64 + a) * 64 + b" and "c mod 64 = d"
      by (simp add: c_def, simp only: c_def mod_mult_self3 mod_less)
    then have "c div 262144 = x" "c div 4096 mod 64 = a" "c div 64 mod 64 = b" "c mod 64 = d"
      using ranges base64_digits [of a b x]
      by (simp_all add: div_mult2_eq [of c 64 4096, simplified] div_mult2_eq [of c 64 64, simplified])
    moreover have "0x10000 \<le> c \<and> c < 0x110000"
      using ranges unfolding c_def by (cases "x = 0"; cases "x = 4") auto
    moreover have "s ! 0 = of_nat (0xF0 + x)" "s ! 1 = of_nat (0x80 + a)"
      "s ! 2 = of_nat (0x80 + b)" "s ! 3 = of_nat (0x80 + d)"
      using four by (simp_all add: x_def a_def b_def d_def cont_def byte_of_unat_diff del: of_nat_add)
    ultimately have "utf8 c = take 4 s" and "scalar c"
      using four by (simp_all add: utf8_def scalar_def take_nth_4 del: of_nat_add)
    then show ?thesis using four by metis
  qed
qed

lemma unat_utf8_byte: "n < 256 \<Longrightarrow> unat (of_nat n :: byte) = n"
  by simp

lemma utf8_not_Nil [simp]: "utf8 c \<noteq> []"
  by (simp add: utf8_def)

lemma utf8_ascii:
  assumes "unat b < 128"
  shows "scalar (unat b) \<and> utf8 (unat b) = [b]"
  using assms by (simp add: scalar_def utf8_def)

lemma utf8_head:
  assumes "scalar c"
  shows "c < 128 \<Longrightarrow> utf8 c = [of_nat c]" and "128 \<le> c \<Longrightarrow> 128 \<le> unat (utf8 c ! 0)"
proof -
  have "c div 64 < 32" if "c < 0x800" using that by (simp add: less_mult_imp_div_less)
  moreover have "c div 4096 < 16" if "c < 0x10000" using that by (simp add: less_mult_imp_div_less)
  moreover have "c div 262144 < 5" using assms by (auto simp: scalar_def less_mult_imp_div_less)
  ultimately show "c < 128 \<Longrightarrow> utf8 c = [of_nat c]" "128 \<le> c \<Longrightarrow> 128 \<le> unat (utf8 c ! 0)"
    by (auto simp: utf8_def unat_utf8_byte simp del: of_nat_add)
qed

lemma cont_of_nat: "d < 64 \<Longrightarrow> cont (of_nat (128 + d))"
  by (simp add: cont_def unat_utf8_byte del: of_nat_add)

lemma utf8Sequence_complete:
  assumes "scalar c" and "128 \<le> c"
  shows "utf8Sequence (utf8 c @ rest) = Some (length (utf8 c))"
proof -
  have high: "utf8 c @ rest \<noteq> []" "128 \<le> unat ((utf8 c @ rest) ! 0)"
    using utf8_head(2) [OF assms] by (simp_all add: nth_append)
  consider (two) "c < 0x800" | (three) "0x800 \<le> c" "c < 0x10000" | (four) "0x10000 \<le> c" "c < 0x110000"
    using assms unfolding scalar_def by atomize_elim auto
  then show ?thesis
  proof cases
    case two
    define x where "x = c div 64"
    have "x < 32" "2 \<le> x" using two assms(2) div_le_mono [of 128 c 64]
      by (simp_all add: x_def less_mult_imp_div_less)
    moreover have "utf8 c = [of_nat (0xC0 + x), of_nat (0x80 + c mod 64)]"
      using two assms(2) by (simp add: utf8_def x_def)
    ultimately show ?thesis
      unfolding utf8Sequence_ranges [OF high]
      by (simp add: Let_def cont_of_nat unat_utf8_byte del: of_nat_add)
  next
    case three
    define x where "x = c div 4096"
    define a where "a = c div 64 mod 64"
    have c: "c = (x * 64 + a) * 64 + c mod 64"
    proof -
      have "x = c div 64 div 64" by (simp add: x_def div_mult2_eq [symmetric])
      then have "c div 64 = x * 64 + a" by (simp add: a_def)
      then show ?thesis by (metis div_mult_mod_eq)
    qed
    have "x < 16" using three by (simp add: x_def less_mult_imp_div_less)
    moreover have "a < 64" "c mod 64 < 64" by (simp_all add: a_def)
    moreover have "(x = 0 \<longrightarrow> 32 \<le> a) \<and> (x = 13 \<longrightarrow> a < 32)"
      using three assms(1) c \<open>c mod 64 < 64\<close> \<open>a < 64\<close> unfolding scalar_def by auto
    moreover have "utf8 c = [of_nat (0xE0 + x), of_nat (0x80 + a), of_nat (0x80 + c mod 64)]"
      using three by (simp add: utf8_def x_def a_def)
    ultimately show ?thesis
      unfolding utf8Sequence_ranges [OF high]
      by (simp add: Let_def cont_of_nat unat_utf8_byte del: of_nat_add)
  next
    case four
    define x where "x = c div 262144"
    define a where "a = c div 4096 mod 64"
    define m where "m = c mod 4096"
    have c: "c = (x * 64 + a) * 4096 + m"
    proof -
      have "x = c div 4096 div 64" by (simp add: x_def div_mult2_eq [symmetric])
      then have "c div 4096 = x * 64 + a" by (simp add: a_def)
      then show ?thesis unfolding m_def by (metis div_mult_mod_eq)
    qed
    have "x < 5" using four by (simp add: x_def less_mult_imp_div_less)
    moreover have "a < 64" "m < 4096" by (simp_all add: a_def m_def)
    moreover have "(x = 0 \<longrightarrow> 16 \<le> a) \<and> (x = 4 \<longrightarrow> a < 16)"
      using four c \<open>m < 4096\<close> by auto
    moreover have "utf8 c = [of_nat (0xF0 + x), of_nat (0x80 + a), of_nat (0x80 + c div 64 mod 64),
        of_nat (0x80 + c mod 64)]"
      using four by (simp add: utf8_def x_def a_def)
    ultimately show ?thesis
      unfolding utf8Sequence_ranges [OF high]
      by (simp add: Let_def cont_of_nat unat_utf8_byte del: of_nat_add)
  qed
qed

lemma load_high_bits:
  assumes "length s = 8"
  shows "(load_le s AND highBits :: u64) = 0 \<longleftrightarrow> (\<forall>b \<in> set s. b AND 0x80 = 0)"
proof -
  have low: "b AND 0x80 = 0 \<longleftrightarrow> \<not> bit b 7" for b :: byte
    using and_exp_eq_0_iff_not_bit [of b 7] by simp
  have zero: "w = 0 \<longleftrightarrow> (\<forall>n < 64. \<not> bit w n)" for w :: u64
    by (auto intro!: bit_word_eqI)
  have hb: "bit highBits n \<longleftrightarrow> n < 64 \<and> n mod 8 = 7" for n
  proof (cases "n < 64")
    case True
    have "list_all (\<lambda>n. bit highBits n \<longleftrightarrow> n mod 8 = 7) [0..<64]"
      by code_simp
    then show ?thesis using True by (simp add: list_all_iff)
  next
    case False
    then show ?thesis using bit_imp_le_length [of highBits n] by auto
  qed
  have "(load_le s AND highBits :: u64) = 0 \<longleftrightarrow> (\<forall>n < 64. n mod 8 = 7 \<longrightarrow> \<not> bit (s ! (n div 8)) (n mod 8))"
    using assms by (simp add: zero bit_and_iff bit_load_le hb) auto
  also have "\<dots> \<longleftrightarrow> (\<forall>i < 8. \<not> bit (s ! i) 7)"
  proof safe
    fix i :: nat assume "\<forall>n<64. n mod 8 = 7 \<longrightarrow> \<not> bit (s ! (n div 8)) (n mod 8)" "i < 8" "bit (s ! i) 7"
    moreover from this have "8 * i + 7 < 64" "(8 * i + 7) mod 8 = 7" "(8 * i + 7) div 8 = i" by auto
    ultimately show False by metis
  qed (simp add: less_mult_imp_div_less)
  finally show ?thesis using assms by (simp add: low all_set_conv_all_nth)
qed

lemma asciiBlock_iff:
  assumes "16 \<le> length s"
  shows "asciiBlock s \<longleftrightarrow> (\<forall>b \<in> set (take 16 s). b AND 0x80 = 0)"
proof -
  have "take 16 s = take 8 s @ take 8 (drop 8 s)"
    using take_add [of 8 8 s] by simp
  moreover have "x OR y = (0 :: u64) \<longleftrightarrow> x = 0 \<and> y = 0" for x y :: u64
    by (rule or_eq_0_iff)
  ultimately show ?thesis
    using assms by (simp add: asciiBlock_def load_high_bits ball_Un)
qed

text \<open>One step of the reference reading of a text: drop the first encoded scalar.\<close>

lemma utf8_text_Nil [simp]: "utf8_text []"
  by (auto simp: utf8_text_def intro: exI [of _ "[]"])

lemma utf8_text_Cons: "scalar c \<Longrightarrow> utf8_text s \<Longrightarrow> utf8_text (utf8 c @ s)"
  unfolding utf8_text_def by (metis concat.simps(2) list.simps(9) set_ConsD)

lemma utf8_textE:
  assumes "utf8_text s" and "s \<noteq> []"
  obtains c s' where "scalar c" "s = utf8 c @ s'" "utf8_text s'"
proof -
  obtain cs where cs: "\<forall>c \<in> set cs. scalar c" "s = concat (map utf8 cs)"
    using assms(1) unfolding utf8_text_def by metis
  with assms(2) obtain c cs' where "cs = c # cs'" by (cases cs) auto
  with cs that [of c "concat (map utf8 cs')"] show thesis unfolding utf8_text_def by auto
qed

lemma utf8_text_append_ascii:
  assumes "\<forall>b \<in> set xs. unat b < 128"
  shows "utf8_text (xs @ s) \<longleftrightarrow> utf8_text s"
  using assms
proof (induction xs)
  case Nil
  then show ?case by simp
next
  case (Cons x xs)
  have "utf8_text (x # t) \<longleftrightarrow> utf8_text t" for t
  proof
    assume "utf8_text (x # t)"
    then obtain c t' where c: "scalar c" "x # t = utf8 c @ t'" "utf8_text t'"
      by (rule utf8_textE) simp
    then have "utf8 c ! 0 = x" by (cases "utf8 c") auto
    with c(1) Cons.prems have "c < 128" using utf8_head(2) [of c] by fastforce
    with c show "utf8_text t" by (simp add: utf8_head(1))
  next
    assume "utf8_text t"
    with utf8_ascii [of x] Cons.prems show "utf8_text (x # t)"
      using utf8_text_Cons [of "unat x" t] by simp
  qed
  with Cons show ?case by simp
qed

lemma utf8_text_sequence:
  assumes "s \<noteq> []" and "128 \<le> unat (s ! 0)"
  shows "utf8_text s \<longleftrightarrow> (\<exists>k. utf8Sequence s = Some k \<and> utf8_text (drop k s))"
proof
  assume "utf8_text s"
  then obtain c t where c: "scalar c" "s = utf8 c @ t" "utf8_text t"
    using assms(1) by (rule utf8_textE)
  with assms(2) have "128 \<le> c"
    using utf8_head(1) [of c] by (cases "c < 128") (auto simp: unat_utf8_byte)
  with c show "\<exists>k. utf8Sequence s = Some k \<and> utf8_text (drop k s)"
    using utf8Sequence_complete [of c t] by auto
next
  assume "\<exists>k. utf8Sequence s = Some k \<and> utf8_text (drop k s)"
  then obtain k c where "utf8_text (drop k s)" "scalar c" "take k s = utf8 c"
    using utf8Sequence_sound [OF assms] by metis
  then show "utf8_text s"
    using utf8_text_Cons [of c "drop k s"] by (metis append_take_drop_id)
qed

text \<open>
  C21. \<open>isValidUtf8\<close> accepts a byte string exactly when it is the concatenation of the UTF-8
  encodings of Unicode scalar values: no overlong form, no surrogate, nothing above U+10FFFF, no
  truncated sequence, for every length and with the 16-byte fast path included.
\<close>

theorem isValidUtf8_correct: "isValidUtf8 s \<longleftrightarrow> utf8_text s"
proof (induction s rule: isValidUtf8.induct)
  case (1 s)
  let ?p = "\<lambda>b :: byte. b AND 0x80 = 0"
  let ?s = "dropWhile ?p s"
  consider "s = []" | (block) "s \<noteq> []" "16 \<le> length s" "asciiBlock s"
    | (scan) "s \<noteq> []" "\<not> (16 \<le> length s \<and> asciiBlock s)"
    by auto
  then show ?case
  proof cases
    case block
    then have "isValidUtf8 s \<longleftrightarrow> utf8_text (drop 16 s)"
      using "1.IH"(1) by (simp add: isValidUtf8.simps [of s])
    also have "\<dots> \<longleftrightarrow> utf8_text (take 16 s @ drop 16 s)"
      using block by (subst utf8_text_append_ascii) (auto simp: asciiBlock_iff utf8_bit_tests)
    finally show ?thesis by simp
  next
    case scan
    have "\<forall>b \<in> set (takeWhile ?p s). unat b < 128"
      using set_takeWhileD [of _ ?p s] utf8_bit_tests(1) by blast
    from utf8_text_append_ascii [OF this, of ?s] have split: "utf8_text s \<longleftrightarrow> utf8_text ?s"
      by (simp only: takeWhile_dropWhile_id)
    have step: "isValidUtf8 s \<longleftrightarrow>
        ?s = [] \<or> (\<exists>k. utf8Sequence ?s = Some k \<and> isValidUtf8 (drop k ?s))"
      using scan by (subst isValidUtf8.simps) (auto simp: Let_def split: option.splits)
    show ?thesis
    proof (cases "?s = []")
      case True
      then show ?thesis unfolding step split by (simp only: True utf8_text_Nil simp_thms)
    next
      case False
      then have high: "128 \<le> unat (?s ! 0)"
        using hd_dropWhile [of ?p s] by (simp add: hd_conv_nth utf8_bit_tests(1))
      have "isValidUtf8 (drop k ?s) \<longleftrightarrow> utf8_text (drop k ?s)" if "utf8Sequence ?s = Some k" for k
        by (rule "1.IH"(2) [OF scan refl False that])
      then have "(\<exists>k. utf8Sequence ?s = Some k \<and> isValidUtf8 (drop k ?s)) \<longleftrightarrow>
          (\<exists>k. utf8Sequence ?s = Some k \<and> utf8_text (drop k ?s))"
        by blast
      then show ?thesis
        by (simp only: step split utf8_text_sequence [OF False high] False simp_thms)
    qed
  qed (simp add: isValidUtf8.simps)
qed

section \<open>Close payloads\<close>

definition cond_byte_swap :: "'a::len word \<Rightarrow> 'a word" where
  "cond_byte_swap value = load_le (rev (store_le (LENGTH('a) div 8) value))"

record CloseFrame =
  cf_code :: u16
  cf_message :: bytes

definition ERR_INVALID_CLOSE_PAYLOAD :: bytes where
  "ERR_INVALID_CLOSE_PAYLOAD = ascii ''Received invalid close payload''"

definition parseClosePayload :: "bytes \<Rightarrow> CloseFrame" where
  "parseClosePayload src =
     (if 2 \<le> length src then
        (let code = cond_byte_swap (load_le (take 2 src)); message = drop 2 src in
         if code < 1000 \<or> 4999 < code \<or> 1011 < code \<and> code < 4000 \<or>
            1004 \<le> code \<and> code \<le> 1006 \<or> \<not> isValidUtf8 message
         then \<lparr>cf_code = 1006, cf_message = ERR_INVALID_CLOSE_PAYLOAD\<rparr>
         else \<lparr>cf_code = code, cf_message = message\<rparr>)
      else \<lparr>cf_code = 1005, cf_message = []\<rparr>)"

text \<open>The bytes \<open>formatClosePayload\<close> writes to \<open>dst\<close>; their number is its return value.\<close>

definition formatClosePayload :: "u16 \<Rightarrow> bytes \<Rightarrow> bytes" where
  "formatClosePayload code message =
     (if code \<noteq> 0 \<and> code \<noteq> 1005 \<and> code \<noteq> 1006
      then store_le 2 (cond_byte_swap code) @ message
      else [])"

definition close_code_ok :: "u16 \<Rightarrow> bool" where
  "close_code_ok code \<longleftrightarrow>
     1000 \<le> code \<and> code \<le> 4999 \<and> \<not> (1012 \<le> code \<and> code \<le> 3999) \<and> code \<notin> {1004, 1005, 1006}"

lemma cond_byte_swap_swap:
  assumes "LENGTH('a::len) = 8 * k"
  shows "cond_byte_swap (cond_byte_swap w) = (w :: 'a word)"
proof -
  have k: "LENGTH('a) div 8 = k" using assms by simp
  have "store_le k (load_le (rev (store_le k w)) :: 'a word) = rev (store_le k w)"
    using store_load_le [where 'a='a, of "rev (store_le k w)"] assms by simp
  then show ?thesis
    using assms by (simp add: cond_byte_swap_def load_store_le k)
qed

lemma close_code_test:
  fixes code :: u16
  shows "(code < 1000 \<or> 4999 < code \<or> 1011 < code \<and> code < 4000 \<or> 1004 \<le> code \<and> code \<le> 1006) \<longleftrightarrow>
    \<not> close_code_ok code"
  by (simp add: close_code_ok_def word_less_nat_alt word_le_nat_alt word_unat_eq_iff) presburger

text \<open>
  A close payload built by \<open>formatClosePayload\<close> and read back by \<open>parseClosePayload\<close> gives the
  same code and reason exactly when the code may be sent and the reason is UTF-8; codes 0, 1005 and
  1006 send an empty payload, which reads as 1005, and everything else reads as the abnormal 1006.
\<close>

theorem close_payload_roundtrip:
  "parseClosePayload (formatClosePayload code message) =
     (if code \<in> {0, 1005, 1006} then \<lparr>cf_code = 1005, cf_message = []\<rparr>
      else if close_code_ok code \<and> utf8_text message then \<lparr>cf_code = code, cf_message = message\<rparr>
      else \<lparr>cf_code = 1006, cf_message = ascii ''Received invalid close payload''\<rparr>)"
proof (cases "code \<in> {0, 1005, 1006}")
  case True
  then show ?thesis by (auto simp: formatClosePayload_def parseClosePayload_def)
next
  case False
  have "load_le (store_le 2 (cond_byte_swap code)) = cond_byte_swap code"
    by (rule load_store_le) simp
  then have "cond_byte_swap (load_le (take 2 (formatClosePayload code message))) = code"
    using False cond_byte_swap_swap [of 2 code] by (simp add: formatClosePayload_def)
  moreover have "drop 2 (formatClosePayload code message) = message"
    "2 \<le> length (formatClosePayload code message)"
    using False by (simp_all add: formatClosePayload_def)
  ultimately show ?thesis
    unfolding parseClosePayload_def Let_def
    using False close_code_test [of code]
    by (simp only: if_True if_False isValidUtf8_correct ERR_INVALID_CLOSE_PAYLOAD_def) auto
qed

section \<open>Frames\<close>

type_synonym OpCode = byte

definition messageFrameSize :: "bool \<Rightarrow> nat \<Rightarrow> nat" where
  "messageFrameSize isServer messageSize =
     (let maskSize = (if isServer then 0 else 4) in
      if messageSize < 126 then 2 + maskSize + messageSize
      else if messageSize \<le> 65535 then 4 + maskSize + messageSize
      else 10 + maskSize + messageSize)"

text \<open>
  The in-place masking of an outgoing payload: 8-byte chunks while they fit, then a byte tail. The
  index \<open>i\<close> is the one of the source; the third argument is the payload from \<open>i\<close> on.
\<close>

fun maskTail :: "bytes \<Rightarrow> nat \<Rightarrow> bytes \<Rightarrow> bytes" where
  "maskTail maskBytes i [] = []"
| "maskTail maskBytes i (b # bs) = (b XOR maskBytes ! (i mod 4)) # maskTail maskBytes (i + 1) bs"

function maskPayload :: "bytes \<Rightarrow> nat \<Rightarrow> bytes \<Rightarrow> bytes" where
  "maskPayload maskBytes i payload =
     (if 8 \<le> length payload
      then store_le 8 ((load_le (take 8 payload) :: u64) XOR load_le (maskBytes @ maskBytes)) @
           maskPayload maskBytes (i + 8) (drop 8 payload)
      else maskTail maskBytes i payload)"
  by pat_completeness auto

termination maskPayload
  by (relation "measure (\<lambda>(m, i, p). length p)") auto

declare maskPayload.simps [simp del]

definition frameLength :: "nat \<Rightarrow> byte \<times> bytes" where
  "frameLength reportedLength =
     (if reportedLength < 126 then (of_nat reportedLength, [])
      else if reportedLength \<le> 65535
        then (126, store_le 2 (cond_byte_swap (of_nat reportedLength :: u16)))
      else (127, store_le 8 (cond_byte_swap (of_nat reportedLength :: u64))))"

definition formatMessage ::
  "bool \<Rightarrow> bytes \<Rightarrow> OpCode \<Rightarrow> nat \<Rightarrow> bool \<Rightarrow> bool \<Rightarrow> u32 \<Rightarrow> bytes" where
  "formatMessage isServer src opCode reportedLength compressed fin maskKey =
     (let (len7, ext) = frameLength reportedLength;
          b0 = (if fin then 128 else 0) OR (if compressed \<and> opCode \<noteq> 0 then 64 else 0) OR opCode in
      if isServer then [b0, len7] @ ext @ src
      else (let maskBytes = store_le 4 maskKey in
            [b0, len7 OR 0x80] @ ext @ maskBytes @ maskPayload maskBytes 0 src))"

text \<open>The specification of masking: byte \<open>i\<close> of the payload with byte \<open>i mod 4\<close> of the key.\<close>

fun xorMask :: "bytes \<Rightarrow> nat \<Rightarrow> bytes \<Rightarrow> bytes" where
  "xorMask m i [] = []"
| "xorMask m i (b # bs) = (b XOR m ! (i mod 4)) # xorMask m (Suc i) bs"

lemma length_xorMask [simp]: "length (xorMask m i bs) = length bs"
  by (induction bs arbitrary: i) simp_all

lemma xorMask_append: "xorMask m i (xs @ ys) = xorMask m i xs @ xorMask m (i + length xs) ys"
  by (induction xs arbitrary: i) simp_all

lemma nth_xorMask: "j < length bs \<Longrightarrow> xorMask m i bs ! j = bs ! j XOR m ! ((i + j) mod 4)"
  by (induction bs arbitrary: i j) (auto simp: nth_Cons' less_Suc_eq_0_disj)

lemma xorMask_xorMask [simp]: "xorMask m i (xorMask m i bs) = bs"
  by (induction bs arbitrary: i) (simp_all add: xor.assoc)

lemma xorMask_mod: "i mod 4 = j mod 4 \<Longrightarrow> xorMask m i bs = xorMask m j bs"
  by (intro nth_equalityI) (simp_all add: nth_xorMask, metis mod_add_left_eq)

lemma maskTail_xorMask: "maskTail m i bs = xorMask m i bs"
  by (induction m i bs rule: maskTail.induct) simp_all

lemma take_xorMask: "take n (xorMask m i bs) = xorMask m i (take n bs)"
  and drop_xorMask: "n \<le> length bs \<Longrightarrow> drop n (xorMask m i bs) = xorMask m (i + n) (drop n bs)"
  by (intro nth_equalityI; simp add: nth_xorMask add.assoc)+

lemma xorMask_load:
  assumes "length m = 4" and "i mod 4 = 0" and "length p = 8"
  shows "store_le 8 ((load_le p :: u64) XOR load_le (m @ m)) = xorMask m i p"
proof -
  have "store_le 8 ((load_le p :: u64) XOR load_le (m @ m)) = map2 (XOR) p (m @ m)"
    using load_le_map2 [where 'a=64, of p "m @ m"] assms by simp
  also have "\<dots> = xorMask m i p"
  proof (rule nth_equalityI)
    fix j assume "j < length (map2 (XOR) p (m @ m))"
    then have j: "j < 8" using assms by simp
    have "(i + j) mod 4 = j mod 4" using assms(2) by (metis add_0 mod_add_left_eq)
    moreover have "(m @ m) ! j = m ! (j mod 4)"
      using j assms(1) by (auto simp: nth_append mod_if [of j 4] mod_if [of "j - 4" 4])
    ultimately show "map2 (XOR) p (m @ m) ! j = xorMask m i p ! j"
      using j assms by (simp add: nth_xorMask)
  qed (use assms in simp)
  finally show ?thesis .
qed

lemma maskPayload_xorMask:
  assumes "length m = 4" and "i mod 4 = 0"
  shows "maskPayload m i p = xorMask m i p"
  using assms
proof (induction m i p rule: maskPayload.induct)
  case (1 m i p)
  show ?case
  proof (cases "8 \<le> length p")
    case True
    have "(i + 8) mod 4 = 0" using "1.prems"(2) by presburger
    then have "maskPayload m i p = xorMask m i (take 8 p) @ xorMask m (i + 8) (drop 8 p)"
      using True "1.IH" "1.prems" xorMask_load [of m i "take 8 p"]
      by (subst maskPayload.simps) simp
    also have "\<dots> = xorMask m i p"
      using True xorMask_append [of m i "take 8 p" "drop 8 p"] by simp
    finally show ?thesis .
  next
    case False
    then show ?thesis by (simp add: maskPayload.simps [of m i p] maskTail_xorMask)
  qed
qed

text \<open>
  \<open>messageFrameSize\<close> is exactly the number of bytes \<open>formatMessage\<close> writes, for both roles and
  every opcode, flag and key: the send buffer, which has no slack, is neither overrun nor left
  partly unwritten.
\<close>

theorem messageFrameSize_exact:
  "length (formatMessage isServer src opCode (length src) compressed fin maskKey) =
     messageFrameSize isServer (length src)"
  by (simp add: formatMessage_def frameLength_def messageFrameSize_def maskPayload_xorMask Let_def)

end
