(* ===== verification/WebSocketProtocol.thy ===== *)
theory WebSocketProtocol
  imports WebSocketFormat "HOL-Library.Monad_Syntax"
begin

text \<open>
  The incremental frame parser of native/uwebsockets/WebSocketProtocol.h. It works in place on
  the receive buffer: a segment lies in a larger array of bytes, the header bytes spilled by the
  previous segment are copied in front of it, and payloads are unmasked where they lie (moved to
  the left over their own header when a frame is complete). Every access is bounds-checked in the
  model; \<open>None\<close> is an access outside the array.
\<close>

section \<open>The state of the parser\<close>

definition LIBUS_RECV_BUFFER_LENGTH :: nat where "LIBUS_RECV_BUFFER_LENGTH = 524288"
definition LIBUS_RECV_BUFFER_PADDING :: nat where "LIBUS_RECV_BUFFER_PADDING = 32"

definition ERR_PROTOCOL :: bytes where
  "ERR_PROTOCOL = ascii ''Received invalid WebSocket frame''"
definition ERR_TOO_BIG_MESSAGE :: bytes where
  "ERR_TOO_BIG_MESSAGE = ascii ''Received too big message''"

text \<open>\<open>opStack\<close> is \<open>-1\<close>, \<open>0\<close> or \<open>1\<close>; \<open>spill\<close> has room for one byte less than the longest header.\<close>

record WebSocketState =
  wantsHead :: bool
  spillLength :: nat
  opStack :: int
  lastFin :: bool
  spill :: bytes
  opCode :: "OpCode list"
  remainingBytes :: u32
  maskKey :: bytes

definition SHORT_MESSAGE_HEADER :: "bool \<Rightarrow> nat" where
  "SHORT_MESSAGE_HEADER isServer = (if isServer then 6 else 2)"
definition MEDIUM_MESSAGE_HEADER :: "bool \<Rightarrow> nat" where
  "MEDIUM_MESSAGE_HEADER isServer = (if isServer then 8 else 4)"
definition LONG_MESSAGE_HEADER :: "bool \<Rightarrow> nat" where
  "LONG_MESSAGE_HEADER isServer = (if isServer then 14 else 10)"

text \<open>
  The template parameter \<open>Impl\<close>: what the parser asks of the context it runs in. The boolean of
  \<open>handleFragment\<close> is the source's "true on breakage".
\<close>

record 'u Impl =
  refusePayloadLength :: "'u \<Rightarrow> nat \<Rightarrow> bool"
  setCompressed :: "'u \<Rightarrow> 'u \<times> bool"
  forceClose :: "'u \<Rightarrow> bytes \<Rightarrow> 'u"
  handleFragment :: "'u \<Rightarrow> bytes \<Rightarrow> u32 \<Rightarrow> OpCode \<Rightarrow> bool \<Rightarrow> 'u \<times> bool"

section \<open>The first two bytes of a frame\<close>

definition isFin :: "byte \<Rightarrow> bool" where "isFin b0 \<longleftrightarrow> b0 AND 128 \<noteq> 0"
definition getOpCode :: "byte \<Rightarrow> OpCode" where "getOpCode b0 = b0 AND 15"
definition payloadLength :: "byte \<Rightarrow> byte" where "payloadLength b1 = b1 AND 127"
definition rsv23 :: "byte \<Rightarrow> bool" where "rsv23 b0 \<longleftrightarrow> b0 AND 48 \<noteq> 0"
definition rsv1 :: "byte \<Rightarrow> bool" where "rsv1 b0 \<longleftrightarrow> b0 AND 64 \<noteq> 0"

section \<open>Unmasking\<close>

text \<open>The loop over \<open>n\<close> words; \<open>dest\<close> is the template parameter \<open>DESTINATION\<close>.\<close>

fun unmaskLoop8 :: "nat \<Rightarrow> bytes \<Rightarrow> nat \<Rightarrow> u64 \<Rightarrow> nat \<Rightarrow> bytes option" where
  "unmaskLoop8 dest mem src key 0 = Some mem"
| "unmaskLoop8 dest mem src key (Suc n) = do {
     loaded \<leftarrow> rdN mem src 8;
     mem' \<leftarrow> (if dest \<le> src then wrN mem (src - dest) (store_le 8 (load_le loaded XOR key)) else None);
     unmaskLoop8 dest mem' (src + 8) key n }"

fun unmaskLoop4 :: "nat \<Rightarrow> bytes \<Rightarrow> nat \<Rightarrow> u32 \<Rightarrow> nat \<Rightarrow> bytes option" where
  "unmaskLoop4 dest mem src key 0 = Some mem"
| "unmaskLoop4 dest mem src key (Suc n) = do {
     loaded \<leftarrow> rdN mem src 4;
     mem' \<leftarrow> (if dest \<le> src then wrN mem (src - dest) (store_le 4 (load_le loaded XOR key)) else None);
     unmaskLoop4 dest mem' (src + 4) key n }"

definition unmaskImprecise8 :: "nat \<Rightarrow> bytes \<Rightarrow> nat \<Rightarrow> u64 \<Rightarrow> nat \<Rightarrow> bytes option" where
  "unmaskImprecise8 dest mem src key len = unmaskLoop8 dest mem src key (len div 8 + 1)"

definition unmaskImprecise4 :: "nat \<Rightarrow> bytes \<Rightarrow> nat \<Rightarrow> u32 \<Rightarrow> nat \<Rightarrow> bytes option" where
  "unmaskImprecise4 dest mem src key len = unmaskLoop4 dest mem src key (len div 4 + 1)"

definition unmaskImpreciseCopyMask :: "nat \<Rightarrow> bytes \<Rightarrow> nat \<Rightarrow> nat \<Rightarrow> bytes option" where
  "unmaskImpreciseCopyMask header mem src len = do {
     key \<leftarrow> (if 4 \<le> src then rdN mem (src - 4) 4 else None);
     if header \<noteq> 6 then unmaskImprecise8 header mem src (load_le (key @ key)) len
     else unmaskImprecise4 header mem src (load_le key) len }"

definition rotateMask :: "nat \<Rightarrow> bytes \<Rightarrow> bytes" where
  "rotateMask offset key =
     key[(0 + offset) mod 4 := key ! 0, (1 + offset) mod 4 := key ! 1,
         (2 + offset) mod 4 := key ! 2, (3 + offset) mod 4 := key ! 3]"

definition xorAt :: "bytes \<Rightarrow> nat \<Rightarrow> byte \<Rightarrow> bytes option" where
  "xorAt mem p k = do { b \<leftarrow> rd mem p; wr mem p (b XOR k) }"

function unmaskInplace :: "bytes \<Rightarrow> nat \<Rightarrow> nat \<Rightarrow> bytes \<Rightarrow> bytes option" where
  "unmaskInplace mem data stop key =
     (if data < stop then do {
        mem \<leftarrow> xorAt mem data (key ! 0);
        mem \<leftarrow> xorAt mem (data + 1) (key ! 1);
        mem \<leftarrow> xorAt mem (data + 2) (key ! 2);
        mem \<leftarrow> xorAt mem (data + 3) (key ! 3);
        unmaskInplace mem (data + 4) stop key }
      else Some mem)"
  by pat_completeness auto

termination unmaskInplace
  by (relation "measure (\<lambda>(m, d, s, k). s - d)") auto

declare unmaskInplace.simps [simp del]

fun unrolledXor :: "nat \<Rightarrow> bytes \<Rightarrow> nat \<Rightarrow> bytes \<Rightarrow> bytes option" where
  "unrolledXor 0 mem data key = Some mem"
| "unrolledXor (Suc n) mem data key = do {
     mem \<leftarrow> unrolledXor n mem data key;
     xorAt mem (data + n) (key ! (n mod 4)) }"

fun unmaskAllLoop :: "nat \<Rightarrow> bytes \<Rightarrow> nat \<Rightarrow> bytes \<Rightarrow> bytes option" where
  "unmaskAllLoop 0 mem data key = Some mem"
| "unmaskAllLoop (Suc n) mem data key = do {
     mem \<leftarrow> unrolledXor 16 mem data key;
     unmaskAllLoop n mem (data + 16) key }"

definition unmaskAll :: "bytes \<Rightarrow> nat \<Rightarrow> bytes \<Rightarrow> bytes option" where
  "unmaskAll mem data key = unmaskAllLoop (LIBUS_RECV_BUFFER_LENGTH div 16) mem data key"

section \<open>Consuming one frame\<close>

text \<open>
  The state a call works on: the buffer, the cursor \<open>src\<close>, the bytes left and the two objects the
  parser updates.
\<close>

record 'u cursor =
  mem :: bytes
  src :: nat
  len :: nat
  wState :: WebSocketState
  user :: 'u

definition currentOp :: "WebSocketState \<Rightarrow> OpCode option" where
  "currentOp st =
     (if 0 \<le> opStack st \<and> nat (opStack st) < length (opCode st)
      then Some (opCode st ! nat (opStack st)) else None)"

text \<open>
  \<open>currentOp\<close> is \<open>opCode[opStack]\<close>, with its bounds. \<open>pushOpCode\<close> is the first part of
  \<open>consumeMessage\<close>, the opcode stack. \<open>None\<close> is the protocol error.
\<close>

definition pushOpCode :: "byte \<Rightarrow> WebSocketState \<Rightarrow> WebSocketState option" where
  "pushOpCode b0 st =
     (if getOpCode b0 \<noteq> 0 then
        (if opStack st = 1 \<or> \<not> lastFin st \<and> getOpCode b0 < 2 then None
         else Some (st\<lparr>opStack := opStack st + 1,
                       opCode := (opCode st)[nat (opStack st + 1) := getOpCode b0],
                       lastFin := isFin b0\<rparr>))
      else if opStack st = -1 then None
      else Some (st\<lparr>lastFin := isFin b0\<rparr>))"

text \<open>
  The branch for a frame that lies wholly in the buffer, and the one for a frame whose payload
  goes on in the next segment. The boolean is the source's: true stops the parser.
\<close>

definition consumeWhole :: "'u Impl \<Rightarrow> bool \<Rightarrow> nat \<Rightarrow> nat \<Rightarrow> byte \<Rightarrow> 'u cursor \<Rightarrow> ('u cursor \<times> bool) option" where
  "consumeWhole impl isServer header payLength b0 c = do {
     let st = wState c; let fin = isFin b0;
     mem' \<leftarrow> (if isServer then unmaskImpreciseCopyMask header (mem c) (src c + header) payLength
             else Some (mem c));
     data \<leftarrow> rdN mem' (if isServer then src c else src c + header) payLength;
     op \<leftarrow> currentOp st;
     let (u, broken) = handleFragment impl (user c) data 0 op fin;
     if broken then Some (c\<lparr>mem := mem', user := u\<rparr>, True)
     else Some (c\<lparr>mem := mem', user := u,
                  wState := st\<lparr>opStack := (if fin then opStack st - 1 else opStack st), spillLength := 0\<rparr>,
                  src := src c + (payLength + header), len := len c - (payLength + header)\<rparr>, False) }"

definition consumePart :: "'u Impl \<Rightarrow> bool \<Rightarrow> nat \<Rightarrow> nat \<Rightarrow> byte \<Rightarrow> 'u cursor \<Rightarrow> ('u cursor \<times> bool) option" where
  "consumePart impl isServer header payLength b0 c = do {
     let remaining = (of_nat (payLength + header - len c) :: u32);
     let st = (wState c)\<lparr>spillLength := 0, wantsHead := False, remainingBytes := remaining\<rparr>;
     (mem', st) \<leftarrow>
       (if isServer then do {
          key \<leftarrow> rdN (mem c) (src c + header - 4) 4;
          mem' \<leftarrow> unmaskImprecise8 0 (mem c) (src c + header) (load_le (key @ key)) (len c);
          Some (mem', st\<lparr>maskKey := rotateMask (4 - (len c - header) mod 4) key\<rparr>) }
        else Some (mem c, st));
     data \<leftarrow> rdN mem' (src c + header) (len c - header);
     op \<leftarrow> currentOp st;
     let (u, broken) = handleFragment impl (user c) data remaining op (isFin b0);
     Some (c\<lparr>mem := mem', user := u, wState := st\<rparr>, True) }"

text \<open>
  \<open>consumeMessage\<close>: \<open>payLength\<close> is at most \<open>2^64 - 1\<close>, and \<open>payLength + MESSAGE_HEADER\<close> is a sum of
  64-bit integers when the length is one.
\<close>

definition consumeMessage :: "'u Impl \<Rightarrow> bool \<Rightarrow> nat \<Rightarrow> nat \<Rightarrow> 'u cursor \<Rightarrow> ('u cursor \<times> bool) option" where
  "consumeMessage impl isServer header payLength c = do {
     b0 \<leftarrow> rd (mem c) (src c);
     case pushOpCode b0 (wState c) of
       None \<Rightarrow> Some (c\<lparr>user := forceClose impl (user c) ERR_PROTOCOL\<rparr>, True)
     | Some st \<Rightarrow>
         (if refusePayloadLength impl (user c) payLength
          then Some (c\<lparr>wState := st, user := forceClose impl (user c) ERR_TOO_BIG_MESSAGE\<rparr>, True)
          else if (payLength + header) mod 2 ^ 64 \<le> len c
            then consumeWhole impl isServer header payLength b0 (c\<lparr>wState := st\<rparr>)
          else consumePart impl isServer header payLength b0 (c\<lparr>wState := st\<rparr>)) }"

section \<open>Consuming the rest of a frame\<close>

definition unmaskTail :: "bytes \<Rightarrow> nat \<Rightarrow> nat \<Rightarrow> bytes \<Rightarrow> bytes option" where
  "unmaskTail m data s key =
     (case s of 0 \<Rightarrow> Some m
      | Suc 0 \<Rightarrow> xorAt m data (key ! 0)
      | Suc (Suc 0) \<Rightarrow> do { m \<leftarrow> xorAt m data (key ! 0); xorAt m (data + 1) (key ! 1) }
      | _ \<Rightarrow> do { m \<leftarrow> xorAt m data (key ! 0); m \<leftarrow> xorAt m (data + 1) (key ! 1);
                 xorAt m (data + 2) (key ! 2) })"

text \<open>The boolean is the source's: true goes on to the next frame.\<close>

definition continueEnd :: "'u Impl \<Rightarrow> bool \<Rightarrow> 'u cursor \<Rightarrow> ('u cursor \<times> bool) option" where
  "continueEnd impl isServer c = do {
     let st = wState c; let r = unat (remainingBytes st); let n = r div 4;
     mem' \<leftarrow> (if isServer then do {
                m \<leftarrow> unmaskInplace (mem c) (src c) (src c + n * 4) (maskKey st);
                unmaskTail m (src c + n * 4) (r mod 4) (maskKey st) }
             else Some (mem c));
     data \<leftarrow> rdN mem' (src c) r;
     op \<leftarrow> currentOp st;
     let (u, broken) = handleFragment impl (user c) data 0 op (lastFin st);
     if broken then Some (c\<lparr>mem := mem', user := u\<rparr>, False)
     else Some (c\<lparr>mem := mem', user := u,
                  wState := st\<lparr>opStack := (if lastFin st then opStack st - 1 else opStack st),
                               wantsHead := True\<rparr>,
                  src := src c + r, len := len c - r\<rparr>, True) }"

definition continuePart :: "'u Impl \<Rightarrow> bool \<Rightarrow> 'u cursor \<Rightarrow> ('u cursor \<times> bool) option" where
  "continuePart impl isServer c = do {
     let st = wState c;
     mem' \<leftarrow> (if isServer \<and> maskKey st \<noteq> [0, 0, 0, 0] then
                (if len c = LIBUS_RECV_BUFFER_LENGTH then unmaskAll (mem c) (src c) (maskKey st)
                 else unmaskInplace (mem c) (src c) (src c + (len c div 4 + 1) * 4) (maskKey st))
             else Some (mem c));
     let remaining = remainingBytes st - of_nat (len c);
     data \<leftarrow> rdN mem' (src c) (len c);
     let st = st\<lparr>remainingBytes := remaining\<rparr>;
     op \<leftarrow> currentOp st;
     let (u, broken) = handleFragment impl (user c) data remaining op (lastFin st);
     if broken then Some (c\<lparr>mem := mem', user := u, wState := st\<rparr>, False)
     else Some (c\<lparr>mem := mem', user := u,
                  wState := (if isServer \<and> len c mod 4 \<noteq> 0
                             then st\<lparr>maskKey := rotateMask (4 - len c mod 4) (maskKey st)\<rparr>
                             else st)\<rparr>, False) }"

definition consumeContinuation :: "'u Impl \<Rightarrow> bool \<Rightarrow> 'u cursor \<Rightarrow> ('u cursor \<times> bool) option" where
  "consumeContinuation impl isServer c =
     (if unat (remainingBytes (wState c)) \<le> len c then continueEnd impl isServer c
      else continuePart impl isServer c)"

section \<open>Consuming a segment\<close>

text \<open>What the body of the loop over frames does next: leave \<open>consume\<close>, leave the loop, go on.\<close>

datatype outcome = Return | Break | Again

definition invalidHeader :: "bool \<Rightarrow> byte \<Rightarrow> byte \<Rightarrow> bool" where
  "invalidHeader isServer b0 b1 \<longleftrightarrow>
     rsv23 b0 \<or> 2 < getOpCode b0 \<and> getOpCode b0 < 8 \<or> 10 < getOpCode b0 \<or>
     2 < getOpCode b0 \<and> (\<not> isFin b0 \<or> 125 < payloadLength b1) \<or>
     \<not> isServer \<and> b1 AND 0x80 \<noteq> 0"

definition frameOf :: "'u Impl \<Rightarrow> bool \<Rightarrow> nat \<Rightarrow> nat \<Rightarrow> 'u cursor \<Rightarrow> ('u cursor \<times> outcome) option" where
  "frameOf impl isServer header payLength c = do {
     (c', stop) \<leftarrow> consumeMessage impl isServer header payLength c;
     Some (c', if stop then Return else Again) }"

definition nextFrame :: "'u Impl \<Rightarrow> bool \<Rightarrow> 'u cursor \<Rightarrow> ('u cursor \<times> outcome) option" where
  "nextFrame impl isServer c = do {
     b0 \<leftarrow> rd (mem c) (src c);
     b1 \<leftarrow> rd (mem c) (src c + 1);
     let (u, compressed) = (if rsv1 b0 then setCompressed impl (user c) else (user c, True));
     let c = c\<lparr>user := u\<rparr>;
     if \<not> compressed \<or> invalidHeader isServer b0 b1
     then Some (c\<lparr>user := forceClose impl u ERR_PROTOCOL\<rparr>, Return)
     else if payloadLength b1 < 126
       then frameOf impl isServer (SHORT_MESSAGE_HEADER isServer) (unat (payloadLength b1)) c
     else if payloadLength b1 = 126 then
       (if len c < MEDIUM_MESSAGE_HEADER isServer then Some (c, Break)
        else do {
          x \<leftarrow> rdN (mem c) (src c + 2) 2;
          frameOf impl isServer (MEDIUM_MESSAGE_HEADER isServer)
            (unat (cond_byte_swap (load_le x) :: u16)) c })
     else if len c < LONG_MESSAGE_HEADER isServer then Some (c, Break)
     else do {
       x \<leftarrow> rdN (mem c) (src c + 2) 8;
       frameOf impl isServer (LONG_MESSAGE_HEADER isServer)
         (unat (cond_byte_swap (load_le x) :: u64)) c } }"

definition spillRest :: "bool \<Rightarrow> 'u cursor \<Rightarrow> 'u cursor option" where
  "spillRest isServer c =
     (if 0 < len c then do {
        head \<leftarrow> rdN (mem c) (src c) (len c);
        sp \<leftarrow> wrN (spill (wState c)) 0 head;
        Some (c\<lparr>wState := (wState c)\<lparr>spill := sp, spillLength := len c mod 16\<rparr>\<rparr>) }
      else Some c)"

lemma header_pos [simp]:
  "0 < SHORT_MESSAGE_HEADER isServer" "0 < MEDIUM_MESSAGE_HEADER isServer" "0 < LONG_MESSAGE_HEADER isServer"
  by (simp_all add: SHORT_MESSAGE_HEADER_def MEDIUM_MESSAGE_HEADER_def LONG_MESSAGE_HEADER_def)

lemma consumeWhole_progress:
  assumes "consumeWhole impl isServer header payLength b0 c = Some (c', False)" and "0 < header" "0 < len c"
  shows "len c' < len c"
proof -
  have "len c' = len c - (payLength + header)"
    using assms(1) unfolding consumeWhole_def Let_def case_prod_unfold
    by (auto simp: bind_eq_Some_conv split: if_splits)
  with assms(2,3) show ?thesis by simp
qed

lemma consumePart_stops:
  "consumePart impl isServer header payLength b0 c = Some (c', stop) \<Longrightarrow> stop"
  unfolding consumePart_def Let_def case_prod_unfold by (auto simp: bind_eq_Some_conv)

lemma consumeMessage_progress:
  assumes "consumeMessage impl isServer header payLength c = Some (c', False)" and "0 < header" and "0 < len c"
  shows "len c' < len c"
proof -
  obtain b0 st where "consumeWhole impl isServer header payLength b0 (c\<lparr>wState := st\<rparr>) = Some (c', False)"
    using assms(1) consumePart_stops unfolding consumeMessage_def
    by (fastforce simp: bind_eq_Some_conv split: option.splits if_splits)
  then show ?thesis using consumeWhole_progress assms(2,3) by fastforce
qed

lemma frameOf_Again:
  "frameOf impl isServer header payLength c = Some (c', Again) \<longleftrightarrow>
     consumeMessage impl isServer header payLength c = Some (c', False)"
  by (auto simp: frameOf_def bind_eq_Some_conv)

lemma nextFrame_Again:
  assumes "nextFrame impl isServer c = Some (c', Again)"
  shows "\<exists>header payLength u. 0 < header \<and>
    consumeMessage impl isServer header payLength (c\<lparr>user := u\<rparr>) = Some (c', False)"
proof -
  obtain b0 b1 where rd: "rd (mem c) (src c) = Some b0" "rd (mem c) (src c + 1) = Some b1"
    using assms unfolding nextFrame_def bind_eq_Some_conv by blast
  obtain u ok where u: "(if rsv1 b0 then setCompressed impl (user c) else (user c, True)) = (u, ok)"
    by fastforce
  have "\<exists>header payLength. 0 < header \<and> frameOf impl isServer header payLength (c\<lparr>user := u\<rparr>) = Some (c', Again)"
    using assms unfolding nextFrame_def rd u Let_def bind.bind_lunit case_prod_conv
    by (auto simp: bind_eq_Some_conv split: if_splits intro: header_pos)
  then show ?thesis unfolding frameOf_Again by blast
qed

lemma nextFrame_progress:
  assumes "nextFrame impl isServer c = Some (c', Again)" and "0 < len c"
  shows "len c' < len c"
  using nextFrame_Again [OF assms(1)] consumeMessage_progress assms(2) by fastforce

function consumeFrames :: "'u Impl \<Rightarrow> bool \<Rightarrow> 'u cursor \<Rightarrow> 'u cursor option" where
  "consumeFrames impl isServer c =
     (if SHORT_MESSAGE_HEADER isServer \<le> len c then
        (case nextFrame impl isServer c of
           None \<Rightarrow> None
         | Some (c', Return) \<Rightarrow> Some c'
         | Some (c', Break) \<Rightarrow> spillRest isServer c'
         | Some (c', Again) \<Rightarrow> consumeFrames impl isServer c')
      else spillRest isServer c)"
  by pat_completeness auto

termination consumeFrames
proof (relation "measure (\<lambda>(i, s, c). len c)", goal_cases)
  case 1
  then show ?case by simp
next
  case (2 impl isServer c x c' out)
  then have "nextFrame impl isServer c = Some (c', Again)" by simp
  moreover have "0 < len c"
    using 2(1) header_pos(1) [of isServer] by linarith
  ultimately show ?case using nextFrame_progress by fastforce
qed

declare consumeFrames.simps [simp del]

text \<open>
  \<open>consume\<close>: the bytes spilled by the previous segment are put in front of this one, a payload
  that is still incomplete takes what it needs, and the frames that follow are parsed.
\<close>

definition consumeBody :: "'u Impl \<Rightarrow> bool \<Rightarrow> 'u cursor \<Rightarrow> 'u cursor option" where
  "consumeBody impl isServer c =
     (if wantsHead (wState c) then consumeFrames impl isServer c
      else do {
        (c', goOn) \<leftarrow> consumeContinuation impl isServer c;
        if goOn then consumeFrames impl isServer c' else Some c' })"

definition consume :: "'u Impl \<Rightarrow> bool \<Rightarrow> bytes \<Rightarrow> nat \<Rightarrow> nat \<Rightarrow> WebSocketState \<Rightarrow> 'u \<Rightarrow> 'u cursor option" where
  "consume impl isServer buf start n st u =
     (if spillLength st \<noteq> 0 then
        (let k = spillLength st in
         if k \<le> start then do {
           head \<leftarrow> rdN (spill st) 0 k;
           buf' \<leftarrow> wrN buf (start - k) head;
           consumeBody impl isServer
             \<lparr>mem = buf', src = start - k, len = n + k, wState = st, user = u\<rparr> }
         else None)
      else consumeBody impl isServer \<lparr>mem = buf, src = start, len = n, wState = st, user = u\<rparr>)"

text \<open>
  One call from the event loop: the segment between the two paddings of the receive buffer, whose
  other bytes are whatever earlier calls left there.
\<close>

definition recvBuffer :: "bytes \<Rightarrow> bytes \<Rightarrow> bytes \<Rightarrow> bytes" where
  "recvBuffer pre seg post = pre @ seg @ post"

definition consumeSegment ::
  "'u Impl \<Rightarrow> bool \<Rightarrow> bytes \<Rightarrow> bytes \<Rightarrow> bytes \<Rightarrow> WebSocketState \<Rightarrow> 'u \<Rightarrow> (WebSocketState \<times> 'u) option" where
  "consumeSegment impl isServer pre seg post st u = do {
     c \<leftarrow> consume impl isServer (recvBuffer pre seg post) (length pre) (length seg) st u;
     Some (wState c, user c) }"

definition initState :: "bool \<Rightarrow> WebSocketState" where
  "initState isServer =
     \<lparr>wantsHead = True, spillLength = 0, opStack = -1, lastFin = True,
      spill = replicate (LONG_MESSAGE_HEADER isServer - 1) 0, opCode = [0, 0],
      remainingBytes = 0, maskKey = replicate (if isServer then 4 else 1) 0\<rparr>"

section \<open>The reference machine: one byte at a time\<close>

text \<open>
  The same protocol without buffers: the machine collects the bytes of a header, then hands every
  payload byte, unmasked, to the handler as a fragment of its own. \<open>Stopped\<close> keeps what can be
  observed of a connection that is closed or shutting down. \<open>Outside\<close> marks a frame that asks for
  decompression and has an extended length: there the code depends on how the header was cut.
\<close>

type_synonym stack = "int \<times> OpCode list \<times> bool"

datatype ('u, 'x) machine =
    Head bytes stack 'u
  | Body nat bytes stack 'u
  | Stopped 'x
  | Outside

definition stackOf :: "WebSocketState \<Rightarrow> stack" where
  "stackOf st = (opStack st, opCode st, lastFin st)"

definition stackOp :: "stack \<Rightarrow> OpCode" where
  "stackOp = (\<lambda>(depth, ops, fin). ops ! nat depth)"

definition stackFin :: "stack \<Rightarrow> bool" where
  "stackFin = (\<lambda>(depth, ops, fin). fin)"

definition push :: "byte \<Rightarrow> stack \<Rightarrow> stack option" where
  "push b0 = (\<lambda>(depth, ops, fin).
     if getOpCode b0 \<noteq> 0 then
       (if depth = 1 \<or> \<not> fin \<and> getOpCode b0 < 2 then None
        else Some (depth + 1, ops[nat (depth + 1) := getOpCode b0], isFin b0))
     else if depth = -1 then None else Some (depth, ops, isFin b0))"

definition pop :: "stack \<Rightarrow> stack" where
  "pop = (\<lambda>(depth, ops, fin). (if fin then depth - 1 else depth, ops, fin))"

definition headerSize :: "bool \<Rightarrow> byte \<Rightarrow> nat" where
  "headerSize isServer b1 =
     (if payloadLength b1 < 126 then SHORT_MESSAGE_HEADER isServer
      else if payloadLength b1 = 126 then MEDIUM_MESSAGE_HEADER isServer
      else LONG_MESSAGE_HEADER isServer)"

definition headerPayload :: "bytes \<Rightarrow> nat" where
  "headerPayload h =
     (if payloadLength (h ! 1) < 126 then unat (payloadLength (h ! 1))
      else if payloadLength (h ! 1) = 126 then unat (cond_byte_swap (load_le (take 2 (drop 2 h))) :: u16)
      else unat (cond_byte_swap (load_le (take 8 (drop 2 h))) :: u64))"

definition headerKey :: "bool \<Rightarrow> bytes \<Rightarrow> bytes" where
  "headerKey isServer h = (if isServer then drop (length h - 4) h else [0, 0, 0, 0])"

definition closeWith :: "'u Impl \<Rightarrow> ('u \<Rightarrow> 'x) \<Rightarrow> 'u \<Rightarrow> bytes \<Rightarrow> ('u, 'x) machine" where
  "closeWith impl obs u reason = Stopped (obs (forceClose impl u reason))"

text \<open>A fragment that ends its frame, and the state a complete header leads to.\<close>

definition lastPiece :: "'u Impl \<Rightarrow> ('u \<Rightarrow> 'x) \<Rightarrow> bytes \<Rightarrow> stack \<Rightarrow> 'u \<Rightarrow> ('u, 'x) machine" where
  "lastPiece impl obs data stk u =
     (case handleFragment impl u data 0 (stackOp stk) (stackFin stk) of
        (u', broken) \<Rightarrow> if broken then Stopped (obs u') else Head [] (pop stk) u')"

definition startFrame :: "'u Impl \<Rightarrow> bool \<Rightarrow> ('u \<Rightarrow> 'x) \<Rightarrow> bytes \<Rightarrow> stack \<Rightarrow> 'u \<Rightarrow> ('u, 'x) machine" where
  "startFrame impl isServer obs h stk u =
     (case push (h ! 0) stk of
        None \<Rightarrow> closeWith impl obs u ERR_PROTOCOL
      | Some stk' \<Rightarrow>
          if refusePayloadLength impl u (headerPayload h) then closeWith impl obs u ERR_TOO_BIG_MESSAGE
          else if headerPayload h = 0 then lastPiece impl obs [] stk' u
          else Body (headerPayload h) (headerKey isServer h) stk' u)"

definition headStep :: "'u Impl \<Rightarrow> bool \<Rightarrow> ('u \<Rightarrow> 'x) \<Rightarrow> bytes \<Rightarrow> stack \<Rightarrow> 'u \<Rightarrow> ('u, 'x) machine" where
  "headStep impl isServer obs h stk u =
     (if length h < SHORT_MESSAGE_HEADER isServer then Head h stk u
      else
        (let (u, compressed) = (if rsv1 (h ! 0) then setCompressed impl u else (u, True)) in
         if \<not> compressed \<or> invalidHeader isServer (h ! 0) (h ! 1) then closeWith impl obs u ERR_PROTOCOL
         else if rsv1 (h ! 0) \<and> \<not> payloadLength (h ! 1) < 126 then Outside
         else if length h < headerSize isServer (h ! 1) then Head h stk u
         else startFrame impl isServer obs h stk u))"

fun ws_step :: "'u Impl \<Rightarrow> bool \<Rightarrow> ('u \<Rightarrow> 'x) \<Rightarrow> ('u, 'x) machine \<Rightarrow> byte \<Rightarrow> ('u, 'x) machine" where
  "ws_step impl isServer obs (Head h stk u) b = headStep impl isServer obs (h @ [b]) stk u"
| "ws_step impl isServer obs (Body r key stk u) b =
     (if r \<le> 1 then lastPiece impl obs [b XOR key ! 0] stk u
      else (case handleFragment impl u [b XOR key ! 0] (of_nat (r - 1)) (stackOp stk) (stackFin stk) of
              (u', broken) \<Rightarrow> if broken then Stopped (obs u') else Body (r - 1) (rotate 1 key) stk u'))"
| "ws_step impl isServer obs (Stopped x) b = Stopped x"
| "ws_step impl isServer obs Outside b = Outside"

abbreviation ws_run :: "'u Impl \<Rightarrow> bool \<Rightarrow> ('u \<Rightarrow> 'x) \<Rightarrow> ('u, 'x) machine \<Rightarrow> bytes \<Rightarrow> ('u, 'x) machine" where
  "ws_run impl isServer obs \<equiv> foldl (ws_step impl isServer obs)"

lemma ws_run_Stopped [simp]: "ws_run impl isServer obs (Stopped x) bs = Stopped x"
  by (induction bs) simp_all

lemma ws_run_Outside [simp]: "ws_run impl isServer obs Outside bs = Outside"
  by (induction bs) simp_all

lemma run_machine_ws_run:
  "run_machine (\<lambda>s b. (ws_step impl isServer obs s b, [])) (\<lambda>s. False) s bs =
     (ws_run impl isServer obs s bs, [], [])"
  by (induction bs arbitrary: s) simp_all

section \<open>What a loop of unmasking does to the buffer\<close>

text \<open>
  \<open>n\<close> bytes from \<open>p\<close> on, combined with the key, have been moved \<open>d\<close> places to the left; every
  other byte is as before.
\<close>

definition unmasked :: "bytes \<Rightarrow> nat \<Rightarrow> nat \<Rightarrow> nat \<Rightarrow> bytes \<Rightarrow> bytes \<Rightarrow> bool" where
  "unmasked m p d n key m' \<longleftrightarrow>
     length m' = length m \<and>
     (\<forall>i < length m. m' ! i =
        (if p \<le> i + d \<and> i + d < p + n then m ! (i + d) XOR key ! ((i + d - p) mod 4) else m ! i))"

lemma unmasked_refl: "unmasked m p d 0 key m"
  by (auto simp: unmasked_def)

lemma unmasked_trans:
  assumes "unmasked m p d n key m1" and "unmasked m1 (p + n) d n' key m2"
    and "n mod 4 = 0" and "p + n + n' \<le> length m" and "d \<le> p"
  shows "unmasked m p d (n + n') key m2"
  unfolding unmasked_def
proof (intro conjI allI impI)
  show "length m2 = length m" using assms by (simp add: unmasked_def)
  fix i assume i: "i < length m"
  show "m2 ! i = (if p \<le> i + d \<and> i + d < p + (n + n') then m ! (i + d) XOR key ! ((i + d - p) mod 4) else m ! i)"
  proof (cases "p + n \<le> i + d \<and> i + d < p + n + n'")
    case True
    then have "i + d - p = (i + d - (p + n)) + n" by simp
    moreover from assms(3) have "4 dvd n" by auto
    then obtain q where "n = 4 * q" by (rule dvdE)
    ultimately have "(i + d - p) mod 4 = (i + d - (p + n)) mod 4" by simp
    with True i assms show ?thesis by (auto simp: unmasked_def)
  next
    case False
    with i assms show ?thesis by (auto simp: unmasked_def)
  qed
qed

lemma wrN_nth:
  assumes "wrN m p bs = Some m'"
  shows "length m' = length m \<and> p + length bs \<le> length m \<and>
    (\<forall>i < length m. m' ! i = (if p \<le> i \<and> i < p + length bs then bs ! (i - p) else m ! i))"
  using assms by (auto simp: wrN_def nth_append min_def split: if_splits)

lemma nth_key_twice: "length k = 4 \<Longrightarrow> j < 8 \<Longrightarrow> (k @ k) ! j = k ! (j mod 4)"
  by (auto simp: nth_append mod_if [of j 4] mod_if [of "j - 4" 4])

lemma unmask_word:
  fixes key :: bytes
  assumes "p + w \<le> length m" and "d \<le> p" and "length ks = w" and "8 * w \<le> LENGTH('a::len)"
    and "\<forall>j < w. ks ! j = key ! (j mod 4)"
  shows "\<exists>m'. wrN m (p - d) (store_le w ((load_le (take w (drop p m)) :: 'a word) XOR load_le ks)) = Some m' \<and>
    unmasked m p d w key m'"
proof -
  let ?x = "take w (drop p m)"
  have x: "length ?x = w" using assms(1) by simp
  have "store_le w ((load_le ?x :: 'a word) XOR load_le ks) = map2 (XOR) ?x ks"
    using load_le_map2 [where 'a='a, of ?x ks] x assms(3,4) by simp
  moreover have "p - d + length (map2 (XOR) ?x ks) \<le> length m"
    using assms(1,2,3) by simp
  then obtain m' where m': "wrN m (p - d) (map2 (XOR) ?x ks) = Some m'"
    by (simp only: wrN_def if_True)
  moreover have "unmasked m p d w key m'"
    using wrN_nth [OF m'] assms x unfolding unmasked_def by (auto simp: add.commute)
  ultimately show ?thesis by simp
qed

lemma rdN_in: "p + k \<le> length m \<Longrightarrow> rdN m p k = Some (take k (drop p m))"
  by (simp add: rdN_def)

lemma unmaskLoop8_unmasked:
  assumes "p + 8 * n \<le> length m" and "d \<le> p" and "length key = 4"
  shows "\<exists>m'. unmaskLoop8 d m p (load_le (key @ key)) n = Some m' \<and> unmasked m p d (8 * n) key m'"
  using assms
proof (induction n arbitrary: m p)
  case 0
  then show ?case by (simp add: unmasked_refl)
next
  case (Suc n)
  obtain m1 where m1: "wrN m (p - d) (store_le 8 ((load_le (take 8 (drop p m)) :: u64) XOR load_le (key @ key))) = Some m1"
    "unmasked m p d 8 key m1"
    using unmask_word [of p 8 m d "key @ key" key, where 'a=64] Suc.prems by (auto simp: nth_key_twice)
  then have "length m1 = length m" by (simp add: unmasked_def)
  then obtain m2 where m2: "unmaskLoop8 d m1 (p + 8) (load_le (key @ key)) n = Some m2"
    "unmasked m1 (p + 8) d (8 * n) key m2"
    using Suc.IH [of "p + 8" m1] Suc.prems by auto
  have "unmasked m p d (8 + 8 * n) key m2"
    using unmasked_trans [OF m1(2) m2(2)] Suc.prems by simp
  then show ?case using m1(1) m2(1) Suc.prems by (simp add: rdN_in)
qed

lemma unmaskLoop4_unmasked:
  assumes "p + 4 * n \<le> length m" and "d \<le> p" and "length key = 4"
  shows "\<exists>m'. unmaskLoop4 d m p (load_le key) n = Some m' \<and> unmasked m p d (4 * n) key m'"
  using assms
proof (induction n arbitrary: m p)
  case 0
  then show ?case by (simp add: unmasked_refl)
next
  case (Suc n)
  obtain m1 where m1: "wrN m (p - d) (store_le 4 ((load_le (take 4 (drop p m)) :: u32) XOR load_le key)) = Some m1"
    "unmasked m p d 4 key m1"
    using unmask_word [of p 4 m d key key, where 'a=32] Suc.prems by auto
  then have "length m1 = length m" by (simp add: unmasked_def)
  then obtain m2 where m2: "unmaskLoop4 d m1 (p + 4) (load_le key) n = Some m2"
    "unmasked m1 (p + 4) d (4 * n) key m2"
    using Suc.IH [of "p + 4" m1] Suc.prems by auto
  have "unmasked m p d (4 + 4 * n) key m2"
    using unmasked_trans [OF m1(2) m2(2)] Suc.prems by simp
  then show ?case using m1(1) m2(1) Suc.prems by (simp add: rdN_in)
qed

lemma xorAt_unmasked:
  assumes "q < length m" and "unmasked m0 p 0 n key m" and "q = p + n" and "k = key ! (n mod 4)"
  shows "\<exists>m'. xorAt m q k = Some m' \<and> unmasked m0 p 0 (Suc n) key m'"
  using assms by (auto simp: xorAt_def unmasked_def nth_list_update)

lemma unrolledXor_unmasked:
  assumes "p + n \<le> length m"
  shows "\<exists>m'. unrolledXor n m p key = Some m' \<and> unmasked m p 0 n key m'"
  using assms
proof (induction n)
  case 0
  then show ?case by (simp add: unmasked_refl)
next
  case (Suc n)
  then obtain m1 where m1: "unrolledXor n m p key = Some m1" "unmasked m p 0 n key m1" by auto
  then have "length m1 = length m" by (simp add: unmasked_def)
  with m1 Suc.prems show ?case
    using xorAt_unmasked [OF _ m1(2), of "p + n" "key ! (n mod 4)"] by simp
qed

lemma unmaskInplace_step:
  "unmaskInplace m p stop key =
     (if p < stop then unrolledXor 4 m p key \<bind> (\<lambda>m. unmaskInplace m (p + 4) stop key) else Some m)"
proof -
  have n: "(4 :: nat) = Suc 3" "(3 :: nat) = Suc 2" "(2 :: nat) = Suc 1" "(1 :: nat) = Suc 0"
    by simp_all
  have mods: "(0 :: nat) mod 4 = 0" "(1 :: nat) mod 4 = 1" "(2 :: nat) mod 4 = 2" "(3 :: nat) mod 4 = 3"
    by simp_all
  have "unrolledXor 4 m p key = unrolledXor (Suc 3) m p key" "unrolledXor 3 m p key = unrolledXor (Suc 2) m p key"
    "unrolledXor 2 m p key = unrolledXor (Suc 1) m p key" "unrolledXor 1 m p key = unrolledXor (Suc 0) m p key" for m
    by (simp_all only: n)
  then have "unrolledXor 4 m p key = do {
      m \<leftarrow> xorAt m p (key ! 0); m \<leftarrow> xorAt m (p + 1) (key ! 1);
      m \<leftarrow> xorAt m (p + 2) (key ! 2); xorAt m (p + 3) (key ! 3) }"
    by (simp only: unrolledXor.simps mods bind.bind_lunit bind_assoc add_0_right)
  then show ?thesis
    by (subst unmaskInplace.simps) (simp only: bind_assoc)
qed

lemma unmaskInplace_unmasked:
  assumes "p + 4 * n \<le> length m"
  shows "\<exists>m'. unmaskInplace m p (p + 4 * n) key = Some m' \<and> unmasked m p 0 (4 * n) key m'"
  using assms
proof (induction n arbitrary: m p)
  case 0
  then show ?case by (simp add: unmaskInplace.simps unmasked_refl)
next
  case (Suc n)
  obtain m1 where m1: "unrolledXor 4 m p key = Some m1" "unmasked m p 0 4 key m1"
    using unrolledXor_unmasked [of p 4 m key] Suc.prems by auto
  then have "length m1 = length m" by (simp add: unmasked_def)
  then obtain m2 where m2: "unmaskInplace m1 (p + 4) (p + 4 + 4 * n) key = Some m2"
    "unmasked m1 (p + 4) 0 (4 * n) key m2"
    using Suc.IH [of "p + 4" m1] Suc.prems by auto
  have "unmasked m p 0 (4 + 4 * n) key m2"
    using unmasked_trans [OF m1(2) m2(2)] Suc.prems by simp
  moreover have "p + 4 * Suc n = p + 4 + 4 * n" "4 * Suc n = 4 + 4 * n" by simp_all
  moreover have "p < p + 4 + 4 * n" by simp
  ultimately show ?case
    using m1(1) m2(1) by (subst unmaskInplace_step) (simp only: if_True bind.bind_lunit, blast)
qed

lemma unmaskAllLoop_unmasked:
  assumes "p + 16 * n \<le> length m"
  shows "\<exists>m'. unmaskAllLoop n m p key = Some m' \<and> unmasked m p 0 (16 * n) key m'"
  using assms
proof (induction n arbitrary: m p)
  case 0
  then show ?case by (simp add: unmasked_refl)
next
  case (Suc n)
  obtain m1 where m1: "unrolledXor 16 m p key = Some m1" "unmasked m p 0 16 key m1"
    using unrolledXor_unmasked [of p 16 m key] Suc.prems by auto
  then have "length m1 = length m" by (simp add: unmasked_def)
  then obtain m2 where m2: "unmaskAllLoop n m1 (p + 16) key = Some m2" "unmasked m1 (p + 16) 0 (16 * n) key m2"
    using Suc.IH [of "p + 16" m1] Suc.prems by auto
  have "unmasked m p 0 (16 + 16 * n) key m2"
    using unmasked_trans [OF m1(2) m2(2)] Suc.prems by simp
  then show ?case using m1(1) m2(1) by simp
qed

lemma unmaskTail_unmasked:
  assumes "p + s \<le> length m" and "s < 4"
  shows "\<exists>m'. unmaskTail m p s key = Some m' \<and> unmasked m p 0 s key m'"
proof -
  consider "s = 0" | "s = Suc 0" | "s = Suc (Suc 0)" | "s = Suc (Suc (Suc 0))"
    using assms(2) by linarith
  then have "unmaskTail m p s key = unrolledXor s m p key"
    by cases (simp_all add: unmaskTail_def numeral_2_eq_2)
  then show ?thesis using unrolledXor_unmasked [OF assms(1)] by simp
qed

text \<open>Reading back: the moved payload, and the bytes after it.\<close>

lemma unmasked_payload:
  assumes "unmasked m p d n key m'" and "k \<le> n" and "p + k \<le> length m" and "d \<le> p"
  shows "rdN m' (p - d) k = Some (xorMask key 0 (take k (drop p m)))"
proof -
  have len: "length m' = length m" using assms(1) by (simp add: unmasked_def)
  have "take k (drop (p - d) m') = xorMask key 0 (take k (drop p m))"
  proof (rule nth_equalityI)
    fix i assume "i < length (take k (drop (p - d) m'))"
    then have i: "i < k" using assms len by simp
    then have "m' ! (p - d + i) = m ! (p - d + i + d) XOR key ! ((p - d + i + d - p) mod 4)"
      using assms len by (simp add: unmasked_def)
    then show "take k (drop (p - d) m') ! i = xorMask key 0 (take k (drop p m)) ! i"
      using i assms len by (simp add: nth_xorMask add.commute)
  qed (use assms len in simp)
  then show ?thesis using assms len by (simp add: rdN_def)
qed

lemma unmasked_beyond:
  assumes "unmasked m p d n key m'" and "p + n \<le> q + d"
  shows "drop q m' = drop q m"
  using assms by (intro nth_equalityI) (auto simp: unmasked_def)

end
