(* ===== verification/WebSocketStream.thy ===== *)
theory WebSocketStream
  imports WebSocketProtocol
begin

text \<open>
  What the frame parser of WebSocketProtocol does over a whole stream. The locale of this theory is
  the interface the parser asks of the context it runs in; under it, feeding the stream in any
  segments is the same as running the byte-at-a-time machine.
\<close>

section \<open>What the parser needs of the context it runs in\<close>

text \<open>
  Two results of a handler are the same when both broke off with the same observation, or neither
  did and the states are equal.
\<close>

definition sameResult :: "('u \<Rightarrow> 'x) \<Rightarrow> 'u \<times> bool \<Rightarrow> 'u \<times> bool \<Rightarrow> bool" where
  "sameResult obs p q \<longleftrightarrow>
     snd p = snd q \<and> (if snd p then obs (fst p) = obs (fst q) else fst p = fst q)"

text \<open>
  \<open>ok u None\<close> holds between frames, \<open>ok u (Some op)\<close> while pieces of a frame with opcode \<open>op\<close> are
  handed over. The law that carries the whole development is \<open>split_piece\<close>: a fragment may be
  handed over in two pieces.
\<close>

locale frame_handler =
  fixes impl :: "'u Impl" and stopped :: "'u \<Rightarrow> bool" and obs :: "'u \<Rightarrow> 'x"
    and ok :: "'u \<Rightarrow> OpCode option \<Rightarrow> bool" and limit :: nat
  assumes close_stops: "stopped (forceClose impl u reason)"
    and compress_keeps: "ok u None \<Longrightarrow> \<not> stopped u \<Longrightarrow> setCompressed impl u = (u', accepted) \<Longrightarrow>
      ok u' None \<and> \<not> stopped u'"
    and begin_frame: "ok u None \<Longrightarrow> ok u (Some op)"
    and refuse_limit: "refusePayloadLength impl u n \<longleftrightarrow> limit < n"
    and limit_32: "limit < 2 ^ 32"
    and broken_stops: "handleFragment impl u d r op fin = (u', True) \<Longrightarrow> stopped u'"
    and piece_keeps: "ok u (Some op) \<Longrightarrow> \<not> stopped u \<Longrightarrow> r \<noteq> 0 \<Longrightarrow>
      handleFragment impl u d r op fin = (u', False) \<Longrightarrow> ok u' (Some op) \<and> \<not> stopped u'"
    and last_keeps: "ok u (Some op) \<Longrightarrow> \<not> stopped u \<Longrightarrow> 2 < op \<longrightarrow> fin \<Longrightarrow>
      handleFragment impl u d 0 op fin = (u', False) \<Longrightarrow> ok u' None \<and> \<not> stopped u'"
    and empty_piece: "ok u (Some op) \<Longrightarrow> \<not> stopped u \<Longrightarrow> r \<noteq> 0 \<Longrightarrow>
      handleFragment impl u [] r op fin = (u, False)"
    and split_piece: "ok u (Some op) \<Longrightarrow> \<not> stopped u \<Longrightarrow> xs \<noteq> [] \<Longrightarrow> ys \<noteq> [] \<Longrightarrow> unat r + length xs + length ys \<le> limit \<Longrightarrow>
      2 < op \<longrightarrow> fin \<Longrightarrow>
      handleFragment impl u xs (r + of_nat (length ys)) op fin = (u1, broken) \<Longrightarrow>
      sameResult obs (handleFragment impl u (xs @ ys) r op fin)
        (if broken then (u1, True) else handleFragment impl u1 ys r op fin)"
begin

abbreviation run :: "bool \<Rightarrow> ('u, 'x) machine \<Rightarrow> bytes \<Rightarrow> ('u, 'x) machine" where
  "run isServer \<equiv> ws_run impl isServer obs"

definition stack_ok :: "stack \<Rightarrow> bool" where
  "stack_ok = (\<lambda>(depth, ops, fin). -1 \<le> depth \<and> depth \<le> 1 \<and> length ops = 2 \<and>
     (0 \<le> depth \<longrightarrow> ops ! 0 \<le> 2) \<and> (depth = 1 \<longrightarrow> ops ! 1 \<le> 2))"

definition in_frame :: "stack \<Rightarrow> bool" where
  "in_frame = (\<lambda>(depth, ops, fin). 0 \<le> depth \<and> depth \<le> 1 \<and> length ops = 2 \<and>
     (depth = 1 \<longrightarrow> ops ! 0 \<le> 2) \<and> (2 < ops ! nat depth \<longrightarrow> fin))"

definition header_part :: "bool \<Rightarrow> bytes \<Rightarrow> bool" where
  "header_part isServer h \<longleftrightarrow>
     length h < SHORT_MESSAGE_HEADER isServer \<or>
     length h < headerSize isServer (h ! 1) \<and> \<not> rsv1 (h ! 0) \<and> \<not> invalidHeader isServer (h ! 0) (h ! 1)"

definition key_ok :: "bool \<Rightarrow> bytes \<Rightarrow> WebSocketState \<Rightarrow> bool" where
  "key_ok isServer key st \<longleftrightarrow> length key = 4 \<and> (if isServer then maskKey st = key else key = [0, 0, 0, 0])"

fun rel :: "bool \<Rightarrow> ('u, 'x) machine \<Rightarrow> WebSocketState \<times> 'u \<Rightarrow> bool" where
  "rel isServer (Head h stk u) (st, u') \<longleftrightarrow>
     u' = u \<and> ok u None \<and> \<not> stopped u \<and> stack_ok stk \<and> stackOf st = stk \<and> wantsHead st \<and>
     spillLength st = length h \<and> take (length h) (spill st) = h \<and>
     length (spill st) = LONG_MESSAGE_HEADER isServer - 1 \<and> header_part isServer h"
| "rel isServer (Body r key stk u) (st, u') \<longleftrightarrow>
     u' = u \<and> ok u (Some (stackOp stk)) \<and> \<not> stopped u \<and> in_frame stk \<and> stackOf st = stk \<and>
     \<not> wantsHead st \<and> spillLength st = 0 \<and> length (spill st) = LONG_MESSAGE_HEADER isServer - 1 \<and>
     remainingBytes st = of_nat r \<and> 0 < r \<and> r \<le> limit \<and> key_ok isServer key st"
| "rel isServer (Stopped x) (st, u') \<longleftrightarrow> stopped u' \<and> obs u' = x"
| "rel isServer Outside c \<longleftrightarrow> False"

lemma xorMask_rotate:
  assumes "length key = 4"
  shows "xorMask (rotate n key) 0 bs = xorMask key n bs"
  using assms by (intro nth_equalityI) (simp_all add: nth_xorMask nth_rotate mod_add_right_eq)

text \<open>Bytes of a payload, handed over one at a time, are one fragment.\<close>

lemma run_piece:
  assumes "ok u (Some (stackOp stk))" and "\<not> stopped u" and "0 < r" and "r + length ys \<le> limit"
    and "length key = 4" and "2 < stackOp stk \<longrightarrow> stackFin stk"
  shows "run isServer (Body (r + length ys) key stk u) ys =
    (case handleFragment impl u (xorMask key 0 ys) (of_nat r) (stackOp stk) (stackFin stk) of
       (u', broken) \<Rightarrow> if broken then Stopped (obs u') else Body r (rotate (length ys) key) stk u')"
  using assms
proof (induction ys arbitrary: u key)
  case Nil
  then have "(of_nat r :: u32) \<noteq> 0" using limit_32 by (simp add: word_unat_eq_iff)
  with Nil show ?case by (simp add: empty_piece)
next
  case (Cons y ys)
  let ?op = "stackOp stk" and ?fin = "stackFin stk"
  have r32: "(of_nat (r + length ys) :: u32) \<noteq> 0"
    using Cons.prems(3,4) limit_32 by (simp add: word_unat_eq_iff del: of_nat_add)
  obtain u1 b1 where h: "handleFragment impl u [y XOR key ! 0] (of_nat (r + length ys)) ?op ?fin = (u1, b1)"
    by fastforce
  have step: "run isServer (Body (r + length (y # ys)) key stk u) (y # ys) =
      run isServer (if b1 then Stopped (obs u1) else Body (r + length ys) (rotate 1 key) stk u1) ys"
    using h Cons.prems(3) by simp
  have x: "xorMask key 0 (y # ys) = [y XOR key ! 0] @ xorMask (rotate 1 key) 0 ys"
    by (simp add: xorMask_rotate [OF Cons.prems(5), of 1, simplified])
  show ?case
  proof (cases "ys = []")
    case True
    then show ?thesis using step h x by (simp split: prod.splits)
  next
    case False
    have "sameResult obs (handleFragment impl u (xorMask key 0 (y # ys)) (of_nat r) ?op ?fin)
        (if b1 then (u1, True) else handleFragment impl u1 (xorMask (rotate 1 key) 0 ys) (of_nat r) ?op ?fin)"
      unfolding x
    proof (rule split_piece [OF Cons.prems(1,2)])
      show "xorMask (rotate 1 key) 0 ys \<noteq> []" using False by (metis length_0_conv length_xorMask)
      show "unat (of_nat r :: u32) + length [y XOR key ! 0] + length (xorMask (rotate 1 key) 0 ys) \<le> limit"
        using Cons.prems(4) limit_32 by simp
    qed (use h Cons.prems(6) in simp_all)
    moreover have "run isServer (Body (r + length ys) (rotate 1 key) stk u1) ys =
        (case handleFragment impl u1 (xorMask (rotate 1 key) 0 ys) (of_nat r) ?op ?fin of
           (u', broken) \<Rightarrow> if broken then Stopped (obs u') else Body r (rotate (length ys) (rotate 1 key)) stk u')"
      if "\<not> b1"
      using Cons.IH [of u1 "rotate 1 key"] piece_keeps [OF Cons.prems(1,2) r32] h that Cons.prems by simp
    ultimately show ?thesis
      unfolding step sameResult_def by (auto simp: rotate_rotate [symmetric] rotate1_rotate_swap split: prod.splits if_splits)
  qed
qed

lemma run_last:
  assumes "ok u (Some (stackOp stk))" and "\<not> stopped u" and "ys \<noteq> []" and "length ys \<le> limit"
    and "length key = 4" and "2 < stackOp stk \<longrightarrow> stackFin stk"
  shows "run isServer (Body (length ys) key stk u) ys = lastPiece impl obs (xorMask key 0 ys) stk u"
proof -
  let ?op = "stackOp stk" and ?fin = "stackFin stk"
  obtain zs y where ys: "ys = zs @ [y]" using assms(3) by (cases ys rule: rev_cases) auto
  obtain u1 b1 where h: "handleFragment impl u (xorMask key 0 zs) 1 ?op ?fin = (u1, b1)"
    by fastforce
  have run: "run isServer (Body (length ys) key stk u) ys =
      (if b1 then Stopped (obs u1)
       else ws_step impl isServer obs (Body 1 (rotate (length zs) key) stk u1) y)"
    using run_piece [OF assms(1,2), of 1 zs key isServer] assms(4-6) h ys by simp
  show ?thesis
  proof (cases "zs = []")
    case True
    then have "u1 = u \<and> \<not> b1"
      using h empty_piece [OF assms(1,2), of 1 ?fin] by simp
    then show ?thesis using run True ys by simp
  next
    case False
    have "xorMask (rotate (length zs) key) 0 [y] = xorMask key (length zs) [y]"
      by (rule xorMask_rotate [OF assms(5)])
    then have "xorMask key 0 ys = xorMask key 0 zs @ [y XOR rotate (length zs) key ! 0]"
      using ys by (simp add: xorMask_append)
    then have "sameResult obs (handleFragment impl u (xorMask key 0 ys) 0 ?op ?fin)
        (if b1 then (u1, True)
         else handleFragment impl u1 [y XOR rotate (length zs) key ! 0] 0 ?op ?fin)"
      using split_piece [OF assms(1,2), of "xorMask key 0 zs" "[y XOR rotate (length zs) key ! 0]" 0 ?fin u1 b1]
        h False assms(4,6) ys by (cases zs) auto
    then show ?thesis
      unfolding run by (auto simp: sameResult_def lastPiece_def split: prod.splits if_splits)
  qed
qed

end

section \<open>The parser simulates the machine\<close>

lemma rotateMask_rotate:
  assumes "length key = 4"
  shows "rotateMask (4 - n mod 4) key = rotate n key"
proof -
  obtain a b c d where key: "key = [a, b, c, d]"
    using assms by (auto simp: length_Suc_conv numeral_eq_Suc)
  have masks: "rotateMask 4 key = [a, b, c, d]" "rotateMask 3 key = [b, c, d, a]"
    "rotateMask 2 key = [c, d, a, b]" "rotateMask 1 key = [d, a, b, c]"
    by (simp_all add: key rotateMask_def)
  have rotations: "rotate 0 key = [a, b, c, d]" "rotate 1 key = [b, c, d, a]"
    "rotate 2 key = [c, d, a, b]" "rotate 3 key = [d, a, b, c]"
    by (simp_all add: key eval_nat_numeral)
  have "rotate n key = rotate (n mod 4) key"
    using rotate_conv_mod [of n key] assms by simp
  moreover have "n mod 4 = 0 \<or> n mod 4 = 1 \<or> n mod 4 = 2 \<or> n mod 4 = 3" by linarith
  then have "rotateMask (4 - n mod 4) key = rotate (n mod 4) key"
    using masks rotations by (elim disjE) simp_all
  ultimately show ?thesis by simp
qed

lemma xorMask_zero [simp]: "xorMask [0, 0, 0, 0] i bs = bs"
proof (rule nth_equalityI)
  fix j assume "j < length (xorMask [0, 0, 0, 0] i bs)"
  moreover have "(i + j) mod 4 = 0 \<or> (i + j) mod 4 = 1 \<or> (i + j) mod 4 = 2 \<or> (i + j) mod 4 = 3" by linarith
  then have "[0, 0, 0, 0 :: byte] ! ((i + j) mod 4) = 0" by (elim disjE) simp_all
  ultimately show "xorMask [0, 0, 0, 0] i bs ! j = bs ! j" by (simp add: nth_xorMask)
qed simp

definition view :: "'u cursor \<Rightarrow> bytes" where
  "view c = take (len c) (drop (src c) (mem c))"

definition cursor_ok :: "'u cursor \<Rightarrow> bool" where
  "cursor_ok c \<longleftrightarrow> src c + len c + LIBUS_RECV_BUFFER_PADDING \<le> length (mem c)"

lemma length_view: "cursor_ok c \<Longrightarrow> length (view c) = len c"
  by (simp add: view_def cursor_ok_def)

lemma view_nth: "cursor_ok c \<Longrightarrow> i < len c \<Longrightarrow> view c ! i = mem c ! (src c + i)"
  by (simp add: view_def cursor_ok_def)

lemma rd_view: "cursor_ok c \<Longrightarrow> i < len c \<Longrightarrow> rd (mem c) (src c + i) = Some (view c ! i)"
  by (simp add: view_nth) (simp add: rd_def cursor_ok_def)

lemma rdN_view:
  "cursor_ok c \<Longrightarrow> i + k \<le> len c \<Longrightarrow> rdN (mem c) (src c + i) k = Some (take k (drop i (view c)))"
  by (simp add: rdN_def cursor_ok_def view_def drop_take add.commute min_def)

lemma pushOpCode_push:
  "pushOpCode b0 st = (case push b0 (stackOf st) of
     None \<Rightarrow> None
   | Some (depth, ops, fin) \<Rightarrow> Some (st\<lparr>opStack := depth, opCode := ops, lastFin := fin\<rparr>))"
  by (auto simp: pushOpCode_def push_def stackOf_def)

lemma stack_fields [simp]:
  "stackFin (stackOf st) = lastFin st"
  "pop (stackOf st) = (if lastFin st then opStack st - 1 else opStack st, opCode st, lastFin st)"
  by (simp_all add: stackFin_def pop_def stackOf_def)

text \<open>The two unmaskings of a frame that starts in this segment.\<close>

lemma unmask_whole:
  assumes "cursor_ok c" and "H = 6 \<or> H = 8 \<or> H = 14" and "H + k \<le> len c"
  shows "\<exists>m'. unmaskImpreciseCopyMask H (mem c) (src c + H) k = Some m' \<and> length m' = length (mem c) \<and>
    rdN m' (src c) k = Some (xorMask (take 4 (drop (H - 4) (view c))) 0 (take k (drop H (view c)))) \<and>
    drop (src c + (k + H)) m' = drop (src c + (k + H)) (mem c)"
proof -
  let ?key = "take 4 (drop (H - 4) (view c))"
  have bound: "src c + len c + 32 \<le> length (mem c)"
    using assms(1) by (simp add: cursor_ok_def LIBUS_RECV_BUFFER_PADDING_def)
  have "src c + H - 4 = src c + (H - 4)" "H - 4 + 4 \<le> len c" using assms(2,3) by auto
  then have "rdN (mem c) (src c + H - 4) 4 = Some ?key"
    using rdN_view [OF assms(1), of "H - 4" 4] by metis
  moreover have key4: "length ?key = 4"
    using assms by (auto simp: length_view)
  define n where "n = (if H = 6 then 4 * (k div 4 + 1) else 8 * (k div 8 + 1))"
  have n: "k \<le> n" "n \<le> k + H" "src c + H + n \<le> length (mem c)"
    using assms(2,3) bound mult_div_mod_eq [of 4 k] mult_div_mod_eq [of 8 k]
      mod_less_divisor [of 4 k] mod_less_divisor [of 8 k]
    unfolding n_def by auto
  have "\<exists>m'. (if H \<noteq> 6 then unmaskImprecise8 H (mem c) (src c + H) (load_le (?key @ ?key)) k
      else unmaskImprecise4 H (mem c) (src c + H) (load_le ?key) k) = Some m' \<and>
    unmasked (mem c) (src c + H) H n ?key m'"
    using unmaskLoop8_unmasked [OF _ _ key4, of "src c + H" "k div 8 + 1" "mem c" H]
      unmaskLoop4_unmasked [OF _ _ key4, of "src c + H" "k div 4 + 1" "mem c" H] n(3)
    by (auto simp: n_def unmaskImprecise8_def unmaskImprecise4_def simp del: unmaskLoop8.simps unmaskLoop4.simps)
  then obtain m' where m': "(if H \<noteq> 6 then unmaskImprecise8 H (mem c) (src c + H) (load_le (?key @ ?key)) k
      else unmaskImprecise4 H (mem c) (src c + H) (load_le ?key) k) = Some m'"
    "unmasked (mem c) (src c + H) H n ?key m'" by blast
  moreover have "rdN m' (src c) k = Some (xorMask ?key 0 (take k (drop H (view c))))"
    using unmasked_payload [OF m'(2) n(1)] bound assms(3)
    by (simp add: view_def drop_take add.commute min_def)
  moreover have "drop (src c + (k + H)) m' = drop (src c + (k + H)) (mem c)"
    using m'(2) n(2) by (intro unmasked_beyond) auto
  ultimately show ?thesis
    using assms(2) by (auto simp: unmaskImpreciseCopyMask_def unmasked_def)
qed

lemma unmask_part:
  assumes "cursor_ok c" and "H = 6 \<or> H = 8 \<or> H = 14" and "H \<le> len c"
  shows "\<exists>key m'. rdN (mem c) (src c + H - 4) 4 = Some key \<and> key = take 4 (drop (H - 4) (view c)) \<and> length key = 4 \<and>
    unmaskImprecise8 0 (mem c) (src c + H) (load_le (key @ key)) (len c) = Some m' \<and>
    rdN m' (src c + H) (len c - H) = Some (xorMask key 0 (drop H (view c)))"
proof -
  let ?key = "take 4 (drop (H - 4) (view c))"
  have bound: "src c + len c + 32 \<le> length (mem c)"
    using assms(1) by (simp add: cursor_ok_def LIBUS_RECV_BUFFER_PADDING_def)
  have "src c + H - 4 = src c + (H - 4)" "H - 4 + 4 \<le> len c" using assms(2,3) by auto
  then have "rdN (mem c) (src c + H - 4) 4 = Some ?key"
    using rdN_view [OF assms(1), of "H - 4" 4] by metis
  moreover have key4: "length ?key = 4"
    using assms by (auto simp: length_view)
  have "8 * (len c div 8 + 1) \<le> len c + 8" by simp
  then have "src c + H + 8 * (len c div 8 + 1) \<le> length (mem c)"
    using bound assms(2) by auto
  then obtain m' where m': "unmaskLoop8 0 (mem c) (src c + H) (load_le (?key @ ?key)) (len c div 8 + 1) = Some m'"
    "unmasked (mem c) (src c + H) 0 (8 * (len c div 8 + 1)) ?key m'"
    using unmaskLoop8_unmasked [OF _ _ key4] by blast
  have "len c < 8 * (len c div 8 + 1)"
    using dividend_less_times_div [of 8 "len c"] by simp
  then have "len c - H \<le> 8 * (len c div 8 + 1)" by simp
  then have "rdN m' (src c + H) (len c - H) = Some (xorMask ?key 0 (drop H (view c)))"
    using unmasked_payload [OF m'(2), of "len c - H"] bound assms(3)
    by (simp add: view_def drop_take add.commute)
  ultimately show ?thesis using m' key4 by (auto simp: unmaskImprecise8_def)
qed

lemma of_nat_inject_u64: "unat (w :: u64) mod 2 ^ 64 = unat w"
  using unsigned_less [of w, where 'a=nat] by simp

context frame_handler
begin

lemma push_in_frame:
  assumes "stack_ok stk" and "push b0 stk = Some stk'" and "2 < getOpCode b0 \<longrightarrow> isFin b0"
  shows "in_frame stk'"
proof (cases stk)
  case (fields depth ops fin)
  with assms(1) have "depth = -1 \<or> depth = 0 \<or> depth = 1" by (auto simp: stack_ok_def)
  with assms fields show ?thesis
    by (elim disjE) (auto simp: stack_ok_def in_frame_def push_def not_less split: if_splits)
qed

lemma pop_stack_ok: "in_frame stk \<Longrightarrow> stack_ok (pop stk)"
proof (cases stk)
  case (fields depth ops fin)
  assume frame: "in_frame stk"
  with fields have "depth = 0 \<or> depth = 1" by (auto simp: in_frame_def)
  with frame fields show ?thesis by (auto simp: stack_ok_def in_frame_def pop_def not_less)
qed

lemma in_frame_fin: "in_frame stk \<Longrightarrow> 2 < stackOp stk \<longrightarrow> stackFin stk"
  by (cases stk) (simp add: in_frame_def stackOp_def stackFin_def)

lemma currentOp_in_frame:
  "in_frame (stackOf st) \<Longrightarrow> currentOp st = Some (stackOp (stackOf st))"
  by (auto simp: in_frame_def stackOf_def currentOp_def stackOp_def)

definition ready :: "bool \<Rightarrow> 'u cursor \<Rightarrow> bool" where
  "ready isServer c \<longleftrightarrow>
     cursor_ok c \<and> ok (user c) None \<and> \<not> stopped (user c) \<and>
     wantsHead (wState c) \<and> length (spill (wState c)) = LONG_MESSAGE_HEADER isServer - 1"

definition boundary :: "bool \<Rightarrow> 'u cursor \<Rightarrow> bool" where
  "boundary isServer c \<longleftrightarrow> ready isServer c \<and> stack_ok (stackOf (wState c))"

text \<open>
  The outcome of handling one frame (or the rest of one): either the parser stops in a state that
  represents where the machine gets with the bytes of the segment, or it stands at the next frame.
\<close>

definition simulates :: "bool \<Rightarrow> ('u, 'x) machine \<Rightarrow> bool \<Rightarrow> 'u cursor \<Rightarrow> bool" where
  "simulates isServer result goOn c' \<longleftrightarrow>
     (if goOn
      then boundary isServer c' \<and> spillLength (wState c') = 0 \<and>
           result = run isServer (Head [] (stackOf (wState c')) (user c')) (view c')
      else rel isServer result (wState c', user c'))"

lemma lastPiece_run:
  "run isServer (lastPiece impl obs data stk u) bs =
     (case handleFragment impl u data 0 (stackOp stk) (stackFin stk) of
        (u', broken) \<Rightarrow> if broken then Stopped (obs u') else run isServer (Head [] (pop stk) u') bs)"
  by (simp add: lastPiece_def split: prod.splits)

lemma consumeWhole_sim:
  assumes c: "ready isServer c" and frame: "in_frame (stackOf (wState c))"
    and H: "H = SHORT_MESSAGE_HEADER isServer \<or> H = MEDIUM_MESSAGE_HEADER isServer \<or> H = LONG_MESSAGE_HEADER isServer"
    and fits: "p + H \<le> len c" and fin: "isFin b0 = lastFin (wState c)"
    and key: "key = (if isServer then take 4 (drop (H - 4) (view c)) else [0, 0, 0, 0])"
  shows "\<exists>c' stop. consumeWhole impl isServer H p b0 c = Some (c', stop) \<and>
    simulates isServer
      (run isServer (lastPiece impl obs (xorMask key 0 (take p (drop H (view c)))) (stackOf (wState c)) (user c))
        (drop (p + H) (view c))) (\<not> stop) c'"
proof -
  let ?data = "xorMask key 0 (take p (drop H (view c)))"
  have cok: "cursor_ok c" using c by (simp add: ready_def)
  have "\<exists>m'. (if isServer then unmaskImpreciseCopyMask H (mem c) (src c + H) p else Some (mem c)) = Some m' \<and>
      length m' = length (mem c) \<and> rdN m' (if isServer then src c else src c + H) p = Some ?data \<and>
      drop (src c + (p + H)) m' = drop (src c + (p + H)) (mem c)"
  proof (cases isServer)
    case True
    then have "H = 6 \<or> H = 8 \<or> H = 14"
      using H by (simp add: SHORT_MESSAGE_HEADER_def MEDIUM_MESSAGE_HEADER_def LONG_MESSAGE_HEADER_def)
    moreover have "H + p \<le> len c" using fits by simp
    ultimately show ?thesis using unmask_whole [OF cok] True key by simp
  next
    case False
    then show ?thesis using rdN_view [OF cok, of H p] fits by (simp add: key add.commute)
  qed
  then obtain m' where m': "(if isServer then unmaskImpreciseCopyMask H (mem c) (src c + H) p else Some (mem c)) = Some m'"
    "length m' = length (mem c)" "rdN m' (if isServer then src c else src c + H) p = Some ?data"
    "drop (src c + (p + H)) m' = drop (src c + (p + H)) (mem c)" by blast
  obtain u' broken where h: "handleFragment impl (user c) ?data 0 (stackOp (stackOf (wState c))) (lastFin (wState c)) = (u', broken)"
    by fastforce
  show ?thesis
  proof (cases broken)
    case True
    then show ?thesis
      using m' h fin broken_stops [of "user c" ?data 0 _ _ u']
      by (simp add: consumeWhole_def currentOp_in_frame [OF frame] lastPiece_run simulates_def) blast
  next
    case False
    have "ok (user c) (Some (stackOp (stackOf (wState c))))" using c begin_frame by (simp add: ready_def)
    then have keeps: "ok u' None \<and> \<not> stopped u'"
      using last_keeps [of "user c" _ "lastFin (wState c)" ?data u'] h False c in_frame_fin [OF frame]
      by (simp add: ready_def)
    let ?c' = "c\<lparr>mem := m', user := u',
        wState := (wState c)\<lparr>opStack := (if lastFin (wState c) then opStack (wState c) - 1 else opStack (wState c)),
          spillLength := 0\<rparr>,
        src := src c + (p + H), len := len c - (p + H)\<rparr>"
    have "view ?c' = drop (p + H) (view c)"
      using m'(4) fits by (simp add: view_def drop_take add.commute)
    moreover have stk: "stackOf (wState ?c') = pop (stackOf (wState c))"
      by (simp add: stackOf_def pop_def)
    moreover have "boundary isServer ?c'"
      using c keeps m'(2) fits pop_stack_ok [OF frame] stk
      by (simp add: boundary_def ready_def cursor_ok_def del: stack_fields)
    moreover have "run isServer (lastPiece impl obs ?data (stackOf (wState c)) (user c)) (drop (p + H) (view c)) =
        run isServer (Head [] (pop (stackOf (wState c))) u') (drop (p + H) (view c))"
      unfolding lastPiece_run using h False by simp
    ultimately have "simulates isServer
        (run isServer (lastPiece impl obs ?data (stackOf (wState c)) (user c)) (drop (p + H) (view c))) (\<not> False) ?c'"
      by (simp add: simulates_def del: stack_fields(2))
    moreover have "consumeWhole impl isServer H p b0 c = Some (?c', False)"
      using m' h False fin by (simp add: consumeWhole_def currentOp_in_frame [OF frame] Let_def)
    ultimately show ?thesis by blast
  qed
qed

end

lemma rotate_zeros [simp]: "rotate n [0, 0, 0, 0 :: byte] = [0, 0, 0, 0]"
  by (induction n) (simp_all add: rotate_def)

context frame_handler
begin

lemma consumePart_sim:
  assumes c: "ready isServer c" and frame: "in_frame (stackOf (wState c))"
    and H: "H = SHORT_MESSAGE_HEADER isServer \<or> H = MEDIUM_MESSAGE_HEADER isServer \<or> H = LONG_MESSAGE_HEADER isServer"
    and part: "H \<le> len c" "len c < p + H" "p \<le> limit" and fin: "isFin b0 = lastFin (wState c)"
    and key: "key = (if isServer then take 4 (drop (H - 4) (view c)) else [0, 0, 0, 0])"
  shows "\<exists>c'. consumePart impl isServer H p b0 c = Some (c', True) \<and>
    rel isServer (run isServer (Body p key (stackOf (wState c)) (user c)) (drop H (view c))) (wState c', user c')"
proof -
  let ?data = "xorMask key 0 (drop H (view c))" and ?r = "p + H - len c" and ?n = "len c - H"
  let ?st = "(wState c)\<lparr>spillLength := 0, wantsHead := False, remainingBytes := of_nat ?r\<rparr>"
  let ?st' = "if isServer then ?st\<lparr>maskKey := rotate ?n key\<rparr> else ?st"
  have cok: "cursor_ok c" using c by (simp add: ready_def)
  have "currentOp (wState c) = Some (stackOp (stackOf (wState c)))"
    by (rule currentOp_in_frame [OF frame])
  then have op: "currentOp ?st = Some (stackOp (stackOf (wState c)))"
    "currentOp (?st\<lparr>maskKey := k\<rparr>) = Some (stackOp (stackOf (wState c)))" for k
    by (simp_all add: currentOp_def split: if_splits)
  have key4: "length key = 4" using key part(1) H cok
    by (auto simp: length_view SHORT_MESSAGE_HEADER_def MEDIUM_MESSAGE_HEADER_def LONG_MESSAGE_HEADER_def)
  obtain u' broken where h: "handleFragment impl (user c) ?data (of_nat ?r) (stackOp (stackOf (wState c))) (lastFin (wState c)) = (u', broken)"
    by fastforce
  have ok': "ok (user c) (Some (stackOp (stackOf (wState c))))" "\<not> stopped (user c)"
    using c begin_frame by (simp_all add: ready_def)
  have p: "p = ?r + length (drop H (view c))" "0 < ?r" "?r < 2 ^ 32" "?r \<le> limit"
    using part cok limit_32 by (simp_all add: length_view)
  have run: "run isServer (Body p key (stackOf (wState c)) (user c)) (drop H (view c)) =
      (if broken then Stopped (obs u') else Body ?r (rotate ?n key) (stackOf (wState c)) u')"
    using run_piece [of "user c" "stackOf (wState c)" ?r "drop H (view c)" key isServer] ok' p h part(3) key4
      in_frame_fin [OF frame] cok by (simp add: length_view)
  have "rel isServer (if broken then Stopped (obs u') else Body ?r (rotate ?n key) (stackOf (wState c)) u') (?st', u')"
  proof (cases broken)
    case True
    then show ?thesis using h broken_stops by simp
  next
    case False
    have "(of_nat ?r :: u32) \<noteq> 0" using p by (simp add: word_unat_eq_iff del: of_nat_diff)
    then have "ok u' (Some (stackOp (stackOf (wState c)))) \<and> \<not> stopped u'"
      using piece_keeps [OF ok', of "of_nat ?r" ?data] h False by simp
    then show ?thesis
      using False frame c p key4 key
      by (simp add: key_ok_def ready_def stackOf_def stackOp_def del: of_nat_diff)
  qed
  moreover have "\<exists>c'. consumePart impl isServer H p b0 c = Some (c', True) \<and> wState c' = ?st' \<and> user c' = u'"
  proof (cases isServer)
    case True
    then have "H = 6 \<or> H = 8 \<or> H = 14"
      using H by (simp add: SHORT_MESSAGE_HEADER_def MEDIUM_MESSAGE_HEADER_def LONG_MESSAGE_HEADER_def)
    from unmask_part [OF cok this part(1)] obtain m' where
      "rdN (mem c) (src c + H - 4) 4 = Some key"
      "unmaskImprecise8 0 (mem c) (src c + H) (load_le (key @ key)) (len c) = Some m'"
      "rdN m' (src c + H) (len c - H) = Some ?data"
      using True key by auto
    then show ?thesis
      using True h fin rotateMask_rotate [OF key4] by (simp add: consumePart_def op)
  next
    case False
    then have "rdN (mem c) (src c + H) (len c - H) = Some ?data"
      using rdN_view [OF cok, of H "len c - H"] part(1) key by (simp add: length_view [OF cok])
    then show ?thesis
      using False h fin by (simp add: consumePart_def op)
  qed
  ultimately show ?thesis unfolding run by auto
qed

lemma consumeMessage_sim:
  assumes c: "boundary isServer c" and h: "h = take H (view c)" "H = headerSize isServer (view c ! 1)" "H \<le> len c"
    and valid: "\<not> invalidHeader isServer (h ! 0) (h ! 1)"
  shows "\<exists>c' stop. consumeMessage impl isServer H (headerPayload h) c = Some (c', stop) \<and>
    simulates isServer (run isServer (startFrame impl isServer obs h (stackOf (wState c)) (user c)) (drop H (view c))) (\<not> stop) c'"
proof -
  let ?p = "headerPayload h" and ?b0 = "h ! 0"
  let ?key = "headerKey isServer h"
  have cok: "cursor_ok c" using c by (simp add: boundary_def ready_def)
  have H: "H = SHORT_MESSAGE_HEADER isServer \<or> H = MEDIUM_MESSAGE_HEADER isServer \<or> H = LONG_MESSAGE_HEADER isServer"
    by (simp add: h(2) headerSize_def)
  then have pos: "0 < H" and small: "H \<le> 14"
    by (auto simp: SHORT_MESSAGE_HEADER_def MEDIUM_MESSAGE_HEADER_def LONG_MESSAGE_HEADER_def)
  have b0: "rd (mem c) (src c) = Some ?b0"
    using rd_view [OF cok, of 0] h(1,3) pos by simp
  have key: "?key = (if isServer then take 4 (drop (H - 4) (view c)) else [0, 0, 0, 0])"
    using h(1,3) cok H
    by (auto simp: headerKey_def length_view drop_take SHORT_MESSAGE_HEADER_def MEDIUM_MESSAGE_HEADER_def LONG_MESSAGE_HEADER_def)
  show ?thesis
  proof (cases "push ?b0 (stackOf (wState c))")
    case None
    then show ?thesis
      using b0 close_stops by (simp add: consumeMessage_def pushOpCode_push startFrame_def closeWith_def simulates_def) blast
  next
    case (Some stk)
    obtain depth ops fin where stk: "stk = (depth, ops, fin)" by (cases stk)
    let ?st = "(wState c)\<lparr>opStack := depth, opCode := ops, lastFin := fin\<rparr>"
    let ?c = "c\<lparr>wState := ?st\<rparr>"
    have fin: "isFin ?b0 = fin"
      using Some stk by (auto simp: push_def stackOf_def split: if_splits)
    have frame: "in_frame stk"
      using push_in_frame [OF _ Some] c valid by (auto simp: boundary_def invalidHeader_def)
    have st: "stackOf (wState ?c) = stk" by (simp add: stk stackOf_def)
    have ready: "ready isServer ?c"
      using c by (simp add: boundary_def ready_def cursor_ok_def)
    have frame: "in_frame (stackOf (wState ?c))" using frame st by simp
    have view: "view ?c = view c" by (simp add: view_def)
    show ?thesis
    proof (cases "refusePayloadLength impl (user c) ?p")
      case True
      then show ?thesis
        using b0 Some stk close_stops
        by (simp add: consumeMessage_def pushOpCode_push startFrame_def closeWith_def simulates_def) blast
    next
      case False
      then have p32: "?p \<le> limit" by (simp add: refuse_limit)
      then have wrap: "(?p + H) mod 2 ^ 64 = ?p + H" using small limit_32 by simp
      have start: "startFrame impl isServer obs h (stackOf (wState c)) (user c) =
          (if ?p = 0 then lastPiece impl obs [] stk (user c) else Body ?p ?key stk (user c))"
        using Some False by (simp add: startFrame_def)
      show ?thesis
      proof (cases "?p + H \<le> len c")
        case True
        have "run isServer (if ?p = 0 then lastPiece impl obs [] stk (user c) else Body ?p ?key stk (user c))
              (drop H (view c)) =
            run isServer (lastPiece impl obs (xorMask ?key 0 (take ?p (drop H (view c)))) stk (user c))
              (drop (?p + H) (view c))"
          (is "?lhs = _")
        proof (cases "?p = 0")
          case False
          have key4: "length ?key = 4"
            using key H h(3) cok
            by (auto simp: length_view SHORT_MESSAGE_HEADER_def MEDIUM_MESSAGE_HEADER_def LONG_MESSAGE_HEADER_def)
          have split: "drop H (view c) = take ?p (drop H (view c)) @ drop (?p + H) (view c)"
            by (metis append_take_drop_id drop_drop)
          have len: "length (take ?p (drop H (view c))) = ?p" using True cok by (simp add: length_view)
          have "run isServer (Body ?p ?key stk (user c)) (take ?p (drop H (view c))) =
              lastPiece impl obs (xorMask ?key 0 (take ?p (drop H (view c)))) stk (user c)"
            using run_last [of "user c" stk "take ?p (drop H (view c))" ?key isServer] key4 len False p32 c
              in_frame_fin [OF frame] st begin_frame
            by (auto simp: boundary_def ready_def)
          then show ?thesis using False by (subst split) simp
        qed simp
        moreover obtain c' stop where whole: "consumeWhole impl isServer H ?p ?b0 ?c = Some (c', stop)"
          "simulates isServer (run isServer
             (lastPiece impl obs (xorMask ?key 0 (take ?p (drop H (view c)))) stk (user c))
             (drop (?p + H) (view c))) (\<not> stop) c'"
        proof -
          have "?p + H \<le> len ?c" "isFin ?b0 = lastFin (wState ?c)"
            "?key = (if isServer then take 4 (drop (H - 4) (view ?c)) else [0, 0, 0, 0])"
            using True fin key view by simp_all
          from consumeWhole_sim [OF ready frame H this] show ?thesis
            using that unfolding st view by auto
        qed
        moreover have "consumeMessage impl isServer H ?p c = Some (c', stop)"
          using b0 Some stk False wrap True whole(1) by (simp add: consumeMessage_def pushOpCode_push)
        ultimately show ?thesis unfolding start by auto
      next
        case part: False
        then have p0: "?p \<noteq> 0" using h(3) by auto
        obtain c' where "consumePart impl isServer H ?p ?b0 ?c = Some (c', True)"
          "rel isServer (run isServer (Body ?p ?key stk (user c)) (drop H (view c))) (wState c', user c')"
        proof -
          have "H \<le> len ?c" "len ?c < ?p + H" "isFin ?b0 = lastFin (wState ?c)"
            "?key = (if isServer then take 4 (drop (H - 4) (view ?c)) else [0, 0, 0, 0])"
            using part fin key view h(3) by simp_all
          from consumePart_sim [OF ready frame H this(1,2) p32 this(3,4)] show ?thesis
            using that unfolding st view by auto
        qed
        moreover from this have "consumeMessage impl isServer H ?p c = Some (c', True)"
          using b0 Some stk False wrap part by (simp add: consumeMessage_def pushOpCode_push)
        ultimately show ?thesis unfolding start using p0 by (auto simp: simulates_def)
      qed
    qed
  qed
qed

end

lemma nextFrame_header:
  fixes c :: "'u cursor"
  assumes cok: "cursor_ok c" and short: "SHORT_MESSAGE_HEADER isServer \<le> len c"
    and u: "(if rsv1 (view c ! 0) then setCompressed impl (user c) else (user c, True)) = (u, acc)"
  shows "nextFrame impl isServer c =
    (let H = headerSize isServer (view c ! 1) in
     if \<not> acc \<or> invalidHeader isServer (view c ! 0) (view c ! 1)
     then Some (c\<lparr>user := u\<rparr>\<lparr>user := forceClose impl u ERR_PROTOCOL\<rparr>, Return)
     else if len c < H then Some (c\<lparr>user := u\<rparr>, Break)
     else frameOf impl isServer H (headerPayload (take H (view c))) (c\<lparr>user := u\<rparr>))"
proof -
  let ?X = "view c"
  have S: "2 \<le> SHORT_MESSAGE_HEADER isServer" by (simp add: SHORT_MESSAGE_HEADER_def)
  have rd: "rd (mem c) (src c) = Some (?X ! 0)" "rd (mem c) (src c + 1) = Some (?X ! 1)"
    using rd_view [OF cok, of 0] rd_view [OF cok, of 1] S short by simp_all
  have ext: "rdN (mem c) (src c + 2) k = Some (take k (drop 2 ?X))" if "2 + k \<le> len c" for k
    using rdN_view [OF cok that] .
  have sizes: "4 \<le> MEDIUM_MESSAGE_HEADER isServer" "10 \<le> LONG_MESSAGE_HEADER isServer"
    by (simp_all add: MEDIUM_MESSAGE_HEADER_def LONG_MESSAGE_HEADER_def)
  have cut: "take k (drop 2 (take H ?X)) = take k (drop 2 ?X)" if "2 + k \<le> H" for k H
    using that by (simp add: drop_take min_def)
  let ?v = "c\<lparr>user := u\<rparr>"
  have nf: "nextFrame impl isServer c =
      (if \<not> acc \<or> invalidHeader isServer (?X ! 0) (?X ! 1)
       then Some (?v\<lparr>user := forceClose impl u ERR_PROTOCOL\<rparr>, Return)
       else if payloadLength (?X ! 1) < 126
         then frameOf impl isServer (SHORT_MESSAGE_HEADER isServer) (unat (payloadLength (?X ! 1))) ?v
       else if payloadLength (?X ! 1) = 126 then
         (if len c < MEDIUM_MESSAGE_HEADER isServer then Some (?v, Break)
          else rdN (mem c) (src c + 2) 2 \<bind> (\<lambda>x. frameOf impl isServer (MEDIUM_MESSAGE_HEADER isServer)
            (unat (cond_byte_swap (load_le x) :: u16)) ?v))
       else if len c < LONG_MESSAGE_HEADER isServer then Some (?v, Break)
       else rdN (mem c) (src c + 2) 8 \<bind> (\<lambda>x. frameOf impl isServer (LONG_MESSAGE_HEADER isServer)
            (unat (cond_byte_swap (load_le x) :: u64)) ?v))"
    unfolding nextFrame_def rd bind.bind_lunit Let_def u case_prod_conv by simp
  consider "payloadLength (?X ! 1) < 126" | "payloadLength (?X ! 1) = 126"
    | "\<not> payloadLength (?X ! 1) < 126" "payloadLength (?X ! 1) \<noteq> 126" by blast
  then show ?thesis
  proof cases
    case 1
    then show ?thesis using nf short S by (simp add: headerSize_def headerPayload_def Let_def del: One_nat_def)
  next
    case 2
    then show ?thesis
      using nf ext [of 2] cut [of 2 "MEDIUM_MESSAGE_HEADER isServer"] sizes
      by (simp add: headerSize_def headerPayload_def Let_def del: One_nat_def)
  next
    case 3
    then show ?thesis
      using nf ext [of 8] cut [of 8 "LONG_MESSAGE_HEADER isServer"] sizes
      by (simp add: headerSize_def headerPayload_def Let_def del: One_nat_def)
  qed
qed

context frame_handler
begin

lemma run_short_header:
  "length (h @ xs) < SHORT_MESSAGE_HEADER isServer \<Longrightarrow> run isServer (Head h stk u) xs = Head (h @ xs) stk u"
proof (induction xs arbitrary: h)
  case Nil
  then show ?case by simp
next
  case (Cons x xs)
  then show ?case using Cons.IH [of "h @ [x]"] by (simp add: headStep_def)
qed

text \<open>A header of which at least the short part has been seen, valid and not compressed.\<close>

lemma run_long_header:
  assumes "SHORT_MESSAGE_HEADER isServer \<le> length h" and "length h < headerSize isServer (h ! 1)"
    and "\<not> rsv1 (h ! 0)" and "\<not> invalidHeader isServer (h ! 0) (h ! 1)"
  shows "run isServer (Head h stk u) xs =
    (if length (h @ xs) < headerSize isServer (h ! 1) then Head (h @ xs) stk u
     else run isServer (startFrame impl isServer obs (take (headerSize isServer (h ! 1)) (h @ xs)) stk u)
            (drop (headerSize isServer (h ! 1)) (h @ xs)))"
  using assms
proof (induction xs arbitrary: h)
  case Nil
  then show ?case by simp
next
  case (Cons x xs)
  let ?H = "headerSize isServer (h ! 1)"
  have "2 \<le> length h" using Cons.prems(1) by (simp add: SHORT_MESSAGE_HEADER_def split: if_splits)
  then have nth: "(h @ [x]) ! 0 = h ! 0" "(h @ [x]) ! 1 = h ! 1" by (cases h; auto simp: nth_append)+
  show ?case
  proof (cases "Suc (length h) < ?H")
    case True
    then have "ws_step impl isServer obs (Head h stk u) x = Head (h @ [x]) stk u"
      using Cons.prems nth by (simp add: headStep_def)
    then show ?thesis using Cons.IH [of "h @ [x]"] Cons.prems True nth by simp
  next
    case False
    then have H: "?H = Suc (length h)" using Cons.prems(2) by simp
    then have "ws_step impl isServer obs (Head h stk u) x = startFrame impl isServer obs (h @ [x]) stk u"
      using Cons.prems nth by (simp add: headStep_def)
    then show ?thesis using H by simp
  qed
qed

lemma headerSize_ge: "SHORT_MESSAGE_HEADER isServer \<le> headerSize isServer b"
  by (simp add: headerSize_def SHORT_MESSAGE_HEADER_def MEDIUM_MESSAGE_HEADER_def LONG_MESSAGE_HEADER_def)

lemma headerSize_short: "payloadLength b < 126 \<longleftrightarrow> headerSize isServer b = SHORT_MESSAGE_HEADER isServer"
  by (simp add: headerSize_def SHORT_MESSAGE_HEADER_def MEDIUM_MESSAGE_HEADER_def LONG_MESSAGE_HEADER_def)

lemma run_header:
  assumes "SHORT_MESSAGE_HEADER isServer \<le> length X"
  shows "run isServer (Head [] stk u) X =
    (let H = headerSize isServer (X ! 1);
         (u', accepted) = (if rsv1 (X ! 0) then setCompressed impl u else (u, True)) in
     if \<not> accepted \<or> invalidHeader isServer (X ! 0) (X ! 1) then closeWith impl obs u' ERR_PROTOCOL
     else if rsv1 (X ! 0) \<and> \<not> payloadLength (X ! 1) < 126 then Outside
     else if length X < H then Head X stk u'
     else run isServer (startFrame impl isServer obs (take H X) stk u') (drop H X))"
proof -
  let ?S = "SHORT_MESSAGE_HEADER isServer" and ?H = "headerSize isServer (X ! 1)"
  obtain u' acc where u': "(if rsv1 (X ! 0) then setCompressed impl u else (u, True)) = (u', acc)" by fastforce
  have S: "2 \<le> ?S" by (simp add: SHORT_MESSAGE_HEADER_def)
  obtain m where m: "?S = Suc m" using S by (cases ?S) auto
  have X: "X = take m X @ [X ! m] @ drop ?S X"
    using assms m by (metis append_assoc append_take_drop_id Suc_le_eq take_Suc_conv_app_nth)
  have nth: "take ?S X ! 0 = X ! 0" "take ?S X ! 1 = X ! 1" using S by simp_all
  have len: "length (take ?S X) = ?S" using assms by simp
  have "run isServer (Head [] stk u) (take m X) = Head (take m X) stk u"
    using run_short_header [of "[]" "take m X" isServer stk u] assms m by simp
  moreover have "take m X @ [X ! m] = take ?S X"
    using assms m by (simp add: take_Suc_conv_app_nth)
  ultimately have "run isServer (Head [] stk u) X =
      run isServer (headStep impl isServer obs (take ?S X) stk u) (drop ?S X)"
    by (subst X) simp
  also have "headStep impl isServer obs (take ?S X) stk u =
     (if \<not> acc \<or> invalidHeader isServer (X ! 0) (X ! 1) then closeWith impl obs u' ERR_PROTOCOL
      else if rsv1 (X ! 0) \<and> \<not> payloadLength (X ! 1) < 126 then Outside
      else if ?S < ?H then Head (take ?S X) stk u'
      else startFrame impl isServer obs (take ?S X) stk u')"
    unfolding headStep_def nth len u' by simp
  finally have run: "run isServer (Head [] stk u) X = run isServer \<dots> (drop ?S X)" .
  consider (closed) "\<not> acc \<or> invalidHeader isServer (X ! 0) (X ! 1)"
    | (out) "acc" "\<not> invalidHeader isServer (X ! 0) (X ! 1)" "rsv1 (X ! 0)" "\<not> payloadLength (X ! 1) < 126"
    | (short) "acc" "\<not> invalidHeader isServer (X ! 0) (X ! 1)" "payloadLength (X ! 1) < 126" "?H = ?S"
    | (long) "acc" "\<not> invalidHeader isServer (X ! 0) (X ! 1)" "\<not> rsv1 (X ! 0)" "?S < ?H" "\<not> payloadLength (X ! 1) < 126"
    using headerSize_short [of "X ! 1" isServer] headerSize_ge [of isServer "X ! 1"] by fastforce
  then show ?thesis
  proof cases
    case long
    with u' have "u' = u" by simp
    moreover have "run isServer (Head (take ?S X) stk u') (drop ?S X) =
        (if length X < ?H then Head X stk u'
         else run isServer (startFrame impl isServer obs (take ?H X) stk u') (drop ?H X))"
      using run_long_header [of isServer "take ?S X" stk u' "drop ?S X"] long
      unfolding nth len append_take_drop_id by simp
    ultimately show ?thesis
      using long unfolding run by (simp add: Let_def del: One_nat_def)
  qed (unfold run u', use assms in \<open>simp_all add: closeWith_def Let_def del: One_nat_def\<close>)
qed

lemma run_header_part:
  assumes "header_part isServer h"
  shows "run isServer (Head [] stk u) h = Head h stk u"
proof (cases "length h < SHORT_MESSAGE_HEADER isServer")
  case True
  then show ?thesis using run_short_header [of "[]" h] by simp
next
  case False
  then show ?thesis
    using assms headerSize_short [of "h ! 1" isServer] run_header [of isServer h stk u]
    by (auto simp: header_part_def)
qed

lemma nextFrame_sim:
  assumes c: "boundary isServer c" and short: "SHORT_MESSAGE_HEADER isServer \<le> len c"
    and ins: "run isServer (Head [] (stackOf (wState c)) (user c)) (view c) \<noteq> Outside"
  shows "\<exists>c' out. nextFrame impl isServer c = Some (c', out) \<and>
    (case out of
       Break \<Rightarrow> boundary isServer c' \<and> view c' = view c \<and> wState c' = wState c \<and> len c' = len c \<and>
         header_part isServer (view c) \<and>
         run isServer (Head [] (stackOf (wState c)) (user c)) (view c) = Head (view c) (stackOf (wState c)) (user c')
     | _ \<Rightarrow> simulates isServer (run isServer (Head [] (stackOf (wState c)) (user c)) (view c)) (out = Again) c')"
proof -
  let ?X = "view c" and ?stk = "stackOf (wState c)"
  let ?H = "headerSize isServer (?X ! 1)"
  have cok: "cursor_ok c" using c by (simp add: boundary_def ready_def)
  have len: "length ?X = len c" by (rule length_view [OF cok])
  have S: "2 \<le> SHORT_MESSAGE_HEADER isServer" by (simp add: SHORT_MESSAGE_HEADER_def)
  have rd: "rd (mem c) (src c) = Some (?X ! 0)" "rd (mem c) (src c + 1) = Some (?X ! 1)"
    using rd_view [OF cok, of 0] rd_view [OF cok, of 1] S short by simp_all
  obtain u' acc where u': "(if rsv1 (?X ! 0) then setCompressed impl (user c) else (user c, True)) = (u', acc)" by fastforce
  have run: "run isServer (Head [] ?stk (user c)) ?X =
      (if \<not> acc \<or> invalidHeader isServer (?X ! 0) (?X ! 1) then closeWith impl obs u' ERR_PROTOCOL
       else if rsv1 (?X ! 0) \<and> \<not> payloadLength (?X ! 1) < 126 then Outside
       else if len c < ?H then Head ?X ?stk u'
       else run isServer (startFrame impl isServer obs (take ?H ?X) ?stk u') (drop ?H ?X))"
    using run_header [of isServer ?X ?stk "user c"] short
    by (simp add: u' len Let_def del: One_nat_def)
  let ?c = "c\<lparr>user := u'\<rparr>"
  have view: "view ?c = ?X" by (simp add: view_def)
  have b: "boundary isServer ?c"
    using c u' compress_keeps [of "user c" u' acc]
    by (auto simp: boundary_def ready_def cursor_ok_def split: if_splits)
  have nf: "nextFrame impl isServer c =
      (if \<not> acc \<or> invalidHeader isServer (?X ! 0) (?X ! 1)
       then Some (?c\<lparr>user := forceClose impl u' ERR_PROTOCOL\<rparr>, Return)
       else if len c < ?H then Some (?c, Break)
       else frameOf impl isServer ?H (headerPayload (take ?H ?X)) ?c)"
    using nextFrame_header [OF cok short u'] by (simp only: Let_def)
  show ?thesis
  proof (cases "\<not> acc \<or> invalidHeader isServer (?X ! 0) (?X ! 1)")
    case True
    then have "nextFrame impl isServer c = Some (?c\<lparr>user := forceClose impl u' ERR_PROTOCOL\<rparr>, Return)"
      using nf by simp
    moreover have "run isServer (Head [] ?stk (user c)) ?X = closeWith impl obs u' ERR_PROTOCOL"
      using run True by simp
    ultimately show ?thesis by (simp add: closeWith_def simulates_def close_stops)
  next
    case valid: False
    have part: "header_part isServer ?X" "run isServer (Head [] ?stk (user c)) ?X = Head ?X ?stk u'" if "len c < ?H"
      using that valid ins short headerSize_short [of "?X ! 1" isServer] len
      unfolding run by (auto simp: header_part_def split: if_splits)
    have whole: "\<exists>c' stop. consumeMessage impl isServer ?H (headerPayload (take ?H ?X)) ?c = Some (c', stop) \<and>
        simulates isServer (run isServer (Head [] ?stk (user c)) ?X) (\<not> stop) c'" if "\<not> len c < ?H"
    proof -
      have "1 < ?H" using headerSize_ge [of isServer "?X ! 1"] S by linarith
      then have valid': "\<not> invalidHeader isServer (take ?H ?X ! 0) (take ?H ?X ! 1)" using valid by simp
      have "\<not> (rsv1 (?X ! 0) \<and> \<not> payloadLength (?X ! 1) < 126)"
        using ins valid unfolding run by (auto split: if_splits)
      then have "run isServer (Head [] ?stk (user c)) ?X =
          run isServer (startFrame impl isServer obs (take ?H ?X) ?stk u') (drop ?H ?X)"
        unfolding run using valid that by (auto simp del: One_nat_def)
      then show ?thesis
        using consumeMessage_sim [OF b _ _ _ valid'] that view by (simp del: One_nat_def)
    qed
    have frameOf: "\<exists>c' out. frameOf impl isServer ?H (headerPayload (take ?H ?X)) ?c = Some (c', out) \<and> out \<noteq> Break \<and>
        simulates isServer (run isServer (Head [] ?stk (user c)) ?X) (out = Again) c'" if "\<not> len c < ?H"
    proof -
      obtain c' stop where "consumeMessage impl isServer ?H (headerPayload (take ?H ?X)) ?c = Some (c', stop)"
        "simulates isServer (run isServer (Head [] ?stk (user c)) ?X) (\<not> stop) c'"
        using whole [OF \<open>\<not> len c < ?H\<close>] by blast
      then show ?thesis by (cases stop) (simp_all add: frameOf_def)
    qed
    have frame: "nextFrame impl isServer c =
        (if len c < ?H then Some (?c, Break)
         else frameOf impl isServer ?H (headerPayload (take ?H ?X)) ?c)"
      using nf valid by simp
    show ?thesis
    proof (cases "len c < ?H")
      case True
      then show ?thesis using frame part b view by auto
    next
      case False
      then obtain c' out where *: "frameOf impl isServer ?H (headerPayload (take ?H ?X)) ?c = Some (c', out)"
        "out \<noteq> Break" "simulates isServer (run isServer (Head [] ?stk (user c)) ?X) (out = Again) c'"
        using frameOf by blast
      then show ?thesis using frame False by (cases out) auto
    qed
  qed
qed

end

context frame_handler
begin

lemma spillRest_sim:
  assumes c: "boundary isServer c" and h: "header_part isServer (view c)" and sp: "spillLength (wState c) = 0 \<or> 0 < len c"
  shows "\<exists>c'. spillRest isServer c = Some c' \<and> user c' = user c \<and>
    rel isServer (Head (view c) (stackOf (wState c)) (user c)) (wState c', user c')"
proof (cases "len c = 0")
  case True
  with c h sp show ?thesis by (simp add: spillRest_def boundary_def ready_def view_def)
next
  case False
  have cok: "cursor_ok c" using c by (simp add: boundary_def ready_def)
  have small: "len c < LONG_MESSAGE_HEADER isServer"
    using h headerSize_ge [of isServer "view c ! 1"] length_view [OF cok]
    by (auto simp: header_part_def headerSize_def SHORT_MESSAGE_HEADER_def MEDIUM_MESSAGE_HEADER_def
        LONG_MESSAGE_HEADER_def split: if_splits)
  have sl: "length (spill (wState c)) = LONG_MESSAGE_HEADER isServer - 1"
    using c by (simp add: boundary_def ready_def)
  have rd: "rdN (mem c) (src c) (len c) = Some (view c)"
    using rdN_view [OF cok, of 0 "len c"] length_view [OF cok] by simp
  obtain s where s: "wrN (spill (wState c)) 0 (view c) = Some s"
    "length s = length (spill (wState c))" "take (len c) s = view c"
    using small sl length_view [OF cok] that [of "view c @ drop (len c) (spill (wState c))"]
    by (simp add: wrN_def Suc_le_eq [symmetric] le_diff_conv2)
  have "len c mod 16 = len c" using small by (simp add: LONG_MESSAGE_HEADER_def split: if_splits)
  then show ?thesis
    using False c h s sl rd length_view [OF cok]
    by (simp add: spillRest_def boundary_def ready_def stackOf_def)
qed

lemma consumeFrames_sim:
  assumes "boundary isServer c" and "spillLength (wState c) = 0 \<or> 0 < len c"
    and "run isServer (Head [] (stackOf (wState c)) (user c)) (view c) \<noteq> Outside"
  shows "\<exists>c'. consumeFrames impl isServer c = Some c' \<and>
    rel isServer (run isServer (Head [] (stackOf (wState c)) (user c)) (view c)) (wState c', user c')"
  using assms
proof (induction "len c" arbitrary: c rule: less_induct)
  case less
  have cok: "cursor_ok c" using less.prems(1) by (simp add: boundary_def ready_def)
  show ?case
  proof (cases "SHORT_MESSAGE_HEADER isServer \<le> len c")
    case False
    then have h: "header_part isServer (view c)" using length_view [OF cok] by (simp add: header_part_def)
    from spillRest_sim [OF less.prems(1) this less.prems(2)] show ?thesis
      using False run_header_part [OF h] by (auto simp: consumeFrames.simps [of impl isServer c])
  next
    case True
    then have pos: "0 < len c" using header_pos(1) [of isServer] by linarith
    obtain c' out where nf: "nextFrame impl isServer c = Some (c', out)"
      and out: "case out of
         Break \<Rightarrow> boundary isServer c' \<and> view c' = view c \<and> wState c' = wState c \<and> len c' = len c \<and>
           header_part isServer (view c) \<and>
           run isServer (Head [] (stackOf (wState c)) (user c)) (view c) = Head (view c) (stackOf (wState c)) (user c')
       | _ \<Rightarrow> simulates isServer (run isServer (Head [] (stackOf (wState c)) (user c)) (view c)) (out = Again) c'"
      using nextFrame_sim [OF less.prems(1) True less.prems(3)] by blast
    show ?thesis
    proof (cases out)
      case Return
      then show ?thesis using nf out True by (auto simp: consumeFrames.simps [of impl isServer c] simulates_def)
    next
      case Break
      then obtain c'' where "spillRest isServer c' = Some c''"
        "rel isServer (Head (view c') (stackOf (wState c')) (user c')) (wState c'', user c'')"
        using spillRest_sim [of isServer c'] out less.prems(2) by auto
      then show ?thesis using nf out True Break by (auto simp: consumeFrames.simps [of impl isServer c])
    next
      case Again
      then have sim: "boundary isServer c'" "spillLength (wState c') = 0"
        "run isServer (Head [] (stackOf (wState c)) (user c)) (view c) =
         run isServer (Head [] (stackOf (wState c')) (user c')) (view c')"
        using out by (simp_all add: simulates_def)
      have "len c' < len c" using nextFrame_progress nf Again pos by blast
      from less.hyps [OF this sim(1)] sim(2,3) less.prems(3)
      show ?thesis using nf True Again by (simp add: consumeFrames.simps [of impl isServer c])
    qed
  qed
qed

text \<open>The rest of a payload.\<close>

definition continuing :: "bool \<Rightarrow> nat \<Rightarrow> bytes \<Rightarrow> 'u cursor \<Rightarrow> bool" where
  "continuing isServer r key c \<longleftrightarrow>
     cursor_ok c \<and> len c \<le> LIBUS_RECV_BUFFER_LENGTH \<and>
     rel isServer (Body r key (stackOf (wState c)) (user c)) (wState c, user c)"

lemma continueEnd_sim:
  assumes c: "continuing isServer r key c" and r: "r \<le> len c"
  shows "\<exists>c' goOn. continueEnd impl isServer c = Some (c', goOn) \<and>
    simulates isServer (run isServer (Body r key (stackOf (wState c)) (user c)) (view c)) goOn c'"
proof -
  let ?data = "xorMask key 0 (take r (view c))"
  have cok: "cursor_ok c" and bound: "src c + len c + 32 \<le> length (mem c)"
    and st: "ok (user c) (Some (stackOp (stackOf (wState c))))" "\<not> stopped (user c)"
      "in_frame (stackOf (wState c))" "remainingBytes (wState c) = of_nat r" "0 < r" "r \<le> limit"
      "key_ok isServer key (wState c)" "\<not> wantsHead (wState c)" "spillLength (wState c) = 0"
      "length (spill (wState c)) = LONG_MESSAGE_HEADER isServer - 1"
    using c by (simp_all add: continuing_def cursor_ok_def LIBUS_RECV_BUFFER_PADDING_def)
  have rem: "unat (remainingBytes (wState c)) = r" using st limit_32 by simp
  have key4: "length key = 4" using st(7) by (simp add: key_ok_def)
  have view: "take r (drop (src c) (mem c)) = take r (view c)"
    using r by (simp add: view_def min_def)
  have "\<exists>m'. (if isServer then unmaskInplace (mem c) (src c) (src c + r div 4 * 4) (maskKey (wState c)) \<bind>
          (\<lambda>m. unmaskTail m (src c + r div 4 * 4) (r mod 4) (maskKey (wState c)))
        else Some (mem c)) = Some m' \<and> length m' = length (mem c) \<and>
      rdN m' (src c) r = Some ?data \<and> drop (src c + r) m' = drop (src c + r) (mem c)"
  proof (cases isServer)
    case True
    have k: "maskKey (wState c) = key" using st(7) True by (simp add: key_ok_def)
    have n4: "r div 4 * 4 + r mod 4 = r" by simp
    obtain m1 where m1: "unmaskInplace (mem c) (src c) (src c + 4 * (r div 4)) key = Some m1"
      "unmasked (mem c) (src c) 0 (4 * (r div 4)) key m1"
      using unmaskInplace_unmasked [of "src c" "r div 4" "mem c" key] r bound n4 by auto
    then have "length m1 = length (mem c)" by (simp add: unmasked_def)
    then obtain m2 where m2: "unmaskTail m1 (src c + 4 * (r div 4)) (r mod 4) key = Some m2"
      "unmasked m1 (src c + 4 * (r div 4)) 0 (r mod 4) key m2"
      using unmaskTail_unmasked [of "src c + 4 * (r div 4)" "r mod 4" m1 key] r bound n4 by auto
    have "unmasked (mem c) (src c) 0 (4 * (r div 4) + r mod 4) key m2"
      using unmasked_trans [OF m1(2) m2(2)] r bound n4 by simp
    then have u: "unmasked (mem c) (src c) 0 r key m2" by simp
    have "rdN m2 (src c) r = Some ?data"
      using unmasked_payload [OF u, of r] r bound view by simp
    moreover have "drop (src c + r) m2 = drop (src c + r) (mem c)"
      using u by (rule unmasked_beyond) simp
    moreover have "length m2 = length (mem c)" using u by (simp add: unmasked_def)
    ultimately show ?thesis using True m1(1) m2(1) k by (simp add: mult.commute)
  next
    case False
    then show ?thesis
      using rdN_view [OF cok, of 0 r] r st(7) by (simp add: key_ok_def)
  qed
  then obtain m' where m': "(if isServer then unmaskInplace (mem c) (src c) (src c + r div 4 * 4) (maskKey (wState c)) \<bind>
          (\<lambda>m. unmaskTail m (src c + r div 4 * 4) (r mod 4) (maskKey (wState c)))
        else Some (mem c)) = Some m'" "length m' = length (mem c)"
      "rdN m' (src c) r = Some ?data" "drop (src c + r) m' = drop (src c + r) (mem c)" by blast
  obtain u' broken where h: "handleFragment impl (user c) ?data 0 (stackOp (stackOf (wState c))) (lastFin (wState c)) = (u', broken)"
    by fastforce
  have len: "length (take r (view c)) = r" using r length_view [OF cok] by simp
  have "take r (view c) \<noteq> []" using len st(5) by (metis length_0_conv less_numeral_extra(3))
  then have "run isServer (Body r key (stackOf (wState c)) (user c)) (take r (view c)) =
      lastPiece impl obs ?data (stackOf (wState c)) (user c)"
    using run_last [OF st(1,2) _ _ key4 in_frame_fin [OF st(3)], of "take r (view c)" isServer] len st(6)
    by (simp only: stack_fields simp_thms)
  then have run: "run isServer (Body r key (stackOf (wState c)) (user c)) (view c) =
      (if broken then Stopped (obs u') else run isServer (Head [] (pop (stackOf (wState c))) u') (drop r (view c)))"
  proof -
    assume *: "run isServer (Body r key (stackOf (wState c)) (user c)) (take r (view c)) =
      lastPiece impl obs ?data (stackOf (wState c)) (user c)"
    have "run isServer (Body r key (stackOf (wState c)) (user c)) (view c) =
        run isServer (Body r key (stackOf (wState c)) (user c)) (take r (view c) @ drop r (view c))"
      by (simp only: append_take_drop_id)
    also have "\<dots> = run isServer (lastPiece impl obs ?data (stackOf (wState c)) (user c)) (drop r (view c))"
      by (simp only: foldl_append *)
    finally show ?thesis unfolding lastPiece_run by (simp add: h)
  qed
  let ?c' = "c\<lparr>mem := m', user := u',
      wState := (wState c)\<lparr>opStack := (if lastFin (wState c) then opStack (wState c) - 1 else opStack (wState c)),
        wantsHead := True\<rparr>, src := src c + r, len := len c - r\<rparr>"
  have ce: "continueEnd impl isServer c =
      (if broken then Some (c\<lparr>mem := m', user := u'\<rparr>, False) else Some (?c', True))"
    unfolding continueEnd_def Let_def rem
    by (simp only: m'(1,3) bind.bind_lunit currentOp_in_frame [OF st(3)] h case_prod_conv)
  show ?thesis
  proof (cases broken)
    case True
    then show ?thesis using ce run h broken_stops by (auto simp: simulates_def)
  next
    case False
    have "ok u' None \<and> \<not> stopped u'"
      using last_keeps [OF st(1,2)] h False in_frame_fin [OF st(3)] by simp
    moreover have "view ?c' = drop r (view c)"
      using m'(4) r by (simp add: view_def drop_take add.commute)
    moreover have "stackOf (wState ?c') = pop (stackOf (wState c))"
      by (simp add: stackOf_def pop_def)
    ultimately have "simulates isServer (run isServer (Body r key (stackOf (wState c)) (user c)) (view c)) True ?c'"
      unfolding run using False st bound r m'(2) pop_stack_ok [OF st(3)]
      by (simp add: simulates_def boundary_def ready_def cursor_ok_def LIBUS_RECV_BUFFER_PADDING_def del: stack_fields(2))
    moreover have "continueEnd impl isServer c = Some (?c', True)" unfolding ce using False by (simp only: if_False)
    ultimately show ?thesis by blast
  qed
qed

end

context frame_handler
begin

lemma continuePart_sim:
  assumes c: "continuing isServer r key c" and r: "len c < r"
  shows "\<exists>c'. continuePart impl isServer c = Some (c', False) \<and>
    rel isServer (run isServer (Body r key (stackOf (wState c)) (user c)) (view c)) (wState c', user c')"
proof -
  let ?data = "xorMask key 0 (view c)" and ?n = "len c"
  have cok: "cursor_ok c" and bound: "src c + ?n + 32 \<le> length (mem c)"
    and st: "ok (user c) (Some (stackOp (stackOf (wState c))))" "\<not> stopped (user c)"
      "in_frame (stackOf (wState c))" "remainingBytes (wState c) = of_nat r" "0 < r" "r \<le> limit"
      "key_ok isServer key (wState c)" "\<not> wantsHead (wState c)" "spillLength (wState c) = 0"
      "length (spill (wState c)) = LONG_MESSAGE_HEADER isServer - 1"
    using c by (simp_all add: continuing_def cursor_ok_def LIBUS_RECV_BUFFER_PADDING_def)
  have key4: "length key = 4" using st(7) by (simp add: key_ok_def)
  have view: "take ?n (drop (src c) (mem c)) = view c" by (simp add: view_def)
  have lenv: "length (view c) = ?n" by (rule length_view [OF cok])
  have "\<exists>m'. (if isServer \<and> maskKey (wState c) \<noteq> [0, 0, 0, 0] then
          (if ?n = LIBUS_RECV_BUFFER_LENGTH then unmaskAll (mem c) (src c) (maskKey (wState c))
           else unmaskInplace (mem c) (src c) (src c + (?n div 4 + 1) * 4) (maskKey (wState c)))
        else Some (mem c)) = Some m' \<and> rdN m' (src c) ?n = Some ?data"
  proof (cases "isServer \<and> maskKey (wState c) \<noteq> [0, 0, 0, 0]")
    case True
    have k: "maskKey (wState c) = key" using st(7) True by (simp add: key_ok_def)
    show ?thesis
    proof (cases "?n = LIBUS_RECV_BUFFER_LENGTH")
      case all: True
      then have n: "16 * (?n div 16) = ?n" by (simp add: LIBUS_RECV_BUFFER_LENGTH_def)
      obtain m' where m': "unmaskAllLoop (?n div 16) (mem c) (src c) key = Some m'"
        "unmasked (mem c) (src c) 0 ?n key m'"
        using unmaskAllLoop_unmasked [of "src c" "?n div 16" "mem c" key] bound unfolding n by auto
      have "rdN m' (src c) ?n = Some ?data"
        using unmasked_payload [OF m'(2), of ?n] bound view by simp
      then show ?thesis using True all k m'(1) by (simp add: unmaskAll_def)
    next
      case False
      have n: "?n \<le> 4 * (?n div 4 + 1)" "src c + 4 * (?n div 4 + 1) \<le> length (mem c)"
        using dividend_less_times_div [of 4 ?n] bound by auto
      obtain m' where m': "unmaskInplace (mem c) (src c) (src c + 4 * (?n div 4 + 1)) key = Some m'"
        "unmasked (mem c) (src c) 0 (4 * (?n div 4 + 1)) key m'"
        using unmaskInplace_unmasked [OF n(2)] by blast
      have "rdN m' (src c) ?n = Some ?data"
        using unmasked_payload [OF m'(2) n(1)] bound view by simp
      then show ?thesis using True False k m'(1) by (simp add: mult.commute)
    qed
  next
    case False
    then have "key = [0, 0, 0, 0]" using st(7) by (auto simp: key_ok_def split: if_splits)
    then show ?thesis using False rdN_view [OF cok, of 0 ?n] lenv by auto
  qed
  then obtain m' where m': "(if isServer \<and> maskKey (wState c) \<noteq> [0, 0, 0, 0] then
          (if ?n = LIBUS_RECV_BUFFER_LENGTH then unmaskAll (mem c) (src c) (maskKey (wState c))
           else unmaskInplace (mem c) (src c) (src c + (?n div 4 + 1) * 4) (maskKey (wState c)))
        else Some (mem c)) = Some m'" "rdN m' (src c) ?n = Some ?data" by blast
  let ?rem = "remainingBytes (wState c) - of_nat ?n"
  have rem: "?rem = of_nat (r - ?n)" "?rem \<noteq> 0" "0 < r - ?n"
  proof -
    show *: "?rem = of_nat (r - ?n)" using st(4) r by simp
    show "?rem \<noteq> 0" unfolding * using r st(6) limit_32 by (simp add: word_unat_eq_iff del: of_nat_diff)
  qed (use r in simp)
  obtain u' broken where h: "handleFragment impl (user c) ?data ?rem (stackOp (stackOf (wState c))) (lastFin (wState c)) = (u', broken)"
    by fastforce
  have run: "run isServer (Body r key (stackOf (wState c)) (user c)) (view c) =
      (if broken then Stopped (obs u') else Body (r - ?n) (rotate ?n key) (stackOf (wState c)) u')"
    using run_piece [OF st(1,2) rem(3) _ key4 in_frame_fin [OF st(3)], of "view c" isServer] lenv r st(6) h rem(1)
    by (simp del: of_nat_diff)
  let ?st = "(wState c)\<lparr>remainingBytes := ?rem\<rparr>"
  let ?st' = "if isServer \<and> ?n mod 4 \<noteq> 0 then ?st\<lparr>maskKey := rotateMask (4 - ?n mod 4) (maskKey (wState c))\<rparr> else ?st"
  have op: "currentOp ?st = Some (stackOp (stackOf (wState c)))"
    using currentOp_in_frame [OF st(3)] by (simp add: currentOp_def split: if_splits)
  have cp: "continuePart impl isServer c =
      Some (c\<lparr>mem := m', user := u', wState := (if broken then ?st else ?st')\<rparr>, False)"
    unfolding continuePart_def Let_def
    by (simp only: m' bind.bind_lunit op) (simp add: h)
  show ?thesis
  proof (cases broken)
    case True
    then show ?thesis using cp run h broken_stops by simp
  next
    case False
    have "ok u' (Some (stackOp (stackOf (wState c)))) \<and> \<not> stopped u'"
      using piece_keeps [OF st(1,2) rem(2)] h False by simp
    moreover have "key_ok isServer (rotate ?n key) ?st'"
    proof -
      have "rotate ?n key = key" if "?n mod 4 = 0"
        using that rotate_conv_mod [of ?n key] key4 by simp
      then show ?thesis using st(7) key4 rotateMask_rotate [OF key4, of ?n] by (auto simp: key_ok_def)
    qed
    moreover have "stackOf ?st' = stackOf (wState c)" "remainingBytes ?st' = of_nat (r - ?n)"
      "spillLength ?st' = 0" "\<not> wantsHead ?st'" "length (spill ?st') = LONG_MESSAGE_HEADER isServer - 1"
      using st rem(1) by (simp_all add: stackOf_def del: of_nat_diff)
    ultimately have "rel isServer (Body (r - ?n) (rotate ?n key) (stackOf (wState c)) u') (?st', u')"
      using st rem(3) by simp
    then show ?thesis using cp run False by auto
  qed
qed

lemma consume_sim:
  assumes rel: "rel isServer s (st, u)" and "\<not> stopped u" and post: "LIBUS_RECV_BUFFER_PADDING \<le> length buf - (start + n)"
    and pre: "LIBUS_RECV_BUFFER_PADDING \<le> start" and n: "n \<le> LIBUS_RECV_BUFFER_LENGTH"
    and ins: "run isServer s (take n (drop start buf)) \<noteq> Outside" and buf: "start + n \<le> length buf"
  shows "\<exists>c. consume impl isServer buf start n st u = Some c \<and>
    rel isServer (run isServer s (take n (drop start buf))) (wState c, user c)"
proof (cases s)
  case (Head h stk u0)
  then have h: "u0 = u" "ok u None" "stack_ok stk" "stackOf st = stk" "wantsHead st" "spillLength st = length h"
    "take (length h) (spill st) = h" "length (spill st) = LONG_MESSAGE_HEADER isServer - 1" "header_part isServer h"
    using rel by simp_all
  let ?k = "length h" and ?X = "h @ take n (drop start buf)"
  have k: "?k \<le> length (spill st)" by (metis h(7) length_take min.absorb_iff2 min.commute)
  then have k32: "?k \<le> start" using h(8) pre
    by (simp add: LONG_MESSAGE_HEADER_def LIBUS_RECV_BUFFER_PADDING_def split: if_splits)
  have X: "run isServer (Head [] stk u) ?X = run isServer s (take n (drop start buf))"
    using run_header_part [OF h(9), of stk u] Head h(1) by simp
  obtain buf' where buf': "(if ?k \<noteq> 0 then rdN (spill st) 0 ?k \<bind> wrN buf (start - ?k) else Some buf) = Some buf'"
    "length buf' = length buf" "take (n + ?k) (drop (start - ?k) buf') = ?X"
  proof (cases "?k = 0")
    case True
    then show ?thesis using that [of buf] by simp
  next
    case False
    have "take ?k (drop 0 (spill st)) = h" using h(7) by simp
    then have "rdN (spill st) 0 ?k = Some h" using k by (simp add: rdN_def)
    moreover obtain b' where b': "wrN buf (start - ?k) h = Some b'" "b' = take (start - ?k) buf @ h @ drop start buf"
      using k32 buf by (simp add: wrN_def)
    moreover have "take (n + ?k) (drop (start - ?k) b') = ?X" "length b' = length buf"
      using b'(2) k32 buf by simp_all
    ultimately show ?thesis using that [of b'] False by simp
  qed
  let ?c = "\<lparr>mem = buf', src = start - ?k, len = n + ?k, wState = st, user = u\<rparr>"
  have "boundary isServer ?c"
    using h assms(2) post buf k32 buf'(2) by (simp add: boundary_def ready_def cursor_ok_def)
  moreover have "view ?c = ?X" using buf'(3) by (simp add: view_def)
  moreover have "spillLength (wState ?c) = 0 \<or> 0 < len ?c" using h(6) by auto
  ultimately obtain c' where "consumeFrames impl isServer ?c = Some c'"
    "rel isServer (run isServer s (take n (drop start buf))) (wState c', user c')"
    using consumeFrames_sim [of isServer ?c] ins X h(4) by auto
  moreover have "consume impl isServer buf start n st u = consumeFrames impl isServer ?c"
    using buf'(1) h(5,6) k32 by (auto simp: consume_def consumeBody_def Let_def bind_eq_Some_conv)
  ultimately show ?thesis by simp
next
  case (Body r key stk u0)
  then have b: "stackOf st = stk" "u0 = u" "spillLength st = 0" "\<not> wantsHead st" "remainingBytes st = of_nat r" "r < 2 ^ 32"
    using rel limit_32 by simp_all
  let ?c = "\<lparr>mem = buf, src = start, len = n, wState = st, user = u\<rparr>"
  have view: "view ?c = take n (drop start buf)" by (simp add: view_def)
  have c: "continuing isServer r key ?c"
    using rel Body b post buf n by (simp add: continuing_def cursor_ok_def)
  have s: "s = Body r key (stackOf (wState ?c)) (user ?c)" using Body b by simp
  have consume: "consume impl isServer buf start n st u =
      consumeContinuation impl isServer ?c \<bind> (\<lambda>(c', goOn). if goOn then consumeFrames impl isServer c' else Some c')"
    using b by (simp add: consume_def consumeBody_def)
  show ?thesis
  proof (cases "r \<le> n")
    case True
    then have "consumeContinuation impl isServer ?c = continueEnd impl isServer ?c"
      using b by (simp add: consumeContinuation_def)
    moreover obtain c' goOn where ce: "continueEnd impl isServer ?c = Some (c', goOn)"
      "simulates isServer (run isServer s (take n (drop start buf))) goOn c'"
      using continueEnd_sim [OF c] True s view by auto
    ultimately show ?thesis
      using consume consumeFrames_sim [of isServer c'] ins by (cases goOn) (auto simp: simulates_def)
  next
    case False
    then have "consumeContinuation impl isServer ?c = continuePart impl isServer ?c"
      using b by (simp add: consumeContinuation_def)
    then show ?thesis using consume continuePart_sim [OF c] False s view by auto
  qed
qed (use assms in auto)

end

section \<open>Any segmentation of the stream\<close>

text \<open>
  The event loop hands over segments of at most the length of the receive buffer, between two
  paddings of arbitrary content. A connection that is closed or shutting down is not parsed.
\<close>

definition feedSegment ::
  "'u Impl \<Rightarrow> ('u \<Rightarrow> bool) \<Rightarrow> bool \<Rightarrow> (bytes \<Rightarrow> bytes \<times> bytes) \<Rightarrow> WebSocketState \<times> 'u \<Rightarrow> bytes \<Rightarrow>
     ((WebSocketState \<times> 'u) \<times> unit list \<times> bytes) option" where
  "feedSegment impl stopped isServer padding c seg =
     (if stopped (snd c) then Some (c, [], [])
      else map_option (\<lambda>c'. (c', [], []))
             (consumeSegment impl isServer (fst (padding seg)) seg (snd (padding seg)) (fst c) (snd c)))"

locale frame_stream = frame_handler +
  fixes isServer :: bool and padding :: "bytes \<Rightarrow> bytes \<times> bytes"
  assumes padded: "length (fst (padding seg)) = LIBUS_RECV_BUFFER_PADDING"
    "length (snd (padding seg)) = LIBUS_RECV_BUFFER_PADDING"
begin

lemma feedSegment_sim:
  assumes "length seg \<le> LIBUS_RECV_BUFFER_LENGTH" and "rel isServer s c" and "run isServer s seg \<noteq> Outside"
  shows "\<exists>c'. feedSegment impl stopped isServer padding c seg = Some (c', [], []) \<and> rel isServer (run isServer s seg) c'"
proof (cases c)
  case (Pair st u)
  show ?thesis
  proof (cases "stopped u")
    case True
    then obtain x where "s = Stopped x" using assms(2) Pair by (cases s) auto
    then show ?thesis using True assms(2) Pair by (simp add: feedSegment_def)
  next
    case False
    let ?buf = "recvBuffer (fst (padding seg)) seg (snd (padding seg))"
    have seg: "take (length seg) (drop (length (fst (padding seg))) ?buf) = seg"
      by (simp add: recvBuffer_def)
    obtain c' where "consume impl isServer ?buf (length (fst (padding seg))) (length seg) st u = Some c'"
      "rel isServer (run isServer s seg) (wState c', user c')"
      using consume_sim [of isServer s st u ?buf "length (fst (padding seg))" "length seg"] assms Pair False
      unfolding seg by (auto simp: padded recvBuffer_def)
    then show ?thesis using Pair False by (simp add: feedSegment_def consumeSegment_def)
  qed
qed

end

sublocale frame_stream \<subseteq>
  stream: segment_simulation "feedSegment impl stopped isServer padding"
    "\<lambda>s b. (ws_step impl isServer obs s b, [])" "\<lambda>s. False" "\<lambda>s. s \<noteq> Outside" "rel isServer"
    "\<lambda>seg. length seg \<le> LIBUS_RECV_BUFFER_LENGTH"
proof
  show "\<exists>c'. feedSegment impl stopped isServer padding c xs = Some (c', out, rest) \<and> rel isServer s' c'"
    if "length xs \<le> LIBUS_RECV_BUFFER_LENGTH" "rel isServer s c"
      "run_machine (\<lambda>s b. (ws_step impl isServer obs s b, [])) (\<lambda>s. False) s xs = (s', out, rest)"
      "s' \<noteq> Outside" for xs s c s' out rest
    using feedSegment_sim [OF that(1,2)] that(3,4) by (auto simp: run_machine_ws_run)
qed simp

text \<open>What can be observed of the machine, and of the parser.\<close>

fun observed :: "('u \<Rightarrow> 'x) \<Rightarrow> ('u, 'x) machine \<Rightarrow> 'x option" where
  "observed obs (Head h stk u) = Some (obs u)"
| "observed obs (Body r key stk u) = Some (obs u)"
| "observed obs (Stopped x) = Some x"
| "observed obs Outside = None"

context frame_stream
begin

lemma rel_observed: "rel isServer s c \<Longrightarrow> observed obs s = Some (obs (snd c))"
  by (cases s; cases c) auto

lemma rel_init:
  "ok u None \<Longrightarrow> \<not> stopped u \<Longrightarrow> rel isServer (Head [] (-1, [0, 0], True) u) (initState isServer, u)"
  by (simp add: initState_def stackOf_def stack_ok_def header_part_def)

theorem feed_observed:
  assumes "\<And>seg. seg \<in> set segs \<Longrightarrow> length seg \<le> LIBUS_RECV_BUFFER_LENGTH"
    and "ok u None" and "\<not> stopped u"
    and "ws_run impl isServer obs (Head [] (-1, [0, 0], True) u) (concat segs) \<noteq> Outside"
  shows "\<exists>c. feed_all (feedSegment impl stopped isServer padding) (initState isServer, u) segs = Some (c, [], []) \<and>
    Some (obs (snd c)) = observed obs (ws_run impl isServer obs (Head [] (-1, [0, 0], True) u) (concat segs))"
  using stream.segmentation_simulated [OF assms(1) rel_init [OF assms(2,3)] run_machine_ws_run assms(4)]
    rel_observed by fastforce

end

section \<open>Memory safety\<close>

text \<open>
  No access outside the receive buffer, the spill area or the opcode stack, for every stream, also
  where the machine gives up: between two calls only the shape of the state matters.
\<close>

context frame_handler
begin

definition safe_state :: "bool \<Rightarrow> WebSocketState \<times> 'u \<Rightarrow> bool" where
  "safe_state isServer = (\<lambda>(st, u). stopped u \<or>
     (ok u None \<and> stack_ok (stackOf st) \<and> wantsHead st \<and> length (spill st) = LONG_MESSAGE_HEADER isServer - 1 \<and>
      spillLength st < LONG_MESSAGE_HEADER isServer) \<or>
     (\<exists>r key. rel isServer (Body r key (stackOf st) u) (st, u)))"

lemma header_part_short: "header_part isServer h \<Longrightarrow> length h < LONG_MESSAGE_HEADER isServer"
  by (auto simp: header_part_def headerSize_def SHORT_MESSAGE_HEADER_def MEDIUM_MESSAGE_HEADER_def
      LONG_MESSAGE_HEADER_def split: if_splits)

lemma rel_safe: "rel isServer s (st, u) \<Longrightarrow> safe_state isServer (st, u)"
  by (cases s) (auto simp: safe_state_def dest: header_part_short)

lemma spillRest_safe:
  assumes c: "boundary isServer c" and small: "len c < LONG_MESSAGE_HEADER isServer"
    and sp: "spillLength (wState c) = 0 \<or> 0 < len c"
  shows "\<exists>c'. spillRest isServer c = Some c' \<and> safe_state isServer (wState c', user c')"
proof (cases "len c = 0")
  case True
  with c sp show ?thesis by (simp add: spillRest_def boundary_def ready_def safe_state_def)
next
  case False
  have cok: "cursor_ok c" and sl: "length (spill (wState c)) = LONG_MESSAGE_HEADER isServer - 1"
    using c by (simp_all add: boundary_def ready_def)
  have rd: "rdN (mem c) (src c) (len c) = Some (view c)"
    using rdN_view [OF cok, of 0 "len c"] length_view [OF cok] by simp
  obtain s where s: "wrN (spill (wState c)) 0 (view c) = Some s" "length s = length (spill (wState c))"
    using small sl length_view [OF cok] that [of "view c @ drop (len c) (spill (wState c))"]
    by (simp add: wrN_def Suc_le_eq [symmetric] le_diff_conv2)
  have "len c mod 16 < LONG_MESSAGE_HEADER isServer" using small by (rule le_less_trans [OF mod_less_eq_dividend])
  then show ?thesis
    using False c s sl rd
    by (auto simp: spillRest_def boundary_def ready_def stackOf_def safe_state_def)
qed

lemma nextFrame_safe:
  assumes c: "boundary isServer c" and short: "SHORT_MESSAGE_HEADER isServer \<le> len c"
  shows "\<exists>c' out. nextFrame impl isServer c = Some (c', out) \<and>
    (case out of
       Break \<Rightarrow> boundary isServer c' \<and> len c' = len c \<and> len c < LONG_MESSAGE_HEADER isServer
     | Again \<Rightarrow> boundary isServer c' \<and> spillLength (wState c') = 0
     | Return \<Rightarrow> safe_state isServer (wState c', user c'))"
proof -
  let ?X = "view c" and ?stk = "stackOf (wState c)"
  let ?H = "headerSize isServer (?X ! 1)"
  have cok: "cursor_ok c" using c by (simp add: boundary_def ready_def)
  have S: "2 \<le> SHORT_MESSAGE_HEADER isServer" by (simp add: SHORT_MESSAGE_HEADER_def)
  obtain u' acc where u': "(if rsv1 (?X ! 0) then setCompressed impl (user c) else (user c, True)) = (u', acc)" by fastforce
  let ?c = "c\<lparr>user := u'\<rparr>"
  have view: "view ?c = ?X" by (simp add: view_def)
  have b: "boundary isServer ?c"
    using c u' compress_keeps [of "user c" u' acc]
    by (auto simp: boundary_def ready_def cursor_ok_def split: if_splits)
  have nf: "nextFrame impl isServer c =
      (if \<not> acc \<or> invalidHeader isServer (?X ! 0) (?X ! 1)
       then Some (?c\<lparr>user := forceClose impl u' ERR_PROTOCOL\<rparr>, Return)
       else if len c < ?H then Some (?c, Break)
       else frameOf impl isServer ?H (headerPayload (take ?H ?X)) ?c)"
    using nextFrame_header [OF cok short u'] by (simp only: Let_def)
  have H: "?H \<le> LONG_MESSAGE_HEADER isServer" "1 < ?H"
    using S headerSize_ge [of isServer "?X ! 1"]
    by (simp_all add: headerSize_def SHORT_MESSAGE_HEADER_def MEDIUM_MESSAGE_HEADER_def LONG_MESSAGE_HEADER_def)
  consider (bad) "\<not> acc \<or> invalidHeader isServer (?X ! 0) (?X ! 1)"
    | (cut) "acc" "\<not> invalidHeader isServer (?X ! 0) (?X ! 1)" "len c < ?H"
    | (whole) "acc" "\<not> invalidHeader isServer (?X ! 0) (?X ! 1)" "?H \<le> len c"
    by linarith
  then show ?thesis
  proof cases
    case bad
    then show ?thesis using nf close_stops by (simp add: safe_state_def)
  next
    case cut
    then show ?thesis using nf b H(1) by simp
  next
    case whole
    have valid: "\<not> invalidHeader isServer (take ?H ?X ! 0) (take ?H ?X ! 1)" using whole H(2) by simp
    obtain c' stop where cm: "consumeMessage impl isServer ?H (headerPayload (take ?H ?X)) ?c = Some (c', stop)"
      and sim: "simulates isServer (run isServer (startFrame impl isServer obs (take ?H ?X) ?stk u') (drop ?H ?X)) (\<not> stop) c'"
      using consumeMessage_sim [OF b _ _ _ valid] whole view by (auto simp del: One_nat_def)
    have "nextFrame impl isServer c = Some (c', if stop then Return else Again)"
      using nf whole cm by (simp add: frameOf_def del: One_nat_def)
    then show ?thesis using sim rel_safe by (cases stop) (auto simp: simulates_def)
  qed
qed

lemma consumeFrames_safe:
  assumes "boundary isServer c" and "spillLength (wState c) = 0 \<or> 0 < len c"
  shows "\<exists>c'. consumeFrames impl isServer c = Some c' \<and> safe_state isServer (wState c', user c')"
  using assms
proof (induction "len c" arbitrary: c rule: less_induct)
  case less
  show ?case
  proof (cases "SHORT_MESSAGE_HEADER isServer \<le> len c")
    case False
    then have "len c < LONG_MESSAGE_HEADER isServer"
      by (simp add: SHORT_MESSAGE_HEADER_def LONG_MESSAGE_HEADER_def split: if_splits)
    from spillRest_safe [OF less.prems(1) this less.prems(2)] show ?thesis
      using False by (simp add: consumeFrames.simps [of impl isServer c])
  next
    case True
    then have pos: "0 < len c" using header_pos(1) [of isServer] by linarith
    obtain c' out where nf: "nextFrame impl isServer c = Some (c', out)"
      and out: "case out of
         Break \<Rightarrow> boundary isServer c' \<and> len c' = len c \<and> len c < LONG_MESSAGE_HEADER isServer
       | Again \<Rightarrow> boundary isServer c' \<and> spillLength (wState c') = 0
       | Return \<Rightarrow> safe_state isServer (wState c', user c')"
      using nextFrame_safe [OF less.prems(1) True] by blast
    show ?thesis
    proof (cases out)
      case Return
      then show ?thesis using nf out True by (simp add: consumeFrames.simps [of impl isServer c])
    next
      case Break
      then show ?thesis
        using nf out True spillRest_safe [of isServer c'] pos by (simp add: consumeFrames.simps [of impl isServer c])
    next
      case Again
      then have "len c' < len c" using nextFrame_progress nf pos by blast
      from less.hyps [OF this] out Again show ?thesis
        using nf True by (simp add: consumeFrames.simps [of impl isServer c])
    qed
  qed
qed

lemma consume_safe:
  assumes safe: "safe_state isServer (st, u)" and "\<not> stopped u"
    and post: "start + n + LIBUS_RECV_BUFFER_PADDING \<le> length buf"
    and pre: "LIBUS_RECV_BUFFER_PADDING \<le> start" and n: "n \<le> LIBUS_RECV_BUFFER_LENGTH"
  shows "\<exists>c. consume impl isServer buf start n st u = Some c \<and> safe_state isServer (wState c, user c)"
proof -
  consider (head) "ok u None" "stack_ok (stackOf st)" "wantsHead st" "length (spill st) = LONG_MESSAGE_HEADER isServer - 1"
      "spillLength st < LONG_MESSAGE_HEADER isServer"
    | (body) r key where "rel isServer (Body r key (stackOf st) u) (st, u)"
    using safe assms(2) by (auto simp: safe_state_def)
  then show ?thesis
  proof cases
    case head
    let ?k = "spillLength st"
    have k32: "?k \<le> start" using head(5) pre
      by (simp add: LONG_MESSAGE_HEADER_def LIBUS_RECV_BUFFER_PADDING_def split: if_splits)
    obtain buf' where buf': "(if ?k \<noteq> 0 then rdN (spill st) 0 ?k \<bind> wrN buf (start - ?k) else Some buf) = Some buf'"
      "length buf' = length buf"
    proof (cases "?k = 0")
      case False
      have t: "length (take ?k (spill st)) = ?k" "start - ?k + ?k = start"
        using head(4,5) k32 by simp_all
      have "rdN (spill st) 0 ?k = Some (take ?k (spill st))" using head(4,5) by (simp add: rdN_def)
      moreover have "wrN buf (start - ?k) (take ?k (spill st)) =
          Some (take (start - ?k) buf @ take ?k (spill st) @ drop start buf)"
        unfolding wrN_def t using post by simp
      moreover have "length (take (start - ?k) buf @ take ?k (spill st) @ drop start buf) = length buf"
        unfolding length_append t using k32 post by simp
      ultimately show ?thesis using that False by simp
    qed (use that [of buf] in simp)
    let ?c = "\<lparr>mem = buf', src = start - ?k, len = n + ?k, wState = st, user = u\<rparr>"
    have "boundary isServer ?c"
      using head assms(2) post k32 buf'(2) by (simp add: boundary_def ready_def cursor_ok_def)
    then obtain c' where "consumeFrames impl isServer ?c = Some c'" "safe_state isServer (wState c', user c')"
      using consumeFrames_safe [of isServer ?c] by auto
    moreover have "consume impl isServer buf start n st u = consumeFrames impl isServer ?c"
      using buf'(1) head(3) k32 by (auto simp: consume_def consumeBody_def Let_def bind_eq_Some_conv)
    ultimately show ?thesis by simp
  next
    case body
    then have b: "spillLength st = 0" "\<not> wantsHead st" by simp_all
    let ?c = "\<lparr>mem = buf, src = start, len = n, wState = st, user = u\<rparr>"
    have c: "continuing isServer r key ?c"
      using body post n by (simp add: continuing_def cursor_ok_def)
    have consume: "consume impl isServer buf start n st u =
        consumeContinuation impl isServer ?c \<bind> (\<lambda>(c', goOn). if goOn then consumeFrames impl isServer c' else Some c')"
      using b by (simp add: consume_def consumeBody_def)
    have r: "unat (remainingBytes st) = r" using body limit_32 by simp
    show ?thesis
    proof (cases "r \<le> n")
      case True
      then obtain c' goOn where ce: "consumeContinuation impl isServer ?c = Some (c', goOn)"
        "simulates isServer (run isServer (Body r key (stackOf st) u) (view ?c)) goOn c'"
        using continueEnd_sim [OF c] r by (auto simp: consumeContinuation_def)
      then show ?thesis
        using consume consumeFrames_safe [of isServer c'] rel_safe by (cases goOn) (auto simp: simulates_def)
    next
      case False
      then obtain c' where "consumeContinuation impl isServer ?c = Some (c', False)"
        "rel isServer (run isServer (Body r key (stackOf st) u) (view ?c)) (wState c', user c')"
        using continuePart_sim [OF c] r by (auto simp: consumeContinuation_def)
      then show ?thesis using consume rel_safe by auto
    qed
  qed
qed

end

context frame_stream
begin

theorem feed_safe:
  assumes "\<And>seg. seg \<in> set segs \<Longrightarrow> length seg \<le> LIBUS_RECV_BUFFER_LENGTH" and "safe_state isServer c"
  shows "\<exists>c'. feed_all (feedSegment impl stopped isServer padding) c segs = Some (c', [], []) \<and> safe_state isServer c'"
  using assms
proof (induction segs arbitrary: c)
  case Nil
  then show ?case by simp
next
  case (Cons seg segs)
  obtain st u where c: "c = (st, u)" by (cases c)
  obtain c1 where c1: "feedSegment impl stopped isServer padding c seg = Some (c1, [], [])" "safe_state isServer c1"
  proof (cases "stopped u")
    case True
    then show ?thesis using c that by (simp add: feedSegment_def safe_state_def)
  next
    case False
    let ?buf = "recvBuffer (fst (padding seg)) seg (snd (padding seg))"
    obtain c' where "consume impl isServer ?buf (length (fst (padding seg))) (length seg) st u = Some c'"
      "safe_state isServer (wState c', user c')"
      using consume_safe [of isServer st u "length (fst (padding seg))" "length seg" ?buf] Cons.prems c False
      by (auto simp: padded recvBuffer_def)
    then show ?thesis using c False that by (simp add: feedSegment_def consumeSegment_def)
  qed
  obtain c2 where "feed_all (feedSegment impl stopped isServer padding) c1 segs = Some (c2, [], [])" "safe_state isServer c2"
    using Cons.IH [OF _ c1(2)] Cons.prems(1) by auto
  then show ?case using c1(1) by simp
qed

end


section \<open>Formatted frames\<close>

text \<open>
  Frames as \<open>formatMessage\<close> writes them in one role, read by the parser in the other.
\<close>

definition frameBytes :: "bool \<Rightarrow> OpCode \<Rightarrow> bool \<Rightarrow> u32 \<Rightarrow> bytes \<Rightarrow> bytes" where
  "frameBytes isServer op fin key payload =
     formatMessage (\<not> isServer) payload op (length payload) False fin key"

definition frame_ok :: "OpCode \<Rightarrow> bool \<Rightarrow> bytes \<Rightarrow> bool" where
  "frame_ok op fin payload \<longleftrightarrow>
     op \<in> {0, 1, 2} \<or> op \<in> {8, 9, 10} \<and> fin \<and> length payload \<le> 125"

lemma first_byte:
  assumes "op \<in> {0, 1, 2, 8, 9, 10 :: OpCode}"
  shows "getOpCode ((if fin then 128 else 0) OR op) = op" "isFin ((if fin then 128 else 0) OR op) = fin"
    "\<not> rsv1 ((if fin then 128 else 0) OR op)" "\<not> rsv23 ((if fin then 128 else 0) OR op)"
  using assms by (auto simp: getOpCode_def isFin_def rsv1_def rsv23_def)

lemma bit_byte_127: "bit (127 :: byte) n \<longleftrightarrow> n < 7"
proof -
  have "(127 :: byte) = mask 7" by (simp add: mask_eq_exp_minus_1)
  then have "bit (127 :: byte) n \<longleftrightarrow> bit (mask 7 :: byte) n" by (simp only:)
  also have "\<dots> \<longleftrightarrow> n < 7" by (subst bit_mask_iff) auto
  finally show ?thesis .
qed

lemma bit_byte_128: "bit (128 :: byte) n \<longleftrightarrow> n = 7"
proof -
  have "(128 :: byte) = push_bit 7 1" by simp
  then have "bit (128 :: byte) n \<longleftrightarrow> bit (push_bit 7 1 :: byte) n" by (simp only:)
  also have "\<dots> \<longleftrightarrow> n = 7" by (subst bit_push_bit_iff) (auto simp: bit_1_iff)
  finally show ?thesis .
qed

lemma second_byte:
  assumes "unat b < 128"
  shows "payloadLength (b OR 0x80) = b" "payloadLength b = b" "b AND 0x80 = 0"
proof -
  have high: "n < 7" if "bit b n" for n
  proof (rule ccontr)
    assume "\<not> n < 7"
    with that bit_imp_le_length [of b n] have "bit b 7" by (cases "n = 7") auto
    moreover have "b AND 0x80 = 0" using assms utf8_bit_tests(1) by blast
    ultimately show False using and_exp_eq_0_iff_not_bit [of b 7] by simp
  qed
  show "b AND 0x80 = 0" using assms utf8_bit_tests(1) by blast
  show "payloadLength (b OR 0x80) = b" "payloadLength b = b"
    using high
    by (auto intro!: bit_word_eqI simp: payloadLength_def bit_and_iff bit_or_iff bit_byte_127 bit_byte_128
        simp del: bit_numeral_word_iff)
qed

lemma frameLength_byte: "unat (fst (frameLength n)) < 128"
  by (simp add: frameLength_def)

definition frameHeader :: "bool \<Rightarrow> OpCode \<Rightarrow> bool \<Rightarrow> u32 \<Rightarrow> nat \<Rightarrow> bytes" where
  "frameHeader isServer op fin key n =
     (let b0 = (if fin then 128 else 0) OR op; (len7, ext) = frameLength n in
      if isServer then [b0, len7 OR 0x80] @ ext @ store_le 4 key else [b0, len7] @ ext)"

lemma frameBytes_split:
  "frameBytes isServer op fin key payload =
     frameHeader isServer op fin key (length payload) @
     (if isServer then xorMask (store_le 4 key) 0 payload else payload)"
  by (simp add: frameBytes_def formatMessage_def frameHeader_def maskPayload_xorMask Let_def split: prod.splits)

lemma frameHeader_facts:
  fixes isServer op fin key n
  defines "h \<equiv> frameHeader isServer op fin key n"
  assumes op: "op \<in> {0, 1, 2, 8, 9, 10}" and n: "n < 2 ^ 64"
  shows "h ! 0 = (if fin then 128 else 0) OR op" and "payloadLength (h ! 1) = fst (frameLength n)"
    and "length h = headerSize isServer (h ! 1)" and "headerPayload h = n"
    and "headerKey isServer h = (if isServer then store_le 4 key else [0, 0, 0, 0])"
    and "\<not> isServer \<Longrightarrow> h ! 1 AND 0x80 = 0"
proof -
  obtain l e where le: "frameLength n = (l, e)" by fastforce
  then have l: "unat l < 128" using frameLength_byte [of n] by simp
  show p: "h ! 0 = (if fin then 128 else 0) OR op" "payloadLength (h ! 1) = fst (frameLength n)"
    and "\<not> isServer \<Longrightarrow> h ! 1 AND 0x80 = 0"
    using second_byte [OF l] by (simp_all add: h_def frameHeader_def le)
  have small: "(of_nat n :: byte) < 126" if "n < 126" using that by (simp add: word_less_nat_alt)
  show "length h = headerSize isServer (h ! 1)"
    unfolding headerSize_def p
    using small
    by (auto simp: h_def frameHeader_def frameLength_def SHORT_MESSAGE_HEADER_def MEDIUM_MESSAGE_HEADER_def
        LONG_MESSAGE_HEADER_def)
  show "headerKey isServer h = (if isServer then store_le 4 key else [0, 0, 0, 0])"
    by (simp add: headerKey_def h_def frameHeader_def le)
  have e: "take (length e) (drop 2 h) = e" by (simp add: h_def frameHeader_def le)
  have s16: "load_le (store_le 2 w) = w" for w :: u16 by (rule load_store_le) simp
  have s64: "load_le (store_le 8 w) = w" for w :: u64 by (rule load_store_le) simp
  consider "n < 126" | "126 \<le> n" "n \<le> 65535" | "65535 < n" by linarith
  then show "headerPayload h = n"
  proof cases
    case 1
    then show ?thesis unfolding headerPayload_def p by (simp add: frameLength_def word_less_nat_alt)
  next
    case 2
    then have e2: "e = store_le 2 (cond_byte_swap (of_nat n :: u16))" "l = 126"
      using le by (simp_all add: frameLength_def)
    then have "take 2 (drop 2 h) = e" using e by simp
    then have "cond_byte_swap (load_le (take 2 (drop 2 h))) = (of_nat n :: u16)"
      using e2 s16 cond_byte_swap_swap [of 2 "of_nat n :: u16"] by simp
    moreover have "unat (of_nat n :: u16) = n" using 2 by (simp add: unat_of_nat take_bit_nat_eq_self)
    ultimately show ?thesis unfolding headerPayload_def p using le e2 by simp
  next
    case 3
    then have e8: "e = store_le 8 (cond_byte_swap (of_nat n :: u64))" "l = 127"
      using le by (simp_all add: frameLength_def)
    then have "take 8 (drop 2 h) = e" using e by simp
    then have "cond_byte_swap (load_le (take 8 (drop 2 h))) = (of_nat n :: u64)"
      using e8 s64 cond_byte_swap_swap [of 8 "of_nat n :: u64"] by simp
    then show ?thesis unfolding headerPayload_def p using le e8 n by simp
  qed
qed

context frame_handler
begin

theorem run_formatted:
  assumes "frame_ok op fin payload" and "length payload \<le> limit" and "ok u None" and "\<not> stopped u"
    and "stack_ok stk" and push: "push ((if fin then 128 else 0) OR op) stk = Some stk'"
  shows "run isServer (Head [] stk u) (frameBytes isServer op fin key payload @ rest) =
    run isServer (lastPiece impl obs payload stk' u) rest"
proof -
  let ?h = "frameHeader isServer op fin key (length payload)"
  let ?key = "if isServer then store_le 4 key else [0, 0, 0, 0]"
  let ?body = "if isServer then xorMask (store_le 4 key) 0 payload else payload"
  let ?X = "?h @ ?body @ rest"
  have op: "op \<in> {0, 1, 2, 8, 9, 10}" using assms(1) by (auto simp: frame_ok_def)
  have n64: "length payload < 2 ^ 64" using assms(2) limit_32 by simp
  note h = frameHeader_facts [OF op n64, of isServer fin key]
  have S: "2 \<le> SHORT_MESSAGE_HEADER isServer" by (simp add: SHORT_MESSAGE_HEADER_def)
  have len: "SHORT_MESSAGE_HEADER isServer \<le> length ?h" unfolding h(3) by (rule headerSize_ge)
  have nth: "?X ! 0 = ?h ! 0" "?X ! 1 = ?h ! 1"
    using len S nth_append [of ?h "?body @ rest" 0] nth_append [of ?h "?body @ rest" 1]
    by (metis less_le_trans zero_less_numeral, metis less_le_trans one_less_numeral_iff semiring_norm(76))
  have b0: "\<not> rsv1 (?h ! 0)" "isFin (?h ! 0) = fin" "getOpCode (?h ! 0) = op" "\<not> rsv23 (?h ! 0)"
    unfolding h(1) using first_byte [OF op] by simp_all
  have small: "\<not> 125 < payloadLength (?h ! 1)" if "length payload \<le> 125"
    unfolding h(2) using that by (simp add: frameLength_def word_less_nat_alt)
  have valid: "\<not> invalidHeader isServer (?h ! 0) (?h ! 1)"
    unfolding invalidHeader_def using b0 h(6) small assms(1) by (cases isServer) (auto simp: frame_ok_def)
  have "run isServer (Head [] stk u) ?X = run isServer (startFrame impl isServer obs ?h stk u) (?body @ rest)"
    using run_header [of isServer ?X stk u] len b0(1) valid unfolding nth
    by (simp add: Let_def h(3) [symmetric] del: One_nat_def)
  also have "startFrame impl isServer obs ?h stk u =
      (if length payload = 0 then lastPiece impl obs [] stk' u else Body (length payload) ?key stk' u)"
    unfolding startFrame_def h(1) push h(4,5) using assms(2) by (simp add: refuse_limit)
  also have "run isServer \<dots> (?body @ rest) = run isServer (lastPiece impl obs payload stk' u) rest"
  proof (cases "payload = []")
    case False
    have fin: "2 < stackOp stk' \<longrightarrow> stackFin stk'"
      using in_frame_fin [OF push_in_frame [OF assms(5) push]] first_byte [OF op, of fin] assms(1)
      by (auto simp: frame_ok_def)
    have "run isServer (Body (length ?body) ?key stk' u) ?body = lastPiece impl obs (xorMask ?key 0 ?body) stk' u"
      using run_last [of u stk' ?body ?key isServer] begin_frame [OF assms(3)] assms(2,4) fin False
      by (cases payload) auto
    moreover have "xorMask ?key 0 ?body = payload" "length ?body = length payload" by simp_all
    ultimately show ?thesis using False by simp
  qed simp
  finally show ?thesis by (simp add: frameBytes_split)
qed

end

end
