(* ===== verification/WebSocketContext.thy ===== *)
theory WebSocketContext
  imports WebSocketStream "HOL-Library.Code_Target_Nat"
begin

text \<open>
  The callbacks of native/uwebsockets/WebSocketContext.h that the frame parser calls:
  reassembly of fragments, decompression, delivery of messages, replies to control frames and
  forced closing. Decompression (zlib, libdeflate) and the application are parameters: what the
  application does in a callback is any function of the events so far.
\<close>

section \<open>The connection\<close>

definition ERR_INVALID_TEXT :: bytes where "ERR_INVALID_TEXT = ascii ''Received invalid UTF-8''"
definition ERR_TOO_BIG_MESSAGE_INFLATION :: bytes where
  "ERR_TOO_BIG_MESSAGE_INFLATION = ascii ''Received too big message, or other inflation error''"

definition CLOSE :: OpCode where "CLOSE = 8"
definition PING :: OpCode where "PING = 9"
definition PONG :: OpCode where "PONG = 10"

datatype CompressionStatus = DISABLED | ENABLED | COMPRESSED_FRAME

text \<open>What the application and the peer can observe, in order.\<close>

datatype event =
    MessageEvent OpCode bytes
  | PingEvent bytes
  | PongEvent bytes
  | CloseEvent nat bytes
  | Send OpCode bytes

text \<open>
  \<open>isClosed\<close> is the closed state of the socket; \<open>inflater\<close> is the state of the decompressor of
  this connection (or of the loop).
\<close>

record 'z connection =
  fragmentBuffer :: bytes
  controlTipLength :: nat
  isShuttingDown :: bool
  isClosed :: bool
  compressionStatus :: CompressionStatus
  inflater :: 'z
  events :: "event list"

datatype reaction = GoOn | CallEnd u16 bytes | CallClose

text \<open>
  The settings of a context. A handler that is null is \<open>None\<close>. \<open>maxPayloadLength\<close> is copied from
  the 32-bit setting of the behavior.
\<close>

record 'z contextData =
  maxPayloadLength :: u32
  messageHandler :: "(event list \<Rightarrow> reaction) option"
  pingHandler :: "(event list \<Rightarrow> reaction) option"
  pongHandler :: "(event list \<Rightarrow> reaction) option"
  inflate :: "'z \<Rightarrow> bytes \<Rightarrow> nat \<Rightarrow> bytes option \<times> 'z"

definition emit :: "event \<Rightarrow> 'z connection \<Rightarrow> 'z connection" where
  "emit e u = u\<lparr>events := events u @ [e]\<rparr>"

text \<open>
  \<open>us_socket_close\<close> and the close handler it runs: the close event is emitted unless \<open>end\<close> did so
  already, and the connection's buffers are destroyed.
\<close>

definition closeSocket :: "bytes \<Rightarrow> 'z connection \<Rightarrow> 'z connection" where
  "closeSocket reason u =
     (if isClosed u then u
      else (if isShuttingDown u then u else (emit (CloseEvent 1006 reason) u)\<lparr>isShuttingDown := True\<rparr>)
             \<lparr>isClosed := True, fragmentBuffer := [], controlTipLength := 0\<rparr>)"

text \<open>\<open>WebSocket::end\<close>: a close frame with at most 123 bytes of reason, then the close event.\<close>

definition endSocket :: "u16 \<Rightarrow> bytes \<Rightarrow> 'z connection \<Rightarrow> 'z connection" where
  "endSocket code message u =
     (if isShuttingDown u then u
      else emit (CloseEvent (unat code) message)
             (emit (Send CLOSE (formatClosePayload code (take 123 message))) (u\<lparr>isShuttingDown := True\<rparr>)))"

definition webSocketClose :: "'z connection \<Rightarrow> 'z connection" where
  "webSocketClose u = (if isClosed u \<or> isShuttingDown u then u else closeSocket [] u)"

definition react :: "reaction \<Rightarrow> 'z connection \<Rightarrow> 'z connection" where
  "react r u =
     (case r of GoOn \<Rightarrow> u | CallEnd code message \<Rightarrow> endSocket code message u | CallClose \<Rightarrow> webSocketClose u)"

definition stopped :: "'z connection \<Rightarrow> bool" where
  "stopped u \<longleftrightarrow> isClosed u \<or> isShuttingDown u"

text \<open>Running a handler of the application: it sees the event, then the connection is checked.\<close>

definition callHandler :: "(event list \<Rightarrow> reaction) option \<Rightarrow> event \<Rightarrow> 'z connection \<Rightarrow> 'z connection \<times> bool" where
  "callHandler handler e u =
     (case handler of
        None \<Rightarrow> (u, False)
      | Some f \<Rightarrow> let u' = react (f (events (emit e u))) (emit e u) in (u', stopped u'))"

section \<open>The callbacks of the parser\<close>

definition refusePayload :: "'z contextData \<Rightarrow> nat \<Rightarrow> bool" where
  "refusePayload ctx n \<longleftrightarrow> unat (maxPayloadLength ctx) < n"

definition setCompressedFrame :: "'z connection \<Rightarrow> 'z connection \<times> bool" where
  "setCompressedFrame u =
     (if compressionStatus u = ENABLED then (u\<lparr>compressionStatus := COMPRESSED_FRAME\<rparr>, True) else (u, False))"

text \<open>Decompression of a complete message, when its frame asked for it.\<close>

definition inflateFrame :: "'z contextData \<Rightarrow> bytes \<Rightarrow> 'z connection \<Rightarrow> bytes option \<times> 'z connection" where
  "inflateFrame ctx data u =
     (if compressionStatus u = COMPRESSED_FRAME
      then (case inflate ctx (inflater u) data (unat (maxPayloadLength ctx)) of
              (inflated, z) \<Rightarrow> (inflated, u\<lparr>compressionStatus := ENABLED, inflater := z\<rparr>))
      else (Some data, u))"

text \<open>A complete message: decompressed, checked, delivered.\<close>

definition deliver :: "'z contextData \<Rightarrow> OpCode \<Rightarrow> bytes \<Rightarrow> 'z connection \<Rightarrow> 'z connection \<times> bool" where
  "deliver ctx op raw u =
     (case inflateFrame ctx raw u of
        (None, u) \<Rightarrow> (closeSocket ERR_TOO_BIG_MESSAGE_INFLATION u, True)
      | (Some data, u) \<Rightarrow>
          if op = 1 \<and> \<not> isValidUtf8 data then (closeSocket ERR_INVALID_TEXT u, True)
          else callHandler (messageHandler ctx) (MessageEvent op data) u)"

definition handleData :: "'z contextData \<Rightarrow> bytes \<Rightarrow> u32 \<Rightarrow> OpCode \<Rightarrow> bool \<Rightarrow> 'z connection \<Rightarrow> 'z connection \<times> bool" where
  "handleData ctx data remaining op fin u =
     (if remaining = 0 \<and> fin \<and> fragmentBuffer u = [] then deliver ctx op data u
      else if refusePayload ctx (length data + length (fragmentBuffer u))
        then (closeSocket ERR_TOO_BIG_MESSAGE u, True)
      else
        (let u = u\<lparr>fragmentBuffer := fragmentBuffer u @ data\<rparr> in
         if remaining = 0 \<and> fin then
           (case deliver ctx op (fragmentBuffer u) u of
              (u, broken) \<Rightarrow> if broken then (u, True) else (u\<lparr>fragmentBuffer := []\<rparr>, False))
         else (u, False)))"

text \<open>A complete control frame.\<close>

definition control :: "'z contextData \<Rightarrow> OpCode \<Rightarrow> bytes \<Rightarrow> 'z connection \<Rightarrow> 'z connection \<times> bool" where
  "control ctx op data u =
     (if op = CLOSE then
        (case parseClosePayload data of cf \<Rightarrow> (endSocket (cf_code cf) (cf_message cf) u, True))
      else if op = PING then callHandler (pingHandler ctx) (PingEvent data) (emit (Send PONG data) u)
      else if op = PONG then callHandler (pongHandler ctx) (PongEvent data) u
      else (u, False))"

definition handleControl :: "'z contextData \<Rightarrow> bytes \<Rightarrow> u32 \<Rightarrow> OpCode \<Rightarrow> bool \<Rightarrow> 'z connection \<Rightarrow> 'z connection \<times> bool" where
  "handleControl ctx data remaining op fin u =
     (if remaining = 0 \<and> fin \<and> controlTipLength u = 0 then control ctx op data u
      else
        (let u = u\<lparr>fragmentBuffer := fragmentBuffer u @ data,
                   controlTipLength := controlTipLength u + length data\<rparr>;
             n = length (fragmentBuffer u) - controlTipLength u in
         if remaining = 0 \<and> fin then
           (case control ctx op (drop n (fragmentBuffer u)) u of
              (u, broken) \<Rightarrow>
                if broken then (u, True)
                else (u\<lparr>fragmentBuffer := take n (fragmentBuffer u), controlTipLength := 0\<rparr>, False))
         else (u, False)))"

definition handleFrame :: "'z contextData \<Rightarrow> 'z connection \<Rightarrow> bytes \<Rightarrow> u32 \<Rightarrow> OpCode \<Rightarrow> bool \<Rightarrow> 'z connection \<times> bool" where
  "handleFrame ctx u data remaining op fin =
     (if op < 3 then handleData ctx data remaining op fin u else handleControl ctx data remaining op fin u)"

definition contextImpl :: "'z contextData \<Rightarrow> 'z connection Impl" where
  "contextImpl ctx =
     \<lparr>refusePayloadLength = (\<lambda>u n. refusePayload ctx n), setCompressed = setCompressedFrame,
      forceClose = (\<lambda>u reason. closeSocket reason u), handleFragment = handleFrame ctx\<rparr>"

section \<open>The callbacks meet the parser's interface\<close>

definition observe :: "'z connection \<Rightarrow> event list \<times> bool \<times> bool" where
  "observe u = (events u, isClosed u, isShuttingDown u)"

fun conn_ok :: "'z contextData \<Rightarrow> 'z connection \<Rightarrow> OpCode option \<Rightarrow> bool" where
  "conn_ok ctx u None \<longleftrightarrow> controlTipLength u = 0 \<and> length (fragmentBuffer u) \<le> unat (maxPayloadLength ctx)"
| "conn_ok ctx u (Some op) \<longleftrightarrow>
     (if op < 3 then controlTipLength u = 0 \<and> length (fragmentBuffer u) \<le> unat (maxPayloadLength ctx)
      else controlTipLength u \<le> length (fragmentBuffer u) \<and>
           length (fragmentBuffer u) - controlTipLength u \<le> unat (maxPayloadLength ctx))"


lemmas conn_defs = emit_def closeSocket_def endSocket_def webSocketClose_def react_def stopped_def
  callHandler_def observe_def

lemma closeSocket_stopped [simp]: "stopped (closeSocket reason u)"
  by (simp add: conn_defs)

lemma endSocket_stopped [simp]: "stopped (endSocket code message u)"
  by (simp add: conn_defs)

lemma observe_closeSocket_cong:
  "observe u = observe v \<Longrightarrow> observe (closeSocket reason u) = observe (closeSocket reason v)"
  by (auto simp: conn_defs)

abbreviation withBuffer :: "bytes \<Rightarrow> nat \<Rightarrow> 'z connection \<Rightarrow> 'z connection" where
  "withBuffer b t u \<equiv> u\<lparr>fragmentBuffer := b, controlTipLength := t\<rparr>"

text \<open>What happens to a complete message does not depend on the reassembly buffers.\<close>

definition buffer_free :: "('z connection \<Rightarrow> 'z connection \<times> bool) \<Rightarrow> bool" where
  "buffer_free f \<longleftrightarrow>
     (\<forall>u u1 br. \<not> stopped u \<longrightarrow> f u = (u1, br) \<longrightarrow>
        br = stopped u1 \<and>
        (\<not> br \<longrightarrow> fragmentBuffer u1 = fragmentBuffer u \<and> controlTipLength u1 = controlTipLength u) \<and>
        (\<forall>b t. \<exists>v. f (withBuffer b t u) = (v, br) \<and> observe v = observe u1 \<and>
               (\<not> br \<longrightarrow> v = withBuffer b t u1)))"

lemma buffer_freeD:
  assumes "buffer_free f" and "\<not> stopped u" and "f u = (u1, br)"
  shows "br = stopped u1"
    and "\<not> br \<Longrightarrow> fragmentBuffer u1 = fragmentBuffer u" "\<not> br \<Longrightarrow> controlTipLength u1 = controlTipLength u"
    and "\<exists>v. f (withBuffer b t u) = (v, br) \<and> observe v = observe u1 \<and> (\<not> br \<longrightarrow> v = withBuffer b t u1)"
  using assms unfolding buffer_free_def by blast+

lemma callHandler_free: "buffer_free (callHandler h e)"
  unfolding buffer_free_def
  by (auto simp: conn_defs Let_def split: option.splits reaction.splits)

lemma callHandler_emit_free: "buffer_free (\<lambda>u. callHandler h e (emit e' u))"
  unfolding buffer_free_def
  by (auto simp: conn_defs Let_def split: option.splits reaction.splits)

lemma deliver_free: "buffer_free (deliver ctx op data)"
  unfolding buffer_free_def
proof (intro allI impI)
  fix u u1 :: "'a connection" and br
  assume u: "\<not> stopped u" and d: "deliver ctx op data u = (u1, br)"
  obtain r u0 where i: "inflateFrame ctx data u = (r, u0)" by fastforce
  have u0: "\<not> stopped u0" "fragmentBuffer u0 = fragmentBuffer u" "controlTipLength u0 = controlTipLength u"
    and i': "inflateFrame ctx data (withBuffer b t u) = (r, withBuffer b t u0)" for b t
    using i u by (auto simp: inflateFrame_def stopped_def split: if_splits prod.splits)
  have close: "observe (closeSocket reason (withBuffer b t u0)) = observe (closeSocket reason u0)" for reason b t
    by (rule observe_closeSocket_cong) (simp add: observe_def)
  show "br = stopped u1 \<and>
      (\<not> br \<longrightarrow> fragmentBuffer u1 = fragmentBuffer u \<and> controlTipLength u1 = controlTipLength u) \<and>
      (\<forall>b t. \<exists>v. deliver ctx op data (withBuffer b t u) = (v, br) \<and> observe v = observe u1 \<and>
             (\<not> br \<longrightarrow> v = withBuffer b t u1))"
  proof (cases r)
    case None
    then show ?thesis using d i i' close by (auto simp: deliver_def)
  next
    case (Some x)
    show ?thesis
    proof (cases "op = 1 \<and> \<not> isValidUtf8 x")
      case True
      then show ?thesis using d i i' close Some by (auto simp: deliver_def)
    next
      case False
      then have c: "callHandler (messageHandler ctx) (MessageEvent op x) u0 = (u1, br)"
        "deliver ctx op data (withBuffer b t u) = callHandler (messageHandler ctx) (MessageEvent op x) (withBuffer b t u0)" for b t
        using d i i' Some by (auto simp: deliver_def)
      show ?thesis
        unfolding c(2) using buffer_freeD [OF callHandler_free u0(1) c(1)] u0(2,3) by auto
    qed
  qed
qed

lemma control_free: "buffer_free (control ctx op data)"
proof -
  have close: "buffer_free (\<lambda>u :: 'a connection. (endSocket code message u, True))" for code message
    unfolding buffer_free_def by (auto simp: conn_defs)
  have none: "buffer_free (\<lambda>u :: 'a connection. (u, False))"
    unfolding buffer_free_def by (auto simp: observe_def)
  have "control ctx op data =
      (if op = CLOSE then (\<lambda>u. (endSocket (cf_code (parseClosePayload data)) (cf_message (parseClosePayload data)) u, True))
       else if op = PING then (\<lambda>u. callHandler (pingHandler ctx) (PingEvent data) (emit (Send PONG data) u))
       else if op = PONG then callHandler (pongHandler ctx) (PongEvent data)
       else (\<lambda>u. (u, False)))"
    by (simp add: control_def fun_eq_iff)
  then show ?thesis by (simp add: close none callHandler_free callHandler_emit_free)
qed

lemma callHandler_broken: "callHandler h e u = (u', True) \<Longrightarrow> stopped u'"
  by (auto simp: callHandler_def Let_def split: option.splits)

lemma deliver_broken: "deliver ctx op data u = (u', True) \<Longrightarrow> stopped u'"
  by (auto simp: deliver_def dest: callHandler_broken split: option.splits if_splits prod.splits)

lemma control_broken: "control ctx op data u = (u', True) \<Longrightarrow> stopped u'"
  by (auto simp: control_def dest: callHandler_broken split: if_splits)

lemma handleFrame_broken: "handleFrame ctx u d r op fin = (u', True) \<Longrightarrow> stopped u'"
  by (auto simp: handleFrame_def handleData_def handleControl_def Let_def
      dest: deliver_broken control_broken split: if_splits prod.splits)

lemma stopped_withBuffer [simp]:
  "stopped (withBuffer b t u) = stopped u" "stopped (u\<lparr>fragmentBuffer := b\<rparr>) = stopped u"
  by (simp_all add: stopped_def)

lemma handleData_piece:
  assumes "r \<noteq> 0"
  shows "handleData ctx d r op fin u =
    (if refusePayload ctx (length d + length (fragmentBuffer u)) then (closeSocket ERR_TOO_BIG_MESSAGE u, True)
     else (u\<lparr>fragmentBuffer := fragmentBuffer u @ d\<rparr>, False))"
  using assms by (simp add: handleData_def)

lemma handleControl_piece:
  assumes "r \<noteq> 0"
  shows "handleControl ctx d r op fin u =
    (withBuffer (fragmentBuffer u @ d) (controlTipLength u + length d) u, False)"
  using assms by (simp add: handleControl_def)

lemma piece_keeps_ok:
  assumes "conn_ok ctx u (Some op)" and "\<not> stopped u" and "r \<noteq> 0"
    and "handleFrame ctx u d r op fin = (u', False)"
  shows "conn_ok ctx u' (Some op) \<and> \<not> stopped u'"
  using assms(1,2,4)
  by (auto simp: handleFrame_def handleData_piece [OF assms(3)] handleControl_piece [OF assms(3)]
      refusePayload_def split: if_splits)

lemma last_keeps_ok:
  assumes "conn_ok ctx u (Some op)" and "\<not> stopped u" and "2 < op \<longrightarrow> fin"
    and "handleFrame ctx u d 0 op fin = (u', False)"
  shows "conn_ok ctx u' None \<and> \<not> stopped u'"
proof (cases "op < 3")
  case True
  let ?u = "u\<lparr>fragmentBuffer := fragmentBuffer u @ d\<rparr>"
  have hd: "handleData ctx d 0 op fin u = (u', False)" using assms(4) True by (simp add: handleFrame_def)
  consider (fast) "fin" "fragmentBuffer u = []" "deliver ctx op d u = (u', False)"
    | (last) v where "fin" "deliver ctx op (fragmentBuffer ?u) ?u = (v, False)" "u' = v\<lparr>fragmentBuffer := []\<rparr>"
    | (part) "\<not> fin" "u' = ?u" "\<not> refusePayload ctx (length d + length (fragmentBuffer u))"
    using hd unfolding handleData_def Let_def by (auto split: if_splits prod.splits)
  then show ?thesis
  proof cases
    case fast
    then show ?thesis using buffer_freeD(1-3) [OF deliver_free assms(2) fast(3)] assms(1) True by simp
  next
    case last
    have "\<not> stopped ?u" using assms(2) by simp
    then show ?thesis using buffer_freeD(1-3) [OF deliver_free _ last(2)] last(3) assms(1) True by simp
  next
    case part
    then show ?thesis using assms(1,2) True by (simp add: refusePayload_def)
  qed
next
  case False
  then have fin: "fin" using assms(3) by (simp add: word_less_nat_alt)
  let ?u = "withBuffer (fragmentBuffer u @ d) (controlTipLength u + length d) u"
  let ?n = "length (fragmentBuffer ?u) - controlTipLength ?u"
  have hc: "handleControl ctx d 0 op fin u = (u', False)" using assms(4) False by (simp add: handleFrame_def)
  consider (fast) "controlTipLength u = 0" "control ctx op d u = (u', False)"
    | (last) v where "control ctx op (drop ?n (fragmentBuffer ?u)) ?u = (v, False)"
        "u' = v\<lparr>fragmentBuffer := take ?n (fragmentBuffer v), controlTipLength := 0\<rparr>"
    using hc fin unfolding handleControl_def Let_def by (auto split: if_splits prod.splits)
  then show ?thesis
  proof cases
    case fast
    then show ?thesis using buffer_freeD(1-3) [OF control_free assms(2) fast(2)] assms(1) False by simp
  next
    case last
    have "\<not> stopped ?u" using assms(2) by simp
    then show ?thesis using buffer_freeD(1-3) [OF control_free _ last(1)] last(2) assms(1) False by simp
  qed
qed

lemma sameResult_refl [simp]: "sameResult obs p p"
  by (simp add: sameResult_def)

lemma split_data:
  assumes ok: "controlTipLength u = 0" "length (fragmentBuffer u) \<le> unat (maxPayloadLength ctx)"
    and live: "\<not> stopped u" and xs: "xs \<noteq> []" and total: "length xs + length ys \<le> unat (maxPayloadLength ctx)"
    and first: "handleData ctx xs r' op fin u = (u1, broken)" and r': "r' \<noteq> 0"
  shows "sameResult observe (handleData ctx (xs @ ys) r op fin u)
    (if broken then (u1, True) else handleData ctx ys r op fin u1)"
proof -
  let ?b = "fragmentBuffer u"
  have big: "refusePayload ctx (length xs + length ?b) \<Longrightarrow> refusePayload ctx (length (xs @ ys) + length ?b)"
    and small: "?b = [] \<Longrightarrow> \<not> refusePayload ctx (length (xs @ ys) + length ?b)"
    using total by (simp_all add: refusePayload_def)
  show ?thesis
  proof (cases "refusePayload ctx (length xs + length ?b)")
    case True
    then have "?b \<noteq> []" using big small by blast
    then show ?thesis
      using True big first by (simp add: handleData_piece [OF r'] handleData_def sameResult_def)
  next
    case False
    then have u1: "u1 = u\<lparr>fragmentBuffer := ?b @ xs\<rparr>" "\<not> broken"
      using first by (simp_all add: handleData_piece [OF r'])
    let ?u2 = "u\<lparr>fragmentBuffer := ?b @ xs @ ys\<rparr>"
    have second: "handleData ctx ys r op fin u1 =
        (if refusePayload ctx (length (xs @ ys) + length ?b) then (closeSocket ERR_TOO_BIG_MESSAGE u1, True)
         else if r = 0 \<and> fin then
           (case deliver ctx op (?b @ xs @ ys) ?u2 of
              (v, br) \<Rightarrow> if br then (v, True) else (v\<lparr>fragmentBuffer := []\<rparr>, False))
         else (?u2, False))"
      using xs by (simp add: u1 handleData_def Let_def add_ac)
    have whole: "handleData ctx (xs @ ys) r op fin u =
        (if r = 0 \<and> fin \<and> ?b = [] then deliver ctx op (xs @ ys) u
         else if refusePayload ctx (length (xs @ ys) + length ?b) then (closeSocket ERR_TOO_BIG_MESSAGE u, True)
         else if r = 0 \<and> fin then
           (case deliver ctx op (?b @ xs @ ys) ?u2 of
              (v, br) \<Rightarrow> if br then (v, True) else (v\<lparr>fragmentBuffer := []\<rparr>, False))
         else (?u2, False))"
      by (simp add: handleData_def Let_def)
    have obs: "observe (closeSocket ERR_TOO_BIG_MESSAGE u) = observe (closeSocket ERR_TOO_BIG_MESSAGE u1)"
      by (rule observe_closeSocket_cong) (simp add: u1 observe_def)
    show ?thesis
    proof (cases "r = 0 \<and> fin \<and> ?b = []")
      case True
      obtain v br where v: "deliver ctx op (xs @ ys) u = (v, br)" by fastforce
      obtain v' where v': "deliver ctx op (xs @ ys) (withBuffer (xs @ ys) 0 u) = (v', br)" "observe v' = observe v"
        "\<not> br \<longrightarrow> v' = withBuffer (xs @ ys) 0 v"
        using buffer_freeD(4) [OF deliver_free live v] by blast
      have "?u2 = withBuffer (xs @ ys) 0 u" using True ok by (cases u) simp
      moreover have "\<not> br \<Longrightarrow> (withBuffer (xs @ ys) 0 v)\<lparr>fragmentBuffer := []\<rparr> = v"
        using buffer_freeD(2,3) [OF deliver_free live v] True ok by (cases v) simp
      ultimately show ?thesis
        using True small v v' u1(2) whole second by (cases br) (simp_all add: sameResult_def)
    next
      case False
      show ?thesis
      proof (cases "refusePayload ctx (length (xs @ ys) + length ?b)")
        case True
        then show ?thesis using False whole second u1(2) obs by (auto simp: sameResult_def)
      next
        case fits: False
        then have "handleData ctx (xs @ ys) r op fin u = handleData ctx ys r op fin u1"
          unfolding whole second using False by (simp only: if_False simp_thms)
        then show ?thesis using u1(2) by simp
      qed
    qed
  qed
qed

lemma split_control:
  assumes ok: "controlTipLength u \<le> length (fragmentBuffer u)"
    and live: "\<not> stopped u" and xs: "xs \<noteq> []"
    and first: "handleControl ctx xs r' op fin u = (u1, broken)" and r': "r' \<noteq> 0"
  shows "sameResult observe (handleControl ctx (xs @ ys) r op fin u)
    (if broken then (u1, True) else handleControl ctx ys r op fin u1)"
proof -
  let ?b = "fragmentBuffer u" and ?t = "controlTipLength u"
  let ?n = "length ?b - ?t"
  let ?u2 = "withBuffer (?b @ xs @ ys) (?t + length xs + length ys) u"
  have u1: "u1 = withBuffer (?b @ xs) (?t + length xs) u" "\<not> broken"
    using first by (simp_all add: handleControl_piece [OF r'])
  define tip where "tip = drop ?n ?b @ xs @ ys"
  obtain w wb where w: "control ctx op tip ?u2 = (w, wb)" by fastforce
  define rest where "rest =
      (if wb then (w, True) else (w\<lparr>fragmentBuffer := take ?n (fragmentBuffer w), controlTipLength := 0\<rparr>, False))"
  have n: "length ?b + (length xs + length ys) - (?t + length xs + length ys) = ?n"
    "length ?b + (length xs + length ys) - (?t + (length xs + length ys)) = ?n"
    "drop ?n (?b @ xs @ ys) = tip"
    using ok by (simp_all add: tip_def)
  have second: "handleControl ctx ys r op fin u1 = (if r = 0 \<and> fin then rest else (?u2, False))"
    using xs n w by (simp add: u1 handleControl_def Let_def rest_def)
  have whole: "handleControl ctx (xs @ ys) r op fin u =
      (if r = 0 \<and> fin \<and> ?t = 0 then control ctx op (xs @ ys) u
       else if r = 0 \<and> fin then rest else (?u2, False))"
    using n w by (simp add: handleControl_def Let_def rest_def add.assoc)
  show ?thesis
  proof (cases "r = 0 \<and> fin \<and> ?t = 0")
    case True
    obtain v br where v: "control ctx op (xs @ ys) u = (v, br)" by fastforce
    obtain v' where v': "control ctx op (xs @ ys) ?u2 = (v', br)" "observe v' = observe v"
      "\<not> br \<longrightarrow> v' = withBuffer (?b @ xs @ ys) (?t + length xs + length ys) v"
      using buffer_freeD(4) [OF control_free live v] by blast
    have "tip = xs @ ys" using True by (simp add: tip_def)
    then have "w = v'" "wb = br" using w v'(1) by simp_all
    moreover have "\<not> br \<Longrightarrow> withBuffer ?b 0 v = v"
      using buffer_freeD(2,3) [OF control_free live v] True by (cases v) simp
    ultimately show ?thesis
      using True v v' u1(2) whole second by (cases br) (simp_all add: sameResult_def rest_def)
  next
    case False
    then show ?thesis using whole second u1(2) by (auto simp: sameResult_def)
  qed
qed

lemma contextImpl_handle [simp]: "handleFragment (contextImpl ctx) = handleFrame ctx"
  by (simp add: contextImpl_def)

interpretation ws_context: frame_handler "contextImpl ctx" stopped observe "conn_ok ctx" "unat (maxPayloadLength ctx)"
  for ctx :: "'z contextData"
proof (unfold_locales, goal_cases)
  case (1 u reason)
  then show ?case by (simp add: contextImpl_def)
next
  case (2 u u' accepted)
  then show ?case by (auto simp: contextImpl_def setCompressedFrame_def stopped_def split: if_splits)
next
  case (3 u op)
  then show ?case by simp
next
  case (4 u n)
  then show ?case by (simp add: contextImpl_def refusePayload_def)
next
  case 5
  then show ?case using unsigned_less [of "maxPayloadLength ctx", where 'a=nat] by simp
next
  case (6 u d r op fin u')
  then show ?case using handleFrame_broken by fastforce
next
  case (7 u op r d fin u')
  from 7(4) have "handleFrame ctx u d r op fin = (u', False)" by simp
  from piece_keeps_ok [OF 7(1-3) this] show ?case .
next
  case (8 u op fin d u')
  from 8(4) have "handleFrame ctx u d 0 op fin = (u', False)" by simp
  from last_keeps_ok [OF 8(1-3) this] show ?case .
next
  case (9 u op r fin)
  then show ?case
    by (cases "op < 3")
       (auto simp: contextImpl_def handleFrame_def handleData_piece handleControl_piece refusePayload_def)
next
  case (10 u op xs ys r fin u1 broken)
  let ?r = "r + of_nat (length ys)"
  have "unat ?r = unat r + length ys"
    using 10(5) unsigned_less [of "maxPayloadLength ctx", where 'a=nat]
    by (simp add: unat_word_ariths)
  then have r': "?r \<noteq> 0" using 10(4) by (auto simp: word_unat_eq_iff)
  show ?case
  proof (cases "op < 3")
    case True
    then show ?thesis
      using split_data [of u ctx xs ys ?r op fin u1 broken r] 10 r' by (auto simp: handleFrame_def)
  next
    case False
    then show ?thesis
      using split_control [of u xs ctx ?r op fin u1 broken ys r] 10 r' by (auto simp: handleFrame_def)
  qed
qed


section \<open>A connection and its stream\<close>

definition freshConnection :: "bool \<Rightarrow> 'z \<Rightarrow> 'z connection" where
  "freshConnection perMessageDeflate z =
     \<lparr>fragmentBuffer = [], controlTipLength = 0, isShuttingDown = False, isClosed = False,
      compressionStatus = (if perMessageDeflate then ENABLED else DISABLED), inflater = z, events = []\<rparr>"

text \<open>
  The segments of a stream, each between two paddings of 32 bytes of arbitrary content, handed to
  a new connection.
\<close>

definition paddings :: "(bytes \<Rightarrow> bytes \<times> bytes) \<Rightarrow> bytes \<Rightarrow> bytes \<times> bytes" where
  "paddings junk seg =
     (take LIBUS_RECV_BUFFER_PADDING (fst (junk seg) @ replicate LIBUS_RECV_BUFFER_PADDING 0),
      take LIBUS_RECV_BUFFER_PADDING (snd (junk seg) @ replicate LIBUS_RECV_BUFFER_PADDING 0))"

definition receive ::
  "'z contextData \<Rightarrow> bool \<Rightarrow> (bytes \<Rightarrow> bytes \<times> bytes) \<Rightarrow> 'z connection \<Rightarrow> bytes list \<Rightarrow> 'z connection option" where
  "receive ctx isServer junk u segs =
     map_option (\<lambda>r. snd (fst r))
       (feed_all (feedSegment (contextImpl ctx) stopped isServer (paddings junk)) (initState isServer, u) segs)"

abbreviation segments_ok :: "bytes list \<Rightarrow> bool" where
  "segments_ok segs \<equiv> list_all (\<lambda>seg. length seg \<le> LIBUS_RECV_BUFFER_LENGTH) segs"

abbreviation ctx_run :: "'z contextData \<Rightarrow> bool \<Rightarrow> ('z connection, event list \<times> bool \<times> bool) machine \<Rightarrow> bytes \<Rightarrow>
    ('z connection, event list \<times> bool \<times> bool) machine" where
  "ctx_run ctx isServer \<equiv> ws_run (contextImpl ctx) isServer observe"

abbreviation startState :: "'z connection \<Rightarrow> ('z connection, event list \<times> bool \<times> bool) machine" where
  "startState u \<equiv> Head [] (-1, [0, 0], True) u"

interpretation ws_stream: frame_stream "contextImpl ctx" stopped observe "conn_ok ctx" "unat (maxPayloadLength ctx)"
  isServer "paddings junk"
  for ctx :: "'z contextData" and isServer junk
  by unfold_locales (simp_all add: paddings_def LIBUS_RECV_BUFFER_PADDING_def)

lemma fresh_ok [simp]:
  "conn_ok ctx (freshConnection pmd z) None" "\<not> stopped (freshConnection pmd z)"
  "compressionStatus (freshConnection False z) = DISABLED" "events (freshConnection pmd z) = []"
  "fragmentBuffer (freshConnection pmd z) = []" "controlTipLength (freshConnection pmd z) = 0"
  by (simp_all add: freshConnection_def stopped_def)

text \<open>Without compression the machine never gives up.\<close>

fun uncompressed :: "('z connection, 'x) machine \<Rightarrow> bool" where
  "uncompressed (Head h stk u) \<longleftrightarrow> compressionStatus u = DISABLED"
| "uncompressed (Body r key stk u) \<longleftrightarrow> compressionStatus u = DISABLED"
| "uncompressed (Stopped x) \<longleftrightarrow> True"
| "uncompressed Outside \<longleftrightarrow> False"

lemma callHandler_status [simp]:
  "callHandler h e u = (u', br) \<Longrightarrow> compressionStatus u' = compressionStatus u"
  by (auto simp: conn_defs Let_def split: option.splits reaction.splits if_splits)

lemma deliver_DISABLED:
  assumes "deliver ctx op data u = (u', br)" and "compressionStatus u = DISABLED"
  shows "compressionStatus u' = DISABLED"
proof -
  have "inflateFrame ctx data u = (Some data, u)" using assms(2) by (simp add: inflateFrame_def)
  then show ?thesis using assms callHandler_status [of _ _ u u' br]
    by (auto simp: deliver_def conn_defs split: if_splits)
qed

lemma control_status: "control ctx op data u = (u', br) \<Longrightarrow> compressionStatus u' = compressionStatus u"
  using callHandler_status [of _ _ u u' br] callHandler_status [of _ _ "emit e u" u' br for e]
  by (auto simp: control_def emit_def endSocket_def split: if_splits)

lemma handleFrame_DISABLED:
  "handleFrame ctx u d r op fin = (u', br) \<Longrightarrow> compressionStatus u = DISABLED \<Longrightarrow> compressionStatus u' = DISABLED"
  by (auto simp: handleFrame_def handleData_def handleControl_def Let_def closeSocket_def emit_def
      split: if_splits prod.splits dest: deliver_DISABLED control_status)

lemma lastPiece_uncompressed:
  "compressionStatus u = DISABLED \<Longrightarrow> uncompressed (lastPiece (contextImpl ctx) observe d stk u)"
  by (auto simp: lastPiece_def split: prod.splits dest: handleFrame_DISABLED)

lemma setCompressed_DISABLED [simp]:
  "compressionStatus u = DISABLED \<Longrightarrow> setCompressed (contextImpl ctx) u = (u, False)"
  by (simp add: contextImpl_def setCompressedFrame_def)

lemma ws_step_uncompressed:
  "uncompressed s \<Longrightarrow> uncompressed (ws_step (contextImpl ctx) isServer observe s b)"
  by (cases s) (auto simp: headStep_def startFrame_def closeWith_def lastPiece_uncompressed
      split: option.splits prod.splits if_splits dest: handleFrame_DISABLED)

lemma ctx_run_uncompressed: "uncompressed s \<Longrightarrow> uncompressed (ctx_run ctx isServer s bs)"
  by (induction bs arbitrary: s) (simp_all add: ws_step_uncompressed)

lemma ctx_run_inside:
  assumes "compressionStatus u = DISABLED"
  shows "ctx_run ctx isServer (startState u) bs \<noteq> Outside"
  using ctx_run_uncompressed [of "startState u" ctx isServer bs] assms by auto

lemma receive_run:
  assumes "segments_ok segs"
    and "ctx_run ctx isServer (startState (freshConnection pmd z)) (concat segs) \<noteq> Outside"
  shows "\<exists>u. receive ctx isServer junk (freshConnection pmd z) segs = Some u \<and>
    observed observe (ctx_run ctx isServer (startState (freshConnection pmd z)) (concat segs)) = Some (observe u)"
  using ws_stream.feed_observed [of segs ctx "freshConnection pmd z" isServer junk] assms
  by (fastforce simp: receive_def list_all_iff)

text \<open>
  C22. For every stream cut into segments in any way, with any bytes around each segment in the
  receive buffer, compressed or not, valid or not, the frame parser never accesses memory outside
  the receive buffer and its paddings, the spill area of its state or the two-entry opcode stack,
  and always returns.
\<close>

theorem websocket_memory_safe:
  assumes "segments_ok segs"
  shows "receive ctx isServer junk (freshConnection pmd z) segs \<noteq> None"
proof -
  have "ws_context.safe_state ctx isServer (initState isServer, freshConnection pmd z)"
    by (rule ws_context.rel_safe [OF ws_stream.rel_init]) simp_all
  then show ?thesis
    using ws_stream.feed_safe [of segs ctx isServer _ junk] assms by (fastforce simp: receive_def list_all_iff)
qed

text \<open>
  C4. The parser refines the byte-at-a-time machine: on a connection without compression for every
  stream and every cut into segments, the events, the closed flag and the shutdown flag of the
  connection are the machine's. On a connection with compression this holds as long as no frame with
  the compression bit has an extended length (the machine is then not \<open>Outside\<close>): what the code does
  with such a frame depends on the cut, and \<open>split_compressed_header_closes\<close> is a valid one that it
  refuses.
\<close>

theorem websocket_refines_machine:
  assumes "segments_ok segs"
    and "pmd \<Longrightarrow> ctx_run ctx isServer (startState (freshConnection pmd z)) (concat segs) \<noteq> Outside"
  shows "\<exists>u. receive ctx isServer junk (freshConnection pmd z) segs = Some u \<and>
    observed observe (ctx_run ctx isServer (startState (freshConnection pmd z)) (concat segs)) = Some (observe u)"
proof (rule receive_run [OF assms(1)])
  show "ctx_run ctx isServer (startState (freshConnection pmd z)) (concat segs) \<noteq> Outside"
    using assms(2) by (cases pmd) (simp_all add: ctx_run_inside)
qed

text \<open>
  C23. On a connection without compression, what the application and the peer see does not depend
  on how the stream was cut into segments, nor on the bytes around them, for any application and
  any stream, valid or not.
\<close>

theorem websocket_segmentation_independent:
  assumes "segments_ok segs" and "segments_ok segs'" and "concat segs = concat segs'"
  shows "map_option observe (receive ctx isServer junk (freshConnection False z) segs) =
    map_option observe (receive ctx isServer junk' (freshConnection False z) segs')"
proof -
  let ?run = "ctx_run ctx isServer (startState (freshConnection False z)) (concat segs)"
  have inside: "?run \<noteq> Outside" by (rule ctx_run_inside) simp
  from receive_run [OF assms(1) this, of junk] obtain u where
    u: "receive ctx isServer junk (freshConnection False z) segs = Some u" "observed observe ?run = Some (observe u)"
    by blast
  from receive_run [OF assms(2) inside [unfolded assms(3)], of junk'] obtain v where
    "receive ctx isServer junk' (freshConnection False z) segs' = Some v" "observed observe ?run = Some (observe v)"
    unfolding assms(3) by blast
  with u show ?thesis by simp
qed


section \<open>Messages sent and received\<close>

text \<open>
  A message as a conforming sender puts it on the wire: its fragments, each with its masking key
  and preceded by any number of pings. \<open>isServer\<close> is the role of the receiver.
\<close>

type_synonym ping = "u32 \<times> bytes"
type_synonym fragment = "ping list \<times> u32 \<times> bytes"

fun pingBytes :: "bool \<Rightarrow> ping list \<Rightarrow> bytes" where
  "pingBytes isServer [] = []"
| "pingBytes isServer ((k, d) # ps) = frameBytes isServer PING True k d @ pingBytes isServer ps"

fun fragmentBytes :: "bool \<Rightarrow> OpCode \<Rightarrow> fragment list \<Rightarrow> bytes" where
  "fragmentBytes isServer op [] = []"
| "fragmentBytes isServer op ((ps, k, d) # fs) =
     pingBytes isServer ps @ frameBytes isServer op (fs = []) k d @ fragmentBytes isServer 0 fs"

fun pingEvents :: "ping list \<Rightarrow> event list" where
  "pingEvents [] = []"
| "pingEvents ((k, d) # ps) = Send PONG d # PingEvent d # pingEvents ps"

definition messageData :: "fragment list \<Rightarrow> bytes" where
  "messageData fs = concat (map (\<lambda>f. snd (snd f)) fs)"

definition messageEvents :: "OpCode \<times> fragment list \<Rightarrow> event list" where
  "messageEvents = (\<lambda>(op, fs). concat (map (\<lambda>f. pingEvents (fst f)) fs) @ [MessageEvent op (messageData fs)])"

definition messageBytes :: "bool \<Rightarrow> OpCode \<times> fragment list \<Rightarrow> bytes" where
  "messageBytes isServer = (\<lambda>(op, fs). fragmentBytes isServer op fs)"

definition message_ok :: "nat \<Rightarrow> OpCode \<times> fragment list \<Rightarrow> bool" where
  "message_ok limit = (\<lambda>(op, fs).
     (op = 1 \<and> isValidUtf8 (messageData fs) \<or> op = 2) \<and> fs \<noteq> [] \<and> length (messageData fs) \<le> limit \<and>
     list_all (\<lambda>(ps, k, d). list_all (\<lambda>(k, p). length p \<le> 125) ps) fs)"

text \<open>An application that never ends the connection from its handlers.\<close>

definition quiet :: "'z contextData \<Rightarrow> bool" where
  "quiet ctx \<longleftrightarrow>
     messageHandler ctx = Some (\<lambda>es. GoOn) \<and> pingHandler ctx = Some (\<lambda>es. GoOn) \<and>
     125 \<le> unat (maxPayloadLength ctx)"

lemma callHandler_GoOn [simp]:
  "\<not> stopped u \<Longrightarrow> callHandler (Some (\<lambda>es. GoOn)) e u = (emit e u, False)"
  by (simp add: callHandler_def react_def emit_def stopped_def)

definition emits :: "event list \<Rightarrow> 'z connection \<Rightarrow> 'z connection" where
  "emits es u = u\<lparr>events := events u @ es\<rparr>"

lemma emits_simps [simp]:
  "emits [] u = u" "emits es (emits es' u) = emits (es' @ es) u" "emit e u = emits [e] u"
  "stopped (emits es u) = stopped u" "fragmentBuffer (emits es u) = fragmentBuffer u"
  "controlTipLength (emits es u) = controlTipLength u" "compressionStatus (emits es u) = compressionStatus u"
  "events (emits es u) = events u @ es" "conn_ok ctx (emits es u) o' = conn_ok ctx u o'"
  "(emits es u)\<lparr>fragmentBuffer := b\<rparr> = emits es (u\<lparr>fragmentBuffer := b\<rparr>)"
  by (simp_all add: emits_def emit_def stopped_def, cases o', simp_all)

definition pushed :: "stack \<Rightarrow> stack" where
  "pushed = (\<lambda>(depth, ops, fin). (depth, ops[nat (depth + 1) := PING], True))"

lemma run_ping:
  assumes "quiet ctx" and "conn_ok ctx u None" and "\<not> stopped u" and "length d \<le> 125"
    and "stk = (depth, ops, fin)" "depth = -1 \<or> depth = 0 \<and> ops ! 0 \<le> 2" "length ops = 2"
  shows "ctx_run ctx isServer (Head [] stk u) (frameBytes isServer PING True k d @ rest) =
    ctx_run ctx isServer (Head [] (pushed stk) (emits [Send PONG d, PingEvent d] u)) rest"
proof -
  let ?stk = "(depth + 1, ops[nat (depth + 1) := PING], True)"
  have ok: "frame_ok PING True d" "length d \<le> unat (maxPayloadLength ctx)" "ws_context.stack_ok stk"
    using assms by (auto simp: frame_ok_def quiet_def PING_def ws_context.stack_ok_def)
  have "push ((if True then 128 else 0) OR PING) stk = Some ?stk"
    using assms(5,6) by (auto simp: push_def PING_def getOpCode_def isFin_def)
  from ws_context.run_formatted [OF ok(1,2) assms(2,3) ok(3) this]
  have "ctx_run ctx isServer (Head [] stk u) (frameBytes isServer PING True k d @ rest) =
      ctx_run ctx isServer (lastPiece (contextImpl ctx) observe d ?stk u) rest" .
  also have "lastPiece (contextImpl ctx) observe d ?stk u = Head [] (pushed stk) (emits [Send PONG d, PingEvent d] u)"
    using assms by (auto simp: lastPiece_def handleFrame_def handleControl_def control_def quiet_def
        stackOp_def stackFin_def pop_def pushed_def PING_def CLOSE_def)
  finally show ?thesis .
qed

lemma run_pings:
  assumes "quiet ctx" and "conn_ok ctx u None" and "\<not> stopped u" and "list_all (\<lambda>(k, p). length p \<le> 125) ps"
    and "stk = (depth, ops, fin)" "depth = -1 \<or> depth = 0 \<and> ops ! 0 \<le> 2" "length ops = 2"
  shows "\<exists>ops' fin'. ctx_run ctx isServer (Head [] stk u) (pingBytes isServer ps @ rest) =
      ctx_run ctx isServer (Head [] (depth, ops', fin') (emits (pingEvents ps) u)) rest \<and>
    length ops' = 2 \<and> (depth = 0 \<longrightarrow> ops' ! 0 = ops ! 0) \<and> (fin \<longrightarrow> fin')"
  using assms(2-)
proof (induction isServer ps arbitrary: u stk ops fin rule: pingBytes.induct)
  case (1 isServer)
  then show ?case by auto
next
  case (2 isServer k d ps)
  have one: "ctx_run ctx isServer (Head [] stk u) (frameBytes isServer PING True k d @ pingBytes isServer ps @ rest) =
      ctx_run ctx isServer (Head [] (pushed stk) (emits [Send PONG d, PingEvent d] u)) (pingBytes isServer ps @ rest)"
    using run_ping [OF assms(1) 2(2,3) _ 2(5-7)] 2(4) by simp
  have "pushed stk = (depth, ops[nat (depth + 1) := PING], True)" using 2(5) by (simp add: pushed_def)
  from "2.IH" [OF _ _ _ this, of "emits [Send PONG d, PingEvent d] u"] 2(2-)
  obtain ops' fin' where "ctx_run ctx isServer (Head [] (pushed stk) (emits [Send PONG d, PingEvent d] u)) (pingBytes isServer ps @ rest) =
      ctx_run ctx isServer (Head [] (depth, ops', fin') (emits (pingEvents ((k, d) # ps)) u)) rest"
    "length ops' = 2" "depth = 0 \<longrightarrow> ops' ! 0 = ops ! 0" "fin'"
    by auto
  with one show ?case by auto
qed

lemma open_pings:
  assumes "quiet ctx" and "conn_ok ctx u None" and "\<not> stopped u" and "list_all (\<lambda>(k, p). length p \<le> 125) ps"
    and "length ops = 2" and "ops ! 0 \<le> 2"
  shows "\<exists>ops' f'. ctx_run ctx isServer (Head [] (0, ops, f) u) (pingBytes isServer ps @ rest) =
      ctx_run ctx isServer (Head [] (0, ops', f') (emits (pingEvents ps) u)) rest \<and>
    length ops' = 2 \<and> ops' ! 0 = ops ! 0 \<and> (ps \<noteq> [] \<longrightarrow> f')"
proof (cases ps)
  case Nil
  then show ?thesis using assms(5) by auto
next
  case (Cons p qs)
  obtain k d where p: "p = (k, d)" by (cases p)
  let ?u = "emits [Send PONG d, PingEvent d] u" and ?ops = "ops[1 := PING]"
  have one: "ctx_run ctx isServer (Head [] (0, ops, f) u) (pingBytes isServer ps @ rest) =
      ctx_run ctx isServer (Head [] (0, ?ops, True) ?u) (pingBytes isServer qs @ rest)"
    using run_ping [OF assms(1-3), of d "(0, ops, f)" 0 ops f isServer k "pingBytes isServer qs @ rest"] assms(4-6)
    by (simp add: Cons p pushed_def)
  have u: "conn_ok ctx ?u None" "\<not> stopped ?u" using assms(2,3) by simp_all
  have rest: "list_all (\<lambda>(k, p). length p \<le> 125) qs" "length ?ops = 2" "?ops ! 0 \<le> 2" using assms(4-6) by (simp_all add: Cons)
  have "\<exists>ops' fin'. ctx_run ctx isServer (Head [] (0, ?ops, True) ?u) (pingBytes isServer qs @ rest) =
      ctx_run ctx isServer (Head [] (0, ops', fin') (emits (pingEvents qs) ?u)) rest \<and>
    length ops' = 2 \<and> (0 = (0 :: int) \<longrightarrow> ops' ! 0 = ?ops ! 0) \<and> (True \<longrightarrow> fin')"
    by (rule run_pings [OF assms(1) u rest(1) refl _ rest(2)]) (use rest(3) in simp)
  then obtain ops' fin' where "ctx_run ctx isServer (Head [] (0, ?ops, True) ?u) (pingBytes isServer qs @ rest) =
      ctx_run ctx isServer (Head [] (0, ops', fin') (emits (pingEvents qs) ?u)) rest" "length ops' = 2" "ops' ! 0 = ?ops ! 0" fin'
    by blast
  moreover have "emits (pingEvents qs) ?u = emits (pingEvents ps) u" by (simp add: Cons p)
  ultimately have "ctx_run ctx isServer (Head [] (0, ops, f) u) (pingBytes isServer ps @ rest) =
      ctx_run ctx isServer (Head [] (0, ops', fin') (emits (pingEvents ps) u)) rest"
    unfolding one by (simp only:)
  moreover have "ops' ! 0 = ops ! 0" using \<open>ops' ! 0 = ?ops ! 0\<close> by simp
  ultimately show ?thesis using \<open>length ops' = 2\<close> \<open>fin'\<close> by blast
qed

lemma handleFrame_data:
  assumes ctx: "quiet ctx" and u: "\<not> stopped u" "compressionStatus u = DISABLED" and mop: "mop \<in> {1, 2}"
    and size: "length (fragmentBuffer u) + length d \<le> unat (maxPayloadLength ctx)"
    and valid: "fin \<longrightarrow> mop = 1 \<longrightarrow> isValidUtf8 (fragmentBuffer u @ d)"
  shows "handleFrame ctx u d 0 mop fin =
      (if fin then emits [MessageEvent mop (fragmentBuffer u @ d)] (u\<lparr>fragmentBuffer := []\<rparr>)
       else u\<lparr>fragmentBuffer := fragmentBuffer u @ d\<rparr>, False)"
proof -
  have mop3: "mop < 3" using mop by auto
  have inflate: "inflateFrame ctx x v = (Some x, v)" if "compressionStatus v = DISABLED" for x and v :: "'a connection"
    using that by (simp add: inflateFrame_def)
  have deliver: "deliver ctx mop x v = (emits [MessageEvent mop x] v, False)"
    if "compressionStatus v = DISABLED" "\<not> stopped v" "mop = 1 \<longrightarrow> isValidUtf8 x" for x and v :: "'a connection"
    using that ctx mop by (auto simp: deliver_def inflate quiet_def)
  have fits: "\<not> refusePayload ctx (length d + length (fragmentBuffer u))" using size by (simp add: refusePayload_def)
  show ?thesis
  proof (cases "fin \<and> fragmentBuffer u = []")
    case True
    then have "u\<lparr>fragmentBuffer := fragmentBuffer u\<rparr> = u" by simp
    with True have "u\<lparr>fragmentBuffer := []\<rparr> = u" by simp
    then have "emits es (u\<lparr>fragmentBuffer := []\<rparr>) = emits es u" for es by (simp only:)
    then show ?thesis using True mop3 deliver u valid by (simp add: handleFrame_def handleData_def)
  next
    case False
    then show ?thesis
      using mop3 deliver [of "u\<lparr>fragmentBuffer := fragmentBuffer u @ d\<rparr>"] u valid fits
      by (auto simp: handleFrame_def handleData_def Let_def)
  qed
qed

lemma run_fragment:
  assumes ctx: "quiet ctx" and u: "conn_ok ctx u None" "\<not> stopped u" "compressionStatus u = DISABLED"
    and op: "if depth = -1 then op = mop \<and> f else depth = 0 \<and> op = 0 \<and> ops ! 0 = mop" and mop: "mop \<in> {1, 2}"
    and ops: "length ops = 2" and size: "length (fragmentBuffer u) + length d \<le> unat (maxPayloadLength ctx)"
    and valid: "fin \<longrightarrow> mop = 1 \<longrightarrow> isValidUtf8 (fragmentBuffer u @ d)"
  shows "\<exists>ops'. ctx_run ctx isServer (Head [] (depth, ops, f) u) (frameBytes isServer op fin k d @ rest) =
      ctx_run ctx isServer
        (if fin then Head [] (-1, ops', True) (emits [MessageEvent mop (fragmentBuffer u @ d)] (u\<lparr>fragmentBuffer := []\<rparr>))
         else Head [] (0, ops', False) (u\<lparr>fragmentBuffer := fragmentBuffer u @ d\<rparr>)) rest \<and>
    length ops' = 2 \<and> ops' ! 0 = mop"
proof -
  let ?ops = "if depth = -1 then ops[0 := mop] else ops"
  have op3: "op \<in> {0, 1, 2, 8, 9, 10}" using op mop by (auto split: if_splits)
  have ok: "frame_ok op fin d" "length d \<le> unat (maxPayloadLength ctx)" "ws_context.stack_ok (depth, ops, f)"
    using op mop ops size by (auto simp: frame_ok_def ws_context.stack_ok_def split: if_splits)
  have "push ((if fin then 128 else 0) OR op) (depth, ops, f) = Some (0, ?ops, fin)"
    unfolding push_def case_prod_conv first_byte(1,2) [OF op3] using op mop by (auto split: if_splits)
  from ws_context.run_formatted [OF ok(1,2) u(1,2) ok(3) this]
  have run: "ctx_run ctx isServer (Head [] (depth, ops, f) u) (frameBytes isServer op fin k d @ rest) =
      ctx_run ctx isServer (lastPiece (contextImpl ctx) observe d (0, ?ops, fin) u) rest" .
  have cur: "stackOp (0, ?ops, fin) = mop" "stackFin (0, ?ops, fin) = fin" "length ?ops = 2" "?ops ! 0 = mop"
    using op ops by (auto simp: stackOp_def stackFin_def split: if_splits)
  have pop: "pop (0, ?ops, fin) = (if fin then -1 else 0, ?ops, fin)" by (simp add: pop_def)
  note handleFrame_data [OF ctx u(2,3) mop size valid]
  then have last: "lastPiece (contextImpl ctx) observe d (0, ?ops, fin) u =
      (if fin then Head [] (-1, ?ops, True) (emits [MessageEvent mop (fragmentBuffer u @ d)] (u\<lparr>fragmentBuffer := []\<rparr>))
       else Head [] (0, ?ops, False) (u\<lparr>fragmentBuffer := fragmentBuffer u @ d\<rparr>))"
    unfolding lastPiece_def by (simp add: cur(1,2) pop)
  show ?thesis using run [unfolded last] cur(3,4) by blast
qed


text \<open>A new message inside an open one, when the parser lets it pass: it takes over what was buffered.\<close>

lemma run_nested:
  assumes ctx: "quiet ctx" and u: "conn_ok ctx u None" "\<not> stopped u" "compressionStatus u = DISABLED"
    and op: "op \<in> {1, 2}" "f \<or> op = 2" and ops: "length ops = 2" "ops ! 0 \<in> {1, 2}"
    and size: "length (fragmentBuffer u) + length d \<le> unat (maxPayloadLength ctx)"
    and valid: "op = 1 \<longrightarrow> isValidUtf8 (fragmentBuffer u @ d)"
  shows "ctx_run ctx isServer (Head [] (0, ops, f) u) (frameBytes isServer op True k d @ rest) =
    ctx_run ctx isServer (Head [] (0, ops[1 := op], True)
      (emits [MessageEvent op (fragmentBuffer u @ d)] (u\<lparr>fragmentBuffer := []\<rparr>))) rest"
proof -
  have op3: "op \<in> {0, 1, 2, 8, 9, 10}" using op(1) by auto
  have ok: "frame_ok op True d" "length d \<le> unat (maxPayloadLength ctx)" "ws_context.stack_ok (0, ops, f)"
    using op ops size by (auto simp: frame_ok_def ws_context.stack_ok_def)
  have "push ((if True then 128 else 0) OR op) (0, ops, f) = Some (1, ops[1 := op], True)"
    unfolding push_def case_prod_conv first_byte(1,2) [OF op3] using op by auto
  from ws_context.run_formatted [OF ok(1,2) u(1,2) ok(3) this]
  have run: "ctx_run ctx isServer (Head [] (0, ops, f) u) (frameBytes isServer op True k d @ rest) =
      ctx_run ctx isServer (lastPiece (contextImpl ctx) observe d (1, ops[1 := op], True) u) rest" .
  have "handleFrame ctx u d 0 op True =
      (emits [MessageEvent op (fragmentBuffer u @ d)] (u\<lparr>fragmentBuffer := []\<rparr>), False)"
    using handleFrame_data [OF ctx u(2,3) op(1) size, of True] valid by simp
  then show ?thesis unfolding run lastPiece_def using ops(1) by (simp add: stackOp_def stackFin_def pop_def)
qed

lemma run_fragments:
  assumes ctx: "quiet ctx" and mop: "mop \<in> {1, 2}" and "fs \<noteq> []"
    and "conn_ok ctx u None" "\<not> stopped u" "compressionStatus u = DISABLED"
    and "if depth = -1 then op = mop \<and> f else depth = 0 \<and> op = 0 \<and> ops ! 0 = mop" "length ops = 2"
    and "length (fragmentBuffer u) + length (messageData fs) \<le> unat (maxPayloadLength ctx)"
    and "mop = 1 \<longrightarrow> isValidUtf8 (fragmentBuffer u @ messageData fs)"
    and "list_all (\<lambda>(ps, k, d). list_all (\<lambda>(k, p). length p \<le> 125) ps) fs"
  shows "\<exists>ops'. ctx_run ctx isServer (Head [] (depth, ops, f) u) (fragmentBytes isServer op fs @ rest) =
      ctx_run ctx isServer (Head [] (-1, ops', True)
        (emits (concat (map (\<lambda>f. pingEvents (fst f)) fs) @ [MessageEvent mop (fragmentBuffer u @ messageData fs)])
           (u\<lparr>fragmentBuffer := []\<rparr>))) rest \<and> length ops' = 2"
  using assms(3-)
proof (induction isServer op fs arbitrary: u depth ops f rule: fragmentBytes.induct)
  case (1 isServer op)
  then show ?case by simp
next
  case (2 isServer op ps k d fs)
  let ?last = "fs = []"
  have data: "messageData ((ps, k, d) # fs) = d @ messageData fs" by (simp add: messageData_def)
  have pre: "depth = -1 \<or> depth = 0 \<and> ops ! 0 \<le> 2" using 2(6) mop by (auto split: if_splits)
  let ?tail = "frameBytes isServer op ?last k d @ fragmentBytes isServer 0 fs @ rest"
  have p125: "list_all (\<lambda>(k, p). length p \<le> 125) ps" using 2(10) by simp
  obtain ops1 f1 where pings: "ctx_run ctx isServer (Head [] (depth, ops, f) u) (pingBytes isServer ps @ ?tail) =
      ctx_run ctx isServer (Head [] (depth, ops1, f1) (emits (pingEvents ps) u)) ?tail"
    "length ops1 = 2" "depth = 0 \<longrightarrow> ops1 ! 0 = ops ! 0" "f \<longrightarrow> f1"
    using run_pings [OF ctx 2(3,4) p125 refl pre 2(7)] by blast
  let ?u = "emits (pingEvents ps) u"
  have st1: "if depth = -1 then op = mop \<and> f1 else depth = 0 \<and> op = 0 \<and> ops1 ! 0 = mop"
    using 2(6) pings by (auto split: if_splits)
  have sz: "length (fragmentBuffer ?u) + length d \<le> unat (maxPayloadLength ctx)" using 2(8) data by simp
  have valid: "?last \<longrightarrow> mop = 1 \<longrightarrow> isValidUtf8 (fragmentBuffer ?u @ d)" using 2(9) data by (auto simp: messageData_def)
  have u1: "conn_ok ctx ?u None" "\<not> stopped ?u" "compressionStatus ?u = DISABLED" using 2(3,4,5) by simp_all
  have buf: "fragmentBuffer ?u = fragmentBuffer u" by simp
  obtain ops2 where frag: "ctx_run ctx isServer (Head [] (depth, ops1, f1) ?u) ?tail =
      ctx_run ctx isServer
        (if ?last then Head [] (-1, ops2, True) (emits [MessageEvent mop (fragmentBuffer u @ d)] (?u\<lparr>fragmentBuffer := []\<rparr>))
         else Head [] (0, ops2, False) (?u\<lparr>fragmentBuffer := fragmentBuffer u @ d\<rparr>)) (fragmentBytes isServer 0 fs @ rest)"
    "length ops2 = 2" "ops2 ! 0 = mop"
    using run_fragment [OF ctx u1 st1 mop pings(2) sz valid, of isServer k "fragmentBytes isServer 0 fs @ rest"]
    unfolding buf by blast
  show ?case
  proof (cases ?last)
    case True
    then show ?thesis using pings(1) frag by (auto simp: messageData_def)
  next
    case False
    let ?v = "?u\<lparr>fragmentBuffer := fragmentBuffer u @ d\<rparr>"
    have "\<exists>ops'. ctx_run ctx isServer (Head [] (0, ops2, False) ?v) (fragmentBytes isServer 0 fs @ rest) =
        ctx_run ctx isServer (Head [] (-1, ops', True)
          (emits (concat (map (\<lambda>f. pingEvents (fst f)) fs) @ [MessageEvent mop (fragmentBuffer ?v @ messageData fs)])
             (?v\<lparr>fragmentBuffer := []\<rparr>))) rest \<and> length ops' = 2"
      using "2.IH" [OF False, where u = ?v and depth = 0 and ops = ops2 and f = False] 2(3-10) frag(2,3) sz data by simp
    then show ?thesis using pings(1) frag(1) False data by auto
  qed
qed

lemma run_messages:
  assumes "quiet ctx" and "list_all (message_ok (unat (maxPayloadLength ctx))) msgs"
    and "conn_ok ctx u None" "\<not> stopped u" "compressionStatus u = DISABLED" "fragmentBuffer u = []"
    and "length ops = 2"
  shows "\<exists>ops'. ctx_run ctx isServer (Head [] (-1, ops, True) u) (concat (map (messageBytes isServer) msgs)) =
    Head [] (-1, ops', True) (emits (concat (map messageEvents msgs)) u)"
  using assms(2-)
proof (induction msgs arbitrary: u ops)
  case Nil
  then show ?case by simp
next
  case (Cons m msgs)
  obtain op fs where m: "m = (op, fs)" by (cases m)
  have ok: "op \<in> {1, 2}" "fs \<noteq> []" "length (messageData fs) \<le> unat (maxPayloadLength ctx)"
    "op = 1 \<longrightarrow> isValidUtf8 (messageData fs)"
    "list_all (\<lambda>(ps, k, d). list_all (\<lambda>(k, p). length p \<le> 125) ps) fs"
    using Cons.prems(1) by (auto simp: m message_ok_def)
  have clear: "u\<lparr>fragmentBuffer := []\<rparr> = u" using Cons.prems(5) by (cases u) simp
  obtain ops1 where "ctx_run ctx isServer (Head [] (-1, ops, True) u)
        (fragmentBytes isServer op fs @ concat (map (messageBytes isServer) msgs)) =
      ctx_run ctx isServer (Head [] (-1, ops1, True) (emits (messageEvents (op, fs)) u))
        (concat (map (messageBytes isServer) msgs))" "length ops1 = 2"
    using run_fragments [OF assms(1) ok(1,2) Cons.prems(2-4), of "-1" op True ops isServer
        "concat (map (messageBytes isServer) msgs)"] ok Cons.prems(5,6) clear
    by (auto simp: messageEvents_def)
  moreover obtain ops2 where "ctx_run ctx isServer (Head [] (-1, ops1, True) (emits (messageEvents (op, fs)) u))
        (concat (map (messageBytes isServer) msgs)) =
      Head [] (-1, ops2, True) (emits (concat (map messageEvents msgs)) (emits (messageEvents (op, fs)) u))"
    using Cons.IH [of "emits (messageEvents (op, fs)) u" ops1] Cons.prems calculation(2) by auto
  ultimately show ?case by (auto simp: m messageBytes_def)
qed

text \<open>
  C24. Messages survive the wire: any sequence of text and binary messages, each sent in any number
  of fragments with any masking keys and any pings in between, formatted by \<open>formatMessage\<close> in one
  role and cut into segments in any way, is delivered by the parser in the other role as exactly
  those messages in that order, each ping answered by a pong with its payload, and the connection
  stays open. (Text must be UTF-8, and a message must fit the payload limit.)
\<close>

theorem websocket_messages_roundtrip:
  assumes "quiet ctx" and "list_all (message_ok (unat (maxPayloadLength ctx))) msgs"
    and "segments_ok segs" and "concat segs = concat (map (messageBytes isServer) msgs)"
  shows "\<exists>u. receive ctx isServer junk (freshConnection False z) segs = Some u \<and>
    events u = concat (map messageEvents msgs) \<and> \<not> stopped u"
proof -
  let ?u = "freshConnection False z"
  obtain ops where run: "ctx_run ctx isServer (startState ?u) (concat segs) =
      Head [] (-1, ops, True) (emits (concat (map messageEvents msgs)) ?u)"
    using run_messages [OF assms(1,2), of ?u "[0, 0]" isServer] assms(4) by auto
  obtain v where "receive ctx isServer junk ?u segs = Some v"
    "observed observe (ctx_run ctx isServer (startState ?u) (concat segs)) = Some (observe v)"
    using receive_run [OF assms(3) ctx_run_inside [OF fresh_ok(3)], where ctx = ctx and isServer = isServer and junk = junk and z = z] by blast
  then show ?thesis unfolding run by (auto simp: observe_def stopped_def freshConnection_def emits_def)
qed

text \<open>
  The frames that RFC 6455 (5.2, 5.5) forbids without an extension, by the numbers of their first
  two bytes: a reserved bit is set, the opcode is reserved, a control frame is a fragment or longer
  than 125 bytes, or a server masks.
\<close>

definition forbidden :: "bool \<Rightarrow> byte \<Rightarrow> byte \<Rightarrow> bool" where
  "forbidden isServer b0 b1 \<longleftrightarrow>
     (let reserved = unat b0 div 16 mod 8; opcode = unat b0 mod 16; fin = unat b0 div 128;
          masked = unat b1 div 128; len = unat b1 mod 128 in
      reserved \<noteq> 0 \<or> opcode \<notin> {0, 1, 2, 8, 9, 10} \<or> 8 \<le> opcode \<and> (fin = 0 \<or> 125 < len) \<or>
      \<not> isServer \<and> masked = 1)"

lemma bit_at: "b AND 2 ^ k \<noteq> 0 \<longleftrightarrow> odd (unat b div 2 ^ k)" for b :: byte
proof -
  have "odd (unat b div 2 ^ k) \<longleftrightarrow> bit b k" by (simp only: bit_iff_odd [symmetric]) (simp add: bit_unsigned_iff bit_imp_le_length)
  then show ?thesis using and_exp_eq_0_iff_not_bit [of b k] by simp
qed

lemma header_numbers:
  "unat (getOpCode b) = unat b mod 16" "unat (payloadLength b) = unat b mod 128"
  "isFin b \<longleftrightarrow> unat b div 128 \<noteq> 0" "b AND 0x80 \<noteq> 0 \<longleftrightarrow> unat b div 128 = 1"
  "rsv23 b \<or> rsv1 b \<longleftrightarrow> unat b div 16 mod 8 \<noteq> 0"
proof -
  have "b AND 15 = take_bit 4 b" "b AND 127 = take_bit 7 b" by (simp_all add: take_bit_eq_mask mask_eq_exp_minus_1)
  then show "unat (getOpCode b) = unat b mod 16" "unat (payloadLength b) = unat b mod 128"
    by (simp_all add: getOpCode_def payloadLength_def unsigned_take_bit_eq take_bit_nat_def)
  have lt: "unat b < 256" using unsigned_less [of b, where 'a=nat] by simp
  have fin: "b AND 0x80 \<noteq> 0 \<longleftrightarrow> odd (unat b div 128)" using bit_at [of b 7] by simp
  have "unat b div 128 < 2" using lt by (intro less_mult_imp_div_less) simp
  then have "unat b div 128 = 0 \<or> unat b div 128 = 1" by linarith
  then show "isFin b \<longleftrightarrow> unat b div 128 \<noteq> 0" "b AND 0x80 \<noteq> 0 \<longleftrightarrow> unat b div 128 = 1" using fin by (auto simp: isFin_def)
  have "(48 :: byte) = 2 ^ 4 OR 2 ^ 5" by simp
  then have "b AND 48 = (b AND 2 ^ 4) OR (b AND 2 ^ 5)" by (simp only: bit.conj_disj_distrib)
  then have "rsv23 b \<longleftrightarrow> b AND 2 ^ 4 \<noteq> 0 \<or> b AND 2 ^ 5 \<noteq> 0" by (simp only: rsv23_def or_eq_0_iff) blast
  moreover have "rsv1 b \<longleftrightarrow> b AND 2 ^ 6 \<noteq> 0" by (simp add: rsv1_def)
  ultimately have "rsv23 b \<or> rsv1 b \<longleftrightarrow> odd (unat b div 16) \<or> odd (unat b div 32) \<or> odd (unat b div 64)"
    unfolding bit_at by auto
  also have "\<dots> \<longleftrightarrow> odd (unat b div 16) \<or> odd (unat b div 16 div 2) \<or> odd (unat b div 16 div 4)"
    by (simp add: div_mult2_eq [symmetric])
  also have "\<dots> \<longleftrightarrow> unat b div 16 mod 8 \<noteq> 0"
  proof -
    have "odd q \<or> odd (q div 2) \<or> odd (q div 4) \<longleftrightarrow> q mod 8 \<noteq> 0" for q :: nat by presburger
    then show ?thesis .
  qed
  finally show "rsv23 b \<or> rsv1 b \<longleftrightarrow> unat b div 16 mod 8 \<noteq> 0" .
qed

lemma forbidden_invalidHeader: "forbidden isServer b0 b1 \<longleftrightarrow> invalidHeader isServer b0 b1 \<or> rsv1 b0"
proof -
  have op: "2 < getOpCode b0 \<longleftrightarrow> 2 < unat b0 mod 16" "getOpCode b0 < 8 \<longleftrightarrow> unat b0 mod 16 < 8" "10 < getOpCode b0 \<longleftrightarrow> 10 < unat b0 mod 16"
    and len: "125 < payloadLength b1 \<longleftrightarrow> 125 < unat b1 mod 128"
    by (simp_all add: word_less_nat_alt header_numbers)
  have code: "n \<notin> {0, 1, 2, 8, 9, 10} \<longleftrightarrow> 2 < n \<and> n < 8 \<or> 10 < n" for n :: nat by auto
  have inv: "invalidHeader isServer b0 b1 \<longleftrightarrow> rsv23 b0 \<or> 2 < unat b0 mod 16 \<and> unat b0 mod 16 < 8 \<or> 10 < unat b0 mod 16 \<or>
      2 < unat b0 mod 16 \<and> (\<not> isFin b0 \<or> 125 < unat b1 mod 128) \<or> \<not> isServer \<and> unat b1 div 128 = 1"
    by (simp only: invalidHeader_def op len header_numbers(4))
  have "unat b0 div 128 = 0 \<longleftrightarrow> \<not> isFin b0" by (simp add: header_numbers(3))
  then have forb: "forbidden isServer b0 b1 \<longleftrightarrow> (rsv23 b0 \<or> rsv1 b0) \<or> (2 < unat b0 mod 16 \<and> unat b0 mod 16 < 8 \<or> 10 < unat b0 mod 16) \<or>
      8 \<le> unat b0 mod 16 \<and> (\<not> isFin b0 \<or> 125 < unat b1 mod 128) \<or> \<not> isServer \<and> unat b1 div 128 = 1"
    by (simp only: forbidden_def Let_def code header_numbers(5))
  have "8 \<le> unat b0 mod 16 \<longleftrightarrow> 2 < unat b0 mod 16 \<and> \<not> unat b0 mod 16 < 8" by linarith
  then show ?thesis unfolding inv forb by blast
qed

text \<open>
  C25. On a connection without compression, a frame that the RFC forbids closes the connection with
  the protocol error as soon as its short header has arrived, after any sequence of messages: these
  have been delivered, and nothing else is, whatever follows and however the stream is cut.
\<close>

theorem websocket_rejects_invalid_frame:
  assumes "quiet ctx" and "list_all (message_ok (unat (maxPayloadLength ctx))) msgs" and "segments_ok segs"
    and "concat segs = concat (map (messageBytes isServer) msgs) @ b0 # b1 # more_bytes"
    and "SHORT_MESSAGE_HEADER isServer \<le> length (b0 # b1 # more_bytes)" and "forbidden isServer b0 b1"
  shows "\<exists>u. receive ctx isServer junk (freshConnection False z) segs = Some u \<and>
    isClosed u \<and> events u = concat (map messageEvents msgs) @ [CloseEvent 1006 ERR_PROTOCOL]"
proof -
  let ?u = "freshConnection False z" and ?X = "b0 # b1 # more_bytes"
  let ?v = "emits (concat (map messageEvents msgs)) ?u"
  obtain ops where msgs: "ctx_run ctx isServer (startState ?u) (concat (map (messageBytes isServer) msgs)) = Head [] (-1, ops, True) ?v"
    using run_messages [OF assms(1,2), of ?u "[0, 0]" isServer] by auto
  have "(if rsv1 b0 then setCompressed (contextImpl ctx) ?v else (?v, True)) = (?v, \<not> rsv1 b0)" by simp
  then have "ctx_run ctx isServer (Head [] (-1, ops, True) ?v) ?X = closeWith (contextImpl ctx) observe ?v ERR_PROTOCOL"
    using ws_context.run_header [OF assms(5), of ctx "(-1, ops, True)" ?v] assms(6)
    unfolding forbidden_invalidHeader by (auto simp: Let_def)
  then have run: "ctx_run ctx isServer (startState ?u) (concat segs) = closeWith (contextImpl ctx) observe ?v ERR_PROTOCOL"
    unfolding assms(4) foldl_append msgs .
  obtain v where "receive ctx isServer junk ?u segs = Some v"
    "observed observe (ctx_run ctx isServer (startState ?u) (concat segs)) = Some (observe v)"
    using receive_run [OF assms(3) ctx_run_inside [OF fresh_ok(3)], where ctx = ctx and isServer = isServer and junk = junk and z = z] by blast
  then show ?thesis unfolding run
    by (auto simp: closeWith_def contextImpl_def closeSocket_def freshConnection_def emit_def emits_def observe_def)
qed

section \<open>What the machine says about two kinds of stream\<close>

text \<open>
  An application for the concrete streams below: it keeps the connection open, and its
  decompressor returns its input.
\<close>

definition plainContext :: "unit contextData" where
  "plainContext =
     \<lparr>maxPayloadLength = 16384, messageHandler = Some (\<lambda>es. GoOn), pingHandler = Some (\<lambda>es. GoOn),
      pongHandler = Some (\<lambda>es. GoOn), inflate = (\<lambda>z data limit. (Some data, z))\<rparr>"

definition noJunk :: "bytes \<Rightarrow> bytes \<times> bytes" where
  "noJunk seg = ([], [])"

lemma quiet_plainContext: "quiet plainContext"
  by (simp add: quiet_def plainContext_def)


lemma contextImpl_simps [simp]:
  "setCompressed (contextImpl ctx) = setCompressedFrame" "forceClose (contextImpl ctx) = (\<lambda>u reason. closeSocket reason u)"
  by (simp_all add: contextImpl_def)

lemma compressed_header_short:
  assumes "cursor_ok c" and "2 \<le> len c" "len c < 4" and "view c ! 0 = 0xC1" "view c ! 1 = 126"
  shows "nextFrame (contextImpl ctx) False c =
    (case setCompressedFrame (user c) of
       (u, True) \<Rightarrow> Some (c\<lparr>user := u\<rparr>, Break)
     | (u, False) \<Rightarrow> Some (c\<lparr>user := closeSocket ERR_PROTOCOL u\<rparr>, Return))"
proof -
  have "rsv1 0xC1" "\<not> invalidHeader False 0xC1 126" "headerSize False 126 = 4" by code_simp+
  then show ?thesis using nextFrame_header [OF assms(1), of False "contextImpl ctx"] assms(2-)
    by (simp add: SHORT_MESSAGE_HEADER_def split: prod.splits bool.splits del: One_nat_def)
qed



lemma header_cut:
  fixes z :: 'z
  assumes "length pre = 32" "length post = 32"
  shows "consumeSegment (contextImpl ctx) False pre [0xC1, 126, 0] post (initState False) (freshConnection True z) =
     Some ((initState False)\<lparr>spill := [0xC1, 126, 0] @ replicate 6 0, spillLength := 3\<rparr>,
           (freshConnection True z)\<lparr>compressionStatus := COMPRESSED_FRAME\<rparr>)"
proof -
  let ?c = "\<lparr>mem = pre @ [0xC1, 126, 0] @ post, src = length pre, len = length [0xC1, 126, 0 :: byte], wState = initState False, user = freshConnection True z\<rparr>"
  have c: "cursor_ok ?c" "view ?c = [0xC1, 126, 0]" using assms by (simp_all add: cursor_ok_def view_def LIBUS_RECV_BUFFER_PADDING_def)
  have "nextFrame (contextImpl ctx) False ?c =
     Some (?c\<lparr>user := (freshConnection True z)\<lparr>compressionStatus := COMPRESSED_FRAME\<rparr>\<rparr>, Break)"
    using compressed_header_short [OF c(1), of ctx] unfolding c(2) by (simp add: setCompressedFrame_def freshConnection_def)
  then have "consumeFrames (contextImpl ctx) False ?c =
     spillRest False (?c\<lparr>user := (freshConnection True z)\<lparr>compressionStatus := COMPRESSED_FRAME\<rparr>\<rparr>)"
    by (subst consumeFrames.simps) (simp add: SHORT_MESSAGE_HEADER_def)
  then show ?thesis
    by (simp add: consumeSegment_def consume_def consumeBody_def recvBuffer_def initState_def spillRest_def rdN_def wrN_def LONG_MESSAGE_HEADER_def)
qed

lemma header_parsed_again:
  fixes z :: 'z
  assumes "length pre = 32" "length post = 32"
  shows "map_option snd (consumeSegment (contextImpl ctx) False pre [200] post
      ((initState False)\<lparr>spill := [0xC1, 126, 0] @ replicate 6 0, spillLength := 3\<rparr>)
      ((freshConnection True z)\<lparr>compressionStatus := COMPRESSED_FRAME\<rparr>)) =
    Some (closeSocket ERR_PROTOCOL ((freshConnection True z)\<lparr>compressionStatus := COMPRESSED_FRAME\<rparr>))"
proof -
  let ?u = "(freshConnection True z)\<lparr>compressionStatus := COMPRESSED_FRAME\<rparr>"
  let ?st = "(initState False)\<lparr>spill := [0xC1, 126, 0] @ replicate 6 0, spillLength := 3\<rparr>"
  let ?c = "\<lparr>mem = take 29 pre @ [0xC1, 126, 0] @ [200] @ post, src = 29, len = 4, wState = ?st, user = ?u\<rparr>"
  have c: "cursor_ok ?c" "view ?c = [0xC1, 126, 0, 200]" using assms by (simp_all add: cursor_ok_def view_def LIBUS_RECV_BUFFER_PADDING_def)
  have "rsv1 0xC1" by code_simp
  then have "nextFrame (contextImpl ctx) False ?c = Some (?c\<lparr>user := closeSocket ERR_PROTOCOL ?u\<rparr>, Return)"
    using nextFrame_header [OF c(1), where isServer = False and impl = "contextImpl ctx" and u = ?u and acc = False]
    unfolding c(2) by (simp add: setCompressedFrame_def SHORT_MESSAGE_HEADER_def Let_def)
  then have "consumeFrames (contextImpl ctx) False ?c = Some (?c\<lparr>user := closeSocket ERR_PROTOCOL ?u\<rparr>)"
    by (subst consumeFrames.simps) (simp add: SHORT_MESSAGE_HEADER_def)
  then show ?thesis using assms
    by (simp add: consumeSegment_def consume_def consumeBody_def recvBuffer_def initState_def rdN_def wrN_def)
qed

text \<open>
  The header of a compressed frame with an extended length is parsed again when the segment
  ended inside it, and the second parse finds the connection already marked as reading a
  compressed frame: a client that gets the four header bytes of a valid compressed 200-byte
  message cut after the third closes the connection with the protocol error. (RFC 7692 allows the
  message; only the cut differs from a stream that is accepted.)
\<close>

theorem split_compressed_header_closes:
  "map_option observe (receive ctx False junk (freshConnection True z) [[0xC1, 126, 0], [200]]) =
   Some ([CloseEvent 1006 ERR_PROTOCOL], True, True)"
proof -
  have pad: "length (fst (paddings junk seg)) = 32" "length (snd (paddings junk seg)) = 32" for seg
    by (simp_all add: paddings_def LIBUS_RECV_BUFFER_PADDING_def)
  let ?u = "(freshConnection True z)\<lparr>compressionStatus := COMPRESSED_FRAME\<rparr>"
  let ?st = "(initState False)\<lparr>spill := [0xC1, 126, 0] @ replicate 6 0, spillLength := 3\<rparr>"
  obtain st where again: "consumeSegment (contextImpl ctx) False (fst (paddings junk [200])) [200] (snd (paddings junk [200]))
      ?st ?u = Some (st, closeSocket ERR_PROTOCOL ?u)"
    using header_parsed_again [where pre = "fst (paddings junk [200])" and post = "snd (paddings junk [200])" and ctx = ctx and z = z] pad by auto
  have "\<not> stopped (freshConnection True z)" "\<not> stopped ?u" by (simp_all add: stopped_def freshConnection_def)
  then have "receive ctx False junk (freshConnection True z) [[0xC1, 126, 0], [200]] = Some (closeSocket ERR_PROTOCOL ?u)"
    using header_cut [where pre = "fst (paddings junk [0xC1, 126, 0])" and post = "snd (paddings junk [0xC1, 126, 0])" and ctx = ctx and z = z] pad again
    by (simp add: receive_def feedSegment_def)
  then show ?thesis by (simp add: observe_def closeSocket_def emit_def freshConnection_def)
qed

section \<open>The properties at concrete streams\<close>

abbreviation cutPing :: "bytes list" where
  "cutPing \<equiv> [[1, 1], [97, 0x89], [0, 0x80, 1, 98]]"

lemma cutPing_ok: "segments_ok cutPing"
  by (simp add: LIBUS_RECV_BUFFER_LENGTH_def)

theorem websocket_memory_safe_witness:
  "receive plainContext False noJunk (freshConnection True ()) cutPing \<noteq> None"
  by (rule websocket_memory_safe [OF cutPing_ok])

theorem websocket_refines_machine_witness:
  "\<exists>u. receive plainContext False noJunk (freshConnection False ()) cutPing = Some u \<and>
    observed observe (ctx_run plainContext False (startState (freshConnection False ())) (concat cutPing)) = Some (observe u)"
  by (rule websocket_refines_machine [OF cutPing_ok]) simp

theorem websocket_segmentation_independent_witness:
  "map_option observe (receive plainContext False noJunk (freshConnection False ()) cutPing) =
   map_option observe (receive plainContext False noJunk (freshConnection False ()) [concat cutPing])"
  by (rule websocket_segmentation_independent [OF cutPing_ok]) (simp_all add: LIBUS_RECV_BUFFER_LENGTH_def)

abbreviation oneMessage :: "(OpCode \<times> fragment list) list" where
  "oneMessage \<equiv> [(1, [([], 0, [97]), ([(5, [1])], 0, [98])])]"

theorem websocket_messages_roundtrip_witness:
  "\<exists>u. receive plainContext True noJunk (freshConnection False ())
        [concat (map (messageBytes True) oneMessage)] = Some u \<and>
    events u = [Send PONG [1], PingEvent [1], MessageEvent 1 [97, 98]] \<and> \<not> stopped u"
proof -
  have "list_all (message_ok (unat (maxPayloadLength plainContext))) oneMessage"
    "segments_ok [concat (map (messageBytes True) oneMessage)]"
    "concat (map messageEvents oneMessage) = [Send PONG [1], PingEvent [1], MessageEvent 1 [97, 98]]"
    by code_simp+
  then show ?thesis
    using websocket_messages_roundtrip [OF quiet_plainContext, of oneMessage "[concat (map (messageBytes True) oneMessage)]" True noJunk "()"]
    by simp
qed

theorem websocket_rejects_invalid_frame_witness:
  "\<exists>u. receive plainContext True noJunk (freshConnection False ())
        [concat (map (messageBytes True) oneMessage), [0x91, 0x80, 0], [1, 2, 3, 4]] = Some u \<and>
    isClosed u \<and> events u = [Send PONG [1], PingEvent [1], MessageEvent 1 [97, 98], CloseEvent 1006 ERR_PROTOCOL]"
proof -
  let ?segs = "[concat (map (messageBytes True) oneMessage), [0x91, 0x80, 0], [1, 2, 3, 4 :: byte]]"
  have pre: "list_all (message_ok (unat (maxPayloadLength plainContext))) oneMessage" "segments_ok ?segs"
    "concat ?segs = concat (map (messageBytes True) oneMessage) @ 0x91 # 0x80 # [0, 1, 2, 3, 4]"
    "SHORT_MESSAGE_HEADER True \<le> length (0x91 # 0x80 # [0, 1, 2, 3, 4 :: byte])" "forbidden True 0x91 0x80"
    "concat (map messageEvents oneMessage) = [Send PONG [1], PingEvent [1], MessageEvent 1 [97, 98]]"
    by code_simp+
  from websocket_rejects_invalid_frame [OF quiet_plainContext pre(1-5), of noJunk "()"]
  show ?thesis unfolding pre(6) by simp
qed


end
