(* ===== verification/AsyncSocket.thy ===== *)
theory AsyncSocket
  imports Prelude "HOL-Library.Monad_Syntax"
begin

text \<open>
  Sending: native/uwebsockets/AsyncSocket.h and AsyncSocketData.h, with \<open>us_socket_write\<close> of
  native/usockets/socket.c. Bytes wait in three places, in order of age: handed to the kernel
  (\<open>wire\<close>), in the backpressure of the socket, in the cork buffer that all sockets of a loop
  share. The kernel is a parameter: how much of each write it takes. \<open>None\<close> is an access outside a
  buffer, or the \<open>std::terminate\<close> of \<open>cork\<close>.
\<close>

section \<open>A queue of bytes, and the one of the source\<close>

locale byte_queue =
  fixes contents :: "'q \<Rightarrow> bytes" and ok :: "'q \<Rightarrow> bool" and append :: "bytes \<Rightarrow> 'q \<Rightarrow> 'q"
    and erase :: "nat \<Rightarrow> 'q \<Rightarrow> 'q" and empty :: "'q" and resize :: "nat \<Rightarrow> 'q \<Rightarrow> 'q" and count :: "'q \<Rightarrow> nat"
  assumes append: "ok q \<Longrightarrow> ok (append d q) \<and> contents (append d q) = contents q @ d"
    and erase: "ok q \<Longrightarrow> n \<le> length (contents q) \<Longrightarrow> ok (erase n q) \<and> contents (erase n q) = drop n (contents q)"
    and empty: "ok empty \<and> contents empty = []"
    and resize: "ok q \<Longrightarrow> length (contents q) \<le> n \<Longrightarrow>
      ok (resize n q) \<and> contents (resize n q) = contents q @ replicate (n - length (contents q)) 0"
    and count: "ok q \<Longrightarrow> count q = length (contents q)"
begin

text \<open>What a partial write leaves, followed by what is appended, is what was there.\<close>

lemma written_rest:
  assumes "ok q" and "n \<le> count q"
  shows "take n (contents q) @ contents (erase n q) = contents q"
    and "take n (contents q) @ contents (append d (erase n q)) = contents q @ d"
  using assms by (simp_all add: append erase count)

lemma count_0: "ok q \<Longrightarrow> count q = 0 \<longleftrightarrow> contents q = []"
  by (simp add: count)

end

text \<open>Erasing only moves a cursor, until 1/32 of the buffer is dead.\<close>

record BackPressure =
  bpBuffer :: bytes
  pendingRemoval :: nat

definition bpAppend :: "bytes \<Rightarrow> BackPressure \<Rightarrow> BackPressure" where
  "bpAppend data q = q\<lparr>bpBuffer := bpBuffer q @ data\<rparr>"

definition bpErase :: "nat \<Rightarrow> BackPressure \<Rightarrow> BackPressure" where
  "bpErase n q =
     (let p = pendingRemoval q + n in
      if length (bpBuffer q) div 32 < p then \<lparr>bpBuffer = drop p (bpBuffer q), pendingRemoval = 0\<rparr>
      else q\<lparr>pendingRemoval := p\<rparr>)"

definition bpLength :: "BackPressure \<Rightarrow> nat" where
  "bpLength q = length (bpBuffer q) - pendingRemoval q"

definition bpClear :: BackPressure where
  "bpClear = \<lparr>bpBuffer = [], pendingRemoval = 0\<rparr>"

definition bpResize :: "nat \<Rightarrow> BackPressure \<Rightarrow> BackPressure" where
  "bpResize n q =
     (let k = n + pendingRemoval q in
      q\<lparr>bpBuffer := take k (bpBuffer q) @ replicate (k - length (bpBuffer q)) 0\<rparr>)"

definition bpData :: "BackPressure \<Rightarrow> bytes" where
  "bpData q = drop (pendingRemoval q) (bpBuffer q)"

definition bpTotalLength :: "BackPressure \<Rightarrow> nat" where
  "bpTotalLength q = length (bpBuffer q)"

definition bp_ok :: "BackPressure \<Rightarrow> bool" where
  "bp_ok q \<longleftrightarrow> pendingRemoval q \<le> length (bpBuffer q) div 32"

lemma bp_ok_le: "bp_ok q \<Longrightarrow> pendingRemoval q \<le> length (bpBuffer q)"
  unfolding bp_ok_def by linarith

interpretation bp: byte_queue bpData bp_ok bpAppend bpErase bpClear bpResize bpLength
proof
  fix q d n
  assume ok: "bp_ok q"
  note le = bp_ok_le [OF ok]
  show "bp_ok (bpAppend d q) \<and> bpData (bpAppend d q) = bpData q @ d"
    using ok le by (auto simp: bp_ok_def bpAppend_def bpData_def div_le_mono intro: le_trans)
  show "bpLength q = length (bpData q)"
    by (simp add: bpLength_def bpData_def)
  show "length (bpData q) \<le> n \<Longrightarrow>
      bp_ok (bpResize n q) \<and> bpData (bpResize n q) = bpData q @ replicate (n - length (bpData q)) 0"
    using ok le by (auto simp: bp_ok_def bpResize_def bpData_def Let_def intro: le_trans div_le_mono)
  show "n \<le> length (bpData q) \<Longrightarrow> bp_ok (bpErase n q) \<and> bpData (bpErase n q) = drop n (bpData q)"
    using ok le by (auto simp: bp_ok_def bpErase_def bpData_def Let_def add.commute)
qed (simp add: bp_ok_def bpClear_def bpData_def)

text \<open>
  \<open>getBufferedAmount\<close> counts dead bytes too, but it is zero exactly when nothing is buffered:
  that is what the callers test before they shut a connection down.
\<close>

lemma bpTotalLength_0: "bp_ok q \<Longrightarrow> bpTotalLength q = 0 \<longleftrightarrow> bpData q = []"
  unfolding bp_ok_def bpTotalLength_def bpData_def drop_eq_Nil by linarith

section \<open>Sockets and the loop\<close>

definition CORK_BUFFER_SIZE :: nat where "CORK_BUFFER_SIZE = 16 * 1024"

record socketState =
  pressure :: BackPressure
  sockClosed :: bool
  sockShut :: bool
  pollsOut :: bool
  wire :: bytes

record 's asyncLoop =
  corkBuffer :: bytes
  corkOffset :: nat
  corkedSocket :: "'s option"
  sock :: "'s \<Rightarrow> socketState"
  sends :: nat

definition onSock :: "'s \<Rightarrow> (socketState \<Rightarrow> socketState) \<Rightarrow> 's asyncLoop \<Rightarrow> 's asyncLoop" where
  "onSock s f st = st\<lparr>sock := (sock st)(s := f (sock st s))\<rparr>"

abbreviation onBack :: "'s \<Rightarrow> (BackPressure \<Rightarrow> BackPressure) \<Rightarrow> 's asyncLoop \<Rightarrow> 's asyncLoop" where
  "onBack s f st \<equiv> onSock s (\<lambda>k. k\<lparr>pressure := f (pressure k)\<rparr>) st"

abbreviation isCorked :: "'s \<Rightarrow> 's asyncLoop \<Rightarrow> bool" where
  "isCorked s st \<equiv> corkedSocket st = Some s"

abbreviation canCork :: "'s asyncLoop \<Rightarrow> bool" where
  "canCork st \<equiv> corkedSocket st = None"

text \<open>
  \<open>sys i n\<close> is what the \<open>i\<close>-th send returns when asked to send \<open>n\<close> bytes; negative for an error.
  Lengths are converted to C's \<open>int\<close>.
\<close>

type_synonym kernel = "nat \<Rightarrow> nat \<Rightarrow> int"

definition toInt :: "nat \<Rightarrow> int" where
  "toInt n = sint (word_of_nat n :: u32)"

lemma toInt_small [simp]: "n < 2 ^ 31 \<Longrightarrow> toInt n = int n"
  by (simp add: toInt_def signed_of_nat signed_take_bit_int_eq_self)

definition us_socket_write :: "kernel \<Rightarrow> 's \<Rightarrow> bytes \<Rightarrow> int \<Rightarrow> 's asyncLoop \<Rightarrow> (nat \<times> 's asyncLoop) option" where
  "us_socket_write sys s data n st =
     (if sockClosed (sock st s) \<or> sockShut (sock st s) then Some (0, st)
      else if n < 0 \<or> int (length data) < n then None
      else
        (let written = sys (sends st) (nat n) in
         Some (nat written,
               onSock s (\<lambda>k. k\<lparr>wire := wire k @ take (nat written) data,
                              pollsOut := pollsOut k \<or> written \<noteq> n\<rparr>)
                 (st\<lparr>sends := sends st + 1\<rparr>))))"

section \<open>Writing, corking and uncorking\<close>

text \<open>
  \<open>write\<close> and \<open>uncork\<close> call each other. \<open>uncork\<close> calls \<open>write\<close> only after it has made the socket
  not corked, so that \<open>write\<close> never calls it pressure: the call is a parameter of the body, and
  \<open>uncork\<close> passes \<open>None\<close>. \<open>nextLength\<close> is only a hint to the kernel and is left out. The results are
  the bytes taken and whether the socket now waits for the kernel.
\<close>

type_synonym 's sent = "((nat \<times> bool) \<times> 's asyncLoop) option"

definition writeBody :: "(bytes \<Rightarrow> bool \<Rightarrow> 's asyncLoop \<Rightarrow> 's sent) \<Rightarrow> kernel \<Rightarrow> 's \<Rightarrow> bytes \<Rightarrow> bool \<Rightarrow> 's asyncLoop \<Rightarrow> 's sent" where
  "writeBody uncorkAll sys s src optionally st =
     (if sockClosed (sock st s) then Some ((length src, False), st)
      else do {
        let q = pressure (sock st s);
        (limited, st) \<leftarrow>
          (if bpLength q \<noteq> 0 then do {
             (written, st) \<leftarrow> us_socket_write sys s (bpData q) (toInt (bpLength q)) st;
             if written < bpLength q then Some (True, onBack s (bpErase written) st)
             else Some (False, onBack s (\<lambda>_. bpClear) st) }
           else Some (False, st));
        if limited then
          (if optionally then Some ((0, True), st) else Some ((length src, True), onBack s (bpAppend src) st))
        else if src = [] then Some ((0, False), st)
        else if isCorked s st then
          (if length src \<le> CORK_BUFFER_SIZE - corkOffset st then do {
             buf \<leftarrow> wrN (corkBuffer st) (corkOffset st) src;
             Some ((length src, False), st\<lparr>corkBuffer := buf, corkOffset := corkOffset st + length src\<rparr>) }
           else uncorkAll src optionally st)
        else do {
          (written, st) \<leftarrow> us_socket_write sys s src (toInt (length src)) st;
          if written < length src then
            (if optionally then Some ((written, True), st)
             else Some ((length src, True), onBack s (bpAppend (drop written src)) st))
          else Some ((length src, False), st) } })"

definition uncork :: "kernel \<Rightarrow> 's \<Rightarrow> bytes \<Rightarrow> bool \<Rightarrow> 's asyncLoop \<Rightarrow> 's sent" where
  "uncork sys s src optionally st =
     (if isCorked s st then
        (let st = st\<lparr>corkedSocket := None\<rparr> in
         if corkOffset st \<noteq> 0 then do {
           corked \<leftarrow> rdN (corkBuffer st) 0 (corkOffset st);
           ((_, failed), st) \<leftarrow> writeBody (\<lambda>_ _ _. None) sys s corked False st;
           let st = st\<lparr>corkOffset := 0\<rparr>;
           if failed then
             (if \<not> optionally \<and> src \<noteq> [] then Some ((length src, True), onBack s (bpAppend src) st)
              else Some ((0, True), st))
           else writeBody (\<lambda>_ _ _. None) sys s src optionally st }
         else writeBody (\<lambda>_ _ _. None) sys s src optionally st)
      else Some ((0, False), st))"

definition writeBytes :: "kernel \<Rightarrow> 's \<Rightarrow> bytes \<Rightarrow> bool \<Rightarrow> 's asyncLoop \<Rightarrow> 's sent" where
  "writeBytes sys s src optionally st = writeBody (uncork sys s) sys s src optionally st"

definition cork :: "'s \<Rightarrow> 's asyncLoop \<Rightarrow> 's asyncLoop option" where
  "cork s st =
     (if corkOffset st \<noteq> 0 \<and> \<not> isCorked s st then None else Some (st\<lparr>corkedSocket := Some s\<rparr>))"

definition uncorkWithoutSending :: "'s \<Rightarrow> 's asyncLoop \<Rightarrow> 's asyncLoop" where
  "uncorkWithoutSending s st = (if isCorked s st then st\<lparr>corkedSocket := None\<rparr> else st)"

definition getBufferedAmount :: "'s \<Rightarrow> 's asyncLoop \<Rightarrow> nat" where
  "getBufferedAmount s st = bpTotalLength (pressure (sock st s))"

text \<open>
  A place to build a frame in, which is part of the stream at once: \<open>InCork\<close> is an offset in the
  cork buffer, \<open>InBack\<close> one in the backpressure.
\<close>

datatype SendBufferAttribute = NEEDS_NOTHING | NEEDS_DRAIN | NEEDS_UNCORK
datatype place = InCork nat | InBack nat

definition getSendBuffer :: "'s \<Rightarrow> nat \<Rightarrow> 's asyncLoop \<Rightarrow> ((place \<times> SendBufferAttribute) \<times> 's asyncLoop) option" where
  "getSendBuffer s n st =
     (let q = pressure (sock st s); existing = bpLength q in
      if existing = 0 \<and> (isCorked s st \<or> canCork st) \<and> corkOffset st + n < CORK_BUFFER_SIZE then
        (if isCorked s st
         then Some ((InCork (corkOffset st), NEEDS_NOTHING), st\<lparr>corkOffset := corkOffset st + n\<rparr>)
         else do {
           st \<leftarrow> cork s st;
           Some ((InCork (corkOffset st), NEEDS_UNCORK), st\<lparr>corkOffset := corkOffset st + n\<rparr>) })
      else do {
        let ours = (if isCorked s st \<and> corkOffset st \<noteq> 0 then corkOffset st else 0);
        let st = (if isCorked s st \<and> corkOffset st \<noteq> 0 then st\<lparr>corkOffset := 0\<rparr> else st);
        let q = bpResize (ours + existing + n) q;
        corked \<leftarrow> rdN (corkBuffer st) 0 ours;
        mem \<leftarrow> wrN (bpBuffer q) (pendingRemoval q + existing) corked;
        Some ((InBack (ours + existing), NEEDS_DRAIN), onBack s (\<lambda>_. q\<lparr>bpBuffer := mem\<rparr>) st) })"

definition fillSendBuffer :: "'s \<Rightarrow> place \<Rightarrow> bytes \<Rightarrow> 's asyncLoop \<Rightarrow> 's asyncLoop option" where
  "fillSendBuffer s p data st =
     (case p of
        InCork off \<Rightarrow> do { buf \<leftarrow> wrN (corkBuffer st) off data; Some (st\<lparr>corkBuffer := buf\<rparr>) }
      | InBack off \<Rightarrow> do {
          let q = pressure (sock st s);
          mem \<leftarrow> wrN (bpBuffer q) (pendingRemoval q + off) data;
          Some (onBack s (\<lambda>_. q\<lparr>bpBuffer := mem\<rparr>) st) })"

text \<open>The use every sender makes of it (\<open>WebSocket::send\<close>): false is \<open>BACKPRESSURE\<close>.\<close>

definition sendFrame :: "kernel \<Rightarrow> 's \<Rightarrow> bytes \<Rightarrow> 's asyncLoop \<Rightarrow> (bool \<times> 's asyncLoop) option" where
  "sendFrame sys s frame st = do {
     ((p, attr), st) \<leftarrow> getSendBuffer s (length frame) st;
     st \<leftarrow> fillSendBuffer s p frame st;
     case attr of
       NEEDS_DRAIN \<Rightarrow> do { ((_, failed), st) \<leftarrow> writeBytes sys s [] False st; Some (\<not> failed, st) }
     | NEEDS_UNCORK \<Rightarrow> do { ((_, failed), st) \<leftarrow> uncork sys s [] False st; Some (\<not> failed, st) }
     | NEEDS_NOTHING \<Rightarrow> Some (True, st) }"

section \<open>The bytes of a connection\<close>

text \<open>
  Everything a connection has accepted, wherever it waits. The cork buffer is used only while a
  socket is corked, and then its backpressure is empty: otherwise bytes would overtake each other.
\<close>

definition corkedBytes :: "'s \<Rightarrow> 's asyncLoop \<Rightarrow> bytes" where
  "corkedBytes s st = (if isCorked s st then take (corkOffset st) (corkBuffer st) else [])"

definition streamOf :: "'s \<Rightarrow> 's asyncLoop \<Rightarrow> bytes" where
  "streamOf s st = wire (sock st s) @ bpData (pressure (sock st s)) @ corkedBytes s st"

definition loop_ok :: "'s asyncLoop \<Rightarrow> bool" where
  "loop_ok st \<longleftrightarrow>
     length (corkBuffer st) = CORK_BUFFER_SIZE \<and> corkOffset st \<le> CORK_BUFFER_SIZE \<and>
     (\<forall>s. bp_ok (pressure (sock st s))) \<and>
     (corkOffset st \<noteq> 0 \<longrightarrow>
        (\<exists>s. isCorked s st \<and> (sockClosed (sock st s) \<or> bpData (pressure (sock st s)) = [])))"

definition kernel_ok :: "kernel \<Rightarrow> bool" where
  "kernel_ok sys \<longleftrightarrow> (\<forall>i n. sys i n \<le> int n)"

text \<open>The bytes that wait in the process fit C's \<open>int\<close>.\<close>

definition small :: "'s \<Rightarrow> nat \<Rightarrow> 's asyncLoop \<Rightarrow> bool" where
  "small s n st \<longleftrightarrow> length (bpData (pressure (sock st s))) + corkOffset st + n < 2 ^ 31"

text \<open>\<open>wrote s data st st'\<close>: \<open>data\<close> went into the kernel or the backpressure of \<open>s\<close>, and nothing else moved.\<close>

definition wrote :: "'s \<Rightarrow> bytes \<Rightarrow> 's asyncLoop \<Rightarrow> 's asyncLoop \<Rightarrow> bool" where
  "wrote s data st st' \<longleftrightarrow>
     wire (sock st' s) @ bpData (pressure (sock st' s)) = wire (sock st s) @ bpData (pressure (sock st s)) @ data \<and>
     bp_ok (pressure (sock st' s)) \<and>
     sockClosed (sock st' s) = sockClosed (sock st s) \<and> sockShut (sock st' s) = sockShut (sock st s) \<and>
     (\<forall>r. r \<noteq> s \<longrightarrow> sock st' r = sock st r) \<and>
     corkBuffer st' = corkBuffer st \<and> corkOffset st' = corkOffset st \<and> corkedSocket st' = corkedSocket st"

lemma wrote_trans:
  "wrote s d1 st st1 \<Longrightarrow> wrote s d2 st1 st2 \<Longrightarrow> wrote s (d1 @ d2) st st2"
  by (auto simp: wrote_def)

lemma wrote_onBack:
  assumes "bp_ok q" and "bpData q = bpData (pressure (sock st s)) @ d"
  shows "wrote s d st (onBack s (\<lambda>_. q) st)"
  using assms by (simp add: wrote_def onSock_def)

lemma write_takes:
  assumes "kernel_ok sys" and "length data < 2 ^ 31"
  obtains w p k where "us_socket_write sys s data (toInt (length data)) st =
      Some (w, onSock s (\<lambda>t. t\<lparr>wire := wire t @ take w data, pollsOut := p\<rparr>) (st\<lparr>sends := k\<rparr>))"
    and "w \<le> length data"
proof (cases "sockClosed (sock st s) \<or> sockShut (sock st s)")
  case True
  then show ?thesis
    using that [of 0 "pollsOut (sock st s)" "sends st"] by (simp add: us_socket_write_def onSock_def)
next
  case False
  let ?w = "sys (sends st) (length data)"
  have "nat ?w \<le> length data" using assms(1) by (simp add: kernel_ok_def nat_le_iff)
  then show ?thesis
    using that [of "nat ?w" "pollsOut (sock st s) \<or> ?w \<noteq> int (length data)" "sends st + 1"] False assms(2)
    by (simp add: us_socket_write_def onSock_def Let_def)
qed

text \<open>The first part of \<open>write\<close>: try to empty the backpressure.\<close>

definition drainFirst :: "kernel \<Rightarrow> 's \<Rightarrow> 's asyncLoop \<Rightarrow> (bool \<times> 's asyncLoop) option" where
  "drainFirst sys s st =
     (let q = pressure (sock st s) in
      if bpLength q \<noteq> 0 then do {
        (written, st) \<leftarrow> us_socket_write sys s (bpData q) (toInt (bpLength q)) st;
        if written < bpLength q then Some (True, onBack s (bpErase written) st)
        else Some (False, onBack s (\<lambda>_. bpClear) st) }
      else Some (False, st))"

lemma drainFirst_wrote:
  assumes "kernel_ok sys" and ok: "bp_ok (pressure (sock st s))"
    and "length (bpData (pressure (sock st s))) < 2 ^ 31"
  obtains limited st' where "drainFirst sys s st = Some (limited, st')" and "wrote s [] st st'"
    and "limited \<longleftrightarrow> bpData (pressure (sock st' s)) \<noteq> []"
    and "limited \<Longrightarrow> bpData (pressure (sock st s)) \<noteq> []"
proof (cases "bpData (pressure (sock st s)) = []")
  case True
  then show ?thesis
    using that [of False st] ok by (simp add: drainFirst_def wrote_def bp.count)
next
  case False
  let ?q = "pressure (sock st s)"
  obtain w p k where w: "us_socket_write sys s (bpData ?q) (toInt (length (bpData ?q))) st =
      Some (w, onSock s (\<lambda>t. t\<lparr>wire := wire t @ take w (bpData ?q), pollsOut := p\<rparr>) (st\<lparr>sends := k\<rparr>))"
    and le: "w \<le> length (bpData ?q)"
    by (rule write_takes [OF assms(1,3)])
  let ?st = "onSock s (\<lambda>t. t\<lparr>wire := wire t @ take w (bpData ?q), pollsOut := p\<rparr>) (st\<lparr>sends := k\<rparr>)"
  show ?thesis
  proof (cases "w < length (bpData ?q)")
    case True
    then show ?thesis
      using that [of True "onBack s (bpErase w) ?st"] w le ok False
      by (simp add: drainFirst_def bp.count Let_def wrote_def onSock_def bp.erase)
  next
    case all: False
    then show ?thesis
      using that [of False "onBack s (\<lambda>_. bpClear) ?st"] w le ok False bp.empty
      by (simp add: drainFirst_def bp.count Let_def wrote_def onSock_def)
  qed
qed

lemma writeBody_drainFirst:
  "writeBody again sys s src optionally st =
     (if sockClosed (sock st s) then Some ((length src, False), st)
      else do {
        (limited, st) \<leftarrow> drainFirst sys s st;
        if limited then
          (if optionally then Some ((0, True), st) else Some ((length src, True), onBack s (bpAppend src) st))
        else if src = [] then Some ((0, False), st)
        else if isCorked s st then
          (if length src \<le> CORK_BUFFER_SIZE - corkOffset st then do {
             buf \<leftarrow> wrN (corkBuffer st) (corkOffset st) src;
             Some ((length src, False), st\<lparr>corkBuffer := buf, corkOffset := corkOffset st + length src\<rparr>) }
           else again src optionally st)
        else do {
          (written, st) \<leftarrow> us_socket_write sys s src (toInt (length src)) st;
          if written < length src then
            (if optionally then Some ((written, True), st)
             else Some ((length src, True), onBack s (bpAppend (drop written src)) st))
          else Some ((length src, False), st) } })"
  unfolding writeBody_def drainFirst_def Let_def ..

text \<open>What \<open>write\<close> promises: \<open>n\<close> of the bytes were taken.\<close>

definition taken :: "bool \<Rightarrow> bytes \<Rightarrow> nat \<Rightarrow> bool \<Rightarrow> bool" where
  "taken optionally src n failed \<longleftrightarrow>
     n \<le> length src \<and> (\<not> optionally \<longrightarrow> n = length src) \<and> (\<not> failed \<longrightarrow> n = length src)"

lemma write_not_corked:
  assumes "kernel_ok sys" and live: "\<not> sockClosed (sock st s)" "\<not> isCorked s st"
    and ok: "bp_ok (pressure (sock st s))"
    and "length (bpData (pressure (sock st s))) + length src < 2 ^ 31"
  obtains n failed st' where "writeBody again sys s src optionally st = Some ((n, failed), st')"
    and "taken optionally src n failed" and "wrote s (take n src) st st'"
    and "\<not> failed \<Longrightarrow> bpData (pressure (sock st' s)) = []"
proof -
  have small: "length (bpData (pressure (sock st s))) < 2 ^ 31" "length src < 2 ^ 31" using assms(5) by linarith+
  obtain limited st1 where d: "drainFirst sys s st = Some (limited, st1)" and w1: "wrote s [] st st1"
    and lim: "limited \<longleftrightarrow> bpData (pressure (sock st1 s)) \<noteq> []"
    by (rule drainFirst_wrote [OF assms(1) ok small(1)])
  have ok1: "bp_ok (pressure (sock st1 s))" "\<not> isCorked s st1" using w1 live by (simp_all add: wrote_def)
  note body = writeBody_drainFirst [of again sys s src optionally st] live d
  show thesis
  proof (cases "limited \<or> src = []")
    case True
    have app: "wrote s src st1 (onBack s (bpAppend src) st1)"
      using bp.append [OF ok1(1), of src] wrote_onBack [of "bpAppend src (pressure (sock st1 s))" st1 s src]
      by (simp add: onSock_def)
    show thesis
    proof (cases "limited \<and> \<not> optionally")
      case T: True
      show thesis
        by (rule that [of "length src" True "onBack s (bpAppend src) st1"])
           (use body T app wrote_trans [OF w1 app] in \<open>auto simp: taken_def\<close>)
    next
      case F: False
      show thesis
        by (rule that [of 0 limited st1]) (use body True F w1 lim in \<open>auto simp: taken_def\<close>)
    qed
  next
    case False
    obtain w p k where w: "us_socket_write sys s src (toInt (length src)) st1 =
        Some (w, onSock s (\<lambda>t. t\<lparr>wire := wire t @ take w src, pollsOut := p\<rparr>) (st1\<lparr>sends := k\<rparr>))"
      and le: "w \<le> length src"
      by (rule write_takes [OF assms(1) small(2)])
    let ?st = "onSock s (\<lambda>t. t\<lparr>wire := wire t @ take w src, pollsOut := p\<rparr>) (st1\<lparr>sends := k\<rparr>)"
    have w2: "wrote s (take w src) st1 ?st" using ok1(1) False lim by (simp add: wrote_def onSock_def)
    have empty: "bpData (pressure (sock ?st s)) = []" using False lim by (simp add: onSock_def)
    show thesis
    proof (cases "w < length src \<and> \<not> optionally")
      case True
      have w3: "wrote s (drop w src) ?st (onBack s (bpAppend (drop w src)) ?st)"
        using bp.append [OF ok1(1), of "drop w src"] False lim by (simp add: wrote_def onSock_def)
      show thesis
        by (rule that [of "length src" True "onBack s (bpAppend (drop w src)) ?st"])
           (use body False ok1 w True wrote_trans [OF w1 wrote_trans [OF w2 w3]] in \<open>auto simp: taken_def\<close>)
    next
      case F: False
      show thesis
        by (rule that [of w "w < length src" ?st])
           (use body False ok1 w F le empty wrote_trans [OF w1 w2] in \<open>auto simp: taken_def\<close>)
    qed
  qed
qed

text \<open>
  The law of every sending operation on an open socket \<open>s\<close>: the loop stays well formed, \<open>n\<close> bytes
  of \<open>src\<close> join the stream of \<open>s\<close>, and no other stream changes.
\<close>

definition sent :: "'s \<Rightarrow> bool \<Rightarrow> bytes \<Rightarrow> nat \<Rightarrow> bool \<Rightarrow> 's asyncLoop \<Rightarrow> 's asyncLoop \<Rightarrow> bool" where
  "sent s optionally src n failed st st' \<longleftrightarrow>
     loop_ok st' \<and> taken optionally src n failed \<and> streamOf s st' = streamOf s st @ take n src \<and>
     sockClosed (sock st' s) = sockClosed (sock st s) \<and> sockShut (sock st' s) = sockShut (sock st s) \<and>
     (\<forall>r. r \<noteq> s \<longrightarrow> sock st' r = sock st r \<and> streamOf r st' = streamOf r st)"

lemma loop_okD:
  assumes "loop_ok st"
  shows "length (corkBuffer st) = CORK_BUFFER_SIZE" "corkOffset st \<le> CORK_BUFFER_SIZE"
    "bp_ok (pressure (sock st s))"
    "corkOffset st \<noteq> 0 \<Longrightarrow> isCorked s st \<Longrightarrow> \<not> sockClosed (sock st s) \<Longrightarrow> bpData (pressure (sock st s)) = []"
    "corkOffset st \<noteq> 0 \<Longrightarrow> \<exists>r. isCorked r st"
  using assms by (auto simp: loop_ok_def)

lemma wrote_loop_ok:
  assumes "wrote s d st st'" and "loop_ok st" and "corkOffset st = 0 \<or> \<not> isCorked s st"
  shows "loop_ok st'"
  unfolding loop_ok_def
proof (intro conjI allI impI)
  show "bp_ok (pressure (sock st' r))" for r
    using assms by (cases "r = s") (auto simp: wrote_def loop_ok_def)
  show "\<exists>r. isCorked r st' \<and> (sockClosed (sock st' r) \<or> bpData (pressure (sock st' r)) = [])" if "corkOffset st' \<noteq> 0"
    using that assms unfolding wrote_def loop_ok_def by (metis option.inject)
qed (use assms in \<open>simp_all add: wrote_def loop_ok_def\<close>)

lemma wrote_sent:
  assumes w: "wrote s (take n src) st st'" and ok: "loop_ok st" and cork: "corkOffset st = 0 \<or> \<not> isCorked s st"
    and t: "taken optionally src n failed"
  shows "sent s optionally src n failed st st'"
proof -
  have "corkedBytes r st' = corkedBytes r st" for r using w by (simp add: wrote_def corkedBytes_def)
  moreover have "corkedBytes s st = []" using cork by (auto simp: corkedBytes_def)
  ultimately show ?thesis
    using w t wrote_loop_ok [OF w ok cork] unfolding sent_def streamOf_def wrote_def by (simp flip: append_assoc)
qed

lemma uncork_sent:
  assumes sys: "kernel_ok sys" and ok: "loop_ok st" and live: "\<not> sockClosed (sock st s)" and cork: "isCorked s st"
    and small: "small s (length src) st"
  obtains n failed st' where "uncork sys s src optionally st = Some ((n, failed), st')"
    and "sent s optionally src n failed st st'" and "canCork st'" "corkOffset st' = 0"
    and "\<not> failed \<Longrightarrow> bpData (pressure (sock st' s)) = []"
proof (cases "corkOffset st = 0")
  case True
  let ?st = "st\<lparr>corkedSocket := None\<rparr>"
  have pre: "\<not> sockClosed (sock ?st s)" "\<not> isCorked s ?st" "bp_ok (pressure (sock ?st s))"
    "length (bpData (pressure (sock ?st s))) + length src < 2 ^ 31"
    using live loop_okD(3) [OF ok] small by (simp_all add: small_def)
  obtain n failed st' where w: "writeBody (\<lambda>_ _ _. None) sys s src optionally ?st = Some ((n, failed), st')"
    and t: "taken optionally src n failed" and wr: "wrote s (take n src) ?st st'"
    and e: "\<not> failed \<Longrightarrow> bpData (pressure (sock st' s)) = []"
    by (rule write_not_corked [OF sys pre, of "\<lambda>_ _ _. None" optionally]) blast
  have "uncork sys s src optionally st = Some ((n, failed), st')" using w cork True by (simp add: uncork_def Let_def)
  moreover have "sent s optionally src n failed ?st st'"
    by (rule wrote_sent [OF wr _ _ t]) (use ok True in \<open>simp_all add: loop_ok_def\<close>)
  then have "sent s optionally src n failed st st'"
    using True cork wr by (simp add: sent_def streamOf_def corkedBytes_def wrote_def)
  ultimately show thesis using that e wr True by (simp add: wrote_def)
next
  case False
  let ?cork = "take (corkOffset st) (corkBuffer st)"
  let ?st = "st\<lparr>corkedSocket := None\<rparr>"
  have e0: "bpData (pressure (sock st s)) = []" using loop_okD(4) [OF ok False cork live] .
  have lens: "length ?cork = corkOffset st" using loop_okD(1,2) [OF ok] by simp
  have rd: "rdN (corkBuffer st) 0 (corkOffset st) = Some ?cork" using loop_okD(1,2) [OF ok] by (simp add: rdN_def)
  have pre: "\<not> sockClosed (sock ?st s)" "\<not> isCorked s ?st" "bp_ok (pressure (sock ?st s))"
    "length (bpData (pressure (sock ?st s))) + length ?cork < 2 ^ 31"
    using live loop_okD(3) [OF ok] small lens by (simp_all add: small_def)
  obtain n1 failed1 st1 where w1: "writeBody (\<lambda>_ _ _. None) sys s ?cork False ?st = Some ((n1, failed1), st1)"
    and t1: "taken False ?cork n1 failed1" and wr1: "wrote s (take n1 ?cork) ?st st1"
    and e1: "\<not> failed1 \<Longrightarrow> bpData (pressure (sock st1 s)) = []"
    by (rule write_not_corked [OF sys pre, of "\<lambda>_ _ _. None" False]) blast
  have n1: "take n1 ?cork = ?cork" using t1 unfolding taken_def by (metis order_refl take_all)
  let ?st1 = "st1\<lparr>corkOffset := 0\<rparr>"
  have s1: "sent s False [] 0 failed1 st ?st1"
    using wr1 ok cork e0 unfolding n1 sent_def
    by (auto simp: wrote_def loop_ok_def streamOf_def corkedBytes_def taken_def)
  have ok1: "loop_ok ?st1" using s1 by (simp add: sent_def)
  have trans: "sent s optionally src n failed st st2" if "wrote s (take n src) ?st1 st2" "taken optionally src n failed" for n failed st2
  proof -
    have "sent s optionally src n failed ?st1 st2" by (rule wrote_sent [OF that(1) ok1 _ that(2)]) simp
    then show ?thesis using s1 by (simp add: sent_def)
  qed
  show thesis
  proof (cases failed1)
    case True
    show thesis
    proof (cases "\<not> optionally \<and> src \<noteq> []")
      case T: True
      have app: "wrote s (take (length src) src) ?st1 (onBack s (bpAppend src) ?st1)"
        using bp.append [OF loop_okD(3) [OF ok1], of src s] by (simp add: wrote_def onSock_def)
      show thesis
        by (rule that [OF _ trans [OF app]])
           (use T True rd w1 cork False wr1 app in \<open>auto simp: uncork_def Let_def taken_def wrote_def\<close>)
    next
      case F: False
      have id: "wrote s (take 0 src) ?st1 ?st1" using loop_okD(3) [OF ok1] by (simp add: wrote_def)
      show thesis
        by (rule that [OF _ trans [OF id, of True]])
           (use F True rd w1 cork False wr1 in \<open>auto simp: uncork_def Let_def taken_def wrote_def\<close>)
    qed
  next
    case ok1': False
    have pre2: "\<not> sockClosed (sock ?st1 s)" "\<not> isCorked s ?st1" "bp_ok (pressure (sock ?st1 s))"
      "length (bpData (pressure (sock ?st1 s))) + length src < 2 ^ 31"
      using wr1 live e1 ok1' loop_okD(3) [OF ok1, of s] small by (simp_all add: small_def wrote_def)
    obtain n failed st' where w: "writeBody (\<lambda>_ _ _. None) sys s src optionally ?st1 = Some ((n, failed), st')"
      and t: "taken optionally src n failed" and wr: "wrote s (take n src) ?st1 st'"
      and e: "\<not> failed \<Longrightarrow> bpData (pressure (sock st' s)) = []"
      by (rule write_not_corked [OF sys pre2, of "\<lambda>_ _ _. None" optionally]) blast
    show thesis
      by (rule that [OF _ trans [OF wr t]])
         (use e ok1' rd w1 w cork False wr1 wr in \<open>auto simp: uncork_def Let_def wrote_def\<close>)
  qed
qed

lemma write_sent:
  assumes sys: "kernel_ok sys" and ok: "loop_ok st" and live: "\<not> sockClosed (sock st s)"
    and small: "small s (length src) st"
  obtains n failed st' where "writeBytes sys s src optionally st = Some ((n, failed), st')"
    and "sent s optionally src n failed st st'"
    and "\<not> failed \<Longrightarrow> bpData (pressure (sock st' s)) = []"
proof (cases "isCorked s st")
  case False
  have len: "length (bpData (pressure (sock st s))) + length src < 2 ^ 31" using small by (simp add: small_def)
  show thesis
    by (rule write_not_corked [OF sys live False loop_okD(3) [OF ok] len, of "uncork sys s" optionally])
       (rule that, simp add: writeBytes_def, rule wrote_sent [OF _ ok], use False in auto)
next
  case True
  have len: "length (bpData (pressure (sock st s))) < 2 ^ 31" using small by (simp add: small_def)
  obtain limited st1 where d: "drainFirst sys s st = Some (limited, st1)" and w1: "wrote s [] st st1"
    and lim: "limited \<longleftrightarrow> bpData (pressure (sock st1 s)) \<noteq> []" "limited \<Longrightarrow> bpData (pressure (sock st s)) \<noteq> []"
    by (rule drainFirst_wrote [OF sys loop_okD(3) [OF ok] len]) blast
  have cork1: "isCorked s st1" "corkOffset st1 = corkOffset st" "\<not> sockClosed (sock st1 s)"
    using w1 True live by (simp_all add: wrote_def)
  have off: "limited \<Longrightarrow> corkOffset st = 0" using loop_okD(4) [OF ok _ True live] lim(2) by blast
  have ok1: "loop_ok st1"
  proof (cases "corkOffset st = 0")
    case True
    then show ?thesis using wrote_loop_ok [OF w1 ok] by blast
  next
    case F: False
    then have "bpData (pressure (sock st1 s)) = []" using lim(1) off by (cases limited) auto
    then show ?thesis using w1 ok True F unfolding loop_ok_def wrote_def by metis
  qed
  have s1: "sent s optionally [] 0 failed st st1" for failed
    using w1 ok1 by (simp add: sent_def taken_def streamOf_def corkedBytes_def wrote_def)
  note body = writeBody_drainFirst [of "uncork sys s" sys s src optionally st] live d
  show thesis
  proof (cases limited)
    case True
    then have w0: "corkOffset st1 = 0 \<or> \<not> isCorked s st1" using off cork1 by simp
    have app: "wrote s src st1 (onBack s (bpAppend src) st1)"
      using bp.append [OF loop_okD(3) [OF ok1], of src s] by (simp add: wrote_def onSock_def)
    have s2: "sent s False src (length src) True st1 (onBack s (bpAppend src) st1)"
      by (rule wrote_sent [OF _ ok1 w0]) (simp_all add: app taken_def)
    show thesis
    proof (cases optionally)
      case T: True
      show thesis
        by (rule that [of 0 True st1]) (use body True T s1 [of True] in \<open>auto simp: writeBytes_def sent_def taken_def\<close>)
    next
      case F: False
      show thesis
        by (rule that [of "length src" True "onBack s (bpAppend src) st1"])
           (use body True F s1 [of True] s2 in \<open>auto simp: writeBytes_def sent_def taken_def\<close>)
    qed
  next
    case free: False
    then have e1: "bpData (pressure (sock st1 s)) = []" using lim by blast
    show thesis
    proof (cases "length src \<le> CORK_BUFFER_SIZE - corkOffset st")
      case True
      let ?buf = "take (corkOffset st) (corkBuffer st1) @ src @ drop (corkOffset st + length src) (corkBuffer st1)"
      let ?st2 = "st1\<lparr>corkBuffer := ?buf, corkOffset := corkOffset st + length src\<rparr>"
      have fit: "corkOffset st + length src \<le> CORK_BUFFER_SIZE" using True loop_okD(2) [OF ok] by linarith
      have wr: "wrN (corkBuffer st1) (corkOffset st) src = Some ?buf"
        using fit loop_okD(1) [OF ok1] by (simp add: wrN_def)
      have s2: "sent s optionally src (length src) False st ?st2"
        using s1 [of False] fit loop_okD(1) [OF ok1] cork1 e1 ok1 True
        by (auto simp: sent_def taken_def streamOf_def corkedBytes_def loop_ok_def)
      have id: "st1\<lparr>corkBuffer := corkBuffer st1, corkOffset := corkOffset st1\<rparr> = st1" by simp
      show thesis
      proof (cases "src = []")
        case Nil: True
        show thesis
          by (rule that [of 0 False st1]) (use body free Nil s1 [of False] e1 in \<open>auto simp: writeBytes_def\<close>)
      next
        case F: False
        show thesis
          by (rule that [of "length src" False ?st2])
             (use body free cork1 True wr s2 e1 F in \<open>auto simp: writeBytes_def\<close>)
      qed
    next
      case False
      have "small s (length src) st1" using small cork1 e1 by (simp add: small_def)
      then obtain n failed st' where u: "uncork sys s src optionally st1 = Some ((n, failed), st')"
        and s2: "sent s optionally src n failed st1 st'" and e2: "\<not> failed \<Longrightarrow> bpData (pressure (sock st' s)) = []"
        by (rule uncork_sent [OF sys ok1 cork1(3,1), of src optionally]) blast
      show thesis
        by (rule that [of n failed st'])
           (use body free cork1 False u e2 s2 s1 [of False] in \<open>auto simp: writeBytes_def sent_def\<close>)
    qed
  qed
qed

lemma wrN_zeros:
  "wrN (a @ b @ replicate (length c + n) 0) (length a + length b) c = Some (a @ b @ c @ replicate n 0)"
  by (simp add: wrN_def)

lemma wrN_last:
  "wrN (a @ b @ c @ replicate (length d) 0) (length a + (length c + length b)) d = Some (a @ b @ c @ d)"
  by (simp add: wrN_def add.commute [of "length c"])

lemma cork_law:
  assumes "loop_ok st" and "\<not> sockClosed (sock st s)" and "isCorked s st \<or> corkOffset st = 0"
  obtains st' where "cork s st = Some st'" and "sent s False [] 0 False st st'" and "isCorked s st'"
    and "sock st' = sock st" and "corkOffset st' = corkOffset st"
proof
  show "cork s st = Some (st\<lparr>corkedSocket := Some s\<rparr>)" using assms(3) by (auto simp: cork_def)
  show "sent s False [] 0 False st (st\<lparr>corkedSocket := Some s\<rparr>)"
    using assms by (auto simp: sent_def taken_def loop_ok_def streamOf_def corkedBytes_def)
qed simp_all

lemma sendFrame_sent:
  assumes sys: "kernel_ok sys" and ok: "loop_ok st" and live: "\<not> sockClosed (sock st s)"
    and small: "small s (length frame) st"
  obtains fine st' where "sendFrame sys s frame st = Some (fine, st')"
    and "sent s False frame (length frame) (\<not> fine) st st'"
    and "fine \<Longrightarrow> bpData (pressure (sock st' s)) = []"
proof -
  let ?q = "pressure (sock st s)"
  note q = loop_okD(3) [OF ok, of s]
  note len = loop_okD(1,2) [OF ok]
  show thesis
  proof (cases "bpLength ?q = 0 \<and> (isCorked s st \<or> canCork st) \<and> corkOffset st + length frame < CORK_BUFFER_SIZE")
    case True
    then have e: "bpData ?q = []" using q by (simp add: bp.count)
    have "isCorked s st \<or> corkOffset st = 0" using True loop_okD(5) [OF ok] by auto
    then obtain st1 where c: "cork s st = Some st1" "sent s False [] 0 False st st1" "isCorked s st1"
        "sock st1 = sock st" "corkOffset st1 = corkOffset st"
      by (rule cork_law [OF ok live])
    have st1: "st1 = (if isCorked s st then st else st1)" using c(1) by (auto simp: cork_def split: if_splits)
    let ?buf = "take (corkOffset st) (corkBuffer st1) @ frame @ drop (corkOffset st + length frame) (corkBuffer st1)"
    let ?st2 = "st1\<lparr>corkOffset := corkOffset st + length frame, corkBuffer := ?buf\<rparr>"
    have ok1: "loop_ok st1" using c(2) by (simp add: sent_def)
    have wr: "wrN (corkBuffer st1) (corkOffset st) frame = Some ?buf"
      using True loop_okD(1) [OF ok1] by (simp add: wrN_def)
    have s2: "sent s False frame (length frame) False st ?st2"
      using c(2-5) True e ok1 loop_okD(1) [OF ok1] len
      by (auto simp: sent_def taken_def streamOf_def corkedBytes_def loop_ok_def)
    show thesis
    proof (cases "isCorked s st")
      case T: True
      then have "st1 = st" using st1 by simp
      then show thesis
        using that [of True ?st2] s2 wr T True e by (simp add: sendFrame_def getSendBuffer_def Let_def fillSendBuffer_def)
    next
      case F: False
      have ok2: "loop_ok ?st2" "\<not> sockClosed (sock ?st2 s)" "isCorked s ?st2" "small s (length []) ?st2"
        using s2 live c small e by (simp_all add: sent_def small_def)
      obtain n failed st' where u: "uncork sys s [] False ?st2 = Some ((n, failed), st')"
        and s3: "sent s False [] n failed ?st2 st'" and e3: "\<not> failed \<Longrightarrow> bpData (pressure (sock st' s)) = []"
        by (rule uncork_sent [OF sys ok2, of False]) blast
      show thesis
        using that [of "\<not> failed" st'] s2 s3 u wr F True c(1,5) e3
        by (simp add: sendFrame_def getSendBuffer_def Let_def fillSendBuffer_def sent_def taken_def)
    qed
  next
    case False
    let ?ours = "if isCorked s st \<and> corkOffset st \<noteq> 0 then corkOffset st else 0"
    let ?st1 = "if isCorked s st \<and> corkOffset st \<noteq> 0 then st\<lparr>corkOffset := 0\<rparr> else st"
    let ?cork = "take ?ours (corkBuffer st)"
    let ?q1 = "bpResize (?ours + bpLength ?q + length frame) ?q"
    let ?p = "pendingRemoval ?q"
    have lens: "length ?cork = ?ours" using len by auto
    have q1: "bp_ok ?q1" "bpData ?q1 = bpData ?q @ replicate (?ours + length frame) 0"
      using bp.resize [OF q, of "?ours + bpLength ?q + length frame"] by (simp_all add: bp.count [OF q])
    have pr: "pendingRemoval ?q1 = ?p" by (simp add: bpResize_def Let_def)
    have lp: "length (take ?p (bpBuffer ?q1)) = ?p" using bp_ok_le [OF q1(1)] pr by simp
    obtain a where split: "bpBuffer ?q1 = a @ bpData ?q @ replicate (length ?cork + length frame) 0" and a: "length a = ?p"
      using that [of "take ?p (bpBuffer ?q1)"] q1(2) lp unfolding bpData_def pr lens by (metis append_take_drop_id)
    have lq: "bpLength ?q = length (bpData ?q)" using bp.count [OF q] .
    let ?mem1 = "a @ bpData ?q @ ?cork @ replicate (length frame) 0"
    let ?mem2 = "a @ bpData ?q @ ?cork @ frame"
    have m1: "wrN (bpBuffer ?q1) (?p + bpLength ?q) ?cork = Some ?mem1"
      unfolding split unfolding lq a [symmetric] by (rule wrN_zeros)
    have m2: "wrN ?mem1 (?p + (?ours + bpLength ?q)) frame = Some ?mem2"
      using wrN_last [of a "bpData ?q" ?cork frame] by (simp only: lens lq a)
    have rd: "rdN (corkBuffer st) 0 ?ours = Some ?cork" using len by (simp add: rdN_def)
    let ?q2 = "?q1\<lparr>bpBuffer := ?mem2\<rparr>"
    let ?st2 = "onBack s (\<lambda>_. ?q2) ?st1"
    have "length ?mem2 = length (bpBuffer ?q1)" by (subst split) simp
    then have q2: "bp_ok ?q2" "bpData ?q2 = bpData ?q @ ?cork @ frame"
      using q1(1) pr a by (simp_all add: bp_ok_def bpData_def)
    have get: "getSendBuffer s (length frame) st =
        Some ((InBack (?ours + bpLength ?q), NEEDS_DRAIN), onBack s (\<lambda>_. ?q1\<lparr>bpBuffer := ?mem1\<rparr>) ?st1)"
      using False rd m1 pr unfolding getSendBuffer_def Let_def by auto
    have fill: "fillSendBuffer s (InBack (?ours + bpLength ?q)) frame (onBack s (\<lambda>_. ?q1\<lparr>bpBuffer := ?mem1\<rparr>) ?st1) = Some ?st2"
      using m2 pr by (simp add: fillSendBuffer_def onSock_def)
    have s2: "sent s False frame (length frame) True st ?st2"
    proof -
      have "loop_ok ?st2" using ok q2(1) unfolding loop_ok_def onSock_def by auto
      moreover have "streamOf s ?st2 = streamOf s st @ frame"
        using q2(2) by (auto simp: streamOf_def corkedBytes_def onSock_def)
      moreover have "streamOf r ?st2 = streamOf r st" if "r \<noteq> s" for r
        using that by (auto simp: streamOf_def corkedBytes_def onSock_def)
      ultimately show ?thesis by (auto simp: sent_def taken_def onSock_def)
    qed
    have ok2: "loop_ok ?st2" "\<not> sockClosed (sock ?st2 s)" "small s (length []) ?st2"
      using s2 live small q2(2) lens by (auto simp: sent_def small_def onSock_def)
    obtain n failed st' where w: "writeBytes sys s [] False ?st2 = Some ((n, failed), st')"
      and s3: "sent s False [] n failed ?st2 st'" and e3: "\<not> failed \<Longrightarrow> bpData (pressure (sock st' s)) = []"
      by (rule write_sent [OF sys ok2, of False]) blast
    show thesis
      using that [of "\<not> failed" st'] get fill w s2 s3 e3
      by (simp add: sendFrame_def sent_def taken_def)
  qed
qed

section \<open>All sequences of operations\<close>

definition freshLoop :: "'s asyncLoop" where
  "freshLoop =
     \<lparr>corkBuffer = replicate CORK_BUFFER_SIZE 0, corkOffset = 0, corkedSocket = None,
      sock = (\<lambda>_. \<lparr>pressure = bpClear, sockClosed = False, sockShut = False, pollsOut = False, wire = []\<rparr>),
      sends = 0\<rparr>"

text \<open>
  The states a loop reaches, with what each connection has accepted so far (the bytes the
  operation reported as taken). Closing and shutting down can happen at any time.
\<close>

inductive sending :: "kernel \<Rightarrow> 's asyncLoop \<Rightarrow> ('s \<Rightarrow> bytes) \<Rightarrow> bool" for sys :: kernel where
  fresh: "sending sys freshLoop (\<lambda>_. [])"
| written: "sending sys st acc \<Longrightarrow> \<not> sockClosed (sock st s) \<Longrightarrow> small s (length src) st \<Longrightarrow>
    writeBytes sys s src optionally st = Some ((n, failed), st') \<Longrightarrow> sending sys st' (acc(s := acc s @ take n src))"
| uncorked: "sending sys st acc \<Longrightarrow> \<not> sockClosed (sock st s) \<Longrightarrow> small s (length src) st \<Longrightarrow>
    uncork sys s src optionally st = Some ((n, failed), st') \<Longrightarrow> sending sys st' (acc(s := acc s @ take n src))"
| framed: "sending sys st acc \<Longrightarrow> \<not> sockClosed (sock st s) \<Longrightarrow> small s (length frame) st \<Longrightarrow>
    sendFrame sys s frame st = Some (fine, st') \<Longrightarrow> sending sys st' (acc(s := acc s @ frame))"
| corked: "sending sys st acc \<Longrightarrow> \<not> sockClosed (sock st s) \<Longrightarrow> cork s st = Some st' \<Longrightarrow> sending sys st' acc"
| shut: "sending sys st acc \<Longrightarrow> sending sys (onSock s (\<lambda>k. k\<lparr>sockShut := True\<rparr>) st) acc"
| closed: "sending sys st acc \<Longrightarrow> sending sys (onSock s (\<lambda>k. k\<lparr>sockClosed := True\<rparr>) st) acc"

definition streams :: "'s asyncLoop \<Rightarrow> ('s \<Rightarrow> bytes) \<Rightarrow> bool" where
  "streams st acc \<longleftrightarrow> loop_ok st \<and> (\<forall>s. \<not> sockClosed (sock st s) \<longrightarrow> streamOf s st = acc s)"

lemma streams_sent:
  assumes "streams st acc" and "\<not> sockClosed (sock st s)" and "sent s optionally src n failed st st'"
  shows "streams st' (acc(s := acc s @ take n src))"
  using assms by (auto simp: streams_def sent_def)

lemma sending_streams:
  assumes "sending sys st acc" and sys: "kernel_ok sys"
  shows "streams st acc"
  using assms(1)
proof induction
  case fresh
  then show ?case
    using bp.empty by (simp add: streams_def loop_ok_def streamOf_def corkedBytes_def freshLoop_def)
next
  case (written st acc s src optionally n failed st')
  then have ok: "loop_ok st" by (simp add: streams_def)
  obtain n' failed' st2 where "writeBytes sys s src optionally st = Some ((n', failed'), st2)"
    "sent s optionally src n' failed' st st2"
    by (rule write_sent [OF sys ok written(2,3), of optionally]) blast
  with written(4) have "sent s optionally src n failed st st'" by simp
  then show ?case by (rule streams_sent [OF written(5,2)])
next
  case (uncorked st acc s src optionally n failed st')
  then have ok: "loop_ok st" by (simp add: streams_def)
  show ?case
  proof (cases "isCorked s st")
    case True
    obtain n' failed' st2 where "uncork sys s src optionally st = Some ((n', failed'), st2)"
      "sent s optionally src n' failed' st st2"
      by (rule uncork_sent [OF sys ok uncorked(2) True uncorked(3), of optionally]) blast
    with uncorked(4) have "sent s optionally src n failed st st'" by simp
    then show ?thesis by (rule streams_sent [OF uncorked(5,2)])
  next
    case False
    then show ?thesis using uncorked by (auto simp: uncork_def)
  qed
next
  case (framed st acc s frame fine st')
  then have ok: "loop_ok st" by (simp add: streams_def)
  obtain fine' st2 where f: "sendFrame sys s frame st = Some (fine', st2)"
    "sent s False frame (length frame) (\<not> fine') st st2"
    by (rule sendFrame_sent [OF sys ok framed(2,3)])
  with framed(4) have "sent s False frame (length frame) (\<not> fine) st st'" by simp
  from streams_sent [OF framed(5,2) this] show ?case by (simp only: take_all order_refl)
next
  case (corked st acc s st')
  then show ?case
    by (auto simp: cork_def streams_def loop_ok_def streamOf_def corkedBytes_def split: if_splits)
next
  case (shut st acc s)
  then show ?case
    by (auto simp: streams_def loop_ok_def streamOf_def corkedBytes_def onSock_def)
next
  case (closed st acc s)
  then show ?case
    by (auto simp: streams_def loop_ok_def streamOf_def corkedBytes_def onSock_def)
qed

lemma reachable_ok: "sending sys st acc \<Longrightarrow> kernel_ok sys \<Longrightarrow> loop_ok st"
  using sending_streams unfolding streams_def by blast

text \<open>
  C7. Nothing is lost, duplicated or reordered: whatever the kernel takes of each write, and however
  writes, frames, corking, uncorking, shutdowns and closes of the connections of a loop are mixed,
  what has been sent on an open connection, followed by its backpressure and its part of the cork
  buffer, is exactly what it accepted, in order.
\<close>

theorem accepted_bytes_in_order:
  assumes "sending sys st acc" and "kernel_ok sys" and "\<not> sockClosed (sock st s)"
  shows "wire (sock st s) @ bpData (pressure (sock st s)) @ corkedBytes s st = acc s"
  using sending_streams [OF assms(1,2)] assms(3) by (simp add: streams_def streamOf_def)

text \<open>
  C27. No sending operation on an open connection fails: writing, building a frame and uncorking
  never touch memory outside the cork buffer or the backpressure and never hit the
  \<open>std::terminate\<close> of \<open>cork\<close>; and a write that is not optional always takes every byte (as long as
  what waits in the process fits C's \<open>int\<close>).
\<close>

theorem sending_is_safe:
  assumes "sending sys st acc" and "kernel_ok sys" and "\<not> sockClosed (sock st s)" and "small s (length src) st"
  shows "(\<exists>n failed st'. writeBytes sys s src optionally st = Some ((n, failed), st') \<and> n \<le> length src \<and>
        (\<not> optionally \<or> \<not> failed \<longrightarrow> n = length src)) \<and>
      sendFrame sys s src st \<noteq> None \<and> uncork sys s src optionally st \<noteq> None"
proof -
  note ok = reachable_ok [OF assms(1,2)]
  obtain n failed st' where "writeBytes sys s src optionally st = Some ((n, failed), st')"
    "sent s optionally src n failed st st'"
    by (rule write_sent [OF assms(2) ok assms(3,4), of optionally]) blast
  then have w: "\<exists>n failed st'. writeBytes sys s src optionally st = Some ((n, failed), st') \<and> n \<le> length src \<and>
      (\<not> optionally \<or> \<not> failed \<longrightarrow> n = length src)"
    by (auto simp: sent_def taken_def)
  obtain fine st' where "sendFrame sys s src st = Some (fine, st')"
    by (rule sendFrame_sent [OF assms(2) ok assms(3,4)])
  then have f: "sendFrame sys s src st \<noteq> None" by simp
  have "uncork sys s src optionally st \<noteq> None"
  proof (cases "isCorked s st")
    case True
    obtain r where "uncork sys s src optionally st = Some r"
      by (rule uncork_sent [OF assms(2) ok assms(3) True assms(4), of optionally]) blast
    then show ?thesis by simp
  qed (simp add: uncork_def)
  with w f show ?thesis by blast
qed

text \<open>
  Uncorking a corked connection frees the cork buffer, and if afterwards nothing is buffered
  (the test before every shutdown of a connection), every byte the connection ever accepted has
  been handed to the kernel.
\<close>

theorem uncork_flushes:
  assumes "sending sys st acc" and "kernel_ok sys" and "\<not> sockClosed (sock st s)"
    and "isCorked s st" and "small s 0 st"
  shows "\<exists>n failed st'. uncork sys s [] False st = Some ((n, failed), st') \<and>
    canCork st' \<and> corkOffset st' = 0 \<and> (getBufferedAmount s st' = 0 \<longrightarrow> wire (sock st' s) = acc s) \<and>
    (\<not> failed \<longrightarrow> getBufferedAmount s st' = 0)"
proof -
  note ok = reachable_ok [OF assms(1,2)]
  have "small s (length []) st" using assms(5) by simp
  from uncork_sent [OF assms(2) ok assms(3,4) this, of False]
  obtain n failed st' where u: "uncork sys s [] False st = Some ((n, failed), st')"
    and s: "sent s False [] n failed st st'" "canCork st'" "corkOffset st' = 0"
      "\<not> failed \<Longrightarrow> bpData (pressure (sock st' s)) = []" by metis
  have "streams st' (acc(s := acc s @ take n []))"
    using streams_sent [OF sending_streams [OF assms(1,2)] assms(3) s(1)] .
  moreover have "\<not> sockClosed (sock st' s)" using s(1) assms(3) by (simp add: sent_def)
  ultimately have "streamOf s st' = acc s" and bp: "bp_ok (pressure (sock st' s))"
    by (auto simp: streams_def loop_ok_def)
  then show ?thesis
    using u s by (auto simp: streamOf_def corkedBytes_def getBufferedAmount_def bpTotalLength_0)
qed

section \<open>The properties at concrete states\<close>

text \<open>A kernel that takes half of what it is offered.\<close>

definition halfKernel :: kernel where "halfKernel i n = int (n div 2)"

lemma halfKernel_ok: "kernel_ok halfKernel"
  by (simp add: kernel_ok_def halfKernel_def)

lemma small_fresh: "n < 100 \<Longrightarrow> small s n freshLoop"
  by (simp add: small_def freshLoop_def bpData_def bpClear_def)

lemma open_fresh: "\<not> sockClosed (sock freshLoop s)"
  by (simp add: freshLoop_def)

theorem accepted_bytes_in_order_witness:
  "\<exists>n failed st. writeBytes halfKernel (0::nat) [1, 2, 3] False freshLoop = Some ((n, failed), st) \<and>
     wire (sock st 0) @ bpData (pressure (sock st 0)) @ corkedBytes 0 st = [1, 2, 3]"
proof -
  have ok: "loop_ok freshLoop" by (rule reachable_ok [OF sending.fresh halfKernel_ok])
  have sm: "small (0::nat) (length [1, 2, 3 :: byte]) freshLoop" by (rule small_fresh) simp
  obtain n failed st where w: "writeBytes halfKernel (0::nat) [1, 2, 3] False freshLoop = Some ((n, failed), st)"
    and s: "sent 0 False [1, 2, 3] n failed freshLoop st"
    by (rule write_sent [OF halfKernel_ok ok open_fresh sm, of False]) blast
  from s have "\<not> sockClosed (sock st 0)" "take n [1, 2, 3 :: byte] = [1, 2, 3]"
    by (auto simp: sent_def taken_def freshLoop_def)
  then show ?thesis
    using w accepted_bytes_in_order [OF sending.written [OF sending.fresh open_fresh sm w] halfKernel_ok] by fastforce
qed

theorem sending_is_safe_witness:
  "(\<exists>n failed st'. writeBytes halfKernel (0::nat) [1, 2, 3] False freshLoop = Some ((n, failed), st') \<and>
      n \<le> length [1, 2, 3 :: byte] \<and> (\<not> False \<or> \<not> failed \<longrightarrow> n = length [1, 2, 3 :: byte])) \<and>
   sendFrame halfKernel (0::nat) [1, 2, 3] freshLoop \<noteq> None \<and> uncork halfKernel (0::nat) [1, 2, 3] False freshLoop \<noteq> None"
  by (rule sending_is_safe [OF sending.fresh halfKernel_ok open_fresh]) (simp add: small_fresh)

theorem uncork_flushes_witness:
  "\<exists>st. cork (0::nat) freshLoop = Some st \<and>
    (\<exists>n failed st'. uncork halfKernel 0 [] False st = Some ((n, failed), st') \<and>
      canCork st' \<and> corkOffset st' = 0 \<and> (getBufferedAmount 0 st' = 0 \<longrightarrow> wire (sock st' 0) = []) \<and>
      (\<not> failed \<longrightarrow> getBufferedAmount 0 st' = 0))"
proof -
  let ?st = "freshLoop\<lparr>corkedSocket := Some (0::nat)\<rparr>"
  have c: "cork 0 freshLoop = Some ?st" by (simp add: cork_def freshLoop_def)
  have "\<not> sockClosed (sock ?st 0)" "isCorked 0 ?st" "small 0 0 ?st"
    using open_fresh small_fresh [of 0 0] by (simp_all add: small_def)
  note flushed = uncork_flushes [OF sending.corked [OF sending.fresh open_fresh c] halfKernel_ok this]
  show ?thesis by (rule exI [of _ ?st], rule conjI [OF c flushed])
qed

end
