(* ===== verification/WebSocketHandshake.thy ===== *)
theory WebSocketHandshake
  imports Prelude
begin

text \<open>
  The Sec-WebSocket-Accept value of native/uwebsockets/WebSocketHandshake.h: two blocks of SHA-1 that
  are unrolled by templates over two arrays, and a base64 encoder for 20 bytes. Both are compared with
  references that follow the standards.
\<close>

section \<open>The program\<close>

definition rol :: "u32 \<Rightarrow> nat \<Rightarrow> u32" where
  "rol value bits = push_bit bits value OR drop_bit (32 - bits) value"

definition blk :: "u32 list \<Rightarrow> nat \<Rightarrow> u32" where
  "blk b i = rol (b ! ((i + 13) mod 16) XOR b ! ((i + 8) mod 16) XOR b ! ((i + 2) mod 16) XOR b ! i) 1"

text \<open>One instance \<open>f<i>\<close> per loop; the arrays \<open>a\<close> and \<open>b\<close> are threaded through.\<close>

definition Sha1Loop1 :: "nat \<Rightarrow> u32 list \<times> u32 list \<Rightarrow> u32 list \<times> u32 list" where
  "Sha1Loop1 i = (\<lambda>(a, b).
     (let a = a[i mod 5 := a ! (i mod 5) +
            ((a ! ((3 + i) mod 5) AND (a ! ((2 + i) mod 5) XOR a ! ((1 + i) mod 5))) XOR a ! ((1 + i) mod 5)) +
            b ! i + 0x5a827999 + rol (a ! ((4 + i) mod 5)) 5]
      in (a[(3 + i) mod 5 := rol (a ! ((3 + i) mod 5)) 30], b)))"

definition Sha1Loop2 :: "nat \<Rightarrow> u32 list \<times> u32 list \<Rightarrow> u32 list \<times> u32 list" where
  "Sha1Loop2 i = (\<lambda>(a, b).
     (let b = b[i := blk b i];
          a = a[(1 + i) mod 5 := a ! ((1 + i) mod 5) +
            ((a ! ((4 + i) mod 5) AND (a ! ((3 + i) mod 5) XOR a ! ((2 + i) mod 5))) XOR a ! ((2 + i) mod 5)) +
            b ! i + 0x5a827999 + rol (a ! ((5 + i) mod 5)) 5]
      in (a[(4 + i) mod 5 := rol (a ! ((4 + i) mod 5)) 30], b)))"

definition Sha1Loop3 :: "nat \<Rightarrow> u32 list \<times> u32 list \<Rightarrow> u32 list \<times> u32 list" where
  "Sha1Loop3 i = (\<lambda>(a, b).
     (let b = b[(i + 4) mod 16 := blk b ((i + 4) mod 16)];
          a = a[i mod 5 := a ! (i mod 5) +
            (a ! ((3 + i) mod 5) XOR a ! ((2 + i) mod 5) XOR a ! ((1 + i) mod 5)) +
            b ! ((i + 4) mod 16) + 0x6ed9eba1 + rol (a ! ((4 + i) mod 5)) 5]
      in (a[(3 + i) mod 5 := rol (a ! ((3 + i) mod 5)) 30], b)))"

definition Sha1Loop4 :: "nat \<Rightarrow> u32 list \<times> u32 list \<Rightarrow> u32 list \<times> u32 list" where
  "Sha1Loop4 i = (\<lambda>(a, b).
     (let b = b[(i + 8) mod 16 := blk b ((i + 8) mod 16)];
          a = a[i mod 5 := a ! (i mod 5) +
            (((a ! ((3 + i) mod 5) OR a ! ((2 + i) mod 5)) AND a ! ((1 + i) mod 5)) OR
             (a ! ((3 + i) mod 5) AND a ! ((2 + i) mod 5))) +
            b ! ((i + 8) mod 16) + 0x8f1bbcdc + rol (a ! ((4 + i) mod 5)) 5]
      in (a[(3 + i) mod 5 := rol (a ! ((3 + i) mod 5)) 30], b)))"

definition Sha1Loop5 :: "nat \<Rightarrow> u32 list \<times> u32 list \<Rightarrow> u32 list \<times> u32 list" where
  "Sha1Loop5 i = (\<lambda>(a, b).
     (let b = b[(i + 12) mod 16 := blk b ((i + 12) mod 16)];
          a = a[i mod 5 := a ! (i mod 5) +
            (a ! ((3 + i) mod 5) XOR a ! ((2 + i) mod 5) XOR a ! ((1 + i) mod 5)) +
            b ! ((i + 12) mod 16) + 0xca62c1d6 + rol (a ! ((4 + i) mod 5)) 5]
      in (a[(3 + i) mod 5 := rol (a ! ((3 + i) mod 5)) 30], b)))"

definition Sha1Loop6 :: "nat \<Rightarrow> u32 list \<times> u32 list \<Rightarrow> u32 list \<times> u32 list" where
  "Sha1Loop6 i = (\<lambda>(a, hash). (a, hash[i := hash ! i + a ! (4 - i)]))"

fun static_for :: "nat \<Rightarrow> (nat \<Rightarrow> 's \<Rightarrow> 's) \<Rightarrow> 's \<Rightarrow> 's" where
  "static_for 0 f s = s"
| "static_for (Suc n) f s = f n (static_for n f s)"

text \<open>The new hash, and the block as the loops leave it.\<close>

definition sha1 :: "u32 list \<Rightarrow> u32 list \<Rightarrow> u32 list \<times> u32 list" where
  "sha1 hash b =
     (let s = ([hash ! 4, hash ! 3, hash ! 2, hash ! 1, hash ! 0], b);
          s = static_for 16 Sha1Loop1 s;
          s = static_for 4 Sha1Loop2 s;
          s = static_for 20 Sha1Loop3 s;
          s = static_for 20 Sha1Loop4 s;
          (a, b) = static_for 20 Sha1Loop5 s;
          (a, hash) = static_for 5 Sha1Loop6 (a, hash)
      in (hash, b))"

definition b64Alphabet :: bytes where
  "b64Alphabet = ascii ''ABCDEFGHIJKLMNOPQRSTUVWXYZabcdefghijklmnopqrstuvwxyz0123456789+/''"

definition b64Char :: "byte \<Rightarrow> byte" where
  "b64Char i = b64Alphabet ! unat i"

definition base64 :: "bytes \<Rightarrow> bytes" where
  "base64 src =
     concat (map (\<lambda>i.
       [b64Char (drop_bit 2 (src ! i) AND 63),
        b64Char (push_bit 4 (src ! i AND 3) OR drop_bit 4 (src ! (i + 1) AND 240)),
        b64Char (push_bit 2 (src ! (i + 1) AND 15) OR drop_bit 6 (src ! (i + 2) AND 192)),
        b64Char (src ! (i + 2) AND 63)]) [0, 3, 6, 9, 12, 15]) @
     [b64Char (drop_bit 2 (src ! 18) AND 63),
      b64Char (push_bit 4 (src ! 18 AND 3) OR drop_bit 4 (src ! 19 AND 240)),
      b64Char (push_bit 2 (src ! 19 AND 15)),
      61]"

definition be32 :: "bytes \<Rightarrow> u32" where
  "be32 bs = load_le (rev bs)"

definition generate :: "bytes \<Rightarrow> bytes" where
  "generate input =
     (let b_output = [0x67452301, 0xefcdab89, 0x98badcfe, 0x10325476, 0xc3d2e1f0];
          b_input = [0, 0, 0, 0, 0, 0, 0x32353845, 0x41464135, 0x2d453931, 0x342d3437, 0x44412d39,
            0x3543412d, 0x43354142, 0x30444338, 0x35423131, 0x80000000];
          b_input = map (\<lambda>i. ucast (input ! (4 * i + 3)) OR push_bit 8 (ucast (input ! (4 * i + 2))) OR
            push_bit 16 (ucast (input ! (4 * i + 1))) OR push_bit 24 (ucast (input ! (4 * i)))) [0..<6] @ drop 6 b_input;
          (b_output, _) = sha1 b_output b_input;
          (b_output, _) = sha1 b_output (replicate 15 0 @ [480])
      in base64 (concat (map (\<lambda>w. rev (store_le 4 w)) b_output)))"

section \<open>The standards\<close>

text \<open>RFC 3174: the schedule and the 80 rounds of a block.\<close>

definition sha1F :: "nat \<Rightarrow> u32 \<Rightarrow> u32 \<Rightarrow> u32 \<Rightarrow> u32" where
  "sha1F t b c d =
     (if t < 20 then (b AND c) OR (NOT b AND d)
      else if t < 40 then b XOR c XOR d
      else if t < 60 then (b AND c) OR (b AND d) OR (c AND d)
      else b XOR c XOR d)"

definition sha1K :: "nat \<Rightarrow> u32" where
  "sha1K t = (if t < 20 then 0x5A827999 else if t < 40 then 0x6ED9EBA1 else if t < 60 then 0x8F1BBCDC else 0xCA62C1D6)"

fun sha1W :: "u32 list \<Rightarrow> nat \<Rightarrow> u32" where
  "sha1W M t =
     (if t < 16 then M ! t
      else rol (sha1W M (t - 3) XOR sha1W M (t - 8) XOR sha1W M (t - 14) XOR sha1W M (t - 16)) 1)"

declare sha1W.simps [simp del]

type_synonym sha1Regs = "u32 \<times> u32 \<times> u32 \<times> u32 \<times> u32"

definition sha1Round :: "u32 list \<Rightarrow> nat \<Rightarrow> sha1Regs \<Rightarrow> sha1Regs" where
  "sha1Round M t = (\<lambda>(a, b, c, d, e). (rol a 5 + sha1F t b c d + e + sha1W M t + sha1K t, a, rol b 30, c, d))"

definition sha1Block :: "u32 list \<Rightarrow> u32 list \<Rightarrow> u32 list" where
  "sha1Block H M =
     (case static_for 80 (sha1Round M) (H ! 0, H ! 1, H ! 2, H ! 3, H ! 4) of
        (a, b, c, d, e) \<Rightarrow> [H ! 0 + a, H ! 1 + b, H ! 2 + c, H ! 3 + d, H ! 4 + e])"

text \<open>Padding to blocks of 64 bytes and the length in bits at the end.\<close>

definition sha1Pad :: "bytes \<Rightarrow> bytes" where
  "sha1Pad m = m @ [0x80] @ replicate ((64 - (length m + 9) mod 64) mod 64) 0 @
     rev (store_le 8 (of_nat (8 * length m) :: u64))"

fun wordsOf :: "bytes \<Rightarrow> u32 list" where
  "wordsOf (a # b # c # d # bs) = be32 [a, b, c, d] # wordsOf bs"
| "wordsOf _ = []"

function blocksOf :: "u32 list \<Rightarrow> u32 list list" where
  "blocksOf ws = (if ws = [] then [] else take 16 ws # blocksOf (drop 16 ws))"
  by pat_completeness auto
termination by (relation "measure length") auto

declare blocksOf.simps [simp del]

definition sha1Hash :: "bytes \<Rightarrow> bytes" where
  "sha1Hash m =
     concat (map (\<lambda>w. rev (store_le 4 w))
       (fold (\<lambda>M H. sha1Block H M) (blocksOf (wordsOf (sha1Pad m)))
          [0x67452301, 0xEFCDAB89, 0x98BADCFE, 0x10325476, 0xC3D2E1F0]))"

text \<open>RFC 4648: groups of three bytes as four numbers below 64.\<close>

fun base64Spec :: "bytes \<Rightarrow> bytes" where
  "base64Spec (x # y # z # bs) =
     (let n = unat x * 65536 + unat y * 256 + unat z in
      map (\<lambda>k. b64Alphabet ! (n div 64 ^ k mod 64)) [3, 2, 1, 0]) @ base64Spec bs"
| "base64Spec [x, y] =
     (let n = unat x * 65536 + unat y * 256 in
      map (\<lambda>k. b64Alphabet ! (n div 64 ^ k mod 64)) [3, 2, 1]) @ [61]"
| "base64Spec [x] = (let n = unat x * 65536 in map (\<lambda>k. b64Alphabet ! (n div 64 ^ k mod 64)) [3, 2]) @ [61, 61]"
| "base64Spec [] = []"

definition websocketGuid :: bytes where
  "websocketGuid = ascii ''258EAFA5-E914-47DA-95CA-C5AB0DC85B11''"

section \<open>One round\<close>

text \<open>
  The five registers rotate through the array: in round \<open>t\<close> the register \<open>e\<close> is at \<open>t mod 5\<close> and the
  others follow it.
\<close>

definition roundArr :: "nat \<Rightarrow> (u32 \<Rightarrow> u32 \<Rightarrow> u32 \<Rightarrow> u32) \<Rightarrow> u32 \<Rightarrow> u32 \<Rightarrow> u32 list \<Rightarrow> u32 list" where
  "roundArr r F K w a =
     (let a = a[r := a ! r + F (a ! ((r + 3) mod 5)) (a ! ((r + 2) mod 5)) (a ! ((r + 1) mod 5)) + w + K +
            rol (a ! ((r + 4) mod 5)) 5]
      in a[(r + 3) mod 5 := rol (a ! ((r + 3) mod 5)) 30])"

definition regs :: "nat \<Rightarrow> u32 list \<Rightarrow> sha1Regs" where
  "regs r a = (a ! ((r + 4) mod 5), a ! ((r + 3) mod 5), a ! ((r + 2) mod 5), a ! ((r + 1) mod 5), a ! (r mod 5))"

lemma length5_cases: "length a = 5 \<Longrightarrow> \<exists>a0 a1 a2 a3 a4. a = [a0, a1, a2, a3, a4]"
  by (simp add: eval_nat_numeral length_Suc_conv) blast

lemma regs_roundArr:
  assumes "length a = 5" and "r < 5" and "regs r a = (ra, rb, rc, rr, re)"
  shows "regs (r + 1) (roundArr r F K w a) = (rol ra 5 + F rb rc rr + re + w + K, ra, rol rb 30, rc, rr) \<and>
    length (roundArr r F K w a) = 5"
proof -
  obtain a0 a1 a2 a3 a4 where a: "a = [a0, a1, a2, a3, a4]" using length5_cases [OF assms(1)] by blast
  consider "r = 0" | "r = 1" | "r = 2" | "r = 3" | "r = 4" using assms(2) by linarith
  then show ?thesis
    using assms(3) unfolding a by cases (auto simp: regs_def roundArr_def Let_def add_ac)
qed

lemma regs_mod: "regs (t mod 5) a = regs t a" "regs (t mod 5 + 1) a = regs (t + 1) a"
proof -
  have "(t mod 5 + k) mod 5 = (t + k) mod 5" "(t mod 5 + 1 + k) mod 5 = (t + 1 + k) mod 5" for k
    by (simp_all only: mod_add_left_eq add.assoc)
  moreover have "t mod 5 mod 5 = t mod 5" "(t mod 5 + 1) mod 5 = (t + 1) mod 5"
    by (simp_all only: mod_mod_trivial mod_add_left_eq)
  ultimately show "regs (t mod 5) a = regs t a" "regs (t mod 5 + 1) a = regs (t + 1) a"
    unfolding regs_def by (simp_all only:)
qed

lemma Ch_eq: "(b AND (c XOR d)) XOR d = (b AND c) OR (NOT b AND d)" for b c d :: u32
  by (rule bit_word_eqI) (auto simp: bit_simps)

lemma Maj_eq: "((b OR c) AND d) OR (b AND c) = (b AND c) OR (b AND d) OR (c AND d)" for b c d :: u32
  by (rule bit_word_eqI) (auto simp: bit_simps)

text \<open>The loops in terms of rounds: \<open>t\<close> is the number of the round, \<open>b\<close> already holds its word.\<close>

lemma mod5: "(k + i) mod 5 = (i mod 5 + k) mod 5" for i k :: nat
  by (subst add.commute) (rule mod_add_left_eq [symmetric])

lemma Sha1Loop1_round:
  assumes "i < 20"
  shows "Sha1Loop1 i (a, b) = (roundArr (i mod 5) (sha1F i) (sha1K i) (b ! i) a, b)"
proof -
  have F: "sha1F i = (\<lambda>b c d. (b AND c) OR (NOT b AND d))" and K: "sha1K i = 0x5a827999"
    using assms by (simp_all add: sha1F_def sha1K_def fun_eq_iff)
  show ?thesis unfolding Sha1Loop1_def roundArr_def F K Let_def prod.case mod5 [of _ i] Ch_eq ..
qed

lemma Sha1Loop2_round:
  assumes "i < 4"
  shows "Sha1Loop2 i (a, b) =
     (let b = b[i := blk b i] in (roundArr ((16 + i) mod 5) (sha1F (16 + i)) (sha1K (16 + i)) (b ! i) a, b))"
proof -
  have F: "sha1F (16 + i) = (\<lambda>b c d. (b AND c) OR (NOT b AND d))" and K: "sha1K (16 + i) = 0x5a827999"
    using assms by (simp_all add: sha1F_def sha1K_def fun_eq_iff)
  have m: "(16 + i) mod 5 = (1 + i) mod 5" by presburger
  have "(2 + i) mod 5 = ((1 + i) mod 5 + 1) mod 5" "(3 + i) mod 5 = ((1 + i) mod 5 + 2) mod 5"
    "(4 + i) mod 5 = ((1 + i) mod 5 + 3) mod 5" "(5 + i) mod 5 = ((1 + i) mod 5 + 4) mod 5" by presburger+
  then show ?thesis unfolding Sha1Loop2_def roundArr_def F K Let_def prod.case m Ch_eq by (simp only:)
qed

lemma Sha1Loop3_round:
  assumes "i < 20"
  shows "Sha1Loop3 i (a, b) =
     (let j = (20 + i) mod 16; b = b[j := blk b j] in
      (roundArr ((20 + i) mod 5) (sha1F (20 + i)) (sha1K (20 + i)) (b ! j) a, b))"
proof -
  have F: "sha1F (20 + i) = (\<lambda>b c d. b XOR c XOR d)" and K: "sha1K (20 + i) = 0x6ed9eba1"
    using assms by (simp_all add: sha1F_def sha1K_def fun_eq_iff)
  have e: "20 + i = i + 4 * 5" "20 + i = (i + 4) + 1 * 16" by simp_all
  have m: "(20 + i) mod 5 = i mod 5" "(20 + i) mod 16 = (i + 4) mod 16"
    by (simp_all only: e(1) mod_mult_self1) (simp only: e(1) [symmetric] e(2) mod_mult_self1)
  show ?thesis unfolding Sha1Loop3_def roundArr_def F K Let_def prod.case m unfolding mod5 [of _ i] ..
qed

lemma Sha1Loop4_round:
  assumes "i < 20"
  shows "Sha1Loop4 i (a, b) =
     (let j = (40 + i) mod 16; b = b[j := blk b j] in
      (roundArr ((40 + i) mod 5) (sha1F (40 + i)) (sha1K (40 + i)) (b ! j) a, b))"
proof -
  have F: "sha1F (40 + i) = (\<lambda>b c d. (b AND c) OR (b AND d) OR (c AND d))" and K: "sha1K (40 + i) = 0x8f1bbcdc"
    using assms by (simp_all add: sha1F_def sha1K_def fun_eq_iff)
  have e: "40 + i = i + 8 * 5" "40 + i = (i + 8) + 2 * 16" by simp_all
  have m: "(40 + i) mod 5 = i mod 5" "(40 + i) mod 16 = (i + 8) mod 16"
    by (simp_all only: e(1) mod_mult_self1) (simp only: e(1) [symmetric] e(2) mod_mult_self1)
  show ?thesis unfolding Sha1Loop4_def roundArr_def F K Let_def prod.case m Maj_eq unfolding mod5 [of _ i] ..
qed

lemma Sha1Loop5_round:
  assumes "i < 20"
  shows "Sha1Loop5 i (a, b) =
     (let j = (60 + i) mod 16; b = b[j := blk b j] in
      (roundArr ((60 + i) mod 5) (sha1F (60 + i)) (sha1K (60 + i)) (b ! j) a, b))"
proof -
  have F: "sha1F (60 + i) = (\<lambda>b c d. b XOR c XOR d)" and K: "sha1K (60 + i) = 0xca62c1d6"
    using assms by (simp_all add: sha1F_def sha1K_def fun_eq_iff)
  have e: "60 + i = i + 12 * 5" "60 + i = (i + 12) + 3 * 16" by simp_all
  have m: "(60 + i) mod 5 = i mod 5" "(60 + i) mod 16 = (i + 12) mod 16"
    by (simp_all only: e(1) mod_mult_self1) (simp only: e(1) [symmetric] e(2) mod_mult_self1)
  show ?thesis unfolding Sha1Loop5_def roundArr_def F K Let_def prod.case m unfolding mod5 [of _ i] ..
qed

section \<open>All rounds\<close>

text \<open>The block is a ring of the last sixteen words of the schedule.\<close>

definition simulates :: "u32 list \<Rightarrow> sha1Regs \<Rightarrow> nat \<Rightarrow> u32 list \<times> u32 list \<Rightarrow> bool" where
  "simulates M r t = (\<lambda>(a, b). length a = 5 \<and> length b = 16 \<and> regs t a = static_for t (sha1Round M) r \<and>
     (\<forall>j. j < max 16 t \<longrightarrow> max 16 t - 16 \<le> j \<longrightarrow> b ! (j mod 16) = sha1W M j))"

lemma simulates_round:
  assumes "simulates M r t (a, b)" and "length b' = 16" and "b' ! (t mod 16) = sha1W M t"
    and "\<forall>j. j < max 16 (Suc t) \<longrightarrow> max 16 (Suc t) - 16 \<le> j \<longrightarrow> b' ! (j mod 16) = sha1W M j"
  shows "simulates M r (Suc t) (roundArr (t mod 5) (sha1F t) (sha1K t) (b' ! (t mod 16)) a, b')"
proof -
  obtain ra rb rc rr re where reg: "static_for t (sha1Round M) r = (ra, rb, rc, rr, re)" by (metis prod_cases5)
  have a: "length a = 5" "regs (t mod 5) a = (ra, rb, rc, rr, re)"
    using assms(1) reg by (simp_all add: simulates_def regs_mod)
  have "t mod 5 < 5" by simp
  from regs_roundArr [OF a(1) this a(2), of "sha1F t" "sha1K t" "b' ! (t mod 16)", unfolded regs_mod(2)]
  show ?thesis using assms(2-4) reg
    by (simp add: simulates_def regs_mod sha1Round_def)
qed

lemma simulates_ring:
  assumes "simulates M r t (a, b)" and "16 \<le> t" and "b' = b[t mod 16 := blk b (t mod 16)]"
  shows "length b' = 16" and "b' ! (t mod 16) = sha1W M t"
    and "\<forall>j. j < max 16 (Suc t) \<longrightarrow> max 16 (Suc t) - 16 \<le> j \<longrightarrow> b' ! (j mod 16) = sha1W M j"
proof -
  have b: "length b = 16" and ring: "\<And>j. j < t \<Longrightarrow> t - 16 \<le> j \<Longrightarrow> b ! (j mod 16) = sha1W M j"
    using assms(1,2) by (simp_all add: simulates_def max_def)
  show len: "length b' = 16" using b assms(3) by simp
  obtain u where u: "t = u + 16" using assms(2) by (metis add.commute le_Suc_ex)
  have "(u + 16) mod 16 = u mod 16" "u + 16 - 3 = u + 13" "u + 16 - 8 = u + 8" "u + 16 - 14 = u + 2" "u + 16 - 16 = u" by simp_all
  then have idx: "(t mod 16 + 13) mod 16 = (t - 3) mod 16" "(t mod 16 + 8) mod 16 = (t - 8) mod 16"
    "(t mod 16 + 2) mod 16 = (t - 14) mod 16" "t mod 16 = (t - 16) mod 16"
    unfolding u by (simp_all only: mod_add_left_eq)
  have "blk b (t mod 16) = rol (sha1W M (t - 3) XOR sha1W M (t - 8) XOR sha1W M (t - 14) XOR sha1W M (t - 16)) 1"
    unfolding blk_def idx(1-3) using ring [of "t - 3"] ring [of "t - 8"] ring [of "t - 14"] ring [of "t - 16"] idx(4) assms(2)
    by simp
  also have "\<dots> = sha1W M t" using assms(2) by (simp add: sha1W.simps [of M t])
  finally show new: "b' ! (t mod 16) = sha1W M t" using b assms(3) by simp
  show "\<forall>j. j < max 16 (Suc t) \<longrightarrow> max 16 (Suc t) - 16 \<le> j \<longrightarrow> b' ! (j mod 16) = sha1W M j"
  proof (intro allI impI)
    fix j assume j: "j < max 16 (Suc t)" "max 16 (Suc t) - 16 \<le> j"
    show "b' ! (j mod 16) = sha1W M j"
    proof (cases "j = t")
      case True
      then show ?thesis using new by simp
    next
      case False
      then have jt: "j < t" "t - 16 < j" using j assms(2) by auto
      then have "\<not> 16 dvd t - j" using nat_dvd_not_less [of "t - j" 16] assms(2) by simp
      then have "j mod 16 \<noteq> t mod 16" using mod_eq_dvd_iff_nat [of j t 16] jt by auto
      then show ?thesis using ring [of j] jt assms(3) by simp
    qed
  qed
qed

lemma static_for_simulates:
  assumes "simulates M r t0 s" and "\<And>i s. i < n \<Longrightarrow> simulates M r (t0 + i) s \<Longrightarrow> simulates M r (Suc (t0 + i)) (f i s)"
  shows "k \<le> n \<Longrightarrow> simulates M r (t0 + k) (static_for k f s)"
  using assms by (induction k) auto

lemma sha1_rounds:
  assumes "length M = 16" and "length h = 5"
  shows "\<exists>a b. static_for 20 Sha1Loop5 (static_for 20 Sha1Loop4 (static_for 20 Sha1Loop3 (static_for 4 Sha1Loop2
      (static_for 16 Sha1Loop1 ([h ! 4, h ! 3, h ! 2, h ! 1, h ! 0], M))))) = (a, b) \<and>
    length a = 5 \<and> regs 80 a = static_for 80 (sha1Round M) (h ! 0, h ! 1, h ! 2, h ! 3, h ! 4)"
proof -
  let ?r = "(h ! 0, h ! 1, h ! 2, h ! 3, h ! 4)" and ?s = "([h ! 4, h ! 3, h ! 2, h ! 1, h ! 0], M)"
  have 0: "simulates M ?r 0 ?s"
    using assms by (simp add: simulates_def regs_def sha1W.simps)
  have 1: "simulates M ?r (Suc (0 + i)) (Sha1Loop1 i s)" if "i < 16" "simulates M ?r (0 + i) s" for i s
  proof -
    obtain a b where s: "s = (a, b)" by fastforce
    have ring: "\<forall>j. j < max 16 (Suc i) \<longrightarrow> max 16 (Suc i) - 16 \<le> j \<longrightarrow> b ! (j mod 16) = sha1W M j" and b: "length b = 16"
      using that by (simp_all add: simulates_def s)
    then have "b ! (i mod 16) = sha1W M i" using that(1) by simp
    from simulates_round [OF that(2) [unfolded s] b] this ring
    show ?thesis using that(1) by (simp add: s Sha1Loop1_round)
  qed
  have ringed: "simulates M ?r (Suc t) (let j = t mod 16; b = b[j := blk b j] in (roundArr (t mod 5) (sha1F t) (sha1K t) (b ! j) a, b))"
    if "simulates M ?r t (a, b)" "16 \<le> t" for t a b
    using simulates_round [OF that(1) simulates_ring [OF that refl]] by (simp add: Let_def)
  have 2: "simulates M ?r (Suc (16 + i)) (Sha1Loop2 i s)" if "i < 4" "simulates M ?r (16 + i) s" for i s
    using that ringed [of "16 + i"] by (cases s) (simp add: Sha1Loop2_round)
  have 3: "simulates M ?r (Suc (20 + i)) (Sha1Loop3 i s)" if "i < 20" "simulates M ?r (20 + i) s" for i s
    using that ringed [of "20 + i"] by (cases s) (simp add: Sha1Loop3_round)
  have 4: "simulates M ?r (Suc (40 + i)) (Sha1Loop4 i s)" if "i < 20" "simulates M ?r (40 + i) s" for i s
    using that ringed [of "40 + i"] by (cases s) (simp add: Sha1Loop4_round)
  have 5: "simulates M ?r (Suc (60 + i)) (Sha1Loop5 i s)" if "i < 20" "simulates M ?r (60 + i) s" for i s
    using that ringed [of "60 + i"] by (cases s) (simp add: Sha1Loop5_round)
  have r1: "simulates M ?r (0 + 16) (static_for 16 Sha1Loop1 ?s)"
    by (rule static_for_simulates [of M ?r 0 _ 16]) (use 0 1 in simp_all)
  have r2: "simulates M ?r (16 + 4) (static_for 4 Sha1Loop2 (static_for 16 Sha1Loop1 ?s))"
    by (rule static_for_simulates [of M ?r 16 _ 4]) (use r1 2 in simp_all)
  have r3: "simulates M ?r (20 + 20) (static_for 20 Sha1Loop3 (static_for 4 Sha1Loop2 (static_for 16 Sha1Loop1 ?s)))"
    by (rule static_for_simulates [of M ?r 20 _ 20]) (use r2 3 in simp_all)
  have r4: "simulates M ?r (40 + 20) (static_for 20 Sha1Loop4 (static_for 20 Sha1Loop3 (static_for 4 Sha1Loop2 (static_for 16 Sha1Loop1 ?s))))"
    by (rule static_for_simulates [of M ?r 40 _ 20]) (use r3 4 in simp_all)
  have r5: "simulates M ?r (60 + 20) (static_for 20 Sha1Loop5 (static_for 20 Sha1Loop4 (static_for 20 Sha1Loop3 (static_for 4 Sha1Loop2 (static_for 16 Sha1Loop1 ?s)))))"
    by (rule static_for_simulates [of M ?r 60 _ 20]) (use r4 5 in simp_all)
  show ?thesis using r5 by (auto simp: simulates_def split: prod.splits)
qed

text \<open>One call is one block of the standard.\<close>

lemma sha1_block:
  assumes "length M = 16" and "length h = 5"
  shows "fst (sha1 h M) = sha1Block h M"
proof -
  obtain a b where l: "static_for 20 Sha1Loop5 (static_for 20 Sha1Loop4 (static_for 20 Sha1Loop3 (static_for 4 Sha1Loop2
      (static_for 16 Sha1Loop1 ([h ! 4, h ! 3, h ! 2, h ! 1, h ! 0], M))))) = (a, b)"
    and a: "length a = 5" "regs 80 a = static_for 80 (sha1Round M) (h ! 0, h ! 1, h ! 2, h ! 3, h ! 4)"
    using sha1_rounds [OF assms] by blast
  obtain h0 h1 h2 h3 h4 where h: "h = [h0, h1, h2, h3, h4]" using length5_cases [OF assms(2)] by blast
  obtain a0 a1 a2 a3 a4 where ae: "a = [a0, a1, a2, a3, a4]" using length5_cases [OF a(1)] by blast
  have f: "static_for 5 Sha1Loop6 (a, h) = (a, [h0 + a4, h1 + a3, h2 + a2, h3 + a1, h4 + a0])"
    by (simp add: eval_nat_numeral Sha1Loop6_def h ae)
  have reg: "static_for 80 (sha1Round M) (h ! 0, h ! 1, h ! 2, h ! 3, h ! 4) = (a4, a3, a2, a1, a0)"
    using a(2) by (simp add: regs_def ae)
  show ?thesis unfolding sha1_def sha1Block_def Let_def l prod.case f reg fst_conv by (simp add: h)
qed

section \<open>Base64\<close>

lemma unat_and_mask: "unat (x AND 63) = unat x mod 64" "unat (x AND 3) = unat x mod 4" "unat (x AND 15) = unat x mod 16"
  for x :: byte
proof -
  have "unat (x AND mask k) = unat x mod 2 ^ k" for k
    unfolding take_bit_eq_mask [symmetric] unsigned_take_bit_eq by (rule take_bit_eq_mod)
  from this [of 6] this [of 2] this [of 4]
  show "unat (x AND 63) = unat x mod 64" "unat (x AND 3) = unat x mod 4" "unat (x AND 15) = unat x mod 16"
    by (simp_all add: mask_eq_exp_minus_1)
qed

lemma high_bits_all:
  "\<forall>n \<in> set [0..<256]. unat (drop_bit 4 ((of_nat n :: byte) AND 240)) = n div 16 \<and>
     unat (drop_bit 6 ((of_nat n :: byte) AND 192)) = n div 64"
  by code_simp

lemma unat_high: "unat (drop_bit 2 x AND 63) = unat x div 4" "unat (drop_bit 4 (x AND 240)) = unat x div 16"
  "unat (drop_bit 6 (x AND 192)) = unat x div 64" for x :: byte
proof -
  have lt: "unat x < 256" by (rule unat_byte_less)
  have d: "unat (drop_bit 2 x) = unat x div 2 ^ 2"
    unfolding unsigned_drop_bit_eq by (simp add: drop_bit_eq_div take_bit_nat_eq_self)
  show "unat (drop_bit 2 x AND 63) = unat x div 4"
    using lt less_mult_imp_div_less [of "unat x" 64 4] unfolding unat_and_mask d by simp
  have "unat x \<in> set [0..<256]" using lt by simp
  from bspec [OF high_bits_all this]
  show "unat (drop_bit 4 (x AND 240)) = unat x div 16" "unat (drop_bit 6 (x AND 192)) = unat x div 64"
    unfolding of_nat_unat_id by blast+
qed

text \<open>Putting the bits of two bytes together.\<close>

lemma unat_push_or:
  fixes a b :: byte
  assumes "unat a * 2 ^ k < 256" and "unat b < 2 ^ k" and "k < 8"
  shows "unat (push_bit k a OR b) = unat a * 2 ^ k + unat b"
proof -
  have "push_bit k a AND b = 0"
  proof (rule bit_word_eqI)
    fix n assume "n < LENGTH(8)"
    have "\<not> bit b n" if "k \<le> n"
    proof -
      have "unat b < 2 ^ n" using assms(2) that by (meson le_less_trans less_le_trans power_increasing one_le_numeral order_less_imp_le)
      then have "\<not> bit (unat b) n" by (simp add: bit_iff_odd)
      then show ?thesis by (simp add: bit_unsigned_iff)
    qed
    then show "bit (push_bit k a AND b) n = bit (0 :: byte) n"
      by (auto simp: bit_and_iff bit_push_bit_iff)
  qed
  then have "push_bit k a OR b = push_bit k a + b" by (rule disjunctive_add_eq_or [symmetric])
  also have "\<dots> = of_nat (unat a * 2 ^ k + unat b)" by (simp add: push_bit_eq_mult)
  finally have e: "push_bit k a OR b = of_nat (unat a * 2 ^ k + unat b)" .
  have "unat a * 2 ^ k + unat b < 256"
  proof -
    have "unat a < 2 ^ (8 - k)"
    proof (rule ccontr)
      assume "\<not> unat a < 2 ^ (8 - k)"
      then have "2 ^ (8 - k) * 2 ^ k \<le> unat a * 2 ^ k" by simp
      moreover have "(2 :: nat) ^ (8 - k) * 2 ^ k = 256" using assms(3) by (simp flip: power_add)
      ultimately show False using assms(1) by simp
    qed
    then have "unat a + 1 \<le> 2 ^ (8 - k)" by simp
    then have "(unat a + 1) * 2 ^ k \<le> 2 ^ (8 - k) * 2 ^ k" by (rule mult_le_mono1)
    moreover have "(2 :: nat) ^ (8 - k) * 2 ^ k = 256" using assms(3) by (simp flip: power_add)
    ultimately show ?thesis using assms(2) by (simp add: distrib_right)
  qed
  then show ?thesis unfolding e by (rule unat_of_nat_u8)
qed

lemma base64_group:
  fixes x y z :: byte
  defines "n \<equiv> unat x * 65536 + unat y * 256 + unat z"
  shows "unat (drop_bit 2 x AND 63) = n div 64 ^ 3 mod 64"
    "unat (push_bit 4 (x AND 3) OR drop_bit 4 (y AND 240)) = n div 64 ^ 2 mod 64"
    "unat (push_bit 2 (y AND 15) OR drop_bit 6 (z AND 192)) = n div 64 ^ 1 mod 64"
    "unat (z AND 63) = n div 64 ^ 0 mod 64"
proof -
  define X Y Z where "X = unat x" and "Y = unat y" and "Z = unat z"
  have lt: "X < 256" "Y < 256" "Z < 256" by (simp_all add: X_def Y_def Z_def)
  have n: "n = X * 65536 + Y * 256 + Z" by (simp add: n_def X_def Y_def Z_def)
  define xh xl yh yl zh zl where parts_def: "xh = X div 4" "xl = X mod 4" "yh = Y div 16" "yl = Y mod 16"
    "zh = Z div 64" "zl = Z mod 64"
  have p: "X = xh * 4 + xl" "Y = yh * 16 + yl" "Z = zh * 64 + zl" by (simp_all add: parts_def)
  have b: "xl < 4" "yl < 16" "zl < 64" by (simp_all add: parts_def)
  have h: "xh < 64" "yh < 16" "zh < 4" using p lt by linarith+
  have split: "(k * b + r) div b = k" "(k * b + r) mod b = r" if "r < b" for k b r :: nat
    using that by simp_all
  have d3: "n div 262144 = X div 4"
  proof -
    have "n = xh * 262144 + (xl * 65536 + Y * 256 + Z)" unfolding n p(1) by simp
    moreover have "xl * 65536 + Y * 256 + Z < 262144" using lt b by linarith
    ultimately show ?thesis using split(1) parts_def(1) by metis
  qed
  have d2: "n div 4096 mod 64 = (X mod 4) * 16 + Y div 16"
  proof -
    have "n = (xh * 64 + (xl * 16 + yh)) * 4096 + (yl * 256 + Z)" unfolding n p(1) p(2) by simp
    moreover have "yl * 256 + Z < 4096" using lt b by linarith
    ultimately have "n div 4096 = xh * 64 + (xl * 16 + yh)" using split(1) by metis
    moreover have "xl * 16 + yh < 64" using b h by linarith
    ultimately show ?thesis using split(2) parts_def by metis
  qed
  have d1: "n div 64 mod 64 = (Y mod 16) * 4 + Z div 64"
  proof -
    have "n = ((X * 16 + yh) * 64 + (yl * 4 + zh)) * 64 + zl" unfolding n p(2) p(3) by simp
    then have "n div 64 = (X * 16 + yh) * 64 + (yl * 4 + zh)" using split(1) b(3) by metis
    moreover have "yl * 4 + zh < 64" using b h by linarith
    ultimately show ?thesis using split(2) parts_def by metis
  qed
  have d0: "n mod 64 = Z mod 64"
  proof -
    have "n = (X * 1024 + Y * 4) * 64 + Z" unfolding n by simp
    then show ?thesis by (simp only: mod_mult_self3)
  qed
  show "unat (drop_bit 2 x AND 63) = n div 64 ^ 3 mod 64"
    using d3 lt by (simp add: unat_high X_def [symmetric])
  have "unat (push_bit 4 (x AND 3) OR drop_bit 4 (y AND 240)) = unat (x AND 3) * 2 ^ 4 + unat (drop_bit 4 (y AND 240))"
    by (rule unat_push_or) (unfold unat_and_mask unat_high X_def [symmetric] Y_def [symmetric], use lt b h in \<open>simp_all add: p\<close>)
  also have "\<dots> = (X mod 4) * 16 + Y div 16" unfolding unat_and_mask unat_high X_def Y_def by simp
  finally show "unat (push_bit 4 (x AND 3) OR drop_bit 4 (y AND 240)) = n div 64 ^ 2 mod 64" using d2 by simp
  have "unat (push_bit 2 (y AND 15) OR drop_bit 6 (z AND 192)) = unat (y AND 15) * 2 ^ 2 + unat (drop_bit 6 (z AND 192))"
    by (rule unat_push_or) (unfold unat_and_mask unat_high Y_def [symmetric] Z_def [symmetric], use lt b h in \<open>simp_all add: p\<close>)
  also have "\<dots> = (Y mod 16) * 4 + Z div 64" unfolding unat_and_mask unat_high Y_def Z_def by simp
  finally show "unat (push_bit 2 (y AND 15) OR drop_bit 6 (z AND 192)) = n div 64 ^ 1 mod 64" using d1 by simp
  show "unat (z AND 63) = n div 64 ^ 0 mod 64"
    using d0 by (simp add: unat_and_mask Z_def)
qed

lemma base64_spec:
  assumes "length src = 20"
  shows "base64 src = base64Spec src"
proof -
  have "\<exists>x0 x1 x2 x3 x4 x5 x6 x7 x8 x9 x10 x11 x12 x13 x14 x15 x16 x17 x18 x19.
      src = [x0, x1, x2, x3, x4, x5, x6, x7, x8, x9, x10, x11, x12, x13, x14, x15, x16, x17, x18, x19]"
    using assms by (simp add: eval_nat_numeral length_Suc_conv) blast
  then obtain x0 x1 x2 x3 x4 x5 x6 x7 x8 x9 x10 x11 x12 x13 x14 x15 x16 x17 x18 x19 where
    src: "src = [x0, x1, x2, x3, x4, x5, x6, x7, x8, x9, x10, x11, x12, x13, x14, x15, x16, x17, x18, x19]"
    by (elim exE)
  have group: "[b64Char (drop_bit 2 x AND 63), b64Char (push_bit 4 (x AND 3) OR drop_bit 4 (y AND 240)),
      b64Char (push_bit 2 (y AND 15) OR drop_bit 6 (z AND 192)), b64Char (z AND 63)] =
    (let n = unat x * 65536 + unat y * 256 + unat z in map (\<lambda>k. b64Alphabet ! (n div 64 ^ k mod 64)) [3, 2, 1, 0])" for x y z
    unfolding b64Char_def base64_group(1) [of x y z] base64_group(2) [of x y z] base64_group(3) [of y z x]
      base64_group(4) [of z x y] Let_def list.map by (rule refl)
  have zero: "push_bit 2 (y AND 15) OR drop_bit 6 ((0 :: byte) AND 192) = push_bit 2 (y AND 15)" for y
    by simp
  have last: "[b64Char (drop_bit 2 x AND 63), b64Char (push_bit 4 (x AND 3) OR drop_bit 4 (y AND 240)),
      b64Char (push_bit 2 (y AND 15))] =
    (let n = unat x * 65536 + unat y * 256 in map (\<lambda>k. b64Alphabet ! (n div 64 ^ k mod 64)) [3, 2, 1])" for x y
    using group [of x y 0] unfolding zero by (simp only: Let_def list.map list.inject unsigned_0 add_0_right)
  have at: "src ! 0 = x0" "src ! 1 = x1" "src ! 2 = x2" "src ! 3 = x3" "src ! 4 = x4" "src ! 5 = x5" "src ! 6 = x6"
    "src ! 7 = x7" "src ! 8 = x8" "src ! 9 = x9" "src ! 10 = x10" "src ! 11 = x11" "src ! 12 = x12" "src ! 13 = x13"
    "src ! 14 = x14" "src ! 15 = x15" "src ! 16 = x16" "src ! 17 = x17" "src ! 18 = x18" "src ! 19 = x19"
    by (simp_all add: src)
  have idx: "(3 :: nat) + 1 = 4" "(3 :: nat) + 2 = 5" "(6 :: nat) + 1 = 7" "(6 :: nat) + 2 = 8" "(9 :: nat) + 1 = 10"
    "(9 :: nat) + 2 = 11" "(12 :: nat) + 1 = 13" "(12 :: nat) + 2 = 14" "(15 :: nat) + 1 = 16" "(15 :: nat) + 2 = 17"
    "(0 :: nat) + 1 = 1" "(0 :: nat) + 2 = 2" by simp_all
  have "base64 src = concat (map (\<lambda>(x, y, z). [b64Char (drop_bit 2 x AND 63), b64Char (push_bit 4 (x AND 3) OR drop_bit 4 (y AND 240)),
      b64Char (push_bit 2 (y AND 15) OR drop_bit 6 (z AND 192)), b64Char (z AND 63)])
      [(x0, x1, x2), (x3, x4, x5), (x6, x7, x8), (x9, x10, x11), (x12, x13, x14), (x15, x16, x17)]) @
      [b64Char (drop_bit 2 x18 AND 63), b64Char (push_bit 4 (x18 AND 3) OR drop_bit 4 (x19 AND 240)),
      b64Char (push_bit 2 (x19 AND 15))] @ [61]"
    unfolding base64_def list.map idx at by (simp only: prod.case append_Cons append_Nil)
  also have "\<dots> = base64Spec src" unfolding list.map prod.case group last src base64Spec.simps by simp
  finally show ?thesis .
qed

section \<open>The accept value\<close>

lemma be32_bytes: "be32 [a, b, c, d] =
    ucast d OR push_bit 8 (ucast c) OR push_bit 16 (ucast b) OR push_bit 24 (ucast a)"
  by (simp add: be32_def push_bit_or flip: or.assoc)

lemma wordsOf_append: "wordsOf (concat (map (\<lambda>(a, b, c, d). [a, b, c, d]) qs) @ rest) = map (\<lambda>(a, b, c, d). be32 [a, b, c, d]) qs @ wordsOf rest"
  by (induction qs) auto

lemma guid_words:
  "wordsOf (websocketGuid @ [0x80] @ replicate 59 0 @ rev (store_le 8 (480 :: u64))) =
    [0x32353845, 0x41464135, 0x2d453931, 0x342d3437, 0x44412d39, 0x3543412d, 0x43354142, 0x30444338, 0x35423131,
      0x80000000] @ replicate 15 0 @ [480]"
  by code_simp

lemma upts: "[0..<24] = [0, 1, 2, 3, 4, 5, 6, 7, 8, 9, 10, 11, 12, 13, 14, 15, 16, 17, 18, 19, 20, 21, 22, 23]"
  "[0..<6] = [0, 1, 2, 3, 4, 5]"
  by code_simp+

lemma guid_length: "length websocketGuid = 36"
  by (simp add: websocketGuid_def ascii_def)

lemma blocksOf_two: "length a = 16 \<Longrightarrow> length b = 16 \<Longrightarrow> blocksOf (a @ b) = [a, b]"
  by (subst blocksOf.simps, subst blocksOf.simps, subst blocksOf.simps) auto

lemma sha1Block_length: "length (sha1Block H M) = 5"
  by (simp add: sha1Block_def split: prod.split)

lemma generate_spec:
  assumes "length key = 24"
  shows "generate key = base64Spec (sha1Hash (key @ websocketGuid)) \<and> length (sha1Hash (key @ websocketGuid)) = 20"
proof -
  define q where "q = (\<lambda>i. (key ! (4 * i), key ! (4 * i + 1), key ! (4 * i + 2), key ! (4 * i + 3)))"
  define M1 where "M1 = map (\<lambda>i. be32 [key ! (4 * i), key ! (4 * i + 1), key ! (4 * i + 2), key ! (4 * i + 3)]) [0..<6] @
      [0x32353845, 0x41464135, 0x2d453931, 0x342d3437, 0x44412d39, 0x3543412d, 0x43354142, 0x30444338, 0x35423131, 0x80000000]"
  define M2 :: "u32 list" where "M2 = replicate 15 0 @ [480]"
  define H :: "u32 list" where "H = [0x67452301, 0xefcdab89, 0x98badcfe, 0x10325476, 0xc3d2e1f0]"
  have l: "length M1 = 16" "length M2 = 16" "length H = 5" by (simp_all add: M1_def M2_def H_def)
  have key: "key = concat (map (\<lambda>(a, b, c, d). [a, b, c, d]) (map q [0..<6]))"
  proof -
    have "key = map (\<lambda>i. key ! i) [0..<24]" using assms by (metis map_nth)
    also have "\<dots> = concat (map (\<lambda>(a, b, c, d). [a, b, c, d]) (map q [0..<6]))"
      unfolding upts by (simp add: q_def numeral_2_eq_2)
    finally show ?thesis .
  qed
  have pad: "sha1Pad (key @ websocketGuid) = key @ websocketGuid @ [0x80] @ replicate 59 0 @ rev (store_le 8 (480 :: u64))"
    by (simp add: sha1Pad_def assms guid_length)
  have "wordsOf (sha1Pad (key @ websocketGuid)) = M1 @ M2"
    unfolding pad by (subst key, subst wordsOf_append, subst guid_words)
      (simp only: M1_def M2_def q_def map_map comp_def prod.case append_assoc)
  then have hash: "sha1Hash (key @ websocketGuid) = concat (map (\<lambda>w. rev (store_le 4 w)) (sha1Block (sha1Block H M1) M2))"
    using l by (simp add: sha1Hash_def blocksOf_two H_def)
  have input: "map (\<lambda>i. ucast (key ! (4 * i + 3)) OR push_bit 8 (ucast (key ! (4 * i + 2))) OR
      push_bit 16 (ucast (key ! (4 * i + 1))) OR push_bit 24 (ucast (key ! (4 * i)))) [0..<6] @
      drop 6 [0, 0, 0, 0, 0, 0, 0x32353845, 0x41464135, 0x2d453931, 0x342d3437, 0x44412d39,
      0x3543412d, 0x43354142, 0x30444338, 0x35423131, 0x80000000] = M1"
    unfolding M1_def be32_bytes by simp
  have len: "length (sha1Hash (key @ websocketGuid)) = 20"
  proof -
    have "length (concat (map (\<lambda>w. rev (store_le 4 (w :: u32))) ws)) = 4 * length ws" for ws
      by (induction ws) simp_all
    then show ?thesis unfolding hash by (simp add: sha1Block_length)
  qed
  have "generate key = base64 (concat (map (\<lambda>w. rev (store_le 4 w)) (fst (sha1 (fst (sha1 H M1)) M2))))"
    unfolding generate_def Let_def input H_def M2_def by (simp add: case_prod_unfold)
  also have "\<dots> = base64 (sha1Hash (key @ websocketGuid))"
    unfolding hash sha1_block [OF l(1) l(3)] sha1_block [OF l(2) sha1Block_length] by (rule refl)
  also have "\<dots> = base64Spec (sha1Hash (key @ websocketGuid))" by (rule base64_spec [OF len])
  finally show ?thesis using len by blast
qed

text \<open>C28. The handshake answers with the base64 text of the SHA-1 hash of the key and the GUID of RFC 6455, for every key of 24 bytes.\<close>
theorem generate_is_rfc6455:
  assumes "length key = 24"
  shows "generate key = base64Spec (sha1Hash (key @ websocketGuid))"
  using generate_spec [OF assms] by blast

text \<open>The example of RFC 6455, section 1.3.\<close>
lemma generate_is_rfc6455_witness:
  "base64Spec (sha1Hash (ascii ''dGhlIHNhbXBsZSBub25jZQ=='' @ websocketGuid)) = generate (ascii ''dGhlIHNhbXBsZSBub25jZQ=='') \<and>
   ascii ''dGhlIHNhbXBsZSBub25jZQ=='' ! 0 = 100"
  using generate_is_rfc6455 [of "ascii ''dGhlIHNhbXBsZSBub25jZQ==''"] by (simp add: ascii_def)

end
