(* ===== verification/WebSocketExtensions.thy ===== *)
theory WebSocketExtensions
  imports Prelude
begin

text \<open>
  Negotiating compression: native/uwebsockets/WebSocketExtensions.h. Tokens of the offer are recognised
  by a number: the sum of their characters, or the negated decimal value of their digits. The \<open>int\<close>
  of the sum cannot overflow for offers below 8 MB, so integers are unbounded here. Compiled without
  \<open>UWS_ALLOW_SHARED_AND_DEDICATED_COMPRESSOR_MIX\<close> and \<open>UWS_ALLOW_8_WINDOW_BITS\<close>, as the build does.
\<close>

section \<open>The program\<close>

definition TOK_PERMESSAGE_DEFLATE :: int where "TOK_PERMESSAGE_DEFLATE = 1838"
definition TOK_SERVER_NO_CONTEXT_TAKEOVER :: int where "TOK_SERVER_NO_CONTEXT_TAKEOVER = 2807"
definition TOK_CLIENT_NO_CONTEXT_TAKEOVER :: int where "TOK_CLIENT_NO_CONTEXT_TAKEOVER = 2783"
definition TOK_SERVER_MAX_WINDOW_BITS :: int where "TOK_SERVER_MAX_WINDOW_BITS = 2372"
definition TOK_CLIENT_MAX_WINDOW_BITS :: int where "TOK_CLIENT_MAX_WINDOW_BITS = 2348"
definition TOK_X_WEBKIT_DEFLATE_FRAME :: int where "TOK_X_WEBKIT_DEFLATE_FRAME = 2149"
definition TOK_NO_CONTEXT_TAKEOVER :: int where "TOK_NO_CONTEXT_TAKEOVER = 2049"
definition TOK_MAX_WINDOW_BITS :: int where "TOK_MAX_WINDOW_BITS = 1614"

lemmas tok_defs = TOK_PERMESSAGE_DEFLATE_def TOK_SERVER_NO_CONTEXT_TAKEOVER_def TOK_CLIENT_NO_CONTEXT_TAKEOVER_def
  TOK_SERVER_MAX_WINDOW_BITS_def TOK_CLIENT_MAX_WINDOW_BITS_def TOK_X_WEBKIT_DEFLATE_FRAME_def
  TOK_NO_CONTEXT_TAKEOVER_def TOK_MAX_WINDOW_BITS_def

datatype whichInteger = NoInteger | MaxBits | ServerBits | ClientBits

record ExtensionsParser =
  lastInteger :: whichInteger
  perMessageDeflate :: bool
  serverNoContextTakeover :: bool
  clientNoContextTakeover :: bool
  serverMaxWindowBits :: int
  clientMaxWindowBits :: int
  xWebKitDeflateFrame :: bool
  noContextTakeover :: bool
  maxWindowBits :: int

definition isdigit :: "byte \<Rightarrow> bool" where
  "isdigit b \<longleftrightarrow> 48 \<le> b \<and> b \<le> 57"

definition isalnum :: "byte \<Rightarrow> bool" where
  "isalnum b \<longleftrightarrow> isdigit b \<or> 65 \<le> b \<and> b \<le> 90 \<or> 97 \<le> b \<and> b \<le> 122"

definition hashStep :: "int \<Rightarrow> byte \<Rightarrow> int" where
  "hashStep hashedToken c =
     (if isdigit c then
        if hashedToken > - 32768 \<and> hashedToken < 32767 then hashedToken * 10 - (uint c - 48) else hashedToken
      else hashedToken + uint c)"

text \<open>A token and the text behind it.\<close>

definition getExtensionToken :: "bytes \<Rightarrow> int \<times> bytes" where
  "getExtensionToken data =
     (let data = dropWhile (\<lambda>b. \<not> isalnum b) data;
          inside = (\<lambda>b. isalnum b \<or> b = 45 \<or> b = 95)
      in (foldl hashStep 0 (takeWhile inside data), dropWhile inside data))"

lemma extensionToken_shorter:
  assumes "getExtensionToken data = (token, rest)"
  shows "length rest \<le> length data" and "token \<noteq> 0 \<Longrightarrow> length rest < length data"
proof -
  define d where "d = dropWhile (\<lambda>b. \<not> isalnum b) data"
  define inside where "inside = (\<lambda>b. isalnum b \<or> b = 45 \<or> b = 95)"
  have l: "length d \<le> length data" by (simp add: d_def length_dropWhile_le)
  have r: "rest = dropWhile inside d" "token = foldl hashStep 0 (takeWhile inside d)"
    using assms by (simp_all add: getExtensionToken_def d_def inside_def Let_def)
  then show "length rest \<le> length data" using l length_dropWhile_le [of inside d] by simp
  assume "token \<noteq> 0"
  then have "takeWhile inside d \<noteq> []" using r(2) by auto
  then obtain c e where "d = c # e" "inside c" by (cases d) (auto split: if_splits)
  then show "length rest < length data" using r(1) l length_dropWhile_le [of inside e] by simp
qed

text \<open>Ignore anything before the name of an extension.\<close>

function skipTokens :: "int \<Rightarrow> bytes \<Rightarrow> int \<times> bytes" where
  "skipTokens token data =
     (if token = 0 \<or> token = TOK_PERMESSAGE_DEFLATE \<or> token = TOK_X_WEBKIT_DEFLATE_FRAME then (token, data)
      else (case getExtensionToken data of (token, data) \<Rightarrow> skipTokens token data))"
  by pat_completeness auto
termination
proof (relation "measure (\<lambda>(token, data). length data + (if token = 0 then 0 else 1))")
  fix token data t and d :: bytes
  assume *: "\<not> (token = 0 \<or> token = TOK_PERMESSAGE_DEFLATE \<or> token = TOK_X_WEBKIT_DEFLATE_FRAME)" "(t, d) = getExtensionToken data"
  then show "((t, d), token, data) \<in> measure (\<lambda>(token, data). length data + (if token = 0 then 0 else 1))"
    unfolding in_measure prod.case using * extensionToken_shorter [OF *(2) [symmetric]] by (cases "t = 0") auto
qed simp

declare skipTokens.simps [simp del]

definition setLastInteger :: "int \<Rightarrow> ExtensionsParser \<Rightarrow> ExtensionsParser" where
  "setLastInteger n ep =
     (case lastInteger ep of
        NoInteger \<Rightarrow> ep
      | MaxBits \<Rightarrow> ep\<lparr>maxWindowBits := n\<rparr>
      | ServerBits \<Rightarrow> ep\<lparr>serverMaxWindowBits := n\<rparr>
      | ClientBits \<Rightarrow> ep\<lparr>clientMaxWindowBits := n\<rparr>)"

text \<open>One token of the switch; \<open>None\<close> is a duplicate, which ends the parsing.\<close>

definition takeToken :: "int \<Rightarrow> ExtensionsParser \<Rightarrow> ExtensionsParser option" where
  "takeToken token ep =
     (if token = TOK_X_WEBKIT_DEFLATE_FRAME then None
      else if token = TOK_NO_CONTEXT_TAKEOVER then Some (ep\<lparr>noContextTakeover := True\<rparr>)
      else if token = TOK_MAX_WINDOW_BITS then Some (ep\<lparr>maxWindowBits := 1, lastInteger := MaxBits\<rparr>)
      else if token = TOK_PERMESSAGE_DEFLATE then None
      else if token = TOK_SERVER_NO_CONTEXT_TAKEOVER then Some (ep\<lparr>serverNoContextTakeover := True\<rparr>)
      else if token = TOK_CLIENT_NO_CONTEXT_TAKEOVER then Some (ep\<lparr>clientNoContextTakeover := True\<rparr>)
      else if token = TOK_SERVER_MAX_WINDOW_BITS then Some (ep\<lparr>serverMaxWindowBits := 1, lastInteger := ServerBits\<rparr>)
      else if token = TOK_CLIENT_MAX_WINDOW_BITS then Some (ep\<lparr>clientMaxWindowBits := 1, lastInteger := ClientBits\<rparr>)
      else if token < 0 then Some (setLastInteger (- token) ep)
      else Some ep)"

function takeTokens :: "bytes \<Rightarrow> ExtensionsParser \<Rightarrow> ExtensionsParser" where
  "takeTokens data ep =
     (case getExtensionToken data of
        (token, data) \<Rightarrow>
          if token = 0 then ep
          else (case takeToken token ep of None \<Rightarrow> ep | Some ep \<Rightarrow> takeTokens data ep))"
  by pat_completeness auto
termination by (relation "measure (\<lambda>(data, ep). length data)") (auto dest: extensionToken_shorter(2) [OF sym])

declare takeTokens.simps [simp del]

definition parseExtensions :: "bytes \<Rightarrow> ExtensionsParser" where
  "parseExtensions data =
     (case skipTokens 1 data of
        (token, data) \<Rightarrow>
          takeTokens data \<lparr>lastInteger = NoInteger, perMessageDeflate = (token = TOK_PERMESSAGE_DEFLATE),
            serverNoContextTakeover = False, clientNoContextTakeover = False, serverMaxWindowBits = 0,
            clientMaxWindowBits = 0, xWebKitDeflateFrame = (token = TOK_X_WEBKIT_DEFLATE_FRAME),
            noContextTakeover = False, maxWindowBits = 0\<rparr>)"

fun digits :: "nat \<Rightarrow> bytes" where
  "digits n = (if n < 10 then [of_nat (48 + n)] else digits (n div 10) @ [of_nat (48 + n mod 10)])"

declare digits.simps [simp del]

definition to_string :: "int \<Rightarrow> bytes" where
  "to_string n = (if n < 0 then 45 # digits (nat (- n)) else digits (nat n))"

text \<open>The two branches; \<open>None\<close> is a refusal.\<close>

definition negotiateWebKit :: "ExtensionsParser \<Rightarrow> int \<Rightarrow> int \<Rightarrow> (int \<times> int \<times> bytes) option" where
  "negotiateWebKit ep wantedCompressionWindow wantedInflationWindow =
     (if noContextTakeover ep \<and> wantedCompressionWindow \<noteq> 0 then None
      else
        (let compressionWindow = (if noContextTakeover ep then 0 else wantedCompressionWindow);
             limited = maxWindowBits ep \<noteq> 0 \<and> maxWindowBits ep < compressionWindow;
             compressionWindow = (if limited then maxWindowBits ep else compressionWindow)
         in if limited \<and> compressionWindow = 8 then None
            else Some (compressionWindow, wantedInflationWindow,
              ascii ''x-webkit-deflate-frame'' @
              (if wantedInflationWindow < 15 then
                 if wantedInflationWindow = 0 then ascii ''; no_context_takeover''
                 else ascii ''; max_window_bits='' @ to_string wantedInflationWindow
               else []))))"

definition negotiateStandard :: "ExtensionsParser \<Rightarrow> int \<Rightarrow> int \<Rightarrow> int \<times> int \<times> bytes" where
  "negotiateStandard ep wantedCompressionWindow wantedInflationWindow =
     (let inflationWindow =
            (if clientNoContextTakeover ep then 0
             else if clientMaxWindowBits ep \<noteq> 0 \<and> clientMaxWindowBits ep \<noteq> 1
               then min (clientMaxWindowBits ep) wantedInflationWindow
             else wantedInflationWindow);
          response = ascii ''permessage-deflate'';
          (response, inflationWindow) =
            (if inflationWindow < 15 then
               if inflationWindow = 0 \<or> clientMaxWindowBits ep = 0
               then (response @ ascii ''; client_no_context_takeover'', 0)
               else (response @ ascii ''; client_max_window_bits='' @ to_string inflationWindow, inflationWindow)
             else (response, inflationWindow));
          compressionWindow =
            (if serverNoContextTakeover ep then wantedCompressionWindow
             else if serverMaxWindowBits ep \<noteq> 0 then
               (let w = min (serverMaxWindowBits ep) wantedCompressionWindow in if w = 8 then 9 else w)
             else wantedCompressionWindow);
          response =
            (if compressionWindow < 15 then
               if compressionWindow = 0 then response @ ascii ''; server_no_context_takeover''
               else response @ ascii ''; server_max_window_bits='' @ to_string compressionWindow
             else response)
      in (compressionWindow, inflationWindow, response))"

definition negotiateCompression :: "bool \<Rightarrow> int \<Rightarrow> int \<Rightarrow> bytes \<Rightarrow> bool \<times> int \<times> int \<times> bytes" where
  "negotiateCompression wantCompression wantedCompressionWindow wantedInflationWindow offer =
     (if \<not> wantCompression then (False, 0, 0, [])
      else
        (let ep = parseExtensions offer;
             r = (if xWebKitDeflateFrame ep
                  then map_option (Pair True) (negotiateWebKit ep wantedCompressionWindow wantedInflationWindow)
                  else if perMessageDeflate ep
                  then Some (True, negotiateStandard ep wantedCompressionWindow wantedInflationWindow)
                  else Some (False, wantedCompressionWindow, wantedInflationWindow, []))
         in case r of
              None \<Rightarrow> (False, 0, 0, [])
            | Some (compression, compressionWindow, inflationWindow, response) \<Rightarrow>
                if (compressionWindow \<noteq> 0 \<and> compressionWindow < 8) \<or> compressionWindow > 15 \<or>
                   (inflationWindow \<noteq> 0 \<and> inflationWindow < 8) \<or> inflationWindow > 15
                then (False, 0, 0, [])
                else (compression, compressionWindow, inflationWindow, response)))"

section \<open>What is negotiated\<close>

text \<open>The windows a peer reads from a response.\<close>

definition clientPart :: "int \<Rightarrow> bytes" where
  "clientPart w = (if w = 15 then [] else if w = 0 then ascii ''; client_no_context_takeover''
     else ascii ''; client_max_window_bits='' @ to_string w)"

definition serverPart :: "int \<Rightarrow> bytes" where
  "serverPart w = (if w = 15 then [] else if w = 0 then ascii ''; server_no_context_takeover''
     else ascii ''; server_max_window_bits='' @ to_string w)"

definition webkitPart :: "int \<Rightarrow> bytes" where
  "webkitPart w = (if w = 15 then [] else if w = 0 then ascii ''; no_context_takeover''
     else ascii ''; max_window_bits='' @ to_string w)"

definition windowOk :: "int \<Rightarrow> bool" where
  "windowOk w \<longleftrightarrow> w = 0 \<or> 8 \<le> w \<and> w \<le> 15"

definition bitsOk :: "ExtensionsParser \<Rightarrow> bool" where
  "bitsOk ep \<longleftrightarrow> 0 \<le> serverMaxWindowBits ep \<and> 0 \<le> clientMaxWindowBits ep \<and> 0 \<le> maxWindowBits ep"

lemma takeTokens_bits: "bitsOk ep \<Longrightarrow> bitsOk (takeTokens data ep)"
proof (induction data ep rule: takeTokens.induct)
  case (1 data ep)
  have "bitsOk ep'" if "takeToken t ep = Some ep'" for t ep'
    using that 1(2) by (auto simp: takeToken_def bitsOk_def setLastInteger_def split: if_splits whichInteger.splits)
  then show ?case using 1 by (subst takeTokens.simps) (auto split: prod.split option.split)
qed

lemma parseExtensions_bits: "bitsOk (parseExtensions data)"
  by (auto simp: parseExtensions_def bitsOk_def intro!: takeTokens_bits [unfolded bitsOk_def] split: prod.split)

lemma negotiateStandard_windows:
  assumes "negotiateStandard ep wc wi = (c, i, response)" and "bitsOk ep" and "windowOk c" and "windowOk i" and "0 \<le> wi"
  shows "response = ascii ''permessage-deflate'' @ clientPart i @ serverPart c \<and> i \<le> wi \<and> (c \<le> wc \<or> c = 9 \<and> wc = 8)"
  using assms
  by (auto simp: negotiateStandard_def Let_def clientPart_def serverPart_def windowOk_def bitsOk_def min_def split: if_splits)

lemma negotiateStandard_demands:
  assumes "negotiateStandard ep wc wi = (c, i, response)" and "bitsOk ep" and "windowOk c" and "0 \<le> wi"
  shows "(clientNoContextTakeover ep \<longrightarrow> i = 0) \<and> (clientMaxWindowBits ep \<notin> {0, 1} \<longrightarrow> i \<le> clientMaxWindowBits ep) \<and>
    (serverMaxWindowBits ep \<noteq> 0 \<and> \<not> serverNoContextTakeover ep \<longrightarrow> c \<le> serverMaxWindowBits ep \<or> c = 9 \<and> serverMaxWindowBits ep = 8)"
  using assms
  by (auto simp: negotiateStandard_def Let_def windowOk_def bitsOk_def min_def split: if_splits)

lemma negotiateWebKit_windows:
  assumes "negotiateWebKit ep wc wi = Some (c, i, response)" and "windowOk c" and "windowOk i"
  shows "response = ascii ''x-webkit-deflate-frame'' @ webkitPart i \<and> i = wi \<and>
    c = (if maxWindowBits ep \<noteq> 0 \<and> maxWindowBits ep < wc then maxWindowBits ep else wc) \<and>
    (noContextTakeover ep \<longrightarrow> c = 0 \<or> maxWindowBits ep < 0)"
  using assms by (auto simp: negotiateWebKit_def Let_def webkitPart_def windowOk_def split: if_splits)

text \<open>C32. Whatever a client offers, the windows that are agreed on are 0 or 8 to 15 bits, never above the
  ones that were asked for (8 bits for the compressor become 9). A response of permessage-deflate tells
  the client exactly these windows and keeps within its limits, but for the compressor: a limit of 8 becomes 9, and none is kept
  when the client also forbids context takeover. A response of x-webkit-deflate-frame tells
  it the window of the decompressor only, which is the one asked for; the compressor silently gets the smaller of the one asked for
  and the client's limit.\<close>
theorem negotiated_windows:
  assumes "negotiateCompression True wc wi offer = (True, c, i, response)" and "0 \<le> wi"
  defines "ep \<equiv> parseExtensions offer"
  shows "windowOk c \<and> windowOk i \<and> i \<le> wi \<and> (c \<le> wc \<or> c = 9 \<and> wc = 8) \<and>
    (perMessageDeflate ep \<and> response = ascii ''permessage-deflate'' @ clientPart i @ serverPart c \<and>
       (clientNoContextTakeover ep \<longrightarrow> i = 0) \<and> (clientMaxWindowBits ep \<notin> {0, 1} \<longrightarrow> i \<le> clientMaxWindowBits ep) \<and>
       (serverMaxWindowBits ep \<noteq> 0 \<and> \<not> serverNoContextTakeover ep \<longrightarrow>
          c \<le> serverMaxWindowBits ep \<or> c = 9 \<and> serverMaxWindowBits ep = 8) \<or>
     xWebKitDeflateFrame ep \<and> response = ascii ''x-webkit-deflate-frame'' @ webkitPart i \<and> i = wi \<and>
       c = (if maxWindowBits ep \<noteq> 0 then min (maxWindowBits ep) wc else wc) \<and> (noContextTakeover ep \<longrightarrow> c = 0))"
proof -
  have ok: "windowOk c" "windowOk i"
    and r: "xWebKitDeflateFrame ep \<and> negotiateWebKit ep wc wi = Some (c, i, response) \<or>
      perMessageDeflate ep \<and> negotiateStandard ep wc wi = (c, i, response)"
    using assms(1) unfolding negotiateCompression_def ep_def [symmetric] Let_def
    by (auto simp: windowOk_def not_less split: if_splits option.splits prod.splits)
  have bits: "bitsOk ep" unfolding ep_def by (rule parseExtensions_bits)
  from r show ?thesis
  proof (elim disjE conjE)
    assume k: "xWebKitDeflateFrame ep" and n: "negotiateWebKit ep wc wi = Some (c, i, response)"
    from negotiateWebKit_windows [OF n ok] show ?thesis using ok k bits by (auto simp: bitsOk_def min_def)
  next
    assume k: "perMessageDeflate ep" and n: "negotiateStandard ep wc wi = (c, i, response)"
    from negotiateStandard_windows [OF n bits ok assms(2)] negotiateStandard_demands [OF n bits ok(1) assms(2)]
    show ?thesis using ok k by blast
  qed
qed

lemma negotiated_windows_witness:
  "windowOk 10 \<and> (12 :: int) \<le> 15 \<and>
   negotiateCompression True 15 15 (ascii ''permessage-deflate; client_max_window_bits=12; server_max_window_bits=10'') =
     (True, 10, 12, ascii ''permessage-deflate; client_max_window_bits=12; server_max_window_bits=10'')"
proof -
  have n: "negotiateCompression True 15 15 (ascii ''permessage-deflate; client_max_window_bits=12; server_max_window_bits=10'') =
     (True, 10, 12, ascii ''permessage-deflate; client_max_window_bits=12; server_max_window_bits=10'')"
    by code_simp
  from negotiated_windows [OF n] n show ?thesis by simp
qed

text \<open>Demands of a client that are not kept: without context takeover and with a limit of 10 bits the
  server keeps its sliding window of 15 bits and does not say so; a limit of 8 bits is answered by 9.
  Tokens are only compared by the sum of their characters, so another extension is taken for deflate.\<close>
theorem demands_not_kept:
  "negotiateCompression True 15 15 (ascii ''permessage-deflate; client_max_window_bits; server_no_context_takeover; server_max_window_bits=10'') =
     (True, 15, 15, ascii ''permessage-deflate'') \<and>
   negotiateCompression True 15 15 (ascii ''permessage-deflate; client_max_window_bits; server_max_window_bits=8'') =
     (True, 9, 15, ascii ''permessage-deflate; server_max_window_bits=9'') \<and>
   negotiateCompression True 15 0 (ascii ''deflate-permessage'') =
     (True, 15, 0, ascii ''permessage-deflate; client_no_context_takeover'')"
  by code_simp

end
