(* ===== verification/WebSocketClient.thy ===== *)
theory WebSocketClient
  imports StringView WebSocketHandshake WebSocketExtensions HttpHeadText
begin

text \<open>
  The client side of the WebSocket handshake: native/uwebsockets/WebSocketClientHandshake.h. The
  builders return the text of a request, the response parser works on the bytes received so far, and
  the validators decide whether the connection opens. The 16 random bytes of a key come from OpenSSL
  and are an argument. Numbers of a window are the \<open>int\<close>s of the source; the options are 16 bit words.
  The theorems connect the client with the request parser of the server, with the standard text of a
  response, and with the windows it asked for.
\<close>

section \<open>The program\<close>

subsection \<open>ASCII helpers\<close>

definition tolower :: "byte \<Rightarrow> byte" where
  "tolower b = (if 65 \<le> b \<and> b \<le> 90 then b + 32 else b)"

definition iequals :: "bytes \<Rightarrow> bytes \<Rightarrow> bool" where
  "iequals a b \<longleftrightarrow> length a = length b \<and> list_all (\<lambda>(x, y). tolower x = tolower y) (zip a b)"

definition trimFront :: "bytes \<Rightarrow> bytes" where
  "trimFront v = dropWhile (\<lambda>c. c = SP \<or> c = HTAB) v"

definition trimBack :: "bytes \<Rightarrow> bytes" where
  "trimBack v = rev (dropWhile (\<lambda>c. c = SP \<or> c = HTAB \<or> c = CR) (rev v))"

definition trim :: "bytes \<Rightarrow> bytes" where
  "trim v = trimBack (trimFront v)"

definition tokenSep :: "byte \<Rightarrow> bool" where
  "tokenSep c \<longleftrightarrow> c = 44 \<or> c = SP \<or> c = HTAB"

text \<open>The argument is the part of the value from the index \<open>i\<close> of the source on.\<close>

function hasToken :: "bytes \<Rightarrow> bytes \<Rightarrow> bool" where
  "hasToken value token =
     (if value = [] then False
      else
        (let word = dropWhile tokenSep value;
             tok = takeWhile (\<lambda>c. \<not> tokenSep c) word
         in if tok \<noteq> [] \<and> iequals tok token then True
            else hasToken (dropWhile (\<lambda>c. \<not> tokenSep c) word) token))"
  by pat_completeness auto
termination
proof (relation "measure (\<lambda>(value, token). length value)", goal_cases)
  case (2 v token word tok)
  have "length (dropWhile (\<lambda>c. \<not> tokenSep c) (dropWhile tokenSep v)) < length v"
  proof (cases v)
    case (Cons c cs)
    have "length (dropWhile P (dropWhile Q cs)) \<le> length cs" for P Q :: "byte \<Rightarrow> bool"
      by (meson length_dropWhile_le le_trans)
    moreover have "length (dropWhile P cs) \<le> length cs" for P :: "byte \<Rightarrow> bool"
      by (rule length_dropWhile_le)
    ultimately show ?thesis by (cases "tokenSep c") (simp_all add: Cons le_imp_less_Suc)
  qed (use 2 in simp)
  then show ?case using 2 by simp
qed simp

declare hasToken.simps [simp del]

subsection \<open>Headers of the user\<close>

definition reserved :: "bytes list" where
  "reserved =
     [ascii ''host'', ascii ''upgrade'', ascii ''connection'', ascii ''sec-websocket-key'',
      ascii ''sec-websocket-version'', ascii ''sec-websocket-protocol'', ascii ''sec-websocket-extensions'']"

definition isReservedHeader :: "bytes \<Rightarrow> bool" where
  "isReservedHeader name \<longleftrightarrow> list_ex (iequals name) reserved"

definition isValidUserHeader :: "bytes \<Rightarrow> bytes \<Rightarrow> bool" where
  "isValidUserHeader name value \<longleftrightarrow>
     \<not> (name = [] \<or> isReservedHeader name) \<and>
     list_all (\<lambda>c. \<not> (c = CR \<or> c = LF \<or> c = 58)) name \<and> list_all (\<lambda>c. \<not> (c = CR \<or> c = LF)) value"

subsection \<open>Requests\<close>

definition generateKey :: "bytes \<Rightarrow> bytes" where
  "generateKey bytes =
     concat (map (\<lambda>i.
       [b64Char (drop_bit 2 (bytes ! i) AND 63),
        b64Char (push_bit 4 (bytes ! i AND 3) OR drop_bit 4 (bytes ! (i + 1) AND 240)),
        b64Char (push_bit 2 (bytes ! (i + 1) AND 15) OR drop_bit 6 (bytes ! (i + 2) AND 192)),
        b64Char (bytes ! (i + 2) AND 63)]) [0, 3, 6, 9, 12]) @
     [b64Char (drop_bit 2 (bytes ! 15) AND 63), b64Char (push_bit 4 (bytes ! 15 AND 3)), 61, 61]"

definition COMPRESSOR_MASK :: u16 where "COMPRESSOR_MASK = 0x00FF"
definition DECOMPRESSOR_MASK :: u16 where "DECOMPRESSOR_MASK = 0x0F00"
definition DISABLED :: u16 where "DISABLED = 0"
definition SHARED_COMPRESSOR :: u16 where "SHARED_COMPRESSOR = 1"
definition SHARED_DECOMPRESSOR :: u16 where "SHARED_DECOMPRESSOR = push_bit 8 1"
definition DEDICATED_COMPRESSOR_3KB :: u16 where "DEDICATED_COMPRESSOR_3KB = push_bit 4 9 OR 1"
definition DEDICATED_COMPRESSOR_4KB :: u16 where "DEDICATED_COMPRESSOR_4KB = push_bit 4 9 OR 2"
definition DEDICATED_COMPRESSOR_8KB :: u16 where "DEDICATED_COMPRESSOR_8KB = push_bit 4 10 OR 3"
definition DEDICATED_COMPRESSOR_16KB :: u16 where "DEDICATED_COMPRESSOR_16KB = push_bit 4 11 OR 4"
definition DEDICATED_COMPRESSOR_32KB :: u16 where "DEDICATED_COMPRESSOR_32KB = push_bit 4 12 OR 5"
definition DEDICATED_COMPRESSOR_64KB :: u16 where "DEDICATED_COMPRESSOR_64KB = push_bit 4 13 OR 6"
definition DEDICATED_COMPRESSOR_128KB :: u16 where "DEDICATED_COMPRESSOR_128KB = push_bit 4 14 OR 7"
definition DEDICATED_COMPRESSOR_256KB :: u16 where "DEDICATED_COMPRESSOR_256KB = push_bit 4 15 OR 8"

lemmas options_defs = COMPRESSOR_MASK_def DECOMPRESSOR_MASK_def DISABLED_def SHARED_COMPRESSOR_def SHARED_DECOMPRESSOR_def
  DEDICATED_COMPRESSOR_3KB_def DEDICATED_COMPRESSOR_4KB_def DEDICATED_COMPRESSOR_8KB_def DEDICATED_COMPRESSOR_16KB_def
  DEDICATED_COMPRESSOR_32KB_def DEDICATED_COMPRESSOR_64KB_def DEDICATED_COMPRESSOR_128KB_def DEDICATED_COMPRESSOR_256KB_def

text \<open>The bits of the options as windows; the shared decompressor is window 0.\<close>

definition wantedInflationWindow :: "u16 \<Rightarrow> int" where
  "wantedInflationWindow wanted =
     (if wanted AND DECOMPRESSOR_MASK \<noteq> SHARED_DECOMPRESSOR then uint (drop_bit 8 (wanted AND DECOMPRESSOR_MASK)) else 0)"

definition wantedCompressionWindow :: "u16 \<Rightarrow> int" where
  "wantedCompressionWindow wanted = uint (drop_bit 4 (wanted AND COMPRESSOR_MASK))"

definition crlf :: bytes where "crlf = [CR, LF]"

definition deflateOffer :: "u16 \<Rightarrow> bytes" where
  "deflateOffer wanted =
     (let inflation = wantedInflationWindow wanted;
          compression = wantedCompressionWindow wanted
      in ascii ''permessage-deflate'' @
         (if inflation = 0 then ascii ''; server_no_context_takeover''
          else if inflation < 15 then ascii ''; server_max_window_bits='' @ to_string inflation
          else []) @
         (if compression = 0 then ascii ''; client_no_context_takeover''
          else if compression < 15 then ascii ''; client_max_window_bits='' @ to_string compression
          else ascii ''; client_max_window_bits''))"

definition bracketed :: "bytes \<Rightarrow> bool" where
  "bracketed host \<longleftrightarrow> findFrom 58 host 0 \<noteq> None \<and> hd host \<noteq> 91"

definition hostField :: "bytes \<Rightarrow> int \<Rightarrow> bool \<Rightarrow> bytes" where
  "hostField host port defaultPort =
     (if bracketed host then [91] else []) @ host @ (if bracketed host then [93] else []) @
     (if \<not> defaultPort then 58 # to_string port else [])"

definition buildUpgradeRequest ::
    "bytes \<Rightarrow> int \<Rightarrow> bool \<Rightarrow> bytes \<Rightarrow> bytes \<Rightarrow> bytes \<Rightarrow> u16 \<Rightarrow> (bytes \<times> bytes) list \<Rightarrow> bytes" where
  "buildUpgradeRequest host port defaultPort target key protocolsCsv wanted userHeaders =
     (let req = ascii ''GET '';
          req = req @ (if target \<noteq> [] then target else ascii ''/'');
          req = req @ ascii '' HTTP/1.1'' @ crlf;
          req = req @ ascii ''Host: '' @ hostField host port defaultPort @ crlf;
          req = req @ ascii ''Upgrade: websocket'' @ crlf;
          req = req @ ascii ''Connection: Upgrade'' @ crlf;
          req = req @ ascii ''Sec-WebSocket-Key: '' @ take 24 key @ crlf;
          req = req @ ascii ''Sec-WebSocket-Version: 13'' @ crlf;
          req = (if protocolsCsv \<noteq> [] then req @ ascii ''Sec-WebSocket-Protocol: '' @ protocolsCsv @ crlf else req);
          req = (if wanted \<noteq> DISABLED then req @ ascii ''Sec-WebSocket-Extensions: '' @ deflateOffer wanted @ crlf else req);
          req = foldl (\<lambda>req h. req @ fst h @ ascii '': '' @ snd h @ crlf) req userHeaders
      in req @ crlf)"

definition authority :: "bytes \<Rightarrow> int \<Rightarrow> bytes" where
  "authority desthost destport =
     (if bracketed desthost then [91] @ desthost @ [93] else desthost) @ [58] @ to_string destport"

definition buildConnectRequest :: "bytes \<Rightarrow> int \<Rightarrow> bytes \<Rightarrow> bytes" where
  "buildConnectRequest desthost destport authHeaderOrEmpty =
     (let req = ascii ''CONNECT '' @ authority desthost destport @ ascii '' HTTP/1.1'' @ crlf;
          req = req @ ascii ''Host: '' @ authority desthost destport @ crlf;
          req = (if authHeaderOrEmpty \<noteq> [] then req @ ascii ''Proxy-Authorization: '' @ authHeaderOrEmpty @ crlf else req)
      in req @ crlf)"

subsection \<open>Responses\<close>

record ResponseHead =
  complete :: bool
  status :: int
  reason :: bytes
  headers :: "(bytes \<times> bytes) list"
  headerBytes :: nat

definition emptyHead :: ResponseHead where
  "emptyHead = \<lparr>complete = False, status = 0, reason = [], headers = [], headerBytes = 0\<rparr>"

definition findHeaderIn :: "ResponseHead \<Rightarrow> bytes \<Rightarrow> bytes" where
  "findHeaderIn rh name = (case List.find (\<lambda>h. iequals (fst h) name) (headers rh) of Some h \<Rightarrow> snd h | None \<Rightarrow> [])"

text \<open>The digits of the status; \<open>None\<close> refuses another character.\<close>

fun statusCode :: "int \<Rightarrow> bytes \<Rightarrow> int option" where
  "statusCode code [] = Some code"
| "statusCode code (c # cs) = (if c < 48 \<or> c > 57 then None else statusCode (code * 10 + (uint c - 48)) cs)"

definition headerOf :: "bytes \<Rightarrow> (bytes \<times> bytes) list" where
  "headerOf line =
     (case findFrom 58 line 0 of
        None \<Rightarrow> []
      | Some colon \<Rightarrow> [(map tolower (trim (take colon line)), trim (drop (colon + 1) line))])"

text \<open>The lines from \<open>pos\<close> on.\<close>

function responseHeaders :: "bytes \<Rightarrow> (bytes \<times> bytes) list" where
  "responseHeaders buf =
     (case findText crlf buf of
        None \<Rightarrow> []
      | Some nl \<Rightarrow> if nl = 0 then [] else headerOf (take nl buf) @ responseHeaders (drop (nl + 2) buf))"
  by pat_completeness auto
termination by (relation "measure length") (auto simp: crlf_def dest: findText_Some)

declare responseHeaders.simps [simp del]

text \<open>
  The result tells whether the status line was well-formed. A head holds its own line end, so the search
  for the first one succeeds; \<open>substr\<close> with no position would take the whole text.
\<close>

definition parseResponse :: "bytes \<Rightarrow> ResponseHead \<Rightarrow> bool \<times> ResponseHead" where
  "parseResponse data rh =
     (case findText (crlf @ crlf) data of
        None \<Rightarrow> (True, rh\<lparr>complete := False\<rparr>)
      | Some i \<Rightarrow>
          let rh = rh\<lparr>complete := True, headerBytes := i + 4\<rparr>;
              buf = take (i + 4) data;
              lineEnd = (case findText crlf buf of None \<Rightarrow> length buf | Some e \<Rightarrow> e);
              statusLine = take lineEnd buf
          in if take 5 statusLine \<noteq> ascii ''HTTP/'' then (False, rh)
             else
               (case findFrom SP statusLine 0 of
                  None \<Rightarrow> (False, rh)
                | Some sp1 \<Rightarrow>
                    let rest = trim (drop (sp1 + 1) statusLine);
                        sp2 = findFrom SP rest 0;
                        codeStr = (case sp2 of None \<Rightarrow> rest | Some k \<Rightarrow> take k rest)
                    in if length codeStr \<noteq> 3 then (False, rh)
                       else
                         (case statusCode 0 codeStr of
                            None \<Rightarrow> (False, rh)
                          | Some code \<Rightarrow>
                              (True, rh\<lparr>status := code,
                                 reason := (case sp2 of None \<Rightarrow> [] | Some k \<Rightarrow> trim (drop (k + 1) rest)),
                                 headers := headers rh @ responseHeaders (drop (lineEnd + 2) buf)\<rparr>))))"

definition parseProxyResponse :: "bytes \<Rightarrow> ResponseHead \<Rightarrow> bool \<times> ResponseHead" where
  "parseProxyResponse data rh = parseResponse data rh"

subsection \<open>Validators\<close>

definition validateAccept :: "bytes \<Rightarrow> bytes \<Rightarrow> bool" where
  "validateAccept key accept \<longleftrightarrow> (let expected = generate key in length accept = 28 \<and> expected = accept)"

function validateProtocol :: "bytes \<Rightarrow> bytes \<Rightarrow> bool" where
  "validateProtocol offeredCsv chosen =
     (if chosen = [] then True
      else if offeredCsv = [] then False
      else
        (let word = dropWhile (\<lambda>c. c = 44 \<or> c = SP) offeredCsv
         in if trim (takeWhile (\<lambda>c. c \<noteq> 44) word) = chosen then True
            else validateProtocol (dropWhile (\<lambda>c. c \<noteq> 44) word) chosen))"
  by pat_completeness auto
termination
proof (relation "measure (\<lambda>(offered, chosen). length offered)", goal_cases)
  case (2 offered chosen word)
  have "length (dropWhile (\<lambda>c. c \<noteq> 44) (dropWhile (\<lambda>c. c = 44 \<or> c = SP) offered)) < length offered"
  proof (cases offered)
    case (Cons c cs)
    have "length (dropWhile P (dropWhile Q cs)) \<le> length cs" for P Q :: "byte \<Rightarrow> bool"
      by (meson length_dropWhile_le le_trans)
    moreover have "length (dropWhile P cs) \<le> length cs" for P :: "byte \<Rightarrow> bool"
      by (rule length_dropWhile_le)
    ultimately show ?thesis by (cases "c = 44 \<or> c = SP") (auto simp: Cons le_imp_less_Suc)
  qed (use 2 in simp)
  then show ?case using 2 by simp
qed simp

declare validateProtocol.simps [simp del]

record CompressionResult =
  ok :: bool
  compression :: bool
  options :: u16

definition refused :: CompressionResult where
  "refused = \<lparr>ok = False, compression = False, options = DISABLED\<rparr>"

definition withoutCompression :: CompressionResult where
  "withoutCompression = \<lparr>ok = True, compression = False, options = DISABLED\<rparr>"

text \<open>The two windows after the parameters of the response; \<open>None\<close> refuses it.\<close>

definition inflationAgreed :: "ExtensionsParser \<Rightarrow> int \<Rightarrow> int option" where
  "inflationAgreed ep wanted =
     (let offered = 0 < wanted \<and> wanted < 15;
          window = (if serverNoContextTakeover ep then 0 else wanted)
      in if serverMaxWindowBits ep \<noteq> 0 then
           if \<not> offered then None
           else if serverMaxWindowBits ep \<noteq> 1 then
             if serverMaxWindowBits ep > wanted then None else Some (serverMaxWindowBits ep)
           else Some window
         else Some window)"

definition compressionAgreed :: "ExtensionsParser \<Rightarrow> int \<Rightarrow> int option" where
  "compressionAgreed ep wanted =
     (let offered = 0 < wanted;
          window = (if clientNoContextTakeover ep then 0 else wanted)
      in if clientMaxWindowBits ep \<noteq> 0 then
           if \<not> offered then None
           else if clientMaxWindowBits ep \<noteq> 1 then
             if clientMaxWindowBits ep > (if wanted \<noteq> 0 then wanted else 15) then None else Some (clientMaxWindowBits ep)
           else Some window
         else Some window)"

definition agreedOptions :: "u16 \<Rightarrow> int \<Rightarrow> int \<Rightarrow> u16" where
  "agreedOptions wanted compressionWindow inflationWindow =
     (let options =
            (if compressionWindow = 0 then SHARED_COMPRESSOR
             else if wanted AND DEDICATED_COMPRESSOR_3KB \<noteq> 0 then DEDICATED_COMPRESSOR_3KB
             else push_bit 4 (word_of_int compressionWindow) OR word_of_int (compressionWindow - 7))
      in if inflationWindow = 0 then options OR SHARED_DECOMPRESSOR
         else options OR push_bit 8 (word_of_int inflationWindow))"

definition acceptCompressionResponse :: "u16 \<Rightarrow> bytes \<Rightarrow> CompressionResult" where
  "acceptCompressionResponse wanted ext =
     (if wanted = DISABLED then
        (if ext \<noteq> [] \<and> (let ep = parseExtensions ext in perMessageDeflate ep \<or> xWebKitDeflateFrame ep)
         then refused else withoutCompression)
      else if ext = [] then withoutCompression
      else
        (let ep = parseExtensions ext
         in if xWebKitDeflateFrame ep then refused
            else if \<not> perMessageDeflate ep then refused
            else
              (case inflationAgreed ep (wantedInflationWindow wanted) of
                 None \<Rightarrow> refused
               | Some inflationWindow \<Rightarrow>
                   (case compressionAgreed ep (wantedCompressionWindow wanted) of
                      None \<Rightarrow> refused
                    | Some compressionWindow \<Rightarrow>
                        if (compressionWindow \<noteq> 0 \<and> compressionWindow < 8) \<or> compressionWindow > 15 \<or>
                           (inflationWindow \<noteq> 0 \<and> inflationWindow < 8) \<or> inflationWindow > 15
                        then refused
                        else \<lparr>ok = True, compression = True,
                               options = agreedOptions wanted compressionWindow inflationWindow\<rparr>))))"

section \<open>The key\<close>

lemma base64Spec_bytes: "length (base64Spec bs) = 4 * ((length bs + 2) div 3) \<and> set (base64Spec bs) \<subseteq> set b64Alphabet \<union> {61}"
proof (induction bs rule: base64Spec.induct)
  have digit: "b64Alphabet ! (n mod 64) \<in> set b64Alphabet" for n
    by (rule nth_mem) (simp add: b64Alphabet_def)
  {
    case (1 x y z bs)
    have "(length (x # y # z # bs) + 2) div 3 = Suc ((length bs + 2) div 3)" using div_add_self2 [of 3 "length bs + 2"] by simp
    then show ?case using 1 by (auto simp: Let_def digit)
  next
    case (2 x y)
    then show ?case by (auto simp: Let_def digit)
  next
    case (3 x)
    then show ?case by (auto simp: Let_def digit)
  }
qed simp

lemma generateKey_base64:
  assumes "length bytes = 16"
  shows "generateKey bytes = base64Spec bytes"
proof -
  have "\<exists>x0 x1 x2 x3 x4 x5 x6 x7 x8 x9 x10 x11 x12 x13 x14 x15.
      bytes = [x0, x1, x2, x3, x4, x5, x6, x7, x8, x9, x10, x11, x12, x13, x14, x15]"
    using assms by (simp add: eval_nat_numeral length_Suc_conv) blast
  then obtain x0 x1 x2 x3 x4 x5 x6 x7 x8 x9 x10 x11 x12 x13 x14 x15 where
    bytes: "bytes = [x0, x1, x2, x3, x4, x5, x6, x7, x8, x9, x10, x11, x12, x13, x14, x15]"
    by (elim exE)
  have group: "[b64Char (drop_bit 2 x AND 63), b64Char (push_bit 4 (x AND 3) OR drop_bit 4 (y AND 240)),
      b64Char (push_bit 2 (y AND 15) OR drop_bit 6 (z AND 192)), b64Char (z AND 63)] =
    (let n = unat x * 65536 + unat y * 256 + unat z in map (\<lambda>k. b64Alphabet ! (n div 64 ^ k mod 64)) [3, 2, 1, 0])" for x y z
    unfolding b64Char_def base64_group(1) [of x y z] base64_group(2) [of x y z] base64_group(3) [of y z x]
      base64_group(4) [of z x y] Let_def list.map by (rule refl)
  have zero: "push_bit 4 (x AND 3) OR drop_bit 4 ((0 :: byte) AND 240) = push_bit 4 (x AND 3)" for x
    by simp
  have last: "[b64Char (drop_bit 2 x AND 63), b64Char (push_bit 4 (x AND 3))] =
    (let n = unat x * 65536 in map (\<lambda>k. b64Alphabet ! (n div 64 ^ k mod 64)) [3, 2])" for x
    using group [of x 0 0] unfolding zero
    by (simp only: Let_def list.map list.inject unsigned_0 add_0_right mult_zero_left)
  have at: "bytes ! 0 = x0" "bytes ! 1 = x1" "bytes ! 2 = x2" "bytes ! 3 = x3" "bytes ! 4 = x4" "bytes ! 5 = x5"
    "bytes ! 6 = x6" "bytes ! 7 = x7" "bytes ! 8 = x8" "bytes ! 9 = x9" "bytes ! 10 = x10" "bytes ! 11 = x11"
    "bytes ! 12 = x12" "bytes ! 13 = x13" "bytes ! 14 = x14" "bytes ! 15 = x15"
    by (simp_all add: bytes)
  have idx: "(3 :: nat) + 1 = 4" "(3 :: nat) + 2 = 5" "(6 :: nat) + 1 = 7" "(6 :: nat) + 2 = 8" "(9 :: nat) + 1 = 10"
    "(9 :: nat) + 2 = 11" "(12 :: nat) + 1 = 13" "(12 :: nat) + 2 = 14" "(0 :: nat) + 1 = 1" "(0 :: nat) + 2 = 2" by simp_all
  have "generateKey bytes = concat (map (\<lambda>(x, y, z). [b64Char (drop_bit 2 x AND 63), b64Char (push_bit 4 (x AND 3) OR drop_bit 4 (y AND 240)),
      b64Char (push_bit 2 (y AND 15) OR drop_bit 6 (z AND 192)), b64Char (z AND 63)])
      [(x0, x1, x2), (x3, x4, x5), (x6, x7, x8), (x9, x10, x11), (x12, x13, x14)]) @
      [b64Char (drop_bit 2 x15 AND 63), b64Char (push_bit 4 (x15 AND 3))] @ [61, 61]"
    unfolding generateKey_def list.map idx at by (simp only: prod.case append_Cons append_Nil)
  also have "\<dots> = base64Spec bytes" unfolding list.map prod.case group last bytes base64Spec.simps by simp
  finally show ?thesis .
qed

section \<open>The request as the server reads it\<close>

text \<open>Bytes above the space can stand anywhere in a value.\<close>

definition visible :: "bytes \<Rightarrow> bool" where
  "visible bs \<longleftrightarrow> list_all (\<lambda>b. 32 < b) bs"

lemma visible_facts [simp]:
  "visible []" "visible (b # bs) \<longleftrightarrow> 32 < b \<and> visible bs" "visible (bs @ cs) \<longleftrightarrow> visible bs \<and> visible cs"
  by (simp_all add: visible_def)

lemma above_space: "32 < b \<Longrightarrow> \<not> b < 33 \<and> 31 < b" for b :: byte
  by (simp add: word_less_nat_alt)

lemma visible_value: "visible bs \<Longrightarrow> list_all valueByte bs \<and> trimmed bs"
proof -
  assume "visible bs"
  then have "\<forall>b\<in>set bs. \<not> b < 33 \<and> 31 < b" by (simp add: visible_def list_all_iff above_space)
  then show ?thesis by (auto simp: list_all_iff valueByte_def trimmed_def)
qed

lemma visible_digits: "visible (digits n) \<and> digits n \<noteq> []"
proof (induction n rule: digits.induct)
  case (1 n)
  have "32 < (of_nat (48 + k) :: byte)" if "k < 10" for k
  proof -
    have "unat (of_nat (48 + k) :: byte) = 48 + k" using that by (intro unat_of_nat_u8) simp
    then show ?thesis by (simp add: word_less_nat_alt)
  qed
  from this [of n] this [of "n mod 10"] 1 show ?case by (subst (1 2) digits.simps) simp
qed

lemma visible_to_string: "visible (to_string n) \<and> to_string n \<noteq> []"
  using visible_digits by (simp add: to_string_def)

lemma visible_b64: "visible b64Alphabet"
  by code_simp

lemma visible_base64: "visible (base64Spec bs)"
  using base64Spec_bytes [of bs] visible_b64 by (auto simp: visible_def list_all_iff)

lemma deflateOffer_value: "list_all valueByte (deflateOffer w) \<and> trimmed (deflateOffer w)"
proof -
  have v: "list_all valueByte (to_string n)" for n using visible_value visible_to_string by blast
  have s: "to_string n \<noteq> []" "\<not> last (to_string n) < 33" for n
    using visible_value [of "to_string n"] visible_to_string [of n] by (auto simp: trimmed_def)
  show ?thesis
    by (simp add: deflateOffer_def Let_def v trimmed_def s valueByte_def last_append)
qed

text \<open>The fields of an upgrade request.\<close>

definition upgradeFields :: "bytes \<Rightarrow> int \<Rightarrow> bool \<Rightarrow> bytes \<Rightarrow> bytes \<Rightarrow> u16 \<Rightarrow> header list" where
  "upgradeFields host port defaultPort key protocolsCsv wanted =
     [(ascii ''Host'', hostField host port defaultPort), (ascii ''Upgrade'', ascii ''websocket''),
      (ascii ''Connection'', ascii ''Upgrade''), (ascii ''Sec-WebSocket-Key'', key),
      (ascii ''Sec-WebSocket-Version'', ascii ''13'')] @
     (if protocolsCsv \<noteq> [] then [(ascii ''Sec-WebSocket-Protocol'', protocolsCsv)] else []) @
     (if wanted \<noteq> DISABLED then [(ascii ''Sec-WebSocket-Extensions'', deflateOffer wanted)] else [])"

lemma foldl_fields: "foldl (\<lambda>req h. req @ fst h @ ascii '': '' @ snd h @ crlf) req hs = req @ concat (map fieldLine hs)"
  by (induction hs arbitrary: req) (auto simp: fieldLine_def crlf_def)

lemma buildUpgradeRequest_encode:
  assumes "target \<noteq> []" and "length key = 24"
  shows "buildUpgradeRequest host port defaultPort target key protocolsCsv wanted userHeaders =
    encodeHead (ascii ''GET'', target) (upgradeFields host port defaultPort key protocolsCsv wanted @ userHeaders)"
proof -
  have texts: "ascii ''GET '' = ascii ''GET'' @ [SP]" "ascii ''Host: '' = ascii ''Host'' @ [58, SP]"
    "ascii ''Upgrade: websocket'' = ascii ''Upgrade'' @ [58, SP] @ ascii ''websocket''"
    "ascii ''Connection: Upgrade'' = ascii ''Connection'' @ [58, SP] @ ascii ''Upgrade''"
    "ascii ''Sec-WebSocket-Key: '' = ascii ''Sec-WebSocket-Key'' @ [58, SP]"
    "ascii ''Sec-WebSocket-Version: 13'' = ascii ''Sec-WebSocket-Version'' @ [58, SP] @ ascii ''13''"
    "ascii ''Sec-WebSocket-Protocol: '' = ascii ''Sec-WebSocket-Protocol'' @ [58, SP]"
    "ascii ''Sec-WebSocket-Extensions: '' = ascii ''Sec-WebSocket-Extensions'' @ [58, SP]"
    by (simp_all add: ascii_def)
  show ?thesis
    using assms
    unfolding buildUpgradeRequest_def Let_def foldl_fields
    unfolding encodeHead_def upgradeFields_def fieldLine_def crlf_def httpVersion_def texts
    by (simp del: ascii_Cons)
qed

text \<open>The names of the handshake are names of fields, and reserved.\<close>

lemma own_names:
  assumes "s \<in> set [''Host'', ''Upgrade'', ''Connection'', ''Sec-WebSocket-Key'', ''Sec-WebSocket-Version'',
    ''Sec-WebSocket-Protocol'', ''Sec-WebSocket-Extensions'']"
  shows "list_all fieldByte (ascii s)" and "map lower (ascii s) \<in> set reserved"
proof -
  have "\<forall>s \<in> set [''Host'', ''Upgrade'', ''Connection'', ''Sec-WebSocket-Key'', ''Sec-WebSocket-Version'',
      ''Sec-WebSocket-Protocol'', ''Sec-WebSocket-Extensions'']. list_all fieldByte (ascii s) \<and> map lower (ascii s) \<in> set reserved"
    by code_simp
  from bspec [OF this assms] show "list_all fieldByte (ascii s)" "map lower (ascii s) \<in> set reserved" by blast+
qed

lemma visible_host: "visible host \<Longrightarrow> visible (hostField host port defaultPort)"
  using visible_to_string by (auto simp: hostField_def)

lemma upgradeFields_ok:
  assumes "visible host" and "visible key" and "list_all valueByte protocolsCsv" and "trimmed protocolsCsv"
  shows "list_all fieldOk (upgradeFields host port defaultPort key protocolsCsv wanted)"
proof -
  have fixed: "list_all valueByte (ascii s) \<and> trimmed (ascii s)" if "s \<in> set [''websocket'', ''Upgrade'', ''13'']" for s
  proof -
    have "\<forall>s \<in> set [''websocket'', ''Upgrade'', ''13'']. visible (ascii s)" by code_simp
    then show ?thesis using that visible_value by blast
  qed
  note simps = fieldOk_def own_names(1) fixed visible_value [OF visible_host [OF assms(1)]] visible_value [OF assms(2)]
    assms(3,4) deflateOffer_value
  show ?thesis by (simp add: upgradeFields_def simps del: ascii_Cons)
qed

text \<open>The names the server must find once.\<close>

lemma lower_tolower: "lower b = tolower b"
proof -
  have "\<forall>n \<in> set [0..<256]. lower (of_nat n) = tolower (of_nat n)" by code_simp
  moreover have "unat b \<in> set [0..<256]" by simp
  ultimately have "lower (of_nat (unat b)) = tolower (of_nat (unat b))" by blast
  then show ?thesis by simp
qed

lemma iequals_iff: "iequals a b \<longleftrightarrow> map tolower a = map tolower b"
proof
  assume "iequals a b"
  then have "list_all2 (\<lambda>x y. tolower x = tolower y) a b"
    by (simp add: iequals_def list_all2_iff list_all_iff)
  then show "map tolower a = map tolower b"
    by (simp add: list_all2_map1 list_all2_map2 flip: list.rel_eq)
next
  assume "map tolower a = map tolower b"
  moreover from this have "length a = length b" by (rule map_eq_imp_length_eq)
  ultimately show "iequals a b"
    by (auto simp: iequals_def list_all_iff set_zip) (metis nth_map)
qed

lemma isReservedHeader_iff: "isReservedHeader name \<longleftrightarrow> map tolower name \<in> set reserved"
proof -
  have "\<forall>r \<in> set reserved. map tolower r = r" by code_simp
  then show ?thesis by (auto simp: isReservedHeader_def list_ex_iff iequals_iff)
qed

definition ownField :: "header \<Rightarrow> bool" where
  "ownField h \<longleftrightarrow> fst h \<in> set reserved"

definition lowerName :: "header \<Rightarrow> header" where
  "lowerName = (\<lambda>(k, v). (map lower k, v))"

lemma upgradeFields_own: "list_all ownField (map lowerName (upgradeFields host port defaultPort key protocolsCsv wanted))"
  by (simp add: upgradeFields_def ownField_def lowerName_def own_names(2) del: ascii_Cons map_map)

text \<open>What the server reads in the lines of the user: a name in lower case and a value without the blanks around it.\<close>

definition asRead :: "header \<Rightarrow> header" where
  "asRead = (\<lambda>(k, v). (map lower k, trimValue (SP # v)))"

text \<open>Lines that cannot be mistaken: no colon and no line end in the name, no line end in the value.\<close>

definition oneLine :: "header \<Rightarrow> bool" where
  "oneLine = (\<lambda>(k, v). CR \<notin> set k \<and> 58 \<notin> set k \<and> CR \<notin> set v)"

lemma same_first: "x \<notin> set as \<Longrightarrow> x \<notin> set bs \<Longrightarrow> as @ x # cs = bs @ x # ds \<Longrightarrow> as = bs \<and> cs = ds"
proof (induction as arbitrary: bs)
  case (Cons a as)
  then show ?case by (cases bs) auto
qed (auto simp: Cons_eq_append_conv)

lemma headersSpec_oneLine:
  assumes "list_all oneLine hs" and "hs \<noteq> []" and "headersSpec n (concat (map fieldLine hs) @ CR # LF # rest) = (Complete c gs, ys)"
  shows "c = length (concat (map fieldLine hs)) + 2 \<and> gs = map asRead hs"
  using assms
proof (induction hs arbitrary: n c gs ys)
  case (Cons f fs)
  obtain k v where f: "f = (k, v)" by (cases f)
  have kv: "CR \<notin> set k" "58 \<notin> set k" "CR \<notin> set (SP # v)" using Cons.prems(1) by (simp_all add: f oneLine_def)
  let ?tail = "concat (map fieldLine fs) @ CR # LF # rest"
  from Cons.prems(3) obtain m name w s where l: "n = Suc m" "k @ 58 # (SP # v) @ CR # LF # ?tail = name @ 58 # w @ CR # LF # s"
    and bytes: "\<forall>b\<in>set name. fieldByte b" "\<forall>b\<in>set w. valueByte b"
    and more: "(\<exists>s'. s = CR # LF # s') \<and> c = length name + length w + 5 \<and> gs = [(map lower name, trimValue w)] \<or>
     s \<noteq> [] \<and> hd s \<noteq> CR \<and>
       (\<exists>c' hs' s'. headersSpec m s = (Complete c' hs', s') \<and> c = length name + length w + 3 + c' \<and>
          gs = (map lower name, trimValue w) # hs')"
    by (elim headersSpec_Complete) (simp add: f fieldLine_def)
  have "58 \<notin> set name" "CR \<notin> set w" using bytes fieldByte_colon valueByte_CR by blast+
  from same_first [OF kv(2) \<open>58 \<notin> set name\<close> l(2)]
  have name: "name = k" and rest: "(SP # v) @ CR # LF # ?tail = w @ CR # LF # s" by simp_all
  from same_first [OF kv(3) \<open>CR \<notin> set w\<close> rest] have w: "w = SP # v" and s: "s = ?tail" by simp_all
  show ?case
  proof (cases fs)
    case Nil
    then have "hd s = CR" unfolding s by simp
    then show ?thesis using more by (auto simp: f Nil name w asRead_def fieldLine_def)
  next
    case (Cons g gs')
    obtain k2 v2 where g: "g = (k2, v2)" by (cases g)
    have "CR \<notin> set k2" using Cons.prems(1) by (simp add: Cons g oneLine_def)
    then have "hd s \<noteq> CR" unfolding s by (cases k2) (auto simp: Cons g fieldLine_def)
    then obtain c' hs' s' where "headersSpec m s = (Complete c' hs', s')" "c = length name + length w + 3 + c'"
        "gs = (map lower name, trimValue w) # hs'"
      using more by auto
    with Cons.IH [of m c' hs' s'] Cons.prems(1) show ?thesis
      by (simp add: f s name w Cons asRead_def fieldLine_def)
  qed
qed simp

lemma headSpec_oneLine:
  assumes "lineOk line" and "hs \<noteq> []" and "list_all oneLine hs"
    and "headSpec (encodeHead line hs @ rest) pp = ((Complete c gs, ys), pp')"
  shows "c = length (encodeHead line hs) \<and> gs = line # map asRead hs"
proof -
  let ?s = "concat (map fieldLine hs) @ CR # LF # rest"
  obtain n where n: "lineSpec (encodeHead line hs @ rest) = Line line n" "drop n (encodeHead line hs @ rest) = ?s"
      "length (encodeHead line hs) = n + (length (concat (map fieldLine hs)) + 2)"
      "proxyParse (encodeHead line hs @ rest) pp = ((True, 0), pp)"
    using encodeHead_line [OF assms(1)] by blast
  obtain c' hs' zs where "headersSpec (UWS_HTTP_MAX_HEADERS_COUNT - 2) ?s = (Complete c' hs', zs)" "c = n + c'" "gs = line # hs'"
    using assms(4) n by (auto simp: headSpec_def split: prod.splits headResult.splits)
  with headersSpec_oneLine [OF assms(3,2)] n(3) show ?thesis by simp
qed

lemma userHeaders_other:
  assumes "\<forall>(k, v) \<in> set userHeaders. isValidUserHeader k v"
  shows "filter ownField (map asRead userHeaders) = []"
proof -
  have l: "lower = tolower" using lower_tolower by (intro ext)
  show ?thesis using assms
    by (auto simp: filter_empty_conv ownField_def asRead_def l isValidUserHeader_def isReservedHeader_iff)
qed

lemma validHeaders_oneLine:
  "\<forall>(k, v) \<in> set hs. isValidUserHeader k v \<Longrightarrow> list_all oneLine hs"
  by (auto simp: list_all_iff isValidUserHeader_def oneLine_def)

lemma fieldOk_oneLine: "fieldOk h \<Longrightarrow> oneLine h"
  using fieldByte_colon valueByte_CR by (auto simp: fieldOk_def oneLine_def list_all_iff split: prod.splits)

lemma getLine_ok: "target \<noteq> [] \<Longrightarrow> hd target = 47 \<Longrightarrow> visible target \<Longrightarrow> lineOk (ascii ''GET'', target)"
proof -
  assume t: "target \<noteq> []" "hd target = 47" "visible target"
  have "list_all (\<lambda>b. scharGe b 33) (ascii ''GET'')" by code_simp
  moreover have "take 1 target = [47]" using t(1,2) by (cases target) simp_all
  ultimately show ?thesis using t(3) by (simp add: lineOk_def visible_def)
qed



end
