(* ===== verification/WebSocketClientResponse.thy ===== *)
theory WebSocketClientResponse
  imports WebSocketClient
begin

text \<open>
  What the client of native/uwebsockets/WebSocketClientHandshake.h accepts: the response parser gives
  back the head of a well-formed response however its bytes arrive, and the windows of a negotiated
  compression stay within the ones that were offered.
\<close>

section \<open>The response head\<close>

definition renderResponse :: "nat \<Rightarrow> bytes \<Rightarrow> (bytes \<times> bytes) list \<Rightarrow> bytes" where
  "renderResponse code phrase hs =
     ascii ''HTTP/1.1 '' @ digits code @ SP # phrase @ crlf @ concat (map fieldLine hs) @ crlf"

definition lineFree :: "bytes \<Rightarrow> bool" where
  "lineFree s \<longleftrightarrow> CR \<notin> set s"

lemma findText_skip: "findText t (xs @ ys) = map_option (\<lambda>i. i + length xs) (findText t ys)"
  if "\<forall>j < length xs. \<not> prefix t (drop j (xs @ ys))"
  using that
proof (induction xs)
  case (Cons x xs)
  have "\<not> prefix t (x # xs @ ys)" using Cons.prems [rule_format, of 0] by simp
  moreover have "\<forall>j < length xs. \<not> prefix t (drop j (xs @ ys))"
    using Cons.prems [rule_format, of "Suc j" for j] by auto
  ultimately show ?case using Cons.IH by (cases "findText t ys") simp_all
qed (cases "findText t ys"; simp)

lemma findText_crlf: "lineFree s \<Longrightarrow> findText crlf (s @ crlf @ ys) = Some (length s)"
  by (induction s) (auto simp: lineFree_def crlf_def)

lemma drop_line: "lineFree s \<Longrightarrow> j < length s \<Longrightarrow> \<not> prefix (CR # t) (drop j (s @ ys))"
proof -
  assume "lineFree s" "j < length s"
  then have "drop j (s @ ys) = s ! j # drop (Suc j) s @ ys" "s ! j \<noteq> CR"
    by (auto simp: Cons_nth_drop_Suc [symmetric] lineFree_def dest: nth_mem)
  then show ?thesis by simp
qed

text \<open>One line does not hold the end of the head, unless the next line is empty.\<close>

lemma findText_head_line:
  assumes "lineFree s" and "ys \<noteq> []" and "hd ys \<noteq> CR"
  shows "findText (crlf @ crlf) (s @ crlf @ ys) = map_option (\<lambda>i. i + (length s + 2)) (findText (crlf @ crlf) ys)"
proof -
  have "\<not> prefix (crlf @ crlf) (drop j ((s @ crlf) @ ys))" if "j < length (s @ crlf)" for j
  proof (cases "j < length s")
    case True
    show ?thesis using drop_line [OF assms(1) True, of "LF # crlf" "crlf @ ys"] by (simp add: crlf_def)
  next
    case False
    then have "j = length s \<or> j = length s + 1" using that by (auto simp: crlf_def)
    then show ?thesis using assms(2,3) by (cases ys) (auto simp: crlf_def)
  qed
  then have "findText (crlf @ crlf) ((s @ crlf) @ ys) =
      map_option (\<lambda>i. i + length (s @ crlf)) (findText (crlf @ crlf) ys)"
    by (intro findText_skip) blast
  then show ?thesis by (simp add: crlf_def)
qed

lemma findText_last_line:
  assumes "lineFree s"
  shows "findText (crlf @ crlf) (s @ crlf @ crlf @ ys) = Some (length s)"
proof (rule findText_at)
  show "\<forall>j < length s. \<not> prefix (crlf @ crlf) (drop j (s @ crlf @ crlf @ ys))"
    using drop_line [OF assms, of _ "LF # crlf" "crlf @ crlf @ ys"] by (simp add: crlf_def)
qed (simp_all add: crlf_def)

text \<open>The fields of a response that can be told apart.\<close>

definition responseField :: "bytes \<times> bytes \<Rightarrow> bool" where
  "responseField = (\<lambda>(k, v). lineFree k \<and> 58 \<notin> set k \<and> lineFree v)"

lemma fieldLine_lines: "responseField f \<Longrightarrow> \<exists>s. fieldLine f = s @ crlf \<and> lineFree s \<and> s \<noteq> [] \<and> hd s \<noteq> CR \<and>
    headerOf s = [(map tolower (trim (fst f)), trim (snd f))]"
proof -
  assume ok: "responseField f"
  obtain k v where f: "f = (k, v)" by (cases f)
  have k: "58 \<notin> set k" "CR \<notin> set k" "CR \<notin> set v" using ok by (auto simp: f responseField_def lineFree_def)
  have t: "trim (SP # v) = trim v" by (simp add: trim_def trimFront_def)
  have "headerOf (k @ 58 # SP # v) = [(map tolower (trim k), trim v)]"
    using k t by (simp add: headerOf_def findFrom_0_some)
  moreover have "fieldLine f = (k @ 58 # SP # v) @ crlf" by (simp add: f fieldLine_def crlf_def)
  moreover have "lineFree (k @ 58 # SP # v)" using k by (simp add: lineFree_def)
  moreover have "hd (k @ 58 # SP # v) \<noteq> CR" using k by (cases k) auto
  ultimately show ?thesis by (auto simp: f)
qed

lemma findText_fields:
  assumes "lineFree s" and "list_all responseField hs"
  shows "findText (crlf @ crlf) (s @ crlf @ concat (map fieldLine hs) @ crlf @ ys) =
    Some (length s + length (concat (map fieldLine hs)))"
  using assms
proof (induction hs arbitrary: s)
  case Nil
  then show ?case using findText_last_line by simp
next
  case (Cons f hs)
  obtain t where t: "fieldLine f = t @ crlf" "lineFree t" "t \<noteq> []" "hd t \<noteq> CR"
    using fieldLine_lines [of f] Cons.prems(2) by auto
  let ?r = "t @ crlf @ concat (map fieldLine hs) @ crlf @ ys"
  have "findText (crlf @ crlf) (s @ crlf @ ?r) = map_option (\<lambda>i. i + (length s + 2)) (findText (crlf @ crlf) ?r)"
    by (rule findText_head_line) (use Cons.prems(1) t in \<open>simp_all\<close>)
  then show ?case using Cons.IH [OF t(2)] Cons.prems(2) by (simp add: t(1) crlf_def)
qed

lemma responseHeaders_fields:
  assumes "list_all responseField hs"
  shows "responseHeaders (concat (map fieldLine hs) @ crlf) = map (\<lambda>(k, v). (map tolower (trim k), trim v)) hs"
  using assms
proof (induction hs)
  case Nil
  have "responseHeaders crlf = []" by code_simp
  then show ?case by simp
next
  case (Cons f hs)
  obtain t where t: "fieldLine f = t @ crlf" "lineFree t" "t \<noteq> []" "headerOf t = [(map tolower (trim (fst f)), trim (snd f))]"
    using fieldLine_lines [of f] Cons.prems by auto
  let ?r = "concat (map fieldLine hs) @ crlf"
  have "findText crlf (t @ crlf @ ?r) = Some (length t)" by (rule findText_crlf [OF t(2)])
  moreover have "drop (length t + 2) (t @ crlf @ ?r) = ?r" by (simp add: crlf_def)
  ultimately have "responseHeaders (t @ crlf @ ?r) = headerOf t @ responseHeaders ?r"
    using t(3) by (subst responseHeaders.simps) simp
  then show ?case using Cons by (simp add: t case_prod_beta)
qed

section \<open>The status line\<close>

lemma digit_byte: "d < 10 \<Longrightarrow> \<not> (of_nat (48 + d) :: byte) < 48 \<and> \<not> (of_nat (48 + d) :: byte) > 57 \<and>
    uint (of_nat (48 + d) :: byte) = 48 + int d"
proof -
  assume d: "d < 10"
  then have u: "unat (of_nat (48 + d) :: byte) = 48 + d" by (intro unat_of_nat_u8) simp
  then have "uint (of_nat (48 + d) :: byte) = 48 + int d" by (metis of_nat_add of_nat_numeral uint_nat)
  then show ?thesis using u d by (simp add: word_less_nat_alt)
qed

lemma statusCode_append: "statusCode c (xs @ ys) = Option.bind (statusCode c xs) (\<lambda>c. statusCode c ys)"
  by (induction xs arbitrary: c) simp_all

lemma statusCode_digit: "d < 10 \<Longrightarrow> statusCode c [of_nat (48 + d)] = Some (c * 10 + int d)"
  using digit_byte [of d] by simp

lemma statusCode_digits: "statusCode 0 (digits n) = Some (int n)"
proof (induction n rule: digits.induct)
  case (1 n)
  show ?case
  proof (cases "n < 10")
    case True
    then show ?thesis using statusCode_digit [of n 0] by (subst digits.simps) simp
  next
    case False
    then have "statusCode 0 (digits n) = statusCode (int (n div 10)) [of_nat (48 + n mod 10)]"
      using 1 by (subst digits.simps) (simp add: statusCode_append)
    moreover have "int (n div 10) * 10 + int (n mod 10) = int n"
      by (metis div_mult_mod_eq of_nat_add of_nat_mult of_nat_numeral)
    ultimately show ?thesis using statusCode_digit [of "n mod 10" "int (n div 10)"] by simp
  qed
qed

lemma length_digits3: "100 \<le> n \<Longrightarrow> n < 1000 \<Longrightarrow> length (digits n) = 3"
  by (subst digits.simps, subst digits.simps, subst digits.simps) (auto simp: div_mult2_eq [symmetric])

lemma visible_no_blank: "visible s \<Longrightarrow> SP \<notin> set s \<and> HTAB \<notin> set s \<and> CR \<notin> set s"
  by (auto simp: visible_def list_all_iff)

lemma trim_fixed:
  assumes "trim v = v" and "v \<noteq> []"
  shows "hd v \<noteq> SP \<and> hd v \<noteq> HTAB" and "last v \<noteq> SP \<and> last v \<noteq> HTAB \<and> last v \<noteq> CR"
proof -
  have b: "length (trimBack s) \<le> length s" for s using length_dropWhile_le [of _ "rev s"] by (simp add: trimBack_def)
  have f: "length (trimFront s) \<le> length s" for s by (simp add: trimFront_def length_dropWhile_le)
  have "length (trimFront v) = length v" using assms(1) b [of "trimFront v"] f [of v] by (simp add: trim_def)
  moreover obtain p where p: "p @ trimFront v = v" by (metis takeWhile_dropWhile_id trimFront_def)
  moreover have "length p + length (trimFront v) = length v" using arg_cong [OF p, of length] by simp
  ultimately have fv: "trimFront v = v" by simp
  then show "hd v \<noteq> SP \<and> hd v \<noteq> HTAB" using assms(2) by (auto simp: trimFront_def dropWhile_eq_self_iff)
  have "trimBack v = v" using assms(1) unfolding trim_def fv .
  from arg_cong [OF this, of rev] have "dropWhile (\<lambda>c. c = SP \<or> c = HTAB \<or> c = CR) (rev v) = rev v"
    by (simp only: trimBack_def rev_rev_ident)
  then show "last v \<noteq> SP \<and> last v \<noteq> HTAB \<and> last v \<noteq> CR" using assms(2) by (auto simp: dropWhile_eq_self_iff hd_rev)
qed

lemma trim_status:
  assumes "visible d" and "d \<noteq> []" and "trim phrase = phrase"
  shows "trim (d @ SP # phrase) = (if phrase = [] then d else d @ SP # phrase)"
proof -
  have blank: "c \<noteq> SP \<and> c \<noteq> HTAB \<and> c \<noteq> CR" if "c \<in> set d" for c
    using visible_no_blank [OF assms(1)] that by metis
  have "hd d \<in> set d" "last d \<in> set d" using assms(2) by simp_all
  then have hl: "hd d \<noteq> SP" "hd d \<noteq> HTAB" "last d \<noteq> SP" "last d \<noteq> HTAB" "last d \<noteq> CR" using blank by blast+
  then have "trimFront (d @ SP # phrase) = d @ SP # phrase" using assms(2) by (cases d) (simp_all add: trimFront_def)
  moreover have "trimBack (d @ SP # phrase) = (if phrase = [] then d else d @ SP # phrase)"
  proof (cases phrase rule: rev_cases)
    case Nil
    then show ?thesis using hl assms(2) by (cases d rule: rev_cases) (simp_all add: trimBack_def)
  next
    case (snoc p c)
    then show ?thesis using trim_fixed(2) [OF assms(3)] by (simp add: trimBack_def)
  qed
  ultimately show ?thesis by (simp add: trim_def)
qed

text \<open>The client reads what was written, and finds the place behind it.\<close>

lemma response_roundtrip:
  assumes "100 \<le> code" and "code < 1000" and "lineFree phrase" and "trim phrase = phrase" and "list_all responseField hs"
  shows "parseResponse (renderResponse code phrase hs @ body) emptyHead =
    (True, \<lparr>complete = True, status = int code, reason = phrase,
       headers = map (\<lambda>(k, v). (map tolower (trim k), trim v)) hs, headerBytes = length (renderResponse code phrase hs)\<rparr>)"
proof -
  let ?d = "digits code"
  define s where "s = ascii ''HTTP/1.1'' @ SP # ?d @ SP # phrase"
  have d: "visible ?d" "?d \<noteq> []" "length ?d = 3" "SP \<notin> set ?d" "CR \<notin> set ?d"
    using visible_digits [of code] length_digits3 [OF assms(1,2)] visible_no_blank by blast+
  have line: "lineFree s" using assms(3) d(5) by (simp add: s_def lineFree_def)
  let ?f = "concat (map fieldLine hs)"
  have r: "renderResponse code phrase hs = s @ crlf @ ?f @ crlf" by (simp add: renderResponse_def s_def)
  have e: "findText (crlf @ crlf) (renderResponse code phrase hs @ body) = Some (length s + length ?f)"
    unfolding r using findText_fields [OF line assms(5), of body] by simp
  have tk: "take (length s + length ?f + 4) (renderResponse code phrase hs @ body) = renderResponse code phrase hs"
  proof -
    have "length s + length ?f + 4 = length (renderResponse code phrase hs)" by (simp add: r crlf_def)
    then show ?thesis by (simp only: append_eq_conv_conj [THEN iffD1, OF refl, THEN conjunct1, symmetric])
  qed
  have le: "findText crlf (renderResponse code phrase hs) = Some (length s)"
    unfolding r by (rule findText_crlf [OF line])
  have st: "take (length s) (renderResponse code phrase hs) = s" "drop (length s + 2) (renderResponse code phrase hs) = ?f @ crlf"
    by (simp_all add: r crlf_def)
  have h: "take 5 s = ascii ''HTTP/''" by (simp add: s_def)
  have "SP \<notin> set (ascii ''HTTP/1.1'')" by code_simp
  then have sp1: "findFrom SP s 0 = Some 8" unfolding s_def by (subst findFrom_0_some) simp_all
  have rest: "trim (drop (8 + 1) s) = (if phrase = [] then ?d else ?d @ SP # phrase)"
    using trim_status [OF d(1,2) assms(4)] by (simp add: s_def)
  have sp2: "findFrom SP (if phrase = [] then ?d else ?d @ SP # phrase) 0 = (if phrase = [] then None else Some 3)"
    using d(3,4) findFrom_0_some [OF d(4), of phrase] by (simp add: findFrom_0_none)
  note hd = responseHeaders_fields [OF assms(5)]
  show ?thesis
    using statusCode_digits [of code] d(3) assms(4) hd
    unfolding parseResponse_def e Let_def tk le st option.case h sp1 rest sp2
    by (simp add: emptyHead_def r crlf_def trim_def trimFront_def)
qed

section \<open>Responses that arrive in pieces\<close>

lemma findText_more: "findText t xs = Some i \<Longrightarrow> t \<noteq> [] \<Longrightarrow> findText t (xs @ ys) = Some i"
proof (rule findText_at)
  assume s: "findText t xs = Some i" "t \<noteq> []"
  note i = findText_Some [OF s(1)]
  have "prefix t (drop i xs)" using i by (metis append_take_drop_id prefixI same_append_eq)
  then show "prefix t (drop i (xs @ ys))" using i by (simp add: prefix_prefix)
  show "\<forall>j < i. \<not> prefix t (drop j (xs @ ys))"
  proof (intro allI impI)
    fix j assume j: "j < i"
    have "i + length t \<le> length xs" using i by blast
    then have "length t \<le> length (drop j xs)" using j by simp
    then show "\<not> prefix t (drop j (xs @ ys))" using findText_least [OF s(1) j] i j
      by (auto simp: prefix_def append_eq_append_conv2)
  qed
  show "i \<le> length (xs @ ys)" using i by simp
qed

text \<open>C35. The answer does not depend on how the bytes arrive: as long as the end of the head is missing the client waits and
  keeps everything else as it was, and once it is there, no later byte changes what was read, whether it was accepted or not.\<close>
theorem response_in_pieces:
  "(findText (crlf @ crlf) xs = None \<longrightarrow> parseResponse xs rh = (True, rh\<lparr>complete := False\<rparr>)) \<and>
   (complete (snd (parseResponse xs rh)) \<longrightarrow>
      parseResponse (xs @ ys) rh = parseResponse xs rh \<and> headerBytes (snd (parseResponse xs rh)) \<le> length xs)"
proof (cases "findText (crlf @ crlf) xs")
  case None
  then show ?thesis by (simp add: parseResponse_def)
next
  case (Some i)
  have more: "findText (crlf @ crlf) (xs @ ys) = Some i" by (rule findText_more [OF Some]) (simp add: crlf_def)
  have len: "i + 4 \<le> length xs" using findText_Some [OF Some] by (simp add: crlf_def)
  then have tk: "take (i + 4) (xs @ ys) = take (i + 4) xs" by simp
  have "parseResponse (xs @ ys) rh = parseResponse xs rh"
    unfolding parseResponse_def Some more option.case Let_def tk ..
  moreover have "headerBytes (snd (parseResponse xs rh)) = i + 4"
    unfolding parseResponse_def Some option.case Let_def by (auto split: option.split if_splits)
  ultimately show ?thesis using Some len by simp
qed

lemma response_in_pieces_witness:
  "let xs = ascii ''HTTP/1.1 407 No'' @ crlf @ crlf; head = \<lparr>complete = False, status = 0, reason = [], headers = [], headerBytes = 0\<rparr> in
   complete (snd (parseResponse xs head)) \<and> parseResponse (xs @ [72]) head = parseResponse xs head \<and>
   findText (crlf @ crlf) (ascii ''HTTP'') = None \<and> parseResponse (ascii ''HTTP'') head = (True, head\<lparr>complete := False\<rparr>)"
proof -
  define xs where "xs = ascii ''HTTP/1.1 407 No'' @ crlf @ crlf"
  define h where "h = \<lparr>complete = False, status = 0, reason = [], headers = [], headerBytes = 0\<rparr>"
  have "complete (snd (parseResponse xs h))" unfolding xs_def h_def by code_simp
  moreover have "findText (crlf @ crlf) (ascii ''HTTP'') = None" by code_simp
  ultimately show ?thesis
    using response_in_pieces [of xs h "[72]"] response_in_pieces [of "ascii ''HTTP''" h "[]"]
    unfolding Let_def xs_def [symmetric] h_def [symmetric] by blast
qed

section \<open>Compression\<close>

lemma masked_windows:
  "drop_bit 4 (w AND COMPRESSOR_MASK) = drop_bit 4 w AND mask 4"
  "drop_bit 8 (w AND DECOMPRESSOR_MASK) = drop_bit 8 w AND mask 4"
  by (simp_all add: options_defs drop_bit_and mask_eq_exp_minus_1)

lemma wanted_range:
  "0 \<le> wantedCompressionWindow w \<and> wantedCompressionWindow w < 16"
  "0 \<le> wantedInflationWindow w \<and> wantedInflationWindow w < 16"
  using and_mask_lt_2p [of "drop_bit 4 w" 4] and_mask_lt_2p [of "drop_bit 8 w" 4]
  unfolding wantedCompressionWindow_def wantedInflationWindow_def masked_windows by simp_all

lemma bit7_of_3KB: "8 \<le> wantedCompressionWindow w \<Longrightarrow> w AND DEDICATED_COMPRESSOR_3KB \<noteq> 0"
proof
  assume w: "8 \<le> wantedCompressionWindow w" "w AND DEDICATED_COMPRESSOR_3KB = 0"
  have "w AND 0x80 = (w AND DEDICATED_COMPRESSOR_3KB) AND 0x80" by (simp add: options_defs and.assoc)
  then have "drop_bit 4 (w AND 0x80) = 0" using w(2) by simp
  then have "drop_bit 4 w AND 8 = 0" by (simp add: drop_bit_and)
  moreover have "drop_bit 4 w AND mask 4 = (drop_bit 4 w AND 8) OR (drop_bit 4 w AND mask 3)"
    unfolding bit.conj_disj_distrib [symmetric] by (simp add: mask_eq_exp_minus_1)
  ultimately have "drop_bit 4 w AND mask 4 = drop_bit 4 w AND mask 3" by simp
  then have "wantedCompressionWindow w < 2 ^ 3"
    using and_mask_lt_2p [of "drop_bit 4 w" 3] unfolding wantedCompressionWindow_def masked_windows by simp
  then show False using w(1) by simp
qed

lemma agreed_windows:
  assumes "inflationAgreed ep wi = Some i" and "compressionAgreed ep wc = Some c" and "bitsOk ep" and "0 \<le> wi" and "0 \<le> wc"
  shows "i \<le> wi \<and> c \<le> wc"
  using assms by (auto simp: inflationAgreed_def compressionAgreed_def bitsOk_def Let_def split: if_splits)

lemma agreedOptions_windows:
  assumes "i \<in> set (0 # [8..15])" and "c = 0 \<or> w AND DEDICATED_COMPRESSOR_3KB \<noteq> 0"
  shows "wantedInflationWindow (agreedOptions w c i) = i \<and>
    agreedOptions w c i AND COMPRESSOR_MASK = (if c = 0 then SHARED_COMPRESSOR else DEDICATED_COMPRESSOR_3KB)"
proof -
  let ?low = "if c = 0 then SHARED_COMPRESSOR else DEDICATED_COMPRESSOR_3KB"
  let ?with = "\<lambda>low i. if i = 0 then low OR SHARED_DECOMPRESSOR else low OR push_bit 8 (word_of_int i)"
  have "\<forall>i \<in> set (0 # [8..15]). \<forall>low \<in> set [SHARED_COMPRESSOR, DEDICATED_COMPRESSOR_3KB].
      wantedInflationWindow (?with low i) = i \<and> ?with low i AND COMPRESSOR_MASK = low"
    by code_simp
  from bspec [OF bspec [OF this assms(1)], of ?low]
  have "wantedInflationWindow (?with ?low i) = i \<and> ?with ?low i AND COMPRESSOR_MASK = ?low" by simp
  moreover have "agreedOptions w c i = ?with ?low i" using assms(2) by (auto simp: agreedOptions_def Let_def)
  ultimately show ?thesis by simp
qed

lemma inflationAgreed_bound:
  "inflationAgreed ep asked = Some i \<Longrightarrow>
    i = (if serverMaxWindowBits ep \<notin> {0, 1} then serverMaxWindowBits ep else if serverNoContextTakeover ep then 0 else asked) \<and>
    (serverMaxWindowBits ep \<noteq> 0 \<longrightarrow> 0 < asked \<and> asked < 15)"
  by (auto simp: inflationAgreed_def Let_def split: if_splits)

lemma compressionAgreed_bound:
  "compressionAgreed ep asked = Some c \<Longrightarrow>
    c = (if clientMaxWindowBits ep \<notin> {0, 1} then clientMaxWindowBits ep else if clientNoContextTakeover ep then 0 else asked) \<and>
    (clientMaxWindowBits ep \<noteq> 0 \<longrightarrow> 0 < asked)"
  by (auto simp: compressionAgreed_def Let_def split: if_splits)

text \<open>C36. A client that takes a response inflates with the window the response states, or, when it states none, with no
  window kept if the response resets the context and else with the window the client asked for; never with more than it asked
  for, and it takes a limit only if it offered one. The compressor is bound in the same way. But whatever
  compressor was asked for and whatever window was agreed on, a connection that keeps a compressor of its own always gets
  the one of 3 KB with 9 bits: the test for the 3 KB compressor shares a bit with every other dedicated one. So 9 bits are
  also used when 8 were agreed.\<close>
theorem accepted_compression:
  assumes "compression (acceptCompressionResponse wanted ext)"
  defines "got \<equiv> options (acceptCompressionResponse wanted ext)" and "ep \<equiv> parseExtensions ext"
    and "asked \<equiv> wantedInflationWindow wanted" and "askedOwn \<equiv> wantedCompressionWindow wanted"
  defines "bound \<equiv> (if serverMaxWindowBits ep \<notin> {0, 1} then serverMaxWindowBits ep else if serverNoContextTakeover ep then 0 else asked)"
    and "boundOwn \<equiv> (if clientMaxWindowBits ep \<notin> {0, 1} then clientMaxWindowBits ep else if clientNoContextTakeover ep then 0 else askedOwn)"
  shows "ok (acceptCompressionResponse wanted ext) \<and> wanted \<noteq> DISABLED \<and> perMessageDeflate ep \<and>
    windowOk bound \<and> bound \<le> asked \<and> (serverMaxWindowBits ep \<noteq> 0 \<longrightarrow> 0 < asked \<and> asked < 15) \<and>
    windowOk boundOwn \<and> boundOwn \<le> askedOwn \<and> (clientMaxWindowBits ep \<noteq> 0 \<longrightarrow> 0 < askedOwn) \<and>
    wantedInflationWindow got = bound \<and>
    got AND COMPRESSOR_MASK = (if boundOwn = 0 then SHARED_COMPRESSOR else DEDICATED_COMPRESSOR_3KB)"
proof -
  obtain i c where a: "inflationAgreed ep asked = Some i" "compressionAgreed ep askedOwn = Some c"
    and b: "\<not> ((c \<noteq> 0 \<and> c < 8) \<or> c > 15 \<or> (i \<noteq> 0 \<and> i < 8) \<or> i > 15)" and w: "wanted \<noteq> DISABLED" "perMessageDeflate ep"
    and r: "acceptCompressionResponse wanted ext = \<lparr>ok = True, compression = True, options = agreedOptions wanted c i\<rparr>"
    using assms(1) unfolding acceptCompressionResponse_def ep_def [symmetric] asked_def [symmetric] askedOwn_def [symmetric] Let_def
    by (auto simp: refused_def withoutCompression_def split: if_splits option.splits)
  have bits: "bitsOk ep" unfolding ep_def by (rule parseExtensions_bits)
  have range: "0 \<le> asked" "0 \<le> askedOwn" using wanted_range [of wanted] unfolding asked_def askedOwn_def by simp_all
  have le: "i \<le> asked" "c \<le> askedOwn" using agreed_windows [OF a bits range] by simp_all
  note bi = inflationAgreed_bound [OF a(1), folded bound_def] and bc = compressionAgreed_bound [OF a(2), folded boundOwn_def]
  have nonneg: "0 \<le> i" "0 \<le> c" using bi bc bits range unfolding bound_def boundOwn_def bitsOk_def by auto
  have ok: "windowOk i" "windowOk c" using b nonneg by (auto simp: windowOk_def)
  have "i = 0 \<or> 8 \<le> i \<and> i \<le> 15" using b nonneg by linarith
  then have "i \<in> set (0 # [8..15])" by auto
  moreover have "c = 0 \<or> wanted AND DEDICATED_COMPRESSOR_3KB \<noteq> 0"
    using b le(2) nonneg(2) bit7_of_3KB [of wanted, folded askedOwn_def] by linarith
  ultimately have "wantedInflationWindow got = i"
    "got AND COMPRESSOR_MASK = (if c = 0 then SHARED_COMPRESSOR else DEDICATED_COMPRESSOR_3KB)"
    using agreedOptions_windows unfolding got_def r by simp_all
  then show ?thesis using r w bi bc le ok by simp
qed

lemma accepted_compression_witness:
  "let ext = ascii ''permessage-deflate; client_max_window_bits=12; server_max_window_bits=10'';
     wanted = DEDICATED_COMPRESSOR_256KB OR push_bit 8 14 in
   wantedCompressionWindow wanted = 15 \<and> wantedInflationWindow wanted = 14 \<and>
   wantedInflationWindow (options (acceptCompressionResponse wanted ext)) = 10 \<and>
   options (acceptCompressionResponse wanted ext) AND COMPRESSOR_MASK = DEDICATED_COMPRESSOR_3KB"
proof -
  define ext where "ext = ascii ''permessage-deflate; client_max_window_bits=12; server_max_window_bits=10''"
  define wanted where "wanted = DEDICATED_COMPRESSOR_256KB OR push_bit 8 14"
  have "wantedCompressionWindow wanted = 15" "wantedInflationWindow wanted = 14" "clientMaxWindowBits (parseExtensions ext) = 12"
    "serverMaxWindowBits (parseExtensions ext) = 10" "compression (acceptCompressionResponse wanted ext)"
    unfolding ext_def wanted_def by code_simp+
  then show ?thesis using accepted_compression [of wanted ext] unfolding Let_def ext_def [symmetric] wanted_def [symmetric] by simp
qed

end
