(* ===== verification/HttpResponse.thy ===== *)
theory HttpResponse
  imports AsyncSocket ChunkedEncoding WebSocketClientResponse
begin

text \<open>
  Responses: native/uwebsockets/HttpResponse.h and HttpResponseData.h, over the sockets of AsyncSocket.
  The bits of \<open>state\<close> are fields; handlers are only known to be set or not. Lengths handed to the socket
  go through C's \<open>int\<close>: a length that turns negative there is undefined. The calls of the kernel and
  the 29 characters of the date are arguments. The theorems read a response back with the parsers of the
  other side: the response parser of the client and the decoder of chunked bodies.
\<close>

section \<open>The program\<close>

record responseData =
  statusCalled :: bool
  writeCalled :: bool
  endCalled :: bool
  responsePending :: bool
  connectionClose :: bool
  methodHead :: bool
  onWritable :: bool
  onAborted :: bool
  offset :: nat

record 's response =
  io :: "'s asyncLoop"
  resp :: responseData
  idleTimeout :: nat

definition HTTP_TIMEOUT_S :: nat where "HTTP_TIMEOUT_S = 10"
definition HTTP_200_OK :: bytes where "HTTP_200_OK = ascii ''200 OK''"
definition INT_MAX :: nat where "INT_MAX = 2 ^ 31 - 1"

definition onResp :: "(responseData \<Rightarrow> responseData) \<Rightarrow> 's response \<Rightarrow> 's response" where
  "onResp f h = h\<lparr>resp := f (resp h)\<rparr>"

definition armTimeout :: "nat \<Rightarrow> 's response \<Rightarrow> 's response" where
  "armTimeout n h = h\<lparr>idleTimeout := n\<rparr>"

text \<open>\<open>Super::write(data, (int) length)\<close>: did it fail, and the state behind it.\<close>

definition put :: "kernel \<Rightarrow> 's \<Rightarrow> bytes \<Rightarrow> 's response \<Rightarrow> (bool \<times> 's response) option" where
  "put sys s data h =
     (let n = toInt (length data)
      in if n < 0 then None
         else do {
           ((_, failed), st) \<leftarrow> writeBytes sys s (take (nat n) data) False (io h);
           Some (failed, h\<lparr>io := st\<rparr>) })"

definition putAll :: "kernel \<Rightarrow> 's \<Rightarrow> bytes list \<Rightarrow> 's response \<Rightarrow> 's response option" where
  "putAll sys s parts h = foldl (\<lambda>h data. do { h \<leftarrow> h; (_, h) \<leftarrow> put sys s data h; Some h }) (Some h) parts"

text \<open>Numbers: the digits are written from the end of a buffer of 16, or backwards into one of 20.\<close>

function hexLoop :: "u64 \<Rightarrow> bytes \<Rightarrow> bytes" where
  "hexLoop value buf =
     (let buf = ascii ''0123456789abcdef'' ! unat (value AND 15) # buf;
          value = drop_bit 4 value
      in if value = 0 then buf else hexLoop value buf)"
  by pat_completeness auto
termination
proof (relation "measure (\<lambda>(value, buf). unat value)", goal_cases)
  case (2 v buf x xa)
  have "unat (drop_bit 4 v) = unat v div 16"
    by (simp add: drop_bit_eq_div unat_div)
  moreover have "unat (drop_bit 4 v) \<noteq> 0" using 2 by (simp add: unat_eq_zero)
  ultimately show ?case using 2 by simp
qed simp

declare hexLoop.simps [simp del]

definition unsignedHex :: "u64 \<Rightarrow> bytes" where
  "unsignedHex value = hexLoop value []"

function decLoop :: "u64 \<Rightarrow> bytes \<Rightarrow> bytes" where
  "decLoop value temp =
     (let temp = temp @ [ucast (value mod 10) + 48];
          value = value div 10
      in if value > 0 then decLoop value temp else temp)"
  by pat_completeness auto
termination
proof (relation "measure (\<lambda>(value, temp). unat value)", goal_cases)
  case (2 v temp x xa)
  then have "0 < unat v div 10" by (simp add: word_less_nat_alt unat_div)
  then show ?case using 2 by (simp add: unat_div)
qed simp

declare decLoop.simps [simp del]

definition u64toa :: "u64 \<Rightarrow> bytes" where
  "u64toa value = rev (decLoop value [])"

definition writeUnsignedHex :: "kernel \<Rightarrow> 's \<Rightarrow> u64 \<Rightarrow> 's response \<Rightarrow> 's response option" where
  "writeUnsignedHex sys s value h = putAll sys s [unsignedHex value] h"

definition writeUnsigned64 :: "kernel \<Rightarrow> 's \<Rightarrow> u64 \<Rightarrow> 's response \<Rightarrow> 's response option" where
  "writeUnsigned64 sys s value h = putAll sys s [u64toa value] h"

definition writeContinue :: "kernel \<Rightarrow> 's \<Rightarrow> 's response \<Rightarrow> 's response option" where
  "writeContinue sys s h = putAll sys s [ascii ''HTTP/1.1 100 Continue'' @ crlf @ crlf] h"

definition writeStatus :: "kernel \<Rightarrow> 's \<Rightarrow> bytes \<Rightarrow> 's response \<Rightarrow> 's response option" where
  "writeStatus sys s stat h =
     (if statusCalled (resp h) then Some h
      else putAll sys s [ascii ''HTTP/1.1 '', stat, crlf] (onResp (\<lambda>d. d\<lparr>statusCalled := True\<rparr>) h))"

definition writeHeader :: "kernel \<Rightarrow> 's \<Rightarrow> bytes \<Rightarrow> bytes \<Rightarrow> 's response \<Rightarrow> 's response option" where
  "writeHeader sys s key val h = do {
     h \<leftarrow> writeStatus sys s HTTP_200_OK h;
     putAll sys s [key, ascii '': '', val, crlf] h }"

definition writeHeaderNumber :: "kernel \<Rightarrow> 's \<Rightarrow> bytes \<Rightarrow> u64 \<Rightarrow> 's response \<Rightarrow> 's response option" where
  "writeHeaderNumber sys s key val h = do {
     h \<leftarrow> writeStatus sys s HTTP_200_OK h;
     h \<leftarrow> putAll sys s [key, ascii '': ''] h;
     h \<leftarrow> writeUnsigned64 sys s val h;
     putAll sys s [crlf] h }"

definition writeMark :: "kernel \<Rightarrow> bytes \<Rightarrow> 's \<Rightarrow> 's response \<Rightarrow> 's response option" where
  "writeMark sys date s h = writeHeader sys s (ascii ''Date'') (take 29 date) h"

definition markDone :: "responseData \<Rightarrow> responseData" where
  "markDone d = d\<lparr>onAborted := False, onWritable := False, responsePending := False\<rparr>"

definition hasResponded :: "'s response \<Rightarrow> bool" where
  "hasResponded h = (\<not> responsePending (resp h))"

text \<open>Did the check close the socket?\<close>

definition closeWhenDone :: "'s \<Rightarrow> 's response \<Rightarrow> bool \<times> 's response" where
  "closeWhenDone s h =
     (if \<not> isCorked s (io h) \<and> connectionClose (resp h) \<and> \<not> responsePending (resp h) \<and> getBufferedAmount s (io h) = 0
      then (True, h\<lparr>io := onSock s (\<lambda>k. k\<lparr>sockShut := True, sockClosed := True\<rparr>) (io h)\<rparr>)
      else (False, h))"

definition beginWrite :: "kernel \<Rightarrow> bytes \<Rightarrow> 's \<Rightarrow> 's response \<Rightarrow> 's response option" where
  "beginWrite sys date s h = do {
     h \<leftarrow> writeStatus sys s HTTP_200_OK h;
     if writeCalled (resp h) then Some h
     else do {
       h \<leftarrow> writeMark sys date s h;
       h \<leftarrow> writeHeader sys s (ascii ''Transfer-Encoding'') (ascii ''chunked'') h;
       Some (onResp (\<lambda>d. d\<lparr>writeCalled := True\<rparr>) h) } }"

definition writeChunk :: "kernel \<Rightarrow> bytes \<Rightarrow> 's \<Rightarrow> bytes \<Rightarrow> 's response \<Rightarrow> (bool \<times> 's response) option" where
  "writeChunk sys date s data h = do {
     h \<leftarrow> writeStatus sys s HTTP_200_OK h;
     if data = [] then Some (True, h)
     else do {
       h \<leftarrow> beginWrite sys date s h;
       if methodHead (resp h) then Some (True, h)
       else do {
         h \<leftarrow> putAll sys s [crlf] h;
         h \<leftarrow> writeUnsignedHex sys s (word_of_nat (length data)) h;
         h \<leftarrow> putAll sys s [crlf] h;
         (failed, h) \<leftarrow> put sys s data h;
         Some (\<not> failed, if failed then armTimeout HTTP_TIMEOUT_S h else h) } } }"

text \<open>The loop that hands over the body in pieces an \<open>int\<close> can count: bytes written, failed.\<close>

partial_function (option) sendLoop ::
    "kernel \<Rightarrow> 's \<Rightarrow> bytes \<Rightarrow> bool \<Rightarrow> nat \<Rightarrow> bool \<Rightarrow> 's asyncLoop \<Rightarrow> ((nat \<times> bool) \<times> 's asyncLoop) option" where
  "sendLoop sys s data optionally written failed st =
     (if written < length data \<and> \<not> failed
      then Option.bind (writeBytes sys s (take (min (length data - written) INT_MAX) (drop written data)) optionally st)
        (\<lambda>((n, failed), st). sendLoop sys s data optionally (written + n) failed st)
      else Some ((written, failed), st))"

text \<open>The steps of \<open>internalEnd\<close>: announce the close, end a chunked body, or end the header fields.\<close>

definition closeStep :: "kernel \<Rightarrow> 's \<Rightarrow> bool \<Rightarrow> 's response \<Rightarrow> 's response option" where
  "closeStep sys s closeConnection h =
     (if closeConnection then do {
        h \<leftarrow> (if \<not> connectionClose (resp h) then writeHeader sys s (ascii ''Connection'') (ascii ''close'') h else Some h);
        Some (onResp (\<lambda>d. d\<lparr>connectionClose := True\<rparr>) h) }
      else Some h)"

definition lastChunkStep :: "kernel \<Rightarrow> 's \<Rightarrow> bytes \<Rightarrow> 's response \<Rightarrow> 's response option" where
  "lastChunkStep sys s data h =
     (if methodHead (resp h) then putAll sys s [crlf] h
      else do {
        h \<leftarrow> (if data \<noteq> [] then do {
               h \<leftarrow> putAll sys s [crlf] h;
               h \<leftarrow> writeUnsignedHex sys s (word_of_nat (length data)) h;
               putAll sys s [crlf, data] h }
             else Some h);
        putAll sys s [crlf @ ascii ''0'' @ crlf @ crlf] h })"

definition lengthStep :: "kernel \<Rightarrow> bytes \<Rightarrow> 's \<Rightarrow> nat \<Rightarrow> bool \<Rightarrow> 's response \<Rightarrow> 's response option" where
  "lengthStep sys date s totalSize allowContentLength h =
     (if endCalled (resp h) then Some h
      else do {
        h \<leftarrow> writeMark sys date s h;
        h \<leftarrow> (if allowContentLength then do {
               h \<leftarrow> putAll sys s [ascii ''Content-Length: ''] h;
               h \<leftarrow> writeUnsigned64 sys s (word_of_nat totalSize) h;
               putAll sys s [crlf @ crlf] h }
             else putAll sys s [crlf] h);
        Some (onResp (\<lambda>d. d\<lparr>endCalled := True\<rparr>) h) })"

definition internalEnd ::
    "kernel \<Rightarrow> bytes \<Rightarrow> 's \<Rightarrow> bytes \<Rightarrow> nat \<Rightarrow> bool \<Rightarrow> bool \<Rightarrow> bool \<Rightarrow> 's response \<Rightarrow> (bool \<times> 's response) option" where
  "internalEnd sys date s data totalSize optionally allowContentLength closeConnection h = do {
     h \<leftarrow> writeStatus sys s HTTP_200_OK h;
     let totalSize = (if totalSize = 0 then length data else totalSize);
     let data = (if methodHead (resp h) then [] else data);
     h \<leftarrow> closeStep sys s closeConnection h;
     if writeCalled (resp h) then do {
       h \<leftarrow> lastChunkStep sys s data h;
       let (closed, h) = closeWhenDone s (onResp markDone h);
       Some (True, if closed then h else armTimeout HTTP_TIMEOUT_S h) }
     else do {
       h \<leftarrow> lengthStep sys date s totalSize allowContentLength h;
       ((written, failed), st) \<leftarrow> sendLoop sys s data optionally 0 False (io h);
       let h = onResp (\<lambda>d. d\<lparr>offset := offset d + written\<rparr>) (h\<lparr>io := st\<rparr>);
       let success = (written = length data \<and> \<not> failed);
       let h = (if \<not> success \<or> offset (resp h) = totalSize then armTimeout HTTP_TIMEOUT_S h else h);
       let h = (if offset (resp h) = totalSize \<or> data = [] then snd (closeWhenDone s (onResp markDone h)) else h);
       Some (success, h) } }"

definition endResponse :: "kernel \<Rightarrow> bytes \<Rightarrow> 's \<Rightarrow> bytes \<Rightarrow> bool \<Rightarrow> 's response \<Rightarrow> (bool \<times> 's response) option" where
  "endResponse sys date s data closeConnection h = internalEnd sys date s data (length data) False True closeConnection h"

definition endWithoutBody :: "kernel \<Rightarrow> bytes \<Rightarrow> 's \<Rightarrow> nat option \<Rightarrow> bool \<Rightarrow> 's response \<Rightarrow> (bool \<times> 's response) option" where
  "endWithoutBody sys date s reported closeConnection h =
     (case reported of
        Some n \<Rightarrow> internalEnd sys date s [] n False True closeConnection h
      | None \<Rightarrow> internalEnd sys date s [] 0 False False closeConnection h)"

definition tryEnd :: "kernel \<Rightarrow> bytes \<Rightarrow> 's \<Rightarrow> bytes \<Rightarrow> nat \<Rightarrow> bool \<Rightarrow> 's response \<Rightarrow> ((bool \<times> bool) \<times> 's response) option" where
  "tryEnd sys date s data totalSize closeConnection h = do {
     (ok, h) \<leftarrow> internalEnd sys date s data totalSize True True closeConnection h;
     Some ((ok, hasResponded h), h) }"

definition getWriteOffset :: "'s response \<Rightarrow> nat" where
  "getWriteOffset h = offset (resp h)"

definition overrideWriteOffset :: "nat \<Rightarrow> 's response \<Rightarrow> 's response" where
  "overrideWriteOffset n h = onResp (\<lambda>d. d\<lparr>offset := n\<rparr>) h"

text \<open>The response that switches protocols; the options are the ones the connection is then opened with.\<close>

definition upgradeResponse ::
    "kernel \<Rightarrow> bytes \<Rightarrow> 's \<Rightarrow> u16 \<Rightarrow> bytes \<Rightarrow> bytes \<Rightarrow> bytes \<Rightarrow> 's response \<Rightarrow> ((bool \<times> u16) \<times> 's response) option" where
  "upgradeResponse sys date s configured secWebSocketKey secWebSocketProtocol secWebSocketExtensions h = do {
     h \<leftarrow> writeStatus sys s (ascii ''101 Switching Protocols'') h;
     h \<leftarrow> writeHeader sys s (ascii ''Upgrade'') (ascii ''websocket'') h;
     h \<leftarrow> writeHeader sys s (ascii ''Connection'') (ascii ''Upgrade'') h;
     h \<leftarrow> writeHeader sys s (ascii ''Sec-WebSocket-Accept'') (generate secWebSocketKey) h;
     h \<leftarrow> (if secWebSocketProtocol \<noteq> []
          then writeHeader sys s (ascii ''Sec-WebSocket-Protocol'')
            (case findFrom 44 secWebSocketProtocol 0 of None \<Rightarrow> secWebSocketProtocol | Some i \<Rightarrow> take i secWebSocketProtocol) h
          else Some h);
     let (neg, compressionWindow, inflationWindow, response) =
       (if secWebSocketExtensions \<noteq> [] \<and> configured \<noteq> DISABLED
        then negotiateCompression True (wantedCompressionWindow configured) (wantedInflationWindow configured) secWebSocketExtensions
        else (False, 0, 0, []));
     h \<leftarrow> (if neg then writeHeader sys s (ascii ''Sec-WebSocket-Extensions'') response h else Some h);
     (_, h) \<leftarrow> internalEnd sys date s [] 0 False False False h;
     Some ((neg, if neg then agreedOptions configured compressionWindow inflationWindow else DISABLED), h) }"

section \<open>What an operation appends\<close>

definition appends :: "'s \<Rightarrow> bytes \<Rightarrow> 's asyncLoop \<Rightarrow> 's asyncLoop \<Rightarrow> bool" where
  "appends s text st st' \<longleftrightarrow> streamOf s st' = streamOf s st @ text \<and> (\<forall>r. r \<noteq> s \<longrightarrow> streamOf r st' = streamOf r st)"

text \<open>An open connection that stays below 2 GB with \<open>n\<close> more bytes.\<close>

definition roomFor :: "kernel \<Rightarrow> 's \<Rightarrow> nat \<Rightarrow> 's asyncLoop \<Rightarrow> bool" where
  "roomFor sys s n st \<longleftrightarrow> kernel_ok sys \<and> loop_ok st \<and> \<not> sockClosed (sock st s) \<and>
     length (streamOf s st) + CORK_BUFFER_SIZE + n < 2 ^ 31"

lemma ready_mono: "roomFor sys s n st \<Longrightarrow> m \<le> n \<Longrightarrow> roomFor sys s m st"
  by (simp add: roomFor_def)

lemma ready_small: "roomFor sys s n st \<Longrightarrow> small s n st"
  using loop_okD(2) [of st] by (auto simp: roomFor_def small_def streamOf_def)

lemma ready_int: "roomFor sys s n st \<Longrightarrow> n < 2 ^ 31 - 1"
  by (simp add: roomFor_def CORK_BUFFER_SIZE_def)

lemma write_emits:
  assumes "roomFor sys s (length data + n) st"
  obtains w failed st' where "writeBytes sys s data optionally st = Some ((w, failed), st')"
    and "taken optionally data w failed" and "appends s (take w data) st st'" and "roomFor sys s n st'"
proof -
  have r: "kernel_ok sys" "loop_ok st" "\<not> sockClosed (sock st s)"
    "length (streamOf s st) + CORK_BUFFER_SIZE + (length data + n) < 2 ^ 31"
    using assms by (simp_all add: roomFor_def)
  have sm: "small s (length data) st" using ready_small [OF ready_mono [OF assms, of "length data"]] by simp
  obtain w failed st' where w: "writeBytes sys s data optionally st = Some ((w, failed), st')"
    and se: "sent s optionally data w failed st st'"
    by (rule write_sent [OF r(1-3) sm]) blast
  have "appends s (take w data) st st'" using se by (simp add: sent_def appends_def)
  moreover have "taken optionally data w failed" using se by (simp add: sent_def)
  moreover have "roomFor sys s n st'" using se r by (simp add: roomFor_def sent_def)
  ultimately show thesis using that w by blast
qed

text \<open>
  \<open>does f h text d\<close>: with room for it, \<open>f\<close> returns, \<open>text\<close> joins the stream of the connection, which stays open,
  and \<open>d\<close> is the new data of the response. \<open>finishes\<close> is the same for the last operation, which may close.
\<close>

definition does :: "kernel \<Rightarrow> 's \<Rightarrow> ('s response \<Rightarrow> 's response option) \<Rightarrow> 's response \<Rightarrow> bytes \<Rightarrow> responseData \<Rightarrow> bool" where
  "does sys s f h text d \<longleftrightarrow>
     (\<forall>n. roomFor sys s (length text + n) (io h) \<longrightarrow>
        (\<exists>st t. f h = Some \<lparr>io = st, resp = d, idleTimeout = t\<rparr> \<and> appends s text (io h) st \<and> roomFor sys s n st))"

definition finishes :: "kernel \<Rightarrow> 's \<Rightarrow> ('s response \<Rightarrow> 's response option) \<Rightarrow> 's response \<Rightarrow> bytes \<Rightarrow> responseData \<Rightarrow> bool" where
  "finishes sys s f h text d \<longleftrightarrow>
     (roomFor sys s (length text) (io h) \<longrightarrow>
        (\<exists>st t. f h = Some \<lparr>io = st, resp = d, idleTimeout = t\<rparr> \<and> appends s text (io h) st))"

lemma doesD:
  assumes "does sys s f h text d" and "roomFor sys s (length text + n) (io h)"
  obtains st t where "f h = Some \<lparr>io = st, resp = d, idleTimeout = t\<rparr>" and "appends s text (io h) st" and "roomFor sys s n st"
  using assms unfolding does_def by blast

lemma emits_trans: "appends s a st st1 \<Longrightarrow> appends s b st1 st2 \<Longrightarrow> appends s (a @ b) st st2"
  by (simp add: appends_def)

lemma does_bind:
  assumes "does sys s f h t1 d1" and "\<And>h1. resp h1 = d1 \<Longrightarrow> does sys s g h1 t2 d2"
  shows "does sys s (\<lambda>h. f h \<bind> g) h (t1 @ t2) d2"
  unfolding does_def
proof (intro allI impI)
  fix n assume "roomFor sys s (length (t1 @ t2) + n) (io h)"
  then have r: "roomFor sys s (length t1 + (length t2 + n)) (io h)" by (simp add: add.assoc)
  obtain st t where f: "f h = Some \<lparr>io = st, resp = d1, idleTimeout = t\<rparr>" and e: "appends s t1 (io h) st"
    and r1: "roomFor sys s (length t2 + n) st"
    by (rule doesD [OF assms(1) r]) blast
  let ?h = "\<lparr>io = st, resp = d1, idleTimeout = t\<rparr>"
  have g: "does sys s g ?h t2 d2" by (rule assms(2)) simp
  obtain st' t' where "g ?h = Some \<lparr>io = st', resp = d2, idleTimeout = t'\<rparr>" "appends s t2 st st'" "roomFor sys s n st'"
    by (rule doesD [OF g, of n]) (use r1 in auto)
  then show "\<exists>st t. f h \<bind> g = Some \<lparr>io = st, resp = d2, idleTimeout = t\<rparr> \<and> appends s (t1 @ t2) (io h) st \<and> roomFor sys s n st"
    using f e emits_trans by auto
qed

lemma does_finish:
  assumes "does sys s f h t1 d1" and "\<And>h1. resp h1 = d1 \<Longrightarrow> finishes sys s g h1 t2 d2"
  shows "finishes sys s (\<lambda>h. f h \<bind> g) h (t1 @ t2) d2"
  unfolding finishes_def
proof
  assume "roomFor sys s (length (t1 @ t2)) (io h)"
  then have r: "roomFor sys s (length t1 + length t2) (io h)" by simp
  obtain st t where f: "f h = Some \<lparr>io = st, resp = d1, idleTimeout = t\<rparr>" and e: "appends s t1 (io h) st"
    and r1: "roomFor sys s (length t2) st"
    by (rule doesD [OF assms(1) r]) blast
  let ?h = "\<lparr>io = st, resp = d1, idleTimeout = t\<rparr>"
  have "finishes sys s g ?h t2 d2" by (rule assms(2)) simp
  then obtain st' t' where "g ?h = Some \<lparr>io = st', resp = d2, idleTimeout = t'\<rparr>" "appends s t2 st st'"
    using r1 by (auto simp: finishes_def)
  then show "\<exists>st t. f h \<bind> g = Some \<lparr>io = st, resp = d2, idleTimeout = t\<rparr> \<and> appends s (t1 @ t2) (io h) st"
    using f e emits_trans by auto
qed

lemma does_finishes: "does sys s f h text d \<Longrightarrow> finishes sys s f h text d"
  unfolding does_def finishes_def by (metis add_0_right)

lemma does_return: "does sys s Some h [] (resp h)"
  unfolding does_def appends_def by (cases h) auto

lemma does_onResp: "does sys s (\<lambda>h. Some (onResp g h)) h [] (g (resp h))"
  unfolding does_def appends_def by (cases h) (auto simp: onResp_def)

lemma does_cong: "does sys s f h text d \<Longrightarrow> f h = g h \<Longrightarrow> text = text' \<Longrightarrow> d = d' \<Longrightarrow> does sys s g h text' d'"
  by (simp add: does_def)

lemma put_emits:
  assumes "roomFor sys s (length data + n) (io h)"
  obtains failed st where "put sys s data h = Some (failed, h\<lparr>io := st\<rparr>)" and "appends s data (io h) st" and "roomFor sys s n st"
proof -
  have l: "length data < 2 ^ 31" using ready_int [OF assms] by simp
  obtain w failed st where w: "writeBytes sys s data False (io h) = Some ((w, failed), st)" "taken False data w failed"
    "appends s (take w data) (io h) st" "roomFor sys s n st"
    by (rule write_emits [OF assms]) blast
  then have "w = length data" by (simp add: taken_def)
  then show thesis using that w l by (simp add: put_def)
qed

lemma does_put: "does sys s (\<lambda>h. map_option snd (put sys s data h)) h data (resp h)"
  unfolding does_def
proof (intro allI impI)
  fix n assume "roomFor sys s (length data + n) (io h)"
  then obtain failed st where "put sys s data h = Some (failed, h\<lparr>io := st\<rparr>)" "appends s data (io h) st" "roomFor sys s n st"
    by (rule put_emits)
  then show "\<exists>st t. map_option snd (put sys s data h) = Some \<lparr>io = st, resp = resp h, idleTimeout = t\<rparr> \<and>
      appends s data (io h) st \<and> roomFor sys s n st"
    by (cases h) auto
qed

lemma putAll_Cons: "putAll sys s (data # parts) h = map_option snd (put sys s data h) \<bind> putAll sys s parts"
proof -
  have none: "foldl (\<lambda>h data. do { h \<leftarrow> h; (_, h) \<leftarrow> put sys s data h; Some h }) None parts = None" for parts
    by (induction parts) simp_all
  show ?thesis by (cases "put sys s data h") (auto simp: putAll_def none)
qed

lemma does_putAll: "does sys s (putAll sys s parts) h (concat parts) (resp h)"
proof (induction parts arbitrary: h)
  case Nil
  have "putAll sys s [] = Some" by (simp add: putAll_def fun_eq_iff)
  then show ?case using does_return by simp
next
  case (Cons data parts)
  have "does sys s (\<lambda>h. map_option snd (put sys s data h) \<bind> putAll sys s parts) h (data @ concat parts) (resp h)"
  proof (rule does_bind [OF does_put])
    fix h1 :: "'a response"
    assume "resp h1 = resp h"
    then show "does sys s (putAll sys s parts) h1 (concat parts) (resp h)" using Cons [of h1] by simp
  qed
  then show ?case by (simp add: putAll_Cons)
qed

lemma does_putAll': "resp h = d \<Longrightarrow> text = concat parts \<Longrightarrow> does sys s (putAll sys s parts) h text d"
  using does_putAll [of sys s parts h] by simp

section \<open>The text of every operation\<close>

text \<open>The digits: the loops agree with the recursive writers, and their buffers are long enough.\<close>

lemma unat_low: "unat (v AND 15) = unat v mod 16" for v :: u64
proof -
  have "unat (v AND mask 4) = unat v mod 2 ^ 4"
    unfolding take_bit_eq_mask [symmetric] unsigned_take_bit_eq by (rule take_bit_eq_mod)
  then show ?thesis by (simp add: mask_eq_exp_minus_1)
qed

lemma hex_palette: "d < 16 \<Longrightarrow> ascii ''0123456789abcdef'' ! d = hex_char d"
proof -
  assume "d < 16"
  moreover have "\<forall>d \<in> set [0..<16]. ascii ''0123456789abcdef'' ! d = hex_char d" by code_simp
  ultimately show ?thesis by (metis atLeastLessThan_iff less_eq_nat.simps(1) set_upt)
qed

lemma unsignedHex_eq: "unsignedHex value = hex_of (unat value)"
proof -
  have "hexLoop v buf = hex_of (unat v) @ buf" for v buf
  proof (induction v buf rule: hexLoop.induct)
    case (1 v buf)
    have u: "unat (drop_bit 4 v) = unat v div 16" by (simp add: drop_bit_eq_div unat_div)
    have z: "drop_bit 4 v = 0 \<longleftrightarrow> unat v < 16" unfolding unat_eq_zero [symmetric] u by auto
    have c: "ascii ''0123456789abcdef'' ! unat (v AND 15) = hex_char (unat v mod 16)"
      unfolding unat_low by (rule hex_palette) simp
    show ?case
      using 1 unfolding hexLoop.simps [of v buf] hex_of.simps [of "unat v"] Let_def c z
      by (auto simp: u z)
  qed
  then show ?thesis by (simp add: unsignedHex_def)
qed

lemma u64toa_eq: "u64toa v = digits (unat v)"
proof -
  have "rev (decLoop v temp) = digits (unat v) @ rev temp" for v temp
  proof (induction v temp rule: decLoop.induct)
    case (1 v temp)
    have u: "unat (v div 10) = unat v div 10" by (simp add: unat_div)
    have z: "v div 10 > 0 \<longleftrightarrow> \<not> unat v < 10" by (simp add: word_less_nat_alt u div_greater_zero_iff not_less)
    have c: "ucast (v mod 10) + 48 = (of_nat (48 + unat v mod 10) :: byte)"
    proof -
      have "ucast (v mod 10) = (of_nat (unat (v mod 10)) :: byte)" by (simp add: unsigned_ucast_eq)
      then show ?thesis by (simp add: unat_mod)
    qed
    show ?case
    proof (cases "unat v < 10")
      case True
      then show ?thesis using z c by (simp add: decLoop.simps [of v temp] digits.simps [of "unat v"] Let_def)
    next
      case False
      then have "rev (decLoop (v div 10) (temp @ [ucast (v mod 10) + 48])) =
          digits (unat (v div 10)) @ rev (temp @ [ucast (v mod 10) + 48])"
        using 1 z by blast
      then show ?thesis using False z c u
        by (simp add: decLoop.simps [of v temp] digits.simps [of "unat v"] Let_def add.commute)
    qed
  qed
  from this [of v "[]"] show ?thesis by (simp add: u64toa_def)
qed

lemma length_hex_of: "n < 16 ^ k \<Longrightarrow> 0 < k \<Longrightarrow> length (hex_of n) \<le> k"
proof (induction n arbitrary: k rule: hex_of.induct)
  case (1 n)
  show ?case
  proof (cases "n < 16")
    case False
    then obtain j where k: "k = Suc j" "0 < j" using 1 by (cases k; cases "k - 1") auto
    then have "n div 16 < 16 ^ j" using 1(2) by (simp add: div_less_iff_less_mult mult.commute)
    then show ?thesis using 1(1) [OF False _ k(2)] False by (simp add: hex_of.simps [of n] k(1))
  qed (use 1 in \<open>simp add: hex_of.simps [of n]\<close>)
qed

lemma length_digits: "n < 10 ^ k \<Longrightarrow> 0 < k \<Longrightarrow> length (digits n) \<le> k"
proof (induction n arbitrary: k rule: digits.induct)
  case (1 n)
  show ?case
  proof (cases "n < 10")
    case False
    then obtain j where k: "k = Suc j" "0 < j" using 1 by (cases k; cases "k - 1") auto
    then have "n div 10 < 10 ^ j" using 1(2) by (simp add: div_less_iff_less_mult mult.commute)
    then show ?thesis using 1(1) [OF False _ k(2)] False by (simp add: digits.simps [of n] k(1))
  qed (use 1 in \<open>simp add: digits.simps [of n]\<close>)
qed

text \<open>The two stack buffers that numbers are written into, of 16 and 20 bytes, are long enough for every 64 bit number,
  and what is written is the number in hexadecimal and in decimal.\<close>
theorem number_buffers_suffice:
  "unsignedHex v = hex_of (unat v) \<and> length (unsignedHex v) \<le> 16 \<and>
   u64toa v = digits (unat v) \<and> length (u64toa v) \<le> 20"
proof -
  have l: "unat v < 2 ^ 64" using unsigned_less [of v] by simp
  have "unat v < 16 ^ 16" by (rule less_le_trans [OF l]) simp
  moreover have "unat v < 10 ^ 20" by (rule less_le_trans [OF l]) simp
  ultimately show ?thesis
    using length_hex_of [of "unat v" 16] length_digits [of "unat v" 20] by (simp add: unsignedHex_eq u64toa_eq)
qed

definition statusText :: "bytes \<Rightarrow> responseData \<Rightarrow> bytes" where
  "statusText stat d = (if statusCalled d then [] else ascii ''HTTP/1.1 '' @ stat @ crlf)"

abbreviation called :: "responseData \<Rightarrow> responseData" where
  "called d \<equiv> d\<lparr>statusCalled := True\<rparr>"

lemma called_id: "statusCalled d \<Longrightarrow> called d = d"
  by simp

lemma does_writeStatus: "does sys s (writeStatus sys s stat) h (statusText stat (resp h)) (called (resp h))"
proof (cases "statusCalled (resp h)")
  case True
  show ?thesis
    by (rule does_cong [OF does_return]) (use True in \<open>simp_all add: writeStatus_def statusText_def called_id\<close>)
next
  case False
  have "does sys s (\<lambda>h. Some (onResp called h) \<bind> putAll sys s [ascii ''HTTP/1.1 '', stat, crlf]) h
      ([] @ concat [ascii ''HTTP/1.1 '', stat, crlf]) (called (resp h))"
    by (rule does_bind [OF does_onResp]) (rule does_putAll', simp_all)
  then show ?thesis using False by (auto simp: writeStatus_def statusText_def intro: does_cong)
qed

lemma does_writeHeader:
  "does sys s (writeHeader sys s key val) h (statusText HTTP_200_OK (resp h) @ fieldLine (key, val)) (called (resp h))"
  unfolding writeHeader_def
  by (rule does_bind [OF does_writeStatus]) (rule does_putAll', simp_all add: fieldLine_def crlf_def)

lemma does_put1: "resp h = d \<Longrightarrow> does sys s (putAll sys s [data]) h data d"
  by (rule does_putAll') simp_all

definition markText :: "bytes \<Rightarrow> responseData \<Rightarrow> bytes" where
  "markText date d = statusText HTTP_200_OK d @ fieldLine (ascii ''Date'', take 29 date)"

definition chunkedField :: bytes where
  "chunkedField = fieldLine (ascii ''Transfer-Encoding'', ascii ''chunked'')"

lemma does_writeMark: "does sys s (writeMark sys date s) h (markText date (resp h)) (called (resp h))"
  unfolding writeMark_def markText_def by (rule does_writeHeader)

definition beginText :: "bytes \<Rightarrow> responseData \<Rightarrow> bytes" where
  "beginText date d = (if writeCalled d then statusText HTTP_200_OK d else markText date d @ chunkedField)"

abbreviation begun :: "responseData \<Rightarrow> responseData" where
  "begun d \<equiv> d\<lparr>statusCalled := True, writeCalled := True\<rparr>"

lemma statusText_called [simp]: "statusCalled d \<Longrightarrow> statusText stat d = []"
  by (simp add: statusText_def)

lemma does_beginWrite: "does sys s (beginWrite sys date s) h (beginText date (resp h)) (begun (resp h))"
proof (cases "writeCalled (resp h)")
  case True
  have "does sys s (\<lambda>h. writeStatus sys s HTTP_200_OK h \<bind> (\<lambda>h. if writeCalled (resp h) then Some h
      else do { h \<leftarrow> writeMark sys date s h; h \<leftarrow> writeHeader sys s (ascii ''Transfer-Encoding'') (ascii ''chunked'') h;
        Some (onResp (\<lambda>d. d\<lparr>writeCalled := True\<rparr>) h) })) h (statusText HTTP_200_OK (resp h) @ []) (begun (resp h))"
  proof (rule does_bind [OF does_writeStatus])
    fix h1 :: "'a response" assume r: "resp h1 = called (resp h)"
    have "begun (resp h) = resp h1" using r True by simp
    then show "does sys s (\<lambda>h. if writeCalled (resp h) then Some h
      else do { h \<leftarrow> writeMark sys date s h; h \<leftarrow> writeHeader sys s (ascii ''Transfer-Encoding'') (ascii ''chunked'') h;
        Some (onResp (\<lambda>d. d\<lparr>writeCalled := True\<rparr>) h) }) h1 [] (begun (resp h))"
      using r True by (intro does_cong [OF does_return]) simp_all
  qed
  from does_cong [OF this, of "beginWrite sys date s"] True show ?thesis by (simp add: beginWrite_def beginText_def)
next
  case False
  have mark: "does sys s (\<lambda>h. writeMark sys date s h \<bind> (\<lambda>h. writeHeader sys s (ascii ''Transfer-Encoding'') (ascii ''chunked'') h \<bind>
      (\<lambda>h. Some (onResp (\<lambda>d. d\<lparr>writeCalled := True\<rparr>) h)))) h1
      (fieldLine (ascii ''Date'', take 29 date) @ chunkedField @ []) (begun (resp h))" if r: "resp h1 = called (resp h)" for h1 :: "'a response"
  proof (rule does_bind)
    show "does sys s (writeMark sys date s) h1 (fieldLine (ascii ''Date'', take 29 date)) (called (resp h))"
      using does_writeMark [of sys s date h1] r by (simp add: markText_def)
    fix h2 :: "'a response" assume r2: "resp h2 = called (resp h)"
    show "does sys s (\<lambda>h. writeHeader sys s (ascii ''Transfer-Encoding'') (ascii ''chunked'') h \<bind>
        (\<lambda>h. Some (onResp (\<lambda>d. d\<lparr>writeCalled := True\<rparr>) h))) h2 (chunkedField @ []) (begun (resp h))"
    proof (rule does_bind)
      show "does sys s (writeHeader sys s (ascii ''Transfer-Encoding'') (ascii ''chunked'')) h2 chunkedField (called (resp h))"
        using does_writeHeader [of sys s "ascii ''Transfer-Encoding''" "ascii ''chunked''" h2] r2
        by (simp add: chunkedField_def del: ascii_Cons)
      fix h3 :: "'a response" assume r3: "resp h3 = called (resp h)"
      show "does sys s (\<lambda>h. Some (onResp (\<lambda>d. d\<lparr>writeCalled := True\<rparr>) h)) h3 [] (begun (resp h))"
        using does_onResp [of sys s "\<lambda>d. d\<lparr>writeCalled := True\<rparr>" h3] r3 by simp
    qed
  qed
  have "does sys s (\<lambda>h. writeStatus sys s HTTP_200_OK h \<bind> (\<lambda>h. if writeCalled (resp h) then Some h
      else do { h \<leftarrow> writeMark sys date s h; h \<leftarrow> writeHeader sys s (ascii ''Transfer-Encoding'') (ascii ''chunked'') h;
        Some (onResp (\<lambda>d. d\<lparr>writeCalled := True\<rparr>) h) })) h
      (statusText HTTP_200_OK (resp h) @ (fieldLine (ascii ''Date'', take 29 date) @ chunkedField @ [])) (begun (resp h))"
  proof (rule does_bind [OF does_writeStatus])
    fix h1 :: "'a response" assume r: "resp h1 = called (resp h)"
    show "does sys s (\<lambda>h. if writeCalled (resp h) then Some h
      else do { h \<leftarrow> writeMark sys date s h; h \<leftarrow> writeHeader sys s (ascii ''Transfer-Encoding'') (ascii ''chunked'') h;
        Some (onResp (\<lambda>d. d\<lparr>writeCalled := True\<rparr>) h) }) h1 (fieldLine (ascii ''Date'', take 29 date) @ chunkedField @ []) (begun (resp h))"
      using r False by (intro does_cong [OF mark [OF r]]) simp_all
  qed
  from does_cong [OF this, of "beginWrite sys date s"] False show ?thesis
    by (simp add: beginWrite_def beginText_def markText_def)
qed

definition chunkText :: "bytes \<Rightarrow> bytes" where
  "chunkText data = crlf @ unsignedHex (word_of_nat (length data)) @ crlf @ data"

lemma map_bind: "map_option f (m \<bind> g) = m \<bind> (\<lambda>x. map_option f (g x))"
  by (cases m) simp_all

lemma does_putTimed: "does sys s (\<lambda>h. put sys s data h \<bind> (\<lambda>(failed, h). Some (if failed then armTimeout n h else h))) h data (resp h)"
  unfolding does_def
proof (intro allI impI)
  fix m assume "roomFor sys s (length data + m) (io h)"
  then obtain failed st where "put sys s data h = Some (failed, h\<lparr>io := st\<rparr>)" "appends s data (io h) st" "roomFor sys s m st"
    by (rule put_emits)
  then show "\<exists>st t. put sys s data h \<bind> (\<lambda>(failed, h). Some (if failed then armTimeout n h else h)) =
      Some \<lparr>io = st, resp = resp h, idleTimeout = t\<rparr> \<and> appends s data (io h) st \<and> roomFor sys s m st"
    by (cases h) (auto simp: armTimeout_def)
qed

lemma does_putTimed':
  "resp h = d \<Longrightarrow> does sys s (\<lambda>h. put sys s data h \<bind> (\<lambda>(failed, h). Some (if failed then armTimeout n h else h))) h data d"
  using does_putTimed [of sys s data n h] by simp

lemma does_chunk:
  assumes "resp h = d"
  shows "does sys s (\<lambda>h. putAll sys s [crlf] h \<bind> (\<lambda>h. writeUnsignedHex sys s (word_of_nat (length data)) h \<bind>
    (\<lambda>h. putAll sys s [crlf] h \<bind> (\<lambda>h. put sys s data h \<bind> (\<lambda>(failed, h). Some (if failed then armTimeout n h else h)))))) h
    (chunkText data) d"
  unfolding chunkText_def writeUnsignedHex_def
  by (rule does_bind, rule does_put1 [OF assms], rule does_bind, erule does_put1, rule does_bind, erule does_put1,
      erule does_putTimed')

definition writeText :: "bytes \<Rightarrow> bytes \<Rightarrow> responseData \<Rightarrow> bytes" where
  "writeText date data d =
     (if data = [] then statusText HTTP_200_OK d
      else beginText date d @ (if methodHead d then [] else chunkText data))"

lemma beginText_called: "statusText HTTP_200_OK d @ beginText date (called d) = beginText date d"
  by (simp add: beginText_def markText_def)

lemma does_writeChunk:
  "does sys s (\<lambda>h. map_option snd (writeChunk sys date s data h)) h (writeText date data (resp h))
     (if data = [] then called (resp h) else begun (resp h))"
proof (cases "data = []")
  case True
  have "map_option snd (writeChunk sys date s data h) = writeStatus sys s HTTP_200_OK h" for h
    using True by (cases "writeStatus sys s HTTP_200_OK h") (simp_all add: writeChunk_def)
  then show ?thesis using does_writeStatus True by (simp add: writeText_def)
next
  case False
  let ?tail = "\<lambda>h. if methodHead (resp h) then Some h
      else putAll sys s [crlf] h \<bind> (\<lambda>h. writeUnsignedHex sys s (word_of_nat (length data)) h \<bind>
        (\<lambda>h. putAll sys s [crlf] h \<bind> (\<lambda>h. put sys s data h \<bind>
          (\<lambda>(failed, h). Some (if failed then armTimeout HTTP_TIMEOUT_S h else h)))))"
  have eq: "map_option snd (writeChunk sys date s data h) =
      writeStatus sys s HTTP_200_OK h \<bind> (\<lambda>h. beginWrite sys date s h \<bind> ?tail)" for h
    using False unfolding writeChunk_def
    by (simp add: map_bind if_distrib [of "map_option snd"] case_prod_beta cong: bind_option_cong if_cong)
  have tail: "does sys s ?tail h2 (if methodHead (resp h) then [] else chunkText data) (begun (resp h))"
    if r: "resp h2 = begun (resp h)" for h2 :: "'a response"
  proof (cases "methodHead (resp h)")
    case True
    show ?thesis by (rule does_cong [OF does_return]) (use r True in simp_all)
  next
    case F: False
    show ?thesis by (rule does_cong [OF does_chunk [OF r, of _ _ _ HTTP_TIMEOUT_S]]) (use r F in simp_all)
  qed
  have "does sys s (\<lambda>h. writeStatus sys s HTTP_200_OK h \<bind> (\<lambda>h. beginWrite sys date s h \<bind> ?tail)) h
      (statusText HTTP_200_OK (resp h) @ (beginText date (called (resp h)) @
        (if methodHead (resp h) then [] else chunkText data))) (begun (resp h))"
  proof (rule does_bind [OF does_writeStatus])
    fix h1 :: "'a response" assume r: "resp h1 = called (resp h)"
    have "does sys s (beginWrite sys date s) h1 (beginText date (called (resp h))) (begun (resp h))"
      using does_beginWrite [of sys s date h1] r by simp
    then show "does sys s (\<lambda>h. beginWrite sys date s h \<bind> ?tail) h1 (beginText date (called (resp h)) @
        (if methodHead (resp h) then [] else chunkText data)) (begun (resp h))"
      by (rule does_bind) (rule tail)
  qed
  then show ?thesis using False unfolding eq writeText_def by (simp add: beginText_called flip: append_assoc)
qed

text \<open>The body loop: one round is enough below 2 GB.\<close>

lemma sendLoop_emits:
  assumes "roomFor sys s (length data + n) st"
  obtains w failed st' where "sendLoop sys s data optionally 0 False st = Some ((w, failed), st')"
    and "taken optionally data w failed" and "appends s (take w data) st st'" and "roomFor sys s n st'"
proof (cases "data = []")
  case True
  have "sendLoop sys s data optionally 0 False st = Some ((0, False), st)" using True by (simp add: sendLoop.simps)
  moreover have "roomFor sys s n st" by (rule ready_mono [OF assms]) simp
  ultimately show thesis using that [of 0 False st] True by (simp add: taken_def appends_def)
next
  case False
  have l: "min (length data) INT_MAX = length data" using ready_int [OF assms] by (simp add: INT_MAX_def)
  obtain w failed st' where w: "writeBytes sys s data optionally st = Some ((w, failed), st')" "taken optionally data w failed"
    "appends s (take w data) st st'" "roomFor sys s n st'"
    by (rule write_emits [OF assms]) blast
  have stop: "sendLoop sys s data optionally w failed st' = Some ((w, failed), st')"
    using w(2) by (subst sendLoop.simps) (auto simp: taken_def)
  have "sendLoop sys s data optionally 0 False st = Some ((w, failed), st')"
    using False w(1) stop l by (subst sendLoop.simps) simp
  then show thesis using that w by blast
qed

text \<open>The end of a response, in three steps.\<close>

definition closeField :: "bool \<Rightarrow> responseData \<Rightarrow> bytes" where
  "closeField close d = (if close \<and> \<not> connectionClose d then fieldLine (ascii ''Connection'', ascii ''close'') else [])"

definition lengthField :: "bytes \<Rightarrow> nat \<Rightarrow> bool \<Rightarrow> responseData \<Rightarrow> bytes" where
  "lengthField date amount allow d =
     (if endCalled d then []
      else fieldLine (ascii ''Date'', take 29 date) @
        (if allow then fieldLine (ascii ''Content-Length'', u64toa (word_of_nat amount)) else []) @ crlf)"

definition lastChunk :: "bytes \<Rightarrow> responseData \<Rightarrow> bytes" where
  "lastChunk data d =
     (if methodHead d then crlf
      else (if data = [] then [] else chunkText data) @ crlf @ ascii ''0'' @ crlf @ crlf)"

abbreviation closing :: "bool \<Rightarrow> responseData \<Rightarrow> responseData" where
  "closing close d \<equiv> d\<lparr>statusCalled := True, connectionClose := (close \<or> connectionClose d)\<rparr>"

lemma does_close:
  assumes "statusCalled (resp h)"
  shows "does sys s (closeStep sys s close) h (closeField close (resp h)) (closing close (resp h))"
proof (cases close)
  case False
  show ?thesis by (rule does_cong [OF does_return]) (use False assms in \<open>simp_all add: closeField_def closeStep_def\<close>)
next
  case True
  have one: "does sys s (\<lambda>h. if \<not> connectionClose (resp h) then writeHeader sys s (ascii ''Connection'') (ascii ''close'') h else Some h) h
      (closeField close (resp h)) (resp h)"
  proof (cases "connectionClose (resp h)")
    case C: True
    show ?thesis by (rule does_cong [OF does_return]) (use C in \<open>simp_all add: closeField_def\<close>)
  next
    case C: False
    show ?thesis
      by (rule does_cong [OF does_writeHeader]) (use C assms True in \<open>simp_all add: closeField_def del: ascii_Cons\<close>)
  qed
  have "does sys s (\<lambda>h. (if \<not> connectionClose (resp h) then writeHeader sys s (ascii ''Connection'') (ascii ''close'') h else Some h) \<bind>
      (\<lambda>h. Some (onResp (\<lambda>d. d\<lparr>connectionClose := True\<rparr>) h))) h (closeField close (resp h) @ []) ((resp h)\<lparr>connectionClose := True\<rparr>)"
    by (rule does_bind [OF one]) (metis does_onResp)
  then show ?thesis by (rule does_cong) (use True assms in \<open>simp_all add: closeStep_def\<close>)
qed

lemma does_length:
  assumes "statusCalled (resp h)"
  shows "does sys s (lengthStep sys date s amount allow) h (lengthField date amount allow (resp h)) ((resp h)\<lparr>endCalled := True\<rparr>)"
proof (cases "endCalled (resp h)")
  case True
  show ?thesis by (rule does_cong [OF does_return]) (use True in \<open>simp_all add: lengthField_def lengthStep_def\<close>)
next
  case False
  let ?n = "u64toa (word_of_nat amount)"
  have field: "does sys s (\<lambda>h. if allow then putAll sys s [ascii ''Content-Length: ''] h \<bind>
        (\<lambda>h. writeUnsigned64 sys s (word_of_nat amount) h \<bind> putAll sys s [crlf @ crlf]) else putAll sys s [crlf] h) h1
      ((if allow then fieldLine (ascii ''Content-Length'', ?n) else []) @ crlf) (resp h)"
    if r: "resp h1 = resp h" for h1 :: "'a response"
  proof (cases allow)
    case True
    have "does sys s (\<lambda>h. putAll sys s [ascii ''Content-Length: ''] h \<bind>
        (\<lambda>h. writeUnsigned64 sys s (word_of_nat amount) h \<bind> putAll sys s [crlf @ crlf])) h1
        (ascii ''Content-Length: '' @ ?n @ crlf @ crlf) (resp h)"
      unfolding writeUnsigned64_def
      by (rule does_bind, rule does_put1 [OF r], rule does_bind, erule does_put1, erule does_put1)
    then show ?thesis by (rule does_cong) (use True in \<open>simp_all add: fieldLine_def crlf_def\<close>)
  next
    case F: False
    show ?thesis by (rule does_cong [OF does_put1 [OF r]]) (use F in simp_all)
  qed
  have rest: "does sys s (\<lambda>h. (if allow then putAll sys s [ascii ''Content-Length: ''] h \<bind>
        (\<lambda>h. writeUnsigned64 sys s (word_of_nat amount) h \<bind> putAll sys s [crlf @ crlf]) else putAll sys s [crlf] h) \<bind>
        (\<lambda>h. Some (onResp (\<lambda>d. d\<lparr>endCalled := True\<rparr>) h))) h1
      (((if allow then fieldLine (ascii ''Content-Length'', ?n) else []) @ crlf) @ []) ((resp h)\<lparr>endCalled := True\<rparr>)"
    if r: "resp h1 = resp h" for h1 :: "'a response"
    by (rule does_bind [OF field [OF r]]) (metis does_onResp)
  have "does sys s (writeMark sys date s) h (fieldLine (ascii ''Date'', take 29 date)) (resp h)"
    by (rule does_cong [OF does_writeMark]) (use assms in \<open>simp_all add: markText_def\<close>)
  from does_bind [OF this rest] show ?thesis
    by (rule does_cong) (use False in \<open>simp_all add: lengthField_def lengthStep_def\<close>)
qed

lemma does_last:
  assumes "resp h = d"
  shows "does sys s (lastChunkStep sys s data) h (lastChunk data d) d"
proof (cases "methodHead d")
  case True
  show ?thesis by (rule does_cong [OF does_put1 [OF assms]]) (use assms True in \<open>simp_all add: lastChunk_def lastChunkStep_def\<close>)
next
  case False
  have "does sys s (\<lambda>h. if data \<noteq> [] then putAll sys s [crlf] h \<bind> (\<lambda>h. writeUnsignedHex sys s (word_of_nat (length data)) h \<bind>
      putAll sys s [crlf, data]) else Some h) h (if data = [] then [] else chunkText data) d"
  proof (cases "data = []")
    case True
    show ?thesis by (rule does_cong [OF does_return]) (use assms True in simp_all)
  next
    case F: False
    have "does sys s (\<lambda>h. putAll sys s [crlf] h \<bind> (\<lambda>h. writeUnsignedHex sys s (word_of_nat (length data)) h \<bind>
        putAll sys s [crlf, data])) h (chunkText data) d"
      unfolding writeUnsignedHex_def chunkText_def
      by (rule does_bind, rule does_put1 [OF assms], rule does_bind, erule does_put1, erule does_putAll') simp
    then show ?thesis by (rule does_cong) (use F in simp_all)
  qed
  from does_bind [OF this does_put1 [where data = "crlf @ ascii ''0'' @ crlf @ crlf"]] show ?thesis
    by (rule does_cong) (use assms False in \<open>simp_all add: lastChunk_def lastChunkStep_def\<close>)
qed

lemma closeWhenDone_facts:
  "resp (snd (closeWhenDone s h)) = resp h"
  "appends s [] (io h) (io (snd (closeWhenDone s h)))"
  "\<not> connectionClose (resp h) \<Longrightarrow> closeWhenDone s h = (False, h)"
proof -
  have "streamOf r (onSock s (\<lambda>k. k\<lparr>sockShut := True, sockClosed := True\<rparr>) st) = streamOf r st" for r st
    by (simp add: streamOf_def corkedBytes_def onSock_def)
  then show "appends s [] (io h) (io (snd (closeWhenDone s h)))" by (simp add: closeWhenDone_def appends_def)
qed (simp_all add: closeWhenDone_def)

text \<open>The status line and the announcement of the close come first.\<close>

definition openText :: "bool \<Rightarrow> responseData \<Rightarrow> bytes" where
  "openText close d = statusText HTTP_200_OK d @ closeField close d"

lemma statusClose_emits:
  assumes "roomFor sys s (length (openText close (resp h)) + n) (io h)"
  obtains h1 h2 where "writeStatus sys s HTTP_200_OK h = Some h1" and "closeStep sys s close h1 = Some h2"
    and "resp h1 = called (resp h)" and "resp h2 = closing close (resp h)"
    and "appends s (openText close (resp h)) (io h) (io h2)" and "roomFor sys s n (io h2)"
proof -
  have r1: "roomFor sys s (length (statusText HTTP_200_OK (resp h)) + (length (closeField close (resp h)) + n)) (io h)"
    using assms by (simp add: openText_def add.assoc)
  obtain st1 t1 where f1: "writeStatus sys s HTTP_200_OK h = Some \<lparr>io = st1, resp = called (resp h), idleTimeout = t1\<rparr>"
    and e1: "appends s (statusText HTTP_200_OK (resp h)) (io h) st1"
    and r2: "roomFor sys s (length (closeField close (resp h)) + n) st1"
    by (rule doesD [OF does_writeStatus r1]) blast
  let ?h1 = "\<lparr>io = st1, resp = called (resp h), idleTimeout = t1\<rparr>"
  have c: "does sys s (closeStep sys s close) ?h1 (closeField close (resp h)) (closing close (resp h))"
    by (rule does_cong [OF does_close]) (simp_all add: closeField_def)
  have r3: "roomFor sys s (length (closeField close (resp h)) + n) (io ?h1)" using r2 by simp
  obtain st2 t2 where f2: "closeStep sys s close ?h1 = Some \<lparr>io = st2, resp = closing close (resp h), idleTimeout = t2\<rparr>"
    and e2: "appends s (closeField close (resp h)) (io ?h1) st2" and r4: "roomFor sys s n st2"
    by (rule doesD [OF c r3]) blast
  show thesis
    by (rule that [OF f1 f2]) (use emits_trans [OF e1] e2 r4 in \<open>simp_all add: openText_def\<close>)
qed

text \<open>A chunked response: the last chunk, the empty one, and nothing is pending.\<close>

lemma internalEnd_chunked:
  assumes "writeCalled (resp h)"
    and "roomFor sys s (length (openText close (resp h) @ lastChunk data (resp h)) + n) (io h)"
  obtains h' where "internalEnd sys date s data amount optionally allow close h = Some (True, h')"
    and "appends s (openText close (resp h) @ lastChunk data (resp h)) (io h) (io h')"
    and "resp h' = markDone (closing close (resp h))"
    and "\<not> connectionClose (resp h') \<Longrightarrow> roomFor sys s n (io h')"
proof -
  let ?d = "closing close (resp h)" and ?data = "if methodHead (resp h) then [] else data"
  have l: "lastChunk ?data ?d = lastChunk data (resp h)" by (simp add: lastChunk_def)
  have r1: "roomFor sys s (length (openText close (resp h)) + (length (lastChunk data (resp h)) + n)) (io h)"
    using assms(2) by (simp add: add.assoc)
  obtain h1 h2 where f1: "writeStatus sys s HTTP_200_OK h = Some h1" and f2: "closeStep sys s close h1 = Some h2"
    and d: "resp h1 = called (resp h)" "resp h2 = ?d"
    and e1: "appends s (openText close (resp h)) (io h) (io h2)" and r2: "roomFor sys s (length (lastChunk data (resp h)) + n) (io h2)"
    by (rule statusClose_emits [OF r1]) blast
  have c: "does sys s (lastChunkStep sys s ?data) h2 (lastChunk data (resp h)) ?d"
    using does_last [OF d(2), of sys s ?data] l by simp
  obtain st t where f3: "lastChunkStep sys s ?data h2 = Some \<lparr>io = st, resp = ?d, idleTimeout = t\<rparr>"
    and e2: "appends s (lastChunk data (resp h)) (io h2) st" and r3: "roomFor sys s n st"
    by (rule doesD [OF c r2]) blast
  define h3 where "h3 = \<lparr>io = st, resp = markDone ?d, idleTimeout = t\<rparr>"
  define c3 where "c3 = closeWhenDone s h3"
  have mk: "onResp markDone \<lparr>io = st, resp = ?d, idleTimeout = t\<rparr> = h3" by (simp add: h3_def onResp_def)
  let ?h' = "if fst c3 then snd c3 else armTimeout HTTP_TIMEOUT_S (snd c3)"
  have "internalEnd sys date s data amount optionally allow close h = Some (True, ?h')"
    using assms(1) d f3 mk unfolding internalEnd_def Let_def
    by (simp add: f1 f2 c3_def case_prod_beta)
  moreover have "appends s (openText close (resp h) @ lastChunk data (resp h)) (io h) st" by (rule emits_trans [OF e1 e2])
  then have "appends s (openText close (resp h) @ lastChunk data (resp h)) (io h) (io ?h')"
    using closeWhenDone_facts(2) [of s h3] by (auto simp: c3_def h3_def armTimeout_def appends_def)
  moreover have r: "resp ?h' = markDone ?d"
    using closeWhenDone_facts(1) [of s h3] by (simp add: c3_def h3_def armTimeout_def)
  moreover have "roomFor sys s n (io ?h')" if "\<not> connectionClose (resp ?h')"
  proof -
    have "\<not> connectionClose (resp h3)" using that r by (simp add: h3_def)
    then have "closeWhenDone s h3 = (False, h3)" by (rule closeWhenDone_facts(3))
    moreover have "io h3 = st" by (simp add: h3_def)
    ultimately show ?thesis using r3 by (simp add: c3_def armTimeout_def)
  qed
  ultimately show thesis by (rule that)
qed

text \<open>A response with a length: the fields are sent once, then as much of the body as the socket takes.\<close>

definition bodyOf :: "bytes \<Rightarrow> responseData \<Rightarrow> bytes" where
  "bodyOf data d = (if methodHead d then [] else data)"

definition sizeOf :: "bytes \<Rightarrow> nat \<Rightarrow> nat" where
  "sizeOf data amount = (if amount = 0 then length data else amount)"

definition afterBody :: "bool \<Rightarrow> bytes \<Rightarrow> nat \<Rightarrow> nat \<Rightarrow> responseData \<Rightarrow> responseData" where
  "afterBody close data amount w d =
     (let d' = (closing close d)\<lparr>endCalled := True, offset := offset d + w\<rparr>
      in if offset d + w = sizeOf data amount \<or> bodyOf data d = [] then markDone d' else d')"

lemma internalEnd_length:
  assumes "\<not> writeCalled (resp h)"
    and "roomFor sys s (length (openText close (resp h) @ lengthField date (sizeOf data amount) allow (resp h) @ bodyOf data (resp h)) + n) (io h)"
  obtains w failed h' where "internalEnd sys date s data amount optionally allow close h =
      Some (w = length (bodyOf data (resp h)) \<and> \<not> failed, h')"
    and "taken optionally (bodyOf data (resp h)) w failed"
    and "appends s (openText close (resp h) @ lengthField date (sizeOf data amount) allow (resp h) @ take w (bodyOf data (resp h))) (io h) (io h')"
    and "resp h' = afterBody close data amount w (resp h)"
    and "\<not> connectionClose (resp h') \<Longrightarrow> roomFor sys s n (io h')"
proof -
  let ?d = "closing close (resp h)" and ?data = "bodyOf data (resp h)"
  let ?len = "lengthField date (sizeOf data amount) allow (resp h)"
  have r1: "roomFor sys s (length (openText close (resp h)) + (length ?len + (length ?data + n))) (io h)"
    using assms(2) by (simp add: add.assoc)
  obtain h1 h2 where f1: "writeStatus sys s HTTP_200_OK h = Some h1" and f2: "closeStep sys s close h1 = Some h2"
    and d: "resp h1 = called (resp h)" "resp h2 = ?d"
    and e1: "appends s (openText close (resp h)) (io h) (io h2)" and r2: "roomFor sys s (length ?len + (length ?data + n)) (io h2)"
    by (rule statusClose_emits [OF r1]) blast
  have c: "does sys s (lengthStep sys date s (sizeOf data amount) allow) h2 ?len (?d\<lparr>endCalled := True\<rparr>)"
    by (rule does_cong [OF does_length]) (simp_all add: d lengthField_def)
  obtain st3 t where f3: "lengthStep sys date s (sizeOf data amount) allow h2 =
      Some \<lparr>io = st3, resp = ?d\<lparr>endCalled := True\<rparr>, idleTimeout = t\<rparr>"
    and e2: "appends s ?len (io h2) st3" and r3: "roomFor sys s (length ?data + n) st3"
    by (rule doesD [OF c r2]) blast
  obtain w failed st where f4: "sendLoop sys s ?data optionally 0 False st3 = Some ((w, failed), st)"
    and t4: "taken optionally ?data w failed" and e3: "appends s (take w ?data) st3 st" and r4: "roomFor sys s n st"
    by (rule sendLoop_emits [OF r3]) blast
  let ?t' = "if \<not> (w = length ?data \<and> \<not> failed) \<or> offset (resp h) + w = sizeOf data amount then HTTP_TIMEOUT_S else t"
  define h3 where "h3 = \<lparr>io = st, resp = (?d\<lparr>endCalled := True, offset := offset (resp h) + w\<rparr>), idleTimeout = ?t'\<rparr>"
  define h4 where "h4 = (if offset (resp h) + w = sizeOf data amount \<or> ?data = []
    then snd (closeWhenDone s (onResp markDone h3)) else h3)"
  have "internalEnd sys date s data amount optionally allow close h = Some (w = length ?data \<and> \<not> failed, h4)"
    using assms(1) d f3 f4 unfolding internalEnd_def Let_def
    by (simp add: f1 f2 h3_def h4_def bodyOf_def sizeOf_def onResp_def armTimeout_def)
  moreover have e: "appends s (openText close (resp h) @ ?len @ take w ?data) (io h) st"
    by (rule emits_trans [OF e1 emits_trans [OF e2 e3]])
  have "appends s (openText close (resp h) @ ?len @ take w ?data) (io h) (io h4)"
    using e closeWhenDone_facts(2) [of s "onResp markDone h3"] by (auto simp: h4_def h3_def onResp_def appends_def)
  moreover have r: "resp h4 = afterBody close data amount w (resp h)"
    using closeWhenDone_facts(1) [of s "onResp markDone h3"]
    by (auto simp: h4_def h3_def onResp_def afterBody_def Let_def)
  moreover have "roomFor sys s n (io h4)" if "\<not> connectionClose (resp h4)"
  proof -
    have "\<not> connectionClose (resp (onResp markDone h3))" using that r
      by (auto simp: h3_def onResp_def afterBody_def Let_def markDone_def split: if_splits)
    then have "closeWhenDone s (onResp markDone h3) = (False, onResp markDone h3)" by (rule closeWhenDone_facts(3))
    moreover have "io h3 = st" "io (onResp markDone h3) = st" by (simp_all add: h3_def onResp_def)
    ultimately show ?thesis using r4 by (simp add: h4_def)
  qed
  ultimately show thesis using that t4 by blast
qed

end
