(* ===== verification/HttpResponseText.thy ===== *)
theory HttpResponseText
  imports HttpResponse
begin

text \<open>
  Whole responses of native/uwebsockets/HttpResponse.h, read back by the other side: what a handler says with
  \<open>writeStatus\<close>, \<open>writeHeader\<close>, \<open>write\<close>, \<open>end\<close> and \<open>tryEnd\<close> is what the response parser of the client and the
  decoder of chunked bodies find in the bytes of the connection.
\<close>

section \<open>Sequences of calls\<close>

datatype responseCall =
    Status bytes
  | Header bytes bytes
  | Write bytes
  | End bytes bool

fun performCall :: "kernel \<Rightarrow> bytes \<Rightarrow> 's \<Rightarrow> responseCall \<Rightarrow> 's response \<Rightarrow> 's response option" where
  "performCall sys date s (Status stat) h = writeStatus sys s stat h"
| "performCall sys date s (Header key val) h = writeHeader sys s key val h"
| "performCall sys date s (Write data) h = map_option snd (writeChunk sys date s data h)"
| "performCall sys date s (End data close) h = map_option snd (endResponse sys date s data close h)"

fun performCalls :: "kernel \<Rightarrow> bytes \<Rightarrow> 's \<Rightarrow> responseCall list \<Rightarrow> 's response \<Rightarrow> 's response option" where
  "performCalls sys date s [] h = Some h"
| "performCalls sys date s (c # cs) h = performCall sys date s c h \<bind> performCalls sys date s cs"

lemma performCalls_append:
  "performCalls sys date s (cs @ ds) h = performCalls sys date s cs h \<bind> performCalls sys date s ds"
proof (induction cs arbitrary: h)
  case (Cons c cs)
  then show ?case by (cases "performCall sys date s c h") simp_all
qed simp

lemma performCalls_Nil: "performCalls sys date s [] = Some"
  by (rule ext) simp

definition fresh :: "responseData \<Rightarrow> bool" where
  "fresh d \<longleftrightarrow> \<not> statusCalled d \<and> \<not> writeCalled d \<and> \<not> endCalled d \<and> \<not> connectionClose d \<and> responsePending d \<and> offset d = 0"

lemma does_headers:
  assumes "statusCalled (resp h)"
  shows "does sys s (performCalls sys date s (map (\<lambda>(k, v). Header k v) hs)) h (concat (map fieldLine hs)) (resp h)"
  using assms
proof (induction hs arbitrary: h)
  case Nil
  then show ?case by (simp add: performCalls_Nil does_return)
next
  case (Cons f hs)
  obtain k v where f: "f = (k, v)" by (cases f)
  have one: "does sys s (writeHeader sys s k v) h (fieldLine (k, v)) (resp h)"
    by (rule does_cong [OF does_writeHeader]) (use Cons.prems in simp_all)
  have "does sys s (\<lambda>h. writeHeader sys s k v h \<bind> performCalls sys date s (map (\<lambda>(k, v). Header k v) hs)) h
      (fieldLine (k, v) @ concat (map fieldLine hs)) (resp h)"
  proof (rule does_bind [OF one])
    fix h1 :: "'a response" assume "resp h1 = resp h"
    then show "does sys s (performCalls sys date s (map (\<lambda>(k, v). Header k v) hs)) h1 (concat (map fieldLine hs)) (resp h)"
      using Cons.IH [of h1] Cons.prems by simp
  qed
  then show ?case by (rule does_cong) (simp_all add: f)
qed

lemma does_head:
  assumes "\<not> statusCalled (resp h)"
  shows "does sys s (performCalls sys date s (Status stat # map (\<lambda>(k, v). Header k v) hs)) h
    ((ascii ''HTTP/1.1 '' @ stat @ crlf) @ concat (map fieldLine hs)) (called (resp h))"
proof -
  have st: "does sys s (writeStatus sys s stat) h (ascii ''HTTP/1.1 '' @ stat @ crlf) (called (resp h))"
    by (rule does_cong [OF does_writeStatus]) (use assms in \<open>simp_all add: statusText_def\<close>)
  have "does sys s (\<lambda>h. writeStatus sys s stat h \<bind> performCalls sys date s (map (\<lambda>(k, v). Header k v) hs)) h
      ((ascii ''HTTP/1.1 '' @ stat @ crlf) @ concat (map fieldLine hs)) (called (resp h))"
  proof (rule does_bind [OF st])
    fix h1 :: "'a response" assume "resp h1 = called (resp h)"
    then show "does sys s (performCalls sys date s (map (\<lambda>(k, v). Header k v) hs)) h1 (concat (map fieldLine hs)) (called (resp h))"
      using does_headers [of h1] by simp
  qed
  then show ?thesis by (rule does_cong) simp_all
qed

definition bodyText :: "bytes \<Rightarrow> responseData \<Rightarrow> bytes" where
  "bodyText data d = (if methodHead d then [] else data)"

lemma does_chunks:
  assumes "statusCalled (resp h)" and "writeCalled (resp h)" and "[] \<notin> set chunks"
  shows "does sys s (performCalls sys date s (map Write chunks)) h (bodyText (concat (map chunkText chunks)) (resp h)) (resp h)"
  using assms
proof (induction chunks arbitrary: h)
  case Nil
  then show ?case by (simp add: performCalls_Nil does_return bodyText_def)
next
  case (Cons c chunks)
  have same: "begun (resp h) = resp h" using Cons.prems by simp
  have one: "does sys s (\<lambda>h. map_option snd (writeChunk sys date s c h)) h (bodyText (chunkText c) (resp h)) (resp h)"
    by (rule does_cong [OF does_writeChunk]) (use Cons.prems same in \<open>auto simp: writeText_def beginText_def bodyText_def\<close>)
  have "does sys s (\<lambda>h. map_option snd (writeChunk sys date s c h) \<bind> performCalls sys date s (map Write chunks)) h
      (bodyText (chunkText c) (resp h) @ bodyText (concat (map chunkText chunks)) (resp h)) (resp h)"
  proof (rule does_bind [OF one])
    fix h1 :: "'a response" assume "resp h1 = resp h"
    then show "does sys s (performCalls sys date s (map Write chunks)) h1 (bodyText (concat (map chunkText chunks)) (resp h)) (resp h)"
      using Cons.IH [of h1] Cons.prems by simp
  qed
  then show ?case by (rule does_cong) (simp_all add: bodyText_def)
qed

lemma does_firstChunks:
  assumes "resp h = d" and "statusCalled d" and "\<not> writeCalled d" and "[] \<notin> set chunks" and "chunks \<noteq> []"
  shows "does sys s (performCalls sys date s (map Write chunks)) h
    ((fieldLine (ascii ''Date'', take 29 date) @ chunkedField) @ bodyText (concat (map chunkText chunks)) d) (begun d)"
proof -
  obtain c cs where c: "chunks = c # cs" using assms(5) by (cases chunks) auto
  have one: "does sys s (\<lambda>h. map_option snd (writeChunk sys date s c h)) h
      (fieldLine (ascii ''Date'', take 29 date) @ chunkedField @ bodyText (chunkText c) d) (begun d)"
    by (rule does_cong [OF does_writeChunk])
       (use assms in \<open>auto simp: c writeText_def beginText_def markText_def bodyText_def\<close>)
  have "does sys s (\<lambda>h. map_option snd (writeChunk sys date s c h) \<bind> performCalls sys date s (map Write cs)) h
      ((fieldLine (ascii ''Date'', take 29 date) @ chunkedField @ bodyText (chunkText c) d) @ bodyText (concat (map chunkText cs)) d) (begun d)"
  proof (rule does_bind [OF one])
    fix h1 :: "'a response" assume "resp h1 = begun d"
    then show "does sys s (performCalls sys date s (map Write cs)) h1 (bodyText (concat (map chunkText cs)) d) (begun d)"
      using does_chunks [of h1 cs sys s date] assms(4) by (simp add: c bodyText_def)
  qed
  then show ?thesis by (rule does_cong) (simp_all add: c bodyText_def)
qed

section \<open>A chunked response\<close>

lemma chunkText_encode: "length c < 2 ^ 64 \<Longrightarrow> chunkText c @ crlf = crlf @ encode_chunk c"
  by (simp add: chunkText_def encode_chunk_def unsignedHex_eq crlf_def)

lemma chunks_encode:
  assumes "\<forall>c \<in> set cs. length c < 2 ^ 64"
  shows "concat (map chunkText cs) @ crlf @ ascii ''0'' @ crlf @ crlf = crlf @ encode_body cs @ crlf"
proof -
  have "concat (map chunkText cs) @ crlf = crlf @ concat (map encode_chunk cs)"
    using assms
  proof (induction cs)
    case (Cons c cs)
    have "concat (map chunkText (c # cs)) @ crlf = chunkText c @ (concat (map chunkText cs) @ crlf)" by simp
    also have "\<dots> = (chunkText c @ crlf) @ concat (map encode_chunk cs)" using Cons by simp
    also have "\<dots> = crlf @ concat (map encode_chunk (c # cs))" using chunkText_encode [of c] Cons.prems by simp
    finally show ?case .
  qed simp
  moreover have "hex_of 0 = ascii ''0''" by code_simp
  ultimately show ?thesis by (simp add: encode_body_def crlf_def)
qed

lemma length_encode: "c \<in> set cs \<Longrightarrow> length c \<le> length (encode_body cs)"
proof (induction cs)
  case (Cons x cs)
  then show ?case by (auto simp: encode_body_def encode_chunk_def)
qed simp

lemma decode_body:
  assumes "[] \<notin> set cs" and "length (encode_body cs @ crlf) < 2 ^ 31"
  shows "feed_all feed_chunks STATE_IS_CHUNKED [encode_body cs @ crlf] = Some (STATE_IS_TRAILER, map Byte (concat cs) @ [Fin], crlf)"
proof -
  have small: "c \<noteq> [] \<and> length c + 2 < 2 ^ 60" if "c \<in> set cs" for c
    using that assms length_encode [OF that] by auto
  have "feed_all feed_chunks (chunk_state (Size 0)) [encode_body cs @ crlf] =
      Some (chunk_state Done, map Byte (concat cs) @ [Fin], crlf)"
  proof (rule chunked.segmentation_independent)
    show "chunk_run (Size 0) (concat [encode_body cs @ crlf]) = (Done, map Byte (concat cs) @ [Fin], crlf)"
      using run_encode_body [of cs crlf] small by simp
  qed (use assms(2) in auto)
  then show ?thesis by simp
qed

text \<open>The fields the server adds.\<close>

definition dateField :: "bytes \<Rightarrow> bytes \<times> bytes" where
  "dateField date = (ascii ''Date'', take 29 date)"

definition parsedFields :: "(bytes \<times> bytes) list \<Rightarrow> (bytes \<times> bytes) list" where
  "parsedFields hs = map (\<lambda>(k, v). (map tolower (trim k), trim v)) hs"

definition chunkList :: "bytes list \<Rightarrow> bytes \<Rightarrow> bytes list" where
  "chunkList chunks data = chunks @ (if data = [] then [] else [data])"

lemma responseField_ascii: "CR \<notin> set (ascii k) \<Longrightarrow> 58 \<notin> set (ascii k) \<Longrightarrow> CR \<notin> set v \<Longrightarrow> responseField (ascii k, v)"
  by (simp add: responseField_def lineFree_def)

lemma serverFields:
  assumes "lineFree date"
  shows "responseField (dateField date)" and "responseField (ascii ''Transfer-Encoding'', ascii ''chunked'')"
    and "responseField (ascii ''Content-Length'', digits n)"
proof -
  have "CR \<notin> set (ascii ''Date'')" "58 \<notin> set (ascii ''Date'')" by code_simp+
  then show "responseField (dateField date)"
    using assms in_set_takeD [of CR 29 date] unfolding dateField_def by (intro responseField_ascii) (auto simp: lineFree_def)
  show "responseField (ascii ''Transfer-Encoding'', ascii ''chunked'')" by code_simp
  have "CR \<notin> set (ascii ''Content-Length'')" "58 \<notin> set (ascii ''Content-Length'')" by code_simp+
  then show "responseField (ascii ''Content-Length'', digits n)"
    using visible_digits [of n] visible_no_blank by (intro responseField_ascii) auto
qed

section \<open>What a response consists of\<close>

abbreviation headCalls :: "bytes \<Rightarrow> (bytes \<times> bytes) list \<Rightarrow> responseCall list" where
  "headCalls stat hs \<equiv> Status stat # map (\<lambda>(k, v). Header k v) hs"

definition headText :: "bytes \<Rightarrow> (bytes \<times> bytes) list \<Rightarrow> bytes" where
  "headText stat hs = (ascii ''HTTP/1.1 '' @ stat @ crlf) @ concat (map fieldLine hs)"

definition chunksText :: "bytes \<Rightarrow> bytes list \<Rightarrow> responseData \<Rightarrow> bytes" where
  "chunksText date chunks d = (fieldLine (ascii ''Date'', take 29 date) @ chunkedField) @ bodyText (concat (map chunkText chunks)) d"

lemma chunked_shape:
  fixes hs :: "(bytes \<times> bytes) list" and data date :: bytes
  assumes "\<forall>c \<in> set (chunkList chunks data). length c < 2 ^ 64"
  defines "fs \<equiv> hs @ [dateField date, (ascii ''Transfer-Encoding'', ascii ''chunked'')]"
  shows "(headText (digits code @ SP # phrase) hs @ chunksText date chunks (called d)) @ lastChunk data (begun d) =
    renderResponse code phrase fs @ bodyText (encode_body (chunkList chunks data) @ crlf) d"
proof -
  have "bodyText (concat (map chunkText chunks)) d @ lastChunk data (begun d) =
      crlf @ bodyText (encode_body (chunkList chunks data) @ crlf) d"
  proof (cases "methodHead d")
    case False
    then have "bodyText (concat (map chunkText chunks)) d @ lastChunk data (begun d) =
        concat (map chunkText (chunkList chunks data)) @ crlf @ ascii ''0'' @ crlf @ crlf"
      by (simp add: bodyText_def lastChunk_def chunkList_def)
    then show ?thesis using chunks_encode [OF assms(1)] False by (simp add: bodyText_def)
  qed (simp add: bodyText_def lastChunk_def)
  then show ?thesis
    by (simp add: headText_def chunksText_def renderResponse_def fs_def dateField_def chunkedField_def bodyText_def del: ascii_Cons)
qed

lemma does_beginning:
  assumes "fresh (resp h)" and "chunks \<noteq> []" and "[] \<notin> set chunks"
  shows "does sys s (performCalls sys date s (headCalls stat hs @ map Write chunks)) h
    (headText stat hs @ chunksText date chunks (called (resp h))) (begun (resp h))"
  unfolding performCalls_append headText_def
proof (rule does_bind [OF does_head])
  show "\<not> statusCalled (resp h)" using assms(1) by (simp add: fresh_def)
  fix h1 :: "'a response" assume r: "resp h1 = called (resp h)"
  show "does sys s (performCalls sys date s (map Write chunks)) h1 (chunksText date chunks (called (resp h))) (begun (resp h))"
    unfolding chunksText_def
    by (rule does_cong [OF does_firstChunks [OF r]]) (use assms in \<open>simp_all add: fresh_def\<close>)
qed

lemma chunked_emits:
  assumes "fresh (resp h)" and "chunks \<noteq> []" and "[] \<notin> set chunks"
    and "roomFor sys s (length (headText stat hs @ chunksText date chunks (called (resp h))) + length (lastChunk data (begun (resp h)))) (io h)"
  obtains h' where "performCalls sys date s (headCalls stat hs @ map Write chunks @ [End data False]) h = Some h'"
    and "appends s ((headText stat hs @ chunksText date chunks (called (resp h))) @ lastChunk data (begun (resp h))) (io h) (io h')"
    and "hasResponded h'"
proof -
  let ?d = "begun (resp h)"
  obtain st t where f1: "performCalls sys date s (headCalls stat hs @ map Write chunks) h = Some \<lparr>io = st, resp = ?d, idleTimeout = t\<rparr>"
    and e1: "appends s (headText stat hs @ chunksText date chunks (called (resp h))) (io h) st" and r1: "roomFor sys s (length (lastChunk data ?d)) st"
    by (rule doesD [OF does_beginning [OF assms(1-3)] assms(4)]) blast
  let ?h1 = "\<lparr>io = st, resp = ?d, idleTimeout = t\<rparr>"
  have open0: "openText False ?d = []" by (simp add: openText_def closeField_def)
  have w: "writeCalled (resp ?h1)" by simp
  have r2: "roomFor sys s (length (openText False (resp ?h1) @ lastChunk data (resp ?h1)) + 0) (io ?h1)"
    using r1 open0 by simp
  obtain h' where f2: "internalEnd sys date s data (length data) False True False ?h1 = Some (True, h')"
    and e2: "appends s (openText False (resp ?h1) @ lastChunk data (resp ?h1)) (io ?h1) (io h')"
    and d2: "resp h' = markDone (closing False (resp ?h1))"
    by (rule internalEnd_chunked [OF w r2]) blast
  show thesis
  proof (rule that)
    show "performCalls sys date s (headCalls stat hs @ map Write chunks @ [End data False]) h = Some h'"
      unfolding append_assoc [symmetric] performCalls_append [of sys date s "headCalls stat hs @ map Write chunks" "[End data False]" h] f1
      using f2 by (simp add: endResponse_def)
    show "appends s ((headText stat hs @ chunksText date chunks (called (resp h))) @ lastChunk data ?d) (io h) (io h')"
      using emits_trans [OF e1, of "lastChunk data ?d" "io h'"] e2 open0 by simp
    show "hasResponded h'" unfolding hasResponded_def d2 by (simp add: markDone_def)
  qed
qed

lemma length_emits:
  assumes "fresh (resp h)"
    and "roomFor sys s (length (headText stat hs) +
      (length (lengthField date (length data) True (called (resp h))) + length (bodyText data (resp h)))) (io h)"
  obtains h' where "performCalls sys date s (headCalls stat hs @ [End data False]) h = Some h'"
    and "appends s ((headText stat hs @ lengthField date (length data) True (called (resp h))) @ bodyText data (resp h)) (io h) (io h')"
    and "hasResponded h'"
proof -
  let ?d = "called (resp h)"
  let ?len = "lengthField date (length data) True ?d"
  have d: "\<not> writeCalled (resp h)" "\<not> statusCalled (resp h)" "offset (resp h) = 0" using assms(1) by (simp_all add: fresh_def)
  have same: "bodyOf data ?d = bodyText data (resp h)" by (simp add: bodyOf_def bodyText_def)
  obtain st t where f1: "performCalls sys date s (headCalls stat hs) h = Some \<lparr>io = st, resp = ?d, idleTimeout = t\<rparr>"
    and e1: "appends s (headText stat hs) (io h) st" and r1: "roomFor sys s (length ?len + length (bodyText data (resp h))) st"
    using assms(2) unfolding headText_def by (rule doesD [OF does_head [OF d(2)]]) blast
  let ?h1 = "\<lparr>io = st, resp = ?d, idleTimeout = t\<rparr>"
  have open0: "openText False (resp ?h1) = []" by (simp add: openText_def closeField_def)
  have r2: "roomFor sys s (length (openText False (resp ?h1) @ lengthField date (sizeOf data (length data)) True (resp ?h1) @
      bodyOf data (resp ?h1)) + 0) (io ?h1)"
    using r1 open0 same by (simp add: sizeOf_def)
  have w1: "\<not> writeCalled (resp ?h1)" using d(1) by simp
  obtain w failed h' where f2: "internalEnd sys date s data (length data) False True False ?h1 =
      Some (w = length (bodyOf data (resp ?h1)) \<and> \<not> failed, h')"
    and t2: "taken False (bodyOf data (resp ?h1)) w failed"
    and e2: "appends s (openText False (resp ?h1) @ lengthField date (sizeOf data (length data)) True (resp ?h1) @
      take w (bodyOf data (resp ?h1))) (io ?h1) (io h')"
    and d2: "resp h' = afterBody False data (length data) w (resp ?h1)"
    by (rule internalEnd_length [OF w1 r2]) blast
  have w: "w = length (bodyText data (resp h))" using t2 same by (simp add: taken_def)
  show thesis
  proof (rule that)
    show "performCalls sys date s (headCalls stat hs @ [End data False]) h = Some h'"
      unfolding performCalls_append [of sys date s "headCalls stat hs" "[End data False]" h] f1
      using f2 by (simp add: endResponse_def)
    show "appends s ((headText stat hs @ ?len) @ bodyText data (resp h)) (io h) (io h')"
      using emits_trans [OF e1, of "?len @ bodyText data (resp h)" "io h'"] e2 open0 same w by (simp add: sizeOf_def)
    show "hasResponded h'"
      using d(3) w same by (auto simp: hasResponded_def d2 afterBody_def Let_def markDone_def sizeOf_def bodyText_def)
  qed
qed

text \<open>C9. A handler that sets a status and header fields, writes one or more chunks that are not empty and ends the response
  without asking to close the connection (\<open>closeConnection\<close> false; \<open>close_at_end_breaks_chunks\<close> is about true) puts exactly one response on the
  connection, whatever the kernel takes of each write: the client reads the status, the fields of the handler, the date and the
  transfer coding from the head, and the chunk decoder reads from the rest exactly the bytes that were written and the end.
  The response to a HEAD request is the same head without the body. The response is then no longer pending.\<close>
theorem chunked_response_is_read_back:
  fixes h :: "'s response" and data :: bytes
  assumes "fresh (resp h)" and "100 \<le> code" and "code < 1000" and "lineFree phrase" and "trim phrase = phrase"
    and "list_all responseField hs" and "lineFree date" and "chunks \<noteq> []" and "[] \<notin> set chunks"
  defines "fs \<equiv> hs @ [dateField date, (ascii ''Transfer-Encoding'', ascii ''chunked'')]"
  defines "body \<equiv> encode_body (chunkList chunks data) @ crlf"
  assumes "roomFor sys s (length (renderResponse code phrase fs @ body)) (io h)"
  shows "\<exists>h'. performCalls sys date s (Status (digits code @ SP # phrase) # map (\<lambda>(k, v). Header k v) hs @ map Write chunks @ [End data False]) h = Some h' \<and>
    appends s (renderResponse code phrase fs @ bodyText body (resp h)) (io h) (io h') \<and> hasResponded h' \<and>
    parseResponse (renderResponse code phrase fs @ body) emptyHead =
      (True, \<lparr>complete = True, status = int code, reason = phrase, headers = parsedFields fs,
         headerBytes = length (renderResponse code phrase fs)\<rparr>) \<and>
    feed_all feed_chunks STATE_IS_CHUNKED [body] = Some (STATE_IS_TRAILER, map Byte (concat chunks @ data) @ [Fin], crlf)"
proof -
  let ?cs = "chunkList chunks data" and ?stat = "digits code @ SP # phrase"
  have room: "length (renderResponse code phrase fs @ body) < 2 ^ 31" using ready_int [OF assms(12)] by simp
  have "\<forall>c \<in> set ?cs. length c < 2 ^ 64"
  proof
    fix c assume "c \<in> set ?cs"
    then have "length c \<le> length body" using length_encode by (fastforce simp: body_def)
    then show "length c < 2 ^ 64" using room by simp
  qed
  note shape = chunked_shape [OF this, of code phrase hs date "resp h", folded fs_def body_def]
  have "length (renderResponse code phrase fs @ bodyText body (resp h)) \<le> length (renderResponse code phrase fs @ body)"
    by (simp add: bodyText_def)
  then have "roomFor sys s (length (headText ?stat hs @ chunksText date chunks (called (resp h))) + length (lastChunk data (begun (resp h)))) (io h)"
    using ready_mono [OF assms(12)] unfolding shape [symmetric] length_append by blast
  then obtain h' where f: "performCalls sys date s (headCalls ?stat hs @ map Write chunks @ [End data False]) h = Some h'"
    and e: "appends s (renderResponse code phrase fs @ bodyText body (resp h)) (io h) (io h')" and r: "hasResponded h'"
    using chunked_emits [OF assms(1,8,9), of sys s ?stat hs date data] unfolding shape by blast
  have "list_all responseField fs" using assms(6) serverFields [OF assms(7)] by (simp add: fs_def)
  note head = response_roundtrip [OF assms(2-5) this, of body]
  have "[] \<notin> set ?cs" using assms(9) by (simp add: chunkList_def)
  from decode_body [OF this] room have "feed_all feed_chunks STATE_IS_CHUNKED [body] =
      Some (STATE_IS_TRAILER, map Byte (concat chunks @ data) @ [Fin], crlf)"
    by (simp add: body_def chunkList_def)
  with f e r head show ?thesis unfolding parsedFields_def append_Cons by blast
qed

definition freshData :: "bool \<Rightarrow> responseData" where
  "freshData head = \<lparr>statusCalled = False, writeCalled = False, endCalled = False, responsePending = True,
     connectionClose = False, methodHead = head, onWritable = False, onAborted = True, offset = 0\<rparr>"

definition freshResponse :: "bool \<Rightarrow> nat response" where
  "freshResponse head = \<lparr>io = freshLoop, resp = freshData head, idleTimeout = 0\<rparr>"

lemma fresh_freshResponse: "fresh (resp (freshResponse head))" "methodHead (resp (freshResponse head)) = head"
  by (simp_all add: fresh_def freshResponse_def freshData_def)

lemma ready_freshResponse: "n < 400 \<Longrightarrow> roomFor halfKernel s n (io (freshResponse head))"
proof -
  assume n: "n < 400"
  have "loop_ok (freshLoop :: nat asyncLoop)" by (rule reachable_ok [OF sending.fresh halfKernel_ok])
  moreover have "streamOf s (freshLoop :: nat asyncLoop) = []"
    by (simp add: streamOf_def corkedBytes_def freshLoop_def bpData_def bpClear_def)
  ultimately show ?thesis using n halfKernel_ok open_fresh
    by (simp add: roomFor_def freshResponse_def CORK_BUFFER_SIZE_def)
qed

definition someDate :: bytes where
  "someDate = ascii ''Thu, 01 Jan 2026 00:00:00 GMT''"

lemma lineFree_someDate: "lineFree someDate"
  by code_simp

lemma chunked_response_is_read_back_witness:
  "\<exists>h'. performCalls halfKernel someDate 0 (Status (digits 200 @ SP # ascii ''OK'') # map (\<lambda>(k, v). Header k v) [(ascii ''X'', ascii ''y'')] @
       map Write [[104, 105]] @ [End [33] False]) (freshResponse False) = Some h' \<and>
     appends 0 (renderResponse 200 (ascii ''OK'') ([(ascii ''X'', ascii ''y'')] @ [dateField someDate, (ascii ''Transfer-Encoding'', ascii ''chunked'')]) @
       bodyText (encode_body (chunkList [[104, 105]] [33]) @ crlf) (resp (freshResponse False))) (io (freshResponse False)) (io h') \<and> hasResponded h' \<and>
     parseResponse (renderResponse 200 (ascii ''OK'') ([(ascii ''X'', ascii ''y'')] @ [dateField someDate, (ascii ''Transfer-Encoding'', ascii ''chunked'')]) @
         encode_body (chunkList [[104, 105]] [33]) @ crlf) emptyHead =
       (True, \<lparr>complete = True, status = int 200, reason = ascii ''OK'',
          headers = parsedFields ([(ascii ''X'', ascii ''y'')] @ [dateField someDate, (ascii ''Transfer-Encoding'', ascii ''chunked'')]),
          headerBytes = length (renderResponse 200 (ascii ''OK'') ([(ascii ''X'', ascii ''y'')] @ [dateField someDate, (ascii ''Transfer-Encoding'', ascii ''chunked'')]))\<rparr>) \<and>
     feed_all feed_chunks STATE_IS_CHUNKED [encode_body (chunkList [[104, 105]] [33]) @ crlf] =
       Some (STATE_IS_TRAILER, map Byte (concat [[104, 105]] @ [33]) @ [Fin], crlf)"
proof (rule chunked_response_is_read_back)
  show "roomFor halfKernel 0 (length (renderResponse 200 (ascii ''OK'') ([(ascii ''X'', ascii ''y'')] @ [dateField someDate, (ascii ''Transfer-Encoding'', ascii ''chunked'')]) @
      encode_body (chunkList [[104, 105]] [33]) @ crlf)) (io (freshResponse False))"
    by (rule ready_freshResponse) code_simp
  show "lineFree (ascii ''OK'')" "trim (ascii ''OK'') = ascii ''OK''" "list_all responseField [(ascii ''X'', ascii ''y'')]"
    by code_simp+
qed (simp_all add: fresh_freshResponse lineFree_someDate)

section \<open>A response with a length\<close>

text \<open>C37. A handler that sets a status and header fields and ends the response with a body puts exactly one response on the
  connection: the client reads the status, the fields of the handler, the date and the length of the body, and behind the head stand
  exactly the bytes of the body; nothing for a HEAD request, which is still told the length. The response is no longer pending.\<close>
theorem response_with_length_is_read_back:
  fixes h :: "'s response" and data :: bytes
  assumes "fresh (resp h)" and "100 \<le> code" and "code < 1000" and "lineFree phrase" and "trim phrase = phrase"
    and "list_all responseField hs" and "lineFree date"
  defines "fs \<equiv> hs @ [dateField date, (ascii ''Content-Length'', digits (length data))]"
  assumes "roomFor sys s (length (renderResponse code phrase fs @ data)) (io h)"
  shows "\<exists>h'. performCalls sys date s (Status (digits code @ SP # phrase) # map (\<lambda>(k, v). Header k v) hs @ [End data False]) h = Some h' \<and>
    appends s (renderResponse code phrase fs @ bodyText data (resp h)) (io h) (io h') \<and> hasResponded h' \<and>
    parseResponse (renderResponse code phrase fs @ data) emptyHead =
      (True, \<lparr>complete = True, status = int code, reason = phrase, headers = parsedFields fs,
         headerBytes = length (renderResponse code phrase fs)\<rparr>)"
proof -
  let ?stat = "digits code @ SP # phrase"
  have room: "length data < 2 ^ 31" using ready_int [OF assms(9)] by simp
  have shape: "headText ?stat hs @ lengthField date (length data) True (called (resp h)) = renderResponse code phrase fs"
    using room assms(1) by (simp add: headText_def lengthField_def fresh_def renderResponse_def fs_def dateField_def u64toa_eq del: ascii_Cons)
  have "length (bodyText data (resp h)) \<le> length data" by (simp add: bodyText_def)
  then have "roomFor sys s (length (headText ?stat hs) +
      (length (lengthField date (length data) True (called (resp h))) + length (bodyText data (resp h)))) (io h)"
    using ready_mono [OF assms(9), of "length (renderResponse code phrase fs) + length (bodyText data (resp h))"]
    unfolding shape [symmetric] by (simp add: add.assoc)
  then obtain h' where f: "performCalls sys date s (headCalls ?stat hs @ [End data False]) h = Some h'"
    and e: "appends s (renderResponse code phrase fs @ bodyText data (resp h)) (io h) (io h')" and r: "hasResponded h'"
    using length_emits [OF assms(1), of sys s ?stat hs date data] unfolding shape by blast
  have "list_all responseField fs" using assms(6) serverFields [OF assms(7)] by (simp add: fs_def)
  from response_roundtrip [OF assms(2-5) this, of data] f e r show ?thesis unfolding parsedFields_def append_Cons by blast
qed

lemma response_with_length_is_read_back_witness:
  "\<exists>h'. performCalls halfKernel someDate 0 (Status (digits 200 @ SP # ascii ''OK'') # map (\<lambda>(k, v). Header k v) [(ascii ''X'', ascii ''y'')] @
       [End [104, 105] False]) (freshResponse True) = Some h' \<and>
     appends 0 (renderResponse 200 (ascii ''OK'') ([(ascii ''X'', ascii ''y'')] @ [dateField someDate, (ascii ''Content-Length'', digits (length [104, 105 :: byte]))]) @
       bodyText [104, 105] (resp (freshResponse True))) (io (freshResponse True)) (io h') \<and> hasResponded h' \<and>
     parseResponse (renderResponse 200 (ascii ''OK'') ([(ascii ''X'', ascii ''y'')] @ [dateField someDate, (ascii ''Content-Length'', digits (length [104, 105 :: byte]))]) @
         [104, 105]) emptyHead =
       (True, \<lparr>complete = True, status = int 200, reason = ascii ''OK'',
          headers = parsedFields ([(ascii ''X'', ascii ''y'')] @ [dateField someDate, (ascii ''Content-Length'', digits (length [104, 105 :: byte]))]),
          headerBytes = length (renderResponse 200 (ascii ''OK'') ([(ascii ''X'', ascii ''y'')] @
            [dateField someDate, (ascii ''Content-Length'', digits (length [104, 105 :: byte]))]))\<rparr>)"
proof (rule response_with_length_is_read_back)
  show "roomFor halfKernel 0 (length (renderResponse 200 (ascii ''OK'') ([(ascii ''X'', ascii ''y'')] @
      [dateField someDate, (ascii ''Content-Length'', digits (length [104, 105 :: byte]))]) @ [104, 105])) (io (freshResponse True))"
    by (rule ready_freshResponse) code_simp
  show "lineFree (ascii ''OK'')" "trim (ascii ''OK'') = ascii ''OK''" "list_all responseField [(ascii ''X'', ascii ''y'')]"
    by code_simp+
qed (simp_all add: fresh_freshResponse lineFree_someDate)

section \<open>A body that is sent piece by piece\<close>

fun tryEndTimes :: "nat \<Rightarrow> kernel \<Rightarrow> bytes \<Rightarrow> 's \<Rightarrow> bytes \<Rightarrow> 's response \<Rightarrow> 's response option" where
  "tryEndTimes 0 sys date s body h = Some h"
| "tryEndTimes (Suc k) sys date s body h =
     tryEnd sys date s (drop (getWriteOffset h) body) (length body) False h \<bind> (\<lambda>(_, h). tryEndTimes k sys date s body h)"

definition sendingBody :: "bytes \<Rightarrow> responseData \<Rightarrow> bool" where
  "sendingBody body d \<longleftrightarrow> statusCalled d \<and> endCalled d \<and> \<not> writeCalled d \<and> \<not> connectionClose d \<and> \<not> methodHead d \<and>
     offset d \<le> length body \<and> (responsePending d \<longleftrightarrow> offset d \<noteq> length body)"

lemma ready_emits: "roomFor sys s n st' \<Longrightarrow> appends s t st st' \<Longrightarrow> roomFor sys s (length t + m) st \<Longrightarrow> roomFor sys s m st'"
  by (simp add: roomFor_def appends_def)

definition firstText :: "bytes \<Rightarrow> bytes \<Rightarrow> responseData \<Rightarrow> bytes" where
  "firstText date body d = openText False d @ lengthField date (length body) True d"

lemma tryEnd_step:
  assumes d: "\<not> writeCalled (resp h)" "\<not> connectionClose (resp h)" "\<not> methodHead (resp h)" "offset (resp h) \<le> length body"
    "responsePending (resp h) \<or> offset (resp h) = length body" and "body \<noteq> []"
    and "roomFor sys s (length (firstText date body (resp h) @ drop (offset (resp h)) body)) (io h)"
  obtains r h' where "tryEnd sys date s (drop (getWriteOffset h) body) (length body) False h = Some (r, h')"
    and "offset (resp h) \<le> offset (resp h')"
    and "appends s (firstText date body (resp h) @ take (offset (resp h') - offset (resp h)) (drop (offset (resp h)) body)) (io h) (io h')"
    and "sendingBody body (resp h')" and "roomFor sys s (length (drop (offset (resp h')) body)) (io h')"
proof -
  let ?off = "offset (resp h)"
  let ?data = "drop ?off body"
  have same: "bodyOf ?data (resp h) = ?data" "sizeOf ?data (length body) = length body"
    using d(3) assms(6) by (simp_all add: bodyOf_def sizeOf_def)
  have r: "roomFor sys s (length (openText False (resp h) @ lengthField date (sizeOf ?data (length body)) True (resp h) @
      bodyOf ?data (resp h)) + 0) (io h)"
    using assms(7) same by (simp add: firstText_def)
  obtain w failed h' where f: "internalEnd sys date s ?data (length body) True True False h =
      Some (w = length (bodyOf ?data (resp h)) \<and> \<not> failed, h')"
    and t: "taken True (bodyOf ?data (resp h)) w failed"
    and e: "appends s (openText False (resp h) @ lengthField date (sizeOf ?data (length body)) True (resp h) @ take w (bodyOf ?data (resp h))) (io h) (io h')"
    and d': "resp h' = afterBody False ?data (length body) w (resp h)"
    and r': "\<not> connectionClose (resp h') \<Longrightarrow> roomFor sys s 0 (io h')"
    by (rule internalEnd_length [OF d(1) r]) blast
  have w: "w \<le> length ?data" using t same by (simp add: taken_def)
  have off: "offset (resp h') = ?off + w" by (simp add: d' afterBody_def Let_def markDone_def)
  have e': "appends s (firstText date body (resp h) @ take w ?data) (io h) (io h')" using e same by (simp add: firstText_def)
  have nc: "\<not> connectionClose (resp h')" using d(2) by (simp add: d' afterBody_def Let_def markDone_def)
  have "sendingBody body (resp h')"
  proof -
    have f: "statusCalled (resp h')" "endCalled (resp h')" "\<not> writeCalled (resp h')" "\<not> methodHead (resp h')"
      using d(1,3) by (simp_all add: d' afterBody_def Let_def markDone_def)
    have p: "responsePending (resp h') \<longleftrightarrow> responsePending (resp h) \<and> ?off + w \<noteq> length body \<and> ?data \<noteq> []"
      unfolding d' afterBody_def Let_def same by (simp add: markDone_def)
    have le: "?off + w \<le> length body" using w d(4) by simp
    have z: "?data = [] \<longleftrightarrow> ?off = length body" using d(4) by auto
    have "responsePending (resp h') \<longleftrightarrow> ?off + w \<noteq> length body"
    proof (cases "?off = length body")
      case True
      then show ?thesis using p z w by simp
    next
      case False
      then show ?thesis using p z d(5) by blast
    qed
    then show ?thesis unfolding sendingBody_def off using f nc le by blast
  qed
  moreover have "roomFor sys s (length (drop (offset (resp h')) body)) (io h')"
  proof (rule ready_emits [OF r' [OF nc] e'])
    have sum: "length (firstText date body (resp h) @ take w ?data) + length (drop (offset (resp h')) body) =
        length (firstText date body (resp h) @ ?data)"
      using w d(4) off by simp
    show "roomFor sys s (length (firstText date body (resp h) @ take w ?data) + length (drop (offset (resp h')) body)) (io h)"
      unfolding sum by (rule assms(7))
  qed
  moreover have "tryEnd sys date s (drop (getWriteOffset h) body) (length body) False h =
      Some ((w = length ?data \<and> \<not> failed, hasResponded h'), h')"
    using f same by (simp add: tryEnd_def getWriteOffset_def)
  ultimately show thesis using that e' off by simp
qed

lemma tryEndTimes_sending:
  assumes "sendingBody body (resp h)" and "body \<noteq> []" and "roomFor sys s (length (drop (offset (resp h)) body)) (io h)"
  shows "\<exists>h'. tryEndTimes k sys date s body h = Some h' \<and> sendingBody body (resp h') \<and> offset (resp h) \<le> offset (resp h') \<and>
    appends s (take (offset (resp h') - offset (resp h)) (drop (offset (resp h)) body)) (io h) (io h')"
  using assms
proof (induction k arbitrary: h)
  case 0
  then show ?case by (simp add: appends_def)
next
  case (Suc k)
  have d: "\<not> writeCalled (resp h)" "\<not> connectionClose (resp h)" "\<not> methodHead (resp h)" "offset (resp h) \<le> length body"
    "responsePending (resp h) \<or> offset (resp h) = length body" and nil: "firstText date body (resp h) = []"
    using Suc.prems(1) by (auto simp: sendingBody_def firstText_def openText_def closeField_def lengthField_def)
  have r: "roomFor sys s (length (firstText date body (resp h) @ drop (offset (resp h)) body)) (io h)" using Suc.prems(3) nil by simp
  obtain x h1 where f: "tryEnd sys date s (drop (getWriteOffset h) body) (length body) False h = Some (x, h1)"
    and le: "offset (resp h) \<le> offset (resp h1)"
    and e: "appends s (firstText date body (resp h) @ take (offset (resp h1) - offset (resp h)) (drop (offset (resp h)) body)) (io h) (io h1)"
    and s1: "sendingBody body (resp h1)" and r1: "roomFor sys s (length (drop (offset (resp h1)) body)) (io h1)"
    by (rule tryEnd_step [OF d Suc.prems(2) r]) blast
  obtain h' where f': "tryEndTimes k sys date s body h1 = Some h'" and s': "sendingBody body (resp h')" and le': "offset (resp h1) \<le> offset (resp h')"
    and e': "appends s (take (offset (resp h') - offset (resp h1)) (drop (offset (resp h1)) body)) (io h1) (io h')"
    using Suc.IH [OF s1 Suc.prems(2) r1] by blast
  let ?i = "offset (resp h)" and ?j = "offset (resp h1)" and ?k = "offset (resp h')"
  have "take (?j - ?i) (drop ?i body) @ take (?k - ?j) (drop ?j body) = take (?k - ?i) (drop ?i body)"
    using le le' take_add [of "?j - ?i" "?k - ?j" "drop ?i body"] by simp
  then have "appends s (take (?k - ?i) (drop ?i body)) (io h) (io h')" using emits_trans [OF e e'] nil by simp
  then show ?case using f f' s' le le' by auto
qed

text \<open>C13. \<open>tryEnd\<close> is called again and again with what \<open>getWriteOffset\<close> says is missing, while the kernel takes what it likes. After
  every call, the connection carries the head once and then exactly the first \<open>getWriteOffset\<close> bytes of the body, none of them twice
  and none left out; the response stops being pending when, and only when, the body is complete.\<close>
theorem tryEnd_sends_every_byte_once:
  fixes h :: "'s response" and body date :: bytes
  assumes "fresh (resp h)" and "\<not> methodHead (resp h)" and "body \<noteq> []"
  defines "head \<equiv> renderResponse 200 (ascii ''OK'') [dateField date, (ascii ''Content-Length'', digits (length body))]"
  assumes "roomFor sys s (length (head @ body)) (io h)"
  shows "\<exists>h'. tryEndTimes (Suc k) sys date s body h = Some h' \<and>
    appends s (head @ take (getWriteOffset h') body) (io h) (io h') \<and> getWriteOffset h' \<le> length body \<and>
    (hasResponded h' \<longleftrightarrow> getWriteOffset h' = length body)"
proof -
  have d: "\<not> writeCalled (resp h)" "\<not> connectionClose (resp h)" "\<not> methodHead (resp h)" "offset (resp h) \<le> length body"
    "responsePending (resp h) \<or> offset (resp h) = length body" and z: "offset (resp h) = 0"
    using assms(1,2) by (simp_all add: fresh_def)
  have room: "length body < 2 ^ 31" using ready_int [OF assms(5)] by simp
  have "digits 200 = ascii ''200''" by code_simp
  then have first: "firstText date body (resp h) = head"
    using assms(1) room
    by (simp add: firstText_def openText_def closeField_def lengthField_def statusText_def fresh_def head_def renderResponse_def
        HTTP_200_OK_def dateField_def u64toa_eq)
  have r: "roomFor sys s (length (firstText date body (resp h) @ drop (offset (resp h)) body)) (io h)" using assms(5) first z by simp
  obtain x h1 where f: "tryEnd sys date s (drop (getWriteOffset h) body) (length body) False h = Some (x, h1)"
    and e: "appends s (firstText date body (resp h) @ take (offset (resp h1) - offset (resp h)) (drop (offset (resp h)) body)) (io h) (io h1)"
    and s1: "sendingBody body (resp h1)" and r1: "roomFor sys s (length (drop (offset (resp h1)) body)) (io h1)"
    by (rule tryEnd_step [OF d assms(3) r]) blast
  obtain h' where f': "tryEndTimes k sys date s body h1 = Some h'" and s': "sendingBody body (resp h')" and le': "offset (resp h1) \<le> offset (resp h')"
    and e': "appends s (take (offset (resp h') - offset (resp h1)) (drop (offset (resp h1)) body)) (io h1) (io h')"
    using tryEndTimes_sending [OF s1 assms(3) r1] by blast
  have "take (offset (resp h1)) body @ take (offset (resp h') - offset (resp h1)) (drop (offset (resp h1)) body) = take (offset (resp h')) body"
    using le' take_add [of "offset (resp h1)" "offset (resp h') - offset (resp h1)" body] by simp
  then have "appends s (head @ take (offset (resp h')) body) (io h) (io h')" using emits_trans [OF e e'] first z by simp
  then show ?thesis using f f' s' by (auto simp: getWriteOffset_def hasResponded_def sendingBody_def)
qed

lemma tryEnd_sends_every_byte_once_witness:
  "\<exists>h'. tryEndTimes (Suc 3) halfKernel someDate 0 [1, 2, 3, 4] (freshResponse False) = Some h' \<and>
    appends 0 (renderResponse 200 (ascii ''OK'') [dateField someDate, (ascii ''Content-Length'', digits (length [1, 2, 3, 4 :: byte]))] @
      take (getWriteOffset h') [1, 2, 3, 4]) (io (freshResponse False)) (io h') \<and> getWriteOffset h' \<le> length [1, 2, 3, 4 :: byte] \<and>
    (hasResponded h' \<longleftrightarrow> getWriteOffset h' = length [1, 2, 3, 4 :: byte])"
proof (rule tryEnd_sends_every_byte_once)
  show "roomFor halfKernel 0 (length (renderResponse 200 (ascii ''OK'') [dateField someDate, (ascii ''Content-Length'', digits (length [1, 2, 3, 4 :: byte]))] @
      [1, 2, 3, 4])) (io (freshResponse False))"
    by (rule ready_freshResponse) code_simp
qed (simp_all add: fresh_freshResponse)

section \<open>What goes wrong\<close>

definition brokenBody :: "bytes \<Rightarrow> bytes" where
  "brokenBody c = hex_of (length c) @ crlf @ c @ fieldLine (ascii ''Connection'', ascii ''close'') @ crlf @ ascii ''0'' @ crlf @ crlf"

lemma run_brokenBody:
  assumes "c \<noteq> []" and "length c < 2 ^ 31"
  shows "fst (chunk_run (Size 0) (brokenBody c)) = Bad"
proof -
  let ?rest = "fieldLine (ascii ''Connection'', ascii ''close'') @ crlf @ ascii ''0'' @ crlf @ crlf"
  have hex: "hexDigit CR = None" by (simp add: hexDigit_def)
  have n: "length c < 2 ^ 60" "length c + 2 < 2 ^ 60" "length c \<noteq> 0" using assms by (simp_all add: less_trans)
  have "chunk_run (Size 0) (brokenBody c) = chunk_run (Size (length c)) (CR # LF # c @ ?rest)"
    unfolding brokenBody_def using run_hex_of [OF n(1), of "crlf @ c @ ?rest"] by (simp add: crlf_def)
  also have "\<dots> = chunk_run (body_pos (length c + 2)) (c @ ?rest)"
    using n by (simp add: chunk_run_Cons hex chunk_line_end_def body_pos_def)
  finally have run: "chunk_run (Size 0) (brokenBody c) = chunk_run (body_pos (length c + 2)) (c @ ?rest)" .
  have len: "length c + 2 \<le> length (c @ ?rest)" by (simp add: fieldLine_def)
  have bad: "(c @ ?rest) ! (length c + 2 - 2) \<noteq> CR" by (simp add: fieldLine_def nth_append)
  have "if 2 \<le> length c + 2 \<and> (c @ ?rest) ! (length c + 2 - 2) \<noteq> CR \<or> (c @ ?rest) ! (length c + 2 - 1) \<noteq> LF
      then fst (chunk_run (body_pos (length c + 2)) (c @ ?rest)) = Bad
      else chunk_run (body_pos (length c + 2)) (c @ ?rest) =
        chunk_after (Size 0, map Byte (take (length c + 2 - 2) (c @ ?rest))) (drop (length c + 2) (c @ ?rest))"
    by (rule run_body_whole [OF _ len]) simp
  then show ?thesis using bad by (simp only: run) (simp del: ascii_Cons)
qed

text \<open>C38. Closing the connection at the end of a chunked response breaks the response: \<open>internalEnd\<close> writes the field
  \<open>Connection: close\<close> although the head has long been sent, so it lands in the body, behind the data of the last chunk, and the
  development's own chunk decoder rejects that body.\<close>
theorem close_at_end_breaks_chunks:
  fixes h :: "'s response" and c date :: bytes
  assumes "fresh (resp h)" and "\<not> methodHead (resp h)" and "c \<noteq> []"
  defines "head \<equiv> renderResponse 200 (ascii ''OK'') [dateField date, (ascii ''Transfer-Encoding'', ascii ''chunked'')]"
  assumes "roomFor sys s (length (head @ brokenBody c)) (io h)"
  shows "(\<exists>h'. performCalls sys date s [Write c, End [] True] h = Some h' \<and> appends s (head @ brokenBody c) (io h) (io h')) \<and>
    (\<exists>ev rest. feed_chunks STATE_IS_CHUNKED (brokenBody c) = Some (STATE_IS_ERROR, ev, rest))"
proof
  have room: "length (head @ brokenBody c) < 2 ^ 31" using ready_int [OF assms(5)] by simp
  then have lc: "length c < 2 ^ 31" by (simp add: brokenBody_def)
  have hex: "unsignedHex (word_of_nat (length c)) = hex_of (length c)" using lc by (simp add: unsignedHex_eq)
  let ?d = "begun (resp h)"
  have "digits 200 = ascii ''200''" by code_simp
  then have first: "writeText date c (resp h) @ closeField True ?d @ lastChunk [] ?d = head @ brokenBody c"
    using assms(1-3)
    by (simp add: writeText_def beginText_def markText_def chunkedField_def statusText_def fresh_def head_def renderResponse_def
        HTTP_200_OK_def dateField_def chunkText_def hex closeField_def lastChunk_def brokenBody_def)
  have "roomFor sys s (length (writeText date c (resp h)) + (length (closeField True ?d @ lastChunk [] ?d))) (io h)"
    using assms(5) unfolding first [symmetric] by simp
  then obtain st t where f1: "map_option snd (writeChunk sys date s c h) = Some \<lparr>io = st, resp = ?d, idleTimeout = t\<rparr>"
    and e1: "appends s (writeText date c (resp h)) (io h) st" and r1: "roomFor sys s (length (closeField True ?d @ lastChunk [] ?d)) st"
    by (rule doesD [OF does_writeChunk]) (use assms(3) in auto)
  let ?h1 = "\<lparr>io = st, resp = ?d, idleTimeout = t\<rparr>"
  have open1: "openText True (resp ?h1) = closeField True ?d" by (simp add: openText_def)
  have r2: "roomFor sys s (length (openText True (resp ?h1) @ lastChunk [] (resp ?h1)) + 0) (io ?h1)" using r1 open1 by simp
  have w: "writeCalled (resp ?h1)" by simp
  obtain h' where f2: "internalEnd sys date s [] 0 False True True ?h1 = Some (True, h')"
    and e2: "appends s (openText True (resp ?h1) @ lastChunk [] (resp ?h1)) (io ?h1) (io h')"
    by (rule internalEnd_chunked [OF w r2]) blast
  have "performCalls sys date s [Write c, End [] True] h = Some h'"
    unfolding performCalls.simps performCall.simps f1 using f2 by (simp add: endResponse_def)
  moreover have "appends s (head @ brokenBody c) (io h) (io h')"
    using emits_trans [OF e1, of "closeField True ?d @ lastChunk [] ?d" "io h'"] e2 open1 unfolding first by simp
  ultimately show "\<exists>h'. performCalls sys date s [Write c, End [] True] h = Some h' \<and> appends s (head @ brokenBody c) (io h) (io h')"
    by blast
  have run: "chunk_run (Size 0) (brokenBody c) = (Bad, fst (snd (chunk_run (Size 0) (brokenBody c))), snd (snd (chunk_run (Size 0) (brokenBody c))))"
    using run_brokenBody [OF assms(3) lc] by (simp add: prod_eq_iff)
  have "length (brokenBody c) < 2 ^ 32" using room by simp
  from feed_chunks_run [OF _ _ _ this run]
  show "\<exists>ev rest. feed_chunks STATE_IS_CHUNKED (brokenBody c) = Some (STATE_IS_ERROR, ev, rest)" by auto
qed

lemma close_at_end_breaks_chunks_witness:
  "(\<exists>h'. performCalls halfKernel someDate 0 [Write [104, 105], End [] True] (freshResponse False) = Some h' \<and>
      appends 0 (renderResponse 200 (ascii ''OK'') [dateField someDate, (ascii ''Transfer-Encoding'', ascii ''chunked'')] @ brokenBody [104, 105])
        (io (freshResponse False)) (io h')) \<and>
    (\<exists>ev rest. feed_chunks STATE_IS_CHUNKED (brokenBody [104, 105]) = Some (STATE_IS_ERROR, ev, rest))"
proof (rule close_at_end_breaks_chunks)
  show "roomFor halfKernel 0 (length (renderResponse 200 (ascii ''OK'') [dateField someDate, (ascii ''Transfer-Encoding'', ascii ''chunked'')] @
      brokenBody [104, 105])) (io (freshResponse False))"
    by (rule ready_freshResponse) code_simp
qed (simp_all add: fresh_freshResponse)

text \<open>Lengths of 4 GB and more lose their high bits on the way to the socket.\<close>

lemma toInt_wraps: "2 ^ 32 \<le> n \<Longrightarrow> n < 2 ^ 32 + 2 ^ 31 \<Longrightarrow> toInt n = int (n - 2 ^ 32)"
proof -
  assume n: "2 ^ 32 \<le> n" "n < 2 ^ 32 + 2 ^ 31"
  obtain m where m: "n = 2 ^ 32 + m" using n(1) by (metis le_iff_add)
  have z: "(word_of_nat (2 ^ 32) :: u32) = 0" by simp
  have "(word_of_nat n :: u32) = word_of_nat m" unfolding m of_nat_add z by simp
  then have "toInt n = toInt m" by (simp only: toInt_def)
  moreover have "m < 2 ^ 31" using n(2) m by linarith
  moreover have "n - 2 ^ 32 = m" using m by simp
  ultimately show ?thesis using toInt_small [of m] by (simp only:)
qed

lemma writeChunk_begun:
  assumes "resp h = begun d" and "data \<noteq> []"
  shows "map_option snd (writeChunk sys date s data h) =
    (if methodHead d then Some h else putAll sys s [crlf] h \<bind> (\<lambda>h. writeUnsignedHex sys s (word_of_nat (length data)) h \<bind>
      (\<lambda>h. putAll sys s [crlf] h \<bind> (\<lambda>h. put sys s data h \<bind>
        (\<lambda>(failed, h). Some (if failed then armTimeout HTTP_TIMEOUT_S h else h))))))"
  using assms
  by (simp add: writeChunk_def writeStatus_def beginWrite_def map_bind case_prod_beta cong: bind_option_cong)


definition begunResponse :: "nat response" where
  "begunResponse = \<lparr>io = freshLoop, resp = begun (freshData False), idleTimeout = 0\<rparr>"


end
