(* ===== verification/WebSocketUpgrade.thy ===== *)
theory WebSocketUpgrade
  imports HttpResponseText
begin

text \<open>
  The handshake from both ends: what \<open>HttpResponse::upgrade\<close> answers is accepted by the client of
  native/uwebsockets/WebSocketClientHandshake.h, except for the compression, about which the two sides
  can disagree.
\<close>

section \<open>The response\<close>

definition chosenProtocol :: "bytes \<Rightarrow> bytes" where
  "chosenProtocol offered = (case findFrom 44 offered 0 of None \<Rightarrow> offered | Some i \<Rightarrow> take i offered)"

definition agreedExtensions :: "u16 \<Rightarrow> bytes \<Rightarrow> bool \<times> int \<times> int \<times> bytes" where
  "agreedExtensions configured extensions =
     (if extensions \<noteq> [] \<and> configured \<noteq> DISABLED
      then negotiateCompression True (wantedCompressionWindow configured) (wantedInflationWindow configured) extensions
      else (False, 0, 0, []))"

definition switchFields :: "u16 \<Rightarrow> bytes \<Rightarrow> bytes \<Rightarrow> bytes \<Rightarrow> (bytes \<times> bytes) list" where
  "switchFields configured key protocol extensions =
     [(ascii ''Upgrade'', ascii ''websocket''), (ascii ''Connection'', ascii ''Upgrade''),
      (ascii ''Sec-WebSocket-Accept'', generate key)] @
     (if protocol \<noteq> [] then [(ascii ''Sec-WebSocket-Protocol'', chosenProtocol protocol)] else []) @
     (case agreedExtensions configured extensions of
        (neg, _, _, response) \<Rightarrow> if neg then [(ascii ''Sec-WebSocket-Extensions'', response)] else [])"

lemma does_optional:
  assumes "statusCalled (resp h)"
  shows "does sys s (\<lambda>h. if b then writeHeader sys s k v h else Some h) h (if b then fieldLine (k, v) else []) (resp h)"
proof (cases b)
  case True
  show ?thesis by (rule does_cong [OF does_writeHeader]) (use True assms in simp_all)
next
  case False
  show ?thesis by (rule does_cong [OF does_return]) (use False in simp_all)
qed

lemma does_field: "resp h = d \<Longrightarrow> statusCalled d \<Longrightarrow> does sys s (writeHeader sys s k v) h (fieldLine (k, v)) d"
  by (rule does_cong [OF does_writeHeader]) simp_all

lemma upgrade_emits:
  fixes h :: "'s response" and configured :: u16 and key protocol extensions date :: bytes
  assumes "fresh (resp h)"
  defines "answer \<equiv> renderResponse 101 (ascii ''Switching Protocols'') (switchFields configured key protocol extensions @ [dateField date])"
  assumes "roomFor sys s (length answer) (io h)"
  shows "\<exists>r h'. upgradeResponse sys date s configured key protocol extensions h = Some (r, h') \<and> appends s answer (io h) (io h') \<and>
    hasResponded h' \<and> fst r = fst (agreedExtensions configured extensions)"
proof -
  obtain neg c i response where a: "agreedExtensions configured extensions = (neg, c, i, response)"
    by (metis prod_cases4)
  let ?d = "called (resp h)"
  let ?stat = "ascii ''HTTP/1.1 '' @ ascii ''101 Switching Protocols'' @ crlf"
  let ?p = "if protocol \<noteq> [] then fieldLine (ascii ''Sec-WebSocket-Protocol'', chosenProtocol protocol) else []"
  let ?x = "if neg then fieldLine (ascii ''Sec-WebSocket-Extensions'', response) else []"
  let ?f = "\<lambda>h. writeStatus sys s (ascii ''101 Switching Protocols'') h \<bind>
    (\<lambda>h. writeHeader sys s (ascii ''Upgrade'') (ascii ''websocket'') h \<bind>
    (\<lambda>h. writeHeader sys s (ascii ''Connection'') (ascii ''Upgrade'') h \<bind>
    (\<lambda>h. writeHeader sys s (ascii ''Sec-WebSocket-Accept'') (generate key) h \<bind>
    (\<lambda>h. (if protocol \<noteq> [] then writeHeader sys s (ascii ''Sec-WebSocket-Protocol'') (chosenProtocol protocol) h else Some h) \<bind>
    (\<lambda>h. if neg then writeHeader sys s (ascii ''Sec-WebSocket-Extensions'') response h else Some h)))))"
  have st: "does sys s (writeStatus sys s (ascii ''101 Switching Protocols'')) h ?stat ?d"
    by (rule does_cong [OF does_writeStatus]) (use assms(1) in \<open>simp_all add: statusText_def fresh_def\<close>)
  have opt: "does sys s (\<lambda>h. if b then writeHeader sys s k v h else Some h) h1 (if b then fieldLine (k, v) else []) ?d"
    if "resp h1 = ?d" for h1 :: "'s response" and b k v
    using does_optional [of h1 sys s b k v] that by simp
  have fld: "does sys s (writeHeader sys s k v) h1 (fieldLine (k, v)) ?d" if "resp h1 = ?d" for h1 :: "'s response" and k v
    by (rule does_field [OF that]) simp
  let ?t = "?stat @ fieldLine (ascii ''Upgrade'', ascii ''websocket'') @ fieldLine (ascii ''Connection'', ascii ''Upgrade'') @
    fieldLine (ascii ''Sec-WebSocket-Accept'', generate key) @ ?p @ ?x"
  have does: "does sys s ?f h ?t ?d"
    by (rule does_bind [OF st], rule does_bind, erule fld, rule does_bind, erule fld, rule does_bind, erule fld,
        rule does_bind, erule opt, erule opt)
  let ?len = "lengthField date 0 False ?d"
  have "digits 101 = ascii ''101''" by code_simp
  then have shape: "?t @ ?len = answer"
    using assms(1) by (simp add: answer_def renderResponse_def switchFields_def a lengthField_def fresh_def dateField_def)
  have "roomFor sys s (length ?t + length ?len) (io h)" using assms(3) unfolding shape [symmetric] length_append .
  then obtain st1 t1 where f1: "?f h = Some \<lparr>io = st1, resp = ?d, idleTimeout = t1\<rparr>"
    and e1: "appends s ?t (io h) st1" and r1: "roomFor sys s (length ?len) st1"
    by (rule doesD [OF does]) blast
  let ?h1 = "\<lparr>io = st1, resp = ?d, idleTimeout = t1\<rparr>"
  have nw: "\<not> writeCalled (resp ?h1)" using assms(1) by (simp add: fresh_def)
  have open0: "openText False (resp ?h1) = []" "bodyOf [] (resp ?h1) = []" "sizeOf [] 0 = 0"
    by (simp_all add: openText_def closeField_def bodyOf_def sizeOf_def)
  have r2: "roomFor sys s (length (openText False (resp ?h1) @ lengthField date (sizeOf [] 0) False (resp ?h1) @ bodyOf [] (resp ?h1)) + 0) (io ?h1)"
    using r1 open0 by simp
  obtain w failed h' where f2: "internalEnd sys date s [] 0 False False False ?h1 = Some (w = length (bodyOf [] (resp ?h1)) \<and> \<not> failed, h')"
    and e2: "appends s (openText False (resp ?h1) @ lengthField date (sizeOf [] 0) False (resp ?h1) @ take w (bodyOf [] (resp ?h1))) (io ?h1) (io h')"
    and d2: "resp h' = afterBody False [] 0 w (resp ?h1)"
    by (rule internalEnd_length [OF nw r2]) blast
  have "upgradeResponse sys date s configured key protocol extensions h = ?f h \<bind> (\<lambda>h. internalEnd sys date s [] 0 False False False h \<bind>
      (\<lambda>(_, h). Some ((neg, if neg then agreedOptions configured c i else DISABLED), h)))"
    using a unfolding upgradeResponse_def agreedExtensions_def [symmetric] chosenProtocol_def [symmetric]
    by (simp add: Let_def)
  also have "\<dots> = Some ((neg, if neg then agreedOptions configured c i else DISABLED), h')" unfolding f1 using f2 by simp
  finally have "upgradeResponse sys date s configured key protocol extensions h =
      Some ((neg, if neg then agreedOptions configured c i else DISABLED), h')" .
  moreover have "appends s answer (io h) (io h')" using emits_trans [OF e1, of ?len "io h'"] e2 open0 unfolding shape by simp
  moreover have "hasResponded h'" using open0 by (simp add: hasResponded_def d2 afterBody_def Let_def markDone_def)
  ultimately show ?thesis using a by auto
qed

section \<open>What the client makes of it\<close>

text \<open>\<open>named k q\<close>: a field that was written with the name \<open>k\<close> is found under the name \<open>q\<close>.\<close>

definition named :: "string \<Rightarrow> string \<Rightarrow> bool" where
  "named k q \<longleftrightarrow> iequals (map tolower (trim (ascii k))) (ascii q)"

lemma named_table [simp]:
  "named ''Upgrade'' ''upgrade'' = True" "named ''Upgrade'' ''connection'' = False" "named ''Upgrade'' ''sec-websocket-accept'' = False" "named ''Upgrade'' ''sec-websocket-protocol'' = False" "named ''Upgrade'' ''sec-websocket-extensions'' = False"
  "named ''Connection'' ''upgrade'' = False" "named ''Connection'' ''connection'' = True" "named ''Connection'' ''sec-websocket-accept'' = False" "named ''Connection'' ''sec-websocket-protocol'' = False" "named ''Connection'' ''sec-websocket-extensions'' = False"
  "named ''Sec-WebSocket-Accept'' ''upgrade'' = False" "named ''Sec-WebSocket-Accept'' ''connection'' = False" "named ''Sec-WebSocket-Accept'' ''sec-websocket-accept'' = True" "named ''Sec-WebSocket-Accept'' ''sec-websocket-protocol'' = False" "named ''Sec-WebSocket-Accept'' ''sec-websocket-extensions'' = False"
  "named ''Sec-WebSocket-Protocol'' ''upgrade'' = False" "named ''Sec-WebSocket-Protocol'' ''connection'' = False" "named ''Sec-WebSocket-Protocol'' ''sec-websocket-accept'' = False" "named ''Sec-WebSocket-Protocol'' ''sec-websocket-protocol'' = True" "named ''Sec-WebSocket-Protocol'' ''sec-websocket-extensions'' = False"
  "named ''Sec-WebSocket-Extensions'' ''upgrade'' = False" "named ''Sec-WebSocket-Extensions'' ''connection'' = False" "named ''Sec-WebSocket-Extensions'' ''sec-websocket-accept'' = False" "named ''Sec-WebSocket-Extensions'' ''sec-websocket-protocol'' = False" "named ''Sec-WebSocket-Extensions'' ''sec-websocket-extensions'' = True"
  "named ''Date'' ''upgrade'' = False" "named ''Date'' ''connection'' = False" "named ''Date'' ''sec-websocket-accept'' = False" "named ''Date'' ''sec-websocket-protocol'' = False" "named ''Date'' ''sec-websocket-extensions'' = False"
  by code_simp+

definition found :: "string \<Rightarrow> (string \<times> bytes) list \<Rightarrow> bytes" where
  "found q fs = (case List.find (\<lambda>f. named (fst f) q) fs of Some f \<Rightarrow> trim (snd f) | None \<Rightarrow> [])"

lemma findHeaderIn_found:
  "headers rh = parsedFields (map (\<lambda>(k, v). (ascii k, v)) fs) \<Longrightarrow> findHeaderIn rh (ascii q) = found q fs"
proof -
  have "List.find (\<lambda>h. iequals (fst h) (ascii q)) (parsedFields (map (\<lambda>(k, v). (ascii k, v)) fs)) =
      map_option (\<lambda>f. (map tolower (trim (ascii (fst f))), trim (snd f))) (List.find (\<lambda>f. named (fst f) q) fs)"
    by (induction fs) (auto simp: parsedFields_def named_def)
  then show "headers rh = parsedFields (map (\<lambda>(k, v). (ascii k, v)) fs) \<Longrightarrow> findHeaderIn rh (ascii q) = found q fs"
    by (auto simp: findHeaderIn_def found_def split: option.split)
qed

definition switchList :: "u16 \<Rightarrow> bytes \<Rightarrow> bytes \<Rightarrow> bytes \<Rightarrow> bytes \<Rightarrow> (string \<times> bytes) list" where
  "switchList configured key protocol extensions date =
     [(''Upgrade'', ascii ''websocket''), (''Connection'', ascii ''Upgrade''), (''Sec-WebSocket-Accept'', generate key)] @
     (if protocol \<noteq> [] then [(''Sec-WebSocket-Protocol'', chosenProtocol protocol)] else []) @
     (case agreedExtensions configured extensions of
        (neg, _, _, response) \<Rightarrow> if neg then [(''Sec-WebSocket-Extensions'', response)] else []) @
     [(''Date'', take 29 date)]"

lemma switchList_fields:
  "switchFields configured key protocol extensions @ [dateField date] =
    map (\<lambda>(k, v). (ascii k, v)) (switchList configured key protocol extensions date)"
  by (simp add: switchFields_def switchList_def dateField_def split: prod.split)

lemma find_switch:
  assumes "headers rh = parsedFields (switchFields configured key protocol extensions @ [dateField date])"
  shows "findHeaderIn rh (ascii ''upgrade'') = trim (ascii ''websocket'')"
    and "findHeaderIn rh (ascii ''connection'') = trim (ascii ''Upgrade'')"
    and "findHeaderIn rh (ascii ''sec-websocket-accept'') = trim (generate key)"
    and "findHeaderIn rh (ascii ''sec-websocket-protocol'') = trim (if protocol \<noteq> [] then chosenProtocol protocol else [])"
    and "findHeaderIn rh (ascii ''sec-websocket-extensions'') =
      (case agreedExtensions configured extensions of (neg, _, _, response) \<Rightarrow> if neg then trim response else [])"
proof -
  have t: "trim [] = []" by (simp add: trim_def trimFront_def trimBack_def)
  note f = findHeaderIn_found [OF assms [unfolded switchList_fields]]
  show "findHeaderIn rh (ascii ''upgrade'') = trim (ascii ''websocket'')"
    "findHeaderIn rh (ascii ''connection'') = trim (ascii ''Upgrade'')"
    "findHeaderIn rh (ascii ''sec-websocket-accept'') = trim (generate key)"
    "findHeaderIn rh (ascii ''sec-websocket-protocol'') = trim (if protocol \<noteq> [] then chosenProtocol protocol else [])"
    "findHeaderIn rh (ascii ''sec-websocket-extensions'') =
      (case agreedExtensions configured extensions of (neg, _, _, response) \<Rightarrow> if neg then trim response else [])"
    unfolding f by (simp_all add: found_def switchList_def t split: prod.split del: ascii_Cons)
qed

text \<open>Values that hold no line end.\<close>

lemma lineFree_append [simp]: "lineFree (a @ b) \<longleftrightarrow> lineFree a \<and> lineFree b"
  by (auto simp: lineFree_def)

lemma lineFree_visible: "visible v \<Longrightarrow> lineFree v"
  using visible_no_blank by (simp add: lineFree_def)

lemma lineFree_negotiated:
  assumes "negotiateCompression True wc wi offer = (neg, c, i, response)"
  shows "lineFree response"
proof -
  have n: "lineFree (to_string k)" for k using visible_to_string lineFree_visible by blast
  have s: "lineFree (ascii s)" if "s \<in> set [''permessage-deflate'', ''x-webkit-deflate-frame'', ''; no_context_takeover'',
      ''; max_window_bits='', ''; client_no_context_takeover'', ''; client_max_window_bits='', ''; server_no_context_takeover'',
      ''; server_max_window_bits='']" for s
  proof -
    have "\<forall>s \<in> set [''permessage-deflate'', ''x-webkit-deflate-frame'', ''; no_context_takeover'',
      ''; max_window_bits='', ''; client_no_context_takeover'', ''; client_max_window_bits='', ''; server_no_context_takeover'',
      ''; server_max_window_bits='']. lineFree (ascii s)" by code_simp
    then show ?thesis using that by blast
  qed
  have nil: "lineFree []" by (simp add: lineFree_def)
  have w: "lineFree r" if "negotiateWebKit ep wc wi = Some (c, i, r)" for ep c i r
    using that by (auto simp: negotiateWebKit_def Let_def n s nil simp del: ascii_Cons split: if_splits)
  have d: "lineFree r" if "negotiateStandard ep wc wi = (c, i, r)" for ep c i r
    using that by (auto simp: negotiateStandard_def Let_def n s nil simp del: ascii_Cons split: if_splits)
  show ?thesis using assms w d
    by (auto simp: negotiateCompression_def Let_def nil split: if_splits option.splits prod.splits)
qed

section \<open>The handshake completes\<close>

lemma generate_visible: "length key = 24 \<Longrightarrow> visible (generate key) \<and> length (generate key) = 28"
proof -
  assume "length key = 24"
  then have "generate key = base64Spec (sha1Hash (key @ websocketGuid)) \<and> length (sha1Hash (key @ websocketGuid)) = 20"
    by (rule generate_spec)
  then show ?thesis using visible_base64 base64Spec_bytes [of "sha1Hash (key @ websocketGuid)"] by simp
qed

lemma trim_visible: "visible v \<Longrightarrow> trim v = v"
proof -
  assume v: "visible v"
  have "c \<noteq> SP \<and> c \<noteq> HTAB \<and> c \<noteq> CR" if "c \<in> set v" for c using visible_no_blank [OF v] that by metis
  then have "trimFront v = v" "trimBack v = v"
    by (auto simp: trimFront_def trimBack_def dropWhile_eq_self_iff hd_rev rev_swap)
  then show "trim v = v" by (simp add: trim_def)
qed

lemma chosenProtocol_eq: "chosenProtocol p = takeWhile (\<lambda>c. c \<noteq> 44) p"
  by (rule findFrom_cases [of 44 p])
     (auto simp: chosenProtocol_def takeWhile_neq takeWhile_neq_stop)

lemma trimFront_spaces: "trimFront (dropWhile (\<lambda>c. c = SP) v) = trimFront v"
  by (induction v) (auto simp: trimFront_def)

text \<open>The first protocol of a list is one of the list, also when the list is oddly spaced.\<close>

lemma first_protocol_valid: "validateProtocol p (trim (chosenProtocol p))"
proof (cases "trim (chosenProtocol p) = []")
  case True
  then show ?thesis by (subst validateProtocol.simps) simp
next
  case False
  let ?q = "takeWhile (\<lambda>c. c \<noteq> 44) p" and ?r = "dropWhile (\<lambda>c. c \<noteq> 44) p"
  have q: "trim ?q \<noteq> []" using False by (simp add: chosenProtocol_eq)
  have no: "44 \<notin> set ?q" by (auto dest: set_takeWhileD)
  have "dropWhile (\<lambda>c. c = SP) ?q \<noteq> []"
  proof
    assume "dropWhile (\<lambda>c. c = SP) ?q = []"
    then have "trimFront ?q = []" using trimFront_spaces [of ?q] by (simp add: trimFront_def)
    then show False using q by (simp add: trim_def trimBack_def)
  qed
  then obtain c cs where d: "dropWhile (\<lambda>c. c = SP) ?q = c # cs" by (cases "dropWhile (\<lambda>c. c = SP) ?q") auto
  have sub: "set (dropWhile (\<lambda>c. c = SP) ?q) \<subseteq> set ?q" using set_dropWhileD by fast
  have "dropWhile (\<lambda>c. c = 44 \<or> c = SP) ?q = dropWhile (\<lambda>c. c = SP) ?q"
    using no by (intro dropWhile_cong) auto
  then have dq: "dropWhile (\<lambda>c. c = 44 \<or> c = SP) ?q = c # cs" using d by simp
  have app: "dropWhile (\<lambda>c. c = 44 \<or> c = SP) (a @ b) = dropWhile (\<lambda>c. c = 44 \<or> c = SP) a @ b"
    if "dropWhile (\<lambda>c. c = 44 \<or> c = SP) a \<noteq> []" for a b :: bytes
    using that by (induction a) auto
  have "dropWhile (\<lambda>c. c = 44 \<or> c = SP) (?q @ ?r) = (c # cs) @ ?r" using app [of ?q ?r] dq by simp
  then have w: "dropWhile (\<lambda>c. c = 44 \<or> c = SP) p = (c # cs) @ ?r" by (simp only: takeWhile_dropWhile_id)
  have no': "44 \<notin> set (c # cs)" using no sub d by auto
  have t: "takeWhile (\<lambda>c. c \<noteq> 44) ((c # cs) @ ?r) = c # cs"
  proof (cases ?r)
    case Nil
    then show ?thesis using takeWhile_neq [OF no'] by (simp only: append_Nil2)
  next
    case (Cons x xs)
    then have "x = 44" using hd_dropWhile [of "\<lambda>c. c \<noteq> 44" p] by simp
    then show ?thesis using takeWhile_neq_stop [OF no', of xs] Cons by (simp only:)
  qed
  have "trim (c # cs) = trim ?q" unfolding d [symmetric] trim_def trimFront_spaces ..
  moreover have "p \<noteq> []" using q by (auto simp: trim_def trimFront_def trimBack_def)
  ultimately show ?thesis using False unfolding chosenProtocol_eq
    by (subst validateProtocol.simps) (simp add: w t del: append_Cons)
qed

lemma switchFields_ok:
  assumes "length key = 24" and "lineFree protocol" and "lineFree date"
  shows "list_all responseField (switchFields configured key protocol extensions @ [dateField date])"
proof -
  obtain neg c i response where a: "agreedExtensions configured extensions = (neg, c, i, response)"
    by (metis prod_cases4)
  have fixed: "responseField (ascii ''Upgrade'', ascii ''websocket'')" "responseField (ascii ''Connection'', ascii ''Upgrade'')"
    by code_simp+
  have name: "CR \<notin> set (ascii k) \<and> 58 \<notin> set (ascii k)"
    if "k \<in> set [''Sec-WebSocket-Accept'', ''Sec-WebSocket-Protocol'', ''Sec-WebSocket-Extensions'']" for k
  proof -
    have "\<forall>k \<in> set [''Sec-WebSocket-Accept'', ''Sec-WebSocket-Protocol'', ''Sec-WebSocket-Extensions''].
      CR \<notin> set (ascii k) \<and> 58 \<notin> set (ascii k)" by code_simp
    then show ?thesis using that by blast
  qed
  have field: "responseField (ascii k, v)"
    if "lineFree v" "k \<in> set [''Sec-WebSocket-Accept'', ''Sec-WebSocket-Protocol'', ''Sec-WebSocket-Extensions'']" for k v
    using name [OF that(2)] that(1) by (intro responseField_ascii) (auto simp: lineFree_def)
  have vals: "lineFree (generate key)" "lineFree (chosenProtocol protocol)" "neg \<Longrightarrow> lineFree response"
    using generate_visible [OF assms(1)] lineFree_visible assms(2) lineFree_negotiated a
    by (auto simp: chosenProtocol_eq lineFree_def agreedExtensions_def dest: set_takeWhileD split: if_splits)
  show ?thesis
    using fixed vals field serverFields(1) [OF assms(3)] by (simp add: switchFields_def a del: ascii_Cons)
qed

text \<open>C10. The client accepts what the server answers to its request: a complete response with status 101 that ends where the server ended
  it, whatever follows; it names the upgrade, carries the accept value of the client's key and a protocol out of the offered
  list; and when the server agrees on no compression, the client opens without any.\<close>
theorem client_accepts_upgrade:
  fixes h :: "'s response" and configured :: u16 and key protocol extensions date :: bytes
  assumes "fresh (resp h)" and "length key = 24" and "lineFree protocol" and "lineFree date"
  defines "answer \<equiv> renderResponse 101 (ascii ''Switching Protocols'') (switchFields configured key protocol extensions @ [dateField date])"
  assumes "roomFor sys s (length answer) (io h)"
  shows "\<exists>neg opts h' rh. upgradeResponse sys date s configured key protocol extensions h = Some ((neg, opts), h') \<and>
    appends s answer (io h) (io h') \<and> parseResponse (answer @ rest) emptyHead = (True, rh) \<and>
    complete rh \<and> headerBytes rh = length answer \<and> status rh = 101 \<and>
    hasToken (findHeaderIn rh (ascii ''upgrade'')) (ascii ''websocket'') \<and>
    hasToken (findHeaderIn rh (ascii ''connection'')) (ascii ''upgrade'') \<and>
    validateAccept key (findHeaderIn rh (ascii ''sec-websocket-accept'')) \<and>
    validateProtocol protocol (findHeaderIn rh (ascii ''sec-websocket-protocol'')) \<and>
    (neg \<or> acceptCompressionResponse wanted (findHeaderIn rh (ascii ''sec-websocket-extensions'')) = withoutCompression)"
proof -
  obtain r h' where f: "upgradeResponse sys date s configured key protocol extensions h = Some (r, h')"
    and e: "appends s answer (io h) (io h')" and neg: "fst r = fst (agreedExtensions configured extensions)"
    using upgrade_emits [OF assms(1)] assms(6) unfolding answer_def by blast
  obtain neg c i response where a: "agreedExtensions configured extensions = (neg, c, i, response)"
    by (metis prod_cases4)
  let ?hs = "switchFields configured key protocol extensions @ [dateField date]"
  have fixed: "lineFree (ascii ''Switching Protocols'')" "trim (ascii ''Switching Protocols'') = ascii ''Switching Protocols''"
    by code_simp+
  note ok = switchFields_ok [OF assms(2-4), of configured extensions]
  define rh where "rh = \<lparr>complete = True, status = 101, reason = ascii ''Switching Protocols'', headers = parsedFields ?hs, headerBytes = length answer\<rparr>"
  have p: "parseResponse (answer @ rest) emptyHead = (True, rh)"
    using response_roundtrip [OF _ _ fixed(1,2) ok, of 101 rest] by (simp add: answer_def rh_def parsedFields_def)
  have "headers rh = parsedFields ?hs" by (simp add: rh_def)
  note find = find_switch [OF this]
  have "hasToken (trim (ascii ''websocket'')) (ascii ''websocket'')" "hasToken (trim (ascii ''Upgrade'')) (ascii ''upgrade'')"
    by code_simp+
  moreover have "validateAccept key (trim (generate key))"
    using generate_visible [OF assms(2)] trim_visible by (simp add: validateAccept_def)
  moreover have "validateProtocol protocol (trim (if protocol \<noteq> [] then chosenProtocol protocol else []))"
    using first_protocol_valid [of protocol] by (cases "protocol = []") (simp_all add: chosenProtocol_eq)
  moreover have "neg \<or> acceptCompressionResponse wanted (findHeaderIn rh (ascii ''sec-websocket-extensions'')) = withoutCompression"
    unfolding find a by (auto simp: acceptCompressionResponse_def)
  moreover have "complete rh" "headerBytes rh = length answer" "status rh = 101" by (simp_all add: rh_def)
  ultimately have "complete rh \<and> headerBytes rh = length answer \<and> status rh = 101 \<and>
    hasToken (findHeaderIn rh (ascii ''upgrade'')) (ascii ''websocket'') \<and>
    hasToken (findHeaderIn rh (ascii ''connection'')) (ascii ''upgrade'') \<and>
    validateAccept key (findHeaderIn rh (ascii ''sec-websocket-accept'')) \<and>
    validateProtocol protocol (findHeaderIn rh (ascii ''sec-websocket-protocol'')) \<and>
    (neg \<or> acceptCompressionResponse wanted (findHeaderIn rh (ascii ''sec-websocket-extensions'')) = withoutCompression)"
    unfolding find(1-4) by blast
  moreover have "r = (neg, snd r)" using neg a by (simp add: prod_eq_iff)
  ultimately show ?thesis using f e p by metis
qed

lemma client_accepts_upgrade_witness:
  "\<exists>neg opts h' rh. upgradeResponse halfKernel someDate 0 0 (replicate 24 65) (ascii ''a, b'') [] (freshResponse False) = Some ((neg, opts), h') \<and>
    appends 0 (renderResponse 101 (ascii ''Switching Protocols'') (switchFields 0 (replicate 24 65) (ascii ''a, b'') [] @ [dateField someDate]))
      (io (freshResponse False)) (io h') \<and>
    parseResponse (renderResponse 101 (ascii ''Switching Protocols'') (switchFields 0 (replicate 24 65) (ascii ''a, b'') [] @ [dateField someDate]) @ [129])
      emptyHead = (True, rh) \<and>
    complete rh \<and>
    headerBytes rh = length (renderResponse 101 (ascii ''Switching Protocols'') (switchFields 0 (replicate 24 65) (ascii ''a, b'') [] @ [dateField someDate])) \<and>
    status rh = 101 \<and>
    hasToken (findHeaderIn rh (ascii ''upgrade'')) (ascii ''websocket'') \<and>
    hasToken (findHeaderIn rh (ascii ''connection'')) (ascii ''upgrade'') \<and>
    validateAccept (replicate 24 65) (findHeaderIn rh (ascii ''sec-websocket-accept'')) \<and>
    validateProtocol (ascii ''a, b'') (findHeaderIn rh (ascii ''sec-websocket-protocol'')) \<and>
    (neg \<or> acceptCompressionResponse 1 (findHeaderIn rh (ascii ''sec-websocket-extensions'')) = withoutCompression)"
proof (rule client_accepts_upgrade)
  show "roomFor halfKernel 0 (length (renderResponse 101 (ascii ''Switching Protocols'')
      (switchFields 0 (replicate 24 65) (ascii ''a, b'') [] @ [dateField someDate]))) (io (freshResponse False))"
  proof (rule ready_freshResponse)
    have l: "length (generate (replicate 24 65)) = 28" using generate_visible [of "replicate 24 65"] by simp
    have "length (chosenProtocol (ascii ''a, b'')) = 1" "length (take 29 someDate) = 29" "digits 101 = ascii ''101''" by code_simp+
    then show "length (renderResponse 101 (ascii ''Switching Protocols'')
        (switchFields 0 (replicate 24 65) (ascii ''a, b'') [] @ [dateField someDate])) < 400"
      using l by (simp add: renderResponse_def switchFields_def agreedExtensions_def fieldLine_def dateField_def crlf_def)
  qed
  show "lineFree (ascii ''a, b'')" by code_simp
qed (simp_all add: fresh_freshResponse lineFree_someDate)

section \<open>Where the two sides disagree\<close>

text \<open>The client and the server of the library do not always agree on the compression between them. A client with the shared
  decompressor asks the server to forget its window; the server keeps it, says nothing, and the client opens without a window
  while the server compresses with one of 15 bits. When the server compresses with fewer bits, or with fewer than the
  client's own full window, it says so, and the client refuses its answer as unasked for.\<close>
theorem peers_disagree_on_compression:
  "negotiateCompression True (wantedCompressionWindow DEDICATED_COMPRESSOR_256KB) 0 (deflateOffer (SHARED_COMPRESSOR OR SHARED_DECOMPRESSOR)) =
     (True, 15, 0, ascii ''permessage-deflate; client_no_context_takeover'') \<and>
   acceptCompressionResponse (SHARED_COMPRESSOR OR SHARED_DECOMPRESSOR) (ascii ''permessage-deflate; client_no_context_takeover'') =
     \<lparr>ok = True, compression = True, options = SHARED_COMPRESSOR OR SHARED_DECOMPRESSOR\<rparr> \<and>
   negotiateCompression True (wantedCompressionWindow DEDICATED_COMPRESSOR_3KB) 0 (deflateOffer (SHARED_COMPRESSOR OR SHARED_DECOMPRESSOR)) =
     (True, 9, 0, ascii ''permessage-deflate; client_no_context_takeover; server_max_window_bits=9'') \<and>
   acceptCompressionResponse (SHARED_COMPRESSOR OR SHARED_DECOMPRESSOR)
     (ascii ''permessage-deflate; client_no_context_takeover; server_max_window_bits=9'') = refused \<and>
   negotiateCompression True (wantedCompressionWindow DEDICATED_COMPRESSOR_32KB) 0 (deflateOffer (SHARED_COMPRESSOR OR push_bit 8 15)) =
     (True, 12, 0, ascii ''permessage-deflate; client_no_context_takeover; server_max_window_bits=12'') \<and>
   acceptCompressionResponse (SHARED_COMPRESSOR OR push_bit 8 15)
     (ascii ''permessage-deflate; client_no_context_takeover; server_max_window_bits=12'') = refused"
  by code_simp

end
