(* ===== verification/Spec2Isabelle.thy ===== *)
theory Spec2Isabelle
  imports HttpDesync HttpRouterMap Multipart QueryParser SniTree TopicReentry WebSocketContext WebSocketUpgrade
begin

text \<open>
  Verification library of uws: the HTTP and WebSocket engine (native/uwebsockets) and parts of the
  event loop (native/usockets).

  \<^bold>\<open>How the parts of the program interact.\<close> Bytes of a connection arrive one network segment at a
  time. The request parser (HttpParser.h) finds a head, hands it to the router (HttpRouter.h), and
  passes the body on, through the chunk decoder (ChunkedEncoding.h) when it is chunked. A handler
  answers through the response (HttpResponse.h), which writes to the socket (AsyncSocket.h): to the
  kernel, to the cork buffer of the loop or to the backpressure of the socket. An upgrade answers the
  handshake (WebSocketHandshake.h, WebSocketExtensions.h) and from then on the frame parser
  (WebSocketProtocol.h) drives the callbacks of WebSocketContext.h, which may publish to a topic tree
  (TopicTree.h). A client builds the request of the handshake and checks the answer
  (WebSocketClientHandshake.h). Contexts with several certificates find them by server name
  (sni_tree.cpp).

  \<^bold>\<open>Theories and what they model.\<close>
  \<^item> Prelude: bytes, machine integers, buffers whose reads and writes outside are \<open>None\<close>, and the locale
    \<open>segment_parser\<close>: a parser that is fed segments against a machine that is fed bytes.
  \<^item> ChunkedEncoding: ChunkedEncoding.h. The state is one 64 bit word, as in the code; the machine
    \<open>chunk_step\<close> is the reference. On input the machine takes, the decoder does what it does on every
    segmentation; it gives back every encoded body, refuses what the machine refuses and never reads outside. Size lines
    that are malformed in other ways (\<open>Outside\<close>) are left to theorems of their own.
  \<^item> WordBytes, BloomFilter, ProxyParser, HttpHead, HttpHeadText, HttpParser, HttpParserSafety, HttpRequests,
    HttpDesync: BloomFilter.h, ProxyParser.h and HttpParser.h. HttpHead has the scanners over a receive
    buffer with its fence, HttpHeadText proves them equal to a parser of texts, HttpParser has
    \<open>fenceAndConsumePostPadded\<close> and \<open>consumePostPadded\<close> with the fallback buffer, HttpParserSafety proves that no access leaves
    the buffer and the invariant of the state, HttpRequests that requests are refused or delivered the same however they
    are cut and that the fields of an accepted request which handlers see have one meaning, HttpDesync what a chunk size near
    the limit does.
  \<^item> WebSocketFormat, WebSocketProtocol, WebSocketStream, WebSocketContext: WebSocketProtocol.h, the callbacks of
    WebSocketContext.h and WebSocketData.h. Frames are parsed in place in a padded buffer; WebSocketStream relates the parser to a
    machine on bytes, WebSocketContext adds messages, control frames, closing and the round trip. The refinement covers
    every stream of an uncompressed connection; on a compressed one it ends at a compressed frame with an extended length,
    whose header the code does not parse the same when it is cut.
  \<^item> AsyncSocket: AsyncSocket.h, AsyncSocketData.h and the write of socket.c. The locale \<open>byte_queue\<close> is the
    contract of the backpressure buffer. The kernel is a function that decides what it takes of each write.
  \<^item> HttpResponse, HttpResponseText: HttpResponse.h and HttpResponseData.h over AsyncSocket. \<open>does\<close> says what an operation
    appends to the connection; HttpResponseText reads whole responses back with the parsers of the other side.
  \<^item> StringView, QueryParser, Multipart: string searches, QueryParser.h, Multipart.h with MessageParser.h.
  \<^item> HttpRouter, HttpRouterTree, HttpRouterMap: HttpRouter.h as a tree of nodes with handler numbers; the tree is the
    map of its routes, and matching offers exactly the routes of the pattern in order of priority.
  \<^item> WebSocketHandshake, WebSocketExtensions, WebSocketClient, WebSocketClientResponse, WebSocketUpgrade: the accept value against SHA-1 and
    base64 as their standards define them, the negotiation of compression, the client, and the handshake from
    both ends.
  \<^item> TopicTree, TopicQueues, TopicService, TopicCallbacks, TopicReentry: TopicTree.h over a store of topics and subscribers with
    its intrusive list and message indices; the refinement to one queue per subscriber, that every message is
    sent once and in order, and what calls from inside callbacks do. A publish that comes to a vector of 65535 messages
    while no subscriber has any (those of freed subscribers stay there) is outside the refinement.
  \<^item> SniTree: sni_tree.cpp as a map of label lists.

  \<^bold>\<open>Bounds and fuel.\<close> Integers have the width of the source where the code packs or casts them (the chunk state,
    frame lengths, handler numbers, the \<open>int\<close> of a write); elsewhere they are natural numbers whose bound is a
    hypothesis of the theorem: segments below 4 GB, connections below 2 GB. Recursion follows the data;
  the loops of the parsers have a termination proof, and where a callback may call back into the topic
    tree the depth is a number \<open>lim\<close>: the theorems hold for every \<open>lim\<close>, or for every one that is not below
    the number of operations. The
  body loop of a response is a partial function, proved to return.

  \<^bold>\<open>What the theorems do not assume.\<close> Handlers, the kernel, inflating, random bytes and the date are arguments; nothing is
  assumed of them but what the hypotheses name (a kernel takes no more than it is given).

  \<^bold>\<open>Not modelled.\<close> The glue of contexts and applications (HttpContext.h, App.h, ClientApp.h, WebSocketClientContext.h),
  which mostly forwards to the modelled parts and to handlers of the user; timeouts; the wrappers of the Node addon; libuv,
  BoringSSL and zlib and the code that only calls them (eventing, openssl.c, bsd.c, connect.c, PerMessageDeflate.h beyond
  its options); the lists and timers of the event loop (context.c, loop.c).
\<close>

end
